(* ===== verification/Prelude.thy ===== *)
theory Prelude
  imports Main "HOL-Library.Word" "HOL-Library.Monad_Syntax" "HOL-Library.Multiset"
begin

text \<open>
  Shared vocabulary of the development: the widths of the Go integers, slices whose
  out-of-range use is a run-time panic (the value \<open>None\<close>), big-endian numbers, stable
  sorting, and the generic lemmas that the component theories rely on.  A Go byte slice is a
  \<open>byte list\<close>; a Go string is an Isabelle \<open>string\<close>, whose characters are bytes too.
\<close>

unbundle bit_operations_syntax

type_synonym byte = "8 word"
type_synonym u16 = "16 word"
type_synonym u32 = "32 word"
type_synonym u64 = "64 word"

named_theorems panic_free \<open>operations that never run into a Go run-time panic\<close>
named_theorems inv_intros \<open>preservation of component invariants\<close>
named_theorems frame_simps \<open>fields an operation leaves alone\<close>

section \<open>Indexing and slicing\<close>

text \<open>\<open>xs[i]\<close> and \<open>xs[a:b]\<close>: \<open>None\<close> is the run-time panic of an index out of range.\<close>

definition idx :: "'a list \<Rightarrow> nat \<Rightarrow> 'a option" where
  "idx xs i = (if i < length xs then Some (xs ! i) else None)"

definition subslice :: "'a list \<Rightarrow> nat \<Rightarrow> nat \<Rightarrow> 'a list option" where
  "subslice xs a b = (if a \<le> b \<and> b \<le> length xs then Some (take (b - a) (drop a xs)) else None)"

lemma idx_Some [simp]: "i < length xs \<Longrightarrow> idx xs i = Some (xs ! i)"
  by (simp add: idx_def)

lemma subslice_Some [simp]:
  "a \<le> b \<Longrightarrow> b \<le> length xs \<Longrightarrow> subslice xs a b = Some (take (b - a) (drop a xs))"
  by (simp add: subslice_def)

lemma idx_eq_Some_iff: "idx xs i = Some x \<longleftrightarrow> i < length xs \<and> xs ! i = x"
  by (simp add: idx_def)

lemma subslice_eq_Some_iff:
  "subslice xs a b = Some ys \<longleftrightarrow> a \<le> b \<and> b \<le> length xs \<and> ys = take (b - a) (drop a xs)"
  by (auto simp: subslice_def)

lemma length_subslice: "subslice xs a b = Some ys \<Longrightarrow> length ys = b - a"
  by (auto simp: subslice_eq_Some_iff)

lemma drop_append_exact: "length xs = n \<Longrightarrow> drop n (xs @ ys) = ys"
  by simp

lemma take_append_exact: "length xs = n \<Longrightarrow> take n (xs @ ys) = xs"
  by simp

section \<open>Big-endian numbers\<close>

definition be16 :: "byte \<Rightarrow> byte \<Rightarrow> nat" where
  "be16 hi lo = unat hi * 256 + unat lo"

definition be16_bytes :: "nat \<Rightarrow> byte list" where
  "be16_bytes n = [word_of_nat (n div 256), word_of_nat n]"

fun be_val :: "byte list \<Rightarrow> nat" where
  "be_val [] = 0"
| "be_val (b # bs) = unat b * 256 ^ length bs + be_val bs"

lemma byte_lt_256 [simp]: "unat (b :: byte) < 256"
proof -
  have "unat b < 2 ^ LENGTH(8)"
    by (rule unsigned_less)
  then show ?thesis by simp
qed

lemma byte_le_255: "unat (b :: byte) \<le> 255"
  using byte_lt_256 [of b] by linarith

lemma unat_byte_of_nat [simp]: "unat (word_of_nat n :: byte) = n mod 256"
  by (simp add: unat_of_nat)

lemma be16_lt: "be16 a b < 65536"
  using byte_lt_256 [of a] byte_lt_256 [of b] unfolding be16_def by linarith

lemma be16_roundtrip: "n < 65536 \<Longrightarrow> be16 (word_of_nat (n div 256)) (word_of_nat n) = n"
  by (simp add: be16_def)

lemma length_be16_bytes [simp]: "length (be16_bytes n) = 2"
  by (simp add: be16_bytes_def)

lemma be_val_append: "be_val (xs @ ys) = be_val xs * 256 ^ length ys + be_val ys"
  by (induction xs) (auto simp: algebra_simps power_add)

lemma be_val_lt: "be_val bs < 256 ^ length bs"
proof (induction bs)
  case Nil
  then show ?case by simp
next
  case (Cons b bs)
  have "unat b * 256 ^ length bs + be_val bs < (unat b + 1) * 256 ^ length bs"
    using Cons.IH by simp
  also have "\<dots> \<le> 256 * 256 ^ length bs"
    using byte_lt_256 [of b] by (intro mult_right_mono) (simp_all del: byte_lt_256)
  finally show ?case by simp
qed

section \<open>Stable sorting\<close>

text \<open>
  \<open>sort.SliceStable\<close> with a strict weak order \<open>lt\<close>: the sorted list in which equivalent
  elements keep their order.  \<open>insert_by\<close> puts an element after everything not greater.
\<close>

fun insert_by :: "('a \<Rightarrow> 'a \<Rightarrow> bool) \<Rightarrow> 'a \<Rightarrow> 'a list \<Rightarrow> 'a list" where
  "insert_by lt x [] = [x]"
| "insert_by lt x (y # ys) = (if lt y x then y # insert_by lt x ys else x # y # ys)"

definition stable_sort :: "('a \<Rightarrow> 'a \<Rightarrow> bool) \<Rightarrow> 'a list \<Rightarrow> 'a list" where
  "stable_sort lt xs = foldr (insert_by lt) xs []"

lemma stable_sort_Nil [simp]: "stable_sort lt [] = []"
  by (simp add: stable_sort_def)

lemma stable_sort_Cons [simp]: "stable_sort lt (x # xs) = insert_by lt x (stable_sort lt xs)"
  by (simp add: stable_sort_def)

lemma set_insert_by [simp]: "set (insert_by lt x ys) = insert x (set ys)"
  by (induction ys) auto

lemma length_insert_by [simp]: "length (insert_by lt x ys) = Suc (length ys)"
  by (induction ys) auto

lemma set_stable_sort [simp]: "set (stable_sort lt xs) = set xs"
  by (induction xs) auto

lemma length_stable_sort [simp]: "length (stable_sort lt xs) = length xs"
  by (induction xs) auto

lemma mset_insert_by [simp]: "mset (insert_by lt x ys) = add_mset x (mset ys)"
  by (induction ys) auto

lemma mset_stable_sort [simp]: "mset (stable_sort lt xs) = mset xs"
  by (induction xs) auto

text \<open>A key that the order refines is sorted.\<close>

lemma sorted_stable_sort:
  fixes k :: "'a \<Rightarrow> 'b :: linorder"
  assumes "\<And>a b. lt a b \<Longrightarrow> k a \<le> k b" "\<And>a b. \<not> lt a b \<Longrightarrow> k b \<le> k a"
  shows "sorted (map k (stable_sort lt xs))"
proof (induction xs)
  case (Cons x xs)
  have "sorted (map k ys) \<Longrightarrow> sorted (map k (insert_by lt x ys))" for ys
    by (induction ys) (auto intro: assms order_trans)
  then show ?case using Cons by simp
qed simp

text \<open>Sorting by an integer key is the library's stable \<open>sort_key\<close>.\<close>

lemma insert_by_key:
  "(\<And>a b. a \<in> insert x (set ys) \<Longrightarrow> b \<in> insert x (set ys) \<Longrightarrow> lt a b \<longleftrightarrow> k a < k b)
   \<Longrightarrow> insert_by lt x ys = insort_key (k :: 'a \<Rightarrow> 'b :: linorder) x ys"
  by (induction ys) (auto simp: not_less)

lemma stable_sort_key:
  assumes "\<And>a b. a \<in> set xs \<Longrightarrow> b \<in> set xs \<Longrightarrow> lt a b \<longleftrightarrow> k a < (k b :: 'b :: linorder)"
  shows "stable_sort lt xs = sort_key k xs"
  using assms
proof (induction xs)
  case Nil
  then show ?case by simp
next
  case (Cons x xs)
  have "stable_sort lt xs = sort_key k xs"
    by (rule Cons.IH) (simp add: Cons.prems)
  moreover have "insert_by lt x (sort_key k xs) = insort_key k x (sort_key k xs)"
    by (rule insert_by_key) (use Cons.prems in auto)
  ultimately show ?case by simp
qed

section \<open>Maps and sums\<close>

lemma map_upd_restrict: "x \<notin> A \<Longrightarrow> (m(x \<mapsto> v)) |` A = m |` A"
  by (auto simp: restrict_map_def fun_eq_iff)

text \<open>Sequencing of fallible steps: the first error wins.\<close>

definition ebind :: "'e + 'a \<Rightarrow> ('a \<Rightarrow> 'e + 'b) \<Rightarrow> 'e + 'b" where
  "ebind m f = (case m of Inl e \<Rightarrow> Inl e | Inr x \<Rightarrow> f x)"

lemma ebind_simps [simp]: "ebind (Inl e) f = Inl e" "ebind (Inr x) f = f x"
  by (simp_all add: ebind_def)

lemma ebind_eq_Inr: "ebind m f = Inr y \<longleftrightarrow> (\<exists>x. m = Inr x \<and> f x = Inr y)"
  by (cases m) auto

text \<open>Go's signed division and remainder truncate towards zero.\<close>

definition go_div :: "int \<Rightarrow> int \<Rightarrow> int" where
  "go_div a b = sgn a * sgn b * (\<bar>a\<bar> div \<bar>b\<bar>)"

definition go_mod :: "int \<Rightarrow> int \<Rightarrow> int" where
  "go_mod a b = a - b * go_div a b"

lemma go_div_nonneg [simp]: "0 \<le> a \<Longrightarrow> 0 < b \<Longrightarrow> go_div a b = a div b"
  by (cases "a = 0") (auto simp: go_div_def)

lemma go_mod_nonneg [simp]: "0 \<le> a \<Longrightarrow> 0 < b \<Longrightarrow> go_mod a b = a mod b"
  by (simp add: go_mod_def minus_mult_div_eq_mod)

text \<open>The value of an \<^verbatim>\<open>int64\<close> expression: its bits as a signed number.\<close>

definition wrap64 :: "int \<Rightarrow> int" where
  "wrap64 x = (x + 2 ^ 63) mod 2 ^ 64 - 2 ^ 63"

lemma wrap64_id: "- (2 ^ 63) \<le> x \<Longrightarrow> x < 2 ^ 63 \<Longrightarrow> wrap64 x = x"
  by (simp add: wrap64_def)

lemma wrap64_range: "- (2 ^ 63) \<le> wrap64 x \<and> wrap64 x < 2 ^ 63"
proof -
  obtain m where m: "m = (x + 2 ^ 63) mod 2 ^ 64" by simp
  have "0 \<le> m" "m < 2 ^ 64" unfolding m by simp_all
  then show ?thesis by (simp add: wrap64_def m [symmetric])
qed

end
