(* ===== verification/Core_Stream.thy ===== *)
theory Core_Stream
  imports Prelude "HOL-Library.Sublist"
begin

text \<open>
  The fan-out hub of \<^verbatim>\<open>internal/core\<close>: the media types (\<^verbatim>\<open>types.go\<close>), the stream
  with its readers (\<^verbatim>\<open>stream.go\<close>) and the states of a source (\<^verbatim>\<open>source.go\<close>).  A Go
  channel with its buffer is a \<open>chan\<close>; sending on or closing a closed channel is a run-time
  panic, the value \<open>None\<close>.  Readers are identified by numbers (pointer identity); the order in
  which the Go map of readers is walked is the order of the list \<open>attached\<close>, and
  \<open>push_all_spec\<close> shows that it does not matter.
\<close>

section \<open>Media types\<close>

datatype source_state = StateIdle | StateConnecting | StateRunning | StateError

datatype media_kind = MediaVideo | MediaAudio

datatype codec = CodecH264 | CodecH265 | CodecAAC

text \<open>The audio configuration is an opaque value of the codec library: its serialised bytes.\<close>

record track =
  track_id :: int
  kind :: media_kind
  track_codec :: codec
  clock_rate :: int
  sps :: "byte list"
  pps :: "byte list"
  vps :: "byte list"
  audio_config :: "byte list option"

definition is_video :: "track \<Rightarrow> bool" where
  "is_video t \<longleftrightarrow> kind t = MediaVideo"

record media_unit =
  unit_track :: int
  pts :: int
  ntp :: int
  random_access :: bool
  aus :: "byte list list"

section \<open>Channels and readers\<close>

record chan =
  cap :: nat
  buf :: "media_unit list"
  ch_closed :: bool
  dropped :: u64

record hub =
  tracks :: "track list"
  attached :: "nat list"
  closed :: bool
  bytes_in :: u64
  chans :: "nat \<rightharpoonup> chan"
  next_reader :: nat

definition new_stream :: "track list \<Rightarrow> hub" where
  "new_stream ts = \<lparr>tracks = ts, attached = [], closed = False, bytes_in = 0,
     chans = Map.empty, next_reader = 0\<rparr>"

definition video_track :: "hub \<Rightarrow> track option" where
  "video_track h = find is_video (tracks h)"

text \<open>\<^verbatim>\<open>Reader.push\<close>: a full buffer drops the unit and counts the drop.\<close>

definition push :: "chan \<Rightarrow> media_unit \<Rightarrow> chan option" where
  "push c u =
     (if ch_closed c then None
      else if length (buf c) < cap c then Some (c\<lparr>buf := buf c @ [u]\<rparr>)
      else Some (c\<lparr>dropped := dropped c + 1\<rparr>))"

fun push_all :: "nat list \<Rightarrow> media_unit \<Rightarrow> (nat \<rightharpoonup> chan) \<Rightarrow> (nat \<rightharpoonup> chan) option" where
  "push_all [] u cs = Some cs"
| "push_all (r # rs) u cs =
     (case cs r of
        None \<Rightarrow> None
      | Some c \<Rightarrow> (case push c u of None \<Rightarrow> None | Some c' \<Rightarrow> push_all rs u (cs(r \<mapsto> c'))))"

definition payload_len :: "media_unit \<Rightarrow> nat" where
  "payload_len u = sum_list (map length (aus u))"

definition write_unit :: "hub \<Rightarrow> media_unit \<Rightarrow> hub option" where
  "write_unit h u =
     (if closed h then Some h
      else case push_all (attached h) u (chans h) of
             None \<Rightarrow> None
           | Some cs \<Rightarrow> Some (h\<lparr>bytes_in := bytes_in h + of_nat (payload_len u), chans := cs\<rparr>))"

definition add_reader :: "hub \<Rightarrow> int \<Rightarrow> nat \<times> hub" where
  "add_reader h buf_size =
     (let n = (if buf_size \<le> 0 then 512 else nat buf_size);
          r = next_reader h;
          c = \<lparr>cap = n, buf = [], ch_closed = False, dropped = 0\<rparr>
      in (r, h\<lparr>attached := attached h @ [r], chans := (chans h)(r \<mapsto> c), next_reader := Suc r\<rparr>))"

text \<open>\<^verbatim>\<open>close(ch)\<close>: closing a closed channel panics.\<close>

definition close_chan :: "(nat \<rightharpoonup> chan) \<Rightarrow> nat \<Rightarrow> (nat \<rightharpoonup> chan) option" where
  "close_chan cs r =
     (case cs r of
        None \<Rightarrow> None
      | Some c \<Rightarrow> if ch_closed c then None else Some (cs(r \<mapsto> c\<lparr>ch_closed := True\<rparr>)))"

definition remove_reader :: "hub \<Rightarrow> nat \<Rightarrow> hub option" where
  "remove_reader h r =
     (if r \<in> set (attached h)
      then (case close_chan (chans h) r of
              None \<Rightarrow> None
            | Some cs \<Rightarrow> Some (h\<lparr>attached := removeAll r (attached h), chans := cs\<rparr>))
      else Some h)"

fun close_readers :: "nat list \<Rightarrow> (nat \<rightharpoonup> chan) \<Rightarrow> (nat \<rightharpoonup> chan) option" where
  "close_readers [] cs = Some cs"
| "close_readers (r # rs) cs =
     (case close_chan cs r of None \<Rightarrow> None | Some cs' \<Rightarrow> close_readers rs cs')"

definition close_stream :: "hub \<Rightarrow> hub option" where
  "close_stream h =
     (if closed h then Some h
      else case close_readers (attached h) (chans h) of
             None \<Rightarrow> None
           | Some cs \<Rightarrow> Some (h\<lparr>closed := True, attached := [], chans := cs\<rparr>))"

text \<open>The consumer's receive \<^verbatim>\<open>u, ok := <-r.Units()\<close>.\<close>

datatype recv_result = Received media_unit | NotOk | Blocks

definition recv :: "hub \<Rightarrow> nat \<Rightarrow> recv_result \<times> hub" where
  "recv h r =
     (case chans h r of
        None \<Rightarrow> (Blocks, h)
      | Some c \<Rightarrow>
          (case buf c of
             [] \<Rightarrow> (if ch_closed c then NotOk else Blocks, h)
           | u # us \<Rightarrow> (Received u, h\<lparr>chans := (chans h)(r \<mapsto> c\<lparr>buf := us\<rparr>)\<rparr>)))"

section \<open>Runs of the hub\<close>

datatype hub_event = Write media_unit | Add int | Remove nat | Close | Recv nat

fun hub_step :: "hub \<Rightarrow> hub_event \<Rightarrow> hub option" where
  "hub_step h (Write u) = write_unit h u"
| "hub_step h (Add n) = Some (snd (add_reader h n))"
| "hub_step h (Remove r) = remove_reader h r"
| "hub_step h Close = close_stream h"
| "hub_step h (Recv r) = Some (snd (recv h r))"

fun hub_run :: "hub \<Rightarrow> hub_event list \<Rightarrow> hub option" where
  "hub_run h [] = Some h"
| "hub_run h (e # es) = (case hub_step h e of None \<Rightarrow> None | Some h' \<Rightarrow> hub_run h' es)"

text \<open>The units a reader is offered by one step, and the units it takes from its channel.\<close>

fun step_offered :: "nat \<Rightarrow> hub \<Rightarrow> hub_event \<Rightarrow> media_unit list" where
  "step_offered r h (Write u) = (if \<not> closed h \<and> r \<in> set (attached h) then [u] else [])"
| "step_offered r h _ = []"

fun step_taken :: "nat \<Rightarrow> hub \<Rightarrow> hub_event \<Rightarrow> media_unit list" where
  "step_taken r h (Recv q) =
     (if q = r then (case fst (recv h r) of Received u \<Rightarrow> [u] | _ \<Rightarrow> []) else [])"
| "step_taken r h _ = []"

fun run_offered :: "nat \<Rightarrow> hub \<Rightarrow> hub_event list \<Rightarrow> media_unit list" where
  "run_offered r h [] = []"
| "run_offered r h (e # es) =
     step_offered r h e @ (case hub_step h e of None \<Rightarrow> [] | Some h' \<Rightarrow> run_offered r h' es)"

fun run_taken :: "nat \<Rightarrow> hub \<Rightarrow> hub_event list \<Rightarrow> media_unit list" where
  "run_taken r h [] = []"
| "run_taken r h (e # es) =
     step_taken r h e @ (case hub_step h e of None \<Rightarrow> [] | Some h' \<Rightarrow> run_taken r h' es)"

section \<open>The invariant\<close>

text \<open>
  A registered reader has an open channel, an unregistered one a closed channel; buffers stay
  within their capacity; reader numbers are fresh.
\<close>

definition chan_ok :: "hub \<Rightarrow> nat \<Rightarrow> chan \<Rightarrow> bool" where
  "chan_ok h r c \<longleftrightarrow> length (buf c) \<le> cap c \<and> 0 < cap c \<and> (ch_closed c \<longleftrightarrow> r \<notin> set (attached h))"

definition hub_inv :: "hub \<Rightarrow> bool" where
  "hub_inv h \<longleftrightarrow>
     distinct (attached h) \<and> set (attached h) \<subseteq> dom (chans h) \<and>
     dom (chans h) \<subseteq> {..<next_reader h} \<and> (\<forall>r c. chans h r = Some c \<longrightarrow> chan_ok h r c)"

lemma hub_inv_new [inv_intros]: "hub_inv (new_stream ts)"
  by (simp add: hub_inv_def new_stream_def)

definition push1 :: "media_unit \<Rightarrow> chan \<Rightarrow> chan" where
  "push1 u c =
     (if length (buf c) < cap c then c\<lparr>buf := buf c @ [u]\<rparr> else c\<lparr>dropped := dropped c + 1\<rparr>)"

lemma push_open [simp]: "\<not> ch_closed c \<Longrightarrow> push c u = Some (push1 u c)"
  by (simp add: push_def push1_def)

lemma push_all_spec:
  "distinct rs \<Longrightarrow> (\<And>r. r \<in> set rs \<Longrightarrow> \<exists>c. cs r = Some c \<and> \<not> ch_closed c) \<Longrightarrow>
   push_all rs u cs = Some (\<lambda>r. if r \<in> set rs then map_option (push1 u) (cs r) else cs r)"
proof (induction rs arbitrary: cs)
  case Nil
  then show ?case by simp
next
  case (Cons r rs)
  from Cons.prems obtain c where c: "cs r = Some c" "\<not> ch_closed c" by fastforce
  have "push_all rs u (cs(r \<mapsto> push1 u c)) =
      Some (\<lambda>q. if q \<in> set rs then map_option (push1 u) ((cs(r \<mapsto> push1 u c)) q)
                else (cs(r \<mapsto> push1 u c)) q)"
    using Cons.prems by (intro Cons.IH) auto
  with c Cons.prems(1) show ?case by (auto simp: fun_eq_iff)
qed

lemma close_readers_spec:
  "distinct rs \<Longrightarrow> (\<And>r. r \<in> set rs \<Longrightarrow> \<exists>c. cs r = Some c \<and> \<not> ch_closed c) \<Longrightarrow>
   close_readers rs cs =
     Some (\<lambda>r. if r \<in> set rs then map_option (\<lambda>c. c\<lparr>ch_closed := True\<rparr>) (cs r) else cs r)"
proof (induction rs arbitrary: cs)
  case Nil
  then show ?case by simp
next
  case (Cons r rs)
  from Cons.prems obtain c where c: "cs r = Some c" "\<not> ch_closed c" by fastforce
  have "close_readers rs (cs(r \<mapsto> c\<lparr>ch_closed := True\<rparr>)) =
      Some (\<lambda>q. if q \<in> set rs
                then map_option (\<lambda>c. c\<lparr>ch_closed := True\<rparr>) ((cs(r \<mapsto> c\<lparr>ch_closed := True\<rparr>)) q)
                else (cs(r \<mapsto> c\<lparr>ch_closed := True\<rparr>)) q)"
    using Cons.prems by (intro Cons.IH) auto
  with c Cons.prems(1) show ?case by (auto simp: fun_eq_iff close_chan_def)
qed

lemma inv_open: "hub_inv h \<Longrightarrow> r \<in> set (attached h) \<Longrightarrow> \<exists>c. chans h r = Some c \<and> \<not> ch_closed c"
  unfolding hub_inv_def chan_ok_def by blast

lemma write_unit_eq:
  assumes "hub_inv h"
  shows "write_unit h u =
    Some (if closed h then h
          else h\<lparr>bytes_in := bytes_in h + of_nat (payload_len u),
                 chans := (\<lambda>r. if r \<in> set (attached h) then map_option (push1 u) (chans h r)
                              else chans h r)\<rparr>)"
  using assms inv_open [OF assms]
  by (simp add: write_unit_def push_all_spec hub_inv_def)

lemma close_stream_eq:
  assumes "hub_inv h"
  shows "close_stream h =
    Some (if closed h then h
          else h\<lparr>closed := True, attached := [],
                 chans := (\<lambda>r. if r \<in> set (attached h)
                              then map_option (\<lambda>c. c\<lparr>ch_closed := True\<rparr>) (chans h r)
                              else chans h r)\<rparr>)"
  using assms inv_open [OF assms]
  by (simp add: close_stream_def close_readers_spec hub_inv_def)

lemma remove_reader_eq:
  assumes "hub_inv h"
  shows "remove_reader h r =
    Some (if r \<in> set (attached h)
          then h\<lparr>attached := removeAll r (attached h),
                 chans := (chans h)(r := map_option (\<lambda>c. c\<lparr>ch_closed := True\<rparr>) (chans h r))\<rparr>
          else h)"
  using inv_open [OF assms, of r] by (auto simp: remove_reader_def close_chan_def)

lemma push1_simps [simp]:
  "cap (push1 u c) = cap c" "ch_closed (push1 u c) = ch_closed c"
  "length (buf c) \<le> cap c \<Longrightarrow> length (buf (push1 u c)) \<le> cap c"
  by (auto simp: push1_def)

lemma write_unit_inv [inv_intros]:
  "hub_inv h \<Longrightarrow> \<exists>h'. write_unit h u = Some h' \<and> hub_inv h'"
  by (auto simp: write_unit_eq hub_inv_def chan_ok_def subset_iff dom_def split: if_splits)

lemma add_reader_inv [inv_intros]: "hub_inv h \<Longrightarrow> hub_inv (snd (add_reader h n))"
  by (auto simp: hub_inv_def chan_ok_def add_reader_def Let_def subset_iff dom_def less_Suc_eq
      split: if_splits)

lemma remove_reader_inv [inv_intros]:
  "hub_inv h \<Longrightarrow> \<exists>h'. remove_reader h r = Some h' \<and> hub_inv h'"
  by (auto simp: remove_reader_eq hub_inv_def chan_ok_def subset_iff dom_def distinct_removeAll
      split: if_splits)

lemma close_stream_inv [inv_intros]:
  "hub_inv h \<Longrightarrow> \<exists>h'. close_stream h = Some h' \<and> hub_inv h'"
  by (auto simp: close_stream_eq hub_inv_def chan_ok_def subset_iff dom_def split: if_splits)

lemma recv_inv [inv_intros]: "hub_inv h \<Longrightarrow> hub_inv (snd (recv h r))"
  by (fastforce simp: recv_def hub_inv_def chan_ok_def dom_def
      split: option.splits list.splits if_splits)

lemma hub_step_inv: "hub_inv h \<Longrightarrow> \<exists>h'. hub_step h e = Some h' \<and> hub_inv h'"
  by (cases e) (auto intro: inv_intros)

lemma hub_run_inv: "hub_inv h \<Longrightarrow> \<exists>h'. hub_run h es = Some h' \<and> hub_inv h'"
proof (induction es arbitrary: h)
  case Nil
  then show ?case by simp
next
  case (Cons e es)
  obtain h1 where "hub_step h e = Some h1" "hub_inv h1"
    using hub_step_inv [OF Cons.prems] by blast
  then show ?case using Cons.IH by simp
qed

text \<open>
  C1: the hub never runs into a Go run-time panic (send on a closed channel, double close),
  whatever the interleaving of writes, attachments, removals, closes and receives, and every
  reachable state has the invariant: registered readers have open channels with bounded buffers.
\<close>

theorem hub_never_panics: "\<exists>h. hub_run (new_stream ts) es = Some h \<and> hub_inv h"
  by (rule hub_run_inv [OF hub_inv_new])

section \<open>What a reader receives\<close>

definition accounted ::
  "chan \<Rightarrow> media_unit list \<Rightarrow> media_unit list \<Rightarrow> chan \<Rightarrow> bool" where
  "accounted c offered taken c' \<longleftrightarrow>
     subseq (taken @ buf c') (buf c @ offered) \<and>
     dropped c' + of_nat (length taken + length (buf c')) =
     dropped c + of_nat (length (buf c) + length offered)"

lemma accounted_refl [simp]: "accounted c [] [] c"
  by (simp add: accounted_def)

lemma accounted_trans:
  assumes "accounted c o1 t1 c1" and "accounted c1 o2 t2 c2"
  shows "accounted c (o1 @ o2) (t1 @ t2) c2"
proof -
  have "subseq (t1 @ (t2 @ buf c2)) (t1 @ (buf c1 @ o2))"
    using assms(2) by (simp add: accounted_def subseq_append')
  moreover have s1: "subseq (t1 @ buf c1) (buf c @ o1)"
    using assms(1) by (simp add: accounted_def)
  have "subseq ((t1 @ buf c1) @ o2) ((buf c @ o1) @ o2)"
    by (rule list_emb_append_mono [OF s1]) simp
  ultimately have "subseq ((t1 @ t2) @ buf c2) (buf c @ o1 @ o2)"
    by (metis append.assoc subseq_order.order_trans)
  moreover have "dropped c2 + of_nat (length (t1 @ t2) + length (buf c2)) =
      dropped c + of_nat (length (buf c) + length (o1 @ o2))"
  proof -
    have 1: "dropped c1 + (of_nat (length t1) + of_nat (length (buf c1))) =
        dropped c + (of_nat (length (buf c)) + of_nat (length o1))"
      using assms(1) by (simp add: accounted_def)
    have 2: "dropped c2 + (of_nat (length t2) + of_nat (length (buf c2))) =
        dropped c1 + (of_nat (length (buf c1)) + of_nat (length o2))"
      using assms(2) by (simp add: accounted_def)
    have "dropped c2 + (of_nat (length t1) + of_nat (length t2) + of_nat (length (buf c2))) =
        (dropped c2 + (of_nat (length t2) + of_nat (length (buf c2)))) + of_nat (length t1)"
      by (simp add: algebra_simps)
    also have "\<dots> = (dropped c1 + (of_nat (length t1) + of_nat (length (buf c1)))) + of_nat (length o2)"
      by (simp add: 2 algebra_simps)
    also have "\<dots> = dropped c + (of_nat (length (buf c)) + (of_nat (length o1) + of_nat (length o2)))"
      by (simp add: 1 algebra_simps)
    finally show ?thesis by (simp add: algebra_simps)
  qed
  ultimately show ?thesis by (simp add: accounted_def)
qed

lemma accounted_push1: "length (buf c) \<le> cap c \<Longrightarrow> accounted c [u] [] (push1 u c)"
  by (auto simp: accounted_def push1_def)

lemma hub_step_accounted:
  assumes inv: "hub_inv h" and c: "chans h r = Some c" and step: "hub_step h e = Some h'"
  shows "\<exists>c'. chans h' r = Some c' \<and> accounted c (step_offered r h e) (step_taken r h e) c'"
proof (cases e)
  case (Write u)
  have "length (buf c) \<le> cap c" using inv c by (auto simp: hub_inv_def chan_ok_def)
  then show ?thesis
    using step c accounted_push1 [of c u] by (auto simp: Write write_unit_eq [OF inv] split: if_splits)
next
  case (Add n)
  have "r \<noteq> next_reader h" using inv c by (auto simp: hub_inv_def)
  then show ?thesis using step c by (auto simp: Add add_reader_def Let_def)
next
  case (Remove q)
  show ?thesis
    using step c by (auto simp: Remove remove_reader_eq [OF inv] accounted_def split: if_splits)
next
  case Close
  show ?thesis
    using step c by (auto simp: Close close_stream_eq [OF inv] accounted_def split: if_splits)
next
  case (Recv q)
  show ?thesis
    using step c
    by (auto simp: Recv recv_def accounted_def split: option.splits list.splits if_splits)
qed

text \<open>
  C2: the units a reader takes out, followed by those still buffered, are in order a subsequence
  of what was buffered before followed by what the hub wrote while the reader was attached, and
  the drop counter accounts for exactly the missing ones (the counter is a 64-bit word).
\<close>

theorem reader_accounting:
  assumes "hub_inv h" and "chans h r = Some c" and "hub_run h es = Some h'"
  shows "\<exists>c'. chans h' r = Some c' \<and> accounted c (run_offered r h es) (run_taken r h es) c'"
  using assms
proof (induction es arbitrary: h c)
  case Nil
  then show ?case by simp
next
  case (Cons e es)
  obtain h1 where h1: "hub_step h e = Some h1" "hub_inv h1"
    using hub_step_inv [OF Cons.prems(1)] by blast
  obtain c1 where c1: "chans h1 r = Some c1"
    and a1: "accounted c (step_offered r h e) (step_taken r h e) c1"
    using hub_step_accounted [OF Cons.prems(1,2) h1(1)] by blast
  have "hub_run h1 es = Some h'" using Cons.prems(3) h1(1) by simp
  then obtain c' where "chans h' r = Some c'"
    and "accounted c1 (run_offered r h1 es) (run_taken r h1 es) c'"
    using Cons.IH [OF h1(2) c1] by blast
  then show ?case using accounted_trans [OF a1] h1(1) by auto
qed

definition sample_unit :: "int \<Rightarrow> media_unit" where
  "sample_unit t = \<lparr>unit_track = 1, pts = t, ntp = 0, random_access = False, aus = [[1, 2]]\<rparr>"

definition sample_hub :: hub where
  "sample_hub = snd (add_reader (new_stream []) 2)"

definition sample_events :: "hub_event list" where
  "sample_events = [Write (sample_unit 1), Write (sample_unit 2), Write (sample_unit 3), Recv 0]"

lemma sample_hub_inv: "hub_inv sample_hub"
  by (simp add: sample_hub_def add_reader_inv hub_inv_new)

theorem reader_accounting_witness:
  "\<exists>h' c'. hub_run sample_hub sample_events = Some h' \<and> chans h' 0 = Some c' \<and>
     accounted \<lparr>cap = 2, buf = [], ch_closed = False, dropped = 0\<rparr>
       (run_offered 0 sample_hub sample_events) (run_taken 0 sample_hub sample_events) c'"
proof -
  have c: "chans sample_hub 0 = Some \<lparr>cap = 2, buf = [], ch_closed = False, dropped = 0\<rparr>"
    by (simp add: sample_hub_def add_reader_def new_stream_def Let_def)
  obtain h' where h': "hub_run sample_hub sample_events = Some h'"
    using hub_run_inv [OF sample_hub_inv] by blast
  show ?thesis using reader_accounting [OF sample_hub_inv c h'] h' by blast
qed

section \<open>Attaching to a closed stream\<close>

definition stuck_reader :: "nat \<Rightarrow> hub \<Rightarrow> bool" where
  "stuck_reader r h \<longleftrightarrow>
     hub_inv h \<and> closed h \<and> (\<exists>c. chans h r = Some c \<and> buf c = [] \<and> \<not> ch_closed c)"

lemma stuck_reader_step:
  assumes "stuck_reader r h" and "e \<noteq> Remove r" and "hub_step h e = Some h'"
  shows "stuck_reader r h'"
proof -
  obtain c where inv: "hub_inv h" and cl: "closed h"
    and c: "chans h r = Some c" "buf c = []" "\<not> ch_closed c"
    using assms(1) unfolding stuck_reader_def by blast
  have "hub_inv h'" using hub_step_inv [OF inv, of e] assms(3) by simp
  moreover have "r \<noteq> next_reader h" using inv c(1) by (auto simp: hub_inv_def)
  ultimately show ?thesis
    using assms(2,3) cl c
    by (cases e)
      (auto simp: stuck_reader_def write_unit_def close_stream_def remove_reader_eq [OF inv]
        add_reader_def Let_def recv_def split: option.splits list.splits if_splits)
qed

lemma stuck_reader_run:
  "stuck_reader r h \<Longrightarrow> Remove r \<notin> set es \<Longrightarrow> hub_run h es = Some h' \<Longrightarrow> stuck_reader r h'"
proof (induction es arbitrary: h)
  case Nil
  then show ?case by simp
next
  case (Cons e es)
  from Cons.prems(3) obtain h1 where h1: "hub_step h e = Some h1" "hub_run h1 es = Some h'"
    by (auto split: option.splits)
  have "stuck_reader r h1"
    by (rule stuck_reader_step [OF Cons.prems(1) _ h1(1)]) (use Cons.prems(2) in auto)
  then show ?case using Cons.IH h1(2) Cons.prems(2) by simp
qed



end
