(* ===== verification/Gb_Rtp.thy ===== *)
theory Gb_Rtp
  imports Prelude
begin

text \<open>
  Reassembly of RTP packets into media frames (\<^verbatim>\<open>internal/gb28181/rtp.go\<close>).  The callback
  \<^verbatim>\<open>onFrame\<close> is modelled by the list of frames a step emits.  Sequence numbers and timestamps
  keep their widths: the comparison of two sequence numbers is the sign of their 16-bit
  difference, as in the code.
\<close>

section \<open>State and operations\<close>

record rtp_frame =
  timestamp :: u32
  data :: "byte list"

record seq_payload =
  seq :: u16
  payload :: "byte list"

definition max_packets_per_frame :: nat where
  "max_packets_per_frame = 8192"

record frame_assembler =
  have_frame :: bool
  asm_ts :: u32
  pkts :: "seq_payload list"

definition new_assembler :: frame_assembler where
  "new_assembler = \<lparr>have_frame = False, asm_ts = 0, pkts = []\<rparr>"

definition seq_less :: "seq_payload \<Rightarrow> seq_payload \<Rightarrow> bool" where
  "seq_less p q \<longleftrightarrow> sint (seq p - seq q) < 0"

definition flush :: "frame_assembler \<Rightarrow> frame_assembler \<times> rtp_frame list" where
  "flush a =
     (if \<not> have_frame a \<or> pkts a = [] then (a\<lparr>have_frame := False, pkts := []\<rparr>, [])
      else (a\<lparr>have_frame := False, pkts := []\<rparr>,
            [\<lparr>timestamp = asm_ts a,
              data = concat (map payload (stable_sort seq_less (pkts a)))\<rparr>]))"

definition push_packet ::
  "frame_assembler \<Rightarrow> u16 \<Rightarrow> u32 \<Rightarrow> bool \<Rightarrow> byte list \<Rightarrow> frame_assembler \<times> rtp_frame list" where
  "push_packet a sq ts marker pl =
     (let (a1, out1) = (if have_frame a \<and> ts \<noteq> asm_ts a then flush a else (a, []));
          a2 = (if \<not> have_frame a1 then a1\<lparr>have_frame := True, asm_ts := ts\<rparr> else a1);
          a3 = (if length (pkts a2) < max_packets_per_frame
                then a2\<lparr>pkts := pkts a2 @ [\<lparr>seq = sq, payload = pl\<rparr>]\<rparr> else a2);
          (a4, out2) = (if marker then flush a3 else (a3, []))
      in (a4, out1 @ out2))"

record rtp_packet =
  rp_seq :: u16
  rp_ts :: u32
  rp_marker :: bool
  rp_payload :: "byte list"

fun push_packets ::
  "frame_assembler \<Rightarrow> rtp_packet list \<Rightarrow> frame_assembler \<times> rtp_frame list" where
  "push_packets a [] = (a, [])"
| "push_packets a (p # ps) =
     (let (a1, o1) = push_packet a (rp_seq p) (rp_ts p) (rp_marker p) (rp_payload p);
          (a2, o2) = push_packets a1 ps
      in (a2, o1 @ o2))"

section \<open>Bounded memory\<close>

definition asm_inv :: "frame_assembler \<Rightarrow> bool" where
  "asm_inv a \<longleftrightarrow> (have_frame a \<longleftrightarrow> pkts a \<noteq> []) \<and> length (pkts a) \<le> max_packets_per_frame"

lemma asm_inv_new: "asm_inv new_assembler"
  by (simp add: asm_inv_def new_assembler_def)

lemma flush_clears: "have_frame (fst (flush a)) = False \<and> pkts (fst (flush a)) = []"
  by (simp add: flush_def)

lemma push_packet_inv [inv_intros]:
  "asm_inv a \<Longrightarrow> asm_inv (fst (push_packet a sq ts m pl))"
  by (auto simp: asm_inv_def push_packet_def Let_def flush_def max_packets_per_frame_def)

lemma push_packets_inv: "asm_inv a \<Longrightarrow> asm_inv (fst (push_packets a ps))"
proof (induction ps arbitrary: a)
  case Nil
  then show ?case by simp
next
  case (Cons p ps)
  have "asm_inv (fst (push_packet a (rp_seq p) (rp_ts p) (rp_marker p) (rp_payload p)))"
    by (rule push_packet_inv [OF Cons.prems])
  then show ?case
    using Cons.IH by (simp add: Let_def split: prod.splits) (metis fst_conv)
qed

section \<open>Order within a frame\<close>

lemma sint_small_diff:
  assumes "m < 32768" and "n < 32768"
  shows "sint (word_of_nat m - word_of_nat n :: u16) = int m - int n"
proof -
  have eq: "(word_of_nat m - word_of_nat n :: u16) = word_of_int (int m - int n)"
    by simp
  have "sint (word_of_int (int m - int n) :: u16) = int m - int n"
    by (subst sint_sbintrunc') (rule signed_take_bit_int_eq_self, use assms in simp_all)
  then show ?thesis by (simp only: eq)
qed

text \<open>
  Packets whose sequence numbers lie within half the number space above some base are compared
  by their distance from that base, also across the wrap at 65536.
\<close>

lemma seq_less_window:
  assumes "unat (seq p - base) < 32768" and "unat (seq q - base) < 32768"
  shows "seq_less p q \<longleftrightarrow> unat (seq p - base) < unat (seq q - base)"
proof -
  have eq: "seq p - seq q = word_of_nat (unat (seq p - base)) - word_of_nat (unat (seq q - base))"
    by simp
  have "sint (seq p - seq q) = int (unat (seq p - base)) - int (unat (seq q - base))"
    by (subst eq) (rule sint_small_diff [OF assms])
  then show ?thesis unfolding seq_less_def by linarith
qed

lemma stable_sort_window:
  assumes "\<And>p. p \<in> set ps \<Longrightarrow> unat (seq p - base) < 32768"
  shows "stable_sort seq_less ps = sort_key (\<lambda>p. unat (seq p - base)) ps"
  by (rule stable_sort_key) (simp add: assms seq_less_window)

definition frame_packets :: "u16 \<Rightarrow> byte list list \<Rightarrow> seq_payload list" where
  "frame_packets base pls =
     map (\<lambda>i. \<lparr>seq = base + word_of_nat i, payload = pls ! i\<rparr>) [0..<length pls]"

lemma frame_packets_key:
  "length pls \<le> 32768 \<Longrightarrow>
   map (\<lambda>p. unat (seq p - base)) (frame_packets base pls) = [0..<length pls]"
  by (rule nth_equalityI) (auto simp: frame_packets_def unat_of_nat)

lemma map_payload_frame_packets: "map payload (frame_packets base pls) = pls"
  by (rule nth_equalityI) (auto simp: frame_packets_def)

lemma sort_permuted_frame:
  assumes "mset ps = mset (frame_packets base pls)" and "length pls \<le> 32768"
  shows "stable_sort seq_less ps = frame_packets base pls"
proof -
  define k where "k = (\<lambda>p :: seq_payload. unat (seq p - base))"
  have keys: "map k (frame_packets base pls) = [0..<length pls]"
    unfolding k_def by (rule frame_packets_key [OF assms(2)])
  have inj: "inj_on k (set (frame_packets base pls))"
  proof -
    have "distinct (map k (frame_packets base pls))" by (simp add: keys)
    then show ?thesis by (simp add: distinct_map)
  qed
  have sets: "set ps = set (frame_packets base pls)"
    using assms(1) by (rule mset_eq_setD)
  have "unat (seq p - base) < 32768" if "p \<in> set ps" for p
  proof -
    have "k p \<in> set (map k (frame_packets base pls))" using that sets by simp
    then have "k p < 32768" unfolding keys using assms(2) by simp
    then show ?thesis by (simp add: k_def)
  qed
  then have "stable_sort seq_less ps = sort_key k ps"
    unfolding k_def by (rule stable_sort_window)
  also have "\<dots> = frame_packets base pls"
  proof (rule properties_for_sort_key)
    show "mset (frame_packets base pls) = mset ps" by (simp add: assms(1))
    show "sorted (map k (frame_packets base pls))" by (simp add: keys)
    show "filter (\<lambda>x. k p = k x) (frame_packets base pls) = filter (\<lambda>x. k p = k x) ps"
      if "p \<in> set (frame_packets base pls)" for p
    proof -
      have only: "filter (\<lambda>x. k p = k x) xs = filter (\<lambda>x. x = p) xs"
        if "set xs = set (frame_packets base pls)" for xs
        using inj \<open>p \<in> set (frame_packets base pls)\<close> that
        by (intro filter_cong) (auto dest: inj_onD)
      have "filter (\<lambda>x. x = p) xs = replicate (count (mset xs) p) p" for xs
        by (induction xs) auto
      then show ?thesis using only sets assms(1) by metis
    qed
  qed
  finally show ?thesis .
qed

text \<open>
  Whatever the sender does, the assembler never buffers more than 8192 packets, and it
  holds a frame exactly when it has buffered packets.
\<close>

theorem assembler_bounded: "asm_inv (fst (push_packets new_assembler ps))"
  by (rule push_packets_inv [OF asm_inv_new])

definition idle :: "frame_assembler \<Rightarrow> bool" where
  "idle a \<longleftrightarrow> \<not> have_frame a \<and> pkts a = []"

definition buffered :: "rtp_packet \<Rightarrow> seq_payload" where
  "buffered p = \<lparr>seq = rp_seq p, payload = rp_payload p\<rparr>"

lemma push_packets_append:
  "push_packets a (ps @ qs) =
     (let (a1, o1) = push_packets a ps; (a2, o2) = push_packets a1 qs in (a2, o1 @ o2))"
  by (induction ps arbitrary: a) (auto simp: Let_def split: prod.splits)

lemma push_same_frame:
  assumes "have_frame a" and "asm_ts a = ts"
    and "\<And>p. p \<in> set ps \<Longrightarrow> rp_ts p = ts \<and> \<not> rp_marker p"
    and "length (pkts a) + length ps \<le> max_packets_per_frame"
  shows "push_packets a ps = (a\<lparr>pkts := pkts a @ map buffered ps\<rparr>, [])"
  using assms
proof (induction ps arbitrary: a)
  case Nil
  then show ?case by simp
next
  case (Cons p ps)
  let ?a = "a\<lparr>pkts := pkts a @ [buffered p]\<rparr>"
  have "push_packet a (rp_seq p) (rp_ts p) (rp_marker p) (rp_payload p) = (?a, [])"
    using Cons.prems by (simp add: push_packet_def Let_def buffered_def)
  moreover have "push_packets ?a ps = (?a\<lparr>pkts := pkts ?a @ map buffered ps\<rparr>, [])"
    using Cons.prems by (intro Cons.IH) auto
  ultimately show ?case by simp
qed

lemma push_idle_frame:
  assumes "idle a" and "ps \<noteq> []"
    and "\<And>p. p \<in> set ps \<Longrightarrow> rp_ts p = ts \<and> \<not> rp_marker p"
    and "length ps \<le> max_packets_per_frame"
  shows "push_packets a ps = (a\<lparr>have_frame := True, asm_ts := ts, pkts := map buffered ps\<rparr>, [])"
proof -
  obtain p qs where ps: "ps = p # qs" using assms(2) by (cases ps) auto
  let ?a = "a\<lparr>have_frame := True, asm_ts := ts, pkts := [buffered p]\<rparr>"
  have "push_packet a (rp_seq p) (rp_ts p) (rp_marker p) (rp_payload p) = (?a, [])"
    using assms by (auto simp: push_packet_def Let_def idle_def ps buffered_def
        max_packets_per_frame_def)
  moreover have "push_packets ?a qs = (?a\<lparr>pkts := pkts ?a @ map buffered qs\<rparr>, [])"
    using assms by (intro push_same_frame) (auto simp: ps)
  ultimately show ?thesis by (simp add: ps)
qed

lemma push_last:
  assumes "have_frame a" and "pkts a \<noteq> []" and "rp_ts p = asm_ts a" and "rp_marker p"
    and "length (pkts a) < max_packets_per_frame"
  shows "push_packets a [p] =
    (a\<lparr>have_frame := False, pkts := []\<rparr>,
     [\<lparr>timestamp = asm_ts a,
       data = concat (map payload (stable_sort seq_less (pkts a @ [buffered p])))\<rparr>])"
  using assms by (simp add: push_packet_def Let_def flush_def buffered_def)


definition sample_packet :: "u16 \<Rightarrow> bool \<Rightarrow> byte list \<Rightarrow> rtp_packet" where
  "sample_packet s m pl = \<lparr>rp_seq = s, rp_ts = 9000, rp_marker = m, rp_payload = pl\<rparr>"


end
