(* ===== verification/Gb_Ps.thy ===== *)
theory Gb_Ps
  imports Prelude "HOL-Library.Sublist"
begin

text \<open>
  The MPEG-2 program-stream demultiplexer (\<^verbatim>\<open>internal/gb28181/ps.go\<close>).  Every index and
  slice expression of the code is written with \<open>idx\<close> or \<open>subslice\<close>, so that an access out of
  range would make the result \<open>None\<close>; \<open>demux_total\<close> shows that this never happens on any
  input, and that the loop ends.  Offsets are natural numbers (they never become negative),
  timestamps are the 64-bit pattern of the Go \<^verbatim>\<open>int64\<close>.
\<close>

section \<open>Start codes and codec constants\<close>

definition ps_pack_start :: byte where "ps_pack_start = 0xBA"
definition ps_system_header :: byte where "ps_system_header = 0xBB"
definition ps_map_stream :: byte where "ps_map_stream = 0xBC"
definition ps_private1 :: byte where "ps_private1 = 0xBD"
definition ps_padding :: byte where "ps_padding = 0xBE"
definition ps_private2 :: byte where "ps_private2 = 0xBF"
definition ps_program_end :: byte where "ps_program_end = 0xB9"

definition stream_type_h264 :: byte where "stream_type_h264 = 0x1B"
definition stream_type_hevc :: byte where "stream_type_hevc = 0x24"

lemmas ps_codes = ps_pack_start_def ps_system_header_def ps_map_stream_def ps_private1_def
  ps_padding_def ps_private2_def ps_program_end_def

lemma ps_codes_distinct:
  "distinct [ps_pack_start, ps_system_header, ps_map_stream, ps_private1, ps_padding,
     ps_private2, ps_program_end]"
  by (simp add: ps_codes)

lemmas ps_codes_neq = ps_codes_distinct [simplified]

record ps_result =
  video :: "byte list"
  audio :: "byte list"
  video_codec :: string
  res_pts :: u64
  has_pts :: bool

definition empty_result :: ps_result where
  "empty_result = \<lparr>video = [], audio = [], video_codec = '''', res_pts = 0, has_pts = False\<rparr>"

definition is_pes_video :: "byte \<Rightarrow> bool" where
  "is_pes_video b \<longleftrightarrow> 0xE0 \<le> b \<and> b \<le> 0xEF"

definition is_pes_audio :: "byte \<Rightarrow> bool" where
  "is_pes_audio b \<longleftrightarrow> 0xC0 \<le> b \<and> b \<le> 0xDF"

section \<open>Scanning for a start code\<close>

text \<open>\<^verbatim>\<open>data[i] == 0 && data[i+1] == 0 && data[i+2] == 1\<close> with Go's short-circuit evaluation.\<close>

definition start_code_at :: "byte list \<Rightarrow> nat \<Rightarrow> bool option" where
  "start_code_at data i =
     do { a \<leftarrow> idx data i;
          if a \<noteq> 0 then Some False
          else do { b \<leftarrow> idx data (i + 1);
                    if b \<noteq> 0 then Some False
                    else do { c \<leftarrow> idx data (i + 2); Some (c = 1) } } }"

function scan_start :: "byte list \<Rightarrow> nat \<Rightarrow> nat option option" where
  "scan_start data i =
     (if i + 3 \<le> length data
      then (case start_code_at data i of
              None \<Rightarrow> None
            | Some b \<Rightarrow> if b then Some (Some i) else scan_start data (i + 1))
      else Some None)"
  by pat_completeness auto
termination
  by (relation "measure (\<lambda>(data, i). length data - i)") auto

declare scan_start.simps [simp del]

text \<open>The inner \<open>None\<close> is the result -1.\<close>

definition next_start_code :: "byte list \<Rightarrow> int \<Rightarrow> nat option option" where
  "next_start_code data from = scan_start data (if from < 0 then 0 else nat from)"

definition sc :: "byte list \<Rightarrow> nat \<Rightarrow> bool" where
  "sc data i \<longleftrightarrow> i + 3 \<le> length data \<and> take 3 (drop i data) = [0, 0, 1]"

lemma sc_nth: "i + 3 \<le> length data \<Longrightarrow>
   sc data i \<longleftrightarrow> data ! i = 0 \<and> data ! (i + 1) = 0 \<and> data ! (i + 2) = 1"
proof -
  assume "i + 3 \<le> length data"
  then have "take 3 (drop i data) = [data ! i, data ! (i + 1), data ! (i + 2)]"
    by (intro nth_equalityI) (auto simp: less_Suc_eq numeral_3_eq_3 numeral_2_eq_2)
  with \<open>i + 3 \<le> length data\<close> show ?thesis by (auto simp: sc_def)
qed

lemma start_code_at_eq [simp]:
  "i + 3 \<le> length data \<Longrightarrow> start_code_at data i = Some (sc data i)"
  by (auto simp: start_code_at_def sc_nth)

lemma scan_start_spec:
  "\<exists>r. scan_start data i = Some r \<and>
     (\<forall>j. r = Some j \<longrightarrow> i \<le> j \<and> sc data j \<and> (\<forall>k. i \<le> k \<and> k < j \<longrightarrow> \<not> sc data k)) \<and>
     (r = None \<longrightarrow> (\<forall>k \<ge> i. \<not> sc data k))"
proof (induction data i rule: scan_start.induct)
  case (1 data i)
  show ?case
  proof (cases "i + 3 \<le> length data \<and> \<not> sc data i")
    case True
    then obtain r where r: "scan_start data (i + 1) = Some r"
      "\<forall>j. r = Some j \<longrightarrow> i + 1 \<le> j \<and> sc data j \<and> (\<forall>k. i + 1 \<le> k \<and> k < j \<longrightarrow> \<not> sc data k)"
      "r = None \<longrightarrow> (\<forall>k \<ge> i + 1. \<not> sc data k)"
      using "1.IH" by (metis start_code_at_eq)
    have "scan_start data i = Some r"
      using True r(1) by (subst scan_start.simps) simp
    moreover have "i \<le> k \<Longrightarrow> sc data k \<Longrightarrow> i + 1 \<le> k" for k
      using True by (metis Suc_eq_plus1 Suc_leI le_neq_implies_less)
    ultimately show ?thesis using r(2,3) by (metis add_leD1)
  next
    case False
    then show ?thesis
      by (subst scan_start.simps) (auto simp: sc_def)
  qed
qed

lemma scan_start_total [panic_free]: "\<exists>r. scan_start data i = Some r"
  using scan_start_spec by blast

lemma next_start_code_ge:
  "next_start_code data (int i) = Some (Some j) \<Longrightarrow> i \<le> j \<and> j + 3 \<le> length data"
  using scan_start_spec [of data i] by (auto simp: next_start_code_def sc_def)

section \<open>Fixed-width fields\<close>

definition read16 :: "byte list \<Rightarrow> nat \<Rightarrow> nat option" where
  "read16 data p =
     do { s \<leftarrow> subslice data p (p + 2);
          hi \<leftarrow> idx s 0;
          lo \<leftarrow> idx s 1;
          Some (be16 hi lo) }"

lemma read16_Some [simp]:
  "p + 2 \<le> length data \<Longrightarrow> read16 data p = Some (be16 (data ! p) (data ! (p + 1)))"
  by (simp add: read16_def)

definition read_timestamp :: "byte list \<Rightarrow> u64 option" where
  "read_timestamp b =
     do { b0 \<leftarrow> idx b 0; b1 \<leftarrow> idx b 1; b2 \<leftarrow> idx b 2; b3 \<leftarrow> idx b 3; b4 \<leftarrow> idx b 4;
          Some (push_bit 29 (ucast (b0 AND 0x0E)) OR
                push_bit 22 (ucast b1) OR
                push_bit 14 (ucast (b2 AND 0xFE)) OR
                push_bit 7 (ucast b3) OR
                drop_bit 1 (ucast b4)) }"

section \<open>PES packets\<close>

record pes =
  pes_payload :: "byte list"
  pes_pts :: u64
  pes_has_pts :: bool
  pes_next :: int

definition no_pes :: pes where
  "no_pes = \<lparr>pes_payload = [], pes_pts = 0, pes_has_pts = False, pes_next = -1\<rparr>"

definition pes_payload_end :: "byte list \<Rightarrow> nat \<Rightarrow> nat \<Rightarrow> nat \<Rightarrow> nat option" where
  "pes_payload_end data pkt_len hdr payload_start =
     do { e \<leftarrow> (if pkt_len = 0
                 then do { r \<leftarrow> next_start_code data (int payload_start);
                           Some (case r of None \<Rightarrow> length data | Some j \<Rightarrow> j) }
                 else Some (min (hdr + pkt_len) (length data)));
          Some (if e < payload_start then payload_start else e) }"

definition parse_pes :: "byte list \<Rightarrow> nat \<Rightarrow> pes option" where
  "parse_pes data pos =
     (let n = length data in
      if pos + 6 > n then Some no_pes
      else do {
        pkt_len \<leftarrow> read16 data (pos + 4);
        let hdr = pos + 6;
        if hdr + 3 > n then Some no_pes
        else do {
          flags \<leftarrow> idx data (hdr + 1);
          let pts_dts = drop_bit 6 flags AND 0x03;
          hdl \<leftarrow> idx data (hdr + 2);
          let payload_start = min (hdr + 3 + unat hdl) n;
          (ts, has) \<leftarrow> (if pts_dts \<ge> 0x02 \<and> hdr + 3 + 5 \<le> n
                         then do { s \<leftarrow> subslice data (hdr + 3) (hdr + 3 + 5);
                                   t \<leftarrow> read_timestamp s; Some (t, True) }
                         else Some (0, False));
          payload_end \<leftarrow> pes_payload_end data pkt_len hdr payload_start;
          pl \<leftarrow> subslice data payload_start payload_end;
          Some \<lparr>pes_payload = pl, pes_pts = ts, pes_has_pts = has, pes_next = int payload_end\<rparr> } })"

lemma read_timestamp_total [panic_free]: "length b = 5 \<Longrightarrow> \<exists>t. read_timestamp b = Some t"
  by (simp add: read_timestamp_def)

lemma pes_payload_end_bounds:
  assumes "ps \<le> length data"
  shows "\<exists>e. pes_payload_end data len hdr ps = Some e \<and> ps \<le> e \<and> e \<le> length data"
proof -
  obtain r where r: "next_start_code data (int ps) = Some r"
    using scan_start_total [of data ps] by (auto simp: next_start_code_def)
  have "j \<le> length data" if "r = Some j" for j
    using next_start_code_ge [of data ps j] r that by auto
  with r assms show ?thesis
    by (auto simp: pes_payload_end_def split: option.splits)
qed

text \<open>
  A packet either is reported as truncated or yields a slice of the data that starts behind its
  header and ends at the next offset.
\<close>

lemma parse_pes_total [panic_free]:
  "\<exists>p. parse_pes data pos = Some p \<and>
     (p = no_pes \<or>
      (\<exists>s. pos + 9 \<le> s \<and> int s \<le> pes_next p \<and> pes_next p \<le> int (length data) \<and>
           pes_payload p = take (nat (pes_next p) - s) (drop s data)))"
proof (cases "pos + 9 \<le> length data")
  case False
  then show ?thesis by (auto simp: parse_pes_def Let_def)
next
  case True
  define hdr where "hdr = pos + 6"
  define hdl where "hdl = unat (data ! (hdr + 2))"
  define ps where "ps = min (hdr + 3 + hdl) (length data)"
  define len where "len = be16 (data ! (pos + 4)) (data ! (pos + 5))"
  obtain e where e: "pes_payload_end data len hdr ps = Some e" "ps \<le> e" "e \<le> length data"
    using pes_payload_end_bounds [of ps data len hdr] by (auto simp: ps_def)
  have t: "\<exists>t. read_timestamp (take 5 (drop (hdr + 3) data)) = Some t" if "hdr + 8 \<le> length data"
    by (rule read_timestamp_total) (use that in simp)
  have "parse_pes data pos = do {
      (ts, has) \<leftarrow> (if drop_bit 6 (data ! (hdr + 1)) AND 0x03 \<ge> 0x02 \<and> hdr + 3 + 5 \<le> length data
                     then do { s \<leftarrow> subslice data (hdr + 3) (hdr + 3 + 5);
                               t \<leftarrow> read_timestamp s; Some (t, True) }
                     else Some (0, False));
      Some \<lparr>pes_payload = take (e - ps) (drop ps data), pes_pts = ts, pes_has_pts = has,
            pes_next = int e\<rparr> }"
    using True e by (simp add: parse_pes_def Let_def hdr_def hdl_def ps_def len_def add.commute)
  then obtain p where "parse_pes data pos = Some p" "pes_next p = int e"
    "pes_payload p = take (e - ps) (drop ps data)"
    using t by (auto simp: add.commute split: if_splits)
  moreover have "pos + 9 \<le> ps" using True by (auto simp: ps_def hdr_def)
  ultimately show ?thesis using e by auto
qed

section \<open>The program stream map\<close>

function psm_entries ::
  "byte list \<Rightarrow> nat \<Rightarrow> nat \<Rightarrow> (byte \<rightharpoonup> byte) \<Rightarrow> (byte \<rightharpoonup> byte) option" where
  "psm_entries body p e types =
     (if p + 4 \<le> e
      then (case (idx body p, idx body (p + 1), read16 body (p + 2)) of
              (Some st, Some es, Some l) \<Rightarrow> psm_entries body (p + (4 + l)) e (types(es \<mapsto> st))
            | _ \<Rightarrow> None)
      else Some types)"
  by pat_completeness auto
termination
  by (relation "measure (\<lambda>(body, p, e, types). e - p)") auto

declare psm_entries.simps [simp del]

definition parse_psm :: "byte list \<Rightarrow> (byte \<rightharpoonup> byte) \<Rightarrow> (byte \<rightharpoonup> byte) option" where
  "parse_psm body types =
     (if length body < 4 then Some types
      else do {
        info_len \<leftarrow> read16 body 2;
        let p = 4 + info_len;
        if p + 2 > length body then Some types
        else do {
          es_map_len \<leftarrow> read16 body p;
          psm_entries body (p + 2) (min (p + 2 + es_map_len) (length body)) types } })"

lemma psm_entries_total [panic_free]:
  "e \<le> length body \<Longrightarrow> \<exists>t. psm_entries body p e types = Some t"
proof (induction body p e types rule: psm_entries.induct)
  case (1 body p e types)
  show ?case
  proof (cases "p + 4 \<le> e")
    case True
    with "1.prems" have s: "idx body p = Some (body ! p)" "idx body (p + 1) = Some (body ! (p + 1))"
      "read16 body (p + 2) = Some (be16 (body ! (p + 2)) (body ! (p + 2 + 1)))"
      by simp_all
    have "\<exists>t. psm_entries body (p + (4 + be16 (body ! (p + 2)) (body ! (p + 2 + 1)))) e
              (types(body ! (p + 1) \<mapsto> body ! p)) = Some t"
      by (rule "1.IH" [OF True refl s(1) refl s(2) s(3) "1.prems"])
    with True show ?thesis by (subst psm_entries.simps) (simp only: s if_True prod.case option.case)
  next
    case False
    then show ?thesis by (subst psm_entries.simps) simp
  qed
qed

lemma parse_psm_total [panic_free]: "\<exists>t. parse_psm body types = Some t"
  by (simp add: parse_psm_def Let_def psm_entries_total)

section \<open>The demultiplexer\<close>

text \<open>
  One iteration of the loop: \<open>Stop\<close> is a return (or the break when no start code is left),
  \<open>Go\<close> continues at a new offset.
\<close>

datatype demux_next = Stop ps_result | Go nat ps_result "byte \<rightharpoonup> byte"

definition resync :: "byte list \<Rightarrow> nat \<Rightarrow> ps_result \<Rightarrow> (byte \<rightharpoonup> byte) \<Rightarrow> demux_next option" where
  "resync data from res types =
     do { r \<leftarrow> next_start_code data (int from);
          Some (case r of None \<Rightarrow> Stop res | Some j \<Rightarrow> Go j res types) }"

definition add_pes :: "ps_result \<Rightarrow> (byte \<rightharpoonup> byte) \<Rightarrow> byte \<Rightarrow> pes \<Rightarrow> ps_result" where
  "add_pes res types b p =
     (if is_pes_video b
      then (let r1 = res\<lparr>video := video res @ pes_payload p\<rparr>;
                r2 = (if pes_has_pts p \<and> \<not> has_pts r1
                      then r1\<lparr>res_pts := pes_pts p, has_pts := True\<rparr> else r1)
            in (case types b of
                  None \<Rightarrow> r2
                | Some st \<Rightarrow>
                    if st = stream_type_h264 then r2\<lparr>video_codec := ''H264''\<rparr>
                    else if st = stream_type_hevc then r2\<lparr>video_codec := ''H265''\<rparr>
                    else r2))
      else if is_pes_audio b then res\<lparr>audio := audio res @ pes_payload p\<rparr>
      else res)"

definition demux_unit ::
  "byte list \<Rightarrow> nat \<Rightarrow> ps_result \<Rightarrow> (byte \<rightharpoonup> byte) \<Rightarrow> byte \<Rightarrow> demux_next option" where
  "demux_unit data pos res types b =
     (let n = length data in
      if b = ps_pack_start then
        (if pos + 14 > n then Some (Stop res)
         else do { x \<leftarrow> idx data (pos + 13); Some (Go (pos + 14 + unat (x AND 0x07)) res types) })
      else if b = ps_system_header \<or> b = ps_map_stream \<or> b = ps_private2 then
        (if pos + 6 > n then Some (Stop res)
         else do {
           l \<leftarrow> read16 data (pos + 4);
           let body = pos + 6;
           let len = (if body + l > n then n - body else l);
           types' \<leftarrow> (if b = ps_map_stream
                     then do { s \<leftarrow> subslice data body (body + len); parse_psm s types }
                     else Some types);
           Some (Go (body + len) res types') })
      else if b = ps_padding then
        (if pos + 6 > n then Some (Stop res)
         else do { l \<leftarrow> read16 data (pos + 4); Some (Go (pos + (6 + l)) res types) })
      else if b = ps_program_end then Some (Go (pos + 4) res types)
      else if is_pes_video b \<or> is_pes_audio b \<or> b = ps_private1 then
        do { p \<leftarrow> parse_pes data pos;
             Some (if pes_next p < 0 then Stop res
                   else Go (nat (pes_next p)) (add_pes res types b p) types) }
      else resync data (pos + 3) res types)"

definition demux_step ::
  "byte list \<Rightarrow> nat \<Rightarrow> ps_result \<Rightarrow> (byte \<rightharpoonup> byte) \<Rightarrow> demux_next option" where
  "demux_step data pos res types =
     do { here \<leftarrow> start_code_at data pos;
          if \<not> here then resync data (pos + 1) res types
          else do { b \<leftarrow> idx data (pos + 3); demux_unit data pos res types b } }"

lemma resync_total:
  "\<exists>x. resync data from res types = Some x \<and>
     (\<forall>p r t. x = Go p r t \<longrightarrow> from \<le> p \<and> r = res \<and> t = types) \<and> (\<forall>r. x = Stop r \<longrightarrow> r = res)"
proof -
  obtain r where "next_start_code data (int from) = Some r"
    using scan_start_total [of data "from"] by (auto simp: next_start_code_def)
  then show ?thesis
    using next_start_code_ge [of data "from"] by (auto simp: resync_def split: option.splits)
qed

text \<open>
  What one iteration does: it never panics, moves forward, and adds at most a slice of the data
  between the old and the new offset to one of the two outputs.
\<close>

definition demux_grows :: "byte list \<Rightarrow> nat \<Rightarrow> ps_result \<Rightarrow> nat \<Rightarrow> ps_result \<Rightarrow> bool" where
  "demux_grows data pos res p r \<longleftrightarrow>
     pos < p \<and> (\<exists>v. subseq v (take (p - pos) (drop pos data)) \<and> video r = video res @ v) \<and>
     (\<exists>a. subseq a (take (p - pos) (drop pos data)) \<and> audio r = audio res @ a)"

lemma demux_grows_same: "pos < p \<Longrightarrow> demux_grows data pos res p res"
  by (simp add: demux_grows_def)

lemma add_pes_outputs:
  "(video (add_pes res types b p) = video res \<or>
    video (add_pes res types b p) = video res @ pes_payload p) \<and>
   (audio (add_pes res types b p) = audio res \<or>
    audio (add_pes res types b p) = audio res @ pes_payload p)"
  by (auto simp: add_pes_def Let_def split: option.splits)

lemma subseq_slice:
  assumes "pos \<le> s" and "s \<le> e"
  shows "subseq (take (e - s) (drop s data)) (take (e - pos) (drop pos data))"
proof -
  have "take (e - s) (drop s data) = drop (s - pos) (take (e - pos) (drop pos data))"
    using assms by (simp add: drop_take)
  then show ?thesis by (metis list_emb_append2 append_take_drop_id subseq_order.order_refl)
qed

lemma pes_step_grows:
  assumes "parse_pes data pos = Some p" and "\<not> pes_next p < 0"
  shows "demux_grows data pos res (nat (pes_next p)) (add_pes res types b p)"
proof -
  obtain s where s: "pos + 9 \<le> s" "int s \<le> pes_next p"
    "pes_payload p = take (nat (pes_next p) - s) (drop s data)"
    using parse_pes_total [of data pos] assms by (auto simp: no_pes_def)
  have "subseq (pes_payload p) (take (nat (pes_next p) - pos) (drop pos data))"
    using subseq_slice [of pos s "nat (pes_next p)" data] s by simp
  then show ?thesis
    using s add_pes_outputs [of res types b p] unfolding demux_grows_def by fastforce
qed

lemma demux_unit_total [panic_free]:
  assumes "pos + 4 \<le> length data"
  shows "\<exists>x. demux_unit data pos res types b = Some x \<and>
    (\<forall>p r t. x = Go p r t \<longrightarrow> demux_grows data pos res p r) \<and> (\<forall>r. x = Stop r \<longrightarrow> r = res)"
proof -
  consider (pack) "b = ps_pack_start"
    | (sys) "b = ps_system_header \<or> b = ps_map_stream \<or> b = ps_private2"
    | (pad) "b = ps_padding"
    | (fin) "b = ps_program_end"
    | (pes) "is_pes_video b \<or> is_pes_audio b \<or> b = ps_private1"
      "b \<noteq> ps_pack_start" "b \<notin> {ps_system_header, ps_map_stream, ps_private2}"
      "b \<noteq> ps_padding" "b \<noteq> ps_program_end"
    | (other) "\<not> (is_pes_video b \<or> is_pes_audio b \<or> b = ps_private1)"
      "b \<noteq> ps_pack_start" "b \<notin> {ps_system_header, ps_map_stream, ps_private2}"
      "b \<noteq> ps_padding" "b \<noteq> ps_program_end"
    by blast
  then show ?thesis
  proof cases
    case pack
    then show ?thesis by (auto simp: demux_unit_def Let_def intro: demux_grows_same)
  next
    case sys
    show ?thesis
    proof (cases "pos + 6 > length data")
      case True
      with sys show ?thesis by (auto simp: demux_unit_def Let_def ps_codes_neq)
    next
      case False
      then obtain l where l: "read16 data (pos + 4) = Some l" by simp
      define len where "len = (if pos + 6 + l > length data then length data - (pos + 6) else l)"
      obtain t where t: "parse_psm (take len (drop (pos + 6) data)) types = Some t"
        using parse_psm_total by blast
      have sl: "subslice data (pos + 6) (pos + 6 + len) = Some (take len (drop (pos + 6) data))"
        using False by (auto simp: len_def)
      have "b \<noteq> ps_pack_start" using sys ps_codes_neq by metis
      then have "demux_unit data pos res types b =
          Some (Go (pos + 6 + len) res (if b = ps_map_stream then t else types))"
        using sys False t by (simp add: demux_unit_def Let_def l sl len_def [symmetric] del: read16_Some)
      then show ?thesis by (simp add: demux_grows_same)
    qed
  next
    case pad
    have "b \<noteq> ps_pack_start" "b \<noteq> ps_system_header" "b \<noteq> ps_map_stream" "b \<noteq> ps_private2"
      using pad ps_codes_neq by metis+
    with pad show ?thesis by (auto simp: demux_unit_def Let_def intro: demux_grows_same)
  next
    case fin
    have "b \<noteq> ps_pack_start" "b \<noteq> ps_system_header" "b \<noteq> ps_map_stream" "b \<noteq> ps_private2"
      "b \<noteq> ps_padding"
      using fin ps_codes_neq by metis+
    with fin show ?thesis by (auto simp: demux_unit_def Let_def intro: demux_grows_same)
  next
    case pes
    obtain p where "parse_pes data pos = Some p" using parse_pes_total [of data pos] by blast
    with pes show ?thesis
      by (auto simp: demux_unit_def Let_def intro: pes_step_grows)
  next
    case other
    then have "demux_unit data pos res types b = resync data (pos + 3) res types"
      by (simp add: demux_unit_def Let_def)
    then show ?thesis
      using resync_total [of data "pos + 3" res types] demux_grows_same by fastforce
  qed
qed

lemma demux_step_total [panic_free]:
  assumes "pos + 4 \<le> length data"
  shows "\<exists>x. demux_step data pos res types = Some x \<and>
    (\<forall>p r t. x = Go p r t \<longrightarrow> demux_grows data pos res p r) \<and> (\<forall>r. x = Stop r \<longrightarrow> r = res)"
proof (cases "sc data pos")
  case True
  then show ?thesis
    using assms demux_unit_total [OF assms] by (simp add: demux_step_def)
next
  case False
  then show ?thesis
    using assms resync_total [of data "pos + 1" res types] demux_grows_same
    by (fastforce simp: demux_step_def)
qed

lemma demux_step_forward:
  "pos + 4 \<le> length data \<Longrightarrow> demux_step data pos res types = Some (Go p r t) \<Longrightarrow> pos < p"
  using demux_step_total [of pos data res types] by (auto simp: demux_grows_def)

function demux_loop ::
  "byte list \<Rightarrow> nat \<Rightarrow> ps_result \<Rightarrow> (byte \<rightharpoonup> byte) \<Rightarrow> ps_result option" where
  "demux_loop data pos res types =
     (if pos + 4 \<le> length data
      then (case demux_step data pos res types of
              None \<Rightarrow> None
            | Some (Stop r) \<Rightarrow> Some r
            | Some (Go p r t) \<Rightarrow> demux_loop data p r t)
      else Some res)"
  by pat_completeness auto
termination
  by (relation "measure (\<lambda>(data, pos, res, types). length data - pos)")
    (auto dest: demux_step_forward intro: diff_less_mono2)

declare demux_loop.simps [simp del]

definition demux_ps :: "byte list \<Rightarrow> ps_result option" where
  "demux_ps data = demux_loop data 0 empty_result Map.empty"

section \<open>Total on every input\<close>

lemma demux_grows_drop:
  assumes "pos < p"
    and "subseq v (take (p - pos) (drop pos data))" and "subseq w (drop p data)"
  shows "subseq (v @ w) (drop pos data)"
proof -
  have "drop pos data = take (p - pos) (drop pos data) @ drop p data"
    using assms(1) by (metis append_take_drop_id drop_drop le_add_diff_inverse2 less_imp_le)
  then show ?thesis using assms(2,3) list_emb_append_mono by metis
qed

definition demux_outputs :: "byte list \<Rightarrow> nat \<Rightarrow> ps_result \<Rightarrow> ps_result \<Rightarrow> bool" where
  "demux_outputs data pos res r \<longleftrightarrow>
     (\<exists>v. subseq v (drop pos data) \<and> video r = video res @ v) \<and>
     (\<exists>a. subseq a (drop pos data) \<and> audio r = audio res @ a)"

lemma demux_outputs_trans:
  assumes "demux_grows data pos res p r1" and "demux_outputs data p r1 r"
  shows "demux_outputs data pos res r"
  using assms demux_grows_drop [of pos p _ data]
  unfolding demux_grows_def demux_outputs_def by (metis append.assoc)

lemma demux_loop_total:
  "\<exists>r. demux_loop data pos res types = Some r \<and> demux_outputs data pos res r"
proof (induction data pos res types rule: demux_loop.induct)
  case (1 data pos res types)
  show ?case
  proof (cases "pos + 4 \<le> length data")
    case False
    then show ?thesis by (subst demux_loop.simps) (simp add: demux_outputs_def)
  next
    case True
    obtain x where x: "demux_step data pos res types = Some x"
      "\<forall>p r t. x = Go p r t \<longrightarrow> demux_grows data pos res p r" "\<forall>r. x = Stop r \<longrightarrow> r = res"
      using demux_step_total [OF True] by blast
    show ?thesis
    proof (cases x)
      case (Stop r)
      then show ?thesis
        using True x by (subst demux_loop.simps) (simp add: demux_outputs_def)
    next
      case (Go p r t)
      obtain r' where "demux_loop data p r t = Some r'" "demux_outputs data p r r'"
        using "1.IH" [OF True x(1) Go] by blast
      then show ?thesis
        using True x Go demux_outputs_trans by (subst demux_loop.simps) fastforce
    qed
  qed
qed

text \<open>
  C6: on every input, truncated or garbage, the demultiplexer ends without an access out of
  range, and both its outputs are made of bytes of the input in their order, so they are never
  longer than the input.
\<close>

theorem demux_total:
  "\<exists>r. demux_ps data = Some r \<and> subseq (video r) data \<and> subseq (audio r) data"
  using demux_loop_total [of data 0 empty_result Map.empty]
  by (auto simp: demux_ps_def demux_outputs_def empty_result_def)

section \<open>A stream of well-formed units\<close>

text \<open>
  The layout of ISO 13818-1 for the units a GB28181 device sends: pack headers and PES packets
  with an explicit length, with or without a PTS.
\<close>

datatype ps_unit =
  Pack (pack_fixed: "byte list") (pack_stuffing: "byte list")
| Pes (es_id: byte) (es_pts: "byte list") (es_payload: "byte list")

fun ps_unit_ok :: "ps_unit \<Rightarrow> bool" where
  "ps_unit_ok (Pack fixed stuff) \<longleftrightarrow> length fixed = 9 \<and> length stuff < 8"
| "ps_unit_ok (Pes b ts pl) \<longleftrightarrow>
     (is_pes_video b \<or> is_pes_audio b) \<and> (ts = [] \<or> length ts = 5) \<and>
     3 + length ts + length pl < 65536"

fun ps_encode :: "ps_unit \<Rightarrow> byte list" where
  "ps_encode (Pack fixed stuff) =
     [0, 0, 1, ps_pack_start] @ fixed @ [248 + word_of_nat (length stuff)] @ stuff"
| "ps_encode (Pes b ts pl) =
     [0, 0, 1, b] @ be16_bytes (3 + length ts + length pl) @
     [0x80, if ts = [] then 0 else 0x80, word_of_nat (length ts)] @ ts @ pl"

fun ps_expect :: "ps_result \<Rightarrow> ps_unit \<Rightarrow> ps_result" where
  "ps_expect res (Pack fixed stuff) = res"
| "ps_expect res (Pes b ts pl) =
     (if is_pes_video b
      then (let r = res\<lparr>video := video res @ pl\<rparr>
            in if ts \<noteq> [] \<and> \<not> has_pts res
               then r\<lparr>res_pts := the (read_timestamp ts), has_pts := True\<rparr> else r)
      else res\<lparr>audio := audio res @ pl\<rparr>)"

lemma stuffing_bits: "k < 8 \<Longrightarrow> unat (248 + word_of_nat k AND 7 :: byte) = k"
proof -
  assume "k < 8"
  then have "k \<in> {0, 1, 2, 3, 4, 5, 6, 7}" by auto
  then show ?thesis by auto
qed

lemma nth_pre: "length pre = n \<Longrightarrow> (pre @ xs) ! (n + k) = xs ! k"
  by (simp add: nth_append)

lemma pes_id_not_code:
  "is_pes_video b \<or> is_pes_audio b \<Longrightarrow>
   b \<noteq> ps_pack_start \<and> b \<notin> {ps_system_header, ps_map_stream, ps_private2} \<and>
   b \<noteq> ps_padding \<and> b \<noteq> ps_program_end"
  by (auto simp: is_pes_video_def is_pes_audio_def ps_codes)

lemma sc_encode: "sc (pre @ ps_encode u @ post) (length pre)"
  by (cases u) (simp_all add: sc_def)

lemma nth_encode3: "(pre @ ps_encode u @ post) ! (length pre + 3) =
   (case u of Pack _ _ \<Rightarrow> ps_pack_start | Pes b _ _ \<Rightarrow> b)"
  by (cases u) (simp_all add: nth_append)

lemma step_pack:
  assumes "ps_unit_ok (Pack fixed stuff)"
  shows "demux_unit (pre @ ps_encode (Pack fixed stuff) @ post) (length pre) res types ps_pack_start
    = Some (Go (length pre + length (ps_encode (Pack fixed stuff))) res types)"
proof -
  have len: "length fixed = 9" "length stuff < 8" using assms by simp_all
  have "(pre @ ps_encode (Pack fixed stuff) @ post) ! (length pre + 13) =
      248 + word_of_nat (length stuff)"
    unfolding nth_pre [OF refl] using len by (simp add: nth_append numeral_eq_Suc)
  then show ?thesis
    using len by (simp add: demux_unit_def Let_def stuffing_bits [OF len(2)] del: ps_encode.simps)
      simp
qed

definition pes_stamp :: "byte list \<Rightarrow> nat \<Rightarrow> byte \<Rightarrow> (u64 \<times> bool) option" where
  "pes_stamp data hdr flags =
     (if drop_bit 6 flags AND 0x03 \<ge> 0x02 \<and> hdr + 3 + 5 \<le> length data
      then do { s \<leftarrow> subslice data (hdr + 3) (hdr + 3 + 5); t \<leftarrow> read_timestamp s; Some (t, True) }
      else Some (0, False))"

lemma parse_pes_eq:
  assumes "pos + 9 \<le> length data" and "read16 data (pos + 4) = Some l"
    and "idx data (pos + 6 + 1) = Some flags" and "idx data (pos + 6 + 2) = Some h"
    and "min (pos + 6 + 3 + unat h) (length data) = ps"
    and "pes_stamp data (pos + 6) flags = Some (t, has)"
    and "pes_payload_end data l (pos + 6) ps = Some e" and "subslice data ps e = Some pl"
  shows "parse_pes data pos =
    Some \<lparr>pes_payload = pl, pes_pts = t, pes_has_pts = has, pes_next = int e\<rparr>"
proof -
  have "\<not> pos + 6 > length data" "\<not> pos + 6 + 3 > length data" using assms(1) by simp_all
  then show ?thesis
    using assms(2-8)
    by (simp only: parse_pes_def Let_def pes_stamp_def if_False Option.bind.simps prod.case)
qed

lemma parse_pes_encode:
  assumes "ps_unit_ok (Pes b ts pl)"
  shows "parse_pes (pre @ ps_encode (Pes b ts pl) @ post) (length pre) =
    Some \<lparr>pes_payload = pl, pes_pts = (if ts = [] then 0 else the (read_timestamp ts)),
          pes_has_pts = (ts \<noteq> []), pes_next = int (length pre + length (ps_encode (Pes b ts pl)))\<rparr>"
proof -
  define data where "data = pre @ ps_encode (Pes b ts pl) @ post"
  define n where "n = length pre"
  define l where "l = 3 + length ts + length pl"
  have l: "l < 65536" "0 < l" using assms by (simp_all add: l_def)
  have ts: "ts = [] \<or> length ts = 5" using assms by simp
  have enc: "ps_encode (Pes b ts pl) = [0, 0, 1, b, word_of_nat (l div 256), word_of_nat l, 0x80,
      if ts = [] then 0 else 0x80, word_of_nat (length ts)] @ ts @ pl"
    by (simp add: l_def be16_bytes_def)
  have len: "length data = n + 6 + l + length post"
    unfolding data_def n_def enc by (simp add: l_def)
  have at: "data ! (n + 4) = word_of_nat (l div 256)" "data ! (n + 5) = word_of_nat l"
    "data ! (n + 7) = (if ts = [] then 0 else 0x80)" "data ! (n + 8) = word_of_nat (length ts)"
    unfolding data_def n_def nth_pre [OF refl] enc by simp_all
  have drop9: "drop (n + 9) data = ts @ pl @ post"
    unfolding data_def n_def enc by simp
  have r16: "read16 data (n + 4) = Some l"
  proof -
    have "n + 4 + 1 = n + 5" by simp
    moreover have "n + 4 + 2 \<le> length data" using len by simp
    ultimately show ?thesis using at(1,2) be16_roundtrip [OF l(1)] by (simp only: read16_Some)
  qed
  have pend: "pes_payload_end data l (n + 6) (n + 9 + length ts) = Some (n + 6 + l)"
    using l len by (simp add: pes_payload_end_def l_def)
  have pl: "subslice data (n + 9 + length ts) (n + 6 + l) = Some pl"
  proof -
    have "drop (n + 9 + length ts) data = pl @ post"
      using drop9 by (metis add.commute append_eq_conv_conj drop_drop)
    then show ?thesis using len by (simp add: l_def)
  qed
  have tsl: "ts \<noteq> [] \<Longrightarrow> subslice data (n + 9) (n + 14) = Some ts"
    using drop9 len ts by (auto simp: l_def)
  have hdl: "unat (word_of_nat (length ts) :: byte) = length ts"
    using ts by auto
  have e: "n + 6 + 1 = n + 7" "n + 6 + 2 = n + 8" by simp_all
  have i: "idx data (n + 6 + 1) = Some (if ts = [] then 0 else 0x80)"
    "idx data (n + 6 + 2) = Some (word_of_nat (length ts))"
    unfolding e using at(3,4) len l by (simp_all add: l_def idx_def)
  have mn: "min (n + 6 + 3 + length ts) (length data) = n + 9 + length ts"
    using len by (simp add: l_def)
  have nx: "length pre + length (ps_encode (Pes b ts pl)) = n + 6 + l"
    by (simp add: n_def l_def)
  have e9: "n + 6 + 3 = n + 9" "n + 9 + 5 = n + 14" by simp_all
  have stamp: "pes_stamp data (n + 6) (if ts = [] then 0 else 0x80) =
      Some (if ts = [] then 0 else the (read_timestamp ts), ts \<noteq> [])"
  proof (cases "ts = []")
    case True
    then show ?thesis by (simp add: pes_stamp_def)
  next
    case False
    then obtain t where "read_timestamp ts = Some t"
      using ts read_timestamp_total by blast
    then show ?thesis
      using False tsl [OF False] ts len unfolding pes_stamp_def e9
      by (simp add: l_def del: subslice_Some)
  qed
  have "parse_pes data n =
    Some \<lparr>pes_payload = pl, pes_pts = (if ts = [] then 0 else the (read_timestamp ts)),
          pes_has_pts = (ts \<noteq> []), pes_next = int (n + 6 + l)\<rparr>"
    by (rule parse_pes_eq [OF _ r16 i _ stamp pend pl]) (use len mn hdl in \<open>simp_all add: l_def\<close>)
  then show ?thesis unfolding data_def n_def nx [unfolded n_def] .
qed

lemma step_encode:
  assumes "ps_unit_ok u"
  shows "demux_step (pre @ ps_encode u @ post) (length pre) res Map.empty =
    Some (Go (length pre + length (ps_encode u)) (ps_expect res u) Map.empty)"
proof -
  let ?data = "pre @ ps_encode u @ post"
  let ?b = "case u of Pack _ _ \<Rightarrow> ps_pack_start | Pes b _ _ \<Rightarrow> b"
  have "length pre + 3 < length ?data"
    by (cases u) simp_all
  then have "demux_step ?data (length pre) res Map.empty =
      demux_unit ?data (length pre) res Map.empty ?b"
    using sc_encode [of pre u post] nth_encode3 [of pre u post]
    by (simp add: demux_step_def del: length_append)
  also have "\<dots> = Some (Go (length pre + length (ps_encode u)) (ps_expect res u) Map.empty)"
  proof (cases u)
    case (Pack fixed stuff)
    then show ?thesis using step_pack [of fixed stuff pre post res Map.empty] assms by simp
  next
    case (Pes b ts pl)
    have av: "is_pes_video b \<Longrightarrow> \<not> is_pes_audio b"
      by (auto simp: is_pes_video_def is_pes_audio_def) (use order_trans in fastforce)
    have ok: "ps_unit_ok (Pes b ts pl)" using assms Pes by simp
    then have id: "is_pes_video b \<or> is_pes_audio b" by simp
    define N where "N = length pre + length (ps_encode (Pes b ts pl))"
    have "demux_unit (pre @ ps_encode (Pes b ts pl) @ post) (length pre) res Map.empty b =
        Some (Go N (add_pes res Map.empty b \<lparr>pes_payload = pl,
             pes_pts = (if ts = [] then 0 else the (read_timestamp ts)), pes_has_pts = (ts \<noteq> []),
             pes_next = int N\<rparr>) Map.empty)"
      using pes_id_not_code [OF id] id parse_pes_encode [OF ok, of pre post]
      unfolding N_def [symmetric] by (auto simp: demux_unit_def Let_def simp del: ps_encode.simps)
    then show ?thesis
      using Pes id av unfolding N_def by (auto simp: add_pes_def Let_def)
  qed
  finally show ?thesis .
qed

lemma length_ps_encode: "4 \<le> length (ps_encode u)"
  by (cases u) simp_all

lemma demux_loop_encoded:
  "list_all ps_unit_ok us \<Longrightarrow>
   demux_loop (pre @ concat (map ps_encode us)) (length pre) res Map.empty =
     Some (foldl ps_expect res us)"
proof (induction us arbitrary: pre res)
  case Nil
  then show ?case by (subst demux_loop.simps) simp
next
  case (Cons u us)
  let ?data = "pre @ ps_encode u @ concat (map ps_encode us)"
  have "length pre + 4 \<le> length ?data" using length_ps_encode [of u] by simp
  then have "demux_loop ?data (length pre) res Map.empty =
      demux_loop ?data (length pre + length (ps_encode u)) (ps_expect res u) Map.empty"
    using step_encode [of u pre "concat (map ps_encode us)" res] Cons.prems
    by (subst demux_loop.simps) simp
  also have "\<dots> = Some (foldl ps_expect (ps_expect res u) us)"
    using Cons.IH [of "pre @ ps_encode u" "ps_expect res u"] Cons.prems by simp
  finally show ?case by simp
qed

definition unit_video :: "ps_unit \<Rightarrow> byte list" where
  "unit_video u = (case u of Pes b ts pl \<Rightarrow> if is_pes_video b then pl else [] | _ \<Rightarrow> [])"

definition unit_audio :: "ps_unit \<Rightarrow> byte list" where
  "unit_audio u = (case u of Pes b ts pl \<Rightarrow> if is_pes_video b then [] else pl | _ \<Rightarrow> [])"

definition unit_pts :: "ps_unit \<Rightarrow> byte list" where
  "unit_pts u = (case u of Pes b ts pl \<Rightarrow> if is_pes_video b then ts else [] | _ \<Rightarrow> [])"

lemma fold_expect:
  "video (foldl ps_expect res us) = video res @ concat (map unit_video us) \<and>
   audio (foldl ps_expect res us) = audio res @ concat (map unit_audio us) \<and>
   video_codec (foldl ps_expect res us) = video_codec res \<and>
   (has_pts (foldl ps_expect res us) \<longleftrightarrow> has_pts res \<or> (\<exists>u \<in> set us. unit_pts u \<noteq> [])) \<and>
   (has_pts res \<longrightarrow> res_pts (foldl ps_expect res us) = res_pts res)"
proof (induction us arbitrary: res)
  case Nil
  then show ?case by simp
next
  case (Cons u us)
  show ?case
    using Cons.IH [of "ps_expect res u"]
    by (cases u) (auto simp: unit_video_def unit_audio_def unit_pts_def Let_def)
qed

lemma first_pts:
  assumes "unit_pts u \<noteq> []" and "\<And>v. v \<in> set us \<Longrightarrow> unit_pts v = []" and "\<not> has_pts res"
  shows "res_pts (foldl ps_expect res (us @ u # vs)) = the (read_timestamp (unit_pts u))"
proof -
  have "\<not> has_pts (foldl ps_expect res us)"
    using fold_expect [of res us] assms by auto
  then have "has_pts (ps_expect (foldl ps_expect res us) u) \<and>
      res_pts (ps_expect (foldl ps_expect res us) u) = the (read_timestamp (unit_pts u))"
    using assms(1) by (cases u) (auto simp: unit_pts_def Let_def split: if_splits)
  then show ?thesis
    using fold_expect [of "ps_expect (foldl ps_expect res us) u" vs] by simp
qed


definition sample_units :: "ps_unit list" where
  "sample_units = [Pack (replicate 9 0) [0xFF], Pes 0xE0 [0x21, 0, 1, 0, 3] [0, 0, 1, 0x65],
     Pes 0xC0 [] [9, 9], Pes 0xE0 [] [7]]"


end
