(* ===== verification/Gb_Media.thy ===== *)
theory Gb_Media
  imports Core_Stream Gb_Ps Gb_Rtp
begin

text \<open>
  The media producer of a GB28181 session (\<^verbatim>\<open>internal/gb28181/media.go\<close>): it splits the
  demultiplexed elementary stream into NAL units, recognises the codec, waits for the parameter
  sets, and then publishes one unit per frame.  The calls it makes (\<^verbatim>\<open>onReady\<close> with the new
  stream, \<^verbatim>\<open>WriteUnit\<close>) are the outputs of a step.  The keyframe tests of the codec
  library are parameters \<open>ra264\<close> and \<open>ra265\<close>; the wall clock is the argument \<open>now\<close>.
\<close>

section \<open>Annex-B byte streams\<close>

text \<open>The body of the loop only reads \<open>es[i-1]\<close> behind the guard \<open>i > from\<close>.\<close>

function find_start_from :: "byte list \<Rightarrow> nat \<Rightarrow> nat \<Rightarrow> nat option" where
  "find_start_from es start i =
     (if i + 3 \<le> length es
      then (if es ! i = 0 \<and> es ! (i + 1) = 0 \<and> es ! (i + 2) = 1
            then (if i > start \<and> es ! (i - 1) = 0 then Some (i - 1) else Some i)
            else find_start_from es start (i + 1))
      else None)"
  by pat_completeness auto
termination
  by (relation "measure (\<lambda>(es, start, i). length es - i)") auto

declare find_start_from.simps [simp del]

definition find_start_code :: "byte list \<Rightarrow> nat \<Rightarrow> nat option" where
  "find_start_code es start = find_start_from es start start"

lemma find_start_from_bounds:
  "start \<le> i \<Longrightarrow> find_start_from es start i = Some j \<Longrightarrow> start \<le> j \<and> j + 3 \<le> length es"
proof (induction es start i rule: find_start_from.induct)
  case (1 es start i)
  from "1.prems"(2) show ?case
    using "1.IH" "1.prems"(1)
    by (subst (asm) find_start_from.simps) (auto split: if_splits)
qed

lemma find_start_code_bounds:
  "find_start_code es start = Some j \<Longrightarrow> start \<le> j \<and> j + 3 \<le> length es"
  unfolding find_start_code_def by (rule find_start_from_bounds) simp_all

definition prefix_len :: "byte list \<Rightarrow> nat \<Rightarrow> nat" where
  "prefix_len es i =
     (if i + 3 < length es \<and> es ! i = 0 \<and> es ! (i + 1) = 0 \<and> es ! (i + 2) = 0 \<and> es ! (i + 3) = 1
      then 4 else 3)"

function split_from :: "byte list \<Rightarrow> nat \<Rightarrow> byte list list" where
  "split_from es i =
     (if i < length es
      then (let s = i + prefix_len es i in
            (case find_start_code es s of
               None \<Rightarrow> (if s < length es then [drop s es] else [])
             | Some nx \<Rightarrow> (if nx > s then [take (nx - s) (drop s es)] else []) @ split_from es nx))
      else [])"
  by pat_completeness auto
termination
proof (relation "measure (\<lambda>(es, i). length es - i)")
  fix es :: "byte list" and i s nx
  assume "i < length es" and "s = i + prefix_len es i" and "find_start_code es s = Some nx"
  then show "((es, nx), es, i) \<in> measure (\<lambda>(es, i). length es - i)"
    using find_start_code_bounds [of es s nx] by (auto simp: prefix_len_def split: if_splits)
qed simp

declare split_from.simps [simp del]

definition split_annexb :: "byte list \<Rightarrow> byte list list" where
  "split_annexb es =
     (case find_start_code es 0 of None \<Rightarrow> [] | Some start \<Rightarrow> split_from es start)"

subsection \<open>Splitting undoes framing\<close>

text \<open>
  A NAL unit as the codecs emit it: not empty, without an embedded start code (emulation
  prevention) and without a trailing zero byte.  A framed unit has a three- or a four-byte
  start code.
\<close>

definition nal_ok :: "byte list \<Rightarrow> bool" where
  "nal_ok n \<longleftrightarrow> n \<noteq> [] \<and> last n \<noteq> 0 \<and> (\<forall>i. \<not> sc n i)"

definition start_prefix :: "bool \<Rightarrow> byte list" where
  "start_prefix long = (if long then [0, 0, 0, 1] else [0, 0, 1])"

definition frame_nal :: "bool \<times> byte list \<Rightarrow> byte list" where
  "frame_nal p = start_prefix (fst p) @ snd p"

lemma no_start_in_nal:
  assumes "nal_ok n" and "k < length n" and "k + 3 \<le> length (n @ rest)"
  shows "\<not> ((n @ rest) ! k = 0 \<and> (n @ rest) ! (k + 1) = 0 \<and> (n @ rest) ! (k + 2) = 1)"
proof (cases "k + 3 \<le> length n")
  case True
  then show ?thesis
    using assms(1) sc_nth [of k n] by (auto simp: nal_ok_def nth_append)
next
  case False
  then have "length n - 1 = k \<or> length n - 1 = k + 1 \<and> k + 1 < length n"
    using assms(2) by auto
  moreover have "n ! (length n - 1) \<noteq> 0"
    using assms(1) unfolding nal_ok_def by (metis last_conv_nth)
  ultimately show ?thesis using assms(2) by (auto simp: nth_append)
qed

lemma find_after_nal:
  assumes "nal_ok n" and "k \<le> length n"
  shows "find_start_from (pre @ n @ rest) (length pre) (length pre + k) =
         find_start_from (pre @ n @ rest) (length pre) (length pre + length n)"
  using assms(2)
proof (induction k rule: inc_induct)
  case base
  then show ?case by simp
next
  case (step k)
  have "find_start_from (pre @ n @ rest) (length pre) (length pre + k) =
      find_start_from (pre @ n @ rest) (length pre) (length pre + Suc k)"
  proof (cases "length pre + k + 3 \<le> length (pre @ n @ rest)")
    case True
    have "\<not> ((pre @ n @ rest) ! (length pre + k) = 0 \<and> (pre @ n @ rest) ! (length pre + k + 1) = 0 \<and>
        (pre @ n @ rest) ! (length pre + k + 2) = 1)"
      using no_start_in_nal [OF assms(1) step.hyps(2), of rest] True
      by (simp add: nth_append [of pre] add.assoc)
    then show ?thesis using True by (subst find_start_from.simps) auto
  next
    case False
    then show ?thesis by (subst (1 2) find_start_from.simps) simp
  qed
  with step.IH show ?case by simp
qed

lemma find_start_at_end:
  "find_start_from es start (length es) = None"
  by (subst find_start_from.simps) simp

lemma find_start_prefix:
  assumes "n \<noteq> []" and "last n \<noteq> 0"
  shows "find_start_from (pre @ n @ start_prefix b @ rest) (length pre) (length pre + length n) =
         Some (length pre + length n)"
proof -
  define p where "p = pre @ n"
  have lp: "length pre < length p" "last p \<noteq> 0" "p \<noteq> []" using assms by (auto simp: p_def)
  have lst: "p ! (length p - 1) \<noteq> 0" using lp by (simp add: last_conv_nth)
  have "find_start_from (p @ start_prefix b @ rest) (length pre) (length p) = Some (length p)"
  proof (cases b)
    case False
    then show ?thesis using lp lst
      by (subst find_start_from.simps) (simp add: start_prefix_def nth_append)
  next
    case True
    have "find_start_from (p @ start_prefix b @ rest) (length pre) (length p) =
        find_start_from (p @ start_prefix b @ rest) (length pre) (length p + 1)"
      using True by (subst find_start_from.simps) (simp add: start_prefix_def nth_append)
    also have "\<dots> = Some (length p)"
      using True lp by (subst find_start_from.simps) (simp add: start_prefix_def nth_append)
    finally show ?thesis .
  qed
  then show ?thesis by (simp add: p_def)
qed

lemma prefix_len_start:
  "n \<noteq> [] \<Longrightarrow> prefix_len (pre @ start_prefix b @ n) (length pre) = length (start_prefix b)"
  by (cases n) (auto simp: prefix_len_def start_prefix_def nth_append)

lemma split_from_framed:
  "list_all (\<lambda>p. nal_ok (snd p)) ps \<Longrightarrow>
   split_from (pre @ concat (map frame_nal ps)) (length pre) = map snd ps"
proof (induction ps arbitrary: pre)
  case Nil
  then show ?case by (subst split_from.simps) simp
next
  case (Cons p ps)
  obtain b n where p: "p = (b, n)" by (cases p)
  have n: "nal_ok n" "n \<noteq> []" "last n \<noteq> 0" using Cons.prems by (auto simp: p nal_ok_def)
  define pre' where "pre' = pre @ start_prefix b"
  define rest where "rest = concat (map frame_nal ps)"
  define es where "es = pre' @ n @ rest"
  have es: "pre @ concat (map frame_nal (p # ps)) = es"
    by (simp add: es_def pre'_def rest_def p frame_nal_def)
  have lt: "length pre < length es" using n by (simp add: es_def pre'_def)
  have s: "length pre + prefix_len es (length pre) = length pre'"
    using prefix_len_start [of "n @ rest" pre b] n by (simp add: es_def pre'_def)
  have find: "find_start_code es (length pre') =
      find_start_from es (length pre') (length pre' + length n)"
    using find_after_nal [OF n(1), of 0 pre' rest] by (simp add: find_start_code_def es_def)
  show ?case
  proof (cases ps)
    case Nil
    then have "find_start_code es (length pre') = None"
      using find find_start_at_end [of es "length pre'"] by (simp add: es_def rest_def)
    then show ?thesis
      using lt s n Nil unfolding es
      by (subst split_from.simps) (simp add: Let_def es_def rest_def p)
  next
    case (Cons q qs)
    have "rest = start_prefix (fst q) @ snd q @ concat (map frame_nal qs)"
      by (simp add: rest_def Cons frame_nal_def)
    then have "find_start_code es (length pre') = Some (length (pre' @ n))"
      using find find_start_prefix [OF n(2,3), of pre' "fst q"] by (simp add: es_def)
    then have "split_from es (length pre) = n # split_from es (length (pre' @ n))"
      using lt s n by (subst split_from.simps) (simp add: Let_def es_def)
    also have "split_from es (length (pre' @ n)) = map snd ps"
      using Cons.IH [of "pre' @ n"] Cons.prems unfolding es_def rest_def by simp
    finally show ?thesis unfolding es by (simp add: p)
  qed
qed

lemma find_first_prefix:
  "find_start_code (start_prefix b @ rest) 0 = Some 0"
proof (cases b)
  case False
  then show ?thesis
    unfolding find_start_code_def by (subst find_start_from.simps) (simp add: start_prefix_def)
next
  case True
  have "find_start_from (start_prefix b @ rest) 0 0 = find_start_from (start_prefix b @ rest) 0 1"
    using True by (subst find_start_from.simps) (simp add: start_prefix_def)
  also have "\<dots> = Some 0"
    using True by (subst find_start_from.simps) (simp add: start_prefix_def)
  finally show ?thesis by (simp add: find_start_code_def)
qed

lemma split_annexb_frames:
  assumes "list_all (\<lambda>p. nal_ok (snd p)) ps"
  shows "split_annexb (concat (map frame_nal ps)) = map snd ps"
proof (cases ps)
  case Nil
  then show ?thesis
    by (simp add: split_annexb_def find_start_code_def find_start_from.simps)
next
  case (Cons p qs)
  have "find_start_code (concat (map frame_nal ps)) 0 = Some 0"
    using find_first_prefix [of "fst p"] by (simp add: Cons frame_nal_def)
  then show ?thesis
    using split_from_framed [OF assms, of "[]"] by (simp add: split_annexb_def)
qed

text \<open>
  C8: an Annex-B stream of NAL units, framed by three- or four-byte start codes in any mixture,
  is split into exactly these units.
\<close>

theorem split_annexb_framed:
  "list_all (\<lambda>p. nal_ok (snd p)) ps \<Longrightarrow> split_annexb (concat (map frame_nal ps)) = map snd ps"
  by (rule split_annexb_frames)

theorem split_annexb_framed_witness:
  "split_annexb [0, 0, 0, 1, 0x67, 0x42, 0, 0, 1, 0x68, 0, 7] = [[0x67, 0x42], [0x68, 0, 7]]"
proof -
  have "list_all (\<lambda>p. nal_ok (snd p)) [(True, [0x67, 0x42]), (False, [0x68, 0, 7])]"
    by (auto simp: nal_ok_def sc_def numeral_3_eq_3 take_Cons' drop_Cons')
  from split_annexb_framed [OF this] show ?thesis
    by (simp add: frame_nal_def start_prefix_def)
qed

section \<open>The producer\<close>

record producer =
  p_stream :: "hub option"
  p_ready :: bool
  p_codec :: "codec option"
  p_vps :: "byte list option"
  p_sps :: "byte list option"
  p_pps :: "byte list option"
  have_prev :: bool
  prev_ts :: u32
  p_pts :: int
  p_frames :: nat

definition new_producer :: producer where
  "new_producer = \<lparr>p_stream = None, p_ready = False, p_codec = None, p_vps = None, p_sps = None,
     p_pps = None, have_prev = False, prev_ts = 0, p_pts = 0, p_frames = 0\<rparr>"

datatype prod_out = OnReady hub | Publish media_unit

definition sniff_codec :: "ps_result \<Rightarrow> byte list list \<Rightarrow> codec option" where
  "sniff_codec res nals =
     (if video_codec res = ''H264'' then Some CodecH264
      else if video_codec res = ''H265'' then Some CodecH265
      else if \<exists>n \<in> set nals. length n \<ge> 2 \<and> n ! 0 = 0x40 then Some CodecH265
      else if \<exists>n \<in> set nals. length n \<ge> 1 \<and> n ! 0 AND 0x80 = 0 \<and> n ! 0 AND 0x1F = 7
           then Some CodecH264
      else None)"

definition collect_one :: "producer \<Rightarrow> byte list \<Rightarrow> producer" where
  "collect_one p n =
     (if n = [] then p
      else case p_codec p of
        Some CodecH264 \<Rightarrow>
          (let t = n ! 0 AND 0x1F in
           if t = 7 then p\<lparr>p_sps := Some n\<rparr> else if t = 8 then p\<lparr>p_pps := Some n\<rparr> else p)
      | Some CodecH265 \<Rightarrow>
          (let t = drop_bit 1 (n ! 0) AND 0x3F in
           if t = 32 then p\<lparr>p_vps := Some n\<rparr>
           else if t = 33 then p\<lparr>p_sps := Some n\<rparr>
           else if t = 34 then p\<lparr>p_pps := Some n\<rparr> else p)
      | _ \<Rightarrow> p)"

definition collect_param_sets :: "producer \<Rightarrow> byte list list \<Rightarrow> producer" where
  "collect_param_sets p nals = foldl collect_one p nals"

definition filter_au :: "byte list list \<Rightarrow> byte list list" where
  "filter_au nals = filter (\<lambda>n. n \<noteq> []) nals"

definition video_only :: "codec \<Rightarrow> byte list \<Rightarrow> byte list \<Rightarrow> byte list \<Rightarrow> track" where
  "video_only c v s p = \<lparr>track_id = 1, kind = MediaVideo, track_codec = c, clock_rate = 90000,
     sps = s, pps = p, vps = v, audio_config = None\<rparr>"

text \<open>A nil \<^verbatim>\<open>VPS\<close> is an empty slice in the track.\<close>

definition try_ready :: "producer \<Rightarrow> bool \<times> producer" where
  "try_ready p =
     (case (p_codec p, p_sps p, p_pps p) of
        (Some CodecH264, Some s, Some q) \<Rightarrow>
          (True, p\<lparr>p_stream := Some (new_stream [video_only CodecH264 [] s q])\<rparr>)
      | (Some CodecH265, Some s, Some q) \<Rightarrow>
          (True, p\<lparr>p_stream := Some (new_stream
             [video_only CodecH265 (case p_vps p of None \<Rightarrow> [] | Some v \<Rightarrow> v) s q])\<rparr>)
      | _ \<Rightarrow> (False, p))"

definition advance_clock :: "producer \<Rightarrow> u32 \<Rightarrow> producer" where
  "advance_clock p ts =
     (let q = (if have_prev p then p\<lparr>p_pts := p_pts p + sint (ts - prev_ts p)\<rparr> else p)
      in q\<lparr>prev_ts := ts, have_prev := True\<rparr>)"

type_synonym keyframe_test = "byte list list \<Rightarrow> bool"

definition is_random_access ::
  "keyframe_test \<Rightarrow> keyframe_test \<Rightarrow> codec option \<Rightarrow> byte list list \<Rightarrow> bool" where
  "is_random_access ra264 ra265 c au =
     (case c of Some CodecH264 \<Rightarrow> ra264 au | Some CodecH265 \<Rightarrow> ra265 au | _ \<Rightarrow> False)"

definition publish_au ::
  "keyframe_test \<Rightarrow> keyframe_test \<Rightarrow> int \<Rightarrow> producer \<Rightarrow> byte list list \<Rightarrow> prod_out list" where
  "publish_au ra264 ra265 now p nals =
     (let au = filter_au nals in
      if au = [] then []
      else [Publish \<lparr>unit_track = 1, pts = p_pts p, ntp = now,
              random_access = is_random_access ra264 ra265 (p_codec p) au, aus = au\<rparr>])"

text \<open>The frame with at least one NAL unit: everything below the two early returns.\<close>

definition handle_nals ::
  "keyframe_test \<Rightarrow> keyframe_test \<Rightarrow> int \<Rightarrow> producer \<Rightarrow> ps_result \<Rightarrow> byte list list \<Rightarrow> u32 \<Rightarrow>
   producer \<times> prod_out list" where
  "handle_nals ra264 ra265 now p res nals ts =
     (let p1 = p\<lparr>p_frames := Suc (p_frames p)\<rparr>;
          p2 = (if p_codec p1 = None then p1\<lparr>p_codec := sniff_codec res nals\<rparr> else p1);
          p3 = advance_clock (collect_param_sets p2 nals) ts
      in if p_ready p3 then (p3, publish_au ra264 ra265 now p3 nals)
         else (case try_ready p3 of
                 (False, p4) \<Rightarrow> (p4, [])
               | (True, p4) \<Rightarrow>
                   (let p5 = p4\<lparr>p_ready := True\<rparr>
                    in (p5, (case p_stream p5 of Some h \<Rightarrow> [OnReady h] | None \<Rightarrow> [])
                            @ publish_au ra264 ra265 now p5 nals))))"

definition handle_frame ::
  "keyframe_test \<Rightarrow> keyframe_test \<Rightarrow> int \<Rightarrow> producer \<Rightarrow> rtp_frame \<Rightarrow>
   (producer \<times> prod_out list) option" where
  "handle_frame ra264 ra265 now p f =
     do { res \<leftarrow> demux_ps (data f);
          let nals = split_annexb (video res);
          Some (if video res = [] \<or> nals = [] then (p, [])
                else handle_nals ra264 ra265 now p res nals (timestamp f)) }"

text \<open>A session: frames with the wall-clock time of their handling.\<close>

fun handle_frames ::
  "keyframe_test \<Rightarrow> keyframe_test \<Rightarrow> producer \<Rightarrow> (int \<times> rtp_frame) list \<Rightarrow>
   (producer \<times> prod_out list) option" where
  "handle_frames ra264 ra265 p [] = Some (p, [])"
| "handle_frames ra264 ra265 p (f # fs) =
     do { (p1, o1) \<leftarrow> handle_frame ra264 ra265 (fst f) p (snd f);
          (p2, o2) \<leftarrow> handle_frames ra264 ra265 p1 fs;
          Some (p2, o1 @ o2) }"

subsection \<open>Frame conditions\<close>

lemma collect_one_frame [frame_simps]:
  "p_ready (collect_one p n) = p_ready p" "p_stream (collect_one p n) = p_stream p"
  "p_pts (collect_one p n) = p_pts p" "prev_ts (collect_one p n) = prev_ts p"
  "have_prev (collect_one p n) = have_prev p" "p_codec (collect_one p n) = p_codec p"
  by (auto simp: collect_one_def Let_def split: option.splits codec.splits)

lemma collect_frame [frame_simps]:
  "p_ready (collect_param_sets p ns) = p_ready p"
  "p_stream (collect_param_sets p ns) = p_stream p"
  "p_pts (collect_param_sets p ns) = p_pts p"
  "prev_ts (collect_param_sets p ns) = prev_ts p"
  "have_prev (collect_param_sets p ns) = have_prev p"
  by (induction ns arbitrary: p) (simp_all add: collect_param_sets_def frame_simps)

lemma advance_frame [frame_simps]:
  "p_ready (advance_clock p ts) = p_ready p" "p_stream (advance_clock p ts) = p_stream p"
  by (simp_all add: advance_clock_def Let_def)

lemma try_ready_frame [frame_simps]:
  "p_pts (snd (try_ready p)) = p_pts p" "prev_ts (snd (try_ready p)) = prev_ts p"
  "have_prev (snd (try_ready p)) = have_prev p" "p_ready (snd (try_ready p)) = p_ready p"
  by (auto simp: try_ready_def split: option.splits codec.splits)

lemma handle_frame_total: "\<exists>r. handle_frame ra264 ra265 now p f = Some r"
  using demux_total [of "data f"] by (auto simp: handle_frame_def Let_def)

lemma handle_frames_total: "\<exists>r. handle_frames ra264 ra265 p fs = Some r"
proof (induction fs arbitrary: p)
  case Nil
  then show ?case by simp
next
  case (Cons f fs)
  obtain p1 o1 where "handle_frame ra264 ra265 (fst f) p (snd f) = Some (p1, o1)"
    using handle_frame_total by (metis surj_pair)
  then show ?case using Cons.IH [of p1] by auto
qed

section \<open>The session contract\<close>

definition published :: "prod_out list \<Rightarrow> media_unit list" where
  "published xs = concat (map (\<lambda>x. case x of Publish u \<Rightarrow> [u] | OnReady _ \<Rightarrow> []) xs)"

lemma published_simps [simp]:
  "published [] = []" "published (Publish u # xs) = u # published xs"
  "published (OnReady h # xs) = published xs" "published (xs @ ys) = published xs @ published ys"
  by (simp_all add: published_def)

definition unit_ok :: "media_unit \<Rightarrow> bool" where
  "unit_ok u \<longleftrightarrow> unit_track u = 1 \<and> aus u \<noteq> [] \<and> [] \<notin> set (aus u)"

definition ready_hub :: "hub \<Rightarrow> bool" where
  "ready_hub h \<longleftrightarrow> (\<exists>t. h = new_stream [t] \<and> is_video t \<and> sps t \<noteq> [] \<and> pps t \<noteq> [])"

lemma ready_hubI:
  "is_video t \<Longrightarrow> sps t \<noteq> [] \<Longrightarrow> pps t \<noteq> [] \<Longrightarrow> ready_hub (new_stream [t])"
  by (auto simp: ready_hub_def)

definition sets_ok :: "producer \<Rightarrow> bool" where
  "sets_ok p \<longleftrightarrow> p_sps p \<noteq> Some [] \<and> p_pps p \<noteq> Some []"

lemma collect_sets_ok: "sets_ok p \<Longrightarrow> sets_ok (collect_param_sets p ns)"
proof (induction ns arbitrary: p)
  case Nil
  then show ?case by (simp add: collect_param_sets_def)
next
  case (Cons n ns)
  have "sets_ok (collect_one p n)"
    using Cons.prems
    by (auto simp: sets_ok_def collect_one_def Let_def split: option.splits codec.splits)
  then show ?case using Cons.IH by (simp add: collect_param_sets_def)
qed

lemma try_ready_cases:
  assumes "try_ready p = (b, q)" and "sets_ok p"
  shows "sets_ok q \<and> (b \<longrightarrow> (\<exists>h. p_stream q = Some h \<and> ready_hub h))"
  using assms
  by (auto simp: try_ready_def sets_ok_def video_only_def is_video_def
      split: option.splits codec.splits intro!: ready_hubI)

lemma publish_au_shape:
  "\<exists>us. publish_au ra264 ra265 now p nals = map Publish us \<and>
     list_all unit_ok us \<and> list_all (\<lambda>u. pts u = p_pts p) us \<and> length us \<le> 1"
proof (cases "filter_au nals = []")
  case True
  then show ?thesis by (auto simp: publish_au_def Let_def)
next
  case False
  define u where "u = \<lparr>unit_track = 1, pts = p_pts p, ntp = now,
    random_access = is_random_access ra264 ra265 (p_codec p) (filter_au nals),
    aus = filter_au nals\<rparr>"
  have "publish_au ra264 ra265 now p nals = map Publish [u]"
    using False by (simp add: publish_au_def Let_def u_def)
  moreover have "unit_ok u \<and> pts u = p_pts p"
    using False by (auto simp: u_def unit_ok_def filter_au_def)
  ultimately show ?thesis by (intro exI [of _ "[u]"]) auto
qed

lemma handle_nals_shape:
  assumes "handle_nals ra264 ra265 now p res nals ts = (q, xs)" and "sets_ok p"
  shows "sets_ok q \<and> p_pts q = p_pts (advance_clock p ts) \<and> prev_ts q = ts \<and> have_prev q \<and>
    (\<exists>us. list_all unit_ok us \<and> list_all (\<lambda>u. pts u = p_pts q) us \<and> length us \<le> 1 \<and>
       (if p_ready p then p_ready q \<and> xs = map Publish us
        else if p_ready q then (\<exists>h. ready_hub h \<and> xs = OnReady h # map Publish us)
        else xs = []))"
proof -
  define p1 where "p1 = p\<lparr>p_frames := Suc (p_frames p)\<rparr>"
  define p2 where
    "p2 = (if p_codec p1 = None then p1\<lparr>p_codec := sniff_codec res nals\<rparr> else p1)"
  define p3 where "p3 = advance_clock (collect_param_sets p2 nals) ts"
  have s3: "sets_ok p3"
    using assms(2) collect_sets_ok [of p2 nals]
    by (simp add: p3_def p2_def p1_def sets_ok_def advance_clock_def Let_def)
  have f3: "p_ready p3 = p_ready p" "p_pts p3 = p_pts (advance_clock p ts)" "prev_ts p3 = ts"
    "have_prev p3"
    by (simp_all add: p3_def p2_def p1_def frame_simps) (simp_all add: advance_clock_def Let_def
        frame_simps)
  obtain b p4 where t: "try_ready p3 = (b, p4)" by (cases "try_ready p3")
  have f4: "p_pts p4 = p_pts p3" "prev_ts p4 = prev_ts p3" "have_prev p4 = have_prev p3"
    "p_ready p4 = p_ready p3"
    using try_ready_frame [of p3] by (simp_all add: t)
  have "handle_nals ra264 ra265 now p res nals ts =
     (if p_ready p3 then (p3, publish_au ra264 ra265 now p3 nals)
      else if b then (p4\<lparr>p_ready := True\<rparr>,
             (case p_stream p4 of Some h \<Rightarrow> [OnReady h] | None \<Rightarrow> [])
             @ publish_au ra264 ra265 now (p4\<lparr>p_ready := True\<rparr>) nals)
      else (p4, []))"
    unfolding handle_nals_def Let_def p1_def [symmetric] p2_def [symmetric] p3_def [symmetric] t
    by (cases b) simp_all
  with assms(1) show ?thesis
    using s3 f3 f4 try_ready_cases [OF t s3] publish_au_shape [of ra264 ra265 now p3 nals]
      publish_au_shape [of ra264 ra265 now "p4\<lparr>p_ready := True\<rparr>" nals]
    by (fastforce simp: sets_ok_def split: if_splits)
qed

lemma handle_frame_shape:
  assumes "handle_frame ra264 ra265 now p f = Some (q, xs)" and "sets_ok p"
  shows "sets_ok q \<and> (\<exists>us. list_all unit_ok us \<and>
       (if p_ready p then p_ready q \<and> xs = map Publish us
        else if p_ready q then (\<exists>h. ready_hub h \<and> xs = OnReady h # map Publish us)
        else xs = []))"
proof -
  obtain res where res: "demux_ps (data f) = Some res" using demux_total by blast
  show ?thesis
  proof (cases "video res = [] \<or> split_annexb (video res) = []")
    case True
    then have "q = p \<and> xs = []" using assms(1) res by (auto simp: handle_frame_def Let_def)
    then show ?thesis using assms(2) by (auto intro!: exI [of _ "[]"])
  next
    case False
    then have "handle_nals ra264 ra265 now p res (split_annexb (video res)) (timestamp f) = (q, xs)"
      using assms(1) res by (simp add: handle_frame_def Let_def)
    from handle_nals_shape [OF this assms(2)] show ?thesis by blast
  qed
qed

lemma handle_frames_shape:
  "handle_frames ra264 ra265 p fs = Some (q, xs) \<Longrightarrow> sets_ok p \<Longrightarrow>
   sets_ok q \<and> (\<exists>us. list_all unit_ok us \<and>
       (if p_ready p then p_ready q \<and> xs = map Publish us
        else if p_ready q then (\<exists>h. ready_hub h \<and> xs = OnReady h # map Publish us)
        else xs = []))"
proof (induction fs arbitrary: p xs)
  case Nil
  then show ?case by (auto intro!: exI [of _ "[]"])
next
  case (Cons f fs)
  obtain p1 o1 o2 where 1: "handle_frame ra264 ra265 (fst f) p (snd f) = Some (p1, o1)"
    and 2: "handle_frames ra264 ra265 p1 fs = Some (q, o2)" and xs: "xs = o1 @ o2"
    using Cons.prems(1) by (auto split: Option.bind_splits)
  note s1 = handle_frame_shape [OF 1 Cons.prems(2)]
  note s2 = Cons.IH [OF 2 conjunct1 [OF s1]]
  obtain us where us: "list_all unit_ok us"
    "if p_ready p then p_ready p1 \<and> o1 = map Publish us
     else if p_ready p1 then (\<exists>h. ready_hub h \<and> o1 = OnReady h # map Publish us) else o1 = []"
    using s1 by blast
  obtain vs where vs: "list_all unit_ok vs"
    "if p_ready p1 then p_ready q \<and> o2 = map Publish vs
     else if p_ready q then (\<exists>h. ready_hub h \<and> o2 = OnReady h # map Publish vs) else o2 = []"
    using s2 by blast
  show ?case
  proof (cases "p_ready p1")
    case True
    then show ?thesis
      using us vs s2 xs by (intro conjI exI [of _ "us @ vs"]) (auto split: if_splits)
  next
    case False
    then show ?thesis
      using us vs s2 xs by (intro conjI exI [of _ vs]) (auto split: if_splits)
  qed
qed

text \<open>
  C9: the contract of a source.  Whatever frames arrive, a session never fails; it publishes
  nothing before it is ready; it reports readiness exactly once, with a fresh stream whose only
  track is a video track with an SPS and a PPS; and every unit after that is a non-empty list of
  non-empty NAL units.
\<close>

theorem session_contract:
  "\<exists>q xs. handle_frames ra264 ra265 new_producer fs = Some (q, xs) \<and>
     (xs = [] \<or> (\<exists>h us. ready_hub h \<and> list_all unit_ok us \<and> xs = OnReady h # map Publish us))"
proof -
  obtain q xs where r: "handle_frames ra264 ra265 new_producer fs = Some (q, xs)"
    using handle_frames_total by (metis surj_pair)
  have "sets_ok new_producer" "\<not> p_ready new_producer"
    by (simp_all add: sets_ok_def new_producer_def)
  with handle_frames_shape [OF r] show ?thesis
    using r by (auto split: if_splits)
qed

section \<open>The presentation clock\<close>

lemma sint_diff_small:
  assumes "\<bar>t' - t\<bar> < 2 ^ 31"
  shows "sint (word_of_int t' - word_of_int t :: u32) = t' - t"
proof -
  have eq: "(word_of_int t' - word_of_int t :: u32) = word_of_int (t' - t)" by simp
  have "sint (word_of_int (t' - t) :: u32) = t' - t"
    by (subst sint_sbintrunc') (rule signed_take_bit_int_eq_self, use assms in simp_all)
  then show ?thesis by (simp only: eq)
qed

definition clock_at :: "int \<Rightarrow> int \<Rightarrow> producer \<Rightarrow> bool" where
  "clock_at t0 t p \<longleftrightarrow> have_prev p \<and> prev_ts p = word_of_int t \<and> p_pts p = t - t0 \<and> sets_ok p"

lemma advance_clock_at:
  "clock_at t0 t p \<Longrightarrow> \<bar>t' - t\<bar> < 2 ^ 31 \<Longrightarrow> p_pts (advance_clock p (word_of_int t')) = t' - t0"
  using sint_diff_small [of t' t] by (simp add: advance_clock_def clock_at_def Let_def)

definition has_video :: "rtp_frame \<Rightarrow> bool" where
  "has_video f \<longleftrightarrow> (\<exists>res. demux_ps (data f) = Some res \<and> split_annexb (video res) \<noteq> [])"

lemma split_annexb_Nil [simp]: "split_annexb [] = []"
  by (simp add: split_annexb_def find_start_code_def find_start_from.simps)

lemma handle_frame_clock:
  assumes "handle_frame ra264 ra265 now p f = Some (q, xs)" and "sets_ok p" and "has_video f"
  shows "sets_ok q \<and> p_pts q = p_pts (advance_clock p (timestamp f)) \<and> prev_ts q = timestamp f \<and>
    have_prev q \<and> subseq (map pts (published xs)) [p_pts q]"
proof -
  obtain res where res: "demux_ps (data f) = Some res" "split_annexb (video res) \<noteq> []"
    using assms(3) by (auto simp: has_video_def)
  then have "handle_nals ra264 ra265 now p res (split_annexb (video res)) (timestamp f) = (q, xs)"
    using assms(1) by (auto simp: handle_frame_def Let_def split: if_splits)
  note sh = handle_nals_shape [OF this assms(2)]
  then obtain us where us: "list_all (\<lambda>u. pts u = p_pts q) us" "length us \<le> 1"
    "published xs = us \<or> published xs = []"
    by (auto simp: published_def comp_def split: if_splits)
  then have "subseq (map pts (published xs)) [p_pts q]"
    by (cases us) auto
  with sh show ?thesis by blast
qed

lemma handle_frames_clock:
  assumes "clock_at t0 t p"
    and "list_all2 (\<lambda>f t. has_video (snd f) \<and> timestamp (snd f) = word_of_int t) fs ts"
    and "successively (\<lambda>a b. \<bar>b - a\<bar> < 2 ^ 31) (t # ts)"
    and "handle_frames ra264 ra265 p fs = Some (q, xs)"
  shows "subseq (map pts (published xs)) (map (\<lambda>t. t - t0) ts)"
  using assms
proof (induction fs arbitrary: t p ts xs)
  case Nil
  then show ?case by simp
next
  case (Cons f fs)
  obtain t' us where ts: "ts = t' # us" and f: "has_video (snd f)" "timestamp (snd f) = word_of_int t'"
    and rest: "list_all2 (\<lambda>f t. has_video (snd f) \<and> timestamp (snd f) = word_of_int t) fs us"
    using Cons.prems(2) by (auto simp: list_all2_Cons1)
  obtain p1 o1 o2 where 1: "handle_frame ra264 ra265 (fst f) p (snd f) = Some (p1, o1)"
    and 2: "handle_frames ra264 ra265 p1 fs = Some (q, o2)" and xs: "xs = o1 @ o2"
    using Cons.prems(4) by (auto split: Option.bind_splits)
  have "sets_ok p" using Cons.prems(1) by (simp add: clock_at_def)
  note c = handle_frame_clock [OF 1 this f(1)]
  have d: "\<bar>t' - t\<bar> < 2 ^ 31" "successively (\<lambda>a b. \<bar>b - a\<bar> < 2 ^ 31) (t' # us)"
    using Cons.prems(3) by (simp_all add: ts)
  have "clock_at t0 t' p1"
    using c f(2) advance_clock_at [OF Cons.prems(1) d(1)] by (simp add: clock_at_def)
  then have "subseq (map pts (published o2)) (map (\<lambda>t. t - t0) us)"
    using Cons.IH rest d(2) 2 by blast
  moreover have "p_pts p1 = t' - t0"
    using c f(2) advance_clock_at [OF Cons.prems(1) d(1)] by simp
  with c have "subseq (map pts (published o1)) [t' - t0]" by metis
  ultimately show ?case
    using list_emb_append_mono [of "(=)" _ "[t' - t0]"] by (fastforce simp: xs ts)
qed

text \<open>
  C10: the clock is unwrapped correctly.  When the frames of a session carry the low 32 bits of
  true capture times (in 90 kHz ticks) and neighbouring frames are less than \<open>2^31\<close> ticks
  apart, then the presentation times of the published units are, in order, true times relative
  to the first frame, across any number of wraps and also when a time steps back.
\<close>

theorem clock_unwraps:
  assumes "list_all2 (\<lambda>f t. has_video (snd f) \<and> timestamp (snd f) = word_of_int t) fs ts"
    and "successively (\<lambda>a b. \<bar>b - a\<bar> < 2 ^ 31) ts"
    and "handle_frames ra264 ra265 new_producer fs = Some (q, xs)"
  shows "subseq (map pts (published xs)) (map (\<lambda>t. t - hd ts) ts)"
proof (cases fs)
  case Nil
  then show ?thesis using assms(3) by simp
next
  case (Cons f fs')
  obtain t us where ts: "ts = t # us" and f: "has_video (snd f)" "timestamp (snd f) = word_of_int t"
    and rest: "list_all2 (\<lambda>f t. has_video (snd f) \<and> timestamp (snd f) = word_of_int t) fs' us"
    using assms(1) by (auto simp: Cons list_all2_Cons1)
  obtain p1 o1 o2 where 1: "handle_frame ra264 ra265 (fst f) new_producer (snd f) = Some (p1, o1)"
    and 2: "handle_frames ra264 ra265 p1 fs' = Some (q, o2)" and xs: "xs = o1 @ o2"
    using assms(3) by (auto simp: Cons split: Option.bind_splits)
  have n: "sets_ok new_producer" "\<not> have_prev new_producer" "p_pts new_producer = 0"
    by (simp_all add: sets_ok_def new_producer_def)
  note c = handle_frame_clock [OF 1 n(1) f(1)]
  have z: "p_pts p1 = 0" using c n by (simp add: advance_clock_def Let_def)
  then have "clock_at t t p1" using c f(2) by (simp add: clock_at_def)
  from handle_frames_clock [OF this rest _ 2]
  have "subseq (map pts (published o2)) (map (\<lambda>x. x - t) us)"
    using assms(2) by (simp add: ts)
  moreover have "subseq (map pts (published o1)) [0]" using c z by metis
  ultimately show ?thesis
    using list_emb_append_mono [of "(=)" _ "[0]"] by (fastforce simp: xs ts)
qed

definition sample_frame :: "int \<Rightarrow> byte list \<Rightarrow> int \<times> rtp_frame" where
  "sample_frame t es =
     (0, \<lparr>timestamp = word_of_int t, data = ps_encode (Pes 0xE0 [] es)\<rparr>)"

lemma sample_frame_video:
  assumes "length es < 60000" and "split_annexb es \<noteq> []"
  shows "has_video (snd (sample_frame t es)) \<and> timestamp (snd (sample_frame t es)) = word_of_int t"
proof -
  have "list_all ps_unit_ok [Pes 0xE0 [] es]"
    using assms(1) by (simp add: is_pes_video_def)
  from demux_loop_encoded [OF this, of "[]" empty_result]
  have "demux_ps (ps_encode (Pes 0xE0 [] es)) = Some (ps_expect empty_result (Pes 0xE0 [] es))"
    by (simp add: demux_ps_def del: ps_encode.simps ps_expect.simps)
  moreover have "video (ps_expect empty_result (Pes 0xE0 [] es)) = es"
    by (simp add: empty_result_def is_pes_video_def)
  ultimately show ?thesis
    using assms(2) unfolding has_video_def sample_frame_def by auto
qed

definition sample_keyframe :: "byte list" where
  "sample_keyframe = concat (map frame_nal [(True, [0x67, 0x42]), (True, [0x68, 0xCE]), (True, [0x65, 0x88])])"

lemma sample_keyframe_split: "split_annexb sample_keyframe = [[0x67, 0x42], [0x68, 0xCE], [0x65, 0x88]]"
proof -
  have "list_all (\<lambda>p. nal_ok (snd p)) [(True, [0x67, 0x42]), (True, [0x68, 0xCE]), (True, [0x65, 0x88])]"
    by (auto simp: nal_ok_def sc_def numeral_3_eq_3 take_Cons' drop_Cons')
  from split_annexb_frames [OF this] show ?thesis
    by (simp add: sample_keyframe_def)
qed

theorem clock_unwraps_witness:
  "\<exists>q xs. handle_frames (\<lambda>_. True) (\<lambda>_. True) new_producer
       [sample_frame 4294967000 sample_keyframe, sample_frame 4294970600 sample_keyframe] = Some (q, xs) \<and>
     subseq (map pts (published xs)) [0, 3600]"
proof -
  define fs where "fs = [sample_frame 4294967000 sample_keyframe, sample_frame 4294970600 sample_keyframe]"
  obtain q xs where r: "handle_frames (\<lambda>_. True) (\<lambda>_. True) new_producer fs = Some (q, xs)"
    using handle_frames_total by (metis surj_pair)
  have "length sample_keyframe < 60000"
    by (simp add: sample_keyframe_def frame_nal_def start_prefix_def)
  then have "list_all2 (\<lambda>f t. has_video (snd f) \<and> timestamp (snd f) = word_of_int t) fs
      [4294967000, 4294970600]"
    using sample_frame_video [of sample_keyframe] sample_keyframe_split by (simp add: fs_def)
  from clock_unwraps [OF this _ r] show ?thesis using r unfolding fs_def by auto
qed

end
