(* ===== verification/Flv.thy ===== *)
theory Flv
  imports Core_Stream
begin

text \<open>
  FLV in both directions: the muxer that re-publishes a stream (\<^verbatim>\<open>internal/restream/flv.go\<close>)
  and the readers of the RTMP ingest (\<^verbatim>\<open>internal/rtmp/flv.go\<close>).  Parameters stand for the
  codec library: \<open>extractor\<close> is the stateful DTS extractor (\<open>None\<close> is its error), \<open>avcc\<close> the
  AVCC marshaller and \<open>asc\<close> the marshaller of the AAC configuration.
\<close>

section \<open>Tags\<close>

definition tag_audio :: byte where "tag_audio = 8"
definition tag_video :: byte where "tag_video = 9"

definition u24_bytes :: "u32 \<Rightarrow> byte list" where
  "u24_bytes w = [ucast (drop_bit 16 w), ucast (drop_bit 8 w), ucast w]"

definition u32_bytes :: "u32 \<Rightarrow> byte list" where
  "u32_bytes w = [ucast (drop_bit 24 w), ucast (drop_bit 16 w), ucast (drop_bit 8 w), ucast w]"

text \<open>The size is a Go \<^verbatim>\<open>int\<close>: only its low 24 bits reach the tag.\<close>

definition flv_tag :: "byte \<Rightarrow> u32 \<Rightarrow> byte list \<Rightarrow> byte list" where
  "flv_tag typ ts body =
     [typ] @ u24_bytes (of_nat (length body)) @ u24_bytes ts @ [ucast (drop_bit 24 ts), 0, 0, 0] @
     body @ u32_bytes (of_nat (11 + length body))"

section \<open>The decoder configuration record\<close>

definition avc_decoder_config :: "byte list \<Rightarrow> byte list \<Rightarrow> byte list" where
  "avc_decoder_config s p =
     (let (profile, compat, level) =
        (if length s \<ge> 4 then (s ! 1, s ! 2, s ! 3) else (0x42, 0x00, 0x1F))
      in [0x01, profile, compat, level, 0xFF, 0xE1] @
         be16_bytes (length s) @ s @ [0x01] @ be16_bytes (length p) @ p)"

datatype avc_error =
  TooShort | BadVersion byte | TruncSPSLen | TruncSPS | MissingPPS | TruncPPSLen | TruncPPS
| MissingSets

text \<open>Copying an empty slice onto a nil slice yields nil.\<close>

definition clone_nil :: "byte list \<Rightarrow> byte list option" where
  "clone_nil xs = (if xs = [] then None else Some xs)"

text \<open>
  The loop over one group of parameter sets: the first one is kept.  \<open>Inl\<close> is an early return
  with its error.
\<close>

fun read_sets ::
  "byte list \<Rightarrow> avc_error \<Rightarrow> avc_error \<Rightarrow> nat \<Rightarrow> bool \<Rightarrow> nat \<Rightarrow> byte list option \<Rightarrow>
   avc_error + (nat \<times> byte list option)" where
  "read_sets b elen eset 0 is_first pos acc = Inr (pos, acc)"
| "read_sets b elen eset (Suc k) is_first pos acc =
     (if pos + 2 > length b then Inl elen
      else (let l = be16 (b ! pos) (b ! (pos + 1)); q = pos + 2 in
            if q + l > length b then Inl eset
            else read_sets b elen eset k False (q + l)
                   (if is_first then clone_nil (take l (drop q b)) else acc)))"

definition parse_avc_decoder_config ::
  "byte list \<Rightarrow> byte list option \<times> byte list option \<times> avc_error option" where
  "parse_avc_decoder_config b =
     (if length b < 7 then (None, None, Some TooShort)
      else if b ! 0 \<noteq> 1 then (None, None, Some (BadVersion (b ! 0)))
      else case read_sets b TruncSPSLen TruncSPS (unat (b ! 5 AND 0x1F)) True 6 None of
        Inl e \<Rightarrow> (None, None, Some e)
      | Inr (pos, s) \<Rightarrow>
          if pos \<ge> length b then (s, None, Some MissingPPS)
          else (case read_sets b TruncPPSLen TruncPPS (unat (b ! pos)) True (pos + 1) None of
                  Inl e \<Rightarrow> (s, None, Some e)
                | Inr (pos', p) \<Rightarrow>
                    if s = None \<or> p = None then (s, p, Some MissingSets) else (s, p, None)))"

definition int24 :: "byte list \<Rightarrow> int" where
  "int24 b =
     (let v = push_bit 16 (ucast (b ! 0)) OR push_bit 8 (ucast (b ! 1)) OR ucast (b ! 2) :: u32
      in sint (if v AND 0x800000 \<noteq> 0 then v OR NOT 0xFFFFFF else v))"

lemma avc_config_roundtrip_aux:
  assumes "0 < length s" and "length s < 65536" and "0 < length p" and "length p < 65536"
  shows "parse_avc_decoder_config (avc_decoder_config s p) = (Some s, Some p, None)"
proof -
  obtain a1 a2 a3 where t:
    "(if length s \<ge> 4 then (s ! 1, s ! 2, s ! 3) else (0x42, 0x00, 0x1F)) = (a1, a2, a3)"
    by (cases "length s \<ge> 4") auto
  have cfg: "avc_decoder_config s p =
      [1, a1, a2, a3, 0xFF, 0xE1, word_of_nat (length s div 256), word_of_nat (length s)] @ s @
      [1, word_of_nat (length p div 256), word_of_nat (length p)] @ p"
    unfolding avc_decoder_config_def t by (simp add: be16_bytes_def)
  define b where "b = avc_decoder_config s p"
  define n where "n = 8 + length s"
  have len: "length b = n + 3 + length p" by (simp add: b_def cfg n_def)
  have hd: "b ! 0 = 1" "b ! 5 = 0xE1" "b ! 6 = word_of_nat (length s div 256)"
    "b ! 7 = word_of_nat (length s)" "take (length s) (drop 8 b) = s"
    by (simp_all add: b_def cfg)
  have tl: "b ! n = 1" "b ! (n + 1) = word_of_nat (length p div 256)"
    "b ! (n + 2) = word_of_nat (length p)"
    by (simp_all add: b_def cfg n_def nth_append)
  define hdr where "hdr = [1, a1, a2, a3, 0xFF, 0xE1, word_of_nat (length s div 256),
    word_of_nat (length s)] @ s @ [1, word_of_nat (length p div 256), word_of_nat (length p)]"
  have "b = hdr @ p" "length hdr = n + 3" by (simp_all add: b_def cfg hdr_def n_def)
  then have dp: "drop (n + 3) b = p" by simp
  have one: "unat ((0xE1 :: byte) AND 0x1F) = 1" by simp
  have s1: "read_sets b TruncSPSLen TruncSPS 1 True 6 None = Inr (n, Some s)"
    using hd len assms(1) be16_roundtrip [OF assms(2)]
    by (simp add: Let_def n_def clone_nil_def)
  have i: "n + 1 + 1 = n + 2" "n + 1 + 2 = n + 3" by simp_all
  have l: "be16 (b ! (n + 1)) (b ! (n + 2)) = length p"
    using tl(2,3) be16_roundtrip [OF assms(4)] by simp
  have tp: "take (length p) (drop (n + 3) b) = p" using dp by simp
  have p1: "read_sets b TruncPPSLen TruncPPS 1 True (n + 1) None = Inr (n + 3 + length p, Some p)"
    unfolding One_nat_def read_sets.simps unfolding One_nat_def [symmetric] Let_def i l tp
    using len assms(3) by (simp add: clone_nil_def)
  show ?thesis
    unfolding b_def [symmetric] parse_avc_decoder_config_def hd(1,2) one s1
    using len tl(1) p1 by (simp add: n_def)
qed

text \<open>
  The record the muxer writes for one SPS and one PPS is read back by the ingest exactly,
  for every length the 16-bit fields can carry.
\<close>

theorem avc_config_roundtrip:
  assumes "0 < length s" and "length s < 65536" and "0 < length p" and "length p < 65536"
  shows "parse_avc_decoder_config (avc_decoder_config s p) = (Some s, Some p, None)"
  by (rule avc_config_roundtrip_aux [OF assms])

theorem avc_config_roundtrip_witness:
  "parse_avc_decoder_config (avc_decoder_config [0x67, 0x42, 0, 0x1E, 1] [0x68, 0xCE]) =
   (Some [0x67, 0x42, 0, 0x1E, 1], Some [0x68, 0xCE], None)"
  by (rule avc_config_roundtrip) simp_all

section \<open>The muxer\<close>

record 'x flv_muxer =
  mux_video :: track
  mux_audio :: "track option"
  mux_ext :: 'x
  base_video_ms :: int
  base_audio_ms :: int
  has_base_v :: bool
  has_base_a :: bool
  wrote_vseq :: bool
  wrote_aseq :: bool

datatype flv_error = NotH264 codec | NoVideo

text \<open>The loop over the tracks of \<^verbatim>\<open>NewFlvMuxer\<close>: \<open>Inl\<close> is its early return.\<close>

fun pick_tracks ::
  "track list \<Rightarrow> track option \<Rightarrow> track option \<Rightarrow> flv_error + (track option \<times> track option)" where
  "pick_tracks [] v a = Inr (v, a)"
| "pick_tracks (t # ts) v a =
     (if is_video t \<and> v = None then
        (if track_codec t \<noteq> CodecH264 then Inl (NotH264 (track_codec t))
         else pick_tracks ts (Some t) a)
      else if \<not> is_video t \<and> track_codec t = CodecAAC \<and> a = None then pick_tracks ts v (Some t)
      else pick_tracks ts v a)"

definition new_flv_muxer :: "'x \<Rightarrow> track list \<Rightarrow> flv_error + 'x flv_muxer" where
  "new_flv_muxer x0 ts =
     ebind (pick_tracks ts None None) (\<lambda>(v, a).
       case v of
         None \<Rightarrow> Inl NoVideo
       | Some t \<Rightarrow> Inr \<lparr>mux_video = t, mux_audio = a, mux_ext = x0, base_video_ms = 0,
           base_audio_ms = 0, has_base_v = False, has_base_a = False, wrote_vseq = False,
           wrote_aseq = False\<rparr>)"

definition flv_header ::
  "(byte list \<Rightarrow> byte list option) \<Rightarrow> 'x flv_muxer \<Rightarrow> byte list \<times> 'x flv_muxer" where
  "flv_header asc m =
     (let flags = (if mux_audio m \<noteq> None then 0x01 OR 0x04 else 0x01);
          out = [0x46, 0x4C, 0x56, 0x01, flags, 0, 0, 0, 9, 0, 0, 0, 0];
          v = flv_tag tag_video 0
                ([0x17, 0x00, 0, 0, 0] @ avc_decoder_config (sps (mux_video m)) (pps (mux_video m)));
          m1 = m\<lparr>wrote_vseq := True\<rparr>
      in case mux_audio m of
           None \<Rightarrow> (out @ v, m1)
         | Some t \<Rightarrow>
             (case audio_config t of
                None \<Rightarrow> (out @ v, m1)
              | Some cfg \<Rightarrow>
                  (case asc cfg of
                     None \<Rightarrow> (out @ v, m1)
                   | Some d \<Rightarrow> (out @ v @ flv_tag tag_audio 0 ([0xAF, 0x00] @ d),
                                m1\<lparr>wrote_aseq := True\<rparr>))))"

definition clamp_ts :: "int \<Rightarrow> int" where
  "clamp_ts ts = (if ts < 0 then 0 else ts)"

text \<open>
  The result of a push: nothing yet, an error of the marshaller, or tags; \<open>DivByZero\<close> is the
  run-time panic of a track without clock rate.
\<close>

datatype flv_out = NoTag | PushError | Tags "byte list" | DivByZero

definition cts_bytes :: "int \<Rightarrow> byte list" where
  "cts_bytes cts =
     (let w = word_of_int cts :: u64
      in [ucast (drop_bit 16 w), ucast (drop_bit 8 w), ucast w])"

definition video_body :: "bool \<Rightarrow> int \<Rightarrow> byte list \<Rightarrow> byte list" where
  "video_body key cts payload =
     [push_bit 4 (if key then 1 else 2) OR 0x07, 0x01] @ cts_bytes cts @ payload"

definition push_video ::
  "('x \<Rightarrow> byte list list \<Rightarrow> int \<Rightarrow> int option \<times> 'x) \<Rightarrow> (byte list list \<Rightarrow> byte list option) \<Rightarrow>
   'x flv_muxer \<Rightarrow> media_unit \<Rightarrow> flv_out \<times> 'x flv_muxer" where
  "push_video extractor avcc m u =
     (case extractor (mux_ext m) (aus u) (pts u) of
        (None, x) \<Rightarrow> (NoTag, m\<lparr>mux_ext := x\<rparr>)
      | (Some dts, x) \<Rightarrow>
          (let clock = clock_rate (mux_video m); m0 = m\<lparr>mux_ext := x\<rparr> in
           if clock = 0 then (DivByZero, m0)
           else (let dts_ms = go_div (dts * 1000) clock;
                     m1 = (if has_base_v m0 then m0
                           else m0\<lparr>base_video_ms := dts_ms, has_base_v := True\<rparr>);
                     ts = dts_ms - base_video_ms m1;
                     cts = go_div ((pts u - dts) * 1000) clock
                 in case avcc (aus u) of
                      None \<Rightarrow> (PushError, m1)
                    | Some payload \<Rightarrow>
                        (Tags (flv_tag tag_video (word_of_int (clamp_ts ts))
                                 (video_body (random_access u) cts payload)), m1))))"

fun push_frames ::
  "int \<Rightarrow> int \<Rightarrow> nat \<Rightarrow> byte list list \<Rightarrow> 'x flv_muxer \<Rightarrow> byte list \<times> 'x flv_muxer" where
  "push_frames clock p i [] m = ([], m)"
| "push_frames clock p i (f # fs) m =
     (let pts_ms = go_div ((p + int (i * 1024)) * 1000) clock;
          m1 = (if has_base_a m then m else m\<lparr>base_audio_ms := pts_ms, has_base_a := True\<rparr>);
          ts = pts_ms - base_audio_ms m1;
          (rest, m2) = push_frames clock p (Suc i) fs m1
      in (flv_tag tag_audio (word_of_int (clamp_ts ts)) ([0xAF, 0x01] @ f) @ rest, m2))"

definition push_audio :: "'x flv_muxer \<Rightarrow> track \<Rightarrow> media_unit \<Rightarrow> flv_out \<times> 'x flv_muxer" where
  "push_audio m t u =
     (if \<not> wrote_aseq m then (NoTag, m)
      else if clock_rate t = 0 \<and> aus u \<noteq> [] then (DivByZero, m)
      else (let (out, m') = push_frames (clock_rate t) (pts u) 0 (aus u) m in (Tags out, m')))"

definition push_unit ::
  "('x \<Rightarrow> byte list list \<Rightarrow> int \<Rightarrow> int option \<times> 'x) \<Rightarrow> (byte list list \<Rightarrow> byte list option) \<Rightarrow>
   'x flv_muxer \<Rightarrow> media_unit \<Rightarrow> flv_out \<times> 'x flv_muxer" where
  "push_unit extractor avcc m u =
     (if unit_track u = track_id (mux_video m) then push_video extractor avcc m u
      else case mux_audio m of
             Some t \<Rightarrow> if unit_track u = track_id t then push_audio m t u else (NoTag, m)
           | None \<Rightarrow> (NoTag, m))"

section \<open>Reading tags back\<close>

text \<open>A player's reader of one tag, written from the FLV specification.\<close>

definition read_tag :: "byte list \<Rightarrow> (byte \<times> nat \<times> byte list \<times> byte list) option" where
  "read_tag bs =
     (if length bs < 15 then None
      else (let size = be_val (take 3 (drop 1 bs)); ts = be_val (bs ! 7 # take 3 (drop 4 bs)) in
            if length bs < 15 + size \<or> be_val (take 4 (drop (11 + size) bs)) \<noteq> 11 + size then None
            else Some (hd bs, ts, take size (drop 11 bs), drop (15 + size) bs)))"

lemma unat_byte_of_u32: "unat (ucast (w :: u32) :: byte) = unat w mod 256"
  by (simp add: unsigned_ucast_eq take_bit_eq_mod)

lemma unat_drop_u32: "unat (drop_bit k (w :: u32)) = unat w div 2 ^ k"
  unfolding unat_drop_bit_eq by (rule drop_bit_eq_div)

lemma split_mod24: "(n :: nat) div 65536 mod 256 * 65536 + n div 256 mod 256 * 256 + n mod 256 = n mod 16777216"
proof -
  have "n mod (256 * 65536) = 256 * (n div 256 mod 65536) + n mod 256"
    using mod_mult2_eq [of n 256 65536] by simp
  moreover have "n div 256 mod (256 * 256) = 256 * (n div 256 div 256 mod 256) + n div 256 mod 256"
    by (rule mod_mult2_eq)
  moreover have "n div 256 div 256 = n div 65536"
    using div_mult2_eq [of n 256 256] by simp
  ultimately show ?thesis by simp
qed

lemma u24_val: "be_val (u24_bytes w) = unat w mod 2 ^ 24"
  using split_mod24 [of "unat w"]
  by (simp add: u24_bytes_def unat_byte_of_u32 unat_drop_u32)

lemma u32_hi_lo: "be_val (ucast (drop_bit 24 w) # u24_bytes w) = unat (w :: u32)"
proof -
  have "unat w < 2 ^ 32" using unsigned_less [of w, where 'a = nat] by simp
  then have "unat w div 16777216 mod 256 = unat w div 16777216" by simp
  moreover have "length (u24_bytes w) = 3" by (simp add: u24_bytes_def)
  ultimately show ?thesis
    using u24_val [of w] by (simp add: unat_byte_of_u32 unat_drop_u32)
qed

lemma length_flv_tag: "length (flv_tag typ ts body) = 15 + length body"
  by (simp add: flv_tag_def u24_bytes_def u32_bytes_def)

lemma u32_bytes_eq: "u32_bytes w = ucast (drop_bit 24 w) # u24_bytes w"
  by (simp add: u32_bytes_def u24_bytes_def)

lemma unat_u32_of_nat: "n < 2 ^ 32 \<Longrightarrow> unat (word_of_nat n :: u32) = n"
  by (simp add: unat_of_nat)

lemma read_tag_aux:
  assumes "length body < 2 ^ 24"
  shows "read_tag (flv_tag typ ts body @ rest) = Some (typ, unat ts, body, rest)"
proof -
  obtain a b c where sz: "u24_bytes (word_of_nat (length body)) = [a, b, c]"
    by (simp add: u24_bytes_def)
  obtain d e f where tm: "u24_bytes ts = [d, e, f]"
    by (simp add: u24_bytes_def)
  define prev where "prev = u32_bytes (word_of_nat (11 + length body))"
  have lp: "length prev = 4" by (simp add: prev_def u32_bytes_def)
  have vp: "be_val prev = 11 + length body"
    unfolding prev_def u32_bytes_eq u32_hi_lo by (rule unat_u32_of_nat) (use assms in simp)
  have vs: "be_val [a, b, c] = length body"
    unfolding sz [symmetric] u24_val using assms by (simp add: unat_u32_of_nat)
  have vt: "be_val [ucast (drop_bit 24 ts), d, e, f] = unat ts"
    using u32_hi_lo [of ts] unfolding tm .
  define bs where "bs = flv_tag typ ts body @ rest"
  have bs: "bs = [typ, a, b, c, d, e, f, ucast (drop_bit 24 ts), 0, 0, 0] @ body @ prev @ rest"
    by (simp add: bs_def flv_tag_def sz tm prev_def)
  have parts: "take 3 (drop 1 bs) = [a, b, c]"
    "bs ! 7 # take 3 (drop 4 bs) = [ucast (drop_bit 24 ts), d, e, f]" "hd bs = typ"
    "take (length body) (drop 11 bs) = body" "length bs = 15 + length body + length rest"
    by (simp_all add: bs lp)
  define hb where "hb = [typ, a, b, c, d, e, f, ucast (drop_bit 24 ts), 0, 0, 0] @ body"
  have bs2: "bs = hb @ prev @ rest" "bs = (hb @ prev) @ rest" and lh: "length hb = 11 + length body"
    by (simp_all add: bs hb_def)
  have tl1: "take 4 (drop (11 + length body) bs) = prev"
    unfolding bs2(1) lh [symmetric] using lp by simp
  have tl2: "drop (15 + length body) bs = rest"
    unfolding bs2(2) by (rule drop_append_exact) (simp add: lh lp)
  show ?thesis
    unfolding bs_def [symmetric] read_tag_def Let_def parts vs vt tl1 vp tl2 by simp
qed

text \<open>Reading a whole stream of tags; a malformed or cut tag is \<open>None\<close>.\<close>

function read_tags :: "byte list \<Rightarrow> (byte \<times> nat \<times> byte list) list option" where
  "read_tags bs =
     (if bs = [] then Some []
      else case read_tag bs of
             None \<Rightarrow> None
           | Some (typ, ts, body, rest) \<Rightarrow>
               map_option (\<lambda>l. (typ, ts, body) # l) (read_tags rest))"
  by pat_completeness auto
termination
  by (relation "measure length") (auto simp: read_tag_def Let_def split: if_splits)

declare read_tags.simps [simp del]

lemma read_tags_Nil [simp]: "read_tags [] = Some []"
  by (simp add: read_tags.simps)

lemma read_tags_tag [simp]:
  assumes "length body < 2 ^ 24"
  shows "read_tags (flv_tag typ ts body @ rest) =
         map_option (\<lambda>l. (typ, unat ts, body) # l) (read_tags rest)"
proof -
  have "flv_tag typ ts body @ rest \<noteq> []" by (simp add: flv_tag_def)
  then show ?thesis
    by (subst read_tags.simps) (simp add: read_tag_aux [OF assms])
qed

lemma map_append_simps:
  "map_option ((@) []) o1 = o1"
  "map_option ((@) [x]) o1 = map_option ((#) x) o1"
  "map_option ((@) (xs @ ys)) o1 = map_option (\<lambda>r. xs @ ys @ r) o1"
  by (cases o1; simp)+

definition well_tagged :: "byte list \<Rightarrow> bool" where
  "well_tagged bs \<longleftrightarrow>
     (\<exists>l. (\<forall>rest. read_tags (bs @ rest) = map_option ((@) l) (read_tags rest)) \<and>
          (\<forall>(typ, ts, body) \<in> set l. typ = tag_video \<or> typ = tag_audio))"

lemma well_tagged_Nil [simp]: "well_tagged []"
  unfolding well_tagged_def by (rule exI [of _ "[]"]) (simp add: map_append_simps)

lemma well_tagged_append:
  assumes "well_tagged a" and "well_tagged b"
  shows "well_tagged (a @ b)"
proof -
  obtain la lb where
    "\<forall>rest. read_tags (a @ rest) = map_option ((@) la) (read_tags rest)"
    "\<forall>(typ, ts, body) \<in> set la. typ = tag_video \<or> typ = tag_audio"
    "\<forall>rest. read_tags (b @ rest) = map_option ((@) lb) (read_tags rest)"
    "\<forall>(typ, ts, body) \<in> set lb. typ = tag_video \<or> typ = tag_audio"
    using assms unfolding well_tagged_def by blast
  then have "(\<forall>rest. read_tags ((a @ b) @ rest) = map_option ((@) (la @ lb)) (read_tags rest)) \<and>
      (\<forall>(typ, ts, body) \<in> set (la @ lb). typ = tag_video \<or> typ = tag_audio)"
    by (auto simp: option.map_comp comp_def map_append_simps)
  then show ?thesis unfolding well_tagged_def by blast
qed

lemma well_tagged_flv_tag:
  assumes "length body < 2 ^ 24" and "typ = tag_video \<or> typ = tag_audio"
  shows "well_tagged (flv_tag typ ts body)"
proof -
  have "(\<forall>rest. read_tags (flv_tag typ ts body @ rest) =
      map_option ((@) [(typ, unat ts, body)]) (read_tags rest)) \<and>
      (\<forall>(t, ts, body) \<in> set [(typ, unat ts, body)]. t = tag_video \<or> t = tag_audio)"
    using assms by (simp add: map_append_simps)
  then show ?thesis unfolding well_tagged_def by blast
qed

section \<open>What a player sees\<close>

definition flv_run ::
  "('x \<Rightarrow> byte list list \<Rightarrow> int \<Rightarrow> int option \<times> 'x) \<Rightarrow> (byte list list \<Rightarrow> byte list option) \<Rightarrow>
   'x flv_muxer \<Rightarrow> media_unit list \<Rightarrow> byte list \<times> 'x flv_muxer" where
  "flv_run extractor avcc m us =
     foldl (\<lambda>(out, m) u. case push_unit extractor avcc m u of
               (Tags bs, m') \<Rightarrow> (out @ bs, m')
             | (_, m') \<Rightarrow> (out, m')) ([], m) us"

lemma well_tagged_push_frames:
  "\<forall>f \<in> set fs. length f < 2 ^ 24 - 2 \<Longrightarrow> well_tagged (fst (push_frames clock p i fs m))"
proof (induction clock p i fs m rule: push_frames.induct)
  case (1 clock p i m)
  then show ?case by simp
next
  case (2 clock p i f fs m)
  then have "length ([0xAF, 0x01] @ f) < 2 ^ 24" by simp
  then have tag: "well_tagged (flv_tag tag_audio ts ([0xAF, 0x01] @ f))" for ts
    by (rule well_tagged_flv_tag) simp
  have "well_tagged (fst (push_frames clock p (Suc i) fs m1))"
    if "m1 = (let pts_ms = go_div ((p + int (i * 1024)) * 1000) clock in
                if has_base_a m then m else m\<lparr>base_audio_ms := pts_ms, has_base_a := True\<rparr>)" for m1
    using 2 that unfolding Let_def by simp
  with tag show ?case
    unfolding push_frames.simps Let_def case_prod_unfold fst_conv
    by (intro well_tagged_append) simp_all
qed

lemma well_tagged_push_unit:
  assumes "\<And>bs. avcc (aus u) = Some bs \<Longrightarrow> length bs < 2 ^ 24 - 5"
    and "\<forall>f \<in> set (aus u). length f < 2 ^ 24 - 2"
    and "push_unit extractor avcc m u = (Tags out, m')"
  shows "well_tagged out"
proof -
  have v: "well_tagged (flv_tag tag_video ts (video_body key cts payload))"
    if "avcc (aus u) = Some payload" for ts key cts payload
    using assms(1) [OF that] by (intro well_tagged_flv_tag) (simp_all add: video_body_def cts_bytes_def Let_def)
  have a: "well_tagged (fst (push_frames c p i (aus u) m))" for c p i and m :: "'a flv_muxer"
    by (rule well_tagged_push_frames) (rule assms(2))
  show ?thesis
    using assms(3) v a [of _ _ 0 m]
    by (auto simp: push_unit_def push_video_def push_audio_def Let_def
        split: if_splits option.splits prod.splits) (metis fst_conv)+
qed

lemma flv_run_snoc:
  "flv_run extractor avcc m (us @ [u]) =
     (case push_unit extractor avcc (snd (flv_run extractor avcc m us)) u of
        (Tags bs, m') \<Rightarrow> (fst (flv_run extractor avcc m us) @ bs, m')
      | (_, m') \<Rightarrow> (fst (flv_run extractor avcc m us), m'))"
  unfolding flv_run_def foldl_append foldl.simps by (auto split: prod.splits flv_out.splits)

lemma well_tagged_run:
  assumes "\<forall>u \<in> set us. \<forall>bs. avcc (aus u) = Some bs \<longrightarrow> length bs < 2 ^ 24 - 5"
    and "\<forall>u \<in> set us. \<forall>f \<in> set (aus u). length f < 2 ^ 24 - 2"
  shows "well_tagged (fst (flv_run extractor avcc m us))"
  using assms
proof (induction us rule: rev_induct)
  case Nil
  then show ?case by (simp add: flv_run_def)
next
  case (snoc u us)
  obtain o1 m1 where p: "push_unit extractor avcc (snd (flv_run extractor avcc m us)) u = (o1, m1)"
    by fastforce
  have IH: "well_tagged (fst (flv_run extractor avcc m us))"
    using snoc by simp
  have "well_tagged bs" if "o1 = Tags bs" for bs
    using snoc.prems by (intro well_tagged_push_unit [OF _ _ p [unfolded that]]) simp_all
  with IH show ?case
    by (auto simp: flv_run_snoc p intro: well_tagged_append split: flv_out.splits)
qed

text \<open>
  What the muxer sends for any sequence of units is a sequence of complete tags, each audio
  or video, each with a trailing size that fits: a reader finds every tag boundary, whatever the
  extractor and marshallers answer, as long as no access unit outgrows the 24-bit size.
\<close>

theorem flv_stream_parses:
  assumes "\<forall>u \<in> set us. \<forall>bs. avcc (aus u) = Some bs \<longrightarrow> length bs < 2 ^ 24 - 5"
    and "\<forall>u \<in> set us. \<forall>f \<in> set (aus u). length f < 2 ^ 24 - 2"
  shows "\<exists>tags. read_tags (fst (flv_run extractor avcc m us)) = Some tags \<and>
                (\<forall>(typ, ts, body) \<in> set tags. typ = tag_video \<or> typ = tag_audio)"
proof -
  obtain l where l: "\<And>rest. read_tags (fst (flv_run extractor avcc m us) @ rest) =
        map_option ((@) l) (read_tags rest)"
    "\<forall>(typ, ts, body) \<in> set l. typ = tag_video \<or> typ = tag_audio"
    using well_tagged_run [OF assms] unfolding well_tagged_def by blast
  from l(1) [of "[]"] have "read_tags (fst (flv_run extractor avcc m us)) = Some l" by simp
  with l(2) show ?thesis by blast
qed

theorem flv_stream_parses_witness:
  "\<exists>tags. read_tags (fst (flv_run (\<lambda>x a p. (Some p, x)) (\<lambda>a. Some (concat a))
        \<lparr>mux_video = \<lparr>track_id = 0, kind = MediaVideo, track_codec = CodecH264, clock_rate = 90000,
           sps = [1], pps = [2], vps = [], audio_config = None\<rparr>, mux_audio = None, mux_ext = (),
         base_video_ms = 0, base_audio_ms = 0, has_base_v = False, has_base_a = False,
         wrote_vseq = True, wrote_aseq = False\<rparr>
        [\<lparr>unit_track = 0, pts = 90, ntp = 0, random_access = True, aus = [[1, 2], [3]]\<rparr>])) = Some tags \<and>
     (\<forall>(typ, ts, body) \<in> set tags. typ = tag_video \<or> typ = tag_audio)"
  by (rule flv_stream_parses) simp_all

lemma int24_bits:
  fixes w :: u64
  shows "int24 [ucast (drop_bit 16 w), ucast (drop_bit 8 w), ucast w] =
         sint (signed_take_bit 23 (ucast w :: u32))"
proof -
  define v where "v = push_bit 16 (ucast (ucast (drop_bit 16 w) :: byte)) OR
    push_bit 8 (ucast (ucast (drop_bit 8 w) :: byte)) OR (ucast (ucast w :: byte) :: u32)"
  have bits: "bit v n \<longleftrightarrow> n < 24 \<and> bit w n" for n
  proof -
    have "n < 8 \<or> 8 \<le> n \<and> n < 16 \<or> 16 \<le> n \<and> n < 24 \<or> 24 \<le> n" by linarith
    then show ?thesis by (elim disjE) (auto simp: v_def bit_simps dest: bit_imp_le_length)
  qed
  have flag: "v AND 0x800000 \<noteq> 0 \<longleftrightarrow> bit w 23"
    using and_exp_eq_0_iff_not_bit [of v 23] bits [of 23] by simp
  have m: "NOT 0xFFFFFF = NOT (mask 24 :: u32)"
    by (simp add: mask_eq_exp_minus_1)
  have "(if bit w 23 then v OR NOT (mask 24) else v) = signed_take_bit 23 (ucast w :: u32)"
  proof (rule bit_word_eqI)
    fix n assume n: "n < LENGTH(32)"
    show "bit (if bit w 23 then v OR NOT (mask 24) else v) n = bit (signed_take_bit 23 (ucast w :: u32)) n"
    proof (cases "n < 24")
      case True
      then have "n = 23 \<or> n < 23" by linarith
      with True n show ?thesis
        by (auto simp: bit_simps bits min_def)
    next
      case False
      with n show ?thesis by (auto simp: bit_simps bits min_def)
    qed
  qed
  moreover have "int24 [ucast (drop_bit 16 w), ucast (drop_bit 8 w), ucast w] =
      sint (if v AND 0x800000 \<noteq> 0 then v OR NOT (mask 24) else v)"
    unfolding int24_def Let_def m v_def by simp
  ultimately show ?thesis
    unfolding flag by (rule trans [rotated, OF arg_cong])
qed

lemma cts_readback:
  assumes "- (2 ^ 23) \<le> cts" and "cts < 2 ^ 23"
  shows "int24 (cts_bytes cts) = cts"
proof -
  have "sint (signed_take_bit 23 (ucast (word_of_int cts :: u64) :: u32)) = signed_take_bit 23 cts"
    by (rule bit_eqI) (auto simp: bit_simps min_def)
  also have "\<dots> = cts"
    using assms by (simp add: signed_take_bit_int_eq_self_iff)
  finally show ?thesis
    unfolding cts_bytes_def Let_def int24_bits .
qed

text \<open>
  The tag of a video unit carries what the player needs.  Its timestamp is the decode time in
  milliseconds relative to the first one, never negative; its body says whether the unit is a
  key frame, its signed composition offset is the presentation time minus the decode time as the
  ingest's \<open>int24\<close> reads it, and the access unit follows unchanged.
\<close>

theorem video_tag_readback:
  assumes "extractor (mux_ext m) (aus u) (pts u) = (Some dts, x)"
    and "avcc (aus u) = Some payload" and "length payload < 2 ^ 24 - 5"
    and "clock_rate (mux_video m) > 0" and "has_base_v m"
    and "go_div (dts * 1000) (clock_rate (mux_video m)) - base_video_ms m < 2 ^ 32"
    and "- (2 ^ 23) \<le> go_div ((pts u - dts) * 1000) (clock_rate (mux_video m))"
    and "go_div ((pts u - dts) * 1000) (clock_rate (mux_video m)) < 2 ^ 23"
  shows "\<exists>out body. fst (push_video extractor avcc m u) = Tags out \<and>
      read_tag out = Some (tag_video,
        nat (max 0 (go_div (dts * 1000) (clock_rate (mux_video m)) - base_video_ms m)), body, []) \<and>
      body ! 0 = (if random_access u then 0x17 else 0x27) \<and> body ! 1 = 1 \<and>
      int24 (take 3 (drop 2 body)) = go_div ((pts u - dts) * 1000) (clock_rate (mux_video m)) \<and>
      drop 5 body = payload"
proof -
  define ts where "ts = go_div (dts * 1000) (clock_rate (mux_video m)) - base_video_ms m"
  define cts where "cts = go_div ((pts u - dts) * 1000) (clock_rate (mux_video m))"
  define body where "body = video_body (random_access u) cts payload"
  have len: "length body < 2 ^ 24"
    using assms(3) by (simp add: body_def video_body_def cts_bytes_def Let_def)
  have out: "fst (push_video extractor avcc m u) =
      Tags (flv_tag tag_video (word_of_int (clamp_ts ts)) body)"
    using assms(1,2,4,5) by (simp add: push_video_def Let_def ts_def cts_def body_def)
  have "unat (word_of_int (clamp_ts ts) :: u32) = nat (max 0 ts)"
    using assms(6) by (simp add: clamp_ts_def ts_def [symmetric] max_def unat_eq_nat_uint uint_word_of_int)
  then have rd: "read_tag (flv_tag tag_video (word_of_int (clamp_ts ts)) body) =
      Some (tag_video, nat (max 0 ts), body, [])"
    using read_tag_aux [OF len, where rest = "[]"] by simp
  have "length (cts_bytes cts) = 3" by (simp add: cts_bytes_def Let_def)
  then have "body ! 0 = (if random_access u then 0x17 else 0x27)" "body ! 1 = 1"
    "take 3 (drop 2 body) = cts_bytes cts" "drop 5 body = payload"
    by (simp_all add: body_def video_body_def)
  moreover have "int24 (cts_bytes cts) = cts"
    by (rule cts_readback) (use assms(7,8) in \<open>simp_all add: cts_def\<close>)
  ultimately show ?thesis
    using out rd unfolding ts_def [symmetric] cts_def [symmetric] by auto
qed

theorem video_tag_readback_witness:
  "\<exists>out body. fst (push_video (\<lambda>x a p. (Some (p - 3600), x)) (\<lambda>a. Some (concat a))
        \<lparr>mux_video = \<lparr>track_id = 0, kind = MediaVideo, track_codec = CodecH264, clock_rate = 90000,
           sps = [1], pps = [2], vps = [], audio_config = None\<rparr>, mux_audio = None, mux_ext = (),
         base_video_ms = 10, base_audio_ms = 0, has_base_v = True, has_base_a = False,
         wrote_vseq = True, wrote_aseq = False\<rparr>
        \<lparr>unit_track = 0, pts = 9000, ntp = 0, random_access = True, aus = [[1, 2], [3]]\<rparr>) = Tags out \<and>
     read_tag out = Some (tag_video, 50, body, []) \<and>
     body ! 0 = 0x17 \<and> body ! 1 = 1 \<and> int24 (take 3 (drop 2 body)) = 40 \<and> drop 5 body = [1, 2, 3]"
  using video_tag_readback [where extractor = "\<lambda>x a p. (Some (p - 3600), x)" and dts = "5400"
      and avcc = "\<lambda>a. Some (concat a)" and payload = "[1, 2, 3]" and x = "()"
      and u = "\<lparr>unit_track = 0, pts = 9000, ntp = 0, random_access = True, aus = [[1, 2], [3]]\<rparr>"
      and m = "\<lparr>mux_video = \<lparr>track_id = 0, kind = MediaVideo, track_codec = CodecH264, clock_rate = 90000,
           sps = [1], pps = [2], vps = [], audio_config = None\<rparr>, mux_audio = None, mux_ext = (),
         base_video_ms = 10, base_audio_ms = 0, has_base_v = True, has_base_a = False,
         wrote_vseq = True, wrote_aseq = False\<rparr>"]
  by simp

end
