(* ===== verification/GoStrings.thy ===== *)
theory GoStrings
  imports Prelude
begin

text \<open>
  The functions of the Go packages \<^verbatim>\<open>strings\<close> and \<^verbatim>\<open>strconv\<close> that the program calls, on
  strings as lists of characters (bytes).  Case mapping and white space are those of ASCII:
  Go treats the bytes from 128 up as parts of UTF-8 runes, here they are left alone.  The
  slice expressions of the callers use positions these functions return.
\<close>

section \<open>Characters\<close>

abbreviation cr :: char where "cr \<equiv> CHR 0x0D"
abbreviation lf :: char where "lf \<equiv> CHR 0x0A"

definition is_space :: "char \<Rightarrow> bool" where
  "is_space c \<longleftrightarrow> c = CHR '' '' \<or> c = CHR 0x09 \<or> c = CHR 0x0A \<or> c = CHR 0x0B \<or> c = CHR 0x0C \<or> c = CHR 0x0D"

definition char_lower :: "char \<Rightarrow> char" where
  "char_lower c = (let n = of_char c :: nat in if 65 \<le> n \<and> n \<le> 90 then char_of (n + 32) else c)"

definition char_upper :: "char \<Rightarrow> char" where
  "char_upper c = (let n = of_char c :: nat in if 97 \<le> n \<and> n \<le> 122 then char_of (n - 32) else c)"

definition to_lower :: "string \<Rightarrow> string" where
  "to_lower s = map char_lower s"

definition to_upper :: "string \<Rightarrow> string" where
  "to_upper s = map char_upper s"

definition equal_fold :: "string \<Rightarrow> string \<Rightarrow> bool" where
  "equal_fold a b \<longleftrightarrow> to_lower a = to_lower b"

lemma of_char_lt_256: "of_char c < (256 :: nat)"
  by (metis of_char_mod_256 mod_less_divisor zero_less_numeral)

lemma of_char_char_of: "n < 256 \<Longrightarrow> of_char (char_of n :: char) = (n :: nat)"
  by simp

lemma char_lower_idem [simp]: "char_lower (char_lower c) = char_lower c"
  by (auto simp: char_lower_def Let_def)

lemma char_upper_idem [simp]: "char_upper (char_upper c) = char_upper c"
  by (auto simp: char_upper_def Let_def)

lemma char_lower_upper [simp]: "char_lower (char_upper c) = char_lower c"
  using of_char_lt_256 [of c] by (auto simp: char_lower_def char_upper_def Let_def)

lemma to_lower_idem [simp]: "to_lower (to_lower s) = to_lower s"
  by (simp add: to_lower_def)

lemma to_upper_idem [simp]: "to_upper (to_upper s) = to_upper s"
  by (simp add: to_upper_def)

lemma to_lower_append [simp]: "to_lower (a @ b) = to_lower a @ to_lower b"
  by (simp add: to_lower_def)

lemma length_to_lower [simp]: "length (to_lower s) = length s"
  by (simp add: to_lower_def)

lemma equal_fold_refl [simp]: "equal_fold a a"
  by (simp add: equal_fold_def)

lemma equal_fold_upper [simp]: "equal_fold (to_upper a) a"
  by (simp add: equal_fold_def to_lower_def to_upper_def)

section \<open>Searching and splitting\<close>

fun index_byte :: "string \<Rightarrow> char \<Rightarrow> nat option" where
  "index_byte [] c = None"
| "index_byte (x # xs) c = (if x = c then Some 0 else map_option Suc (index_byte xs c))"

definition has_prefix :: "string \<Rightarrow> string \<Rightarrow> bool" where
  "has_prefix s p \<longleftrightarrow> take (length p) s = p"

definition trim_prefix :: "string \<Rightarrow> string \<Rightarrow> string" where
  "trim_prefix s p = (if has_prefix s p then drop (length p) s else s)"

fun index_str :: "string \<Rightarrow> string \<Rightarrow> nat option" where
  "index_str [] p = (if p = [] then Some 0 else None)"
| "index_str (x # xs) p =
     (if has_prefix (x # xs) p then Some 0 else map_option Suc (index_str xs p))"

definition trim_left :: "(char \<Rightarrow> bool) \<Rightarrow> string \<Rightarrow> string" where
  "trim_left P s = dropWhile P s"

definition trim_right :: "(char \<Rightarrow> bool) \<Rightarrow> string \<Rightarrow> string" where
  "trim_right P s = rev (dropWhile P (rev s))"

definition trim_by :: "(char \<Rightarrow> bool) \<Rightarrow> string \<Rightarrow> string" where
  "trim_by P s = trim_right P (trim_left P s)"

abbreviation trim_space :: "string \<Rightarrow> string" where
  "trim_space \<equiv> trim_by is_space"

text \<open>\<open>strings.Split\<close> with a one-character separator: never the empty list.\<close>

fun split_on :: "char \<Rightarrow> string \<Rightarrow> string list" where
  "split_on c [] = [[]]"
| "split_on c (x # xs) =
     (if x = c then [] # split_on c xs
      else case split_on c xs of [] \<Rightarrow> [[x]] | p # ps \<Rightarrow> (x # p) # ps)"

text \<open>\<open>strings.SplitN\<close>: at most \<open>n\<close> parts, the last one is the rest.\<close>

fun split_n :: "nat \<Rightarrow> char \<Rightarrow> string \<Rightarrow> string list" where
  "split_n 0 c s = []"
| "split_n (Suc n) c s =
     (if n = 0 then [s]
      else case index_byte s c of
             None \<Rightarrow> [s]
           | Some i \<Rightarrow> take i s # split_n n c (drop (Suc i) s))"

fun join_with :: "string \<Rightarrow> string list \<Rightarrow> string" where
  "join_with sep [] = []"
| "join_with sep [x] = x"
| "join_with sep (x # y # ys) = x @ sep @ join_with sep (y # ys)"

text \<open>\<open>strings.Fields\<close>.\<close>

fun fields_acc :: "string \<Rightarrow> string \<Rightarrow> string list" where
  "fields_acc [] w = (if w = [] then [] else [rev w])"
| "fields_acc (x # xs) w =
     (if is_space x then (if w = [] then fields_acc xs [] else rev w # fields_acc xs [])
      else fields_acc xs (x # w))"

definition str_fields :: "string \<Rightarrow> string list" where
  "str_fields s = fields_acc s []"

lemma split_on_not_Nil [simp]: "split_on c s \<noteq> []"
  by (induction s) (auto split: list.splits)

lemma join_split_on: "join_with [c] (split_on c s) = s"
proof (induction s)
  case Nil
  then show ?case by simp
next
  case (Cons x xs)
  obtain p ps where e: "split_on c xs = p # ps"
    using split_on_not_Nil [of c xs] by (meson neq_Nil_conv)
  then show ?case
    using Cons by (cases ps) auto
qed

lemma split_on_free: "c \<notin> set s \<Longrightarrow> split_on c s = [s]"
  by (induction s) auto

lemma split_on_append: "c \<notin> set a \<Longrightarrow> split_on c (a @ c # b) = a # split_on c b"
  by (induction a) auto

lemma split_on_parts_free: "p \<in> set (split_on c s) \<Longrightarrow> c \<notin> set p"
proof (induction s arbitrary: p)
  case Nil
  then show ?case by simp
next
  case (Cons x xs)
  obtain q qs where e: "split_on c xs = q # qs"
    using split_on_not_Nil [of c xs] by (meson neq_Nil_conv)
  with Cons show ?case by (auto split: if_splits)
qed

lemma index_byte_free: "c \<notin> set s \<Longrightarrow> index_byte s c = None"
  by (induction s) auto

lemma index_byte_append: "c \<notin> set a \<Longrightarrow> index_byte (a @ c # b) c = Some (length a)"
  by (induction a) auto

lemma index_byte_Some:
  "index_byte s c = Some i \<Longrightarrow> i < length s \<and> s ! i = c \<and> c \<notin> set (take i s)"
  by (induction s arbitrary: i) (auto split: if_splits)

lemma has_prefix_append [simp]: "has_prefix (p @ s) p"
  by (simp add: has_prefix_def)

lemma trim_prefix_append [simp]: "trim_prefix (p @ s) p = s"
  by (simp add: trim_prefix_def)

lemma trim_left_id: "s = [] \<or> \<not> P (hd s) \<Longrightarrow> trim_left P s = s"
  by (cases s) (auto simp: trim_left_def)

lemma trim_right_id: "s = [] \<or> \<not> P (last s) \<Longrightarrow> trim_right P s = s"
  by (cases s rule: rev_cases) (auto simp: trim_right_def)

definition trimmed :: "(char \<Rightarrow> bool) \<Rightarrow> string \<Rightarrow> bool" where
  "trimmed P s \<longleftrightarrow> s = [] \<or> \<not> P (hd s) \<and> \<not> P (last s)"

lemma trim_by_id: "trimmed P s \<Longrightarrow> trim_by P s = s"
  by (auto simp: trim_by_def trimmed_def trim_left_id trim_right_id)

lemma trim_by_space: "trimmed is_space s \<Longrightarrow> trim_space (CHR '' '' # s) = s"
  using trim_by_id [of is_space s] by (simp add: trim_by_def trim_left_def is_space_def)

section \<open>Numbers\<close>

definition digit_char :: "nat \<Rightarrow> char" where
  "digit_char d = char_of (48 + d)"

definition digit_val :: "char \<Rightarrow> nat option" where
  "digit_val c = (let n = of_char c :: nat in if 48 \<le> n \<and> n \<le> 57 then Some (n - 48) else None)"

fun utoa :: "nat \<Rightarrow> string" where
  "utoa n = (if n < 10 then [digit_char n] else utoa (n div 10) @ [digit_char (n mod 10)])"

declare utoa.simps [simp del]

definition itoa :: "int \<Rightarrow> string" where
  "itoa i = (if i < 0 then ''-'' @ utoa (nat (- i)) else utoa (nat i))"

text \<open>\<open>strconv.ParseUint\<close>: the scan stops where the value leaves 64 bits.\<close>

fun digits_val :: "nat \<Rightarrow> string \<Rightarrow> nat option" where
  "digits_val acc [] = Some acc"
| "digits_val acc (c # cs) =
     (case digit_val c of
        None \<Rightarrow> None
      | Some d \<Rightarrow> if acc * 10 + d \<ge> 2 ^ 64 then Some (2 ^ 64 - 1) else digits_val (acc * 10 + d) cs)"

text \<open>
  \<open>strconv.Atoi\<close> returns a value next to its error: 0 for a malformed number, the nearest
  \<^verbatim>\<open>int64\<close> for one out of range.  The flag says that there is no error.
\<close>

definition atoi :: "string \<Rightarrow> int \<times> bool" where
  "atoi s =
     (let neg = s \<noteq> [] \<and> hd s = CHR ''-'';
          t = (if s \<noteq> [] \<and> (hd s = CHR ''-'' \<or> hd s = CHR ''+'') then tl s else s)
      in if t = [] then (0, False)
         else case digits_val 0 t of
                None \<Rightarrow> (0, False)
              | Some n \<Rightarrow>
                  (if neg then (if int n > 2 ^ 63 then (- (2 ^ 63), False) else (- int n, True))
                   else if int n \<ge> 2 ^ 63 then (2 ^ 63 - 1, False) else (int n, True)))"

lemma digit_val_char [simp]: "d < 10 \<Longrightarrow> digit_val (digit_char d) = Some d"
  by (simp add: digit_val_def digit_char_def Let_def of_char_char_of)

lemma utoa_not_Nil [simp]: "utoa n \<noteq> []"
  by (subst utoa.simps) simp

lemma digits_val_append:
  "digits_val acc xs = Some a \<Longrightarrow> a < 2 ^ 64 - 1 \<Longrightarrow> digits_val acc (xs @ ys) = digits_val a ys"
  by (induction acc xs rule: digits_val.induct) (auto split: option.splits if_splits)

lemma digits_val_utoa: "n < 2 ^ 64 \<Longrightarrow> digits_val 0 (utoa n) = Some n"
proof (induction n rule: utoa.induct)
  case (1 n)
  show ?case
  proof (cases "n < 10")
    case True
    then show ?thesis by (simp add: utoa.simps [of n])
  next
    case False
    then have "digits_val 0 (utoa (n div 10)) = Some (n div 10)"
      using 1 by simp
    from digits_val_append [OF this, of "[digit_char (n mod 10)]"] 1(2) False show ?thesis
      by (simp add: utoa.simps [of n])
  qed
qed

lemma utoa_digits: "c \<in> set (utoa n) \<Longrightarrow> \<exists>d < 10. c = digit_char d"
proof (induction n rule: utoa.induct)
  case (1 n)
  show ?case
  proof (cases "n < 10")
    case True
    with 1(2) show ?thesis by (auto simp: utoa.simps [of n])
  next
    case False
    then have "c \<in> set (utoa (n div 10)) \<or> c = digit_char (n mod 10)"
      using 1(2) by (subst (asm) utoa.simps) auto
    with 1(1) False show ?thesis
      by (metis mod_less_divisor zero_less_numeral)
  qed
qed

lemma digit_char_neq:
  assumes "d < 10" and "of_char x < (48 :: nat) \<or> of_char x > (57 :: nat)"
  shows "digit_char d \<noteq> x"
proof
  assume e: "digit_char d = x"
  have "of_char (digit_char d) = 48 + d"
    unfolding digit_char_def by (rule of_char_char_of) (use assms(1) in simp)
  with assms e show False by simp
qed

lemma digit_char_plain:
  assumes "d < 10"
  shows "\<not> is_space (digit_char d)" "digit_char d \<notin> {CHR ''-'', CHR ''+'', CHR '':'', CHR '';'', CHR '' ''}"
  using digit_char_neq [OF assms] by (simp_all add: is_space_def)

lemma utoa_plain:
  assumes "c \<in> set (utoa n)"
  shows "\<not> is_space c" "c \<notin> {CHR ''-'', CHR ''+'', CHR '':'', CHR '';'', CHR '' ''}"
proof -
  obtain d where d: "d < 10" "c = digit_char d" using utoa_digits [OF assms] by blast
  show "\<not> is_space c" "c \<notin> {CHR ''-'', CHR ''+'', CHR '':'', CHR '';'', CHR '' ''}"
    unfolding d(2) by (rule digit_char_plain [OF d(1)])+
qed

lemma atoi_itoa:
  assumes "- (2 ^ 63) \<le> i" and "i < 2 ^ 63"
  shows "atoi (itoa i) = (i, True)"
proof (cases "i < 0")
  case True
  with assms show ?thesis
    by (simp add: atoi_def itoa_def Let_def digits_val_utoa)
next
  case False
  have "hd (utoa (nat i)) \<in> set (utoa (nat i))" by simp
  then obtain d where "d < 10" "hd (utoa (nat i)) = digit_char d"
    using utoa_digits by blast
  then have "hd (utoa (nat i)) \<noteq> CHR ''-''" "hd (utoa (nat i)) \<noteq> CHR ''+''"
    using digit_char_plain(2) [of d] by auto
  with False assms show ?thesis
    by (simp add: atoi_def itoa_def Let_def digits_val_utoa)
qed

text \<open>The order of strings is that of their bytes.\<close>

fun str_less :: "string \<Rightarrow> string \<Rightarrow> bool" where
  "str_less [] ys = (ys \<noteq> [])"
| "str_less (x # xs) [] = False"
| "str_less (x # xs) (y # ys) =
     (let a = (of_char x :: nat); b = of_char y in a < b \<or> (a = b \<and> str_less xs ys))"

end
