(* ===== verification/Gb_Sip.thy ===== *)
theory Gb_Sip
  imports GoStrings
begin

text \<open>
  SIP messages of the GB28181 platform (\<^verbatim>\<open>internal/gb28181/sip.go\<close>): parsing a datagram,
  access to headers, encoding, and the helpers that take header values apart.  Datagrams and
  bodies are strings of bytes; an absent body is the empty one.
\<close>

section \<open>Messages\<close>

record message =
  is_response :: bool
  sip_method :: string
  request_uri :: string
  status :: int
  reason :: string
  headers :: "(string \<times> string) list"
  msg_body :: string

definition empty_message :: message where
  "empty_message = \<lparr>is_response = False, sip_method = [], request_uri = [], status = 0,
     reason = [], headers = [], msg_body = []\<rparr>"

datatype sip_error = BadLength nat | EmptyMessage | BadStatus string | BadRequestLine string

definition max_udp_payload :: nat where "max_udp_payload = 65535"

definition compact_headers :: "(string \<times> string) list" where
  "compact_headers = [(''v'', ''Via''), (''f'', ''From''), (''t'', ''To''), (''i'', ''Call-ID''),
     (''m'', ''Contact''), (''l'', ''Content-Length''), (''c'', ''Content-Type''),
     (''s'', ''Subject''), (''k'', ''Supported''), (''o'', ''Allow-Events''),
     (''e'', ''Content-Encoding'')]"

definition canon_header_names :: "(string \<times> string) list" where
  "canon_header_names = [(''via'', ''Via''), (''from'', ''From''), (''to'', ''To''),
     (''call-id'', ''Call-ID''), (''cseq'', ''CSeq''), (''contact'', ''Contact''),
     (''content-length'', ''Content-Length''), (''content-type'', ''Content-Type''),
     (''max-forwards'', ''Max-Forwards''), (''expires'', ''Expires''),
     (''user-agent'', ''User-Agent''), (''www-authenticate'', ''WWW-Authenticate''),
     (''authorization'', ''Authorization''), (''date'', ''Date''), (''subject'', ''Subject'')]"

definition canon_name :: "string \<Rightarrow> string" where
  "canon_name name =
     (let lower = to_lower (trim_space name) in
      case map_of compact_headers lower of
        Some long \<Rightarrow> long
      | None \<Rightarrow>
          (case map_of canon_header_names lower of
             Some c \<Rightarrow> c
           | None \<Rightarrow> join_with ''-''
               (map (\<lambda>p. if p \<noteq> [] then to_upper (take 1 p) @ drop 1 p else p)
                 (split_on (CHR ''-'') lower))))"

section \<open>Parsing\<close>

fun crlf_to_lf :: "string \<Rightarrow> string" where
  "crlf_to_lf (a # b # s) =
     (if a = cr \<and> b = lf then lf # crlf_to_lf s else a # crlf_to_lf (b # s))"
| "crlf_to_lf s = s"

text \<open>The loop of \<^verbatim>\<open>splitLines\<close>; the lines collected so far come last first.\<close>

fun unfold_lines :: "string list \<Rightarrow> string list \<Rightarrow> string list" where
  "unfold_lines [] out = rev out"
| "unfold_lines (ln # lns) out =
     (if ln = [] then unfold_lines lns (ln # out)
      else if (hd ln = CHR '' '' \<or> hd ln = CHR 0x09) \<and> out \<noteq> []
      then unfold_lines lns ((hd out @ '' '' @ trim_space ln) # tl out)
      else unfold_lines lns (ln # out))"

definition split_lines :: "string \<Rightarrow> string list" where
  "split_lines s = unfold_lines (split_on lf (crlf_to_lf s)) []"

definition parse_start_line :: "string \<Rightarrow> message \<Rightarrow> sip_error + message" where
  "parse_start_line line m =
     (if has_prefix line ''SIP/2.0'' then
        (let rest = trim_space (trim_prefix line ''SIP/2.0'');
             (code, reas) = (case index_byte rest (CHR '' '') of
                               Some sp \<Rightarrow> (take sp rest, trim_space (drop (sp + 1) rest))
                             | None \<Rightarrow> (rest, reason m));
             (n, ok) = atoi code
         in if \<not> ok then Inl (BadStatus code)
            else Inr (m\<lparr>is_response := True, reason := reas, status := n\<rparr>))
      else (case split_n 3 (CHR '' '') line of
              [a, b, c] \<Rightarrow>
                if has_prefix c ''SIP/2.0''
                then Inr (m\<lparr>sip_method := to_upper a, request_uri := b\<rparr>)
                else Inl (BadRequestLine line)
            | _ \<Rightarrow> Inl (BadRequestLine line)))"

fun parse_headers :: "string list \<Rightarrow> (string \<times> string) list" where
  "parse_headers [] = []"
| "parse_headers (ln # lns) =
     (if ln = [] then parse_headers lns
      else case index_byte ln (CHR '':'') of
             None \<Rightarrow> parse_headers lns
           | Some colon \<Rightarrow>
               (canon_name (take colon ln), trim_space (drop (colon + 1) ln)) # parse_headers lns)"

text \<open>Where the header block ends and how many separator bytes follow it.\<close>

definition head_end :: "string \<Rightarrow> nat \<times> nat" where
  "head_end text =
     (case index_str text [cr, lf, cr, lf] of
        Some i \<Rightarrow> (i, 4)
      | None \<Rightarrow> (case index_str text [lf, lf] of
                   Some i \<Rightarrow> (i, 2)
                 | None \<Rightarrow> (length text, 0)))"

definition parse_message :: "string \<Rightarrow> sip_error + message" where
  "parse_message data =
     (if length data = 0 \<or> length data > max_udp_payload then Inl (BadLength (length data))
      else (let (i, sep) = head_end data; head = take i data;
                body = (if sep > 0 \<and> i + sep \<le> length data then drop (i + sep) data else []);
                lines = split_lines head
            in case lines of
                 [] \<Rightarrow> Inl EmptyMessage
               | l # ls \<Rightarrow>
                   ebind (parse_start_line l (empty_message\<lparr>msg_body := body\<rparr>))
                     (\<lambda>m. Inr (m\<lparr>headers := headers m @ parse_headers ls\<rparr>))))"

section \<open>Headers\<close>

fun first_value :: "string \<Rightarrow> (string \<times> string) list \<Rightarrow> string" where
  "first_value c [] = []"
| "first_value c (h # hs) = (if fst h = c then snd h else first_value c hs)"

definition get_header :: "message \<Rightarrow> string \<Rightarrow> string" where
  "get_header m name = first_value (canon_name name) (headers m)"

definition get_all :: "message \<Rightarrow> string \<Rightarrow> string list" where
  "get_all m name = map snd (filter (\<lambda>h. fst h = canon_name name) (headers m))"

definition set_header :: "message \<Rightarrow> string \<Rightarrow> string \<Rightarrow> message" where
  "set_header m name value =
     (let c = canon_name name
      in m\<lparr>headers := filter (\<lambda>h. fst h \<noteq> c) (headers m) @ [(c, value)]\<rparr>)"

definition add_header :: "message \<Rightarrow> string \<Rightarrow> string \<Rightarrow> message" where
  "add_header m name value = m\<lparr>headers := headers m @ [(canon_name name, value)]\<rparr>"

definition cseq_method :: "message \<Rightarrow> string" where
  "cseq_method m =
     (let f = str_fields (get_header m ''CSeq'') in if length f \<ge> 2 then to_upper (f ! 1) else [])"

definition cseq_num :: "message \<Rightarrow> int" where
  "cseq_num m =
     (let f = str_fields (get_header m ''CSeq'') in if length f \<ge> 1 then fst (atoi (f ! 0)) else 0)"

definition call_id :: "message \<Rightarrow> string" where
  "call_id m = get_header m ''Call-ID''"

section \<open>Encoding\<close>

definition reason_text :: "int \<Rightarrow> string" where
  "reason_text code =
     (if code = 100 then ''Trying'' else if code = 180 then ''Ringing''
      else if code = 200 then ''OK'' else if code = 400 then ''Bad Request''
      else if code = 401 then ''Unauthorized'' else if code = 403 then ''Forbidden''
      else if code = 404 then ''Not Found'' else if code = 405 then ''Method Not Allowed''
      else if code = 408 then ''Request Timeout''
      else if code = 481 then ''Call/Transaction Does Not Exist''
      else if code = 500 then ''Server Internal Error'' else ''OK'')"

definition crlf :: string where "crlf = [cr, lf]"

definition start_line :: "message \<Rightarrow> string" where
  "start_line m =
     (if is_response m
      then ''SIP/2.0 '' @ itoa (status m) @ '' '' @
           (if reason m = [] then reason_text (status m) else reason m)
      else sip_method m @ '' '' @ request_uri m @ '' SIP/2.0'')"

definition header_line :: "nat \<Rightarrow> string \<times> string \<Rightarrow> string" where
  "header_line n h =
     (if fst h = ''Content-Length'' then ''Content-Length: '' @ utoa n else fst h @ '': '' @ snd h)"

definition encode :: "message \<Rightarrow> string" where
  "encode m =
     start_line m @ crlf @
     concat (map (\<lambda>h. header_line (length (msg_body m)) h @ crlf) (headers m)) @
     (if \<exists>h \<in> set (headers m). fst h = ''Content-Length'' then []
      else ''Content-Length: '' @ utoa (length (msg_body m)) @ crlf) @
     crlf @ msg_body m"

section \<open>Parts of header values\<close>

fun find_param :: "string list \<Rightarrow> string \<Rightarrow> string" where
  "find_param [] name = []"
| "find_param (p # ps) name =
     (let part = trim_space p in
      case index_byte part (CHR ''='') of
        None \<Rightarrow> find_param ps name
      | Some eq \<Rightarrow>
          if equal_fold (trim_space (take eq part)) name
          then trim_by (\<lambda>c. c = CHR 0x22) (trim_space (drop (eq + 1) part))
          else find_param ps name)"

definition header_param :: "string \<Rightarrow> string \<Rightarrow> string" where
  "header_param value name = find_param (split_on (CHR '';'') value) name"

definition uri_of :: "string \<Rightarrow> string" where
  "uri_of value =
     (let s = (case index_byte value (CHR ''<'') of
                 None \<Rightarrow> value
               | Some lt \<Rightarrow>
                   (case index_byte (drop lt value) (CHR ''>'') of
                      None \<Rightarrow> value
                    | Some gt \<Rightarrow> take (gt - 1) (drop (lt + 1) value)))
      in trim_prefix (trim_prefix s ''sip:'') ''sips:'')"

definition uri_user :: "string \<Rightarrow> string" where
  "uri_user value =
     (let s = uri_of value in
      case index_byte s (CHR ''@'') of
        Some i \<Rightarrow> take i s
      | None \<Rightarrow> (case index_byte s (CHR '';'') of Some semi \<Rightarrow> take semi s | None \<Rightarrow> s))"

definition uri_host_port :: "string \<Rightarrow> string" where
  "uri_host_port value =
     (let s = uri_of value;
          t = (case index_byte s (CHR ''@'') of Some i \<Rightarrow> drop (i + 1) s | None \<Rightarrow> s)
      in case index_byte t (CHR '';'') of Some semi \<Rightarrow> take semi t | None \<Rightarrow> t)"

section \<open>What is sent is what is parsed\<close>

lemma index_str_skip:
  "c \<notin> set l \<Longrightarrow> index_str (l @ s) (c # p) = map_option ((+) (length l)) (index_str s (c # p))"
proof (induction l)
  case Nil
  then show ?case by (cases "index_str s (c # p)") simp_all
next
  case (Cons x l)
  then have "\<not> has_prefix (x # l @ s) (c # p)" by (auto simp: has_prefix_def)
  with Cons show ?case
    by (cases "index_str s (c # p)") simp_all
qed

definition plain_line :: "string \<Rightarrow> bool" where
  "plain_line l \<longleftrightarrow> l \<noteq> [] \<and> cr \<notin> set l \<and> lf \<notin> set l \<and> \<not> is_space (hd l)"

lemma crlf_len: "length crlf = 2"
  by (simp add: crlf_def)

lemma index_blank_line:
  assumes "\<forall>l \<in> set (l # ls). plain_line l"
  shows "index_str (l @ concat (map ((@) crlf) ls) @ crlf @ crlf @ body) [cr, lf, cr, lf] =
         Some (length (l @ concat (map ((@) crlf) ls)))"
  using assms
proof (induction ls arbitrary: l)
  case Nil
  then have "cr \<notin> set l" by (simp add: plain_line_def)
  then show ?case
    by (simp add: index_str_skip crlf_def has_prefix_def)
next
  case (Cons k ks)
  have l: "cr \<notin> set l" using Cons.prems by (simp add: plain_line_def)
  obtain x r where k: "k = x # r" "x \<noteq> cr"
    using Cons.prems by (cases k) (auto simp: plain_line_def)
  have IH: "index_str (k @ concat (map ((@) crlf) ks) @ crlf @ crlf @ body) [cr, lf, cr, lf] =
      Some (length (k @ concat (map ((@) crlf) ks)))"
    by (rule Cons.IH) (use Cons.prems in simp)
  have "index_str (crlf @ k @ w) [cr, lf, cr, lf] =
      map_option (\<lambda>n. n + 2) (index_str (k @ w) [cr, lf, cr, lf])" for w
    using k(2) unfolding k(1) crlf_def by (cases "index_str (r @ w) [cr, lf, cr, lf]") (simp_all add: has_prefix_def)
  with IH show ?case
    using index_str_skip [OF l, of "crlf @ k @ concat (map ((@) crlf) ks) @ crlf @ crlf @ body"]
    by (simp add: crlf_len)
qed

lemma crlf_to_lf_plain: "cr \<notin> set l \<Longrightarrow> crlf_to_lf (l @ s) = l @ crlf_to_lf s"
proof (induction l)
  case Nil
  then show ?case by simp
next
  case (Cons x l)
  then show ?case by (cases "l @ s") auto
qed

lemma split_plain_lines:
  assumes "\<forall>l \<in> set (l # ls). plain_line l"
  shows "split_on lf (crlf_to_lf (l @ concat (map ((@) crlf) ls))) = l # ls"
  using assms
proof (induction ls arbitrary: l)
  case Nil
  then show ?case
    using crlf_to_lf_plain [of l "[]"] by (simp add: plain_line_def split_on_free)
next
  case (Cons k ks)
  then have "split_on lf (crlf_to_lf (k @ concat (map ((@) crlf) ks))) = k # ks" by simp
  moreover have "crlf_to_lf (crlf @ w) = lf # crlf_to_lf w" for w
    by (simp add: crlf_def)
  ultimately show ?case
    using Cons.prems by (simp add: plain_line_def crlf_to_lf_plain split_on_append)
qed

lemma unfold_plain_lines:
  "\<forall>l \<in> set ls. plain_line l \<Longrightarrow> unfold_lines ls out = rev out @ ls"
proof (induction ls arbitrary: out)
  case Nil
  then show ?case by simp
next
  case (Cons l ls)
  then have "l \<noteq> []" "hd l \<noteq> CHR '' ''" "hd l \<noteq> CHR 0x09"
    by (auto simp: plain_line_def is_space_def)
  with Cons show ?case by simp
qed

lemma split_lines_plain:
  "\<forall>l \<in> set (l # ls). plain_line l \<Longrightarrow> split_lines (l @ concat (map ((@) crlf) ls)) = l # ls"
  by (simp add: split_lines_def split_plain_lines unfold_plain_lines)

text \<open>The messages the platform writes: nothing in them breaks a line or a field apart.\<close>

definition plain_text :: "string \<Rightarrow> bool" where
  "plain_text v \<longleftrightarrow> cr \<notin> set v \<and> lf \<notin> set v \<and> trimmed is_space v"

definition plain_header :: "string \<times> string \<Rightarrow> bool" where
  "plain_header h \<longleftrightarrow>
     canon_name (fst h) = fst h \<and> fst h \<noteq> [] \<and> CHR '':'' \<notin> set (fst h) \<and>
     plain_text (fst h) \<and> plain_text (snd h)"

definition plain_start :: "message \<Rightarrow> bool" where
  "plain_start m \<longleftrightarrow>
     (if is_response m
      then sip_method m = [] \<and> request_uri m = [] \<and> plain_text (reason m) \<and>
           - (2 ^ 63) \<le> status m \<and> status m < 2 ^ 63
      else status m = 0 \<and> reason m = [] \<and> sip_method m \<noteq> [] \<and> \<not> is_space (hd (sip_method m)) \<and>
           to_upper (sip_method m) = sip_method m \<and>
           (\<forall>c \<in> {cr, lf, CHR '' '', CHR ''/''}. c \<notin> set (sip_method m)) \<and>
           (\<forall>c \<in> {cr, lf, CHR '' ''}. c \<notin> set (request_uri m)))"

definition plain_message :: "message \<Rightarrow> bool" where
  "plain_message m \<longleftrightarrow> plain_start m \<and> (\<forall>h \<in> set (headers m). plain_header h) \<and>
     length (encode m) \<le> max_udp_payload"

text \<open>The message a peer reads: the body's length and a default reason are filled in.\<close>

definition filled :: "message \<Rightarrow> message" where
  "filled m = m\<lparr>
     reason := (if is_response m \<and> reason m = [] then reason_text (status m) else reason m),
     headers := map (\<lambda>h. if fst h = ''Content-Length''
                         then (''Content-Length'', utoa (length (msg_body m))) else h) (headers m) @
       (if \<exists>h \<in> set (headers m). fst h = ''Content-Length'' then []
        else [(''Content-Length'', utoa (length (msg_body m)))])\<rparr>"

lemma plain_text_utoa: "plain_text (utoa n)"
proof -
  have ns: "\<not> is_space c" if "c \<in> set (utoa n)" for c
    using utoa_plain(1) [OF that] .
  have "is_space cr" "is_space lf" by (simp_all add: is_space_def)
  then have "cr \<notin> set (utoa n)" "lf \<notin> set (utoa n)" using ns by blast+
  moreover have "\<not> is_space (hd (utoa n))" "\<not> is_space (last (utoa n))"
    by (rule ns, simp)+
  ultimately show ?thesis by (simp add: plain_text_def trimmed_def)
qed

lemma canon_known:
  "canon_name ''Content-Length'' = ''Content-Length''" "canon_name ''Via'' = ''Via''"
  "canon_name ''From'' = ''From''" "canon_name ''To'' = ''To''"
  "canon_name ''Call-ID'' = ''Call-ID''" "canon_name ''CSeq'' = ''CSeq''"
  "canon_name ''User-Agent'' = ''User-Agent''" "canon_name ''Content-Type'' = ''Content-Type''"
  "canon_name ''Expires'' = ''Expires''" "canon_name ''Date'' = ''Date''"
  "canon_name ''WWW-Authenticate'' = ''WWW-Authenticate''"
  "canon_name ''Authorization'' = ''Authorization''" "canon_name ''Contact'' = ''Contact''"
  "canon_name ''Max-Forwards'' = ''Max-Forwards''" "canon_name ''Subject'' = ''Subject''"
  by code_simp+

lemma plain_content_length: "plain_header (''Content-Length'', utoa n)"
  unfolding plain_header_def fst_conv snd_conv canon_known
  by (simp add: plain_text_utoa) (simp add: plain_text_def trimmed_def is_space_def)

definition wire_line :: "string \<times> string \<Rightarrow> string" where
  "wire_line h = fst h @ '': '' @ snd h"

lemma encode_filled:
  "encode m = start_line m @ concat (map ((@) crlf) (map wire_line (headers (filled m)))) @
     crlf @ crlf @ msg_body m"
proof -
  have sh: "crlf @ concat (map (\<lambda>h. f h @ crlf) hs) = concat (map ((@) crlf) (map f hs)) @ crlf"
    for f :: "string \<times> string \<Rightarrow> string" and hs
    by (induction hs) auto
  have wl: "header_line (length (msg_body m)) h = wire_line
      (if fst h = ''Content-Length'' then (''Content-Length'', utoa (length (msg_body m))) else h)" for h
    by (auto simp: header_line_def wire_line_def)
  show ?thesis
    using sh [of "header_line (length (msg_body m))" "headers m"]
    by (auto simp: encode_def filled_def wl wire_line_def comp_def)
qed

lemma plain_filled:
  "\<forall>h \<in> set (headers m). plain_header h \<Longrightarrow> \<forall>h \<in> set (headers (filled m)). plain_header h"
  by (auto simp: filled_def plain_content_length)

lemma plain_wire_line: "plain_header h \<Longrightarrow> plain_line (wire_line h)"
  by (cases "fst h") (auto simp: plain_header_def plain_line_def wire_line_def plain_text_def trimmed_def)

lemma parse_plain_headers:
  "\<forall>h \<in> set hs. plain_header h \<Longrightarrow> parse_headers (map wire_line hs) = hs"
proof (induction hs)
  case Nil
  then show ?case by simp
next
  case (Cons h hs)
  then have h: "canon_name (fst h) = fst h" "CHR '':'' \<notin> set (fst h)" "trimmed is_space (snd h)"
    by (auto simp: plain_header_def plain_text_def)
  have w: "wire_line h = fst h @ CHR '':'' # CHR '' '' # snd h" by (simp add: wire_line_def)
  have i: "index_byte (wire_line h) (CHR '':'') = Some (length (fst h))"
    unfolding w by (rule index_byte_append [OF h(2)])
  have t: "take (length (fst h)) (wire_line h) = fst h"
    "drop (length (fst h) + 1) (wire_line h) = CHR '' '' # snd h" by (simp_all add: w)
  have ne: "wire_line h \<noteq> []" by (simp add: w)
  show ?case
    using Cons ne by (simp add: i t [simplified] h(1) trim_by_space [OF h(3)])
qed

lemma atoi_itoa_status: "- (2 ^ 63) \<le> i \<Longrightarrow> i < 2 ^ 63 \<Longrightarrow> atoi (itoa i) = (i, True)"
  by (rule atoi_itoa)

lemma itoa_plain:
  assumes "c \<in> set (itoa i)"
  shows "\<not> is_space c"
proof -
  have "c = CHR ''-'' \<or> c \<in> set (utoa (nat (- i))) \<or> c \<in> set (utoa (nat i))"
    using assms by (auto simp: itoa_def split: if_splits)
  then show ?thesis
    using utoa_plain(1) by (auto simp: is_space_def)
qed

lemma reason_text_plain: "plain_text (reason_text c)" "reason_text c \<noteq> []"
  by (auto simp: reason_text_def plain_text_def trimmed_def is_space_def)

lemma itoa_not_Nil [simp]: "itoa i \<noteq> []"
  by (simp add: itoa_def)

lemma space_nl: "is_space cr" "is_space lf" "is_space (CHR '' '')"
  by (simp_all add: is_space_def)

lemma parse_status_line:
  assumes "plain_text r" and "r \<noteq> []" and "- (2 ^ 63) \<le> st" and "st < 2 ^ 63"
  shows "parse_start_line (''SIP/2.0 '' @ itoa st @ '' '' @ r) m =
         Inr (m\<lparr>is_response := True, reason := r, status := st\<rparr>)"
proof -
  define line where "line = ''SIP/2.0 '' @ itoa st @ '' '' @ r"
  define rest where "rest = itoa st @ CHR '' '' # r"
  have line: "line = ''SIP/2.0'' @ CHR '' '' # rest" by (simp add: line_def rest_def)
  have sp: "CHR '' '' \<notin> set (itoa st)" using itoa_plain space_nl by blast
  have "\<not> is_space (hd (itoa st))" by (rule itoa_plain [of _ st]) simp
  then have "trimmed is_space rest"
    using assms(1,2) by (simp add: trimmed_def rest_def plain_text_def)
  then have r: "trim_space (trim_prefix line ''SIP/2.0'') = rest"
    unfolding line trim_prefix_append by (rule trim_by_space)
  have i: "index_byte rest (CHR '' '') = Some (length (itoa st))"
    unfolding rest_def by (rule index_byte_append [OF sp])
  have tk: "take (length (itoa st)) rest = itoa st" "drop (length (itoa st) + 1) rest = r"
    by (simp_all add: rest_def)
  have tr: "trim_space r = r"
    using assms(1) by (simp add: plain_text_def trim_by_id)
  have hp: "has_prefix line ''SIP/2.0''" unfolding line by (rule has_prefix_append)
  show ?thesis
    unfolding line_def [symmetric] parse_start_line_def r Let_def
    using hp by (simp add: i tk tr atoi_itoa [OF assms(3,4)] del: One_nat_def)
qed

lemma no_sip_prefix:
  assumes "CHR ''/'' \<notin> set meth"
  shows "\<not> has_prefix (meth @ CHR '' '' # r) ''SIP/2.0''"
proof
  assume "has_prefix (meth @ CHR '' '' # r) ''SIP/2.0''"
  then obtain t where e: "meth @ CHR '' '' # r = ''SIP'' @ CHR ''/'' # ''2.0'' @ t"
    unfolding has_prefix_def by (metis append_Cons append_Nil append_take_drop_id)
  then have "index_byte (meth @ CHR '' '' # r) (CHR '' '') = index_byte (''SIP/2.0'' @ t) (CHR '' '')"
    by simp
  show False
  proof (cases "length meth \<le> 3")
    case True
    have "(meth @ CHR '' '' # r) ! length meth = CHR '' ''" by simp
    moreover have "length meth = 0 \<or> length meth = 1 \<or> length meth = 2 \<or> length meth = 3"
      using True by linarith
    ultimately show False unfolding e by auto
  next
    case False
    then have "meth ! 3 = (meth @ CHR '' '' # r) ! 3" by (simp add: nth_append)
    also have "\<dots> = CHR ''/''" unfolding e by simp
    finally show False using assms False by (metis not_le nth_mem)
  qed
qed

lemma parse_request_line:
  assumes "\<forall>c \<in> {CHR '' '', CHR ''/''}. c \<notin> set meth" and "CHR '' '' \<notin> set uri"
    and "to_upper meth = meth"
  shows "parse_start_line (meth @ '' '' @ uri @ '' SIP/2.0'') m =
         Inr (m\<lparr>sip_method := meth, request_uri := uri\<rparr>)"
proof -
  define u where "u = uri @ CHR '' '' # ''SIP/2.0''"
  define line where "line = meth @ CHR '' '' # u"
  have e: "meth @ '' '' @ uri @ '' SIP/2.0'' = line" by (simp add: line_def u_def)
  have m1: "CHR '' '' \<notin> set meth" "CHR ''/'' \<notin> set meth" using assms(1) by auto
  have i: "index_byte line (CHR '' '') = Some (length meth)" "index_byte u (CHR '' '') = Some (length uri)"
    unfolding line_def u_def by (rule index_byte_append [OF m1(1)], rule index_byte_append [OF assms(2)])
  have t: "take (length meth) line = meth" "drop (Suc (length meth)) line = u"
    "take (length uri) u = uri" "drop (Suc (length uri)) u = ''SIP/2.0''"
    by (simp_all add: line_def u_def)
  have sp: "split_n 3 (CHR '' '') line = [meth, uri, ''SIP/2.0'']"
    by (simp add: numeral_3_eq_3 i t)
  have np: "\<not> has_prefix line ''SIP/2.0''"
    unfolding line_def by (rule no_sip_prefix [OF m1(2)])
  have hp: "has_prefix ''SIP/2.0'' ''SIP/2.0''" by (simp add: has_prefix_def)
  show ?thesis
    unfolding e parse_start_line_def using np hp by (simp add: sp assms(3))
qed

lemma parse_start:
  assumes "plain_start m"
  shows "parse_start_line (start_line m) (empty_message\<lparr>msg_body := b\<rparr>) =
         Inr (m\<lparr>reason := reason (filled m), headers := [], msg_body := b\<rparr>)"
proof (cases "is_response m")
  case True
  define r where "r = (if reason m = [] then reason_text (status m) else reason m)"
  have "plain_text r" "r \<noteq> []"
    using assms True reason_text_plain by (auto simp: plain_start_def r_def)
  moreover have "- (2 ^ 63) \<le> status m" "status m < 2 ^ 63"
    using assms True by (simp_all add: plain_start_def)
  ultimately have "parse_start_line (''SIP/2.0 '' @ itoa (status m) @ '' '' @ r) (empty_message\<lparr>msg_body := b\<rparr>) =
      Inr (empty_message\<lparr>msg_body := b, is_response := True, reason := r, status := status m\<rparr>)"
    by (rule parse_status_line)
  moreover have "start_line m = ''SIP/2.0 '' @ itoa (status m) @ '' '' @ r"
    using True by (simp add: start_line_def r_def)
  ultimately show ?thesis
    using assms True by (auto simp: plain_start_def filled_def r_def empty_message_def)
next
  case False
  then have "parse_start_line (sip_method m @ '' '' @ request_uri m @ '' SIP/2.0'')
       (empty_message\<lparr>msg_body := b\<rparr>) =
      Inr (empty_message\<lparr>msg_body := b, sip_method := sip_method m, request_uri := request_uri m\<rparr>)"
    using assms by (intro parse_request_line) (simp_all add: plain_start_def)
  with False assms show ?thesis
    by (simp add: start_line_def plain_start_def filled_def empty_message_def)
qed

lemma plain_start_line:
  assumes "plain_start m"
  shows "plain_line (start_line m)"
proof (cases "is_response m")
  case True
  define r where "r = (if reason m = [] then reason_text (status m) else reason m)"
  have "cr \<notin> set r" "lf \<notin> set r"
    using assms True reason_text_plain(1) [of "status m"]
    by (auto simp: plain_start_def r_def plain_text_def)
  moreover have "cr \<notin> set (itoa (status m))" "lf \<notin> set (itoa (status m))"
    using itoa_plain space_nl by blast+
  moreover have "start_line m = ''SIP/2.0 '' @ itoa (status m) @ '' '' @ r"
    using True by (simp add: start_line_def r_def)
  ultimately show ?thesis by (simp add: plain_line_def is_space_def)
next
  case False
  with assms show ?thesis
    by (auto simp: plain_start_def plain_line_def start_line_def hd_append)
qed

lemma parse_encode_aux:
  assumes "plain_message m"
  shows "parse_message (encode m) = Inr (filled m)"
proof -
  define ls where "ls = map wire_line (headers (filled m))"
  define hd_text where "hd_text = start_line m @ concat (map ((@) crlf) ls)"
  have st: "plain_start m" and hs: "\<forall>h \<in> set (headers (filled m)). plain_header h"
    using assms plain_filled by (auto simp: plain_message_def)
  have pl: "\<forall>l \<in> set (start_line m # ls). plain_line l"
    using plain_start_line [OF st] hs plain_wire_line by (auto simp: ls_def)
  have enc: "encode m = hd_text @ crlf @ crlf @ msg_body m"
    unfolding encode_filled hd_text_def ls_def by simp
  have len: "length (encode m) \<noteq> 0" "\<not> length (encode m) > max_udp_payload"
    using assms by (simp_all add: plain_message_def enc crlf_def)
  have he: "head_end (encode m) = (length hd_text, 4)"
    using index_blank_line [OF pl, of "msg_body m"] by (simp add: head_end_def enc hd_text_def)
  have parts: "take (length hd_text) (encode m) = hd_text"
    "drop (length hd_text + 4) (encode m) = msg_body m" "length hd_text + 4 \<le> length (encode m)"
    by (simp_all add: enc crlf_def)
  have sl: "split_lines hd_text = start_line m # ls"
    unfolding hd_text_def by (rule split_lines_plain [OF pl])
  show ?thesis
    unfolding parse_message_def Let_def he
    using len parts(3)
    by (simp add: parts(1,2) sl parse_start [OF st] ls_def parse_plain_headers [OF hs])
       (simp add: filled_def)
qed

text \<open>
  C14: encoding and parsing are inverse up to the fields the encoder fills in (the body's length
  and a default reason), for every message whose fields contain no line breaks, whose names are
  canonical and whose datagram fits: any number of headers, folded into lines by \<open>encode\<close>, and
  any bytes in the body, blank lines included.
\<close>

theorem sip_roundtrip:
  assumes "plain_message m"
  shows "parse_message (encode m) = Inr (filled m)"
  by (rule parse_encode_aux [OF assms])

definition sample_bye :: message where
  "sample_bye = \<lparr>is_response = False, sip_method = ''BYE'', request_uri = ''sip:1@d'', status = 0,
     reason = [], headers = [(''Via'', ''x''), (''Call-ID'', ''7'')],
     msg_body = [cr, lf, cr, lf, CHR ''b'']\<rparr>"

lemma plain_sample_bye: "plain_message sample_bye"
proof -
  have "plain_start sample_bye"
    by (simp add: sample_bye_def plain_start_def is_space_def to_upper_def char_upper_def)
  moreover have "\<forall>h \<in> set (headers sample_bye). plain_header h"
    by (simp add: sample_bye_def plain_header_def canon_known plain_text_def trimmed_def is_space_def)
  moreover have "length (encode sample_bye) \<le> max_udp_payload"
    by (simp add: sample_bye_def encode_def start_line_def header_line_def crlf_def
        max_udp_payload_def utoa.simps)
  ultimately show ?thesis by (simp add: plain_message_def)
qed

theorem sip_roundtrip_witness:
  "parse_message (encode sample_bye) =
   Inr (sample_bye\<lparr>headers := [(''Via'', ''x''), (''Call-ID'', ''7''), (''Content-Length'', utoa 5)]\<rparr>)"
  using sip_roundtrip [OF plain_sample_bye]
  by (simp add: filled_def sample_bye_def eval_nat_numeral)

lemma parse_sample_bye: "parse_message (encode sample_bye) = Inr (filled sample_bye)"
  by (rule parse_encode_aux [OF plain_sample_bye])

section \<open>The contract of headers\<close>

text \<open>
  What the server relies on when it builds a message: names are compared up to their canonical
  form, \<open>set\<close> replaces and \<open>add\<close> appends, and neither touches another name.
\<close>

locale header_fields =
  fixes canon :: "string \<Rightarrow> string"
    and get :: "'m \<Rightarrow> string \<Rightarrow> string"
    and getall :: "'m \<Rightarrow> string \<Rightarrow> string list"
    and setv :: "'m \<Rightarrow> string \<Rightarrow> string \<Rightarrow> 'm"
    and addv :: "'m \<Rightarrow> string \<Rightarrow> string \<Rightarrow> 'm"
  assumes get_set_same: "canon a = canon b \<Longrightarrow> get (setv m a v) b = v"
    and get_set_other: "canon a \<noteq> canon b \<Longrightarrow> get (setv m a v) b = get m b"
    and getall_set_other: "canon a \<noteq> canon b \<Longrightarrow> getall (setv m a v) b = getall m b"
    and getall_add_same: "canon a = canon b \<Longrightarrow> getall (addv m a v) b = getall m b @ [v]"
    and getall_add_other: "canon a \<noteq> canon b \<Longrightarrow> getall (addv m a v) b = getall m b"
begin

lemma getall_adds: "getall (foldl (\<lambda>m v. addv m n v) m vs) n = getall m n @ vs"
  by (induction vs arbitrary: m) (simp_all add: getall_add_same)

definition set_many :: "'m \<Rightarrow> (string \<times> string) list \<Rightarrow> 'm" where
  "set_many m kvs = foldl (\<lambda>m (k, v). setv m k v) m kvs"

lemma set_many_other:
  "canon n \<notin> (canon \<circ> fst) ` set kvs \<Longrightarrow>
     get (set_many m kvs) n = get m n \<and> getall (set_many m kvs) n = getall m n"
  by (induction kvs arbitrary: m)
    (auto simp: set_many_def get_set_other getall_set_other)

lemma set_many_in:
  "distinct (map (canon \<circ> fst) kvs) \<Longrightarrow> (n, v) \<in> set kvs \<Longrightarrow> get (set_many m kvs) n = v"
proof (induction kvs arbitrary: m)
  case Nil
  then show ?case by simp
next
  case (Cons kv kvs)
  obtain k w where kv: "kv = (k, w)" by fastforce
  show ?case
  proof (cases "(n, v) = (k, w)")
    case True
    then have "canon n \<notin> (canon \<circ> fst) ` set kvs" using Cons.prems(1) kv by auto
    from set_many_other [OF this, of "setv m k w"] True show ?thesis
      by (simp add: set_many_def kv get_set_same)
  next
    case False
    with Cons kv show ?thesis by (auto simp: set_many_def)
  qed
qed

end

lemma first_value_append:
  "first_value c (xs @ ys) = (if \<exists>h \<in> set xs. fst h = c then first_value c xs else first_value c ys)"
  by (induction xs) auto

lemma first_value_filter_other: "c \<noteq> d \<Longrightarrow> first_value c (filter (\<lambda>h. fst h \<noteq> d) hs) = first_value c hs"
  by (induction hs) auto

lemma first_value_absent: "\<forall>h \<in> set hs. fst h \<noteq> c \<Longrightarrow> first_value c hs = []"
  by (induction hs) auto

interpretation hf: header_fields canon_name get_header get_all set_header add_header
proof unfold_locales
  fix a b :: string and m :: message and v
  show "canon_name a = canon_name b \<Longrightarrow> get_header (set_header m a v) b = v"
    by (auto simp: get_header_def set_header_def Let_def first_value_append)
  show "get_header (set_header m a v) b = get_header m b" if "canon_name a \<noteq> canon_name b"
  proof -
    have "first_value (canon_name b) (headers m) = []"
      if "\<not> (\<exists>h \<in> set (filter (\<lambda>h. fst h \<noteq> canon_name a) (headers m)). fst h = canon_name b)"
      using that \<open>canon_name a \<noteq> canon_name b\<close> by (intro first_value_absent) auto
    with that show ?thesis
      by (auto simp: get_header_def set_header_def Let_def first_value_append first_value_filter_other)
  qed
  show "canon_name a \<noteq> canon_name b \<Longrightarrow> get_all (set_header m a v) b = get_all m b"
    by (auto simp: get_all_def set_header_def Let_def intro!: arg_cong [where f = "map snd"] filter_cong)
  show "canon_name a = canon_name b \<Longrightarrow> get_all (add_header m a v) b = get_all m b @ [v]"
    by (simp add: get_all_def add_header_def)
  show "canon_name a \<noteq> canon_name b \<Longrightarrow> get_all (add_header m a v) b = get_all m b"
    by (simp add: get_all_def add_header_def)
qed

section \<open>The device of a URI\<close>

lemma no_sips_prefix:
  assumes "CHR '':'' \<notin> set i"
  shows "\<not> has_prefix (i @ CHR ''@'' # r) ''sips:''"
proof
  assume "has_prefix (i @ CHR ''@'' # r) ''sips:''"
  then obtain t where e: "i @ CHR ''@'' # r = ''sips'' @ CHR '':'' # t"
    unfolding has_prefix_def by (metis append_Cons append_Nil append_take_drop_id)
  show False
  proof (cases "length i \<le> 4")
    case True
    have "(i @ CHR ''@'' # r) ! length i = CHR ''@''" by simp
    moreover have "length i = 0 \<or> length i = 1 \<or> length i = 2 \<or> length i = 3 \<or> length i = 4"
      using True by linarith
    ultimately show False unfolding e by auto
  next
    case False
    then have "i ! 4 = (i @ CHR ''@'' # r) ! 4" by (simp add: nth_append)
    also have "\<dots> = CHR '':''" unfolding e by simp
    finally show False using assms False by (metis not_le nth_mem)
  qed
qed

lemma uri_of_addr:
  assumes "CHR ''>'' \<notin> set i" "CHR ''>'' \<notin> set d" "CHR '':'' \<notin> set i" "CHR ''<'' \<notin> set pre"
  shows "uri_of (pre @ ''<sip:'' @ i @ ''@'' @ d @ ''>'' @ rest) = i @ ''@'' @ d"
proof -
  define u where "u = ''sip:'' @ i @ ''@'' @ d"
  define v where "v = pre @ CHR ''<'' # u @ CHR ''>'' # rest"
  have v: "pre @ ''<sip:'' @ i @ ''@'' @ d @ ''>'' @ rest = v" by (simp add: v_def u_def)
  have lt: "index_byte v (CHR ''<'') = Some (length pre)"
    unfolding v_def by (rule index_byte_append [OF assms(4)])
  have dr: "drop (length pre) v = (CHR ''<'' # u) @ CHR ''>'' # rest" by (simp add: v_def)
  have "CHR ''>'' \<notin> set (CHR ''<'' # u)" using assms by (auto simp: u_def)
  then have gt: "index_byte (drop (length pre) v) (CHR ''>'') = Some (Suc (length u))"
    unfolding dr by (subst index_byte_append) simp_all
  have "take (length u) (drop (Suc (length pre)) v) = u" by (simp add: v_def)
  moreover have "trim_prefix u ''sip:'' = i @ CHR ''@'' # d" by (simp add: u_def trim_prefix_def has_prefix_def)
  moreover have "trim_prefix (i @ CHR ''@'' # d) ''sips:'' = i @ CHR ''@'' # d"
    using no_sips_prefix [OF assms(3)] by (simp add: trim_prefix_def)
  ultimately show ?thesis
    unfolding v uri_of_def by (simp add: lt gt)
qed

lemma uri_user_addr:
  assumes "CHR ''>'' \<notin> set i" "CHR ''>'' \<notin> set d" "CHR '':'' \<notin> set i" "CHR ''<'' \<notin> set pre"
    and "CHR ''@'' \<notin> set i"
  shows "uri_user (pre @ ''<sip:'' @ i @ ''@'' @ d @ ''>'' @ rest) = i"
proof -
  have "index_byte (i @ CHR ''@'' # d) (CHR ''@'') = Some (length i)"
    by (rule index_byte_append [OF assms(5)])
  then show ?thesis
    unfolding uri_user_def uri_of_addr [OF assms(1-4)] by simp
qed

end
