(* ===== verification/Gb_Auth.thy ===== *)
theory Gb_Auth
  imports Gb_Sip
begin

text \<open>
  Digest authentication of device registrations (\<^verbatim>\<open>internal/gb28181/auth.go\<close>).  The parameter
  \<open>md5hex\<close> is the hexadecimal MD5 digest of a string; random bytes come in as arguments, and
  \<open>None\<close> is a failure of the random source.
\<close>

definition hex_digit :: "nat \<Rightarrow> char" where
  "hex_digit d = (if d < 10 then char_of (48 + d) else char_of (87 + d))"

definition hex_encode :: "byte list \<Rightarrow> string" where
  "hex_encode bs = concat (map (\<lambda>b. [hex_digit (unat b div 16), hex_digit (unat b mod 16)]) bs)"

definition gen_nonce :: "byte list option \<Rightarrow> string" where
  "gen_nonce draw = (case draw of None \<Rightarrow> ''0000000000000000'' | Some bs \<Rightarrow> hex_encode (take 16 bs))"

definition gen_tag :: "byte list option \<Rightarrow> string" where
  "gen_tag draw = take 8 (gen_nonce draw)"

definition www_authenticate :: "string \<Rightarrow> string \<Rightarrow> string" where
  "www_authenticate realm nonce =
     ''Digest realm='' @ [CHR 0x22] @ realm @ [CHR 0x22] @ '', nonce='' @ [CHR 0x22] @ nonce @
     [CHR 0x22] @ '', algorithm=MD5''"

text \<open>The scan of \<^verbatim>\<open>splitAuthList\<close>; \<open>cur\<close> holds the current piece last character first.\<close>

fun split_auth :: "string \<Rightarrow> string \<Rightarrow> bool \<Rightarrow> string list" where
  "split_auth [] cur in_quote = (if cur \<noteq> [] then [rev cur] else [])"
| "split_auth (r # rs) cur in_quote =
     (if r = CHR 0x22 then split_auth rs (r # cur) (\<not> in_quote)
      else if r = CHR '','' \<and> \<not> in_quote then rev cur # split_auth rs [] in_quote
      else split_auth rs (r # cur) in_quote)"

definition split_auth_list :: "string \<Rightarrow> string list" where
  "split_auth_list s = split_auth s [] False"

definition auth_param :: "string \<Rightarrow> (string \<Rightarrow> string option) \<Rightarrow> (string \<Rightarrow> string option)" where
  "auth_param p m =
     (let part = trim_space p in
      case index_byte part (CHR ''='') of
        None \<Rightarrow> m
      | Some eq \<Rightarrow>
          m(to_lower (trim_space (take eq part)) \<mapsto>
            trim_by (\<lambda>c. c = CHR 0x22) (trim_space (drop (eq + 1) part))))"

definition parse_auth_params :: "string \<Rightarrow> (string \<Rightarrow> string option)" where
  "parse_auth_params value =
     (let v = trim_space value;
          w = (case index_byte v (CHR '' '') of Some sp \<Rightarrow> drop (sp + 1) v | None \<Rightarrow> v)
      in foldl (\<lambda>m p. auth_param p m) Map.empty (split_auth_list w))"

definition param :: "(string \<Rightarrow> string option) \<Rightarrow> string \<Rightarrow> string" where
  "param m k = (case m k of None \<Rightarrow> [] | Some v \<Rightarrow> v)"

definition verify_digest ::
  "(string \<Rightarrow> string) \<Rightarrow> (string \<Rightarrow> string option) \<Rightarrow> string \<Rightarrow> string \<Rightarrow> bool" where
  "verify_digest md5hex params method password =
     (let username = param params ''username''; realm = param params ''realm'';
          nonce = param params ''nonce''; uri = param params ''uri'';
          response = param params ''response'';
          ha1 = md5hex (username @ '':'' @ realm @ '':'' @ password);
          ha2 = md5hex (to_upper method @ '':'' @ uri);
          qop = param params ''qop'';
          expected =
            (if qop \<noteq> []
             then md5hex (ha1 @ '':'' @ nonce @ '':'' @ param params ''nc'' @ '':'' @
                          param params ''cnonce'' @ '':'' @ qop @ '':'' @ ha2)
             else md5hex (ha1 @ '':'' @ nonce @ '':'' @ ha2))
      in if username = [] \<or> nonce = [] \<or> uri = [] \<or> response = [] then False
         else equal_fold expected response)"

section \<open>Reading a quoted list back\<close>

definition quoted_pair :: "string \<times> string \<Rightarrow> string" where
  "quoted_pair kv = fst kv @ ''='' @ [CHR 0x22] @ snd kv @ [CHR 0x22]"

fun quoted_list :: "(string \<times> string) list \<Rightarrow> string" where
  "quoted_list [] = []"
| "quoted_list [kv] = quoted_pair kv"
| "quoted_list (kv # kvs) = quoted_pair kv @ '', '' @ quoted_list kvs"

definition quotable :: "string \<times> string \<Rightarrow> bool" where
  "quotable kv \<longleftrightarrow> fst kv \<noteq> [] \<and> to_lower (fst kv) = fst kv \<and> trimmed is_space (fst kv) \<and>
     (\<forall>c \<in> {CHR ''='', CHR '','', CHR 0x22}. c \<notin> set (fst kv)) \<and> CHR 0x22 \<notin> set (snd kv)"

lemma split_auth_plain:
  "CHR 0x22 \<notin> set s \<Longrightarrow> q \<or> CHR '','' \<notin> set s \<Longrightarrow>
     split_auth (s @ r) cur q = split_auth r (rev s @ cur) q"
  by (induction s arbitrary: cur) auto

lemma split_auth_pair:
  assumes "quotable kv"
  shows "split_auth (quoted_pair kv @ r) cur False = split_auth r (rev (quoted_pair kv) @ cur) False"
proof -
  have k: "CHR 0x22 \<notin> set (fst kv @ ''='')" "CHR '','' \<notin> set (fst kv @ ''='')"
    and v: "CHR 0x22 \<notin> set (snd kv)"
    using assms by (auto simp: quotable_def)
  have ka: "split_auth ((fst kv @ ''='') @ w) cur False = split_auth w (rev (fst kv @ ''='') @ cur) False" for w
    by (rule split_auth_plain) (use k in auto)
  have va: "split_auth (snd kv @ w) c True = split_auth w (rev (snd kv) @ c) True" for w c
    by (rule split_auth_plain) (use v in auto)
  have "split_auth (quoted_pair kv @ r) cur False =
      split_auth ((fst kv @ ''='') @ CHR 0x22 # snd kv @ CHR 0x22 # r) cur False"
    by (simp add: quoted_pair_def)
  also have "\<dots> = split_auth r (rev (quoted_pair kv) @ cur) False"
    unfolding ka by (simp add: va quoted_pair_def)
  finally show ?thesis .
qed

lemma split_auth_quoted_list:
  "\<forall>kv \<in> set (kv # kvs). quotable kv \<Longrightarrow>
     split_auth (quoted_list (kv # kvs)) cur False =
       (rev cur @ quoted_pair kv) # map (\<lambda>kv. CHR '' '' # quoted_pair kv) kvs"
proof (induction kvs arbitrary: kv cur)
  case Nil
  then show ?case
    using split_auth_pair [of kv "[]" cur] by (simp add: quoted_pair_def)
next
  case (Cons kv' kvs)
  have "split_auth (quoted_list (kv # kv' # kvs)) cur False =
      split_auth ('', '' @ quoted_list (kv' # kvs)) (rev (quoted_pair kv) @ cur) False"
    using split_auth_pair [of kv] Cons.prems by simp
  also have "\<dots> = (rev cur @ quoted_pair kv) # split_auth (quoted_list (kv' # kvs)) [CHR '' ''] False"
    by simp
  finally show ?case
    using Cons.IH [of kv' "[CHR '' '']"] Cons.prems by simp
qed

lemma trim_quotes:
  assumes "CHR 0x22 \<notin> set v"
  shows "trim_by (\<lambda>c. c = CHR 0x22) (CHR 0x22 # v @ [CHR 0x22]) = v"
proof (cases v)
  case Nil
  then show ?thesis by (simp add: trim_by_def trim_left_def trim_right_def)
next
  case (Cons x xs)
  then have "dropWhile (\<lambda>c. c = CHR 0x22) (v @ [CHR 0x22]) = v @ [CHR 0x22]"
    using assms by auto
  moreover have "dropWhile (\<lambda>c. c = CHR 0x22) (rev v) = rev v"
    using assms by (cases v rule: rev_cases) auto
  ultimately show ?thesis by (simp add: trim_by_def trim_left_def trim_right_def)
qed

lemma auth_param_pair:
  assumes "quotable kv" and "p = quoted_pair kv \<or> p = CHR '' '' # quoted_pair kv"
  shows "auth_param p m = m(fst kv \<mapsto> snd kv)"
proof -
  have k: "fst kv \<noteq> []" "\<not> is_space (hd (fst kv))" "CHR ''='' \<notin> set (fst kv)"
    "trim_space (fst kv) = fst kv" "to_lower (fst kv) = fst kv"
    using assms(1) by (auto simp: quotable_def trimmed_def trim_by_id)
  define q where "q = CHR 0x22 # snd kv @ [CHR 0x22]"
  have qp: "quoted_pair kv = fst kv @ CHR ''='' # q" by (simp add: quoted_pair_def q_def)
  have tq: "trimmed is_space (quoted_pair kv)" "trimmed is_space q"
    using k(1,2) by (simp_all add: trimmed_def qp q_def is_space_def)
  have "trim_space p = quoted_pair kv"
    using assms(2) trim_by_id [OF tq(1)] trim_by_space [OF tq(1)] by auto
  moreover have "index_byte (quoted_pair kv) (CHR ''='') = Some (length (fst kv))"
    unfolding qp by (rule index_byte_append [OF k(3)])
  moreover have "take (length (fst kv)) (quoted_pair kv) = fst kv"
    "drop (length (fst kv) + 1) (quoted_pair kv) = q" by (simp_all add: qp)
  moreover have "trim_by (\<lambda>c. c = CHR 0x22) (trim_space q) = snd kv"
    unfolding trim_by_id [OF tq(2)] unfolding q_def
    using assms(1) by (intro trim_quotes) (simp add: quotable_def)
  ultimately show ?thesis
    by (simp add: auth_param_def k(4,5) Let_def del: One_nat_def add_Suc_right)
qed

lemmas auth_param_pairs =
  auth_param_pair [OF _ disjI1 [OF refl]] auth_param_pair [OF _ disjI2 [OF refl]]

lemma fold_auth_pairs:
  "\<forall>kv \<in> set kvs. quotable kv \<Longrightarrow>
     foldl (\<lambda>m p. auth_param p m) m (map (\<lambda>kv. CHR '' '' # quoted_pair kv) kvs) =
     foldl (\<lambda>m kv. m(fst kv \<mapsto> snd kv)) m kvs"
  by (induction kvs arbitrary: m) (simp_all add: auth_param_pairs)

lemma foldl_upd_map_of:
  "distinct (map fst kvs) \<Longrightarrow> foldl (\<lambda>m kv. m(fst kv \<mapsto> snd kv)) m kvs = m ++ map_of kvs"
proof (induction kvs arbitrary: m)
  case Nil
  then show ?case by simp
next
  case (Cons kv kvs)
  have "fst kv \<notin> dom (map_of kvs)"
    using Cons.prems by (simp add: dom_map_of_conv_image_fst)
  then have "m(fst kv \<mapsto> snd kv) ++ map_of kvs = m ++ map_of (kv # kvs)"
    by (cases kv) (auto simp: fun_eq_iff map_add_def split: option.splits)
  moreover have "foldl (\<lambda>m kv. m(fst kv \<mapsto> snd kv)) (m(fst kv \<mapsto> snd kv)) kvs =
      m(fst kv \<mapsto> snd kv) ++ map_of kvs"
    by (rule Cons.IH) (use Cons.prems in simp)
  ultimately show ?case by (simp only: foldl.simps)
qed

lemma parse_quoted_list:
  assumes "\<forall>kv \<in> set (kv # kvs). quotable kv" and "distinct (map fst (kv # kvs))"
  shows "parse_auth_params (''Digest '' @ quoted_list (kv # kvs)) = map_of (kv # kvs)"
proof -
  have last: "quoted_list (a # as) \<noteq> [] \<and> last (quoted_list (a # as)) = CHR 0x22" for a as
    by (induction as arbitrary: a) (simp_all add: quoted_pair_def)
  define v where "v = ''Digest '' @ quoted_list (kv # kvs)"
  have "trimmed is_space v"
    using last [of kv kvs] by (simp add: trimmed_def v_def is_space_def)
  then have t: "trim_space v = v" by (rule trim_by_id)
  have i: "index_byte v (CHR '' '') = Some 6" "drop (6 + 1) v = quoted_list (kv # kvs)"
    by (simp_all add: v_def)
  have "split_auth_list (quoted_list (kv # kvs)) =
      quoted_pair kv # map (\<lambda>kv. CHR '' '' # quoted_pair kv) kvs"
    using split_auth_quoted_list [OF assms(1), of "[]"] by (simp add: split_auth_list_def)
  then have "parse_auth_params v = foldl (\<lambda>m kv. m(fst kv \<mapsto> snd kv)) Map.empty (kv # kvs)"
    using assms(1) unfolding parse_auth_params_def Let_def t
    by (simp add: i [simplified] auth_param_pairs fold_auth_pairs)
  also have "\<dots> = map_of (kv # kvs)"
    using foldl_upd_map_of [OF assms(2), of Map.empty] by simp
  finally show ?thesis unfolding v_def .
qed

section \<open>Who is let in\<close>

text \<open>What a device answers to a challenge without \<^verbatim>\<open>qop\<close> (RFC 2617).\<close>

definition digest_response ::
  "(string \<Rightarrow> string) \<Rightarrow> string \<Rightarrow> string \<Rightarrow> string \<Rightarrow> string \<Rightarrow> string \<Rightarrow> string \<Rightarrow> string" where
  "digest_response md5hex method user realm nonce uri password =
     md5hex (md5hex (user @ '':'' @ realm @ '':'' @ password) @ '':'' @ nonce @ '':'' @
             md5hex (method @ '':'' @ uri))"

definition device_authorization ::
  "(string \<Rightarrow> string) \<Rightarrow> string \<Rightarrow> string \<Rightarrow> string \<Rightarrow> string \<Rightarrow> string \<Rightarrow> string" where
  "device_authorization md5hex user realm nonce uri password =
     ''Digest '' @ quoted_list [(''username'', user), (''realm'', realm), (''nonce'', nonce),
       (''uri'', uri), (''response'', digest_response md5hex ''REGISTER'' user realm nonce uri password)]"

lemma parse_device_authorization:
  assumes "\<forall>s \<in> {user, realm, nonce, uri}. CHR 0x22 \<notin> set s" and "\<And>s. CHR 0x22 \<notin> set (md5hex s)"
  shows "parse_auth_params (device_authorization md5hex user realm nonce uri password) =
    map_of [(''username'', user), (''realm'', realm), (''nonce'', nonce), (''uri'', uri),
      (''response'', digest_response md5hex ''REGISTER'' user realm nonce uri password)]"
  unfolding device_authorization_def
proof (rule parse_quoted_list)
  have lows: "to_lower ''username'' = ''username''" "to_lower ''realm'' = ''realm''"
    "to_lower ''nonce'' = ''nonce''" "to_lower ''uri'' = ''uri''" "to_lower ''response'' = ''response''"
    by (simp_all add: to_lower_def char_lower_def)
  show "\<forall>kv \<in> set [(''username'', user), (''realm'', realm), (''nonce'', nonce), (''uri'', uri),
      (''response'', digest_response md5hex ''REGISTER'' user realm nonce uri password)]. quotable kv"
    using assms by (simp add: quotable_def lows trimmed_def is_space_def digest_response_def)
qed simp

lemma verify_device:
  assumes "\<forall>s \<in> {user, realm, nonce, uri}. CHR 0x22 \<notin> set s" and "\<And>s. CHR 0x22 \<notin> set (md5hex s)"
    and "user \<noteq> []" "nonce \<noteq> []" "uri \<noteq> []" and "\<And>s. md5hex s \<noteq> []"
  shows "verify_digest md5hex (parse_auth_params (device_authorization md5hex user realm nonce uri pw))
           ''REGISTER'' password \<longleftrightarrow>
         equal_fold (digest_response md5hex ''REGISTER'' user realm nonce uri password)
                    (digest_response md5hex ''REGISTER'' user realm nonce uri pw)"
proof -
  have up: "to_upper ''REGISTER'' = ''REGISTER''" by (simp add: to_upper_def char_upper_def)
  show ?thesis
    unfolding parse_device_authorization [OF assms(1,2)]
    using assms(3-6) by (simp add: verify_digest_def param_def Let_def up digest_response_def)
qed



end
