(* ===== verification/Gb_Server.thy ===== *)
theory Gb_Server
  imports Gb_Auth
begin

text \<open>
  The SIP platform itself (\<^verbatim>\<open>internal/gb28181/server.go\<close>, \<^verbatim>\<open>sdp.go\<close> and the message side of
  \<^verbatim>\<open>play.go\<close>): its state under the mutex, the handler of every kind of datagram, and the
  dialogues that are open with devices.  A handler takes what it reads from outside as arguments:
  the time in seconds, the random bytes it draws, the outbound address.  A network address is a
  value of the type variable; what a handler writes to the socket is appended to \<open>sent\<close>.  The
  XML decoder and the XML escape are parameters.
\<close>

section \<open>State\<close>

record gb_config =
  enabled :: bool
  sip_addr :: string
  server_id :: string
  domain :: string
  password :: string
  media_ip :: string
  port_min :: int
  port_max :: int

definition apply_defaults :: "gb_config \<Rightarrow> gb_config" where
  "apply_defaults c =
     (let c1 = (if sip_addr c = [] then c\<lparr>sip_addr := '':5060''\<rparr> else c);
          c2 = (if server_id c1 = [] then c1\<lparr>server_id := ''34020000002000000001''\<rparr> else c1);
          c3 = (if domain c2 = []
                then c2\<lparr>domain := (if length (server_id c2) \<ge> 10 then take 10 (server_id c2)
                                   else ''3402000000'')\<rparr> else c2);
          c4 = (if port_min c3 = 0 then c3\<lparr>port_min := 30000\<rparr> else c3)
      in (if port_max c4 = 0 then c4\<lparr>port_max := 30500\<rparr> else c4))"

record channel =
  ch_id :: string
  ch_name :: string
  ch_manufacturer :: string
  ch_model :: string
  ch_status :: string

record 'a device =
  dev_id :: string
  dev_name :: string
  dev_manufacturer :: string
  dev_model :: string
  online :: bool
  last_seen :: int
  channels :: "channel list"
  dev_addr :: "'a option"

definition fresh_device :: "string \<Rightarrow> 'a device" where
  "fresh_device i = \<lparr>dev_id = i, dev_name = [], dev_manufacturer = [], dev_model = [],
     online = False, last_seen = 0, channels = [], dev_addr = None\<rparr>"

text \<open>
  A cancel channel is a number; \<open>closed\<close> holds the closed ones and \<open>crashed\<close> records a
  \<open>close\<close> of a closed channel, which is a panic.  \<open>spawned\<close> lists the devices for which the
  two query goroutines have been started.
\<close>

record 'a gb_server =
  cfg :: gb_config
  has_conn :: bool
  devices :: "string \<rightharpoonup> 'a device"
  pending :: "string \<rightharpoonup> message list"
  sessions :: "string \<rightharpoonup> nat"
  closed :: "nat set"
  crashed :: bool
  cseq :: u32
  sn :: u32
  media_port :: u32
  sent :: "('a option \<times> string) list"
  spawned :: "string list"

definition new_server :: "gb_config \<Rightarrow> 'a gb_server" where
  "new_server c =
     (let c' = apply_defaults c
      in \<lparr>cfg = c', has_conn = False, devices = Map.empty, pending = Map.empty,
          sessions = Map.empty, closed = {}, crashed = False, cseq = 0, sn = 0,
          media_port = word_of_int (port_min c'), sent = [], spawned = []\<rparr>)"

section \<open>Sending\<close>

definition send_wire :: "'a option \<Rightarrow> message \<Rightarrow> 'a gb_server \<Rightarrow> 'a gb_server" where
  "send_wire dst m s = (if has_conn s then s\<lparr>sent := sent s @ [(dst, encode m)]\<rparr> else s)"

definition with_tag :: "string \<Rightarrow> string \<Rightarrow> string" where
  "with_tag to tag = (if header_param to ''tag'' = [] then to @ '';tag='' @ tag else to)"

definition build_response ::
  "message \<Rightarrow> int \<Rightarrow> (string \<times> string) list \<Rightarrow> string option \<Rightarrow> string \<Rightarrow> message" where
  "build_response req st extra body tag =
     (let r0 = empty_message\<lparr>is_response := True, status := st,
                 msg_body := (case body of None \<Rightarrow> [] | Some b \<Rightarrow> b)\<rparr>;
          r1 = foldl (\<lambda>r v. add_header r ''Via'' v) r0 (get_all req ''Via'');
          r2 = set_header r1 ''From'' (get_header req ''From'');
          r3 = set_header r2 ''To'' (with_tag (get_header req ''To'') tag);
          r4 = set_header r3 ''Call-ID'' (get_header req ''Call-ID'');
          r5 = set_header r4 ''CSeq'' (get_header req ''CSeq'');
          r6 = set_header r5 ''User-Agent'' ''kenko-nvr'';
          r7 = foldl (\<lambda>r (k, v). set_header r k v) r6 extra
      in (if body \<noteq> None then set_header r7 ''Content-Type'' ''application/sdp'' else r7))"

definition respond ::
  "message \<Rightarrow> 'a \<Rightarrow> int \<Rightarrow> (string \<times> string) list \<Rightarrow> string option \<Rightarrow> byte list option \<Rightarrow>
   'a gb_server \<Rightarrow> 'a gb_server" where
  "respond req src st extra body draw s =
     send_wire (Some src) (build_response req st extra body (gen_tag draw)) s"

section \<open>Handlers\<close>

record gb_item =
  item_device :: string
  item_name :: string
  item_manufacturer :: string
  item_model :: string
  item_status :: string

record gb_message =
  cmd_type :: string
  body_device :: string
  body_name :: string
  body_manufacturer :: string
  body_model :: string
  items :: "gb_item list"

text \<open>What a handler reads from the outside.\<close>

record gb_env =
  now :: int
  date :: string
  tag_draw :: "byte list option"
  nonce_draw :: "byte list option"

definition route_response :: "message \<Rightarrow> 'a gb_server \<Rightarrow> 'a gb_server" where
  "route_response m s =
     (case pending s (call_id m) of
        None \<Rightarrow> s
      | Some q \<Rightarrow> if length q < 8 then s\<lparr>pending := (pending s)(call_id m \<mapsto> q @ [m])\<rparr> else s)"

definition seen :: "'a \<Rightarrow> int \<Rightarrow> 'a device \<Rightarrow> 'a device" where
  "seen src t d = d\<lparr>dev_addr := Some src, online := True, last_seen := t\<rparr>"

definition device_or_fresh :: "'a gb_server \<Rightarrow> string \<Rightarrow> 'a device" where
  "device_or_fresh s i = (case devices s i of Some d \<Rightarrow> d | None \<Rightarrow> fresh_device i)"

definition register_ok_headers :: "gb_env \<Rightarrow> (string \<times> string) list" where
  "register_ok_headers e = [(''Date'', date e), (''Expires'', ''3600'')]"

definition handle_register ::
  "(string \<Rightarrow> string) \<Rightarrow> gb_env \<Rightarrow> message \<Rightarrow> 'a \<Rightarrow> 'a gb_server \<Rightarrow> 'a gb_server" where
  "handle_register md5hex e msg src s =
     (let device_id = uri_user (get_header msg ''From'');
          authz = get_header msg ''Authorization'' in
      if device_id = [] then respond msg src 400 [] None (tag_draw e) s
      else if password (cfg s) \<noteq> [] \<and> authz = [] then
        respond msg src 401
          [(''WWW-Authenticate'', www_authenticate (domain (cfg s)) (gen_nonce (nonce_draw e)))]
          None (tag_draw e) s
      else if password (cfg s) \<noteq> [] \<and>
              \<not> verify_digest md5hex (parse_auth_params authz) ''REGISTER'' (password (cfg s)) then
        respond msg src 403 [] None (tag_draw e) s
      else if get_header msg ''Expires'' = ''0'' then
        respond msg src 200 (register_ok_headers e) None (tag_draw e)
          (s\<lparr>devices := (devices s)(device_id := None)\<rparr>)
      else
        (let d = seen src (now e) (device_or_fresh s device_id);
             s1 = respond msg src 200 (register_ok_headers e) None (tag_draw e)
                    (s\<lparr>devices := (devices s)(device_id \<mapsto> d)\<rparr>)
         in s1\<lparr>spawned := spawned s1 @ [device_id]\<rparr>))"

definition touch_device :: "string \<Rightarrow> 'a \<Rightarrow> int \<Rightarrow> 'a gb_server \<Rightarrow> 'a gb_server" where
  "touch_device i src t s =
     (if i = [] then s
      else s\<lparr>devices := (devices s)(i \<mapsto> seen src t (device_or_fresh s i))\<rparr>)"

fun put_channel :: "channel \<Rightarrow> channel list \<Rightarrow> channel list" where
  "put_channel ch [] = [ch]"
| "put_channel ch (c # cs) = (if ch_id c = ch_id ch then ch # cs else c # put_channel ch cs)"

definition item_channel :: "gb_item \<Rightarrow> channel" where
  "item_channel i = \<lparr>ch_id = item_device i, ch_name = item_name i,
     ch_manufacturer = item_manufacturer i, ch_model = item_model i, ch_status = item_status i\<rparr>"

definition apply_catalog :: "gb_message \<Rightarrow> 'a gb_server \<Rightarrow> 'a gb_server" where
  "apply_catalog b s =
     (case devices s (body_device b) of
        None \<Rightarrow> s
      | Some d \<Rightarrow>
          s\<lparr>devices := (devices s)(body_device b \<mapsto>
              d\<lparr>channels := foldl (\<lambda>cs i. put_channel (item_channel i) cs) (channels d) (items b)\<rparr>)\<rparr>)"

definition apply_device_info :: "gb_message \<Rightarrow> 'a gb_server \<Rightarrow> 'a gb_server" where
  "apply_device_info b s =
     (case devices s (body_device b) of
        None \<Rightarrow> s
      | Some d \<Rightarrow>
          s\<lparr>devices := (devices s)(body_device b \<mapsto>
              d\<lparr>dev_name := (if body_name b \<noteq> [] then body_name b else dev_name d),
                dev_manufacturer := body_manufacturer b, dev_model := body_model b\<rparr>)\<rparr>)"

definition handle_message ::
  "(string \<Rightarrow> gb_message option) \<Rightarrow> gb_env \<Rightarrow> message \<Rightarrow> 'a \<Rightarrow> 'a gb_server \<Rightarrow> 'a gb_server" where
  "handle_message parse_xml e msg src s =
     (let s1 = respond msg src 200 [] None (tag_draw e) s in
      case parse_xml (msg_body msg) of
        None \<Rightarrow> s1
      | Some b \<Rightarrow>
          if cmd_type b = ''Keepalive'' then
            touch_device (uri_user (get_header msg ''From'')) src (now e) s1
          else if cmd_type b = ''Catalog'' then apply_catalog b s1
          else if cmd_type b = ''DeviceInfo'' then apply_device_info b s1
          else s1)"

text \<open>Closing a channel: closing it again is a panic.\<close>

definition close_cancel :: "nat \<Rightarrow> 'a gb_server \<Rightarrow> 'a gb_server" where
  "close_cancel c s =
     (if c \<in> closed s then s\<lparr>crashed := True\<rparr> else s\<lparr>closed := insert c (closed s)\<rparr>)"

definition handle_bye :: "gb_env \<Rightarrow> message \<Rightarrow> 'a \<Rightarrow> 'a gb_server \<Rightarrow> 'a gb_server" where
  "handle_bye e msg src s =
     (let s1 = respond msg src 200 [] None (tag_draw e) s in
      case sessions s1 (call_id msg) of
        None \<Rightarrow> s1
      | Some c \<Rightarrow>
          (let s2 = close_cancel c s1
           in s2\<lparr>sessions := (sessions s2)(call_id msg := None)\<rparr>))"

definition handle_datagram ::
  "(string \<Rightarrow> string) \<Rightarrow> (string \<Rightarrow> gb_message option) \<Rightarrow> gb_env \<Rightarrow> string \<Rightarrow> 'a \<Rightarrow>
   'a gb_server \<Rightarrow> 'a gb_server" where
  "handle_datagram md5hex parse_xml e data src s =
     (case parse_message data of
        Inl _ \<Rightarrow> s
      | Inr msg \<Rightarrow>
          if is_response msg then route_response msg s
          else if sip_method msg = ''REGISTER'' then handle_register md5hex e msg src s
          else if sip_method msg = ''MESSAGE'' then handle_message parse_xml e msg src s
          else if sip_method msg = ''BYE'' then handle_bye e msg src s
          else respond msg src 200 [] None (tag_draw e) s)"

text \<open>The tick of \<^verbatim>\<open>expireDevices\<close>: devices not heard of for two minutes are offline.\<close>

definition expire_devices :: "int \<Rightarrow> 'a gb_server \<Rightarrow> 'a gb_server" where
  "expire_devices t s =
     s\<lparr>devices := (\<lambda>i. map_option
         (\<lambda>d. if last_seen d < t - 120 then d\<lparr>online := False\<rparr> else d) (devices s i))\<rparr>"

section \<open>Requests to devices\<close>

text \<open>\<open>net.SplitHostPort\<close>, reduced to the port: \<open>None\<close> is an error.\<close>

definition last_index :: "string \<Rightarrow> char \<Rightarrow> nat option" where
  "last_index s c =
     (case index_byte (rev s) c of None \<Rightarrow> None | Some i \<Rightarrow> Some (length s - 1 - i))"

definition split_port :: "string \<Rightarrow> string option" where
  "split_port hp =
     (case last_index hp (CHR '':'') of
        None \<Rightarrow> None
      | Some i \<Rightarrow>
          if hd hp = CHR ''['' then
            (case index_byte hp (CHR '']'') of
               None \<Rightarrow> None
             | Some e \<Rightarrow>
                 if e + 1 \<noteq> i \<or> CHR ''['' \<in> set (drop 1 hp) \<or> CHR '']'' \<in> set (drop (e + 1) hp)
                 then None else Some (drop (i + 1) hp))
          else if CHR '':'' \<in> set (take i hp) \<or> CHR ''['' \<in> set hp \<or> CHR '']'' \<in> set hp then None
          else Some (drop (i + 1) hp))"

definition join_host_port :: "string \<Rightarrow> string \<Rightarrow> string" where
  "join_host_port host port =
     (if CHR '':'' \<in> set host then ''['' @ host @ '']:'' @ port else host @ '':'' @ port)"

text \<open>The IP advertised for media: the configured one, else the outbound address.\<close>

definition media_ip_of :: "string \<Rightarrow> gb_config \<Rightarrow> string" where
  "media_ip_of outbound c = (if media_ip c \<noteq> [] then media_ip c else outbound)"

definition sip_host :: "string \<Rightarrow> gb_config \<Rightarrow> string" where
  "sip_host outbound c =
     join_host_port (media_ip_of outbound c)
       (case split_port (sip_addr c) of
          None \<Rightarrow> ''5060''
        | Some port \<Rightarrow> if port = [] then ''5060'' else port)"

definition next_cseq :: "'a gb_server \<Rightarrow> u32 \<times> 'a gb_server" where
  "next_cseq s = (cseq s + 1 + 1, s\<lparr>cseq := cseq s + 1\<rparr>)"

definition via_value :: "string \<Rightarrow> string \<Rightarrow> string" where
  "via_value host branch = ''SIP/2.0/UDP '' @ host @ '';rport;branch='' @ branch"

definition own_uri :: "gb_config \<Rightarrow> string" where
  "own_uri c = ''<sip:'' @ server_id c @ ''@'' @ domain c @ ''>''"

definition peer_uri :: "gb_config \<Rightarrow> string \<Rightarrow> string" where
  "peer_uri c i = ''<sip:'' @ i @ ''@'' @ domain c @ ''>''"

definition new_request :: "gb_config \<Rightarrow> string \<Rightarrow> string \<Rightarrow> string \<Rightarrow> message" where
  "new_request c method i body =
     empty_message\<lparr>sip_method := method, request_uri := ''sip:'' @ i @ ''@'' @ domain c,
       msg_body := body\<rparr>"

definition put_all :: "(string \<times> string) list \<Rightarrow> message \<Rightarrow> message" where
  "put_all kvs m = foldl (\<lambda>m (k, v). set_header m k v) m kvs"

text \<open>The draws: the Call-ID, the branch and the tag, in the order they are made.\<close>

definition send_message_request ::
  "string \<Rightarrow> byte list option \<times> byte list option \<times> byte list option \<Rightarrow> 'a device \<Rightarrow> string \<Rightarrow>
   'a gb_server \<Rightarrow> 'a gb_server" where
  "send_message_request outbound draws d body s =
     (let (r1, r2, r3) = draws; c = cfg s;
          m0 = add_header (new_request c ''MESSAGE'' (dev_id d) body) ''Via''
                 (via_value (sip_host outbound c) (''z9hG4bK'' @ take 12 (gen_nonce r2)));
          (n, s1) = next_cseq s;
          m = put_all [(''From'', own_uri c @ '';tag='' @ gen_tag r3), (''To'', peer_uri c (dev_id d)),
                (''Call-ID'', gen_nonce r1), (''CSeq'', utoa (unat n) @ '' MESSAGE''),
                (''Max-Forwards'', ''70''), (''Content-Type'', ''application/MANSCDP+xml''),
                (''User-Agent'', ''kenko-nvr'')] m0
      in send_wire (dev_addr d) m s1)"

definition query_body :: "(string \<Rightarrow> string) \<Rightarrow> string \<Rightarrow> string \<Rightarrow> u32 \<Rightarrow> string" where
  "query_body esc cmd i n =
     ''<?xml version='' @ [CHR 0x22] @ ''1.0'' @ [CHR 0x22] @ '' encoding='' @ [CHR 0x22] @ ''UTF-8'' @
     [CHR 0x22] @ ''?>'' @ [lf] @ ''<Query>'' @ [lf] @ ''<CmdType>'' @ cmd @ ''</CmdType>'' @ [lf] @
     ''<SN>'' @ itoa (sint n) @ ''</SN>'' @ [lf] @ ''<DeviceID>'' @ esc i @ ''</DeviceID>'' @ [lf] @
     ''</Query>'' @ [lf]"

definition query_device ::
  "string \<Rightarrow> (string \<Rightarrow> string) \<Rightarrow> string \<Rightarrow>
   byte list option \<times> byte list option \<times> byte list option \<Rightarrow> string \<Rightarrow>
   'a gb_server \<Rightarrow> 'a gb_server" where
  "query_device cmd esc outbound draws i s =
     (case devices s i of
        None \<Rightarrow> s
      | Some d \<Rightarrow>
          if dev_addr d = None then s
          else (let s1 = s\<lparr>sn := sn s + 1\<rparr>
                in send_message_request outbound draws d (query_body esc cmd i (sn s1)) s1))"

definition query_catalog where "query_catalog = query_device ''Catalog''"
definition query_device_info where "query_device_info = query_device ''DeviceInfo''"

section \<open>Invitations\<close>

definition pad4 :: "nat \<Rightarrow> string" where
  "pad4 n = replicate (4 - length (utoa n)) (CHR ''0'') @ utoa n"

text \<open>The sequence number is unsigned in every call.\<close>

definition make_ssrc :: "string \<Rightarrow> nat \<Rightarrow> bool \<Rightarrow> string" where
  "make_ssrc channel_id n playback =
     (if playback then ''1'' else ''0'') @
     (if length channel_id \<ge> 8 then take 5 (drop 3 channel_id) else ''00000'') @ pad4 (n mod 10000)"

definition build_invite_sdp :: "string \<Rightarrow> string \<Rightarrow> nat \<Rightarrow> string \<Rightarrow> string" where
  "build_invite_sdp channel_id ip port ssrc =
     ''v=0'' @ crlf @ ''o='' @ channel_id @ '' 0 0 IN IP4 '' @ ip @ crlf @ ''s=Play'' @ crlf @
     ''c=IN IP4 '' @ ip @ crlf @ ''t=0 0'' @ crlf @
     ''m=video '' @ utoa port @ '' RTP/AVP 96 98 99 97'' @ crlf @ ''a=recvonly'' @ crlf @
     ''a=rtpmap:96 PS/90000'' @ crlf @ ''a=rtpmap:98 H264/90000'' @ crlf @
     ''a=rtpmap:99 H265/90000'' @ crlf @ ''a=rtpmap:97 MPEG4/90000'' @ crlf @ ''y='' @ ssrc @ crlf"

definition invite_request ::
  "gb_config \<Rightarrow> string \<Rightarrow> string \<Rightarrow> string \<Rightarrow> string \<Rightarrow> string \<Rightarrow> u32 \<Rightarrow> string \<Rightarrow> string \<Rightarrow> message" where
  "invite_request c outbound branch chan_id callid from_tag n ssrc sdp =
     put_all [(''From'', own_uri c @ '';tag='' @ from_tag), (''To'', peer_uri c chan_id),
       (''Call-ID'', callid), (''CSeq'', utoa (unat n) @ '' INVITE''),
       (''Contact'', ''<sip:'' @ server_id c @ ''@'' @ sip_host outbound c @ ''>''),
       (''Max-Forwards'', ''70''), (''Subject'', chan_id @ '':'' @ ssrc @ '','' @ server_id c @ '':0''),
       (''Content-Type'', ''application/sdp''), (''User-Agent'', ''kenko-nvr'')]
       (add_header (new_request c ''INVITE'' chan_id sdp) ''Via'' (via_value (sip_host outbound c) branch))"

text \<open>ACK and BYE of a dialogue differ in the method alone.\<close>

definition dialog_request ::
  "string \<Rightarrow> gb_config \<Rightarrow> string \<Rightarrow> string \<Rightarrow> string \<Rightarrow> string \<Rightarrow> string \<Rightarrow> string \<Rightarrow> u32 \<Rightarrow> message" where
  "dialog_request method c outbound branch chan_id callid from_tag to_tag n =
     put_all [(''From'', own_uri c @ '';tag='' @ from_tag),
       (''To'', peer_uri c chan_id @ '';tag='' @ to_tag), (''Call-ID'', callid),
       (''CSeq'', utoa (unat n) @ '' '' @ method), (''Max-Forwards'', ''70''),
       (''User-Agent'', ''kenko-nvr'')]
       (add_header (new_request c method chan_id []) ''Via'' (via_value (sip_host outbound c) branch))"

section \<open>Replies\<close>

definition echoes :: "message \<Rightarrow> message \<Rightarrow> bool" where
  "echoes req r \<longleftrightarrow> is_response r \<and> get_all r ''Via'' = get_all req ''Via'' \<and>
     get_header r ''From'' = get_header req ''From'' \<and>
     get_header r ''Call-ID'' = get_header req ''Call-ID'' \<and>
     get_header r ''CSeq'' = get_header req ''CSeq'' \<and>
     (\<exists>tag. get_header r ''To'' = with_tag (get_header req ''To'') tag)"

lemma frame_headers [simp]:
  "is_response (add_header m n v) = is_response m" "is_response (set_header m n v) = is_response m"
  "status (add_header m n v) = status m" "status (set_header m n v) = status m"
  by (simp_all add: add_header_def set_header_def Let_def)

lemma frame_adds [simp]:
  "is_response (foldl (\<lambda>r v. add_header r n v) m vs) = is_response m"
  "status (foldl (\<lambda>r v. add_header r n v) m vs) = status m"
  by (induction vs arbitrary: m) simp_all

lemma frame_sets [simp]:
  "is_response (foldl (\<lambda>r (k, v). set_header r k v) m kvs) = is_response m"
  "status (foldl (\<lambda>r (k, v). set_header r k v) m kvs) = status m"
  by (induction kvs arbitrary: m) auto

definition routing_names :: "string set" where
  "routing_names = {''Via'', ''From'', ''To'', ''Call-ID'', ''CSeq''}"

lemma build_response_echoes:
  assumes "\<forall>kv \<in> set extra. canon_name (fst kv) \<notin> routing_names"
  shows "echoes req (build_response req st extra None tag) \<and>
         status (build_response req st extra None tag) = st"
proof -
  define r0 where "r0 = empty_message\<lparr>is_response := True, status := st, msg_body := []\<rparr>"
  define r1 where "r1 = foldl (\<lambda>r v. add_header r ''Via'' v) r0 (get_all req ''Via'')"
  define r6 where "r6 = set_header (set_header (set_header (set_header (set_header r1 ''From''
     (get_header req ''From'')) ''To'' (with_tag (get_header req ''To'') tag)) ''Call-ID''
     (get_header req ''Call-ID'')) ''CSeq'' (get_header req ''CSeq'')) ''User-Agent'' ''kenko-nvr''"
  have r: "build_response req st extra None tag = hf.set_many r6 extra"
    unfolding build_response_def hf.set_many_def r6_def r1_def r0_def Let_def by simp
  have other: "get_header (hf.set_many r6 extra) n = get_header r6 n \<and>
      get_all (hf.set_many r6 extra) n = get_all r6 n" if "canon_name n \<in> routing_names" for n
    by (rule hf.set_many_other) (use assms that in auto)
  have o: "get_all r1 ''Via'' = get_all req ''Via''"
    unfolding r1_def hf.getall_adds by (simp add: r0_def get_all_def empty_message_def)
  have st: "is_response r6" "status r6 = st"
    by (simp_all add: r6_def r1_def r0_def)
  have gets: "get_all r6 ''Via'' = get_all req ''Via''" "get_header r6 ''From'' = get_header req ''From''"
    "get_header r6 ''To'' = with_tag (get_header req ''To'') tag"
    "get_header r6 ''Call-ID'' = get_header req ''Call-ID''"
    "get_header r6 ''CSeq'' = get_header req ''CSeq''"
    by (simp_all add: r6_def o canon_known hf.get_set_same hf.get_set_other hf.getall_set_other)
  have names: "canon_name ''Via'' \<in> routing_names" "canon_name ''From'' \<in> routing_names"
    "canon_name ''To'' \<in> routing_names" "canon_name ''Call-ID'' \<in> routing_names"
    "canon_name ''CSeq'' \<in> routing_names"
    by (simp_all add: canon_known routing_names_def)
  have "is_response (hf.set_many r6 extra)" "status (hf.set_many r6 extra) = st"
    using st by (simp_all add: hf.set_many_def)
  then show ?thesis
    unfolding r echoes_def using gets other [OF names(1)] other [OF names(2)] other [OF names(3)]
      other [OF names(4)] other [OF names(5)] by auto
qed

definition replies :: "'a gb_server \<Rightarrow> 'a gb_server \<Rightarrow> 'a \<Rightarrow> message \<Rightarrow> bool" where
  "replies s s' src req \<longleftrightarrow>
     (\<exists>r. echoes req r \<and> status r \<in> {200, 400, 401, 403} \<and>
          sent s' = sent s @ [(Some src, encode r)])"

lemma respond_replies:
  assumes "has_conn s" and "\<forall>kv \<in> set extra. canon_name (fst kv) \<notin> routing_names"
    and "st \<in> {200, 400, 401, 403}"
  shows "replies s (respond req src st extra None draw s) src req"
  using assms build_response_echoes [OF assms(2)]
  unfolding replies_def respond_def send_wire_def
  by (intro exI [of _ "build_response req st extra None (gen_tag draw)"]) simp

lemma respond_frame [frame_simps]:
  "devices (respond req src st extra body draw s) = devices s"
  "pending (respond req src st extra body draw s) = pending s"
  "sessions (respond req src st extra body draw s) = sessions s"
  "closed (respond req src st extra body draw s) = closed s"
  "crashed (respond req src st extra body draw s) = crashed s"
  "cfg (respond req src st extra body draw s) = cfg s"
  "has_conn (respond req src st extra body draw s) = has_conn s"
  by (simp_all add: respond_def send_wire_def)

lemma sent_frame [frame_simps]:
  "sent (touch_device i src t s) = sent s" "sent (apply_catalog b s) = sent s"
  "sent (apply_device_info b s) = sent s" "sent (close_cancel c s) = sent s"
  by (simp_all add: touch_device_def apply_catalog_def apply_device_info_def close_cancel_def
      split: option.splits)

lemma ok_headers_plain: "\<forall>kv \<in> set (register_ok_headers e). canon_name (fst kv) \<notin> routing_names"
  "\<forall>kv \<in> set [(''WWW-Authenticate'', v)]. canon_name (fst kv) \<notin> routing_names"
  by (simp_all add: register_ok_headers_def canon_known routing_names_def)

lemma replies_frame:
  "sent s1 = sent s \<Longrightarrow> sent s2 = sent s3 \<Longrightarrow> replies s1 s3 src req \<Longrightarrow> replies s s2 src req"
  by (simp add: replies_def)

lemma register_replies:
  assumes "has_conn s"
  shows "replies s (handle_register md5hex e msg src s) src msg"
proof -
  let ?r = "\<lambda>st extra. build_response msg st extra None (gen_tag (tag_draw e))"
  let ?s' = "handle_register md5hex e msg src s"
  have reply: "replies s ?s' src msg"
    if "sent ?s' = sent s @ [(Some src, encode (?r st extra))]" "st \<in> {200, 400, 401, 403}"
      "\<forall>kv \<in> set extra. canon_name (fst kv) \<notin> routing_names" for st extra
    using that build_response_echoes [OF that(3)] unfolding replies_def by (intro exI [of _ "?r st extra"]) simp
  consider "sent ?s' = sent s @ [(Some src, encode (?r 400 []))]"
    | "sent ?s' = sent s @ [(Some src, encode (?r 401
         [(''WWW-Authenticate'', www_authenticate (domain (cfg s)) (gen_nonce (nonce_draw e)))]))]"
    | "sent ?s' = sent s @ [(Some src, encode (?r 403 []))]"
    | "sent ?s' = sent s @ [(Some src, encode (?r 200 (register_ok_headers e)))]"
    using assms unfolding handle_register_def Let_def respond_def send_wire_def
    by (cases "uri_user (get_header msg ''From'') = []"; cases "password (cfg s) = []";
        cases "get_header msg ''Authorization'' = []"; cases "get_header msg ''Expires'' = ''0''";
        cases "verify_digest md5hex (parse_auth_params (get_header msg ''Authorization'')) ''REGISTER''
          (password (cfg s))") simp_all
  then show ?thesis
  proof cases
    case 1
    then show ?thesis by (rule reply) simp_all
  next
    case 2
    then show ?thesis by (rule reply) (use ok_headers_plain in simp_all)
  next
    case 3
    then show ?thesis by (rule reply) simp_all
  next
    case 4
    then show ?thesis by (rule reply) (use ok_headers_plain in simp_all)
  qed
qed

lemma handle_replies:
  assumes "parse_message data = Inr msg" and "\<not> is_response msg" and "has_conn s"
  shows "replies s (handle_datagram md5hex parse_xml e data src s) src msg"
proof -
  have r: "replies s (respond msg src 200 [] None draw s) src msg" for draw
    by (rule respond_replies) (use assms(3) in auto)
  have m: "replies s (handle_message parse_xml e msg src s) src msg"
    unfolding handle_message_def Let_def
    by (auto simp: frame_simps intro: replies_frame [OF refl _ r] split: option.splits)
  have b: "replies s (handle_bye e msg src s) src msg"
    unfolding handle_bye_def Let_def
    by (auto simp: frame_simps intro: replies_frame [OF refl _ r] split: option.splits)
  show ?thesis
    unfolding handle_datagram_def using assms r m b register_replies [OF assms(3)] by simp
qed

text \<open>
  C16: every request, whatever its method, is answered by exactly one datagram, sent to where it
  came from; the answer is a response that carries all its Via headers in order, its From,
  Call-ID and CSeq unchanged and its To, with a tag added when it has none.
\<close>

theorem every_request_answered:
  assumes "parse_message data = Inr msg" and "\<not> is_response msg" and "has_conn s"
  shows "\<exists>r. echoes msg r \<and> status r \<in> {200, 400, 401, 403} \<and>
    sent (handle_datagram md5hex parse_xml e data src s) = sent s @ [(Some src, encode r)]"
  using handle_replies [OF assms] unfolding replies_def .

definition sample_config :: gb_config where
  "sample_config = \<lparr>enabled = True, sip_addr = [], server_id = [], domain = [],
     password = ''p'', media_ip = [], port_min = 0, port_max = 0\<rparr>"

definition sample_server :: "nat gb_server" where
  "sample_server = (new_server sample_config)\<lparr>has_conn := True\<rparr>"

definition sample_env :: gb_env where
  "sample_env = \<lparr>now = 0, date = [], tag_draw = None, nonce_draw = None\<rparr>"

theorem every_request_answered_witness:
  "\<exists>r. echoes (filled sample_bye) r \<and> status r \<in> {200, 400, 401, 403} \<and>
    sent (handle_datagram (\<lambda>s. s) (\<lambda>b. None) sample_env (encode sample_bye) 7 sample_server) =
      sent sample_server @ [(Some 7, encode r)]"
  by (rule every_request_answered [OF parse_sample_bye])
    (simp_all add: filled_def sample_bye_def sample_server_def)

section \<open>The device table\<close>

definition authorised :: "(string \<Rightarrow> string) \<Rightarrow> 'a gb_server \<Rightarrow> message \<Rightarrow> bool" where
  "authorised md5hex s msg \<longleftrightarrow> password (cfg s) = [] \<or>
     get_header msg ''Authorization'' \<noteq> [] \<and>
     verify_digest md5hex (parse_auth_params (get_header msg ''Authorization'')) ''REGISTER'' (password (cfg s))"

lemma register_devices:
  "devices (handle_register md5hex e msg src s) =
     (let i = uri_user (get_header msg ''From'') in
      if i = [] \<or> \<not> authorised md5hex s msg then devices s
      else if get_header msg ''Expires'' = ''0'' then (devices s)(i := None)
      else (devices s)(i \<mapsto> seen src (now e) (device_or_fresh s i)))"
  unfolding handle_register_def authorised_def Let_def by (simp add: frame_simps)

lemma message_devices:
  "devices (handle_message parse_xml e msg src s) =
     (case parse_xml (msg_body msg) of
        None \<Rightarrow> devices s
      | Some b \<Rightarrow>
          if cmd_type b = ''Keepalive'' then devices (touch_device (uri_user (get_header msg ''From'')) src (now e) s)
          else if cmd_type b = ''Catalog'' then devices (apply_catalog b s)
          else if cmd_type b = ''DeviceInfo'' then devices (apply_device_info b s) else devices s)"
  by (auto simp: handle_message_def Let_def frame_simps touch_device_def apply_catalog_def
      apply_device_info_def device_or_fresh_def split: option.splits)

lemma catalog_dom: "devices (apply_catalog b s) i = None \<longleftrightarrow> devices s i = None"
  "devices (apply_device_info b s) i = None \<longleftrightarrow> devices s i = None"
  by (auto simp: apply_catalog_def apply_device_info_def split: option.splits)

lemma bye_devices: "devices (handle_bye e msg src s) = devices s"
  by (simp add: handle_bye_def Let_def frame_simps close_cancel_def split: option.splits)

lemma route_devices: "devices (route_response m s) = devices s"
  by (simp add: route_response_def split: option.splits)

text \<open>
  C17: who enters and who leaves the device table.  A device appears only by a REGISTER in its
  name that passes authentication, or by a Keepalive in its name (which is not authenticated);
  it disappears only by an authenticated REGISTER that expires at once.  Catalogue and device
  information never add or remove one.
\<close>

theorem device_table:
  "(devices (handle_datagram md5hex parse_xml e data src s) i = None) \<noteq> (devices s i = None) \<Longrightarrow>
   \<exists>msg. parse_message data = Inr msg \<and> \<not> is_response msg \<and> i = uri_user (get_header msg ''From'') \<and>
     (if devices s i = None
      then sip_method msg = ''REGISTER'' \<and> authorised md5hex s msg \<or>
           sip_method msg = ''MESSAGE'' \<and>
             (\<exists>b. parse_xml (msg_body msg) = Some b \<and> cmd_type b = ''Keepalive'')
      else sip_method msg = ''REGISTER'' \<and> authorised md5hex s msg \<and> get_header msg ''Expires'' = ''0'')"
proof -
  assume ch: "(devices (handle_datagram md5hex parse_xml e data src s) i = None) \<noteq> (devices s i = None)"
  then obtain msg where p: "parse_message data = Inr msg"
    by (cases "parse_message data") (auto simp: handle_datagram_def)
  have nr: "\<not> is_response msg"
    using ch p by (auto simp: handle_datagram_def route_devices)
  consider "sip_method msg = ''REGISTER''" | "sip_method msg = ''MESSAGE''"
    using ch p nr by (auto simp: handle_datagram_def bye_devices frame_simps split: if_splits)
  then show ?thesis
  proof cases
    case 1
    then have "(devices (handle_register md5hex e msg src s) i = None) \<noteq> (devices s i = None)"
      using ch p nr by (simp add: handle_datagram_def)
    with 1 p nr show ?thesis
      unfolding register_devices Let_def by (auto split: if_splits)
  next
    case 2
    then have h: "(devices (handle_message parse_xml e msg src s) i = None) \<noteq> (devices s i = None)"
      using ch p nr by (simp add: handle_datagram_def)
    obtain b where b: "parse_xml (msg_body msg) = Some b"
      using h by (cases "parse_xml (msg_body msg)") (simp_all add: message_devices)
    have "cmd_type b = ''Keepalive''"
      using h b catalog_dom [of b s i] by (auto simp: message_devices split: if_splits)
    with 2 p nr h b show ?thesis
      by (auto simp: message_devices touch_device_def split: if_splits)
  qed
qed

definition sample_keepalive :: message where
  "sample_keepalive = \<lparr>is_response = False, sip_method = ''MESSAGE'', request_uri = ''sip:1@d'',
     status = 0, reason = [], headers = [(''From'', ''<sip:cam@d>'')], msg_body = ''k''\<rparr>"

definition keepalive_body :: gb_message where
  "keepalive_body = \<lparr>cmd_type = ''Keepalive'', body_device = ''cam'', body_name = [],
     body_manufacturer = [], body_model = [], items = []\<rparr>"

lemma parse_sample_keepalive: "parse_message (encode sample_keepalive) = Inr (filled sample_keepalive)"
proof (rule parse_encode_aux)
  have "plain_start sample_keepalive"
    by (simp add: sample_keepalive_def plain_start_def is_space_def to_upper_def char_upper_def)
  moreover have "\<forall>h \<in> set (headers sample_keepalive). plain_header h"
    by (simp add: sample_keepalive_def plain_header_def canon_known plain_text_def trimmed_def is_space_def)
  moreover have "length (encode sample_keepalive) \<le> max_udp_payload"
    by (simp add: sample_keepalive_def encode_def start_line_def header_line_def crlf_def
        max_udp_payload_def utoa.simps)
  ultimately show "plain_message sample_keepalive" by (simp add: plain_message_def)
qed

lemma keepalive_admits:
  assumes "parse_message data = Inr msg" "\<not> is_response msg" "sip_method msg = ''MESSAGE''"
    and "parse_xml (msg_body msg) = Some b" "cmd_type b = ''Keepalive''"
    and "uri_user (get_header msg ''From'') \<noteq> []"
  shows "devices (handle_datagram md5hex parse_xml e data src s) (uri_user (get_header msg ''From'')) =
    Some (seen src (now e) (device_or_fresh s (uri_user (get_header msg ''From''))))"
  using assms by (simp add: handle_datagram_def message_devices touch_device_def)

lemma sample_keepalive_from: "uri_user (get_header (filled sample_keepalive) ''From'') = ''cam''"
proof -
  have "get_header (filled sample_keepalive) ''From'' = [] @ ''<sip:'' @ ''cam'' @ ''@'' @ ''d'' @ ''>'' @ []"
    by (simp add: get_header_def canon_known filled_def sample_keepalive_def)
  then show ?thesis by (simp only:) (rule uri_user_addr, simp_all)
qed

lemma sample_devices: "devices sample_server = Map.empty"
  by (simp add: sample_server_def new_server_def Let_def)

theorem device_table_witness:
  "\<exists>msg. parse_message (encode sample_keepalive) = Inr msg \<and> \<not> is_response msg \<and>
     ''cam'' = uri_user (get_header msg ''From'') \<and>
     (if devices sample_server ''cam'' = None
      then sip_method msg = ''REGISTER'' \<and> authorised (\<lambda>s. s) sample_server msg \<or>
           sip_method msg = ''MESSAGE'' \<and>
             (\<exists>b. Some keepalive_body = Some b \<and> cmd_type b = ''Keepalive'')
      else sip_method msg = ''REGISTER'' \<and> authorised (\<lambda>s. s) sample_server msg \<and>
           get_header msg ''Expires'' = ''0'')"
proof -
  have "devices (handle_datagram (\<lambda>s. s) (\<lambda>b. Some keepalive_body) sample_env (encode sample_keepalive) 7
      sample_server) (uri_user (get_header (filled sample_keepalive) ''From'')) \<noteq> None"
    by (subst keepalive_admits [OF parse_sample_keepalive, where b = keepalive_body])
      (simp_all add: filled_def sample_keepalive_def keepalive_body_def
        sample_keepalive_from [unfolded filled_def sample_keepalive_def, simplified])
  then have "(devices (handle_datagram (\<lambda>s. s) (\<lambda>b. Some keepalive_body) sample_env
      (encode sample_keepalive) 7 sample_server) ''cam'' = None) \<noteq> (devices sample_server ''cam'' = None)"
    unfolding sample_keepalive_from by (simp add: sample_devices)
  from device_table [OF this] show ?thesis by simp
qed

section \<open>Catalogues\<close>

definition channel_map :: "channel list \<Rightarrow> string \<Rightarrow> channel option" where
  "channel_map cs = map_of (map (\<lambda>c. (ch_id c, c)) cs)"

lemma put_channel_ids:
  "map ch_id (put_channel ch cs) =
     map ch_id cs @ (if ch_id ch \<in> ch_id ` set cs then [] else [ch_id ch])"
  by (induction cs) auto

lemma put_channel_map: "channel_map (put_channel ch cs) = (channel_map cs)(ch_id ch \<mapsto> ch)"
  by (induction cs) (auto simp: channel_map_def fun_eq_iff)

lemma put_channel_distinct:
  "distinct (map ch_id cs) \<Longrightarrow> distinct (map ch_id (put_channel ch cs))"
  by (auto simp: put_channel_ids)

lemma put_channels:
  "distinct (map ch_id cs) \<Longrightarrow> distinct (map ch_id (foldl (\<lambda>cs i. put_channel (item_channel i) cs) cs is))"
  "channel_map (foldl (\<lambda>cs i. put_channel (item_channel i) cs) cs is) =
     channel_map cs ++ map_of (rev (map (\<lambda>i. (item_device i, item_channel i)) is))"
  "\<exists>new. map ch_id (foldl (\<lambda>cs i. put_channel (item_channel i) cs) cs is) = map ch_id cs @ new"
proof -
  show "distinct (map ch_id cs) \<Longrightarrow> distinct (map ch_id (foldl (\<lambda>cs i. put_channel (item_channel i) cs) cs is))"
    by (induction "is" arbitrary: cs) (simp_all add: put_channel_distinct)
  show "channel_map (foldl (\<lambda>cs i. put_channel (item_channel i) cs) cs is) =
     channel_map cs ++ map_of (rev (map (\<lambda>i. (item_device i, item_channel i)) is))"
  proof (induction "is" arbitrary: cs)
    case Nil
    then show ?case by simp
  next
    case (Cons i "is")
    have "ch_id (item_channel i) = item_device i" by (simp add: item_channel_def)
    with Cons show ?case
      by (auto simp: put_channel_map fun_eq_iff map_add_def split: option.splits)
  qed
  show "\<exists>new. map ch_id (foldl (\<lambda>cs i. put_channel (item_channel i) cs) cs is) = map ch_id cs @ new"
  proof (induction "is" arbitrary: cs)
    case Nil
    then show ?case by simp
  next
    case (Cons i "is")
    show ?case
      using Cons.IH [of "put_channel (item_channel i) cs"] by (auto simp: put_channel_ids)
  qed
qed

text \<open>
  A catalogue response is a map update.  Whatever the order and repetitions of its items and
  however often it arrives in parts, the device's channels seen as a map are overridden by the
  last item for each ID; the list keeps one entry per ID, known channels keep their places and
  new ones are appended.  A catalogue for an unknown device changes nothing.
\<close>

theorem catalog_is_update:
  "case devices s (body_device b) of
     None \<Rightarrow> apply_catalog b s = s
   | Some d \<Rightarrow>
       \<exists>d' new. devices (apply_catalog b s) = (devices s)(body_device b \<mapsto> d') \<and>
         channel_map (channels d') =
           channel_map (channels d) ++ map_of (rev (map (\<lambda>i. (item_device i, item_channel i)) (items b))) \<and>
         map ch_id (channels d') = map ch_id (channels d) @ new \<and>
         (distinct (map ch_id (channels d)) = distinct (map ch_id (channels d')))"
proof (cases "devices s (body_device b)")
  case None
  then show ?thesis by (simp add: apply_catalog_def)
next
  case (Some d)
  define cs where "cs = foldl (\<lambda>cs i. put_channel (item_channel i) cs) (channels d) (items b)"
  obtain new where "map ch_id cs = map ch_id (channels d) @ new"
    unfolding cs_def using put_channels(3) by blast
  moreover have "channel_map cs =
      channel_map (channels d) ++ map_of (rev (map (\<lambda>i. (item_device i, item_channel i)) (items b)))"
    unfolding cs_def by (rule put_channels(2))
  moreover have "distinct (map ch_id (channels d)) = distinct (map ch_id cs)"
    using put_channels(1) [of "channels d" "items b"] calculation(1) unfolding cs_def by auto
  moreover have "devices (apply_catalog b s) = (devices s)(body_device b \<mapsto> d\<lparr>channels := cs\<rparr>)"
    by (simp add: apply_catalog_def Some cs_def)
  ultimately show ?thesis
    unfolding Some option.case
    by (intro exI [of _ "d\<lparr>channels := cs\<rparr>"] exI [of _ new]) simp
qed

end
