(* ===== verification/Gb_Play.thy ===== *)
theory Gb_Play
  imports Gb_Server
begin

text \<open>
  Live sessions of the GB28181 platform (\<^verbatim>\<open>internal/gb28181/play.go\<close>): media ports, the wait for
  the answer to an INVITE, and the tables that tie the goroutine of a session to the handlers,
  as a step relation over the server's state.
\<close>

section \<open>Media ports\<close>

text \<open>\<open>next_port\<close> is one successful compare-and-swap of the cursor, an \<^verbatim>\<open>int32\<close>.\<close>

definition next_port :: "int \<Rightarrow> int \<Rightarrow> u32 \<Rightarrow> int \<times> u32" where
  "next_port lo hi old =
     (let nxt = old + 2
      in (sint old, if sint nxt > hi then word_of_int lo else nxt))"

fun open_loop :: "(int \<Rightarrow> bool) \<Rightarrow> int \<Rightarrow> int \<Rightarrow> nat \<Rightarrow> u32 \<Rightarrow> int option \<times> u32" where
  "open_loop free lo hi 0 cur = (None, cur)"
| "open_loop free lo hi (Suc n) cur =
     (let (p, cur') = next_port lo hi cur
      in if free p then (Some p, cur') else open_loop free lo hi n cur')"

definition open_media_port :: "(int \<Rightarrow> bool) \<Rightarrow> 'a gb_server \<Rightarrow> int option \<times> 'a gb_server" where
  "open_media_port free s =
     (let lo = port_min (cfg s); hi = port_max (cfg s);
          span = (if hi - lo + 1 < 1 then 1 else hi - lo + 1);
          (p, cur) = open_loop free lo hi (nat span) (media_port s)
      in (p, s\<lparr>media_port := cur\<rparr>))"

definition cursor_at :: "int \<Rightarrow> nat \<Rightarrow> u32" where
  "cursor_at lo j = word_of_int (lo + 2 * int j)"

lemma sint_cursor:
  "0 \<le> lo \<Longrightarrow> lo + 2 * int j < 2 ^ 31 \<Longrightarrow> sint (cursor_at lo j) = lo + 2 * int j"
  unfolding cursor_at_def sint_sbintrunc' by (rule signed_take_bit_int_eq_self) simp_all

lemma next_port_at:
  assumes "0 \<le> lo" "hi < 2 ^ 31 - 2" "n = nat ((hi - lo) div 2) + 1" "j < n" "lo \<le> hi"
  shows "next_port lo hi (cursor_at lo j) = (lo + 2 * int j, cursor_at lo (Suc j mod n))"
proof -
  have "int n = (hi - lo) div 2 + 1" using assms by simp
  then have b: "lo + 2 * int j \<le> hi" and e: "lo + 2 * int (Suc j) > hi \<longleftrightarrow> Suc j = n"
    using assms(4) by presburger+
  have step: "cursor_at lo j + 2 = cursor_at lo (Suc j)"
    by (simp add: cursor_at_def algebra_simps)
  have s1: "sint (cursor_at lo j) = lo + 2 * int j"
    by (rule sint_cursor) (use assms b in simp_all)
  have s2: "sint (cursor_at lo (Suc j)) = lo + 2 * int (Suc j)"
    by (rule sint_cursor) (use assms b in simp_all)
  show ?thesis
  proof (cases "Suc j = n")
    case True
    with e have "lo + 2 * int (Suc j) > hi" by simp
    moreover have "word_of_int lo = cursor_at lo (Suc j mod n)" using True by (simp add: cursor_at_def)
    ultimately show ?thesis
      unfolding next_port_def Let_def step s1 s2 by simp
  next
    case False
    then have "Suc j mod n = Suc j" using assms(4) by simp
    with False e show ?thesis
      by (simp only: next_port_def Let_def step s1 s2) simp
  qed
qed

lemma open_loop_at:
  assumes "0 \<le> lo" "hi < 2 ^ 31 - 2" "n = nat ((hi - lo) div 2) + 1" "lo \<le> hi"
  shows "j < n \<Longrightarrow>
    fst (open_loop free lo hi k (cursor_at lo j)) =
      (case [i \<leftarrow> [0..<k]. free (lo + 2 * int ((j + i) mod n))] of
         [] \<Rightarrow> None | i # _ \<Rightarrow> Some (lo + 2 * int ((j + i) mod n)))"
proof (induction k arbitrary: j)
  case 0
  then show ?case by simp
next
  case (Suc k)
  have up: "[0..<Suc k] = 0 # map Suc [0..<k]"
    by (simp add: map_Suc_upt upt_conv_Cons del: upt_Suc)
  have jm: "Suc j mod n < n" using Suc.prems by simp
  have sh: "(Suc j mod n + i) mod n = (j + Suc i) mod n" for i
    by (simp add: mod_add_left_eq)
  have np: "next_port lo hi (cursor_at lo j) = (lo + 2 * int j, cursor_at lo (Suc j mod n))"
    by (rule next_port_at [OF assms(1-3) Suc.prems assms(4)])
  show ?case
  proof (cases "free (lo + 2 * int j)")
    case True
    then show ?thesis using Suc.prems by (simp add: np up del: upt_Suc)
  next
    case False
    have "fst (open_loop free lo hi (Suc k) (cursor_at lo j)) =
        fst (open_loop free lo hi k (cursor_at lo (Suc j mod n)))"
      using False by (simp add: np)
    also have "\<dots> = (case [i \<leftarrow> [0..<k]. free (lo + 2 * int ((j + Suc i) mod n))] of
         [] \<Rightarrow> None | i # _ \<Rightarrow> Some (lo + 2 * int ((j + Suc i) mod n)))"
      unfolding Suc.IH [OF jm] sh ..
    also have "\<dots> = (case [i \<leftarrow> [0..<Suc k]. free (lo + 2 * int ((j + i) mod n))] of
         [] \<Rightarrow> None | i # _ \<Rightarrow> Some (lo + 2 * int ((j + i) mod n)))"
      using False Suc.prems unfolding up
      by (simp add: filter_map comp_def del: upt_Suc split: list.split)
    finally show ?thesis .
  qed
qed

text \<open>
  As long as one port of the configured range with the parity of its lower end is free, a
  session gets one: the first free one in the round from the cursor, inside the range and of that
  parity.  Only a fully used range makes \<open>open_media_port\<close> fail.
\<close>

theorem media_port_found:
  assumes "0 \<le> port_min (cfg s)" "port_min (cfg s) \<le> port_max (cfg s)" "port_max (cfg s) < 2 ^ 31 - 2"
    and "media_port s = cursor_at (port_min (cfg s)) j"
    and "port_min (cfg s) + 2 * int j \<le> port_max (cfg s)"
  shows "case fst (open_media_port free s) of
      None \<Rightarrow> \<forall>p. port_min (cfg s) \<le> p \<and> p \<le> port_max (cfg s) \<and>
                   even (p - port_min (cfg s)) \<longrightarrow> \<not> free p
    | Some p \<Rightarrow> free p \<and> port_min (cfg s) \<le> p \<and> p \<le> port_max (cfg s) \<and>
                 even (p - port_min (cfg s)) \<and>
                 (\<forall>q. port_min (cfg s) + 2 * int j \<le> q \<and> q < p \<and> even (q - port_min (cfg s)) \<longrightarrow> \<not> free q)"
proof -
  define lo where "lo = port_min (cfg s)"
  define hi where "hi = port_max (cfg s)"
  define n where "n = nat ((hi - lo) div 2) + 1"
  define k where "k = nat (hi - lo + 1)"
  have in': "int n = (hi - lo) div 2 + 1" using assms(2) by (simp add: n_def lo_def hi_def)
  have lh: "lo \<le> hi" "lo + 2 * int j \<le> hi" using assms(2,5) by (simp_all add: lo_def hi_def)
  have "int j \<le> (hi - lo) div 2" using lh(2) by linarith
  then have j: "j < n" using in' by linarith
  have "(hi - lo) div 2 \<le> hi - lo" using lh(1) by linarith
  then have kn: "n \<le> k" using lh(1) in' by (simp add: k_def)
  define is' where "is' = [i \<leftarrow> [0..<k]. free (lo + 2 * int ((j + i) mod n))]"
  have open': "fst (open_media_port free s) =
      (case is' of [] \<Rightarrow> None | i # _ \<Rightarrow> Some (lo + 2 * int ((j + i) mod n)))"
  proof -
    have "fst (open_media_port free s) = fst (open_loop free lo hi k (cursor_at lo j))"
      using assms(2,4) by (simp add: open_media_port_def case_prod_unfold Let_def k_def lo_def hi_def)
    also have "\<dots> = (case is' of [] \<Rightarrow> None | i # _ \<Rightarrow> Some (lo + 2 * int ((j + i) mod n)))"
      unfolding is'_def
      by (rule open_loop_at [OF _ _ n_def _ j]) (use assms(1-3) in \<open>simp_all add: lo_def hi_def\<close>)
    finally show ?thesis .
  qed
  have rng: "lo \<le> lo + 2 * int (m mod n) \<and> lo + 2 * int (m mod n) \<le> hi" for m
  proof -
    have "m mod n < n" using j by simp
    then have "int (m mod n) \<le> (hi - lo) div 2" using in' by linarith
    then show ?thesis by simp
  qed
  show ?thesis
  proof (cases is')
    case Nil
    have "\<not> free p" if p: "lo \<le> p" "p \<le> hi" "even (p - lo)" for p
    proof -
      obtain m where m: "p = lo + 2 * m" using p(3) by (metis add.commute diff_add_cancel evenE)
      then have "0 \<le> m" "nat m < n" using p in' by auto
      define i where "i = (if nat m \<ge> j then nat m - j else nat m + n - j)"
      have i: "i < n" "(j + i) mod n = nat m"
        using \<open>nat m < n\<close> j by (auto simp: i_def)
      then have "i \<in> set [0..<k]" using kn by simp
      with Nil have "\<not> free (lo + 2 * int ((j + i) mod n))"
        unfolding is'_def filter_empty_conv by blast
      then show ?thesis using i(2) m \<open>0 \<le> m\<close> by simp
    qed
    then show ?thesis using open' Nil unfolding lo_def hi_def by simp
  next
    case (Cons i r)
    have fi: "free (lo + 2 * int ((j + i) mod n))"
    proof -
      have "i \<in> set is'" using Cons by simp
      then show ?thesis unfolding is'_def by simp
    qed
    have first: "\<not> free (lo + 2 * int ((j + i') mod n))" if "i' < i" for i'
    proof -
      obtain us vs where uv: "[0..<k] = us @ i # vs"
        "\<forall>u \<in> set us. \<not> free (lo + 2 * int ((j + u) mod n))"
        using filter_eq_ConsD [OF Cons [unfolded is'_def]] by blast
      have "length us < length [0..<k]" unfolding uv(1) by simp
      then have lk: "length us < k" by simp
      then have "[0..<k] ! length us = length us" by simp
      then have "i = length us" unfolding uv(1) by simp
      moreover have "[0..<k] ! i' = i'" using lk that calculation by simp
      ultimately have "us ! i' = i'" using that unfolding uv(1) by (simp add: nth_append)
      then have "i' \<in> set us" using that \<open>i = length us\<close> by (metis nth_mem)
      then show ?thesis using uv(2) by blast
    qed
    have "\<not> free q" if q: "lo + 2 * int j \<le> q" "q < lo + 2 * int ((j + i) mod n)" "even (q - lo)" for q
    proof -
      obtain m where m: "q = lo + 2 * m" using q(3) by (metis add.commute diff_add_cancel evenE)
      then have mj: "int j \<le> m" "m < int ((j + i) mod n)" using q by simp_all
      define i' where "i' = nat m - j"
      obtain r where r: "r = (j + i) mod n" "r \<le> j + i" "r < n" using j by simp
      have "m < int r" using mj(2) r(1) by simp
      with mj(1) r(2,3) have "i' < i" "j + i' = nat m" "nat m < n"
        unfolding i'_def by linarith+
      then have "i' < i" "(j + i') mod n = nat m" by simp_all
      then show ?thesis using first [of i'] m mj by simp
    qed
    then show ?thesis using open' Cons fi rng [of "j + i"] unfolding lo_def hi_def by simp
  qed
qed

theorem media_port_found_witness:
  "case fst (open_media_port (\<lambda>p. p = 30002) (new_server \<lparr>enabled = True, sip_addr = [], server_id = [],
       domain = [], password = [], media_ip = [], port_min = 30000, port_max = 30010\<rparr> :: nat gb_server)) of
      None \<Rightarrow> False
    | Some p \<Rightarrow> p = 30002"
proof -
  define s :: "nat gb_server" where "s = new_server \<lparr>enabled = True, sip_addr = [], server_id = [],
       domain = [], password = [], media_ip = [], port_min = 30000, port_max = 30010\<rparr>"
  have c: "port_min (cfg s) = 30000" "port_max (cfg s) = 30010" "media_port s = cursor_at (port_min (cfg s)) 0"
    by (simp_all add: s_def new_server_def apply_defaults_def Let_def cursor_at_def)
  have "case fst (open_media_port (\<lambda>p. p = 30002) s) of
      None \<Rightarrow> \<forall>p. port_min (cfg s) \<le> p \<and> p \<le> port_max (cfg s) \<and>
                   even (p - port_min (cfg s)) \<longrightarrow> \<not> p = 30002
    | Some p \<Rightarrow> p = 30002 \<and> port_min (cfg s) \<le> p \<and> p \<le> port_max (cfg s) \<and>
                 even (p - port_min (cfg s)) \<and>
                 (\<forall>q. port_min (cfg s) + 2 * int 0 \<le> q \<and> q < p \<and> even (q - port_min (cfg s)) \<longrightarrow> \<not> q = 30002)"
    by (rule media_port_found) (use c in simp_all)
  then have "fst (open_media_port (\<lambda>p. p = 30002) s) = Some 30002"
    unfolding c by (cases "fst (open_media_port (\<lambda>p. p = 30002) s)") (auto dest: spec [of _ 30002])
  then show ?thesis unfolding s_def by simp
qed

section \<open>The wait for an answer\<close>

text \<open>Times are milliseconds since the INVITE was first sent.\<close>

datatype inv_event = CtxDone | Deadline | Retransmit | Reply message

datatype inv_result = Cancelled | TimedOut | Rejected int string | Accepted message

record inv_state =
  interval :: int
  due :: int
  transmissions :: "int list"

definition inv_start :: inv_state where
  "inv_start = \<lparr>interval = 500, due = 0, transmissions = []\<rparr>"

text \<open>One round of the \<open>select\<close>: a result, or the state for the next round.\<close>

fun invite_step :: "int \<Rightarrow> inv_event \<Rightarrow> inv_state \<Rightarrow> inv_result + inv_state" where
  "invite_step t CtxDone st = Inl Cancelled"
| "invite_step t Deadline st = Inl TimedOut"
| "invite_step t Retransmit st =
     Inr \<lparr>interval = (if interval st < 4000 then interval st * 2 else interval st),
          due = t + interval st, transmissions = transmissions st @ [t]\<rparr>"
| "invite_step t (Reply m) st =
     (if status m < 200 then Inr st
      else if status m \<ge> 300 then Inl (Rejected (status m) (reason m))
      else Inl (Accepted m))"

text \<open>\<open>None\<close> while the events have not decided the matter.\<close>

fun send_invite :: "(int \<times> inv_event) list \<Rightarrow> inv_state \<Rightarrow> inv_result option \<times> inv_state" where
  "send_invite [] st = (None, st)"
| "send_invite ((t, e) # es) st =
     (case invite_step t e st of Inl r \<Rightarrow> (Some r, st) | Inr st' \<Rightarrow> send_invite es st')"

text \<open>Timers do not fire early.\<close>

fun timely :: "(int \<times> inv_event) list \<Rightarrow> inv_state \<Rightarrow> bool" where
  "timely [] st = True"
| "timely ((t, e) # es) st =
     ((e = Retransmit \<longrightarrow> due st \<le> t) \<and>
      (case invite_step t e st of Inl r \<Rightarrow> True | Inr st' \<Rightarrow> timely es st'))"

definition decides :: "inv_event \<Rightarrow> inv_result option" where
  "decides e = (case e of CtxDone \<Rightarrow> Some Cancelled | Deadline \<Rightarrow> Some TimedOut | Retransmit \<Rightarrow> None
     | Reply m \<Rightarrow> if status m < 200 then None
                 else if status m \<ge> 300 then Some (Rejected (status m) (reason m))
                 else Some (Accepted m))"

definition earliest :: "nat \<Rightarrow> int" where
  "earliest k = (if k \<le> 4 then 500 * (2 ^ k - 1) else 7500 + 4000 * (int k - 4))"

definition paced :: "inv_state \<Rightarrow> bool" where
  "paced st \<longleftrightarrow> (\<forall>k < length (transmissions st). earliest k \<le> transmissions st ! k) \<and>
     earliest (length (transmissions st)) \<le> due st \<and>
     interval st = (if length (transmissions st) < 3 then 500 * 2 ^ length (transmissions st) else 4000)"

lemma earliest_step:
  "earliest (Suc k) = earliest k + (if k < 3 then 500 * 2 ^ k else 4000)"
proof -
  consider "k < 4" | "k \<ge> 4" by linarith
  then show ?thesis
  proof cases
    case 1
    then have "k = 0 \<or> k = 1 \<or> k = 2 \<or> k = 3" by linarith
    then show ?thesis by (auto simp: earliest_def)
  next
    case 2
    then show ?thesis by (cases "k = 4") (simp_all add: earliest_def)
  qed
qed

lemma paced_step:
  assumes "paced st" "e = Retransmit \<longrightarrow> due st \<le> t" "invite_step t e st = Inr st'"
  shows "paced st'"
proof (cases "e = Retransmit")
  case False
  then have "st' = st" using assms(3) by (cases e) (auto split: if_splits)
  with assms(1) show ?thesis by simp
next
  case True
  define n where "n = length (transmissions st)"
  have st': "transmissions st' = transmissions st @ [t]" "due st' = t + interval st"
    "interval st' = (if interval st < 4000 then interval st * 2 else interval st)"
    using assms(3) True by auto
  have t: "earliest n \<le> t" using assms(1,2) True by (simp add: paced_def n_def)
  have i: "interval st = (if n < 3 then 500 * 2 ^ n else 4000)"
    using assms(1) by (simp add: paced_def n_def)
  have "n = 0 \<or> n = 1 \<or> n = 2 \<or> n \<ge> 3" by linarith
  then have i': "interval st' = (if Suc n < 3 then 500 * 2 ^ Suc n else 4000)"
    using i st'(3) by auto
  have "earliest (Suc n) \<le> due st'" using t i st'(2) by (simp add: earliest_step)
  moreover have "\<forall>k < length (transmissions st'). earliest k \<le> transmissions st' ! k"
    using assms(1) t by (auto simp: paced_def st' nth_append n_def less_Suc_eq)
  ultimately show ?thesis
    unfolding paced_def using i' by (simp add: st'(1) n_def)
qed

lemma paced_send_invite:
  "paced st \<Longrightarrow> timely es st \<Longrightarrow> paced (snd (send_invite es st))"
proof (induction es st rule: send_invite.induct)
  case (1 st)
  then show ?case by simp
next
  case (2 t e es st)
  then show ?case
    using paced_step by (cases "invite_step t e st") auto
qed

lemma invite_step_decides: "(case invite_step t e st of Inl r \<Rightarrow> Some r | Inr st' \<Rightarrow> None) = decides e"
  by (cases e) (auto simp: decides_def)

lemma send_invite_result:
  "fst (send_invite es st) = (case List.map_filter (\<lambda>te. decides (snd te)) es of [] \<Rightarrow> None | r # _ \<Rightarrow> Some r)"
proof (induction es st rule: send_invite.induct)
  case (1 st)
  then show ?case by simp
next
  case (2 t e es st)
  then show ?case
    using invite_step_decides [of t e st]
    by (cases "invite_step t e st") (auto dest: sym)
qed

lemma earliest_mono: "k \<ge> 7 \<Longrightarrow> earliest k \<ge> 16000"
  by (simp add: earliest_def)



section \<open>Sessions\<close>

text \<open>What the goroutine of \<^verbatim>\<open>Play\<close> does to the shared tables, one critical section at a time.\<close>

definition play_open :: "string \<Rightarrow> 'a gb_server \<Rightarrow> 'a gb_server" where
  "play_open callid s = s\<lparr>pending := (pending s)(callid \<mapsto> [])\<rparr>"

definition play_receive :: "string \<Rightarrow> 'a gb_server \<Rightarrow> 'a gb_server" where
  "play_receive callid s =
     (case pending s callid of
        Some (m # q) \<Rightarrow> s\<lparr>pending := (pending s)(callid \<mapsto> q)\<rparr>
      | _ \<Rightarrow> s)"

definition play_session :: "string \<Rightarrow> nat \<Rightarrow> 'a gb_server \<Rightarrow> 'a gb_server" where
  "play_session callid c s = s\<lparr>sessions := (sessions s)(callid \<mapsto> c)\<rparr>"

text \<open>The deferred functions: the session goes, a BYE is sent, the inbox goes.\<close>

definition play_end_session :: "message \<Rightarrow> 'a option \<Rightarrow> string \<Rightarrow> 'a gb_server \<Rightarrow> 'a gb_server" where
  "play_end_session bye dst callid s =
     send_wire dst bye (s\<lparr>sessions := (sessions s)(callid := None)\<rparr>)"

definition play_close :: "string \<Rightarrow> 'a gb_server \<Rightarrow> 'a gb_server" where
  "play_close callid s = s\<lparr>pending := (pending s)(callid := None)\<rparr>"

text \<open>
  Any interleaving of datagrams, ticks, queries and sessions.  A session's cancel channel is
  fresh; nothing is assumed of its Call-ID, which may even collide with one in use.
\<close>

inductive gb_step :: "'a gb_server \<Rightarrow> 'a gb_server \<Rightarrow> bool" where
  datagram: "gb_step s (handle_datagram md5hex parse_xml e data src s)"
| tick: "gb_step s (expire_devices t s)"
| query: "gb_step s (query_device cmd esc outbound draws i s)"
| opened: "gb_step s (play_open callid s)"
| received: "gb_step s (play_receive callid s)"
| established: "c \<notin> closed s \<Longrightarrow> c \<notin> ran (sessions s) \<Longrightarrow> gb_step s (play_session callid c s)"
| ended: "gb_step s (play_end_session bye dst callid s)"
| finished: "gb_step s (play_close callid s)"

inductive gb_reachable :: "gb_config \<Rightarrow> 'a gb_server \<Rightarrow> bool" for c where
  initial: "gb_reachable c (new_server c)"
| step: "gb_reachable c s \<Longrightarrow> gb_step s s' \<Longrightarrow> gb_reachable c s'"

definition sessions_open :: "'a gb_server \<Rightarrow> bool" where
  "sessions_open s \<longleftrightarrow> \<not> crashed s \<and> ran (sessions s) \<inter> closed s = {} \<and>
     inj_on (sessions s) (dom (sessions s)) \<and>
     (\<forall>i q. pending s i = Some q \<longrightarrow> length q \<le> 8)"

definition same_sessions :: "'a gb_server \<Rightarrow> 'a gb_server \<Rightarrow> bool" where
  "same_sessions s s' \<longleftrightarrow> sessions s' = sessions s \<and> closed s' = closed s \<and>
     crashed s' = crashed s \<and> pending s' = pending s"

lemma sessions_open_same: "same_sessions s s' \<Longrightarrow> sessions_open s \<Longrightarrow> sessions_open s'"
  by (simp add: same_sessions_def sessions_open_def)

lemma same_respond: "same_sessions s (respond req src st extra body draw s)"
  by (simp add: same_sessions_def frame_simps)

lemma same_register: "same_sessions s (handle_register md5hex e msg src s)"
  unfolding handle_register_def Let_def by (simp add: same_sessions_def frame_simps)

lemma same_message: "same_sessions s (handle_message parse_xml e msg src s)"
  unfolding handle_message_def Let_def
  by (simp add: same_sessions_def frame_simps touch_device_def apply_catalog_def apply_device_info_def
      split: option.splits)

lemma same_query: "same_sessions s (query_device cmd esc outbound draws i s)"
  by (simp add: query_device_def send_message_request_def send_wire_def next_cseq_def same_sessions_def
      case_prod_unfold Let_def split: option.splits)

lemma inj_on_remove: "inj_on m (dom m) \<Longrightarrow> inj_on (m(i := None)) (dom (m(i := None)))"
  by (auto simp: inj_on_def dom_def)

lemma inj_on_update:
  assumes "inj_on m (dom m)" and "c \<notin> ran m"
  shows "inj_on (m(i \<mapsto> c)) (dom (m(i \<mapsto> c)))"
  using assms by (auto simp: inj_on_def ran_def)

lemma ran_remove_inj:
  assumes "inj_on m (dom m)" and "m i = Some c"
  shows "ran (m(i := None)) \<subseteq> ran m - {c}"
proof
  fix x assume "x \<in> ran (m(i := None))"
  then obtain k where "k \<noteq> i" "m k = Some x" by (auto simp: ran_def split: if_splits)
  with assms have "x \<noteq> c" by (metis domI inj_onD)
  with \<open>m k = Some x\<close> show "x \<in> ran m - {c}" by (auto intro: ranI)
qed

lemma open_bye:
  assumes "sessions_open s"
  shows "sessions_open (handle_bye e msg src s)"
proof (cases "sessions s (call_id msg)")
  case None
  then show ?thesis
    using assms by (simp add: handle_bye_def frame_simps Let_def sessions_open_def)
next
  case (Some c)
  have inj: "inj_on (sessions s) (dom (sessions s))" using assms by (simp add: sessions_open_def)
  have "c \<in> ran (sessions s)" using Some by (rule ranI)
  then have "c \<notin> closed s" using assms by (auto simp: sessions_open_def)
  with Some have eqs: "sessions (handle_bye e msg src s) = (sessions s)(call_id msg := None)"
    "closed (handle_bye e msg src s) = insert c (closed s)"
    "crashed (handle_bye e msg src s) = crashed s" "pending (handle_bye e msg src s) = pending s"
    by (simp_all add: handle_bye_def frame_simps Let_def close_cancel_def)
  show ?thesis
    using assms ran_remove_inj [OF inj Some] inj_on_remove [OF inj, of "call_id msg"]
    unfolding sessions_open_def eqs by blast
qed

lemma open_route: "sessions_open s \<Longrightarrow> sessions_open (route_response m s)"
  by (auto simp: route_response_def sessions_open_def split: option.splits)

lemma ran_remove: "ran (m(i := None)) \<subseteq> ran m"
  by (auto simp: ran_def)

lemma open_step:
  assumes "gb_step s s'" and "sessions_open s"
  shows "sessions_open s'"
  using assms(1)
proof cases
  case (datagram md5hex parse_xml e data src)
  then show ?thesis
    using assms(2) open_bye open_route sessions_open_same [OF same_register]
      sessions_open_same [OF same_message] sessions_open_same [OF same_respond]
    by (auto simp: handle_datagram_def split: sum.splits)
next
  case (tick t)
  then show ?thesis using assms(2) by (simp add: expire_devices_def sessions_open_def)
next
  case (query cmd esc outbound draws i)
  then show ?thesis using assms(2) sessions_open_same [OF same_query] by blast
next
  case (opened callid)
  then show ?thesis using assms(2) by (simp add: play_open_def sessions_open_def)
next
  case (received callid)
  then show ?thesis
    using assms(2) by (fastforce simp: play_receive_def sessions_open_def split: option.splits list.splits)
next
  case (established c callid)
  have "ran ((sessions s)(callid \<mapsto> c)) \<subseteq> insert c (ran (sessions s))" by (auto simp: ran_def)
  moreover have "inj_on ((sessions s)(callid \<mapsto> c)) (dom ((sessions s)(callid \<mapsto> c)))"
    using assms(2) established by (intro inj_on_update) (simp_all add: sessions_open_def)
  ultimately show ?thesis
    using assms(2) established by (auto simp: play_session_def sessions_open_def)
next
  case (ended bye dst callid)
  have "inj_on ((sessions s)(callid := None)) (dom ((sessions s)(callid := None)))"
    using assms(2) by (intro inj_on_remove) (simp add: sessions_open_def)
  then show ?thesis
    using assms(2) ended ran_remove [of "sessions s" callid]
    by (auto simp: play_end_session_def send_wire_def sessions_open_def)
next
  case (finished callid)
  then show ?thesis using assms(2) by (simp add: play_close_def sessions_open_def)
qed

lemma open_reachable: "gb_reachable c s \<Longrightarrow> sessions_open s"
proof (induction rule: gb_reachable.induct)
  case initial
  show ?case by (simp add: sessions_open_def new_server_def Let_def)
next
  case (step s s')
  then show ?case using open_step by blast
qed

text \<open>
  C21: however datagrams and sessions interleave, and even when Call-IDs collide, no cancel
  channel is ever closed twice, every session in the table has an open channel, and no inbox
  outgrows its capacity.  A BYE that names a session of the table closes its channel and takes
  the entry out, so the session's goroutine stops.
\<close>

theorem sessions_never_crash:
  "gb_reachable c s \<Longrightarrow>
     \<not> crashed s \<and> ran (sessions s) \<inter> closed s = {} \<and>
     (\<forall>i q. pending s i = Some q \<longrightarrow> length q \<le> 8) \<and>
     (\<forall>e msg src ch. sessions s (call_id msg) = Some ch \<longrightarrow>
        ch \<in> closed (handle_bye e msg src s) \<and> sessions (handle_bye e msg src s) (call_id msg) = None \<and>
        \<not> crashed (handle_bye e msg src s))"
proof -
  assume "gb_reachable c s"
  then have o: "sessions_open s" by (rule open_reachable)
  have "ch \<in> closed (handle_bye e msg src s)" "sessions (handle_bye e msg src s) (call_id msg) = None"
    if "sessions s (call_id msg) = Some ch" for e msg src ch
    using that by (simp_all add: handle_bye_def frame_simps Let_def close_cancel_def)
  moreover have "\<not> crashed (handle_bye e msg src s)" for e msg src
    using open_bye [OF o] by (simp add: sessions_open_def)
  ultimately show ?thesis using o unfolding sessions_open_def by blast
qed

theorem sessions_never_crash_witness:
  "\<not> crashed (play_session ''7'' 3 (new_server sample_config) :: nat gb_server) \<and>
   3 \<in> closed (handle_bye sample_env (filled sample_bye) (7 :: nat) (play_session ''7'' 3 (new_server sample_config)))"
proof -
  let ?s = "play_session ''7'' 3 (new_server sample_config) :: nat gb_server"
  have "gb_step (new_server sample_config) ?s"
    by (rule established) (simp_all add: new_server_def Let_def)
  with gb_reachable.initial have "gb_reachable sample_config ?s" by (rule gb_reachable.step)
  moreover have "sessions ?s (call_id (filled sample_bye)) = Some 3"
    by (simp add: play_session_def call_id_def get_header_def canon_known filled_def sample_bye_def)
  ultimately show ?thesis using sessions_never_crash by blast
qed

end
