(* ===== verification/Recording_Store.thy ===== *)
theory Recording_Store
  imports Prelude
begin

text \<open>
  The table of recordings (\<^verbatim>\<open>internal/database/recording_store.go\<close>).  Each statement the code
  sends to SQLite is written out over the list of rows; times are milliseconds.  \<open>ORDER BY\<close> is
  a stable sort, so rows with equal start times come in the order of the table.
\<close>

record recording =
  rec_id :: string
  camera_id :: string
  path :: string
  start_time :: int
  end_time :: int
  duration_ms :: int
  size_bytes :: int
  complete :: bool
  uploaded :: bool
  s3_key :: string
  local_removed :: bool
  encrypted :: bool
  created_at :: int

type_synonym rec_table = "recording list"

definition update_row :: "string \<Rightarrow> (recording \<Rightarrow> recording) \<Rightarrow> rec_table \<Rightarrow> rec_table" where
  "update_row i f rows = map (\<lambda>r. if rec_id r = i then f r else r) rows"

text \<open>The identifier is the primary key: inserting it twice is an error.\<close>

definition create_rec :: "int \<Rightarrow> recording \<Rightarrow> rec_table \<Rightarrow> rec_table option" where
  "create_rec t r rows =
     (if \<exists>q \<in> set rows. rec_id q = rec_id r then None
      else Some (rows @ [if created_at r = 0 then r\<lparr>created_at := t\<rparr> else r]))"

definition finalize_rec :: "string \<Rightarrow> int \<Rightarrow> int \<Rightarrow> int \<Rightarrow> rec_table \<Rightarrow> rec_table" where
  "finalize_rec i t d sz rows =
     update_row i (\<lambda>r. r\<lparr>end_time := t, duration_ms := d, size_bytes := sz, complete := True\<rparr>) rows"

definition mark_uploaded :: "string \<Rightarrow> string \<Rightarrow> bool \<Rightarrow> rec_table \<Rightarrow> rec_table" where
  "mark_uploaded i key enc rows =
     update_row i (\<lambda>r. r\<lparr>uploaded := True, s3_key := key, encrypted := enc\<rparr>) rows"

definition mark_local_removed :: "string \<Rightarrow> rec_table \<Rightarrow> rec_table" where
  "mark_local_removed i rows = update_row i (\<lambda>r. r\<lparr>local_removed := True\<rparr>) rows"

definition get_rec :: "string \<Rightarrow> rec_table \<Rightarrow> recording option" where
  "get_rec i rows = List.find (\<lambda>r. rec_id r = i) rows"

definition delete_rec :: "string \<Rightarrow> rec_table \<Rightarrow> rec_table" where
  "delete_rec i rows = filter (\<lambda>r. rec_id r \<noteq> i) rows"

record rec_filter =
  f_camera :: string
  f_from :: "int option"
  f_to :: "int option"
  f_limit :: int
  f_offset :: int

definition list_recs :: "rec_filter \<Rightarrow> rec_table \<Rightarrow> recording list" where
  "list_recs f rows =
     (let hits = filter (\<lambda>r. (f_camera f \<noteq> [] \<longrightarrow> camera_id r = f_camera f) \<and>
                   (case f_from f of None \<Rightarrow> True | Some t \<Rightarrow> t \<le> start_time r) \<and>
                   (case f_to f of None \<Rightarrow> True | Some t \<Rightarrow> start_time r \<le> t)) rows;
          sorted = sort_key (\<lambda>r. - start_time r) hits
      in if f_limit f > 0
         then take (nat (f_limit f)) (if f_offset f > 0 then drop (nat (f_offset f)) sorted else sorted)
         else sorted)"

definition list_overlapping :: "string list \<Rightarrow> int \<Rightarrow> int \<Rightarrow> rec_table \<Rightarrow> recording list" where
  "list_overlapping ids lo hi rows =
     sort_key start_time
       (filter (\<lambda>r. start_time r \<le> hi \<and> (\<not> complete r \<or> lo \<le> end_time r) \<and>
                   (ids \<noteq> [] \<longrightarrow> camera_id r \<in> set ids)) rows)"

text \<open>A negative limit is no limit in SQLite.\<close>

definition sql_limit :: "int \<Rightarrow> 'a list \<Rightarrow> 'a list" where
  "sql_limit n xs = (if n < 0 then xs else take (nat n) xs)"

definition pending_uploads :: "int \<Rightarrow> rec_table \<Rightarrow> recording list" where
  "pending_uploads n rows =
     sql_limit n (sort_key start_time (filter (\<lambda>r. complete r \<and> \<not> uploaded r) rows))"

definition deletable :: "bool \<Rightarrow> recording \<Rightarrow> bool" where
  "deletable only_uploaded r \<longleftrightarrow> complete r \<and> \<not> local_removed r \<and> (only_uploaded \<longrightarrow> uploaded r)"

definition oldest_complete :: "int \<Rightarrow> bool \<Rightarrow> rec_table \<Rightarrow> recording list" where
  "oldest_complete n only_uploaded rows =
     sql_limit n (sort_key start_time (filter (deletable only_uploaded) rows))"

definition total_size :: "rec_table \<Rightarrow> int" where
  "total_size rows = sum_list (map size_bytes (filter (\<lambda>r. complete r \<and> \<not> local_removed r) rows))"

section \<open>Laws\<close>

lemma deletable_update_id:
  "map rec_id (update_row i f rows) = map rec_id rows" if "\<And>r. rec_id (f r) = rec_id r"
  using that by (simp add: update_row_def)

lemma oldest_complete_sub: "set (oldest_complete n u rows) \<subseteq> {r \<in> set rows. deletable u r}"
  by (auto simp: oldest_complete_def sql_limit_def dest: in_set_takeD)

lemma oldest_complete_one:
  "oldest_complete 1 u rows = [] \<longleftrightarrow> (\<forall>r \<in> set rows. \<not> deletable u r)"
proof -
  have "oldest_complete 1 u rows = [] \<longleftrightarrow> sort_key start_time (filter (deletable u) rows) = []"
    by (simp add: oldest_complete_def sql_limit_def)
  also have "\<dots> \<longleftrightarrow> filter (deletable u) rows = []"
    by (metis length_0_conv length_sort)
  finally show ?thesis by (simp add: filter_empty_conv)
qed

lemma oldest_complete_least:
  assumes "oldest_complete 1 u rows = r # rs" and "q \<in> set rows" and "deletable u q"
  shows "start_time r \<le> start_time q"
proof -
  define xs where "xs = sort_key start_time (filter (deletable u) rows)"
  have "take 1 xs = r # rs"
    using assms(1) by (simp add: oldest_complete_def sql_limit_def xs_def)
  then have "xs \<noteq> []" "hd xs = r" by (cases xs; simp)+
  moreover have "q \<in> set xs" using assms(2,3) by (simp add: xs_def)
  moreover have "sorted (map start_time xs)" by (simp add: xs_def)
  ultimately show ?thesis by (cases xs) auto
qed

lemma length_filter_less:
  "x \<in> set xs \<Longrightarrow> P x \<Longrightarrow> \<not> Q x \<Longrightarrow> (\<And>y. Q y \<Longrightarrow> P y) \<Longrightarrow>
     length (filter Q xs) < length (filter P xs)"
proof (induction xs)
  case Nil
  then show ?case by simp
next
  case (Cons y ys)
  have le: "length (filter Q ys) \<le> length (filter P ys)"
    using Cons.prems(4) by (induction ys) auto
  show ?case using Cons le by (cases "x = y") auto
qed

lemma delete_shrinks:
  assumes "r \<in> set rows" "deletable u r"
  shows "length (filter (deletable u) (delete_rec (rec_id r) rows)) < length (filter (deletable u) rows)"
proof -
  have "filter (deletable u) (delete_rec (rec_id r) rows) = filter (\<lambda>q. deletable u q \<and> rec_id q \<noteq> rec_id r) rows"
    by (simp add: delete_rec_def conj_commute)
  then show ?thesis
    using length_filter_less [of r rows "deletable u" "\<lambda>q. deletable u q \<and> rec_id q \<noteq> rec_id r"] assms
    by simp
qed

lemma mark_shrinks:
  assumes "r \<in> set rows" "deletable u r"
  shows "length (filter (deletable u) (mark_local_removed (rec_id r) rows)) < length (filter (deletable u) rows)"
proof -
  have "filter (deletable u) (mark_local_removed (rec_id r) rows) =
      map (\<lambda>q. if rec_id q = rec_id r then q\<lparr>local_removed := True\<rparr> else q)
        (filter (\<lambda>q. deletable u q \<and> rec_id q \<noteq> rec_id r) rows)"
    by (induction rows) (auto simp: mark_local_removed_def update_row_def deletable_def)
  then show ?thesis
    using length_filter_less [of r rows "deletable u" "\<lambda>q. deletable u q \<and> rec_id q \<noteq> rec_id r"] assms
    by simp
qed

section \<open>The deletion queue\<close>

text \<open>
  Retention sees the table as a queue: the deletable rows, oldest first.  Freeing a row either
  marks it (it is archived) or deletes it.
\<close>

definition queue :: "bool \<Rightarrow> rec_table \<Rightarrow> recording list" where
  "queue u rows = sort_key start_time (filter (deletable u) rows)"

definition free_row :: "bool \<Rightarrow> rec_table \<Rightarrow> recording \<Rightarrow> rec_table" where
  "free_row s3 rows r =
     (if s3 \<and> uploaded r \<and> s3_key r \<noteq> [] then mark_local_removed (rec_id r) rows
      else delete_rec (rec_id r) rows)"

definition frees :: "bool \<Rightarrow> bool \<Rightarrow> nat \<Rightarrow> rec_table \<Rightarrow> rec_table" where
  "frees u s3 k rows = foldl (free_row s3) rows (take k (queue u rows))"

definition distinct_ids :: "rec_table \<Rightarrow> bool" where
  "distinct_ids rows \<longleftrightarrow> distinct (map rec_id rows)"

lemma set_queue: "set (queue u rows) = {r \<in> set rows. deletable u r}"
  by (auto simp: queue_def)

lemma distinct_ids_free: "distinct_ids rows \<Longrightarrow> distinct_ids (free_row s3 rows r)"
  by (auto simp: distinct_ids_def free_row_def mark_local_removed_def delete_rec_def
      deletable_update_id distinct_map_filter)

lemma filter_free:
  "filter (deletable u) (free_row s3 rows r) = filter (\<lambda>q. rec_id q \<noteq> rec_id r) (filter (deletable u) rows)"
proof (cases "s3 \<and> uploaded r \<and> s3_key r \<noteq> []")
  case True
  then show ?thesis
    by (induction rows) (auto simp: free_row_def mark_local_removed_def update_row_def deletable_def)
next
  case False
  then show ?thesis
    by (auto simp: free_row_def delete_rec_def intro: filter_cong)
qed

lemma queue_free:
  assumes "distinct_ids rows" and "queue u rows = r # q"
  shows "queue u (free_row s3 rows r) = q"
proof -
  have "queue u (free_row s3 rows r) = filter (\<lambda>q. rec_id q \<noteq> rec_id r) (queue u rows)"
    unfolding queue_def filter_free filter_sort ..
  moreover have "distinct (map rec_id (queue u rows))"
  proof -
    have "mset (map rec_id (queue u rows)) = mset (map rec_id (filter (deletable u) rows))"
      by (simp add: queue_def)
    then show ?thesis
      using assms(1) by (metis distinct_ids_def distinct_map_filter mset_eq_imp_distinct_iff)
  qed
  ultimately show ?thesis
    using assms(2) by (auto intro!: filter_True) (metis imageI)
qed

lemma frees_Suc:
  "queue u rows = r # q \<Longrightarrow> distinct_ids rows \<Longrightarrow>
     frees u s3 (Suc k) rows = frees u s3 k (free_row s3 rows r)"
  by (simp add: frees_def queue_free)

lemma frees_0 [simp]: "frees u s3 0 rows = rows"
  by (simp add: frees_def)

lemma frees_Nil: "queue u rows = [] \<Longrightarrow> frees u s3 k rows = rows"
  by (simp add: frees_def)

lemma distinct_ids_frees: "distinct_ids rows \<Longrightarrow> distinct_ids (frees u s3 k rows)"
proof (induction k arbitrary: rows)
  case 0
  then show ?case by simp
next
  case (Suc k)
  then show ?case
    by (cases "queue u rows") (simp_all add: frees_Nil frees_Suc distinct_ids_free)
qed

lemma queue_frees: "distinct_ids rows \<Longrightarrow> queue u (frees u s3 k rows) = drop k (queue u rows)"
proof (induction k arbitrary: rows)
  case 0
  then show ?case by simp
next
  case (Suc k)
  show ?case
  proof (cases "queue u rows")
    case Nil
    then show ?thesis by (simp add: frees_Nil)
  next
    case (Cons r q)
    then have "queue u (frees u s3 (Suc k) rows) = drop k (queue u (free_row s3 rows r))"
      using Suc by (simp add: frees_Suc distinct_ids_free)
    with Cons show ?thesis using Suc.prems by (simp add: queue_free)
  qed
qed

lemma frees_add: "distinct_ids rows \<Longrightarrow> frees u s3 j (frees u s3 k rows) = frees u s3 (k + j) rows"
proof (induction k arbitrary: rows)
  case 0
  then show ?case by simp
next
  case (Suc k)
  then show ?case
    by (cases "queue u rows") (simp_all add: frees_Nil frees_Suc distinct_ids_free)
qed

section \<open>What freeing preserves\<close>

definition removed :: "recording \<Rightarrow> recording" where
  "removed r = r\<lparr>local_removed := True\<rparr>"

definition spares :: "bool \<Rightarrow> bool \<Rightarrow> rec_table \<Rightarrow> rec_table \<Rightarrow> bool" where
  "spares u s3 rows rows' \<longleftrightarrow>
     (\<forall>r \<in> set rows. \<not> deletable u r \<longrightarrow> r \<in> set rows') \<and>
     (\<forall>r \<in> set rows. s3 \<and> uploaded r \<and> s3_key r \<noteq> [] \<longrightarrow>
        r \<in> set rows' \<or> removed r \<in> set rows') \<and>
     (\<forall>r' \<in> set rows'. \<exists>r \<in> set rows. r' = r \<or> r' = removed r)"

lemma spares_refl: "spares u s3 rows rows"
  by (auto simp: spares_def)

lemma removed_removed: "removed (removed r) = removed r"
  by (simp add: removed_def)

lemma not_deletable_removed: "\<not> deletable u (removed r)"
  by (simp add: deletable_def removed_def)

lemma spares_origin:
  "spares u s3 rows rows' \<Longrightarrow> r' \<in> set rows' \<Longrightarrow> \<exists>r \<in> set rows. r' = r \<or> r' = removed r"
  by (simp add: spares_def)

lemma spares_trans:
  assumes "spares u s3 a b" and "spares u s3 b c"
  shows "spares u s3 a c"
  unfolding spares_def
proof (intro conjI ballI impI)
  fix r assume "r \<in> set a" "\<not> deletable u r"
  then show "r \<in> set c" using assms unfolding spares_def by blast
next
  fix r assume r: "r \<in> set a" "s3 \<and> uploaded r \<and> s3_key r \<noteq> []"
  then have "r \<in> set b \<or> removed r \<in> set b"
    using assms(1) unfolding spares_def by blast
  then show "r \<in> set c \<or> removed r \<in> set c"
    using assms(2) r(2) not_deletable_removed unfolding spares_def by blast
next
  fix r assume "r \<in> set c"
  from spares_origin [OF assms(2) this]
  obtain q where q: "q \<in> set b" "r = q \<or> r = removed q" by (elim bexE)
  from spares_origin [OF assms(1) q(1)]
  obtain p where p: "p \<in> set a" "q = p \<or> q = removed p" by (elim bexE)
  have "r = p \<or> r = removed p" using q(2) p(2) removed_removed by metis
  with p(1) show "\<exists>p \<in> set a. r = p \<or> r = removed p" by blast
qed

lemma same_id: "distinct_ids rows \<Longrightarrow> r \<in> set rows \<Longrightarrow> q \<in> set rows \<Longrightarrow> rec_id q = rec_id r \<Longrightarrow> q = r"
  by (auto simp: distinct_ids_def distinct_map inj_on_def)

lemma spares_free:
  assumes "distinct_ids rows" and "r \<in> set rows" and "deletable u r"
  shows "spares u s3 rows (free_row s3 rows r)"
proof (cases "s3 \<and> uploaded r \<and> s3_key r \<noteq> []")
  case True
  then have f: "set (free_row s3 rows r) =
      (\<lambda>q. if rec_id q = rec_id r then removed q else q) ` set rows"
    by (simp add: free_row_def mark_local_removed_def update_row_def removed_def)
  show ?thesis
    unfolding spares_def f
  proof (intro conjI ballI impI)
    fix q assume q: "q \<in> set rows" "\<not> deletable u q"
    then have "rec_id q \<noteq> rec_id r" using same_id [OF assms(1,2)] assms(3) by blast
    with q(1) show "q \<in> (\<lambda>q. if rec_id q = rec_id r then removed q else q) ` set rows"
      by (auto intro: image_eqI [of _ _ q])
  next
    fix q assume "q \<in> set rows"
    then show "q \<in> (\<lambda>q. if rec_id q = rec_id r then removed q else q) ` set rows \<or>
        removed q \<in> (\<lambda>q. if rec_id q = rec_id r then removed q else q) ` set rows"
      by (cases "rec_id q = rec_id r") (auto intro: image_eqI [of _ _ q])
  next
    fix q assume "q \<in> (\<lambda>q. if rec_id q = rec_id r then removed q else q) ` set rows"
    then show "\<exists>r \<in> set rows. q = r \<or> q = removed r" by auto
  qed
next
  case False
  then have f: "set (free_row s3 rows r) = {q \<in> set rows. rec_id q \<noteq> rec_id r}"
    by (auto simp: free_row_def delete_rec_def)
  show ?thesis
    unfolding spares_def f using same_id [OF assms(1,2)] assms(3) False by auto
qed

lemma spares_frees: "distinct_ids rows \<Longrightarrow> spares u s3 rows (frees u s3 k rows)"
proof (induction k arbitrary: rows)
  case 0
  then show ?case by (simp add: spares_refl)
next
  case (Suc k)
  show ?case
  proof (cases "queue u rows")
    case Nil
    then show ?thesis by (simp add: frees_Nil spares_refl)
  next
    case (Cons r q)
    then have "r \<in> set rows \<and> deletable u r" using set_queue [of u rows] by auto
    then show ?thesis
      using Suc spares_free [OF Suc.prems] spares_trans
      unfolding frees_Suc [OF Cons Suc.prems] by (meson distinct_ids_free)
  qed
qed

lemma total_free:
  assumes "\<forall>r \<in> set rows. 0 \<le> size_bytes r"
  shows "total_size (free_row s3 rows r) \<le> total_size rows"
proof -
  have t: "total_size xs = sum_list (map size_bytes (filter (deletable False) xs))" for xs
    by (simp add: total_size_def deletable_def cong: filter_cong)
  have "sum_list (map size_bytes (filter P xs)) \<le> sum_list (map size_bytes xs)"
    if "\<forall>r \<in> set xs. 0 \<le> size_bytes r" for P xs
    using that by (induction xs) auto
  then show ?thesis
    unfolding t filter_free using assms by (metis (no_types, lifting) filter_is_subset subsetD)
qed

lemma total_frees:
  "\<forall>r \<in> set rows. 0 \<le> size_bytes r \<Longrightarrow> distinct_ids rows \<Longrightarrow> total_size (frees u s3 k rows) \<le> total_size rows"
proof (induction k arbitrary: rows)
  case 0
  then show ?case by simp
next
  case (Suc k)
  show ?case
  proof (cases "queue u rows")
    case Nil
    then show ?thesis by (simp add: frees_Nil)
  next
    case (Cons r q)
    have "\<forall>q \<in> set (free_row s3 rows r). 0 \<le> size_bytes q"
      using Suc.prems(1) by (auto simp: free_row_def mark_local_removed_def update_row_def delete_rec_def)
    then have "total_size (frees u s3 (Suc k) rows) \<le> total_size (free_row s3 rows r)"
      using Suc by (simp add: frees_Suc [OF Cons] distinct_ids_free)
    also have "\<dots> \<le> total_size rows" by (rule total_free [OF Suc.prems(1)])
    finally show ?thesis .
  qed
qed

end
