(* ===== verification/Rec_Retention.thy ===== *)
theory Rec_Retention
  imports Complex_Main Recording_Store
begin

text \<open>
  Rolling deletion (\<^verbatim>\<open>internal/recording/retention.go\<close>).  The worker is written over the
  interface it is given: a record of operations on a state, each of which may fail.  The locale
  states what the worker needs of them, and the recordings table with its disk provides it.
\<close>

section \<open>The interface\<close>

text \<open>\<open>None\<close> and \<open>False\<close> are errors.  \<open>op_remove\<close> is the removal of a file, for which a missing
  file is no error; \<open>op_free\<close> is the free space of the disk.\<close>

record 's store_ops =
  op_oldest :: "int \<Rightarrow> bool \<Rightarrow> 's \<Rightarrow> recording list option \<times> 's"
  op_total :: "'s \<Rightarrow> int option \<times> 's"
  op_delete :: "string \<Rightarrow> 's \<Rightarrow> bool \<times> 's"
  op_mark :: "string \<Rightarrow> 's \<Rightarrow> bool \<times> 's"
  op_remove :: "string \<Rightarrow> 's \<Rightarrow> bool \<times> 's"
  op_free :: "'s \<Rightarrow> int option \<times> 's"

record policy =
  pol_enabled :: bool
  max_age_days :: int
  max_total_gb :: rat
  min_free_gb :: rat
  delete_after_upload :: bool

definition gib_bytes :: "rat \<Rightarrow> int" where
  "gib_bytes x = \<lfloor>x * 1073741824\<rfloor>"

text \<open>\<open>delete\<close> of one recording; \<open>False\<close> is an error.\<close>

definition delete_one :: "'s store_ops \<Rightarrow> bool \<Rightarrow> recording \<Rightarrow> 's \<Rightarrow> bool \<times> 's" where
  "delete_one ops s3 r s =
     (let (ok, s1) = op_remove ops (path r) s
      in if \<not> ok then (False, s1)
         else if s3 \<and> uploaded r \<and> s3_key r \<noteq> [] then op_mark ops (rec_id r) s1
         else op_delete ops (rec_id r) s1)"

text \<open>The result of a pass: how many went, and whether it ended without an error.\<close>

partial_function (option) delete_until ::
  "'s store_ops \<Rightarrow> bool \<Rightarrow> bool \<Rightarrow> ('s \<Rightarrow> bool option \<times> 's) \<Rightarrow> nat \<Rightarrow> 's \<Rightarrow>
   ((nat \<times> bool) \<times> 's) option" where
  "delete_until ops up s3 need n s =
     (case need s of (b, s1) \<Rightarrow>
        (case b of
           None \<Rightarrow> Some ((n, False), s1)
         | Some over \<Rightarrow>
             if \<not> over then Some ((n, True), s1)
             else (case op_oldest ops 1 up s1 of (res, s2) \<Rightarrow>
                     (case res of
                        None \<Rightarrow> Some ((n, False), s2)
                      | Some rs \<Rightarrow>
                          (case rs of
                             [] \<Rightarrow> Some ((n, True), s2)
                           | r # _ \<Rightarrow>
                               (case delete_one ops s3 r s2 of (ok, s4) \<Rightarrow>
                                  if \<not> ok then Some ((n, False), s4)
                                  else delete_until ops up s3 need (n + 1) s4))))))"

fun delete_aged ::
  "'s store_ops \<Rightarrow> bool \<Rightarrow> int \<Rightarrow> recording list \<Rightarrow> nat \<Rightarrow> 's \<Rightarrow> (nat \<times> bool) \<times> 's" where
  "delete_aged ops s3 cutoff [] n s = ((n, True), s)"
| "delete_aged ops s3 cutoff (r # rs) n s =
     (if start_time r > cutoff then ((n, True), s)
      else case delete_one ops s3 r s of
             (False, s1) \<Rightarrow> ((n, False), s1)
           | (True, s1) \<Rightarrow> delete_aged ops s3 cutoff rs (n + 1) s1)"

definition over_total :: "'s store_ops \<Rightarrow> int \<Rightarrow> 's \<Rightarrow> bool option \<times> 's" where
  "over_total ops limit s = (let (t, s1) = op_total ops s in (map_option (\<lambda>x. x > limit) t, s1))"

definition under_floor :: "'s store_ops \<Rightarrow> int \<Rightarrow> 's \<Rightarrow> bool option \<times> 's" where
  "under_floor ops least s = (let (f, s1) = op_free ops s in (map_option (\<lambda>x. x < least) f, s1))"

text \<open>The three parts of \<^verbatim>\<open>Enforce\<close>; the cutoff is what \<^verbatim>\<open>AddDate\<close> makes of the age limit.\<close>

definition enforce_age :: "'s store_ops \<Rightarrow> policy \<Rightarrow> bool \<Rightarrow> int \<Rightarrow> 's \<Rightarrow> (nat \<times> bool) \<times> 's" where
  "enforce_age ops p s3 cutoff s =
     (if max_age_days p > 0
      then (case op_oldest ops 10000 (delete_after_upload p \<and> s3) s of
              (None, s1) \<Rightarrow> ((0, False), s1)
            | (Some rs, s1) \<Rightarrow> delete_aged ops s3 cutoff rs 0 s1)
      else ((0, True), s))"

definition enforce_rest ::
  "'s store_ops \<Rightarrow> bool \<Rightarrow> bool \<Rightarrow> bool \<Rightarrow> ('s \<Rightarrow> bool option \<times> 's) \<Rightarrow> (nat \<times> bool) \<times> 's \<Rightarrow>
   ((nat \<times> bool) \<times> 's) option" where
  "enforce_rest ops active up s3 need r =
     (if \<not> snd (fst r) \<or> \<not> active then Some r
      else case delete_until ops up s3 need 0 (snd r) of
             None \<Rightarrow> None
           | Some ((n, ok), s1) \<Rightarrow>
               Some ((if ok then fst (fst r) + n else fst (fst r), ok), s1))"

definition enforce ::
  "'s store_ops \<Rightarrow> policy \<Rightarrow> bool \<Rightarrow> int \<Rightarrow> 's \<Rightarrow> ((nat \<times> bool) \<times> 's) option" where
  "enforce ops p s3 cutoff s =
     (let up = delete_after_upload p \<and> s3 in
      Option.bind
        (enforce_rest ops (max_total_gb p > 0) up s3 (over_total ops (gib_bytes (max_total_gb p)))
           (enforce_age ops p s3 cutoff s))
        (enforce_rest ops (min_free_gb p > 0) up s3 (under_floor ops (gib_bytes (min_free_gb p)))))"

section \<open>What the worker needs of the store\<close>

locale retention_store =
  fixes ops :: "'s store_ops"
    and rows_of :: "'s \<Rightarrow> recording list"
  assumes oldest_rows: "op_oldest ops n u s = (res, s') \<Longrightarrow> rows_of s' = rows_of s"
    and oldest_hits: "op_oldest ops n u s = (Some rs, s') \<Longrightarrow> rs = oldest_complete n u (rows_of s)"
    and total_rows: "op_total ops s = (amount, s') \<Longrightarrow> rows_of s' = rows_of s"
    and total_val: "op_total ops s = (Some t, s') \<Longrightarrow> t = total_size (rows_of s)"
    and free_rows: "op_free ops s = (amount, s') \<Longrightarrow> rows_of s' = rows_of s"
    and remove_rows: "op_remove ops p s = (ok, s') \<Longrightarrow> rows_of s' = rows_of s"
    and delete_rows: "op_delete ops i s = (ok, s') \<Longrightarrow>
      rows_of s' = (if ok then delete_rec i (rows_of s) else rows_of s)"
    and mark_rows: "op_mark ops i s = (ok, s') \<Longrightarrow>
      rows_of s' = (if ok then mark_local_removed i (rows_of s) else rows_of s)"
begin

lemma delete_one_rows:
  assumes "delete_one ops s3 r s = (ok, s')"
  shows "rows_of s' = (if \<not> ok then rows_of s
     else if s3 \<and> uploaded r \<and> s3_key r \<noteq> [] then mark_local_removed (rec_id r) (rows_of s)
     else delete_rec (rec_id r) (rows_of s))"
proof -
  obtain ok1 s1 where rm: "op_remove ops (path r) s = (ok1, s1)" by fastforce
  show ?thesis
    using assms remove_rows [OF rm] mark_rows delete_rows
    by (auto simp: delete_one_def rm split: if_splits)
qed

definition quiet :: "('s \<Rightarrow> bool option \<times> 's) \<Rightarrow> bool" where
  "quiet need \<longleftrightarrow> (\<forall>s. rows_of (snd (need s)) = rows_of s)"

lemma quiet_over: "quiet (over_total ops l)"
  by (auto simp: quiet_def over_total_def Let_def split: prod.splits dest: total_rows)

lemma quiet_under: "quiet (under_floor ops l)"
  by (auto simp: quiet_def under_floor_def Let_def split: prod.splits dest: free_rows)

text \<open>Every step of the loop uses up a deletable row.\<close>

lemma delete_one_shrinks:
  assumes "delete_one ops s3 r s = (True, s')" "r \<in> set (rows_of s)" "deletable u r"
  shows "length (filter (deletable u) (rows_of s')) < length (filter (deletable u) (rows_of s))"
  using delete_one_rows [OF assms(1)] assms(2,3)
  by (auto simp: delete_shrinks mark_shrinks)

lemma delete_until_terminates:
  assumes "quiet need"
  shows "delete_until ops u s3 need n s \<noteq> None"
proof (induction "length (filter (deletable u) (rows_of s))" arbitrary: n s rule: less_induct)
  case less
  obtain b s1 where nd: "need s = (b, s1)" by fastforce
  have r1: "rows_of s1 = rows_of s" using assms nd unfolding quiet_def by (metis snd_conv)
  obtain res s2 where od: "op_oldest ops 1 u s1 = (res, s2)" by fastforce
  have r2: "rows_of s2 = rows_of s" using oldest_rows [OF od] r1 by simp
  show ?case
  proof (cases "b = Some True \<and> (\<exists>r rs. res = Some (r # rs))")
    case False
    then show ?thesis
      by (subst delete_until.simps)
        (auto simp: nd od split: option.splits bool.splits list.splits)
  next
    case True
    then obtain r rs where b: "b = Some True" "res = Some (r # rs)" by blast
    obtain ok s3' where dl: "delete_one ops s3 r s2 = (ok, s3')" by fastforce
    show ?thesis
    proof (cases ok)
      case False
      then show ?thesis by (subst delete_until.simps) (simp add: nd od b dl)
    next
      case True
      have "r # rs = oldest_complete 1 u (rows_of s1)" using oldest_hits od b by blast
      then have "r \<in> set (oldest_complete 1 u (rows_of s1))" by (metis list.set_intros(1))
      then have "r \<in> set (rows_of s2) \<and> deletable u r"
        using oldest_complete_sub [of 1 u "rows_of s1"] r1 r2 by auto
      then have "length (filter (deletable u) (rows_of s3')) < length (filter (deletable u) (rows_of s2))"
        using delete_one_shrinks [of s3 r s2 s3' u] dl True by simp
      then have "delete_until ops u s3 need (n + 1) s3' \<noteq> None"
        using less [of s3' "n + 1"] r2 by auto
      then show ?thesis by (subst delete_until.simps) (simp add: nd od b dl True)
    qed
  qed
qed

lemma enforce_terminates: "enforce ops p s3 cutoff s \<noteq> None"
proof -
  have r: "enforce_rest ops a u s3 need x \<noteq> None" if q: "quiet need" for a u need x
  proof -
    obtain m ok1 s1 where x: "x = ((m, ok1), s1)" by (metis prod.collapse)
    obtain k ok2 s2 where "delete_until ops u s3 need 0 s1 = Some ((k, ok2), s2)"
      using delete_until_terminates [OF q, of u s3 0 s1] by auto
    then show ?thesis by (simp add: enforce_rest_def x)
  qed
  show ?thesis
    using r [OF quiet_over] r [OF quiet_under] by (auto simp: enforce_def Let_def bind_eq_None_conv)
qed

lemma delete_one_frees:
  "delete_one ops s3 r s = (ok, s') \<Longrightarrow>
     rows_of s' = (if ok then free_row s3 (rows_of s) r else rows_of s)"
  using delete_one_rows by (simp add: free_row_def)

lemma delete_aged_frees:
  assumes "delete_aged ops s3 cutoff rs n s = ((n', ok), s')"
    and "rs = take m (queue u (rows_of s))" and "distinct_ids (rows_of s)"
  shows "\<exists>k \<le> length rs. rows_of s' = frees u s3 k (rows_of s) \<and> n' = n + k \<and>
           (ok \<longrightarrow> k = length rs \<or> k < length rs \<and> start_time (rs ! k) > cutoff)"
  using assms
proof (induction rs arbitrary: n s m)
  case Nil
  then show ?case by simp
next
  case (Cons r rs)
  obtain q m' where q: "queue u (rows_of s) = r # q" "m = Suc m'" "rs = take m' q"
    using Cons.prems(2) by (cases "queue u (rows_of s)"; cases m) auto
  obtain ok1 s1 where d: "delete_one ops s3 r s = (ok1, s1)" by fastforce
  consider "start_time r > cutoff" | "start_time r \<le> cutoff" "\<not> ok1" | "start_time r \<le> cutoff" ok1
    by linarith
  then show ?case
  proof cases
    case 1
    with Cons.prems(1) show ?thesis by (intro exI [of _ 0]) auto
  next
    case 2
    with Cons.prems(1) d show ?thesis
      using delete_one_frees [OF d] by (intro exI [of _ 0]) auto
  next
    case 3
    have r1: "rows_of s1 = free_row s3 (rows_of s) r" using delete_one_frees [OF d] 3 by simp
    have "rs = take m' (queue u (rows_of s1))"
      unfolding r1 queue_free [OF Cons.prems(3) q(1)] by (rule q(3))
    moreover have "delete_aged ops s3 cutoff rs (n + 1) s1 = ((n', ok), s')"
      using Cons.prems(1) 3 d by simp
    ultimately obtain k where k: "k \<le> length rs" "rows_of s' = frees u s3 k (rows_of s1)" "n' = n + 1 + k"
      "ok \<longrightarrow> k = length rs \<or> k < length rs \<and> start_time (rs ! k) > cutoff"
      using Cons.IH [of "n + 1" s1 m'] distinct_ids_free [OF Cons.prems(3)] r1 by metis
    then show ?thesis
      using frees_Suc [OF q(1) Cons.prems(3), of s3 k] r1 by (intro exI [of _ "Suc k"]) auto
  qed
qed

lemma delete_until_frees:
  assumes "quiet need" and "delete_until ops u s3 need n s = Some ((n', ok), s')"
    and "distinct_ids (rows_of s)"
  shows "\<exists>k. rows_of s' = frees u s3 k (rows_of s) \<and> n' = n + k \<and>
           (ok \<longrightarrow> queue u (rows_of s') = [] \<or> (\<exists>s0. need s0 = (Some False, s')))"
  using assms(2,3)
proof (induction "length (queue u (rows_of s))" arbitrary: n s rule: less_induct)
  case less
  obtain b s1 where nd: "need s = (b, s1)" by fastforce
  have r1: "rows_of s1 = rows_of s" using assms(1) nd unfolding quiet_def by (metis snd_conv)
  obtain res s2 where od: "op_oldest ops 1 u s1 = (res, s2)" by fastforce
  have r2: "rows_of s2 = rows_of s" using oldest_rows [OF od] r1 by simp
  note unf = less.prems(1) [unfolded delete_until.simps [of ops u s3 need n s] nd od]
  have one: "rs = take 1 (queue u (rows_of s))" if "res = Some rs" for rs
    using oldest_hits [OF od [unfolded that]] r1 by (simp add: oldest_complete_def sql_limit_def queue_def)
  consider "b = None" | "b = Some False" | "b = Some True" "res = None" | "b = Some True" "res = Some []"
    | r rs where "b = Some True" "res = Some (r # rs)"
    by (cases b; cases res) (auto, metis list.exhaust)
  then show ?case
  proof cases
    case 1
    with unf r1 show ?thesis by (intro exI [of _ 0]) simp
  next
    case 2
    with unf r1 nd show ?thesis by (intro exI [of _ 0]) auto
  next
    case 3
    with unf od r2 show ?thesis by (intro exI [of _ 0]) simp
  next
    case 4
    then have "queue u (rows_of s) = []" using one by fastforce
    with 4 unf od r2 show ?thesis by (intro exI [of _ 0]) simp
  next
    case 5
    obtain q where q: "queue u (rows_of s) = r # q"
      using one [OF 5(2)] by (cases "queue u (rows_of s)") auto
    obtain ok1 s4 where d: "delete_one ops s3 r s2 = (ok1, s4)" by fastforce
    show ?thesis
    proof (cases ok1)
      case False
      then show ?thesis
        using unf od 5 d delete_one_frees [OF d] r2 by (intro exI [of _ 0]) simp
    next
      case True
      have r4: "rows_of s4 = free_row s3 (rows_of s) r" using delete_one_frees [OF d] True r2 by simp
      have "delete_until ops u s3 need (n + 1) s4 = Some ((n', ok), s')"
        using unf od 5 d True by simp
      moreover have "length (queue u (rows_of s4)) < length (queue u (rows_of s))"
        unfolding r4 queue_free [OF less.prems(2) q] q by simp
      ultimately obtain k where k: "rows_of s' = frees u s3 k (rows_of s4)" "n' = n + 1 + k"
        "ok \<longrightarrow> queue u (rows_of s') = [] \<or> (\<exists>s0. need s0 = (Some False, s'))"
        using less.hyps [of s4 "n + 1"] distinct_ids_free [OF less.prems(2)] r4 by metis
      then show ?thesis
        using frees_Suc [OF q less.prems(2), of s3 k] r4 by (intro exI [of _ "Suc k"]) simp
    qed
  qed
qed

lemma enforce_rest_frees:
  assumes "quiet need" and "enforce_rest ops active u s3 need ((n, ok), s) = Some ((n', ok'), s')"
    and "distinct_ids (rows_of s)"
  shows "\<exists>k. rows_of s' = frees u s3 k (rows_of s) \<and> n \<le> n' \<and> n' \<le> n + k \<and>
     (ok' \<longrightarrow> ok \<and> n' = n + k \<and>
       (active \<longrightarrow> queue u (rows_of s') = [] \<or> (\<exists>s0. need s0 = (Some False, s'))))"
proof (cases "\<not> ok \<or> \<not> active")
  case True
  with assms(2) show ?thesis by (intro exI [of _ 0]) (auto simp: enforce_rest_def)
next
  case False
  obtain m ok1 s1 where d1: "delete_until ops u s3 need 0 s = Some ((m, ok1), s1)"
    using delete_until_terminates [OF assms(1), of u s3 0 s] by auto
  with assms(2) False have "s1 = s'" and e: "n' = (if ok1 then n + m else n)" "ok' = ok1"
    by (auto simp: enforce_rest_def)
  with d1 have d: "delete_until ops u s3 need 0 s = Some ((m, ok1), s')" by simp
  from delete_until_frees [OF assms(1) d assms(3)] e False show ?thesis by auto
qed

lemma enforce_age_frees:
  assumes "enforce_age ops p s3 cutoff s = ((n, ok), s')" and "distinct_ids (rows_of s)"
  defines "u \<equiv> delete_after_upload p \<and> s3"
  shows "rows_of s' = frees u s3 n (rows_of s) \<and>
     (ok \<and> max_age_days p > 0 \<and> length (queue u (rows_of s)) \<le> 10000 \<longrightarrow>
        (\<forall>r \<in> set (queue u (rows_of s')). start_time r > cutoff))"
proof (cases "max_age_days p > 0")
  case False
  with assms(1) show ?thesis by (simp add: enforce_age_def)
next
  case True
  obtain res s1 where od: "op_oldest ops 10000 u s = (res, s1)" by fastforce
  have r1: "rows_of s1 = rows_of s" by (rule oldest_rows [OF od])
  show ?thesis
  proof (cases res)
    case None
    with True assms(1) od r1 show ?thesis by (simp add: enforce_age_def u_def)
  next
    case (Some rs)
    have rs: "rs = take 10000 (queue u (rows_of s1))"
      using oldest_hits [OF od [unfolded Some]] r1 by (simp add: oldest_complete_def sql_limit_def queue_def)
    have da: "delete_aged ops s3 cutoff rs 0 s1 = ((n, ok), s')"
      using True assms(1) od Some by (simp add: enforce_age_def u_def)
    from delete_aged_frees [OF da rs] assms(2) r1
    obtain k where k: "k \<le> length rs" "rows_of s' = frees u s3 k (rows_of s)" "n = k"
      "ok \<longrightarrow> k = length rs \<or> k < length rs \<and> start_time (rs ! k) > cutoff" by auto
    have qs: "queue u (rows_of s') = drop k (queue u (rows_of s))"
      unfolding k(2) by (rule queue_frees [OF assms(2)])
    have "\<forall>r \<in> set (queue u (rows_of s')). start_time r > cutoff"
      if ok "length (queue u (rows_of s)) \<le> 10000"
    proof -
      have rq: "rs = queue u (rows_of s)" using rs r1 that(2) by simp
      have so: "sorted (map start_time rs)" unfolding rq queue_def by simp
      show ?thesis
      proof
        fix r assume "r \<in> set (queue u (rows_of s'))"
        then obtain j where j: "j < length (drop k rs)" "drop k rs ! j = r"
          unfolding qs rq by (metis in_set_conv_nth)
        then have kj: "k + j < length rs" "rs ! (k + j) = r" by simp_all
        then have c: "start_time (rs ! k) > cutoff" using k(4) that(1) by auto
        have "map start_time rs ! k \<le> map start_time rs ! (k + j)"
          using so kj(1) by (intro sorted_nth_mono) simp_all
        with c kj show "start_time r > cutoff" by simp
      qed
    qed
    with k(2,3) show ?thesis by blast
  qed
qed

text \<open>A pass takes a prefix off the deletion queue.\<close>

lemma enforce_frees:
  assumes "enforce ops p s3 cutoff s = Some ((n, ok), s')" and "distinct_ids (rows_of s)"
  defines "u \<equiv> delete_after_upload p \<and> s3"
  shows "\<exists>k. rows_of s' = frees u s3 k (rows_of s) \<and> n \<le> k \<and>
    (ok \<longrightarrow> n = k \<and>
      (max_age_days p > 0 \<and> length (queue u (rows_of s)) \<le> 10000 \<longrightarrow>
         (\<forall>r \<in> set (queue u (rows_of s')). start_time r > cutoff)) \<and>
      (max_total_gb p > 0 \<and> (\<forall>r \<in> set (rows_of s). 0 \<le> size_bytes r) \<longrightarrow>
         queue u (rows_of s') = [] \<or> total_size (rows_of s') \<le> gib_bytes (max_total_gb p)))"
proof -
  obtain n1 ok1 s1 where a: "enforce_age ops p s3 cutoff s = ((n1, ok1), s1)" by (metis prod.collapse)
  obtain n2 ok2 s2 where b: "enforce_rest ops (max_total_gb p > 0) u s3
      (over_total ops (gib_bytes (max_total_gb p))) ((n1, ok1), s1) = Some ((n2, ok2), s2)"
    and c: "enforce_rest ops (min_free_gb p > 0) u s3
      (under_floor ops (gib_bytes (min_free_gb p))) ((n2, ok2), s2) = Some ((n, ok), s')"
    using assms(1) unfolding enforce_def Let_def u_def a by (auto simp: bind_eq_Some_conv)
  have d0: "distinct_ids (rows_of s)" by (rule assms(2))
  note ag = enforce_age_frees [OF a d0, folded u_def]
  then have d1: "distinct_ids (rows_of s1)" using distinct_ids_frees [OF d0] by metis
  obtain k2 where k2: "rows_of s2 = frees u s3 k2 (rows_of s1)" "n1 \<le> n2" "n2 \<le> n1 + k2"
    "ok2 \<longrightarrow> ok1 \<and> n2 = n1 + k2 \<and> (max_total_gb p > 0 \<longrightarrow> queue u (rows_of s2) = [] \<or>
       (\<exists>s0. over_total ops (gib_bytes (max_total_gb p)) s0 = (Some False, s2)))"
    using enforce_rest_frees [OF quiet_over b d1] by auto
  have d2: "distinct_ids (rows_of s2)" unfolding k2(1) by (rule distinct_ids_frees [OF d1])
  obtain k3 where k3: "rows_of s' = frees u s3 k3 (rows_of s2)" "n2 \<le> n" "n \<le> n2 + k3"
    "ok \<longrightarrow> ok2 \<and> n = n2 + k3"
    using enforce_rest_frees [OF quiet_under c d2] by auto
  have s2: "rows_of s2 = frees u s3 (n1 + k2) (rows_of s)"
    using ag k2(1) frees_add [OF d0] by metis
  have all: "rows_of s' = frees u s3 (n1 + k2 + k3) (rows_of s)"
    unfolding k3(1) s2 by (rule frees_add [OF d0])
  have q1: "queue u (rows_of s') = drop (k2 + k3) (queue u (rows_of s1))"
    unfolding k3(1) k2(1) frees_add [OF d1] by (rule queue_frees [OF d1])
  have q2: "queue u (rows_of s') = drop k3 (queue u (rows_of s2))"
    unfolding k3(1) by (rule queue_frees [OF d2])
  have "total_size (rows_of s') \<le> gib_bytes (max_total_gb p)"
    if "over_total ops (gib_bytes (max_total_gb p)) s0 = (Some False, s2)"
      "\<forall>r \<in> set (rows_of s). 0 \<le> size_bytes r" for s0
  proof -
    obtain am s5 where op: "op_total ops s0 = (am, s5)" by fastforce
    with that(1) obtain t where "op_total ops s0 = (Some t, s2)" "\<not> t > gib_bytes (max_total_gb p)"
      by (cases am) (auto simp: over_total_def)
    then have t: "total_size (rows_of s2) \<le> gib_bytes (max_total_gb p)"
      using total_val total_rows by fastforce
    have "\<forall>r \<in> set (rows_of s2). 0 \<le> size_bytes r"
    proof
      fix r assume "r \<in> set (rows_of s2)"
      then obtain q where "q \<in> set (rows_of s)" "r = q \<or> r = removed q"
        using spares_frees [OF d0, of u s3 "n1 + k2"] unfolding s2 by (metis spares_origin)
      with that(2) show "0 \<le> size_bytes r" by (auto simp: removed_def)
    qed
    from total_frees [OF this d2, of u s3 k3] t k3(1) show ?thesis by simp
  qed
  moreover have "r \<in> set (queue u (rows_of s'))" if "r \<in> set (queue u (rows_of s'))" for r
    by (rule that)
  moreover have "set (queue u (rows_of s')) \<subseteq> set (queue u (rows_of s1))"
    unfolding q1 by (rule set_drop_subset)
  moreover have "n \<le> n1 + k2 + k3" using k2(3) k3(3) by linarith
  moreover have "queue u (rows_of s') = []" if "queue u (rows_of s2) = []" using q2 that by simp
  ultimately show ?thesis
    using all k2(4) k3(4) ag by (intro exI [of _ "n1 + k2 + k3"]) auto
qed

end

section \<open>The database and the disk\<close>

text \<open>
  The worker's surroundings: the table, the files, the files that cannot be removed, and a
  schedule of database failures (the \<open>n\<close>-th statement fails when \<open>fault n\<close>).  \<open>usage\<close> is the
  free space as a function of the moment and the files, \<open>None\<close> when the call fails.
\<close>

record world =
  rows :: rec_table
  files :: "string set"
  stuck :: "string set"
  fault :: "nat \<Rightarrow> bool"
  usage :: "nat \<Rightarrow> string set \<Rightarrow> int option"
  ticks :: nat

definition tick :: "world \<Rightarrow> world" where
  "tick w = w\<lparr>ticks := ticks w + 1\<rparr>"

definition db_query :: "(rec_table \<Rightarrow> 'a) \<Rightarrow> world \<Rightarrow> 'a option \<times> world" where
  "db_query q w = (if fault w (ticks w) then None else Some (q (rows w)), tick w)"

definition db_exec :: "(rec_table \<Rightarrow> rec_table) \<Rightarrow> world \<Rightarrow> bool \<times> world" where
  "db_exec f w = (if fault w (ticks w) then (False, tick w) else (True, tick (w\<lparr>rows := f (rows w)\<rparr>)))"

definition remove_file :: "string \<Rightarrow> world \<Rightarrow> bool \<times> world" where
  "remove_file p w =
     (if p \<in> files w \<and> p \<in> stuck w then (False, w) else (True, w\<lparr>files := files w - {p}\<rparr>))"

definition disk_free :: "world \<Rightarrow> int option \<times> world" where
  "disk_free w = (usage w (ticks w) (files w), tick w)"

definition world_ops :: "world store_ops" where
  "world_ops = \<lparr>op_oldest = (\<lambda>n u. db_query (oldest_complete n u)), op_total = db_query total_size,
     op_delete = (\<lambda>i. db_exec (delete_rec i)), op_mark = (\<lambda>i. db_exec (mark_local_removed i)),
     op_remove = remove_file, op_free = disk_free\<rparr>"

interpretation rs: retention_store world_ops rows
  by unfold_locales
    (auto simp: world_ops_def db_query_def db_exec_def remove_file_def disk_free_def tick_def
      split: if_splits)

text \<open>
  A retention pass always comes to an end, however the database fails, whatever files cannot
  be removed and whatever the disk reports: even with a free-space floor that is never reached the
  loop stops when nothing is left that it may delete.
\<close>

theorem retention_terminates: "enforce world_ops p s3 cutoff w \<noteq> None"
  by (rule rs.enforce_terminates)



definition sample_row :: "string \<Rightarrow> int \<Rightarrow> bool \<Rightarrow> bool \<Rightarrow> recording" where
  "sample_row i t c up = \<lparr>rec_id = i, camera_id = ''c'', path = i, start_time = t, end_time = t + 1,
     duration_ms = 1, size_bytes = 1073741824, complete = c, uploaded = up,
     s3_key = (if up then ''k'' else []), local_removed = False, encrypted = False, created_at = t\<rparr>"

definition sample_world :: world where
  "sample_world = \<lparr>rows = [sample_row ''a'' 5 True False, sample_row ''b'' 3 True True, sample_row ''c'' 1 False False],
     files = {''a'', ''b'', ''c''}, stuck = {}, fault = (\<lambda>n. False), usage = (\<lambda>n fs. Some 0), ticks = 0\<rparr>"

definition sample_policy :: policy where
  "sample_policy = \<lparr>pol_enabled = True, max_age_days = 1, max_total_gb = 1, min_free_gb = 0,
     delete_after_upload = False\<rparr>"

definition sample_after :: world where
  "sample_after = sample_world\<lparr>rows := [sample_row ''a'' 5 True False,
       (sample_row ''b'' 3 True True)\<lparr>local_removed := True\<rparr>, sample_row ''c'' 1 False False],
     files := {''a'', ''c''}, ticks := 3\<rparr>"

lemma sample_age:
  "enforce_age world_ops sample_policy True 4 sample_world =
     ((1, True), sample_after\<lparr>ticks := 2\<rparr>)"
proof -
  have f: "{''a'', ''b'', ''c''} - {''b''} = {''a'', ''c''}" by auto
  have q: "oldest_complete 10000 False (rows sample_world) = [sample_row ''b'' 3 True True, sample_row ''a'' 5 True False]"
    by (simp add: sample_world_def oldest_complete_def sql_limit_def deletable_def sample_row_def)
  have m: "mark_local_removed ''b'' (rows sample_world) = rows sample_after"
    by (simp add: sample_after_def sample_world_def mark_local_removed_def update_row_def sample_row_def)
  have p: "path (sample_row ''b'' 3 True True) = ''b''" "rec_id (sample_row ''b'' 3 True True) = ''b''"
    "uploaded (sample_row ''b'' 3 True True)" "s3_key (sample_row ''b'' 3 True True) \<noteq> []"
    "start_time (sample_row ''b'' 3 True True) = 3" "start_time (sample_row ''a'' 5 True False) = 5"
    by (simp_all add: sample_row_def)
  show ?thesis
    using q m
    by (simp add: enforce_age_def sample_policy_def world_ops_def db_query_def db_exec_def tick_def
        remove_file_def delete_one_def p) (simp add: sample_after_def sample_world_def f)
qed

lemma sample_total: "over_total world_ops (gib_bytes 1) (sample_after\<lparr>ticks := 2\<rparr>) = (Some False, sample_after)"
proof -
  have "total_size (rows sample_after) = 1073741824"
    by (simp add: total_size_def sample_after_def sample_row_def)
  then show ?thesis
    by (simp add: over_total_def world_ops_def db_query_def tick_def gib_bytes_def)
      (simp add: sample_after_def sample_world_def)
qed

lemma sample_run: "enforce world_ops sample_policy True 4 sample_world = Some ((1, True), sample_after)"
proof -
  have "delete_until world_ops False True (over_total world_ops (gib_bytes 1)) 0 (sample_after\<lparr>ticks := 2\<rparr>) =
      Some ((0, True), sample_after)"
    by (subst delete_until.simps) (simp add: sample_total)
  moreover have "delete_after_upload sample_policy = False" "max_total_gb sample_policy = 1" "min_free_gb sample_policy = 0"
    by (simp_all add: sample_policy_def)
  ultimately show ?thesis
    by (simp add: enforce_def sample_age enforce_rest_def)
qed

lemma sample_distinct: "distinct_ids (rows sample_world)"
  by (simp add: distinct_ids_def sample_world_def sample_row_def)



end
