(* ===== verification/Rec_Naming.thy ===== *)
theory Rec_Naming
  imports GoStrings
begin

text \<open>
  The path of a recording (\<^verbatim>\<open>internal/recording/naming.go\<close>): expansion of the user's template
  and its confinement below the recordings root.  The local date and time come in as their
  components.  \<open>replace_all\<close> and \<open>clean_rooted\<close> are \<^verbatim>\<open>strings.Replacer\<close> and \<^verbatim>\<open>filepath.Clean\<close> of
  a rooted slash-separated path.
\<close>

record local_time =
  year :: nat
  month :: nat
  day :: nat
  hour :: nat
  minute :: nat
  second :: nat
  unix :: int

definition safe_char :: "char \<Rightarrow> bool" where
  "safe_char c = (let n = of_char c :: nat in
     97 \<le> n \<and> n \<le> 122 \<or> 65 \<le> n \<and> n \<le> 90 \<or> 48 \<le> n \<and> n \<le> 57 \<or>
     c = CHR ''-'' \<or> c = CHR ''_'' \<or> c = CHR ''.'')"

definition sanitize :: "string \<Rightarrow> string" where
  "sanitize s =
     (if s = [] then ''unnamed''
      else (let b = concat (map (\<lambda>c. if safe_char c then [c]
                                    else if c = CHR '' '' then ''_'' else []) s);
                out = trim_by (\<lambda>c. c = CHR ''.'') b
            in if out = [] then ''unnamed'' else out))"

definition pad_left :: "nat \<Rightarrow> nat \<Rightarrow> string" where
  "pad_left w n = replicate (w - length (utoa n)) (CHR ''0'') @ utoa n"

text \<open>
  At every position the first pattern in argument order that matches is replaced.  The second
  argument counts the characters of a replaced pattern that are still to be skipped.
\<close>

fun first_match :: "(string \<times> string) list \<Rightarrow> string \<Rightarrow> (string \<times> string) option" where
  "first_match [] s = None"
| "first_match (p # ps) s = (if has_prefix s (fst p) then Some p else first_match ps s)"

fun replace_all :: "(string \<times> string) list \<Rightarrow> nat \<Rightarrow> string \<Rightarrow> string" where
  "replace_all ps k [] = []"
| "replace_all ps (Suc k) (c # cs) = replace_all ps k cs"
| "replace_all ps 0 (c # cs) =
     (case first_match ps (c # cs) of
        Some (old, new) \<Rightarrow> new @ replace_all ps (length old - 1) cs
      | None \<Rightarrow> c # replace_all ps 0 cs)"

text \<open>Components of a rooted path: empty and dot ones go, a double dot takes its parent along.\<close>

fun clean_parts :: "string list \<Rightarrow> string list \<Rightarrow> string list" where
  "clean_parts [] acc = rev acc"
| "clean_parts (p # ps) acc =
     (if p = [] \<or> p = ''.'' then clean_parts ps acc
      else if p = ''..'' then clean_parts ps (tl acc)
      else clean_parts ps (p # acc))"

definition clean_rooted :: "string \<Rightarrow> string" where
  "clean_rooted s = CHR ''/'' # join_with ''/'' (clean_parts (split_on (CHR ''/'') s) [])"

definition has_suffix :: "string \<Rightarrow> string \<Rightarrow> bool" where
  "has_suffix s p \<longleftrightarrow> length p \<le> length s \<and> drop (length s - length p) s = p"

definition default_template :: string where
  "default_template =
     ''{camera}/{year}-{month}-{day}/{camera}_{year}{month}{day}_{hour}{minute}{second}.mp4''"

definition tokens :: "string \<Rightarrow> string \<Rightarrow> local_time \<Rightarrow> (string \<times> string) list" where
  "tokens camera_id camera_name t =
     [(''{camera}'', sanitize camera_name), (''{camera_id}'', sanitize camera_id),
      (''{year}'', pad_left 4 (year t)), (''{month}'', pad_left 2 (month t)),
      (''{day}'', pad_left 2 (day t)), (''{hour}'', pad_left 2 (hour t)),
      (''{minute}'', pad_left 2 (minute t)), (''{second}'', pad_left 2 (second t)),
      (''{unix}'', itoa (unix t))]"

definition render_path :: "string \<Rightarrow> string \<Rightarrow> string \<Rightarrow> local_time \<Rightarrow> string" where
  "render_path template camera_id camera_name t =
     (let tpl = (if template = [] then default_template else template);
          out = replace_all (tokens camera_id camera_name t) 0 tpl;
          out1 = trim_prefix (clean_rooted (CHR ''/'' # out)) ''/''
      in if has_suffix (to_lower out1) ''.mp4'' then out1 else out1 @ ''.mp4'')"

definition proper :: "string \<Rightarrow> bool" where
  "proper p \<longleftrightarrow> p \<noteq> [] \<and> p \<noteq> ''.'' \<and> p \<noteq> ''..'' \<and> CHR ''/'' \<notin> set p"

lemma clean_parts_proper:
  "\<forall>p \<in> set ps. CHR ''/'' \<notin> set p \<Longrightarrow> \<forall>p \<in> set acc. proper p \<Longrightarrow>
     \<forall>p \<in> set (clean_parts ps acc). proper p"
proof (induction ps arbitrary: acc)
  case Nil
  then show ?case by simp
next
  case (Cons p ps)
  consider "p = [] \<or> p = ''.''" | "p = ''..''" | "proper p"
    using Cons.prems(1) by (auto simp: proper_def)
  then show ?case
  proof cases
    case 1
    then have "clean_parts (p # ps) acc = clean_parts ps acc" by auto
    with Cons show ?thesis by simp
  next
    case 2
    have "\<forall>q \<in> set (tl acc). proper q" using Cons.prems(2) by (cases acc) simp_all
    moreover have "clean_parts (p # ps) acc = clean_parts ps (tl acc)" using 2 by simp
    ultimately show ?thesis using Cons by simp
  next
    case 3
    have acc: "\<forall>q \<in> set (p # acc). proper q" using Cons.prems(2) 3 by simp
    have ps: "\<forall>q \<in> set ps. CHR ''/'' \<notin> set q" using Cons.prems(1) by simp
    have "p \<noteq> []" "p \<noteq> ''.''" "p \<noteq> ''..''" using 3 unfolding proper_def by blast+
    then have "clean_parts (p # ps) acc = clean_parts ps (p # acc)"
      by (simp only: clean_parts.simps simp_thms if_False)
    with Cons.IH [OF ps acc] show ?thesis by (simp only:)
  qed
qed

lemma split_join:
  "\<forall>p \<in> set ps. c \<notin> set p \<Longrightarrow> ps \<noteq> [] \<Longrightarrow> split_on c (join_with [c] ps) = ps"
proof (induction ps rule: induct_list012)
  case (2 x)
  then show ?case by (simp add: split_on_free)
next
  case (3 x y zs)
  then show ?case by (simp add: split_on_append)
qed simp

lemma join_append_last:
  "ps \<noteq> [] \<Longrightarrow> join_with sep ps @ e = join_with sep (butlast ps @ [last ps @ e])"
proof (induction ps rule: induct_list012)
  case (3 x y zs)
  then show ?case by (cases zs) auto
qed auto

lemma proper_extended: "proper p \<Longrightarrow> proper (p @ ''.mp4'')"
  by (cases p) (auto simp: proper_def)

lemma join_proper:
  assumes "\<forall>p \<in> set ps. proper p"
  shows "\<forall>p \<in> set (split_on (CHR ''/'') (join_with ''/'' ps @ ''.mp4'')). proper p"
    and "ps \<noteq> [] \<Longrightarrow> split_on (CHR ''/'') (join_with ''/'' ps) = ps"
proof -
  have free: "\<forall>p \<in> set qs. CHR ''/'' \<notin> set p" if "\<forall>p \<in> set qs. proper p" for qs
    using that by (simp add: proper_def)
  show "split_on (CHR ''/'') (join_with ''/'' ps) = ps" if "ps \<noteq> []"
    using that by (intro split_join free assms)
  show "\<forall>p \<in> set (split_on (CHR ''/'') (join_with ''/'' ps @ ''.mp4'')). proper p"
  proof (cases "ps = []")
    case True
    then show ?thesis by (simp add: proper_def)
  next
    case False
    define qs where "qs = butlast ps @ [last ps @ ''.mp4'']"
    have q: "\<forall>p \<in> set qs. proper p"
      using assms False proper_extended [of "last ps"] by (auto simp: qs_def dest: in_set_butlastD)
    have "qs \<noteq> []" by (simp add: qs_def)
    then have "split_on (CHR ''/'') (join_with ''/'' qs) = qs" by (intro split_join free q)
    with q show ?thesis unfolding join_append_last [OF False] qs_def by simp
  qed
qed

lemma render_path_shape:
  "list_all proper (split_on (CHR ''/'') (render_path template camera_id camera_name t)) \<and>
   has_suffix (to_lower (render_path template camera_id camera_name t)) ''.mp4''"
proof -
  define out where "out = replace_all (tokens camera_id camera_name t) 0
    (if template = [] then default_template else template)"
  define ps where "ps = clean_parts (split_on (CHR ''/'') (CHR ''/'' # out)) []"
  have ps: "\<forall>p \<in> set ps. proper p"
    unfolding ps_def by (rule clean_parts_proper) (use split_on_parts_free in auto)
  have tp: "trim_prefix (clean_rooted (CHR ''/'' # out)) ''/'' = join_with ''/'' ps"
    by (simp add: clean_rooted_def ps_def trim_prefix_def has_prefix_def)
  have r: "render_path template camera_id camera_name t =
      (if has_suffix (to_lower (join_with ''/'' ps)) ''.mp4'' then join_with ''/'' ps
       else join_with ''/'' ps @ ''.mp4'')"
    unfolding render_path_def Let_def out_def [symmetric] tp ..
  have ne: "ps \<noteq> []" if "has_suffix (to_lower (join_with ''/'' ps)) ''.mp4''"
    using that by (auto simp: has_suffix_def to_lower_def)
  have "to_lower ''.mp4'' = ''.mp4''" by (simp add: to_lower_def char_lower_def)
  then have "has_suffix (to_lower (join_with ''/'' ps @ ''.mp4'')) ''.mp4''"
    by (simp add: has_suffix_def)
  then show ?thesis
    unfolding r list_all_iff using join_proper [OF ps] ps ne by auto
qed

text \<open>
  C22: whatever the template and the names of the camera (dot segments, slashes, empty
  components, token text inside names), the rendered path is relative and every component of it
  is a proper name, never empty, dot or double dot: a recording cannot leave its root.  The
  path always ends in \<open>.mp4\<close>, in either case.
\<close>

theorem path_confined:
  "list_all proper (split_on (CHR ''/'') (render_path template camera_id camera_name t)) \<and>
   has_suffix (to_lower (render_path template camera_id camera_name t)) ''.mp4''"
  by (rule render_path_shape)

text \<open>
  The default template names the camera, not its identifier, and only down to the second: two
  cameras whose names have the same safe characters (any two names in Chinese, say) get the same
  path for recordings that start in the same second, as all clock-aligned ones do.
\<close>

lemma names_collide:
  assumes "sanitize n1 = sanitize n2"
  shows "render_path [] i1 n1 t = render_path [] i2 n2 t"
  using assms
  by (simp add: render_path_def default_template_def tokens_def has_prefix_def)

end
