(* ===== verification/Rec_Recorder.thy ===== *)
theory Rec_Recorder
  imports Core_Stream Rec_Naming
begin

text \<open>
  The recorder (\<^verbatim>\<open>internal/recording/recorder.go\<close>) and the files it writes (\<^verbatim>\<open>segmenter.go\<close>).
  A file is the list of its fragments, a fragment a map from track to its part; the serialised
  size is a parameter.  Times are nanoseconds, 0 is the zero time.  Every call that can fail
  (creating a file, writing to it) draws from a schedule: call number \<open>n\<close> succeeds when \<open>io n\<close>.
  The DTS extractors and the AVCC marshaller of the codec library are parameters.
\<close>

section \<open>Files\<close>

record fmp4_sample =
  s_duration :: u32
  s_pts_offset :: u32
  s_non_sync :: bool
  s_payload :: "byte list"

record part_track =
  part_id :: int
  base_time :: u64
  part_samples :: "fmp4_sample list"

record mp4_writer =
  w_path :: string
  w_tracks :: "track list"
  w_seq :: u32
  init_done :: bool
  fragments :: "(int \<rightharpoonup> part_track) list"

datatype mp4_codec = MP4_H264 "byte list" "byte list" | MP4_H265 "byte list" "byte list" "byte list"
  | MP4_Audio "byte list"

definition mp4_codec_for :: "track \<Rightarrow> mp4_codec option" where
  "mp4_codec_for t =
     (case track_codec t of
        CodecH264 \<Rightarrow> Some (MP4_H264 (sps t) (pps t))
      | CodecH265 \<Rightarrow> Some (MP4_H265 (vps t) (sps t) (pps t))
      | CodecAAC \<Rightarrow> map_option MP4_Audio (audio_config t))"

text \<open>A codec that has no description makes the init segment fail, before anything is written.\<close>

definition write_init :: "bool \<Rightarrow> mp4_writer \<Rightarrow> bool \<times> mp4_writer" where
  "write_init ok w =
     (if (\<exists>t \<in> set (w_tracks w). mp4_codec_for t = None) \<or> \<not> ok then (False, w)
      else (True, w\<lparr>init_done := True\<rparr>))"

definition write_fragment :: "bool \<Rightarrow> (int \<rightharpoonup> part_track) \<Rightarrow> mp4_writer \<Rightarrow> bool \<times> mp4_writer" where
  "write_fragment ok parts w =
     (if parts = Map.empty then (True, w)
      else (let (ok1, w1) = (if init_done w then (True, w) else write_init ok w)
            in if \<not> ok1 then (False, w1)
               else (let w2 = w1\<lparr>w_seq := w_seq w1 + 1\<rparr>
                     in if ok then (True, w2\<lparr>fragments := fragments w2 @ [parts]\<rparr>)
                        else (False, w2))))"

section \<open>State\<close>

record rec_sample =
  dts :: int
  pts_offset :: u32
  is_sync :: bool
  payload :: "byte list"

record 'x track_buf =
  tb_track :: track
  ext :: 'x
  pend :: "rec_sample list"
  file_start :: int
  has_start :: bool
  last_dts :: int
  has_last :: bool

record cached_gop =
  gop_tracks :: "int \<rightharpoonup> rec_sample list"
  boundary_dts :: int
  gop_time :: int

record rec_config =
  c_camera_id :: string
  c_camera_name :: string
  c_root :: string
  seg_dur :: int
  c_template :: string
  align_to_clock :: bool
  has_gate :: bool
  pre_roll :: int

text \<open>\<open>closed_files\<close> lists the files closed so far, \<open>finals\<close> what the sink was told.\<close>

record 'x recorder =
  conf :: rec_config
  states :: "int \<rightharpoonup> 'x track_buf"
  track_ids :: "int list"
  video_track :: "track option"
  gop_cache :: "cached_gop list"
  gop_wall :: int
  writer :: "mp4_writer option"
  recording_id :: string
  rel_path :: string
  segment_start :: int
  segment_end :: int
  io_calls :: nat
  closed_files :: "mp4_writer list"
  finals :: "(string \<times> int \<times> int \<times> int) list"

text \<open>
  The surroundings: the clock of this call, whether the gate is open, the schedule of failures,
  the answers of the sink, the local calendar and the size of a file.
\<close>

record rec_env =
  clock :: int
  gate :: bool
  io :: "nat \<Rightarrow> bool"
  sink_id :: "nat \<Rightarrow> string option"
  local_of :: "int \<Rightarrow> local_time"
  midnight_of :: "int \<Rightarrow> int"
  file_size :: "mp4_writer \<Rightarrow> int"

type_synonym 'x action = "'x recorder \<Rightarrow> bool \<times> 'x recorder"

definition andthen :: "'x action \<Rightarrow> 'x action \<Rightarrow> 'x action" where
  "andthen f g s = (let (ok, s1) = f s in if ok then g s1 else (False, s1))"

definition skip :: "'x action" where "skip s = (True, s)"

definition pre_roll_enabled :: "'x recorder \<Rightarrow> bool" where
  "pre_roll_enabled r \<longleftrightarrow> pre_roll (conf r) > 0 \<and> has_gate (conf r)"

definition new_buf :: "'x \<Rightarrow> track \<Rightarrow> 'x track_buf" where
  "new_buf x0 t = \<lparr>tb_track = t, ext = x0, pend = [], file_start = 0, has_start = False,
     last_dts = 0, has_last = False\<rparr>"

definition init_tracks :: "'x \<Rightarrow> track list \<Rightarrow> 'x recorder \<Rightarrow> 'x recorder" where
  "init_tracks x0 ts r =
     r\<lparr>states := map_of (rev (map (\<lambda>t. (track_id t, new_buf x0 t)) ts)),
       track_ids := remdups (map track_id ts),
       video_track := (if video_track r = None then List.find is_video ts else video_track r)\<rparr>"

definition on_bufs :: "('x track_buf \<Rightarrow> 'x track_buf) \<Rightarrow> 'x recorder \<Rightarrow> 'x recorder" where
  "on_bufs f r = r\<lparr>states := (\<lambda>i. map_option f (states r i))\<rparr>"

definition clear_pending :: "'x recorder \<Rightarrow> 'x recorder" where
  "clear_pending r = on_bufs (\<lambda>tb. tb\<lparr>pend := []\<rparr>) r"

definition pend_map :: "'x recorder \<Rightarrow> int \<rightharpoonup> rec_sample list" where
  "pend_map r = (\<lambda>i. case states r i of None \<Rightarrow> None
                     | Some tb \<Rightarrow> if pend tb = [] then None else Some (pend tb))"

section \<open>Fragments\<close>

fun frag_samples :: "bool \<Rightarrow> int \<Rightarrow> rec_sample list \<Rightarrow> fmp4_sample list" where
  "frag_samples vid boundary [] = []"
| "frag_samples vid boundary (s # rest) =
     \<lparr>s_duration =
        (case rest of
           s' # _ \<Rightarrow> word_of_int (dts s' - dts s)
         | [] \<Rightarrow> if vid then word_of_int (boundary - dts s) else 1024),
      s_pts_offset = pts_offset s, s_non_sync = \<not> is_sync s, s_payload = payload s\<rparr>
     # frag_samples vid boundary rest"

text \<open>The anchor of a track's timeline in the file: its first sample there.\<close>

definition anchor :: "rec_sample list \<Rightarrow> 'x track_buf \<Rightarrow> 'x track_buf" where
  "anchor ss tb = (if has_start tb \<or> ss = [] then tb
                   else tb\<lparr>file_start := dts (hd ss), has_start := True\<rparr>)"

definition part_of :: "int \<Rightarrow> 'x track_buf \<Rightarrow> rec_sample list \<Rightarrow> part_track" where
  "part_of boundary tb ss =
     \<lparr>part_id = track_id (tb_track tb), base_time = word_of_int (dts (hd ss) - file_start tb),
      part_samples = frag_samples (is_video (tb_track tb)) boundary ss\<rparr>"

definition write_frag :: "rec_env \<Rightarrow> (int \<rightharpoonup> rec_sample list) \<Rightarrow> int \<Rightarrow> 'x action" where
  "write_frag e per boundary r =
     (case writer r of
        None \<Rightarrow> (True, r)
      | Some w \<Rightarrow>
          (let r1 = r\<lparr>states := (\<lambda>i. case states r i of
                         None \<Rightarrow> None
                       | Some tb \<Rightarrow> Some (case per i of None \<Rightarrow> tb | Some ss \<Rightarrow> anchor ss tb))\<rparr>;
               parts = (\<lambda>i. case (states r1 i, per i) of
                          (Some tb, Some ss) \<Rightarrow>
                            if ss = [] then None else Some (part_of boundary tb ss)
                        | _ \<Rightarrow> None);
               (ok, w') = write_fragment (io e (io_calls r)) parts w
           in (ok, r1\<lparr>writer := Some w', io_calls := io_calls r + 1\<rparr>)))"

definition flush :: "rec_env \<Rightarrow> int \<Rightarrow> 'x action" where
  "flush e boundary r =
     (if writer r = None then (True, r)
      else andthen (write_frag e (pend_map r) boundary) (\<lambda>r1. (True, clear_pending r1)) r)"

section \<open>Segments\<close>

text \<open>The next boundary after \<open>t\<close> on the grid of local midnight.\<close>

definition next_aligned_boundary :: "(int \<Rightarrow> int) \<Rightarrow> int \<Rightarrow> int \<Rightarrow> int" where
  "next_aligned_boundary midnight t dur =
     (if dur \<le> 0 then t else midnight t + (go_div (t - midnight t) dur + 1) * dur)"

definition tracks_slice :: "'x recorder \<Rightarrow> track list" where
  "tracks_slice r =
     List.map_filter (\<lambda>i. map_option tb_track (states r (int i)))
       [1..<length (track_ids r) + 9]"

definition open_segment :: "rec_env \<Rightarrow> int \<Rightarrow> 'x action" where
  "open_segment e start0 r =
     (let start = (if start0 = 0 then clock e else start0);
          rel = render_path (c_template (conf r)) (c_camera_id (conf r)) (c_camera_name (conf r))
                  (local_of e start);
          n = io_calls r
      in if \<not> io e n then (False, r\<lparr>io_calls := n + 1\<rparr>)
         else (let w = \<lparr>w_path = rel, w_tracks = tracks_slice r, w_seq = 0, init_done = False,
                        fragments = []\<rparr>;
                   r1 = on_bufs (\<lambda>tb. tb\<lparr>has_start := False\<rparr>)
                          (r\<lparr>writer := Some w, rel_path := rel, segment_start := start,
                             io_calls := n + 1,
                             segment_end := (if align_to_clock (conf r)
                               then next_aligned_boundary (midnight_of e) start (seg_dur (conf r))
                               else start + seg_dur (conf r))\<rparr>)
               in case sink_id e n of
                    None \<Rightarrow> (False, r1\<lparr>writer := None, closed_files := closed_files r1 @ [w]\<rparr>)
                  | Some i \<Rightarrow> (True, r1\<lparr>recording_id := i\<rparr>)))"

definition rotate_due :: "int \<Rightarrow> 'x recorder \<Rightarrow> bool" where
  "rotate_due t r \<longleftrightarrow> segment_end r \<noteq> 0 \<and> segment_end r \<le> t"

definition video_buf :: "'x recorder \<Rightarrow> 'x track_buf option" where
  "video_buf r = (case video_track r of None \<Rightarrow> None | Some t \<Rightarrow> states r (track_id t))"

definition flush_tail :: "rec_env \<Rightarrow> 'x recorder \<Rightarrow> 'x recorder" where
  "flush_tail e r =
     (let boundary =
        (case video_buf r of
           None \<Rightarrow> 0
         | Some tb \<Rightarrow>
             if pend tb = [] then 0
             else (let l = last (pend tb);
                       stp = (if length (pend tb) \<ge> 2
                              then dts l - dts (pend tb ! (length (pend tb) - 2))
                              else go_div (clock_rate (tb_track tb)) 30)
                   in dts l + stp))
      in snd (flush e boundary r))"

text \<open>Without a video track any track will do; the choice of the map is the first one here.\<close>

definition file_duration_ms :: "'x recorder \<Rightarrow> int" where
  "file_duration_ms r =
     (let tb = (if video_track r = None
                then (case track_ids r of [] \<Rightarrow> None | i # _ \<Rightarrow> states r i) else video_buf r)
      in case tb of
           None \<Rightarrow> 0
         | Some b \<Rightarrow> if \<not> has_last b \<or> \<not> has_start b then 0
                     else go_div ((last_dts b - file_start b) * 1000) (clock_rate (tb_track b)))"

definition finalize :: "rec_env \<Rightarrow> 'x recorder \<Rightarrow> 'x recorder" where
  "finalize e r =
     (if writer r = None then r
      else (let r1 = flush_tail e r in
            case writer r1 of
              None \<Rightarrow> r1
            | Some w \<Rightarrow>
                r1\<lparr>finals := (if recording_id r1 \<noteq> []
                    then finals r1 @ [(recording_id r1, clock e, file_duration_ms r1, file_size e w)]
                    else finals r1),
                  closed_files := closed_files r1 @ [w], writer := None, recording_id := [],
                  rel_path := []\<rparr>))"

section \<open>Pre-roll\<close>

fun prune :: "int \<Rightarrow> int \<Rightarrow> cached_gop list \<Rightarrow> cached_gop list" where
  "prune newest window (g # g' # gs) =
     (if newest - gop_time g' \<ge> window then prune newest window (g' # gs) else g # g' # gs)"
| "prune newest window gs = gs"

definition stash_gop :: "int \<Rightarrow> 'x recorder \<Rightarrow> 'x recorder" where
  "stash_gop boundary r =
     (let g = \<lparr>gop_tracks = pend_map r, boundary_dts = boundary, gop_time = gop_wall r\<rparr>
      in clear_pending
           (r\<lparr>gop_cache := prune (gop_wall r) (pre_roll (conf r)) (gop_cache r @ [g])\<rparr>))"

fun write_gops :: "rec_env \<Rightarrow> cached_gop list \<Rightarrow> 'x action" where
  "write_gops e [] r = (True, r)"
| "write_gops e (g # gs) r =
     andthen (write_frag e (gop_tracks g) (boundary_dts g)) (write_gops e gs) r"

definition write_preroll :: "rec_env \<Rightarrow> 'x action" where
  "write_preroll e r = andthen (write_gops e (gop_cache r)) (\<lambda>r1. (True, r1\<lparr>gop_cache := []\<rparr>)) r"

section \<open>Units\<close>

definition put_buf :: "int \<Rightarrow> 'x track_buf \<Rightarrow> 'x recorder \<Rightarrow> 'x recorder" where
  "put_buf i tb r = r\<lparr>states := (states r)(i \<mapsto> tb)\<rparr>"

definition append_sample :: "rec_sample \<Rightarrow> 'x track_buf \<Rightarrow> 'x track_buf" where
  "append_sample s tb = tb\<lparr>pend := pend tb @ [s], last_dts := dts s, has_last := True\<rparr>"

text \<open>What a keyframe does to the group of pictures it ends.\<close>

definition close_gop :: "rec_env \<Rightarrow> int \<Rightarrow> 'x track_buf \<Rightarrow> 'x action" where
  "close_gop e d tb r =
     (if pend tb = [] then (True, r)
      else if writer r \<noteq> None then flush e d r
      else if pre_roll_enabled r then (True, stash_gop d r)
      else (True, clear_pending r))"

text \<open>What it does to the segments; \<open>now\<close> has been read from the clock.\<close>

definition switch_segment :: "rec_env \<Rightarrow> bool \<Rightarrow> 'x action" where
  "switch_segment e active r =
     (if active \<and> writer r = None then
        andthen (open_segment e (case gop_cache r of [] \<Rightarrow> clock e | g # _ \<Rightarrow> gop_time g))
          (write_preroll e) r
      else if active \<and> rotate_due (clock e) r then open_segment e (clock e) (finalize e r)
      else if \<not> active \<and> writer r \<noteq> None then (True, finalize e r)
      else (True, r))"

definition take_sample ::
  "(byte list list \<Rightarrow> byte list option) \<Rightarrow> int \<Rightarrow> int \<Rightarrow> media_unit \<Rightarrow> 'x action" where
  "take_sample avcc i d u r =
     (case (avcc (aus u), states r i) of
        (Some pl, Some tb) \<Rightarrow>
          (True, put_buf i (append_sample \<lparr>dts = d, pts_offset = word_of_int (pts u - d),
                              is_sync = random_access u, payload = pl\<rparr> tb) r)
      | _ \<Rightarrow> (False, r))"

definition handle_key ::
  "rec_env \<Rightarrow> (byte list list \<Rightarrow> byte list option) \<Rightarrow> int \<Rightarrow> int \<Rightarrow> 'x track_buf \<Rightarrow> media_unit \<Rightarrow> 'x action" where
  "handle_key e avcc i d tb u r0 =
     (let active = (\<not> has_gate (conf r0) \<or> gate e)
      in andthen (close_gop e d tb)
           (andthen (\<lambda>r. switch_segment e active (r\<lparr>gop_wall := clock e\<rparr>))
              (\<lambda>r. if \<not> active \<and> \<not> pre_roll_enabled r then (True, r)
                   else take_sample avcc i d u r)) r0)"

definition handle_video ::
  "rec_env \<Rightarrow> ('x \<Rightarrow> codec \<Rightarrow> byte list list \<Rightarrow> int \<Rightarrow> int option \<times> 'x) \<Rightarrow>
   (byte list list \<Rightarrow> byte list option) \<Rightarrow> int \<Rightarrow> 'x track_buf \<Rightarrow> media_unit \<Rightarrow> 'x action" where
  "handle_video e extractor avcc i tb u r =
     (let (od, x) = extractor (ext tb) (track_codec (tb_track tb)) (aus u) (pts u);
          tb1 = tb\<lparr>ext := x\<rparr>; r1 = put_buf i tb1 r
      in case od of
           None \<Rightarrow> (True, r1)
         | Some d \<Rightarrow>
             if random_access u then handle_key e avcc i d tb1 u r1
             else if writer r1 = None \<and> \<not> (pre_roll_enabled r1 \<and> pend tb1 \<noteq> []) then (True, r1)
             else take_sample avcc i d u r1)"

fun audio_samples :: "int \<Rightarrow> nat \<Rightarrow> byte list list \<Rightarrow> rec_sample list" where
  "audio_samples p k [] = []"
| "audio_samples p k (f # fs) =
     \<lparr>dts = p + int (k * 1024), pts_offset = 0, is_sync = True, payload = f\<rparr> # audio_samples p (Suc k) fs"

definition handle_audio :: "rec_env \<Rightarrow> int \<Rightarrow> 'x track_buf \<Rightarrow> media_unit \<Rightarrow> 'x action" where
  "handle_audio e i tb u r =
     (let tb1 = fold append_sample (audio_samples (pts u) 0 (aus u)) tb;
          r1 = put_buf i tb1 r
      in if video_track r1 = None \<and> int (length (pend tb1)) \<ge> go_div (clock_rate (tb_track tb1)) 1024 then
           andthen
             (\<lambda>r. if writer r = None then open_segment e (clock e) r
                  else if rotate_due (clock e) r then open_segment e (clock e) (finalize e r)
                  else (True, r))
             (flush e (last_dts tb1 + 1024)) r1
         else (True, r1))"

definition handle_unit ::
  "rec_env \<Rightarrow> ('x \<Rightarrow> codec \<Rightarrow> byte list list \<Rightarrow> int \<Rightarrow> int option \<times> 'x) \<Rightarrow>
   (byte list list \<Rightarrow> byte list option) \<Rightarrow> media_unit \<Rightarrow> 'x action" where
  "handle_unit e extractor avcc u r =
     (case states r (unit_track u) of
        None \<Rightarrow> (True, r)
      | Some tb \<Rightarrow> if is_video (tb_track tb) then handle_video e extractor avcc (unit_track u) tb u r
                   else handle_audio e (unit_track u) tb u r)"

text \<open>The loop of \<^verbatim>\<open>Run\<close>: the first error ends it, and the open file is finalized in any case.\<close>

fun handle_all ::
  "('x \<Rightarrow> codec \<Rightarrow> byte list list \<Rightarrow> int \<Rightarrow> int option \<times> 'x) \<Rightarrow>
   (byte list list \<Rightarrow> byte list option) \<Rightarrow> (rec_env \<times> media_unit) list \<Rightarrow> 'x action" where
  "handle_all extractor avcc [] r = (True, r)"
| "handle_all extractor avcc ((e, u) # us) r =
     andthen (handle_unit e extractor avcc u) (handle_all extractor avcc us) r"

definition new_recorder :: "rec_config \<Rightarrow> 'x recorder" where
  "new_recorder c = \<lparr>conf = c, states = Map.empty, track_ids = [], video_track = None,
     gop_cache = [], gop_wall = 0, writer = None, recording_id = [], rel_path = [],
     segment_start = 0, segment_end = 0, io_calls = 0, closed_files = [], finals = []\<rparr>"

definition recorder_run ::
  "('x \<Rightarrow> codec \<Rightarrow> byte list list \<Rightarrow> int \<Rightarrow> int option \<times> 'x) \<Rightarrow>
   (byte list list \<Rightarrow> byte list option) \<Rightarrow> 'x \<Rightarrow> track list \<Rightarrow> rec_env \<Rightarrow> (rec_env \<times> media_unit) list \<Rightarrow> 'x action" where
  "recorder_run extractor avcc x0 ts e_end us r =
     (let c = (if seg_dur (conf r) \<le> 0 then (conf r)\<lparr>seg_dur := 600000000000\<rparr> else conf r);
          (ok, r1) = handle_all extractor avcc us (init_tracks x0 ts (r\<lparr>conf := c\<rparr>))
      in (ok, finalize e_end r1))"

section \<open>Boundaries\<close>

text \<open>
  A clock-aligned boundary lies strictly after \<open>t\<close>, at most one segment later, and on the
  grid of local midnight; it is the first such point.  Nothing restarts the grid at the end of a
  day: the boundary may lie beyond the next midnight when the duration does not divide the day.
\<close>

lemma aligned_aux:
  assumes "0 < dur" and "midnight t \<le> t"
  shows "next_aligned_boundary midnight t dur = midnight t + ((t - midnight t) div dur + 1) * dur"
  using assms by (simp add: next_aligned_boundary_def)

theorem aligned_boundary:
  assumes "0 < dur" and "midnight t \<le> t"
  defines "b \<equiv> next_aligned_boundary midnight t dur"
  shows "t < b \<and> b \<le> t + dur \<and> dur dvd (b - midnight t) \<and>
         (\<forall>b'. t < b' \<and> dur dvd (b' - midnight t) \<longrightarrow> b \<le> b')"
proof -
  define x where "x = t - midnight t"
  have b: "b = midnight t + (x div dur + 1) * dur"
    unfolding b_def x_def by (rule aligned_aux [of dur midnight t, OF assms(1,2)])
  have m: "x = x div dur * dur + x mod dur" "0 \<le> x mod dur" "x mod dur < dur"
    using assms(1) by simp_all
  have up: "t < b" "b \<le> t + dur"
  proof -
    have "t = midnight t + x div dur * dur + x mod dur" using m(1) by (simp only: x_def)
    moreover have "b = midnight t + x div dur * dur + dur" by (simp add: b distrib_right)
    ultimately show "t < b" "b \<le> t + dur" using m(2,3) by linarith+
  qed
  have "b \<le> b'" if lt: "t < b'" and dv: "dur dvd (b' - midnight t)" for b'
  proof -
    obtain k where k: "b' - midnight t = dur * k" using dv by (elim dvdE)
    then have "x < dur * k" using lt by (simp add: x_def)
    moreover have "x div dur * dur \<le> x" using m(1,2) by linarith
    ultimately have "x div dur * dur < k * dur" by (simp add: mult.commute)
    then have "x div dur < k" using assms(1) by (simp only: mult_less_cancel_right_pos)
    then have "(x div dur + 1) * dur \<le> k * dur" using assms(1) by (intro mult_right_mono) simp_all
    then show ?thesis using k by (simp add: b algebra_simps)
  qed
  moreover have "b - midnight t = (x div dur + 1) * dur" by (simp add: b)
  ultimately show ?thesis using up by (metis dvd_triv_right)
qed

theorem aligned_boundary_witness:
  "79200 < next_aligned_boundary (\<lambda>t. 0) 79200 25200 \<and> next_aligned_boundary (\<lambda>t. 0) 79200 25200 > 86400"
  using aligned_boundary [of 25200 "\<lambda>t. 0" 79200] by (simp add: next_aligned_boundary_def)

end
