(* ===== verification/Rec_Timeline.thy ===== *)
theory Rec_Timeline
  imports Rec_Recorder
begin

text \<open>
  What the files of the recorder hold for the video track: the timeline of each file has no gap
  and no overlap, and in continuous mode no picture is lost.  Both are invariants of the loop;
  the first also covers pre-roll, gating, rotation and every failure.
\<close>

section \<open>Parts of a file\<close>

definition vparts :: "int \<Rightarrow> mp4_writer \<Rightarrow> part_track list" where
  "vparts v w = List.map_filter (\<lambda>f. f v) (fragments w)"

definition part_length :: "part_track \<Rightarrow> u32" where
  "part_length p = sum_list (map s_duration (part_samples p))"

definition total_length :: "part_track list \<Rightarrow> u32" where
  "total_length ps = sum_list (map part_length ps)"

text \<open>Each part starts where the one before it ends (modulo \<open>2 ^ 32\<close> ticks), the first at 0.\<close>

fun contiguous :: "u32 \<Rightarrow> part_track list \<Rightarrow> bool" where
  "contiguous t [] = True"
| "contiguous t (p # ps) = (ucast (base_time p) = t \<and> contiguous (t + part_length p) ps)"

lemma contiguous_append:
  "contiguous t (ps @ qs) \<longleftrightarrow> contiguous t ps \<and> contiguous (t + total_length ps) qs"
  by (induction ps arbitrary: t) (simp_all add: total_length_def add.assoc)

lemma total_length_snoc [simp]: "total_length (ps @ [p]) = total_length ps + part_length p"
  by (simp add: total_length_def)

lemma frag_samples_length:
  "ss \<noteq> [] \<Longrightarrow> sum_list (map s_duration (frag_samples True b ss)) = word_of_int (b - dts (hd ss))"
proof (induction ss rule: induct_list012)
  case (3 s s' ss)
  then have "sum_list (map s_duration (frag_samples True b (s # s' # ss))) =
      word_of_int (dts s' - dts s) + word_of_int (b - dts s')"
    by simp
  then show ?case by (simp flip: of_int_add)
qed simp_all

lemma part_of_length:
  "ss \<noteq> [] \<Longrightarrow> is_video (tb_track tb) \<Longrightarrow> part_length (part_of b tb ss) = word_of_int (b - dts (hd ss))"
  by (simp add: part_length_def part_of_def frag_samples_length)

lemma ucast_u64_u32: "ucast (word_of_int x :: u64) = (word_of_int x :: u32)"
  by (rule bit_word_eqI) (auto simp: bit_simps)

lemma part_of_base: "ucast (base_time (part_of b tb ss)) = (word_of_int (dts (hd ss) - file_start tb) :: u32)"
  unfolding part_of_def part_track.simps by (rule ucast_u64_u32)

section \<open>Writing\<close>

lemma write_fragment_vparts:
  assumes "write_fragment ok parts w = (ok', w')"
  shows "vparts v w' = (if ok' then vparts v w @ (case parts v of None \<Rightarrow> [] | Some p \<Rightarrow> [p])
                        else vparts v w)"
proof -
  have init: "vparts v (snd (write_init b w)) = vparts v w" for b
    by (simp add: write_init_def vparts_def)
  obtain ok1 w1 where i: "(if init_done w then (True, w) else write_init ok w) = (ok1, w1)"
    by fastforce
  then have w1: "vparts v w1 = vparts v w"
    using init [of ok] by (metis snd_conv)
  show ?thesis
  proof (cases "parts = Map.empty")
    case True
    with assms show ?thesis by (auto simp: write_fragment_def)
  next
    case False
    have "vparts v (w1\<lparr>w_seq := n, fragments := fragments w1 @ [parts]\<rparr>) =
        vparts v w1 @ (case parts v of None \<Rightarrow> [] | Some p \<Rightarrow> [p])" for n
      by (simp add: vparts_def map_filter_def split: option.split)
    moreover have "vparts v (w1\<lparr>w_seq := n\<rparr>) = vparts v w1" for n by (simp add: vparts_def)
    ultimately show ?thesis
      using assms False i w1 by (auto simp: write_fragment_def Let_def split: if_splits)
  qed
qed

text \<open>The state of the track's part of the open file: \<open>total\<close> ticks, the anchor, the parts.\<close>

definition file_ok :: "int \<Rightarrow> int option \<Rightarrow> 'x track_buf \<Rightarrow> mp4_writer \<Rightarrow> bool" where
  "file_ok v nd tb w \<longleftrightarrow> contiguous 0 (vparts v w) \<and> (vparts v w \<noteq> [] \<longrightarrow> has_start tb) \<and>
     (has_start tb \<longrightarrow> (\<forall>d. nd = Some d \<longrightarrow> total_length (vparts v w) = word_of_int (d - file_start tb)))"

lemma write_frag_other:
  assumes "per v = None" and "states r v = Some tb" and "writer r = Some w"
    and "write_frag e per b r = (ok, r')"
  shows "states r' v = Some tb \<and> (\<exists>w'. writer r' = Some w' \<and> vparts v w' = vparts v w)"
proof -
  let ?st = "\<lambda>i. case states r i of None \<Rightarrow> None
     | Some tb \<Rightarrow> Some (case per i of None \<Rightarrow> tb | Some ss \<Rightarrow> anchor ss tb)"
  let ?parts = "\<lambda>i. case (?st i, per i) of
     (Some tb, Some ss) \<Rightarrow> if ss = [] then None else Some (part_of b tb ss) | _ \<Rightarrow> None"
  obtain w' where wf: "write_fragment (io e (io_calls r)) ?parts w = (ok, w')"
    and r': "r' = r\<lparr>states := ?st, writer := Some w', io_calls := io_calls r + 1\<rparr>"
    using assms(3,4) by (auto simp: write_frag_def Let_def split: prod.splits)
  have "?parts v = None" using assms(1,2) by simp
  then have "vparts v w' = vparts v w"
    using write_fragment_vparts [OF wf, of v] by (auto split: if_splits)
  then show ?thesis using assms(1,2) by (simp add: r')
qed

lemma write_frag_video:
  assumes "per v = Some ss" "ss \<noteq> []" and "states r v = Some tb" and "writer r = Some w"
    and "is_video (tb_track tb)" and "file_ok v (Some (dts (hd ss))) tb w"
    and "write_frag e per b r = (ok, r')"
  shows "\<exists>tb' w'. states r' v = Some tb' \<and> writer r' = Some w' \<and> pend tb' = pend tb \<and>
      tb_track tb' = tb_track tb \<and> has_start tb' \<and>
      file_ok v (Some (if ok then b else dts (hd ss))) tb' w'"
proof -
  let ?st = "\<lambda>i. case states r i of None \<Rightarrow> None
     | Some tb \<Rightarrow> Some (case per i of None \<Rightarrow> tb | Some ss \<Rightarrow> anchor ss tb)"
  let ?parts = "\<lambda>i. case (?st i, per i) of
     (Some tb, Some ss) \<Rightarrow> if ss = [] then None else Some (part_of b tb ss) | _ \<Rightarrow> None"
  obtain w' where wf: "write_fragment (io e (io_calls r)) ?parts w = (ok, w')"
    and r': "r' = r\<lparr>states := ?st, writer := Some w', io_calls := io_calls r + 1\<rparr>"
    using assms(4,7) by (auto simp: write_frag_def Let_def split: prod.splits)
  define tb' where "tb' = anchor ss tb"
  have tb': "pend tb' = pend tb" "tb_track tb' = tb_track tb" "has_start tb'"
    "file_start tb' = (if has_start tb then file_start tb else dts (hd ss))"
    using assms(2) by (simp_all add: tb'_def anchor_def)
  have tot: "total_length (vparts v w) = word_of_int (dts (hd ss) - file_start tb')"
    using assms(6) tb'(4) by (auto simp: file_ok_def total_length_def)
  have vp: "vparts v w' = (if ok then vparts v w @ [part_of b tb' ss] else vparts v w)"
    using write_fragment_vparts [OF wf, of v] assms(1-3) by (simp add: tb'_def)
  have pl: "part_length (part_of b tb' ss) = word_of_int (b - dts (hd ss))"
    using assms(2,5) tb'(2) by (simp add: part_of_length)
  have "total_length (vparts v w) + part_length (part_of b tb' ss) = word_of_int (b - file_start tb')"
    unfolding tot pl by (simp flip: of_int_add)
  then have "file_ok v (Some (if ok then b else dts (hd ss))) tb' w'"
    using assms(6) tot tb'(3) by (simp add: file_ok_def vp contiguous_append part_of_base)
  then show ?thesis
    using assms(1,3) tb' by (simp add: r' tb'_def)
qed

section \<open>The invariant\<close>

definition next_dts :: "rec_sample list \<Rightarrow> int option" where
  "next_dts ss = (case ss of [] \<Rightarrow> None | s # _ \<Rightarrow> Some (dts s))"

text \<open>Cached groups follow each other without a gap, the last one up to \<open>nd\<close>.\<close>

fun gop_start :: "int \<Rightarrow> int option \<Rightarrow> cached_gop list \<Rightarrow> int option" where
  "gop_start v nd [] = nd"
| "gop_start v nd (g # gs) = (case gop_tracks g v of None \<Rightarrow> None | Some ss \<Rightarrow> next_dts ss)"

fun gop_chain :: "int \<Rightarrow> int option \<Rightarrow> cached_gop list \<Rightarrow> bool" where
  "gop_chain v nd [] = True"
| "gop_chain v nd (g # gs) =
     ((\<exists>ss. gop_tracks g v = Some ss \<and> ss \<noteq> []) \<and>
      (\<forall>d. gop_start v nd gs = Some d \<longrightarrow> d = boundary_dts g) \<and> gop_chain v nd gs)"

definition files_ok :: "int \<Rightarrow> 'x recorder \<Rightarrow> bool" where
  "files_ok v r \<longleftrightarrow> (\<forall>w \<in> set (closed_files r). contiguous 0 (vparts v w))"

text \<open>
  \<open>steady\<close> holds between units as long as nothing failed; \<open>nd\<close> is the time of the next sample.
  \<open>closable\<close> is what is left of it after a failure, enough to close the file.
\<close>

definition video_tb :: "int \<Rightarrow> 'x recorder \<Rightarrow> 'x track_buf \<Rightarrow> bool" where
  "video_tb v r tb \<longleftrightarrow> states r v = Some tb \<and> is_video (tb_track tb)"

definition closable :: "int \<Rightarrow> 'x recorder \<Rightarrow> bool" where
  "closable v r \<longleftrightarrow> files_ok v r \<and>
     (\<exists>tb. video_tb v r tb \<and> (\<forall>w. writer r = Some w \<longrightarrow> file_ok v (next_dts (pend tb)) tb w))"

definition midway :: "int \<Rightarrow> int option \<Rightarrow> 'x track_buf \<Rightarrow> 'x recorder \<Rightarrow> bool" where
  "midway v nd tb r \<longleftrightarrow> files_ok v r \<and> video_tb v r tb \<and> gop_chain v nd (gop_cache r) \<and>
     (gop_cache r \<noteq> [] \<longrightarrow> pre_roll_enabled r) \<and>
     (\<forall>w. writer r = Some w \<longrightarrow> gop_cache r = [] \<and> file_ok v nd tb w)"

definition steady :: "int \<Rightarrow> 'x recorder \<Rightarrow> bool" where
  "steady v r \<longleftrightarrow> (\<exists>tb. midway v (next_dts (pend tb)) tb r \<and> 
     (writer r \<noteq> None \<or> gop_cache r \<noteq> [] \<longrightarrow> pend tb \<noteq> []))"

lemma steady_closable: "steady v r \<Longrightarrow> closable v r"
  by (auto simp: steady_def closable_def midway_def)

lemma midway_empty_closable: "midway v nd tb r \<Longrightarrow> pend tb = [] \<Longrightarrow> closable v r"
  by (auto simp: closable_def midway_def file_ok_def next_dts_def)

lemma file_ok_weaken: "file_ok v nd tb w \<Longrightarrow> file_ok v None tb w"
  by (simp add: file_ok_def)

lemma pend_map_video: "states r v = Some tb \<Longrightarrow> pend_map r v = (if pend tb = [] then None else Some (pend tb))"
  by (simp add: pend_map_def)

text \<open>Flushing up to \<open>b\<close>: afterwards the track is empty and the file reaches \<open>b\<close>.\<close>

lemma write_frag_frame:
  assumes "write_frag e per b r = (ok, r')"
  shows "closed_files r' = closed_files r" "gop_cache r' = gop_cache r" "conf r' = conf r"
    "gop_wall r' = gop_wall r" "video_track r' = video_track r" "writer r' = None \<longleftrightarrow> writer r = None"
  using assms by (auto simp: write_frag_def Let_def split: option.splits prod.splits)

lemma clear_frame [simp]:
  "closed_files (clear_pending r) = closed_files r" "gop_cache (clear_pending r) = gop_cache r"
  "conf (clear_pending r) = conf r" "writer (clear_pending r) = writer r"
  "gop_wall (clear_pending r) = gop_wall r"
  by (simp_all add: clear_pending_def on_bufs_def)

lemma clear_states: "states r v = Some tb \<Longrightarrow> states (clear_pending r) v = Some (tb\<lparr>pend := []\<rparr>)"
  by (simp add: clear_pending_def on_bufs_def)

lemma file_ok_pend [simp]: "file_ok v nd (tb\<lparr>pend := p\<rparr>) w = file_ok v nd tb w"
  by (simp add: file_ok_def)

lemma flush_video:
  assumes "midway v (next_dts (pend tb)) tb r" and "flush e b r = (ok, r')"
    and "writer r \<noteq> None" and "pend tb \<noteq> []"
  shows "if ok then (\<exists>tb'. midway v (Some b) tb' r' \<and> pend tb' = [] \<and> writer r' \<noteq> None) else closable v r'"
proof -
  obtain w where w: "writer r = Some w" using assms(3) by auto
  have tb: "states r v = Some tb" "is_video (tb_track tb)" "file_ok v (next_dts (pend tb)) tb w" "files_ok v r"
    "gop_cache r = []"
    using assms(1) w by (auto simp: midway_def video_tb_def)
  have nd: "next_dts (pend tb) = Some (dts (hd (pend tb)))"
    using assms(4) by (cases "pend tb") (simp_all add: next_dts_def)
  obtain ok1 r1 where wf: "write_frag e (pend_map r) b r = (ok1, r1)" by fastforce
  have pm: "pend_map r v = Some (pend tb)" using pend_map_video [OF tb(1)] assms(4) by simp
  obtain tb' w' where r1: "states r1 v = Some tb'" "writer r1 = Some w'" "pend tb' = pend tb"
    "tb_track tb' = tb_track tb" "file_ok v (Some (if ok1 then b else dts (hd (pend tb)))) tb' w'"
    using write_frag_video [OF pm assms(4) tb(1) w tb(2) tb(3) [unfolded nd] wf] by blast
  have fr: "files_ok v r1" "gop_cache r1 = []"
    using write_frag_frame [OF wf] tb(4,5) by (simp_all add: files_ok_def)
  show ?thesis
  proof (cases ok1)
    case True
    then have "ok" "r' = clear_pending r1"
      using assms(2) w wf by (auto simp: flush_def andthen_def)
    moreover have "midway v (Some b) (tb'\<lparr>pend := []\<rparr>) (clear_pending r1)"
      using True r1 fr tb(2) by (simp add: midway_def video_tb_def files_ok_def clear_states)
    ultimately show ?thesis using r1(2) by (auto intro!: exI [of _ "tb'\<lparr>pend := []\<rparr>"])
  next
    case False
    then have "\<not> ok" "r' = r1" using assms(2) w wf by (auto simp: flush_def andthen_def)
    moreover have "closable v r1"
      using False r1 fr tb(2) nd by (auto simp: closable_def video_tb_def)
    ultimately show ?thesis by simp
  qed
qed

section \<open>Closing and opening files\<close>

lemma flush_other:
  assumes "states r v = Some tb" "pend tb = []" "writer r = Some w" and "flush e b r = (ok, r')"
  shows "states r' v = Some tb \<and> (\<exists>w'. writer r' = Some w' \<and> vparts v w' = vparts v w) \<and>
     closed_files r' = closed_files r \<and> gop_cache r' = gop_cache r"
proof -
  obtain ok1 r1 where wf: "write_frag e (pend_map r) b r = (ok1, r1)" by fastforce
  have pm: "pend_map r v = None" using pend_map_video [OF assms(1)] assms(2) by simp
  obtain w' where r1: "states r1 v = Some tb" "writer r1 = Some w'" "vparts v w' = vparts v w"
    using write_frag_other [OF pm assms(1,3) wf] by blast
  have "tb\<lparr>pend := []\<rparr> = tb" using assms(2) by simp
  then have "states (clear_pending r1) v = Some tb" using clear_states [OF r1(1)] by simp
  then show ?thesis
    using assms(3,4) wf r1 write_frag_frame [OF wf]
    by (cases ok1) (auto simp: flush_def andthen_def)
qed

lemma flush_tail_eq: "\<exists>b. flush_tail e r = snd (flush e b r)"
  by (auto simp: flush_tail_def Let_def)

lemma finalize_shape:
  assumes "writer r \<noteq> None" and "flush_tail e r = r1" and "writer r1 = Some w1"
  shows "states (finalize e r) = states r1" "closed_files (finalize e r) = closed_files r1 @ [w1]"
    "writer (finalize e r) = None" "gop_cache (finalize e r) = gop_cache r1"
  using assms by (auto simp: finalize_def Let_def)

lemma finalize_closable:
  assumes "closable v r"
  shows "files_ok v (finalize e r)"
proof (cases "writer r")
  case None
  then show ?thesis using assms by (simp add: finalize_def closable_def)
next
  case (Some w)
  obtain tb where tb: "files_ok v r" "states r v = Some tb" "is_video (tb_track tb)"
    "file_ok v (next_dts (pend tb)) tb w"
    using assms Some by (auto simp: closable_def video_tb_def)
  obtain b where ft: "flush_tail e r = snd (flush e b r)" using flush_tail_eq by blast
  obtain ok r1 where fl: "flush e b r = (ok, r1)" by fastforce
  have "\<exists>w1. writer r1 = Some w1 \<and> contiguous 0 (vparts v w1) \<and> closed_files r1 = closed_files r"
  proof (cases "pend tb = []")
    case True
    then show ?thesis
      using flush_other [OF tb(2) True Some fl] tb(4) by (auto simp: file_ok_def)
  next
    case False
    have pm: "pend_map r v = Some (pend tb)" using pend_map_video [OF tb(2)] False by simp
    have nd: "next_dts (pend tb) = Some (dts (hd (pend tb)))"
      using False by (cases "pend tb") (simp_all add: next_dts_def)
    obtain ok1 r2 where wf: "write_frag e (pend_map r) b r = (ok1, r2)" by fastforce
    have "r1 = r2 \<or> r1 = clear_pending r2"
      using fl Some wf by (auto simp: flush_def andthen_def split: if_splits)
    then show ?thesis
      using write_frag_video [OF pm False tb(2) Some tb(3) tb(4) [unfolded nd] wf] write_frag_frame [OF wf]
      by (auto simp: file_ok_def)
  qed
  then obtain w1 where w1: "writer r1 = Some w1" "contiguous 0 (vparts v w1)" "closed_files r1 = closed_files r"
    by blast
  have "flush_tail e r = r1" using ft fl by simp
  from finalize_shape [OF _ this w1(1)] Some tb(1) w1(2,3) show ?thesis by (simp add: files_ok_def)
qed

lemma finalize_midway:
  assumes "midway v nd tb r" and "pend tb = []"
  shows "midway v nd tb (finalize e r) \<and> writer (finalize e r) = None"
proof (cases "writer r")
  case None
  then show ?thesis using assms by (simp add: finalize_def)
next
  case (Some w)
  have tb: "states r v = Some tb" "is_video (tb_track tb)" "gop_cache r = []" "file_ok v nd tb w" "files_ok v r"
    using assms Some by (auto simp: midway_def video_tb_def)
  obtain b where ft: "flush_tail e r = snd (flush e b r)" using flush_tail_eq by blast
  obtain ok r1 where fl: "flush e b r = (ok, r1)" by fastforce
  have r1: "flush_tail e r = r1" using ft fl by simp
  obtain w1 where w1: "states r1 v = Some tb" "writer r1 = Some w1" "vparts v w1 = vparts v w"
    "closed_files r1 = closed_files r" "gop_cache r1 = []"
    using flush_other [OF tb(1) assms(2) Some fl] tb(3) by auto
  from finalize_shape [OF _ r1 w1(2)] Some w1 tb show ?thesis
    by (simp add: midway_def video_tb_def files_ok_def file_ok_def)
qed

lemma unstarted_pend [simp]: "pend (tb\<lparr>has_start := b\<rparr>) = pend tb" "tb_track (tb\<lparr>has_start := b\<rparr>) = tb_track tb"
  by simp_all

text \<open>A freshly opened file, before the cached groups are written to it.\<close>

definition opened :: "int \<Rightarrow> int option \<Rightarrow> cached_gop list \<Rightarrow> 'x track_buf \<Rightarrow> 'x recorder \<Rightarrow> bool" where
  "opened v nd gs tb r \<longleftrightarrow> files_ok v r \<and> video_tb v r tb \<and> pend tb = [] \<and> gop_chain v nd gs \<and>
     (\<exists>w. writer r = Some w \<and> file_ok v (gop_start v nd gs) tb w)"

lemma open_segment_video:
  assumes "midway v nd tb r" "pend tb = []" "open_segment e st r = (ok, r')"
    and "writer r = None"
  shows "if ok then opened v nd (gop_cache r') (tb\<lparr>has_start := False\<rparr>) r' \<and> gop_cache r' = gop_cache r
         else closable v r'"
proof -
  have tb: "states r v = Some tb" "is_video (tb_track tb)" "files_ok v r" "gop_chain v nd (gop_cache r)"
    using assms(1) by (auto simp: midway_def video_tb_def)
  have new: "contiguous 0 (vparts v \<lparr>w_path = p, w_tracks = ts, w_seq = n, init_done = False, fragments = []\<rparr>)"
    "file_ok v nd' (tb\<lparr>has_start := False\<rparr>)
       \<lparr>w_path = p, w_tracks = ts, w_seq = n, init_done = False, fragments = []\<rparr>" for p ts n nd'
    by (simp_all add: vparts_def file_ok_def)
  show ?thesis
    using assms(3) tb new assms(2,4)
    by (auto simp: open_segment_def Let_def opened_def closable_def video_tb_def files_ok_def on_bufs_def
        split: if_splits option.splits)
qed

lemma write_gops_video:
  assumes "opened v nd gs tb r" and "write_gops e gs r = (ok, r')"
  shows "if ok then (\<exists>tb'. opened v nd [] tb' r') else closable v r'"
  using assms
proof (induction gs arbitrary: r tb)
  case Nil
  then show ?case by auto
next
  case (Cons g gs)
  obtain ss where ss: "gop_tracks g v = Some ss" "ss \<noteq> []"
    and bd: "\<forall>d. gop_start v nd gs = Some d \<longrightarrow> d = boundary_dts g" and ch: "gop_chain v nd gs"
    using Cons.prems(1) by (auto simp: opened_def)
  have nd: "next_dts ss = Some (dts (hd ss))"
    using ss(2) by (cases ss) (simp_all add: next_dts_def)
  obtain w where w: "writer r = Some w" "file_ok v (Some (dts (hd ss))) tb w"
    and tb: "states r v = Some tb" "is_video (tb_track tb)" "pend tb = []" "files_ok v r"
    using Cons.prems(1) ss nd by (auto simp: opened_def video_tb_def)
  obtain ok1 r1 where wf: "write_frag e (gop_tracks g) (boundary_dts g) r = (ok1, r1)" by fastforce
  obtain tb' w' where r1: "states r1 v = Some tb'" "writer r1 = Some w'" "pend tb' = []"
    "tb_track tb' = tb_track tb" "file_ok v (Some (if ok1 then boundary_dts g else dts (hd ss))) tb' w'"
    using write_frag_video [OF ss tb(1) w(1) tb(2) w(2) wf] tb(3) by auto
  have fr: "files_ok v r1" using write_frag_frame [OF wf] tb(4) by (simp add: files_ok_def)
  show ?case
  proof (cases ok1)
    case True
    have "file_ok v (gop_start v nd gs) tb' w'"
      using r1(5) True bd by (auto simp: file_ok_def)
    then have "opened v nd gs tb' r1"
      using r1 fr ch tb(2) by (simp add: opened_def video_tb_def)
    moreover have "write_gops e gs r1 = (ok, r')"
      using Cons.prems(2) wf True by (simp add: andthen_def)
    ultimately show ?thesis by (rule Cons.IH)
  next
    case False
    then have "\<not> ok" "r' = r1" using Cons.prems(2) wf by (simp_all add: andthen_def)
    moreover have "closable v r1"
      using r1 fr tb(2) by (auto simp: closable_def video_tb_def next_dts_def file_ok_def)
    ultimately show ?thesis by simp
  qed
qed

section \<open>Units\<close>

lemma gop_chain_snoc:
  "gop_chain v nd gs \<Longrightarrow> nd = next_dts ss \<Longrightarrow> ss \<noteq> [] \<Longrightarrow> gop_tracks g v = Some ss \<Longrightarrow>
     boundary_dts g = d \<Longrightarrow> gop_chain v (Some d) (gs @ [g])"
proof (induction gs)
  case Nil
  then show ?case by simp
next
  case (Cons h gs)
  have "gop_start v (Some d) (gs @ [g]) = gop_start v nd gs"
    using Cons.prems by (cases gs) simp_all
  with Cons show ?case by auto
qed

lemma gop_chain_prune: "gop_chain v nd gs \<Longrightarrow> gop_chain v nd (prune t win gs)"
  by (induction t win gs rule: prune.induct) auto

lemma stash_midway:
  assumes "midway v (next_dts (pend tb)) tb r" "pend tb \<noteq> []" "writer r = None" "pre_roll_enabled r"
  shows "midway v (Some d) (tb\<lparr>pend := []\<rparr>) (stash_gop d r)"
proof -
  define g where "g = \<lparr>gop_tracks = pend_map r, boundary_dts = d, gop_time = gop_wall r\<rparr>"
  have tb: "states r v = Some tb" "gop_chain v (next_dts (pend tb)) (gop_cache r)"
    using assms(1) by (auto simp: midway_def video_tb_def)
  have "gop_tracks g v = Some (pend tb)" using pend_map_video [OF tb(1)] assms(2) by (simp add: g_def)
  then have "gop_chain v (Some d) (prune (gop_wall r) (pre_roll (conf r)) (gop_cache r @ [g]))"
    using tb(2) assms(2) by (intro gop_chain_prune gop_chain_snoc [where nd = "next_dts (pend tb)"])
      (simp_all add: g_def)
  moreover have "states (stash_gop d r) v = Some (tb\<lparr>pend := []\<rparr>)"
    unfolding stash_gop_def Let_def by (rule clear_states) (simp add: tb(1))
  ultimately show ?thesis
    using assms(1,3,4)
    by (simp add: midway_def video_tb_def files_ok_def stash_gop_def Let_def g_def pre_roll_enabled_def)
qed

lemma clear_midway:
  assumes "midway v nd tb r" "writer r = None" "gop_cache r = []"
  shows "midway v nd' (tb\<lparr>pend := []\<rparr>) (clear_pending r)"
  using assms by (simp add: midway_def video_tb_def files_ok_def clear_states)

lemma close_gop_video:
  assumes "midway v (next_dts (pend tb)) tb r" and "writer r \<noteq> None \<or> gop_cache r \<noteq> [] \<longrightarrow> pend tb \<noteq> []"
    and "close_gop e d tb r = (ok, r')"
  shows "if ok then (\<exists>tb'. midway v (Some d) tb' r' \<and> pend tb' = []) else closable v r'"
proof (cases "pend tb = []")
  case True
  then have "writer r = None" "gop_cache r = []" "r' = r" ok using assms(2,3) by (auto simp: close_gop_def)
  then show ?thesis using assms(1) True by (auto simp: midway_def)
next
  case False
  consider "writer r \<noteq> None" | "writer r = None" "pre_roll_enabled r" | "writer r = None" "\<not> pre_roll_enabled r"
    by blast
  then show ?thesis
  proof cases
    case 1
    then have "flush e d r = (ok, r')" using assms(3) False by (simp add: close_gop_def)
    from flush_video [OF assms(1) this 1 False] show ?thesis by (auto split: if_splits)
  next
    case 2
    then have "ok" "r' = stash_gop d r" using assms(3) False by (simp_all add: close_gop_def)
    then show ?thesis using stash_midway [OF assms(1) False 2, of d] by (auto intro!: exI [of _ "tb\<lparr>pend := []\<rparr>"])
  next
    case 3
    then have "ok" "r' = clear_pending r" using assms(3) False by (simp_all add: close_gop_def)
    moreover have "gop_cache r = []" using assms(1) 3 by (auto simp: midway_def)
    ultimately show ?thesis using clear_midway [OF assms(1) 3(1), of "Some d"] by (auto intro!: exI [of _ "tb\<lparr>pend := []\<rparr>"])
  qed
qed

lemma switch_segment_video:
  assumes "midway v (Some d) tb r" "pend tb = []" and "switch_segment e act r = (ok, r')"
  shows "if ok then (\<exists>tb'. midway v (Some d) tb' r' \<and> pend tb' = [] \<and> (act \<longrightarrow> gop_cache r' = []) \<and>
           (\<not> act \<longrightarrow> writer r' = None))
         else closable v r'"
proof -
  have open_new: "if ok2 then (\<exists>tb'. midway v (Some d) tb' r2 \<and> pend tb' = [] \<and> gop_cache r2 = []) else closable v r2"
    if o: "midway v (Some d) tb r1" "writer r1 = None" "gop_cache r1 = []" "open_segment e st r1 = (ok2, r2)"
    for r1 r2 ok2 st
    using open_segment_video [OF o(1) assms(2) o(4,2)] o(3)
    by (auto simp: opened_def midway_def split: if_splits)
  consider "act" "writer r = None" | "act" "writer r \<noteq> None" "rotate_due (clock e) r"
    | "act" "writer r \<noteq> None" "\<not> rotate_due (clock e) r" | "\<not> act" "writer r \<noteq> None" | "\<not> act" "writer r = None"
    by blast
  then show ?thesis
  proof cases
    case 1
    define st where "st = (case gop_cache r of [] \<Rightarrow> clock e | g # _ \<Rightarrow> gop_time g)"
    obtain ok1 r1 where op: "open_segment e st r = (ok1, r1)" by fastforce
    have "switch_segment e act r = andthen (open_segment e st) (write_preroll e) r"
      using 1 by (simp add: switch_segment_def st_def)
    then have sw: "(if ok1 then write_preroll e r1 else (False, r1)) = (ok, r')"
      using assms(3) op by (simp add: andthen_def)
    show ?thesis
    proof (cases ok1)
      case False
      then show ?thesis
        using sw open_segment_video [OF assms(1,2) op 1(2)] by auto
    next
      case True
      have od: "opened v (Some d) (gop_cache r1) (tb\<lparr>has_start := False\<rparr>) r1"
        using open_segment_video [OF assms(1,2) op 1(2)] True by (metis (full_types))
      obtain ok2 r2 where wg: "write_gops e (gop_cache r1) r1 = (ok2, r2)" by fastforce
      have r': "(if ok2 then (True, r2\<lparr>gop_cache := []\<rparr>) else (False, r2)) = (ok, r')"
        using sw True wg by (simp add: write_preroll_def andthen_def)
      from write_gops_video [OF od wg] r' 1(1) show ?thesis
        by (auto simp: opened_def midway_def video_tb_def files_ok_def split: if_splits)
    qed
  next
    case 2
    have fm: "midway v (Some d) tb (finalize e r)" "writer (finalize e r) = None"
      using finalize_midway [OF assms(1,2)] by simp_all
    have "gop_cache (finalize e r) = []"
    proof -
      obtain w where w: "writer r = Some w" using 2 by auto
      then have tb: "states r v = Some tb" "gop_cache r = []" using assms(1) by (auto simp: midway_def video_tb_def)
      obtain b where ft: "flush_tail e r = snd (flush e b r)" using flush_tail_eq by blast
      obtain ok3 r3 where fl: "flush e b r = (ok3, r3)" by fastforce
      obtain w3 where "writer r3 = Some w3" "gop_cache r3 = []"
        using flush_other [OF tb(1) assms(2) w fl] tb(2) by auto
      then show ?thesis using finalize_shape [OF 2(2), of e r3 w3] ft fl by simp
    qed
    with fm have "if ok then (\<exists>tb'. midway v (Some d) tb' r' \<and> pend tb' = [] \<and> gop_cache r' = []) else closable v r'"
      using assms(3) 2 by (intro open_new [where st = "clock e"]) (simp_all add: switch_segment_def)
    then show ?thesis using 2(1) by (auto split: if_splits)
  next
    case 3
    then show ?thesis using assms by (auto simp: switch_segment_def midway_def)
  next
    case 4
    then show ?thesis
      using assms(2,3) finalize_midway [OF assms(1,2)] by (auto simp: switch_segment_def)
  next
    case 5
    then show ?thesis using assms by (auto simp: switch_segment_def)
  qed
qed

lemma take_sample_video:
  assumes "midway v (Some d) tb r" "pend tb = []" and "take_sample avcc v d u r = (ok, r')"
    and "writer r \<noteq> None \<longrightarrow> gop_cache r = []"
  shows "if ok then steady v r' else closable v r'"
proof (cases "avcc (aus u)")
  case None
  then show ?thesis
    using assms midway_empty_closable [OF assms(1,2)] by (auto simp: take_sample_def)
next
  case (Some pl)
  have tb: "states r v = Some tb" using assms(1) by (simp add: midway_def video_tb_def)
  define s where "s = \<lparr>dts = d, pts_offset = word_of_int (pts u - d), is_sync = random_access u, payload = pl\<rparr>"
  have ok: "ok" and r': "r' = put_buf v (append_sample s tb) r"
    using assms(3) Some tb by (simp_all add: take_sample_def s_def)
  have "pend (append_sample s tb) = [s]" "next_dts [s] = Some d"
    using assms(2) by (simp_all add: append_sample_def next_dts_def s_def)
  then have "midway v (next_dts (pend (append_sample s tb))) (append_sample s tb) r' \<and> pend (append_sample s tb) \<noteq> []"
    using assms(1) by (simp add: r' midway_def video_tb_def put_buf_def files_ok_def append_sample_def
        file_ok_def pre_roll_enabled_def)
  then show ?thesis using ok by (auto simp: steady_def)
qed

lemma take_sample_more:
  assumes "midway v (next_dts (pend tb)) tb r" "pend tb \<noteq> []" and "take_sample avcc v d u r = (ok, r')"
  shows "if ok then steady v r' else closable v r'"
proof (cases "avcc (aus u)")
  case None
  then show ?thesis using assms by (auto simp: take_sample_def closable_def midway_def)
next
  case (Some pl)
  have tb: "states r v = Some tb" using assms(1) by (simp add: midway_def video_tb_def)
  define s where "s = \<lparr>dts = d, pts_offset = word_of_int (pts u - d), is_sync = random_access u, payload = pl\<rparr>"
  have ok: "ok" and r': "r' = put_buf v (append_sample s tb) r"
    using assms(3) Some tb by (simp_all add: take_sample_def s_def)
  have "next_dts (pend (append_sample s tb)) = next_dts (pend tb)"
    using assms(2) by (cases "pend tb") (simp_all add: append_sample_def next_dts_def)
  then have "midway v (next_dts (pend (append_sample s tb))) (append_sample s tb) r' \<and> pend (append_sample s tb) \<noteq> []"
    using assms(1) by (simp add: r' midway_def video_tb_def put_buf_def files_ok_def append_sample_def
        file_ok_def pre_roll_enabled_def)
  then show ?thesis using ok by (auto simp: steady_def)
qed

lemma set_wall_midway [simp]: "midway v nd tb (r\<lparr>gop_wall := t\<rparr>) = midway v nd tb r"
  by (simp add: midway_def video_tb_def files_ok_def pre_roll_enabled_def)

lemma handle_key_video:
  assumes "midway v (next_dts (pend tb)) tb r" and "writer r \<noteq> None \<or> gop_cache r \<noteq> [] \<longrightarrow> pend tb \<noteq> []"
    and "handle_key e avcc v d tb u r = (ok, r')"
  shows "if ok then steady v r' else closable v r'"
proof -
  obtain ok1 r1 where c: "close_gop e d tb r = (ok1, r1)" by fastforce
  show ?thesis
  proof (cases ok1)
    case False
    then show ?thesis
      using close_gop_video [OF assms(1,2) c] assms(3) by (auto simp: handle_key_def andthen_def c)
  next
    case True
    then obtain tb1 where tb1: "midway v (Some d) tb1 r1" "pend tb1 = []"
      using close_gop_video [OF assms(1,2) c] by auto
    define act where "act \<longleftrightarrow> \<not> has_gate (conf r) \<or> gate e"
    define r1' where "r1' = r1\<lparr>gop_wall := clock e\<rparr>"
    obtain ok2 r2 where sw: "switch_segment e act r1' = (ok2, r2)" by fastforce
    have m1: "midway v (Some d) tb1 r1'" using tb1(1) by (simp add: r1'_def)
    note sv = switch_segment_video [OF m1 tb1(2) sw]
    have res: "(ok, r') = (if \<not> ok2 then (False, r2)
        else if \<not> act \<and> \<not> pre_roll_enabled r2 then (True, r2) else take_sample avcc v d u r2)"
      using assms(3) True c sw by (auto simp: handle_key_def andthen_def act_def r1'_def Let_def)
    show ?thesis
    proof (cases ok2)
      case False
      then show ?thesis using sv res by auto
    next
      case True
      then obtain tb2 where tb2: "midway v (Some d) tb2 r2" "pend tb2 = []" "\<not> act \<longrightarrow> writer r2 = None"
        using sv by auto
      show ?thesis
      proof (cases "\<not> act \<and> \<not> pre_roll_enabled r2")
        case False
        then have ts: "take_sample avcc v d u r2 = (ok, r')" using res True by auto
        have "writer r2 \<noteq> None \<longrightarrow> gop_cache r2 = []" using tb2(1) by (auto simp: midway_def)
        then show ?thesis by (rule take_sample_video [OF tb2(1,2) ts])
      next
        case t: True
        then have "ok" "r' = r2" using res True by auto
        moreover have "gop_cache r2 = []" using tb2(1) t by (auto simp: midway_def)
        moreover have "writer r2 = None" using tb2(3) t by simp
        ultimately show ?thesis using tb2 by (auto simp: steady_def midway_def)
      qed
    qed
  qed
qed

lemma put_same_midway:
  assumes "midway v nd tb r" and "tb_track tb' = tb_track tb" "has_start tb' = has_start tb" "file_start tb' = file_start tb"
  shows "midway v nd tb' (put_buf v tb' r)"
  using assms by (simp add: midway_def video_tb_def put_buf_def files_ok_def file_ok_def pre_roll_enabled_def)

lemma handle_video_steady:
  assumes "steady v r" "states r v = Some tb" and "handle_video e extractor avcc v tb u r = (ok, r')"
  shows "if ok then steady v r' else closable v r'"
proof -
  obtain od x where ex: "extractor (ext tb) (track_codec (tb_track tb)) (aus u) (pts u) = (od, x)" by fastforce
  define tb1 where "tb1 = tb\<lparr>ext := x\<rparr>"
  define r1 where "r1 = put_buf v tb1 r"
  have st: "midway v (next_dts (pend tb)) tb r" "writer r \<noteq> None \<or> gop_cache r \<noteq> [] \<longrightarrow> pend tb \<noteq> []"
    using assms(1,2) by (auto simp: steady_def midway_def video_tb_def)
  have m: "midway v (next_dts (pend tb1)) tb1 r1"
    unfolding r1_def by (rule put_same_midway [OF _, where tb = tb]) (use st in \<open>simp_all add: tb1_def\<close>)
  have p: "writer r1 \<noteq> None \<or> gop_cache r1 \<noteq> [] \<longrightarrow> pend tb1 \<noteq> []"
    using st(2) by (simp add: r1_def tb1_def put_buf_def)
  define drop_it where "drop_it \<longleftrightarrow> writer r1 = None \<and> \<not> (pre_roll_enabled r1 \<and> pend tb1 \<noteq> [])"
  have hv: "handle_video e extractor avcc v tb u r =
      (case od of None \<Rightarrow> (True, r1)
       | Some d \<Rightarrow> if random_access u then handle_key e avcc v d tb1 u r1
                   else if drop_it then (True, r1) else take_sample avcc v d u r1)"
    unfolding drop_it_def handle_video_def ex Let_def prod.case tb1_def r1_def ..
  have idle: "steady v r1" using m p by (auto simp: steady_def)
  show ?thesis
  proof (cases od)
    case None
    then show ?thesis using hv assms(3) idle by auto
  next
    case (Some d)
    consider "random_access u" | "\<not> random_access u" drop_it | "\<not> random_access u" "\<not> drop_it" by blast
    then show ?thesis
    proof cases
      case 1
      then have "handle_key e avcc v d tb1 u r1 = (ok, r')" using hv assms(3) Some by simp
      then show ?thesis by (rule handle_key_video [OF m p])
    next
      case 2
      then have "(True, r1) = (ok, r')" using hv assms(3) Some by simp
      then show ?thesis using idle by auto
    next
      case 3
      then have "take_sample avcc v d u r1 = (ok, r')" using hv assms(3) Some by simp
      moreover have "pend tb1 \<noteq> []" using 3 p unfolding drop_it_def by blast
      ultimately show ?thesis using take_sample_more [OF m] by blast
    qed
  qed
qed

lemma handle_audio_steady:
  assumes "steady v r" "i \<noteq> v" "video_track r \<noteq> None" and "handle_audio e i tb u r = (ok, r')"
  shows "ok \<and> steady v r'"
  using assms by (auto simp: handle_audio_def Let_def put_buf_def steady_def midway_def video_tb_def
      files_ok_def pre_roll_enabled_def)

section \<open>What no operation changes\<close>

definition kinds :: "'x recorder \<Rightarrow> (int \<Rightarrow> track option) \<times> track option" where
  "kinds r = ((\<lambda>i. map_option tb_track (states r i)), video_track r)"

definition keeps :: "'x action \<Rightarrow> bool" where
  "keeps f \<longleftrightarrow> (\<forall>r. kinds (snd (f r)) = kinds r)"

lemma keepsD: "keeps f \<Longrightarrow> f r = (ok, r') \<Longrightarrow> kinds r' = kinds r"
  unfolding keeps_def by (metis snd_conv)

lemma keeps_app: "keeps f \<Longrightarrow> kinds (snd (f r)) = kinds r"
  by (simp add: keeps_def)

lemma keeps_andthen [intro]: "keeps f \<Longrightarrow> keeps g \<Longrightarrow> keeps (andthen f g)"
  by (simp add: keeps_def andthen_def case_prod_unfold Let_def)

lemma kinds_on_bufs: "(\<And>tb. tb_track (f tb) = tb_track tb) \<Longrightarrow> kinds (on_bufs f r) = kinds r"
  by (simp add: kinds_def on_bufs_def option.map_comp comp_def)

lemma kinds_clear [simp]: "kinds (clear_pending r) = kinds r"
  unfolding clear_pending_def by (rule kinds_on_bufs) simp

lemma kinds_fields [simp]:
  "kinds (r\<lparr>gop_cache := c\<rparr>) = kinds r" "kinds (r\<lparr>gop_wall := t\<rparr>) = kinds r"
  "kinds (r\<lparr>writer := w\<rparr>) = kinds r" "kinds (r\<lparr>closed_files := fs\<rparr>) = kinds r"
  "kinds (r\<lparr>recording_id := i\<rparr>) = kinds r" "kinds (r\<lparr>rel_path := p\<rparr>) = kinds r"
  "kinds (r\<lparr>io_calls := n\<rparr>) = kinds r" "kinds (r\<lparr>finals := x\<rparr>) = kinds r"
  "kinds (r\<lparr>segment_start := t\<rparr>) = kinds r" "kinds (r\<lparr>segment_end := t\<rparr>) = kinds r"
  by (simp_all add: kinds_def)

lemma keeps_write_frag: "keeps (write_frag e per b)"
  by (auto simp: keeps_def write_frag_def kinds_def Let_def case_prod_unfold anchor_def fun_eq_iff
      split: option.split)

lemma keeps_flush: "keeps (flush e b)"
proof -
  have "kinds (snd (flush e b r)) = kinds r" for r :: "'a recorder"
    by (simp add: flush_def andthen_def case_prod_unfold Let_def keeps_app [OF keeps_write_frag])
  then show ?thesis by (simp add: keeps_def)
qed

lemma kinds_finalize: "kinds (finalize e r) = kinds r"
proof -
  obtain b where "flush_tail e r = snd (flush e b r)" using flush_tail_eq by blast
  then have "kinds (flush_tail e r) = kinds r" by (simp add: keeps_app [OF keeps_flush])
  then show ?thesis by (simp add: finalize_def Let_def split: option.split)
qed

lemma kinds_unstart [simp]: "kinds (on_bufs (\<lambda>tb. tb\<lparr>has_start := b\<rparr>) r) = kinds r"
  by (rule kinds_on_bufs) simp

lemma keeps_open: "keeps (open_segment e st)"
  by (simp add: keeps_def open_segment_def Let_def split: option.split)

lemma keeps_write_gops: "keeps (write_gops e gs :: 'x action)"
proof (induction gs)
  case Nil
  then show ?case by (simp add: keeps_def)
next
  case (Cons g gs)
  then have "keeps (andthen (write_frag e (gop_tracks g) (boundary_dts g)) (write_gops e gs) :: 'x action)"
    by (intro keeps_andthen keeps_write_frag)
  then show ?case by (simp add: keeps_def)
qed

lemma keeps_preroll: "keeps (write_preroll e)"
proof -
  have "kinds (snd (write_preroll e r)) = kinds r" for r :: "'a recorder"
    by (simp add: write_preroll_def andthen_def case_prod_unfold Let_def keeps_app [OF keeps_write_gops])
  then show ?thesis by (simp add: keeps_def)
qed

lemma keeps_close_gop: "keeps (close_gop e d tb)"
  by (simp add: keeps_def close_gop_def stash_gop_def Let_def keeps_app [OF keeps_flush])

lemma keeps_switch: "keeps (switch_segment e act)"
proof -
  have "kinds (snd (switch_segment e act r)) = kinds r" for r :: "'a recorder"
  proof -
    show ?thesis
      by (simp add: switch_segment_def kinds_finalize keeps_app [OF keeps_open]
          keeps_app [OF keeps_andthen [OF keeps_open keeps_preroll]])
  qed
  then show ?thesis by (simp add: keeps_def)
qed

lemma kinds_put: "states r i = Some tb \<Longrightarrow> tb_track tb' = tb_track tb \<Longrightarrow> kinds (put_buf i tb' r) = kinds r"
  by (auto simp: kinds_def put_buf_def fun_eq_iff)

lemma keeps_take: "keeps (take_sample avcc i d u)"
  by (auto simp: keeps_def take_sample_def kinds_put append_sample_def split: option.split)

lemma keeps_key: "keeps (handle_key e avcc i d tb u)"
proof -
  have "keeps (\<lambda>r. switch_segment e act (r\<lparr>gop_wall := t\<rparr>))" for act t
    by (simp add: keeps_def keeps_app [OF keeps_switch])
  moreover have "keeps (\<lambda>r. if \<not> act \<and> \<not> pre_roll_enabled r then (True, r) else take_sample avcc i d u r)" for act
    by (simp add: keeps_def keeps_app [OF keeps_take])
  ultimately have K: "keeps (andthen (close_gop e d tb) (andthen (\<lambda>r. switch_segment e act (r\<lparr>gop_wall := clock e\<rparr>))
      (\<lambda>r. if \<not> act \<and> \<not> pre_roll_enabled r then (True, r) else take_sample avcc i d u r)))" for act
    by (intro keeps_andthen keeps_close_gop)
  show ?thesis unfolding keeps_def handle_key_def Let_def by (intro allI keeps_app [OF K])
qed

lemma fold_append_track: "tb_track (fold append_sample ss tb) = tb_track tb"
  by (induction ss arbitrary: tb) (simp_all add: append_sample_def)

lemma kinds_unit:
  assumes "handle_unit e extractor avcc u r = (ok, r')"
  shows "kinds r' = kinds r"
proof (cases "states r (unit_track u)")
  case None
  then show ?thesis using assms by (simp add: handle_unit_def)
next
  case (Some tb)
  let ?i = "unit_track u"
  have aud: "kinds (snd (handle_audio e ?i tb u r)) = kinds r"
  proof -
    have "kinds (put_buf ?i (fold append_sample (audio_samples (pts u) 0 (aus u)) tb) r) = kinds r"
      using Some by (rule kinds_put) (rule fold_append_track)
    moreover have "keeps (andthen (\<lambda>r :: 'a recorder. if writer r = None then open_segment e (clock e) r
        else if rotate_due (clock e) r then open_segment e (clock e) (finalize e r) else (True, r)) (flush e b))" for b
      by (intro keeps_andthen keeps_flush) (simp add: keeps_def kinds_finalize keeps_app [OF keeps_open])
    ultimately show ?thesis by (simp add: handle_audio_def Let_def keeps_app)
  qed
  have vid: "kinds (snd (handle_video e extractor avcc ?i tb u r)) = kinds r"
  proof -
    have "kinds (put_buf ?i (tb\<lparr>ext := x\<rparr>) r) = kinds r" for x
      using Some by (rule kinds_put) simp
    then show ?thesis
      by (simp add: handle_video_def Let_def case_prod_unfold keeps_app [OF keeps_key] keeps_app [OF keeps_take]
          split: option.split)
  qed
  show ?thesis
    using assms Some aud vid by (auto simp: handle_unit_def split: if_splits)
qed

section \<open>The timeline of every file\<close>

definition sole_video :: "int \<Rightarrow> (int \<Rightarrow> track option) \<times> track option \<Rightarrow> bool" where
  "sole_video v k \<longleftrightarrow> snd k \<noteq> None \<and> (\<forall>i t. fst k i = Some t \<longrightarrow> (is_video t \<longleftrightarrow> i = v))"

lemma handle_unit_steady:
  assumes "steady v r" "sole_video v (kinds r)" and "handle_unit e extractor avcc u r = (ok, r')"
  shows "if ok then steady v r' else closable v r'"
proof (cases "states r (unit_track u)")
  case None
  then show ?thesis using assms by (auto simp: handle_unit_def)
next
  case (Some tb)
  then have "is_video (tb_track tb) \<longleftrightarrow> unit_track u = v" "video_track r \<noteq> None"
    using assms(2) by (auto simp: sole_video_def kinds_def)
  then show ?thesis
    using handle_video_steady [OF assms(1), of tb e extractor avcc u ok r'] Some assms(3)
      handle_audio_steady [OF assms(1), of "unit_track u" e tb u ok r']
    by (auto simp: handle_unit_def split: if_splits)
qed

lemma handle_all_closable:
  assumes "steady v r" "sole_video v (kinds r)"
  shows "closable v (snd (handle_all extractor avcc us r))"
  using assms
proof (induction us arbitrary: r)
  case Nil
  then show ?case by (simp add: steady_closable)
next
  case (Cons eu us)
  obtain e u where eu: "eu = (e, u)" by fastforce
  obtain ok r1 where h: "handle_unit e extractor avcc u r = (ok, r1)" by fastforce
  show ?case
    using handle_unit_steady [OF Cons.prems h] kinds_unit [OF h] Cons
    by (cases ok) (simp_all add: eu andthen_def h)
qed

lemma init_states:
  assumes "distinct (map track_id ts)"
  shows "states (init_tracks x0 ts r) i = Some tb \<longleftrightarrow> (\<exists>t \<in> set ts. i = track_id t \<and> tb = new_buf x0 t)"
proof -
  have "distinct (map fst (rev (map (\<lambda>t. (track_id t, new_buf x0 t)) ts)))"
    using assms by (simp add: rev_map [symmetric] comp_def)
  from map_of_eq_Some_iff [OF this, of i tb] show ?thesis
    by (auto simp: init_tracks_def)
qed

lemma init_steady:
  assumes "distinct (map track_id ts)" "t \<in> set ts" "is_video t" "\<forall>t' \<in> set ts. is_video t' \<longrightarrow> t' = t"
  shows "steady (track_id t) (init_tracks x0 ts (new_recorder c)) \<and>
         sole_video (track_id t) (kinds (init_tracks x0 ts (new_recorder c)))"
proof -
  define r where "r = init_tracks x0 ts (new_recorder c)"
  have ms: "states r i = Some tb \<longleftrightarrow> (\<exists>t \<in> set ts. i = track_id t \<and> tb = new_buf x0 t)" for i tb
    unfolding r_def by (rule init_states [OF assms(1)])
  have r: "closed_files r = []" "writer r = None" "gop_cache r = []"
    by (simp_all add: r_def init_tracks_def new_recorder_def)
  have "video_track r \<noteq> None"
    using assms(2,3) by (auto simp: r_def init_tracks_def new_recorder_def find_None_iff)
  moreover have "states r (track_id t) = Some (new_buf x0 t)" using ms assms(2) by blast
  moreover have kd: "is_video (tb_track tb) \<longleftrightarrow> i = track_id t" if st: "states r i = Some tb" for i tb
  proof -
    obtain t' where t': "t' \<in> set ts" "i = track_id t'" "tb = new_buf x0 t'" using st ms by blast
    then have "tb_track tb = t'" by (simp add: new_buf_def)
    moreover have "track_id t' = track_id t \<longleftrightarrow> t' = t"
      using assms(1,2) t'(1) by (metis distinct_map inj_onD)
    ultimately show ?thesis using assms(3,4) t' by auto
  qed
  ultimately have tb: "video_tb (track_id t) r (new_buf x0 t)" "video_track r \<noteq> None"
    using assms(3) by (simp_all add: video_tb_def new_buf_def)
  have "midway (track_id t) (next_dts (pend (new_buf x0 t))) (new_buf x0 t) r"
    using tb(1) r by (simp add: midway_def files_ok_def)
  then have "steady (track_id t) r" unfolding steady_def using r by blast
  moreover have "sole_video (track_id t) (kinds r)"
    using tb(2) kd by (auto simp: sole_video_def kinds_def)
  ultimately show ?thesis by (simp add: r_def)
qed

text \<open>
  C27: in every file the recorder leaves behind, the parts of the video track follow each other
  exactly, the first at time 0: each starts where the durations before it end (as 32-bit ticks,
  whatever the timestamps do).  This holds across rotation, gating and pre-roll replay, for any
  schedule of write, open and sink failures and any gate and clock, for every stream with one
  video track.
\<close>

theorem recorded_timeline:
  assumes "distinct (map track_id ts)" "t \<in> set ts" "is_video t" "\<forall>t' \<in> set ts. is_video t' \<longrightarrow> t' = t"
  shows "\<forall>w \<in> set (closed_files (snd (recorder_run extractor avcc x0 ts e_end us (new_recorder c)))).
           contiguous 0 (vparts (track_id t) w)"
proof -
  define c' where "c' = (if seg_dur c \<le> 0 then c\<lparr>seg_dur := 600000000000\<rparr> else c)"
  define r where "r = init_tracks x0 ts (new_recorder c')"
  have "steady (track_id t) r" "sole_video (track_id t) (kinds r)"
    using init_steady [OF assms, of x0 c'] by (simp_all add: r_def)
  then have "closable (track_id t) (snd (handle_all extractor avcc us r))"
    by (rule handle_all_closable)
  then have "files_ok (track_id t) (finalize e_end (snd (handle_all extractor avcc us r)))"
    by (rule finalize_closable)
  moreover have "new_recorder c\<lparr>conf := c'\<rparr> = new_recorder c'" by (simp add: new_recorder_def)
  ultimately show ?thesis
    unfolding recorder_run_def Let_def case_prod_unfold files_ok_def r_def c'_def
    by (simp add: new_recorder_def)
qed

definition sample_track :: track where
  "sample_track = \<lparr>track_id = 1, kind = MediaVideo, track_codec = CodecH264, clock_rate = 90000,
     sps = [1], pps = [2], vps = [], audio_config = None\<rparr>"

definition sample_rec_env :: "int \<Rightarrow> rec_env" where
  "sample_rec_env t = \<lparr>clock = t, gate = True, io = (\<lambda>n. True), sink_id = (\<lambda>n. Some ''r''),
     local_of = (\<lambda>t. \<lparr>year = 2024, month = 1, day = 1, hour = 0, minute = 0, second = 0, unix = 0\<rparr>),
     midnight_of = (\<lambda>t. 0), file_size = (\<lambda>w. 0)\<rparr>"

definition sample_rec_config :: rec_config where
  "sample_rec_config = \<lparr>c_camera_id = ''c'', c_camera_name = ''c'', c_root = [], seg_dur = 10,
     c_template = ''x'', align_to_clock = False, has_gate = False, pre_roll = 0\<rparr>"

definition picture :: "int \<Rightarrow> bool \<Rightarrow> media_unit" where
  "picture p key = \<lparr>unit_track = 1, pts = p, ntp = 0, random_access = key, aus = [[7]]\<rparr>"

theorem recorded_timeline_witness:
  "list_all (\<lambda>w. contiguous 0 (vparts 1 w)) (closed_files (snd (recorder_run (\<lambda>x c a p. (Some p, x)) (\<lambda>a. Some (concat a)) ()
      [sample_track] (sample_rec_env 50)
      [(sample_rec_env 1, picture 0 True), (sample_rec_env 2, picture 3000 False),
       (sample_rec_env 20, picture 6000 True)] (new_recorder sample_rec_config))))"
proof -
  have "is_video sample_track" "track_id sample_track = 1" by (simp_all add: sample_track_def is_video_def)
  then show ?thesis
    using recorded_timeline [where ts = "[sample_track]" and t = sample_track] by (simp add: list_all_iff)
qed

section \<open>No picture is lost\<close>

definition core :: "rec_sample \<Rightarrow> u32 \<times> bool \<times> byte list" where
  "core s = (pts_offset s, is_sync s, payload s)"

definition stored :: "int \<Rightarrow> mp4_writer \<Rightarrow> (u32 \<times> bool \<times> byte list) list" where
  "stored v w = concat (map (\<lambda>p. map (\<lambda>f. (s_pts_offset f, \<not> s_non_sync f, s_payload f)) (part_samples p))
     (vparts v w))"

definition vlog :: "int \<Rightarrow> 'x recorder \<Rightarrow> (u32 \<times> bool \<times> byte list) list" where
  "vlog v r = concat (map (stored v) (closed_files r)) @
     (case writer r of None \<Rightarrow> [] | Some w \<Rightarrow> stored v w) @
     (case states r v of None \<Rightarrow> [] | Some tb \<Rightarrow> map core (pend tb))"

lemma frag_samples_core:
  "map (\<lambda>f. (s_pts_offset f, \<not> s_non_sync f, s_payload f)) (frag_samples vid b ss) = map core ss"
  by (induction ss) (simp_all add: core_def)

lemma write_frag_log:
  assumes "per v = Some ss" "ss \<noteq> []" "states r v = Some tb" "writer r = Some w"
    and "write_frag e per b r = (True, r')"
  shows "states r' v = Some (anchor ss tb) \<and>
     (\<exists>w'. writer r' = Some w' \<and> stored v w' = stored v w @ map core ss)"
proof -
  let ?st = "\<lambda>i. case states r i of None \<Rightarrow> None
     | Some tb \<Rightarrow> Some (case per i of None \<Rightarrow> tb | Some ss \<Rightarrow> anchor ss tb)"
  let ?parts = "\<lambda>i. case (?st i, per i) of
     (Some tb, Some ss) \<Rightarrow> if ss = [] then None else Some (part_of b tb ss) | _ \<Rightarrow> None"
  obtain w' where wf: "write_fragment (io e (io_calls r)) ?parts w = (True, w')"
    and r': "r' = r\<lparr>states := ?st, writer := Some w', io_calls := io_calls r + 1\<rparr>"
    using assms(4,5) by (auto simp: write_frag_def Let_def split: prod.splits)
  have "vparts v w' = vparts v w @ [part_of b (anchor ss tb) ss]"
    using write_fragment_vparts [OF wf, of v] assms(1-3) by simp
  then have "stored v w' = stored v w @ map core ss"
    by (simp add: stored_def part_of_def frag_samples_core)
  then show ?thesis using assms(1,3) by (simp add: r')
qed

lemma flush_log:
  assumes "states r v = Some tb" "writer r = Some w" "pend tb \<noteq> []" "flush e b r = (True, r')"
  shows "(\<exists>tb'. states r' v = Some tb' \<and> pend tb' = [] \<and> ext tb' = ext tb) \<and> writer r' \<noteq> None \<and>
     vlog v r' = vlog v r \<and> gop_cache r' = gop_cache r \<and> conf r' = conf r"
proof -
  obtain ok1 r1 where wf: "write_frag e (pend_map r) b r = (ok1, r1)" by fastforce
  then have ok1: "ok1" "r' = clear_pending r1"
    using assms(2,4) by (auto simp: flush_def andthen_def split: if_splits)
  have pm: "pend_map r v = Some (pend tb)" using pend_map_video [OF assms(1)] assms(3) by simp
  have wfT: "write_frag e (pend_map r) b r = (True, r1)" using wf ok1(1) by simp
  obtain w' where r1: "states r1 v = Some (anchor (pend tb) tb)" "writer r1 = Some w'"
    "stored v w' = stored v w @ map core (pend tb)"
    using write_frag_log [where per = "pend_map r", OF pm assms(3,1,2) wfT] by auto
  show ?thesis
    using ok1 r1 clear_states [OF r1(1)] write_frag_frame [OF wf] assms(1,2)
    by (simp add: vlog_def anchor_def)
qed

lemma finalize_log:
  assumes "states r v = Some tb" "writer r = Some w" "pend tb = []"
  shows "states (finalize e r) v = Some tb \<and> writer (finalize e r) = None \<and>
     vlog v (finalize e r) = vlog v r \<and> gop_cache (finalize e r) = gop_cache r"
proof -
  obtain b where ft: "flush_tail e r = snd (flush e b r)" using flush_tail_eq by blast
  obtain ok r1 where fl: "flush e b r = (ok, r1)" by fastforce
  have r1: "flush_tail e r = r1" using ft fl by simp
  obtain w1 where w1: "states r1 v = Some tb" "writer r1 = Some w1" "vparts v w1 = vparts v w"
    "closed_files r1 = closed_files r" "gop_cache r1 = gop_cache r"
    using flush_other [OF assms(1,3,2) fl] by auto
  show ?thesis
    using finalize_shape [OF _ r1 w1(2)] w1 assms by (simp add: vlog_def stored_def)
qed

lemma open_log:
  assumes "states r v = Some tb" "writer r = None" "open_segment e st r = (True, r')"
  shows "(\<exists>tb'. states r' v = Some tb' \<and> pend tb' = pend tb \<and> ext tb' = ext tb) \<and> writer r' \<noteq> None \<and>
     vlog v r' = vlog v r \<and> gop_cache r' = gop_cache r"
  using assms
  by (auto simp: open_segment_def Let_def on_bufs_def vlog_def stored_def vparts_def
      split: if_splits option.splits)

lemma conf_write_frag: "conf (snd (write_frag e per b r)) = conf r"
  by (simp add: write_frag_def Let_def case_prod_unfold split: option.split)

lemma conf_flush: "conf (snd (flush e b r)) = conf r"
  by (simp add: flush_def andthen_def case_prod_unfold Let_def conf_write_frag)

lemma conf_finalize: "conf (finalize e r) = conf r"
proof -
  obtain b where "flush_tail e r = snd (flush e b r)" using flush_tail_eq by blast
  then have "conf (flush_tail e r) = conf r" by (simp add: conf_flush)
  then show ?thesis by (simp add: finalize_def Let_def split: option.split)
qed

lemma conf_open: "conf (snd (open_segment e st r)) = conf r"
  by (simp add: open_segment_def Let_def on_bufs_def split: option.split)

text \<open>Continuous recording between units; \<open>started\<close> says that the first keyframe has been seen.\<close>

definition continuous :: "int \<Rightarrow> bool \<Rightarrow> 'x \<Rightarrow> 'x recorder \<Rightarrow> bool" where
  "continuous v started x r \<longleftrightarrow> \<not> has_gate (conf r) \<and> gop_cache r = [] \<and>
     (writer r \<noteq> None \<longleftrightarrow> started) \<and>
     (\<exists>tb. states r v = Some tb \<and> ext tb = x \<and> (pend tb \<noteq> [] \<longleftrightarrow> started))"

definition sample_of :: "int \<Rightarrow> byte list \<Rightarrow> media_unit \<Rightarrow> rec_sample" where
  "sample_of d pl u = \<lparr>dts = d, pts_offset = word_of_int (pts u - d), is_sync = random_access u, payload = pl\<rparr>"

lemma take_log:
  assumes "states r v = Some tb" "take_sample avcc v d u r = (True, r')"
  shows "\<exists>pl. avcc (aus u) = Some pl \<and> vlog v r' = vlog v r @ [core (sample_of d pl u)] \<and>
     writer r' = writer r \<and> conf r' = conf r \<and> gop_cache r' = gop_cache r \<and>
     (\<exists>tb'. states r' v = Some tb' \<and> ext tb' = ext tb \<and> pend tb' \<noteq> [])"
  using assms
  by (auto simp: take_sample_def sample_of_def put_buf_def append_sample_def vlog_def split: option.splits)

lemma close_gop_log:
  assumes "continuous v started x r" "states r v = Some tb" "close_gop e d tb r = (True, r1)"
  shows "\<not> has_gate (conf r1) \<and> gop_cache r1 = [] \<and> (writer r1 \<noteq> None \<longleftrightarrow> started) \<and> vlog v r1 = vlog v r \<and>
     (\<exists>tb1. states r1 v = Some tb1 \<and> ext tb1 = x \<and> pend tb1 = [])"
proof (cases started)
  case False
  then show ?thesis using assms by (auto simp: continuous_def close_gop_def)
next
  case True
  then obtain w where w: "writer r = Some w" using assms(1) by (auto simp: continuous_def)
  have tb: "pend tb \<noteq> []" "ext tb = x" using assms(1,2) True by (auto simp: continuous_def)
  then have "flush e d r = (True, r1)" using assms(3) w by (simp add: close_gop_def)
  from flush_log [OF assms(2) w tb(1) this] assms(1) True tb(2) show ?thesis
    by (auto simp: continuous_def)
qed

lemma switch_log:
  assumes "gop_cache r1 = []" "states r1 v = Some tb1" "pend tb1 = []" "switch_segment e True r1 = (True, r2)"
  shows "conf r2 = conf r1 \<and> gop_cache r2 = [] \<and> writer r2 \<noteq> None \<and> vlog v r2 = vlog v r1 \<and>
     (\<exists>tb2. states r2 v = Some tb2 \<and> ext tb2 = ext tb1 \<and> pend tb2 = [])"
proof (cases "writer r1")
  case None
  obtain ok r3 where op: "open_segment e (clock e) r1 = (ok, r3)" by fastforce
  then have sw: "switch_segment e True r1 = (if ok then write_preroll e r3 else (False, r3))"
    using None assms(1) by (simp add: switch_segment_def andthen_def)
  have o: "open_segment e (clock e) r1 = (True, r3)" using op sw assms(4) by (cases ok) auto
  from open_log [OF assms(2) None o] assms(1)
  have r3: "gop_cache r3 = []" by simp
  then have "r2 = r3\<lparr>gop_cache := []\<rparr>"
    using sw assms(4) op o by (auto simp: write_preroll_def andthen_def)
  with open_log [OF assms(2) None o] conf_open [of e "clock e" r1] o assms(3) show ?thesis
    by (auto simp: vlog_def)
next
  case (Some w)
  show ?thesis
  proof (cases "rotate_due (clock e) r1")
    case False
    then show ?thesis using Some assms by (auto simp: switch_segment_def)
  next
    case True
    define rf where "rf = finalize e r1"
    have f: "states rf v = Some tb1" "writer rf = None" "vlog v rf = vlog v r1" "gop_cache rf = []"
      using finalize_log [OF assms(2) Some assms(3), of e] assms(1) by (simp_all add: rf_def)
    have o: "open_segment e (clock e) rf = (True, r2)"
      using True Some assms(4) by (simp add: switch_segment_def rf_def)
    from open_log [OF f(1,2) o] f conf_open [of e "clock e" rf] o assms(3) show ?thesis
      by (auto simp: rf_def conf_finalize)
  qed
qed

text \<open>What ought to be recorded: every picture from the first keyframe on.\<close>

fun pictures ::
  "('x \<Rightarrow> codec \<Rightarrow> byte list list \<Rightarrow> int \<Rightarrow> int option \<times> 'x) \<Rightarrow>
   (byte list list \<Rightarrow> byte list option) \<Rightarrow> int \<Rightarrow> codec \<Rightarrow> bool \<Rightarrow> 'x \<Rightarrow> media_unit list \<Rightarrow>
   (u32 \<times> bool \<times> byte list) list" where
  "pictures extractor avcc v c started x [] = []"
| "pictures extractor avcc v c started x (u # us) =
     (if unit_track u \<noteq> v then pictures extractor avcc v c started x us
      else case extractor x c (aus u) (pts u) of
             (None, x') \<Rightarrow> pictures extractor avcc v c started x' us
           | (Some d, x') \<Rightarrow>
               if started \<or> random_access u
               then (case avcc (aus u) of None \<Rightarrow> []
                     | Some pl \<Rightarrow> core (sample_of d pl u) # pictures extractor avcc v c True x' us)
               else pictures extractor avcc v c started x' us)"

lemma handle_key_log:
  assumes "continuous v started x r" "states r v = Some tb" "handle_key e avcc v d tb u r = (True, r')"
  shows "\<exists>pl. avcc (aus u) = Some pl \<and> continuous v True x r' \<and>
     vlog v r' = vlog v r @ [core (sample_of d pl u)]"
proof -
  have g: "\<not> has_gate (conf r)" using assms(1) by (simp add: continuous_def)
  obtain ok1 r1 where c: "close_gop e d tb r = (ok1, r1)" by fastforce
  obtain ok2 r2 where sw: "switch_segment e True (r1\<lparr>gop_wall := clock e\<rparr>) = (ok2, r2)" by fastforce
  have h: "handle_key e avcc v d tb u r = (if \<not> ok1 then (False, r1) else if \<not> ok2 then (False, r2)
      else take_sample avcc v d u r2)"
    using g by (simp add: handle_key_def andthen_def c sw Let_def)
  with assms(3) have oks: "ok1" "ok2" "take_sample avcc v d u r2 = (True, r')"
    by (simp_all split: if_splits)
  from close_gop_log [OF assms(1,2), of e d r1] c oks(1)
  obtain tb1 where r1: "\<not> has_gate (conf r1)" "gop_cache r1 = []" "vlog v r1 = vlog v r"
    "states r1 v = Some tb1" "ext tb1 = x" "pend tb1 = []" by auto
  have vw: "vlog v (r1\<lparr>gop_wall := clock e\<rparr>) = vlog v r1" by (simp add: vlog_def)
  from switch_log [of "r1\<lparr>gop_wall := clock e\<rparr>" v tb1 e r2] r1 sw oks(2) vw
  obtain tb2 where r2: "conf r2 = conf r1" "gop_cache r2 = []" "writer r2 \<noteq> None" "vlog v r2 = vlog v r"
    "states r2 v = Some tb2" "ext tb2 = x" by auto
  from take_log [OF r2(5) oks(3)] r1(1) r2 show ?thesis by (auto simp: continuous_def)
qed

lemma handle_unit_log:
  assumes "continuous v started x r" "sole_video v (kinds r)" "fst (kinds r) v = Some t"
    and "handle_unit e extractor avcc u r = (True, r')"
  shows "\<exists>started' x'. continuous v started' x' r' \<and>
    (\<forall>us. vlog v r @ pictures extractor avcc v (track_codec t) started x (u # us) =
          vlog v r' @ pictures extractor avcc v (track_codec t) started' x' us)"
proof (cases "states r (unit_track u)")
  case None
  then have "r' = r" "unit_track u \<noteq> v" using assms by (auto simp: handle_unit_def continuous_def)
  then show ?thesis using assms(1) by auto
next
  case (Some tb)
  have vid: "is_video (tb_track tb) \<longleftrightarrow> unit_track u = v" "video_track r \<noteq> None"
    using assms(2) Some by (auto simp: sole_video_def kinds_def)
  show ?thesis
  proof (cases "unit_track u = v")
    case False
    then have "handle_audio e (unit_track u) tb u r = (True, r')"
      using assms(4) Some vid by (simp add: handle_unit_def)
    then have "r' = put_buf (unit_track u) (fold append_sample (audio_samples (pts u) 0 (aus u)) tb) r"
      using vid(2) by (simp add: handle_audio_def Let_def put_buf_def)
    then have "continuous v started x r'" "vlog v r' = vlog v r"
      using assms(1) False by (auto simp: continuous_def put_buf_def vlog_def)
    then show ?thesis using False by auto
  next
    case True
    have t: "tb_track tb = t" using assms(3) Some True by (simp add: kinds_def)
    have x: "ext tb = x" using assms(1) Some True by (auto simp: continuous_def)
    obtain od x' where ex: "extractor x (track_codec t) (aus u) (pts u) = (od, x')" by fastforce
    define tb1 where "tb1 = tb\<lparr>ext := x'\<rparr>"
    define r1 where "r1 = put_buf v tb1 r"
    have r1: "continuous v started x' r1" "states r1 v = Some tb1" "vlog v r1 = vlog v r"
      using assms(1) Some True by (auto simp: continuous_def r1_def tb1_def put_buf_def vlog_def)
    have "handle_video e extractor avcc v tb u r = (True, r')"
      using assms(4) Some True vid by (simp add: handle_unit_def)
    then have hv: "(case od of None \<Rightarrow> (True, r1)
        | Some d \<Rightarrow> if random_access u then handle_key e avcc v d tb1 u r1
            else if writer r1 = None \<and> \<not> (pre_roll_enabled r1 \<and> pend tb1 \<noteq> []) then (True, r1)
            else take_sample avcc v d u r1) = (True, r')"
      unfolding handle_video_def t x ex Let_def prod.case tb1_def r1_def .
    show ?thesis
    proof (cases od)
      case None
      then show ?thesis using hv r1 True ex by auto
    next
      case (Some d)
      show ?thesis
      proof (cases "random_access u")
        case True
        then have "handle_key e avcc v d tb1 u r1 = (True, r')" using hv Some by simp
        from handle_key_log [OF r1(1,2) this] obtain pl where
          "avcc (aus u) = Some pl" "continuous v True x' r'" "vlog v r' = vlog v r1 @ [core (sample_of d pl u)]"
          by blast
        then show ?thesis using True \<open>unit_track u = v\<close> ex Some r1(3) by auto
      next
        case nk: False
        show ?thesis
        proof (cases started)
          case False
          then have "writer r1 = None" "\<not> pre_roll_enabled r1"
            using r1(1) by (auto simp: continuous_def pre_roll_enabled_def)
          then have "r' = r1" using hv Some nk by auto
          then show ?thesis using False nk \<open>unit_track u = v\<close> ex Some r1 by auto
        next
          case st: True
          then have "writer r1 \<noteq> None" using r1(1) by (simp add: continuous_def)
          then have ts: "take_sample avcc v d u r1 = (True, r')" using hv Some nk by (simp split: if_split_asm)
          from take_log [OF r1(2) ts] r1(1) st obtain pl where
            "avcc (aus u) = Some pl" "continuous v True x' r'" "vlog v r' = vlog v r1 @ [core (sample_of d pl u)]"
            by (auto simp: continuous_def tb1_def)
          then show ?thesis using st \<open>unit_track u = v\<close> ex Some r1(3) by auto
        qed
      qed
    qed
  qed
qed

lemma handle_all_log:
  assumes "continuous v started x r" "sole_video v (kinds r)" "fst (kinds r) v = Some t"
    and "handle_all extractor avcc eus r = (True, r')"
  shows "vlog v r' = vlog v r @ pictures extractor avcc v (track_codec t) started x (map snd eus) \<and>
    (\<exists>started' x'. continuous v started' x' r')"
  using assms
proof (induction eus arbitrary: r started x)
  case Nil
  then show ?case by auto
next
  case (Cons eu eus)
  obtain e u where eu: "eu = (e, u)" by fastforce
  obtain ok1 r1 where h: "handle_unit e extractor avcc u r = (ok1, r1)" by fastforce
  then have ok1: "handle_unit e extractor avcc u r = (True, r1)" "handle_all extractor avcc eus r1 = (True, r')"
    using Cons.prems(4) by (auto simp: eu andthen_def split: if_splits)
  obtain started' x' where s: "continuous v started' x' r1"
    "\<forall>us. vlog v r @ pictures extractor avcc v (track_codec t) started x (u # us) =
          vlog v r1 @ pictures extractor avcc v (track_codec t) started' x' us"
    using handle_unit_log [OF Cons.prems(1-3) ok1(1)] by blast
  have "kinds r1 = kinds r" by (rule kinds_unit [OF ok1(1)])
  then have ih: "vlog v r' = vlog v r1 @ pictures extractor avcc v (track_codec t) started' x' (map snd eus) \<and>
    (\<exists>started' x'. continuous v started' x' r')"
    using Cons.IH [OF s(1) _ _ ok1(2)] Cons.prems(2,3) by simp
  then show ?case using s(2) by (simp add: eu)
qed

text \<open>The last file is closed with everything in it when writing still works.\<close>

lemma write_ok:
  assumes "\<And>n. io e n" "\<And>t. t \<in> set (w_tracks w) \<Longrightarrow> mp4_codec_for t \<noteq> None"
  shows "fst (write_fragment (io e k) parts w)"
proof -
  have "\<not> (\<exists>t \<in> set (w_tracks w). mp4_codec_for t = None)" using assms(2) by blast
  then have "fst (write_init (io e k) w)" using assms(1) by (simp add: write_init_def)
  then show ?thesis using assms(1) by (simp add: write_fragment_def case_prod_unfold Let_def)
qed

definition codecs_ok :: "'x recorder \<Rightarrow> bool" where
  "codecs_ok r \<longleftrightarrow> (\<forall>w. writer r = Some w \<longrightarrow> (\<forall>t \<in> set (w_tracks w). mp4_codec_for t \<noteq> None))"

lemma write_frag_ok:
  assumes "\<And>n. io e n" "codecs_ok r"
  shows "fst (write_frag e per b r)"
proof (cases "writer r")
  case None
  then show ?thesis by (simp add: write_frag_def)
next
  case (Some w)
  have "fst (write_fragment (io e (io_calls r)) parts w)" for parts
    by (rule write_ok) (use assms Some in \<open>auto simp: codecs_ok_def\<close>)
  then show ?thesis by (simp add: write_frag_def Some Let_def case_prod_unfold)
qed

lemma finalize_all:
  assumes "continuous v started x r" "\<And>n. io e n" "codecs_ok r"
  shows "concat (map (stored v) (closed_files (finalize e r))) = vlog v r"
proof (cases "writer r")
  case None
  then show ?thesis using assms(1) by (auto simp: finalize_def vlog_def continuous_def)
next
  case (Some w)
  obtain tb where tb: "states r v = Some tb" "pend tb \<noteq> []"
    using assms(1) Some by (auto simp: continuous_def)
  obtain b where ft: "flush_tail e r = snd (flush e b r)" using flush_tail_eq by blast
  have "fst (flush e b r)"
    using write_frag_ok [OF assms(2,3)] Some by (simp add: flush_def andthen_def case_prod_unfold Let_def)
  then obtain r1 where fl: "flush e b r = (True, r1)" by (metis prod.collapse)
  have r1: "flush_tail e r = r1" using ft fl by simp
  from flush_log [OF tb(1) Some tb(2) fl] obtain w1 tb1 where
    "writer r1 = Some w1" "vlog v r1 = vlog v r" "states r1 v = Some tb1" "pend tb1 = []" by auto
  with finalize_shape [OF _ r1] Some show ?thesis by (simp add: vlog_def)
qed

definition codec_kinds :: "(int \<Rightarrow> track option) \<times> track option \<Rightarrow> bool" where
  "codec_kinds k \<longleftrightarrow> (\<forall>i t. fst k i = Some t \<longrightarrow> mp4_codec_for t \<noteq> None)"

text \<open>Every action that keeps the tracks also keeps the open file describable.\<close>

definition describes :: "'x action \<Rightarrow> bool" where
  "describes f \<longleftrightarrow> keeps f \<and> (\<forall>r. codec_kinds (kinds r) \<and> codecs_ok r \<longrightarrow> codecs_ok (snd (f r)))"

lemma describes_andthen: "describes f \<Longrightarrow> describes g \<Longrightarrow> describes (andthen f g)"
  unfolding describes_def using keeps_andthen [of f g]
  by (simp add: andthen_def case_prod_unfold Let_def keeps_def)

lemma describes_app: "describes f \<Longrightarrow> codec_kinds (kinds r) \<Longrightarrow> codecs_ok r \<Longrightarrow> codecs_ok (snd (f r))"
  by (simp add: describes_def)

lemma tracks_fragment: "w_tracks (snd (write_fragment ok parts w)) = w_tracks w"
  by (simp add: write_fragment_def write_init_def case_prod_unfold Let_def)

lemma describes_write_frag: "describes (write_frag e per b)"
  by (simp add: describes_def keeps_write_frag codecs_ok_def write_frag_def Let_def case_prod_unfold
      tracks_fragment split: option.split)

lemma codecs_fields [simp]:
  "codecs_ok (clear_pending r) = codecs_ok r" "codecs_ok (r\<lparr>gop_cache := c\<rparr>) = codecs_ok r"
  "codecs_ok (r\<lparr>gop_wall := t\<rparr>) = codecs_ok r" "codecs_ok (put_buf i tb r) = codecs_ok r"
  by (simp_all add: codecs_ok_def put_buf_def)

lemma describes_flush: "describes (flush e b)"
proof -
  have "codecs_ok (snd (flush e b r))" if "codec_kinds (kinds r)" "codecs_ok r" for r :: "'a recorder"
    using describes_app [OF describes_write_frag that] that(2)
    by (simp add: flush_def andthen_def case_prod_unfold Let_def)
  then show ?thesis by (simp add: describes_def keeps_flush)
qed

lemma codecs_finalize: "codecs_ok r \<Longrightarrow> codecs_ok (finalize e r)"
  by (auto simp: finalize_def Let_def codecs_ok_def split: option.split)

lemma describes_open: "describes (open_segment e st)"
proof -
  have "codecs_ok (snd (open_segment e st r))" if "codec_kinds (kinds r)" "codecs_ok r" for r :: "'a recorder"
  proof -
    have "\<forall>t \<in> set (tracks_slice r). mp4_codec_for t \<noteq> None"
      using that(1) by (fastforce simp: tracks_slice_def map_filter_def codec_kinds_def kinds_def)
    then show ?thesis using that(2)
      by (simp add: open_segment_def Let_def codecs_ok_def on_bufs_def split: option.split)
  qed
  then show ?thesis by (simp add: describes_def keeps_open)
qed

lemma describes_gops: "describes (write_gops e gs :: 'x action)"
proof (induction gs)
  case Nil
  then show ?case by (simp add: describes_def keeps_def)
next
  case (Cons g gs)
  have "describes (andthen (write_frag e (gop_tracks g) (boundary_dts g)) (write_gops e gs) :: 'x action)"
    by (intro describes_andthen describes_write_frag Cons)
  then show ?case by (simp add: describes_def keeps_def)
qed

lemma describes_preroll: "describes (write_preroll e)"
proof -
  have "codecs_ok (snd (write_preroll e r))" if "codec_kinds (kinds r)" "codecs_ok r" for r :: "'a recorder"
    using describes_app [OF describes_gops that]
    by (simp add: write_preroll_def andthen_def case_prod_unfold Let_def)
  then show ?thesis by (simp add: describes_def keeps_preroll)
qed

lemma describes_switch: "describes (\<lambda>r. switch_segment e act (r\<lparr>gop_wall := t\<rparr>))"
proof -
  have "codecs_ok (snd (switch_segment e act r))" if "codec_kinds (kinds r)" "codecs_ok r" for r :: "'a recorder"
    using that describes_app [OF describes_andthen [OF describes_open describes_preroll] that]
      describes_app [OF describes_open, of "finalize e r"]
    by (simp add: switch_segment_def codecs_finalize kinds_finalize)
  then show ?thesis by (simp add: describes_def keeps_def keeps_app [OF keeps_switch])
qed

lemma describes_take: "describes (\<lambda>r. if q r then (True, r) else take_sample avcc i d u r)"
proof -
  have "keeps (\<lambda>r :: 'a recorder. if q r then (True, r) else take_sample avcc i d u r)"
    by (simp add: keeps_def keeps_app [OF keeps_take])
  then show ?thesis by (simp add: describes_def take_sample_def split: option.split)
qed

lemma describes_close: "describes (close_gop e d tb)"
  by (simp add: describes_def keeps_close_gop close_gop_def stash_gop_def Let_def
      describes_app [OF describes_flush])

lemma describes_key: "describes (handle_key e avcc v d tb u)"
proof -
  have K: "describes (andthen (close_gop e d tb) (andthen (\<lambda>r. switch_segment e act (r\<lparr>gop_wall := clock e\<rparr>))
      (\<lambda>r :: 'a recorder. if \<not> act \<and> \<not> pre_roll_enabled r then (True, r) else take_sample avcc v d u r)))" for act
    by (intro describes_andthen describes_close describes_switch describes_take)
  have "codecs_ok (snd (handle_key e avcc v d tb u r))" if "codec_kinds (kinds r)" "codecs_ok r" for r :: "'a recorder"
    unfolding handle_key_def Let_def by (rule describes_app [OF K that])
  then show ?thesis by (simp add: describes_def keeps_key)
qed

lemma codecs_unit:
  assumes "codec_kinds (kinds r)" "codecs_ok r" "handle_unit e extractor avcc u r = (ok, r')"
  shows "codecs_ok r'"
proof (cases "states r (unit_track u)")
  case None
  then show ?thesis using assms by (simp add: handle_unit_def)
next
  case (Some tb)
  have kp: "codec_kinds (kinds (put_buf (unit_track u) tb' r))" if "tb_track tb' = tb_track tb" for tb'
    using kinds_put [OF Some that] assms(1) by simp
  have "describes (andthen (\<lambda>r :: 'a recorder. if writer r = None then open_segment e (clock e) r
        else if rotate_due (clock e) r then open_segment e (clock e) (finalize e r) else (True, r)) (flush e b))" for b
  proof (intro describes_andthen describes_flush)
    have "codecs_ok (snd (open_segment e st r))" if "codec_kinds (kinds r)" "codecs_ok r" for r :: "'a recorder" and st
      by (rule describes_app [OF describes_open that])
    then show "describes (\<lambda>r :: 'a recorder. if writer r = None then open_segment e (clock e) r
        else if rotate_due (clock e) r then open_segment e (clock e) (finalize e r) else (True, r))"
      by (simp add: describes_def keeps_def kinds_finalize keeps_app [OF keeps_open] codecs_finalize)
  qed
  from describes_app [OF this kp] have "codecs_ok (snd (handle_audio e (unit_track u) tb u r))"
    using assms(2) by (simp add: handle_audio_def Let_def fold_append_track)
  moreover have "codecs_ok (snd (handle_video e extractor avcc (unit_track u) tb u r))"
    using assms(2) describes_app [OF describes_key kp]
      describes_app [OF describes_take [where q = "\<lambda>r. False"] kp]
    by (simp add: handle_video_def Let_def case_prod_unfold split: option.split)
  ultimately show ?thesis
    using assms(3) Some by (auto simp: handle_unit_def split: if_splits)
qed

lemma codecs_all:
  assumes "codec_kinds (kinds r)" "codecs_ok r"
  shows "codecs_ok (snd (handle_all extractor avcc eus r))"
  using assms
proof (induction eus arbitrary: r)
  case Nil
  then show ?case by simp
next
  case (Cons eu eus)
  obtain e u where eu: "eu = (e, u)" by fastforce
  obtain ok r1 where h: "handle_unit e extractor avcc u r = (ok, r1)" by fastforce
  show ?case
    using Cons codecs_unit [OF Cons.prems h] kinds_unit [OF h]
    by (cases ok) (simp_all add: eu andthen_def h)
qed

text \<open>
  C28: in continuous recording, whenever the run ends without an error and closing can write, the
  files together hold exactly the pictures of the stream from the first keyframe on, in order,
  each with its payload, composition offset and keyframe mark, whatever audio is interleaved and
  wherever the files were cut.
\<close>

theorem continuous_lossless:
  assumes "distinct (map track_id ts)" "t \<in> set ts" "is_video t" "\<forall>t' \<in> set ts. is_video t' \<longrightarrow> t' = t"
    and "\<not> has_gate c" and "recorder_run extractor avcc x0 ts e_end us (new_recorder c) = (True, r')"
    and "\<And>n. io e_end n" and "\<forall>t' \<in> set ts. mp4_codec_for t' \<noteq> None"
  shows "concat (map (stored (track_id t)) (closed_files r')) =
         pictures extractor avcc (track_id t) (track_codec t) False x0 (map snd us)"
proof -
  define c' where "c' = (if seg_dur c \<le> 0 then c\<lparr>seg_dur := 600000000000\<rparr> else c)"
  define r where "r = init_tracks x0 ts (new_recorder c')"
  have ini: "recorder_run extractor avcc x0 ts e_end us (new_recorder c) =
      (fst (handle_all extractor avcc us r), finalize e_end (snd (handle_all extractor avcc us r)))"
    unfolding recorder_run_def Let_def case_prod_unfold r_def c'_def by (simp add: new_recorder_def)
  obtain r1 where r1: "handle_all extractor avcc us r = (True, r1)" "r' = finalize e_end r1"
    using assms(6) ini by (metis prod.collapse prod.inject)
  have ms: "states r i = Some tb \<longleftrightarrow> (\<exists>t \<in> set ts. i = track_id t \<and> tb = new_buf x0 t)" for i tb
    unfolding r_def by (rule init_states [OF assms(1)])
  have "video_tb (track_id t) r (new_buf x0 t)" "sole_video (track_id t) (kinds r)"
    using init_steady [OF assms(1-4), of x0 c'] ms assms(2,3)
    by (auto simp: r_def [symmetric] video_tb_def new_buf_def)
  then have st: "states r (track_id t) = Some (new_buf x0 t)" and sv: "sole_video (track_id t) (kinds r)"
    by (simp_all add: video_tb_def)
  have fields: "gop_cache r = []" "writer r = None" "closed_files r = []" "has_gate (conf r) = has_gate c"
    by (simp_all add: r_def init_tracks_def new_recorder_def c'_def)
  have cont: "continuous (track_id t) False x0 r"
    using fields st assms(5) by (simp add: continuous_def new_buf_def)
  have tk: "fst (kinds r) (track_id t) = Some t" by (simp add: kinds_def st new_buf_def)
  have v0: "vlog (track_id t) r = []" using fields st by (simp add: vlog_def new_buf_def)
  from handle_all_log [OF cont sv tk r1(1)] obtain started' x' where
    lg: "vlog (track_id t) r1 = pictures extractor avcc (track_id t) (track_codec t) False x0 (map snd us)"
    "continuous (track_id t) started' x' r1" unfolding v0 by auto
  have "codec_kinds (kinds r)"
    using ms assms(8) by (fastforce simp: codec_kinds_def kinds_def new_buf_def)
  moreover have "codecs_ok r" by (simp add: codecs_ok_def fields)
  ultimately have "codecs_ok r1" using codecs_all [of r extractor avcc us] r1(1) by simp
  from finalize_all [OF lg(2) assms(7) this] lg(1) show ?thesis unfolding r1(2) by simp
qed

definition sample_units :: "(rec_env \<times> media_unit) list" where
  "sample_units = [(sample_rec_env 1, picture 0 False), (sample_rec_env 1, picture 3000 True)]"

definition sample_begun :: "unit recorder" where
  "sample_begun = init_tracks () [sample_track] (new_recorder sample_rec_config)"

lemma sample_opens:
  assumes "writer r = None" "gop_cache r = []"
  shows "\<exists>r'. switch_segment (sample_rec_env t) True r = (True, r') \<and> (states r' i = None \<longleftrightarrow> states r i = None)"
  using assms
  by (simp add: switch_segment_def open_segment_def write_preroll_def andthen_def Let_def sample_rec_env_def on_bufs_def)

lemma sample_begun_fields:
  "states sample_begun = [1 \<mapsto> new_buf () sample_track]" "writer sample_begun = None" "gop_cache sample_begun = []"
  "\<not> has_gate (conf sample_begun)"
  by (simp_all add: sample_begun_def init_tracks_def new_recorder_def sample_track_def sample_rec_config_def)

lemma sample_buf: "tb_track (new_buf () sample_track) = sample_track" "pend (new_buf () sample_track) = []"
    "(new_buf () sample_track)\<lparr>ext := u\<rparr> = new_buf () sample_track" "is_video sample_track"
  by (simp_all add: new_buf_def sample_track_def is_video_def)

lemma sample_put: "put_buf 1 (new_buf () sample_track) sample_begun = sample_begun"
  using sample_begun_fields(1) by (simp add: put_buf_def)

lemma sample_not_started:
  "handle_unit (sample_rec_env 1) (\<lambda>x c a p. (Some p, ())) (\<lambda>a. Some (concat a)) (picture 0 False) sample_begun =
   (True, sample_begun)"
  by (simp add: handle_unit_def picture_def sample_begun_fields sample_buf handle_video_def sample_put
      pre_roll_enabled_def)

lemma sample_first_key:
  "fst (handle_unit (sample_rec_env 1) (\<lambda>x c a p. (Some p, ())) (\<lambda>a. Some (concat a)) (picture 3000 True) sample_begun)"
proof -
  let ?b = "sample_begun\<lparr>gop_wall := clock (sample_rec_env 1)\<rparr>"
  obtain r' where sw: "switch_segment (sample_rec_env 1) True ?b = (True, r')" "states r' 1 \<noteq> None"
    using sample_opens [of ?b 1 1] by (auto simp: sample_begun_fields)
  then obtain tb where "states r' 1 = Some tb" by blast
  with sw show ?thesis
    by (simp add: handle_unit_def picture_def sample_begun_fields sample_buf handle_video_def sample_put
        handle_key_def close_gop_def andthen_def take_sample_def)
qed

lemma sample_run_ok:
  "fst (recorder_run (\<lambda>x c a p. (Some p, ())) (\<lambda>a. Some (concat a)) () [sample_track] (sample_rec_env 50)
     sample_units (new_recorder sample_rec_config))"
proof -
  have same: "(new_recorder c)\<lparr>conf := c\<rparr> = new_recorder c" "conf (new_recorder c) = c" for c
    by (simp_all add: new_recorder_def)
  have dur: "\<not> seg_dur sample_rec_config \<le> 0" by (simp add: sample_rec_config_def)
  show ?thesis
    using sample_first_key
    by (simp add: recorder_run_def Let_def case_prod_unfold sample_units_def andthen_def sample_not_started
        same dur sample_begun_def [symmetric])
qed

theorem continuous_lossless_witness:
  "concat (map (stored 1) (closed_files (snd (recorder_run (\<lambda>x c a p. (Some p, ())) (\<lambda>a. Some (concat a)) ()
     [sample_track] (sample_rec_env 50) sample_units (new_recorder sample_rec_config))))) =
   [(0, True, [7])]"
proof -
  let ?run = "recorder_run (\<lambda>x c a p. (Some p, ())) (\<lambda>a. Some (concat a)) () [sample_track] (sample_rec_env 50)
     sample_units (new_recorder sample_rec_config)"
  have run: "?run = (True, snd ?run)" using sample_run_ok by (simp add: prod_eq_iff)
  have tr: "is_video sample_track" "track_id sample_track = 1" "track_codec sample_track = CodecH264"
    "mp4_codec_for sample_track \<noteq> None"
    by (simp_all add: sample_track_def is_video_def mp4_codec_for_def)
  have "concat (map (stored (track_id sample_track)) (closed_files (snd ?run))) =
      pictures (\<lambda>x c a p. (Some p, ())) (\<lambda>a. Some (concat a)) (track_id sample_track)
        (track_codec sample_track) False () (map snd sample_units)"
    by (rule continuous_lossless [OF _ _ _ _ _ run])
      (use tr in \<open>simp_all add: sample_rec_config_def sample_rec_env_def\<close>)
  then show ?thesis
    by (simp add: tr sample_units_def picture_def sample_of_def core_def)
qed

end
