(* ===== verification/Storage_Crypto.thy ===== *)
theory Storage_Crypto
  imports Prelude
begin

text \<open>
  Client-side encryption of archived recordings (\<^verbatim>\<open>internal/storage/crypto.go\<close>): the object
  layout with its magic and IV, the AES-CTR key stream as \<^verbatim>\<open>crypto/cipher\<close> runs it, the 128-bit
  counter addition \<^verbatim>\<open>addBE\<close>, the seekable \<^verbatim>\<open>ctrDecryptor\<close> over a source that may return short
  reads and errors, and the cached key derivation.  The block cipher, the key derivation function,
  the hash and the base64 decoder are parameters.
\<close>

section \<open>Counters\<close>

text \<open>
  \<open>incr\<close> is the increment of \<^verbatim>\<open>crypto/cipher\<close>'s CTR mode and \<open>add_be\<close> is \<^verbatim>\<open>addBE\<close>; both walk from
  the last byte, so they are recursive on the reversed list.
\<close>

fun incr_rev :: "byte list \<Rightarrow> byte list" where
  "incr_rev [] = []"
| "incr_rev (b # bs) = (if b + 1 \<noteq> 0 then (b + 1) # bs else 0 # incr_rev bs)"

definition incr :: "byte list \<Rightarrow> byte list" where
  "incr c = rev (incr_rev (rev c))"

fun add_rev :: "byte list \<Rightarrow> u64 \<Rightarrow> byte list" where
  "add_rev [] a = []"
| "add_rev (b # bs) a =
     (if a = 0 then b # bs
      else let s = ucast b + (a AND 0xff)
           in ucast s # add_rev bs (drop_bit 8 a + drop_bit 8 s))"

definition add_be :: "byte list \<Rightarrow> u64 \<Rightarrow> byte list" where
  "add_be iv a = rev (add_rev (rev iv) a)"

lemma length_incr_rev [simp]: "length (incr_rev bs) = length bs"
  by (induction bs) auto

lemma length_add_rev [simp]: "length (add_rev bs a) = length bs"
  by (induction bs a rule: add_rev.induct) (auto simp: Let_def)

lemma length_incr [simp]: "length (incr c) = length c"
  by (simp add: incr_def)

lemma length_add_be [simp]: "length (add_be iv a) = length iv"
  by (simp add: add_be_def)

lemma length_incr_pow [simp]: "length ((incr ^^ n) c) = length c"
  by (induction n) auto

fun le_val :: "byte list \<Rightarrow> nat" where
  "le_val [] = 0"
| "le_val (b # bs) = unat b + 256 * le_val bs"

lemma le_val_lt: "le_val bs < 256 ^ length bs"
proof (induction bs)
  case (Cons b bs)
  have "unat b < 256" by simp
  then have "unat b + 256 * le_val bs < 256 * (le_val bs + 1)" by simp
  also have "\<dots> \<le> 256 * 256 ^ length bs" using Cons.IH by (intro mult_le_mono2) simp
  finally show ?case by simp
qed simp

lemma le_val_inj: "length xs = length ys \<Longrightarrow> le_val xs = le_val ys \<Longrightarrow> xs = ys"
proof (induction xs ys rule: list_induct2)
  case (Cons x xs y ys)
  have "(unat x + 256 * le_val xs) mod 256 = (unat y + 256 * le_val ys) mod 256"
    "(unat x + 256 * le_val xs) div 256 = (unat y + 256 * le_val ys) div 256"
    using Cons.prems by simp_all
  then have "unat x = unat y" "le_val xs = le_val ys" by simp_all
  then show ?case using Cons.IH by (simp add: word_unat_eq_iff)
qed simp

lemma byte_succ: "b + 1 \<noteq> 0 \<Longrightarrow> unat ((b :: byte) + 1) = unat b + 1"
  using unatSuc [of b] by (simp add: add.commute)

lemma byte_max: "(b :: byte) + 1 = 0 \<Longrightarrow> unat b = 255"
  by (subst (asm) eq_neg_iff_add_eq_0 [symmetric]) (simp add: unsigned_minus_1_eq_mask mask_eq_exp_minus_1)

lemma le_val_incr: "le_val (incr_rev bs) = (le_val bs + 1) mod 256 ^ length bs"
proof (induction bs)
  case (Cons b bs)
  show ?case
  proof (cases "b + 1 = 0")
    case True
    then have "unat b = 255" by (rule byte_max)
    then have "le_val (b # bs) + 1 = 256 * (le_val bs + 1)" by simp
    then show ?thesis using True Cons.IH by (simp add: mult_mod_right)
  next
    case False
    have "unat (b + 1) + 256 * le_val bs < 256 ^ length (b # bs)"
      using le_val_lt [of "(b + 1) # bs"] by simp
    then show ?thesis using False by (simp add: byte_succ)
  qed
qed simp

lemma unat_add_step:
  fixes a :: u64 and b :: byte
  defines "s \<equiv> ucast b + (a AND 0xff)"
  shows "unat (ucast s :: byte) = (unat b + unat a) mod 256"
    and "unat (drop_bit 8 a + drop_bit 8 s) = (unat b + unat a) div 256"
proof -
  have m: "unat (a AND 0xff) = unat a mod 256"
  proof -
    have "(0xff :: u64) = mask 8" by (simp add: mask_eq_exp_minus_1)
    then have "a AND 0xff = take_bit 8 a" by (simp only: take_bit_eq_mask)
    then have "unat (a AND 0xff) = take_bit 8 (unat a)" by (simp only: unsigned_take_bit_eq)
    then show ?thesis by (simp add: take_bit_eq_mod)
  qed
  have "unat b < 2 ^ 64" by (rule less_le_trans [OF byte_lt_256]) simp
  then have ub: "unat (ucast b :: u64) = unat b" by (simp add: unsigned_ucast_eq take_bit_eq_mod)
  have "unat b < 256" "unat a mod 256 < 256" by simp_all
  then have "unat b + unat a mod 256 < 512" by linarith
  then have "unat b + unat a mod 256 < 2 ^ 64" by (rule less_le_trans) simp
  then have s: "unat s = unat b + unat a mod 256"
    unfolding s_def using byte_lt_256 [of b]
    by (subst unat_add_lem [THEN iffD1]) (simp_all add: m ub)
  have "unat (ucast s :: byte) = unat s mod 256" by (simp add: unsigned_ucast_eq take_bit_eq_mod)
  then show "unat (ucast s :: byte) = (unat b + unat a) mod 256" by (simp add: s mod_simps)
  have d: "unat (drop_bit 8 a) = unat a div 256" "unat (drop_bit 8 s) = unat s div 256"
    by (simp_all add: drop_bit_eq_div unat_div_distrib)
  have lt: "unat a < 2 ^ 64" using unsigned_less [of a] by simp
  have "unat s div 256 \<le> 1" using s \<open>unat b + unat a mod 256 < 512\<close> less_mult_imp_div_less [of "unat s" 2 256] by simp
  moreover have "unat a div 256 < 2 ^ 56" using lt by simp
  ultimately have "unat (drop_bit 8 a + drop_bit 8 s) = unat a div 256 + unat s div 256"
    by (subst unat_add_lem [THEN iffD1]) (simp_all add: d)
  also have "\<dots> = (unat b + unat a) div 256"
  proof -
    have "unat b + unat a = unat s + 256 * (unat a div 256)" using s by simp
    then show ?thesis by simp
  qed
  finally show "unat (drop_bit 8 a + drop_bit 8 s) = (unat b + unat a) div 256" .
qed

lemma le_val_add: "le_val (add_rev bs a) = (le_val bs + unat a) mod 256 ^ length bs"
proof (induction bs a rule: add_rev.induct)
  case (2 b bs a)
  show ?case
  proof (cases "a = 0")
    case True
    then show ?thesis using le_val_lt [of "b # bs"] by simp
  next
    case False
    let ?t = "unat b + unat a"
    have "le_val (add_rev (b # bs) a) = ?t mod 256 + 256 * ((le_val bs + ?t div 256) mod 256 ^ length bs)"
      using False 2 [OF False refl] by (simp add: unat_add_step Let_def)
    also have "\<dots> = (?t mod 256 + 256 * (le_val bs + ?t div 256)) mod 256 ^ length (b # bs)"
      using mod_mult2_eq [of "?t mod 256 + 256 * (le_val bs + ?t div 256)" 256 "256 ^ length bs"] by simp
    also have "?t mod 256 + 256 * (le_val bs + ?t div 256) = le_val (b # bs) + unat a" by simp
    finally show ?thesis .
  qed
qed simp

lemma incr_step: "le_val (rev (incr c)) = (le_val (rev c) + 1) mod 256 ^ length c"
  by (simp add: incr_def le_val_incr)

lemma le_val_incr_pow:
  "le_val (rev ((incr ^^ n) c)) = (le_val (rev c) + n) mod 256 ^ length c"
proof (induction n)
  case 0
  then show ?case using le_val_lt [of "rev c"] by simp
next
  case (Suc n)
  then show ?case by (simp add: incr_step mod_Suc_eq)
qed

lemma add_be_incr: "add_be iv a = (incr ^^ unat a) iv"
proof -
  have "rev (add_be iv a) = rev ((incr ^^ unat a) iv)"
    by (rule le_val_inj) (simp_all add: le_val_incr_pow add_be_def le_val_add)
  then show ?thesis by (metis rev_rev_ident)
qed

section \<open>The key stream\<close>

text \<open>
  \<^verbatim>\<open>cipher.Stream\<close> in CTR mode: the next counter block and the key bytes not yet used.
\<close>

record ctr_stream =
  next_ctr :: "byte list"
  key_buf :: "byte list"

definition new_ctr :: "byte list \<Rightarrow> ctr_stream" where
  "new_ctr iv = \<lparr>next_ctr = iv, key_buf = []\<rparr>"

definition refill :: "(byte list \<Rightarrow> byte list) \<Rightarrow> ctr_stream \<Rightarrow> ctr_stream" where
  "refill E s = (if key_buf s = [] then \<lparr>next_ctr = incr (next_ctr s), key_buf = E (next_ctr s)\<rparr> else s)"

fun xor_key_stream :: "(byte list \<Rightarrow> byte list) \<Rightarrow> ctr_stream \<Rightarrow> byte list \<Rightarrow> byte list \<times> ctr_stream" where
  "xor_key_stream E s [] = ([], s)"
| "xor_key_stream E s (b # bs) =
     (let s1 = refill E s;
          (cs, s2) = xor_key_stream E (s1\<lparr>key_buf := tl (key_buf s1)\<rparr>) bs
      in ((b XOR hd (key_buf s1)) # cs, s2))"

text \<open>The key byte for position \<open>n\<close>, and the states the stream passes through.\<close>

definition block_size :: nat where "block_size = 16"

definition key_byte :: "(byte list \<Rightarrow> byte list) \<Rightarrow> byte list \<Rightarrow> nat \<Rightarrow> byte" where
  "key_byte E iv n = E ((incr ^^ (n div 16)) iv) ! (n mod 16)"

definition blocks :: "(byte list \<Rightarrow> byte list) \<Rightarrow> bool" where
  "blocks E \<longleftrightarrow> (\<forall>c. length c = 16 \<longrightarrow> length (E c) = 16)"

definition stream_at :: "(byte list \<Rightarrow> byte list) \<Rightarrow> byte list \<Rightarrow> nat \<Rightarrow> ctr_stream \<Rightarrow> bool" where
  "stream_at E iv n s \<longleftrightarrow>
     (if n mod 16 = 0 then next_ctr s = (incr ^^ (n div 16)) iv \<and> key_buf s = []
      else next_ctr s = (incr ^^ Suc (n div 16)) iv \<and>
           key_buf s = drop (n mod 16) (E ((incr ^^ (n div 16)) iv)))"

lemma stream_at_0: "stream_at E iv 0 (new_ctr iv)"
  by (simp add: stream_at_def new_ctr_def)

lemma blocks_incr: "blocks E \<Longrightarrow> length iv = 16 \<Longrightarrow> length (E ((incr ^^ n) iv)) = 16"
  by (simp add: blocks_def)

lemma stream_at_shift:
  "stream_at E ((incr ^^ k) iv) n s \<longleftrightarrow> stream_at E iv (16 * k + n) s"
proof -
  have m: "(16 * k + n) mod 16 = n mod 16" and "(16 * k + n) div 16 = n div 16 + k" by simp_all
  then have c: "(incr ^^ ((16 * k + n) div 16)) iv = (incr ^^ (n div 16)) ((incr ^^ k) iv)"
    by (simp only: funpow_add comp_apply)
  show ?thesis unfolding stream_at_def m funpow.simps comp_apply c ..
qed

lemma refill_key:
  assumes "blocks E" "length iv = 16" "stream_at E iv n s"
  shows "hd (key_buf (refill E s)) = key_byte E iv n"
    and "stream_at E iv (Suc n) (refill E s\<lparr>key_buf := tl (key_buf (refill E s))\<rparr>)"
proof -
  let ?blk = "E ((incr ^^ (n div 16)) iv)"
  have len: "length ?blk = 16" using assms(1,2) by (rule blocks_incr)
  have lt: "n mod 16 < 16" by simp
  then have ne: "drop (n mod 16) ?blk \<noteq> []" using len by simp
  have kb: "key_buf (refill E s) = drop (n mod 16) ?blk \<and> next_ctr (refill E s) = (incr ^^ Suc (n div 16)) iv"
    using assms(3) ne by (cases "n mod 16 = 0") (simp_all add: stream_at_def refill_def)
  then show "hd (key_buf (refill E s)) = key_byte E iv n"
    using len by (simp add: key_byte_def hd_drop_conv_nth)
  have t: "tl (key_buf (refill E s)) = drop (Suc (n mod 16)) ?blk"
    using kb by (simp add: drop_Suc tl_drop)
  show "stream_at E iv (Suc n) (refill E s\<lparr>key_buf := tl (key_buf (refill E s))\<rparr>)"
  proof (cases "Suc (n mod 16) = 16")
    case True
    then have "Suc n mod 16 = 0" "Suc n div 16 = Suc (n div 16)" by (simp_all add: mod_Suc div_Suc)
    then show ?thesis using kb t True len by (simp add: stream_at_def)
  next
    case False
    then have "Suc n mod 16 = Suc (n mod 16)" "Suc n div 16 = n div 16" by (simp_all add: mod_Suc div_Suc)
    then show ?thesis using kb t by (simp add: stream_at_def)
  qed
qed

lemma xor_stream:
  assumes "blocks E" "length iv = 16" "stream_at E iv n s"
  shows "fst (xor_key_stream E s bs) = map2 (XOR) bs (map (key_byte E iv) [n..<n + length bs]) \<and>
         stream_at E iv (n + length bs) (snd (xor_key_stream E s bs))"
  using assms(3)
proof (induction bs arbitrary: n s)
  case (Cons b bs)
  note r = refill_key [OF assms(1,2) Cons.prems]
  have "[n..<n + length (b # bs)] = n # [Suc n..<Suc n + length bs]" by (simp add: upt_rec)
  then show ?case using Cons.IH [OF r(2)] r(1) by (simp add: Let_def case_prod_unfold)
qed simp

lemma xor_stream_nth:
  assumes "blocks E" "length iv = 16" "stream_at E iv n s" "i < length bs"
  shows "fst (xor_key_stream E s bs) ! i = bs ! i XOR key_byte E iv (n + i)"
  using xor_stream [OF assms(1-3), of bs] assms(4) by simp

lemma length_xor_stream [simp]: "length (fst (xor_key_stream E s bs)) = length bs"
  by (induction bs arbitrary: s) (simp_all add: Let_def case_prod_unfold)

section \<open>Objects\<close>

definition enc_magic :: "byte list" where "enc_magic = [0x4B, 0x4E, 0x56, 0x31]"

definition enc_header_len :: nat where "enc_header_len = 4 + block_size"

lemma enc_lengths [simp]: "length enc_magic = 4" "enc_header_len = 20" "block_size = 16"
  by (simp_all add: enc_magic_def enc_header_len_def block_size_def)

definition is_encrypted_header :: "byte list \<Rightarrow> bool" where
  "is_encrypted_header b \<longleftrightarrow> length b \<ge> 4 \<and> take 4 b = enc_magic"

definition encrypted_size :: "int \<Rightarrow> int" where
  "encrypted_size plain = wrap64 (plain + int enc_header_len)"

text \<open>
  \<^verbatim>\<open>EncryptReader\<close>, drained (\<^verbatim>\<open>EncryptAll\<close>): the random bytes are an argument, \<open>None\<close> when
  \<^verbatim>\<open>rand.Read\<close> fails.
\<close>

datatype crypto_error = NoRandom | SmallObject | ShortHeader | BadMagic | UnexpectedEOF | BadWhence
  | NegativeSeek | SeekFailed | ReadFailed | EOF | BadKeyLen nat | EmptyPassphrase | BadSalt | ShortSalt

definition encrypt_all :: "(byte list \<Rightarrow> byte list) \<Rightarrow> byte list option \<Rightarrow> byte list \<Rightarrow> crypto_error + byte list" where
  "encrypt_all E rnd plain =
     (case rnd of
        None \<Rightarrow> Inl NoRandom
      | Some iv \<Rightarrow> Inr (enc_magic @ iv @ fst (xor_key_stream E (new_ctr iv) plain)))"

section \<open>Reading at any position\<close>

text \<open>
  The source is any \<^verbatim>\<open>io.ReadSeeker\<close> over the object's bytes: a call may fail, may deliver fewer
  bytes than asked for (at most \<open>chunk\<close>), and may report the end together with the last bytes or
  only on the next call.
\<close>

record io_env =
  seek_fails :: bool
  read_fails :: bool
  chunk :: nat
  early_eof :: bool

record source =
  bytes :: "byte list"
  off :: nat

definition src_read :: "io_env \<Rightarrow> nat \<Rightarrow> source \<Rightarrow> (byte list \<times> crypto_error option) \<times> source" where
  "src_read env n src =
     (if read_fails env then (([], Some ReadFailed), src)
      else let got = take (min n (chunk env)) (drop (off src) (bytes src));
               off' = off src + length got
           in ((got, if off src \<ge> length (bytes src) \<or> early_eof env \<and> off' \<ge> length (bytes src)
                     then Some EOF else None),
               src\<lparr>off := off'\<rparr>))"

record decryptor =
  src :: source
  d_iv :: "byte list"
  d_size :: int
  d_pos :: int
  d_stream :: ctr_stream
  aligned :: bool

definition decrypting_read_seeker :: "bool \<Rightarrow> source \<Rightarrow> int \<Rightarrow> crypto_error + decryptor" where
  "decrypting_read_seeker fails s object_size =
     (if object_size < int enc_header_len then Inl SmallObject
      else let header = take enc_header_len (drop (off s) (bytes s))
           in if fails \<or> length header < enc_header_len then Inl ShortHeader
              else if take 4 header \<noteq> enc_magic then Inl BadMagic
              else Inr \<lparr>src = s\<lparr>off := off s + enc_header_len\<rparr>, d_iv = drop 4 header,
                        d_size = object_size - int enc_header_len, d_pos = 0,
                        d_stream = new_ctr [], aligned = False\<rparr>)"

definition align :: "(byte list \<Rightarrow> byte list) \<Rightarrow> io_env \<Rightarrow> decryptor \<Rightarrow> crypto_error option \<times> decryptor" where
  "align E env d =
     (if seek_fails env then (Some SeekFailed, d)
      else let block_idx = word_of_int (d_pos d) div (16 :: u64);
               skip = unat (word_of_int (d_pos d) mod (16 :: u64));
               s0 = new_ctr (add_be (d_iv d) block_idx);
               s1 = (if skip > 0 then snd (xor_key_stream E s0 (replicate skip 0)) else s0)
           in (None, d\<lparr>src := (src d)\<lparr>off := nat (int enc_header_len + d_pos d)\<rparr>,
                        d_stream := s1, aligned := True\<rparr>))"

definition dec_read ::
  "(byte list \<Rightarrow> byte list) \<Rightarrow> io_env \<Rightarrow> nat \<Rightarrow> decryptor \<Rightarrow> (byte list \<times> crypto_error option) \<times> decryptor" where
  "dec_read E env n d =
     (if d_pos d \<ge> d_size d then (([], Some EOF), d)
      else let (e, d1) = (if aligned d then (None, d) else align E env d)
           in case e of
                Some err \<Rightarrow> (([], Some err), d1)
              | None \<Rightarrow>
                  let want = min n (nat (d_size d1 - d_pos d1));
                      ((got, err), s') = src_read env want (src d1);
                      (out, st) = xor_key_stream E (d_stream d1) got;
                      d2 = d1\<lparr>src := s', d_stream := st, d_pos := d_pos d1 + int (length got)\<rparr>
                  in ((out, if err = Some EOF \<and> d_pos d2 < d_size d2 then None else err), d2))"

datatype whence = SeekStart | SeekCurrent | SeekEnd | OtherWhence

definition dec_seek :: "int \<Rightarrow> whence \<Rightarrow> decryptor \<Rightarrow> (crypto_error + int) \<times> decryptor" where
  "dec_seek offset w d =
     (case (case w of SeekStart \<Rightarrow> Some offset
                    | SeekCurrent \<Rightarrow> Some (wrap64 (d_pos d + offset))
                    | SeekEnd \<Rightarrow> Some (wrap64 (d_size d + offset))
                    | OtherWhence \<Rightarrow> None) of
        None \<Rightarrow> (Inl BadWhence, d)
      | Some a \<Rightarrow> if a < 0 then (Inl NegativeSeek, d)
                  else (Inr a, d\<lparr>d_pos := a, aligned := False\<rparr>))"

text \<open>
  \<^verbatim>\<open>io.ReadFull\<close> on the decryptor: it reads until the buffer is full or an error is reported.
  Nothing bounds the number of reads, so not returning is the value \<open>None\<close>.
\<close>

partial_function (option) read_full ::
  "(byte list \<Rightarrow> byte list) \<Rightarrow> io_env \<Rightarrow> nat \<Rightarrow> byte list \<Rightarrow> decryptor \<Rightarrow> (crypto_error + byte list) option" where
  "read_full E env n acc d =
     (if n = 0 then Some (Inr acc)
      else (case dec_read E env n d of
             (res, d1) \<Rightarrow> (case res of
               (got, err) \<Rightarrow>
                 (if length got \<ge> n then Some (Inr (acc @ got))
                  else (case err of
                         Some e \<Rightarrow> Some (Inl (if e = EOF \<and> acc @ got \<noteq> [] then UnexpectedEOF else e))
                       | None \<Rightarrow> read_full E env (n - length got) (acc @ got) d1)))))"

text \<open>A \<^verbatim>\<open>bytes.Reader\<close> never fails and delivers everything it is asked for.\<close>

definition memory_env :: "byte list \<Rightarrow> io_env" where
  "memory_env data = \<lparr>seek_fails = False, read_fails = False, chunk = length data, early_eof = False\<rparr>"

definition decrypt_all :: "(byte list \<Rightarrow> byte list) \<Rightarrow> byte list \<Rightarrow> (crypto_error + byte list) option" where
  "decrypt_all E data =
     (case decrypting_read_seeker False \<lparr>bytes = data, off = 0\<rparr> (int (length data)) of
        Inl e \<Rightarrow> Some (Inl e)
      | Inr d \<Rightarrow> read_full E (memory_env data) (nat (d_size d)) [] d)"

section \<open>Every read delivers its slice of the plaintext\<close>

definition sealed :: "(byte list \<Rightarrow> byte list) \<Rightarrow> byte list \<Rightarrow> byte list \<Rightarrow> byte list" where
  "sealed E iv plain = enc_magic @ iv @ fst (xor_key_stream E (new_ctr iv) plain)"

lemma length_sealed [simp]: "length iv = 16 \<Longrightarrow> length (sealed E iv plain) = 20 + length plain"
  by (simp add: sealed_def)

lemma sealed_nth:
  assumes "blocks E" "length iv = 16" "i < length plain"
  shows "sealed E iv plain ! (20 + i) = plain ! i XOR key_byte E iv i"
  using assms xor_stream_nth [OF assms(1,2) stream_at_0 assms(3)] by (simp add: sealed_def nth_append)

definition dec_ok :: "(byte list \<Rightarrow> byte list) \<Rightarrow> byte list \<Rightarrow> byte list \<Rightarrow> decryptor \<Rightarrow> bool" where
  "dec_ok E iv plain d \<longleftrightarrow>
     bytes (src d) = sealed E iv plain \<and> d_iv d = iv \<and> d_size d = int (length plain) \<and> 0 \<le> d_pos d \<and>
     (aligned d \<longrightarrow> off (src d) = 20 + nat (d_pos d) \<and> stream_at E iv (nat (d_pos d)) (d_stream d))"

lemma unat_pos:
  assumes "0 \<le> p" "p < 2 ^ 63"
  shows "unat (word_of_int p div (16 :: u64)) = nat p div 16" "unat (word_of_int p mod (16 :: u64)) = nat p mod 16"
proof -
  have "unat (word_of_int p :: u64) = nat p"
    using assms by (simp add: unsigned_of_int take_bit_int_eq_self)
  then show "unat (word_of_int p div (16 :: u64)) = nat p div 16" "unat (word_of_int p mod (16 :: u64)) = nat p mod 16"
    by (simp_all add: unat_div_distrib unat_mod_distrib)
qed

lemma align_ok:
  assumes "blocks E" "length iv = 16" "dec_ok E iv plain d" "d_pos d < 2 ^ 63"
    and "align E env d = (None, d1)"
  shows "dec_ok E iv plain d1 \<and> aligned d1 \<and> d_pos d1 = d_pos d"
proof -
  let ?p = "nat (d_pos d)" and ?s0 = "new_ctr (add_be iv (word_of_int (d_pos d) div 16))"
  have p: "0 \<le> d_pos d" and iv: "d_iv d = iv" using assms(3) by (simp_all add: dec_ok_def)
  note u = unat_pos [OF p assms(4)]
  have iv': "add_be iv (word_of_int (d_pos d) div 16) = (incr ^^ (?p div 16)) iv"
    by (simp only: add_be_incr u)
  have "stream_at E ((incr ^^ (?p div 16)) iv) (?p mod 16)
      (snd (xor_key_stream E ?s0 (replicate (?p mod 16) 0)))"
    using xor_stream [OF assms(1) _ stream_at_0, of "(incr ^^ (?p div 16)) iv" "replicate (?p mod 16) 0"]
      assms(2) unfolding iv' by simp
  then have "stream_at E iv ?p (snd (xor_key_stream E ?s0 (replicate (?p mod 16) 0)))"
    unfolding stream_at_shift by simp
  moreover have "snd (xor_key_stream E ?s0 (replicate (?p mod 16) 0)) = ?s0" if "\<not> 0 < ?p mod 16"
    using that by simp
  ultimately have "stream_at E iv ?p (d_stream d1)"
    using assms(5) u(2) iv by (auto simp: align_def Let_def split: if_splits)
  then show ?thesis
    using assms(3,5) p by (auto simp: align_def Let_def dec_ok_def nat_add_distrib split: if_splits)
qed

lemma decrypted_slice:
  assumes "blocks E" "length iv = 16" "stream_at E iv p s"
  shows "fst (xor_key_stream E s (take k (drop (20 + p) (sealed E iv plain)))) = take k (drop p plain)"
proof (rule nth_equalityI)
  fix i assume i: "i < length (fst (xor_key_stream E s (take k (drop (20 + p) (sealed E iv plain)))))"
  then have l: "i < length (take k (drop (20 + p) (sealed E iv plain)))" by simp
  then have b: "i < k" "p + i < length plain" using assms(2) by auto
  have "take k (drop (20 + p) (sealed E iv plain)) ! i = sealed E iv plain ! (20 + (p + i))"
    using l b assms(2) by (simp add: add.assoc)
  also have "\<dots> = plain ! (p + i) XOR key_byte E iv (p + i)"
    using assms b by (intro sealed_nth)
  finally show "fst (xor_key_stream E s (take k (drop (20 + p) (sealed E iv plain)))) ! i = take k (drop p plain) ! i"
    using xor_stream_nth [OF assms l] b by (simp add: xor.assoc)
qed (use assms(2) in simp)

text \<open>What a call delivered: position, room, conditions, bytes and error.\<close>

type_synonym read_log = "int \<times> nat \<times> io_env \<times> byte list \<times> crypto_error option"

fun read_ok :: "byte list \<Rightarrow> read_log \<Rightarrow> bool" where
  "read_ok plain (p, n, env, out, err) \<longleftrightarrow>
     out = take (length out) (drop (nat p) plain) \<and> length out \<le> n \<and>
     (err = Some EOF \<longrightarrow> p + int (length out) \<ge> int (length plain)) \<and>
     (p \<ge> int (length plain) \<longrightarrow> err = Some EOF) \<and>
     (p < int (length plain) \<and> \<not> seek_fails env \<and> \<not> read_fails env \<longrightarrow>
        length out = min (min n (chunk env)) (length plain - nat p) \<and> err \<in> {None, Some EOF})"

lemma dec_read_ok:
  assumes "blocks E" "length iv = 16" "int (length plain) < 2 ^ 63" "dec_ok E iv plain d"
    and "dec_read E env n d = ((out, err), d')"
  shows "dec_ok E iv plain d' \<and> d_pos d' = d_pos d + int (length out) \<and> read_ok plain (d_pos d, n, env, out, err)"
proof (cases "d_pos d \<ge> d_size d")
  case True
  then show ?thesis using assms(4,5) by (auto simp: dec_read_def dec_ok_def)
next
  case False
  obtain e d1 where a: "(if aligned d then (None, d) else align E env d) = (e, d1)" by fastforce
  have lt: "d_pos d < int (length plain)" "0 \<le> d_pos d" "d_size d = int (length plain)"
    using False assms(4) by (auto simp: dec_ok_def)
  show ?thesis
  proof (cases e)
    case (Some err')
    then have "seek_fails env" "d1 = d" "out = []" "err = Some err'" "d' = d1" "err' = SeekFailed"
      using a assms(5) False by (auto simp: dec_read_def align_def Let_def split: if_splits)
    then show ?thesis using assms(4) lt by simp
  next
    case None
    have d1: "dec_ok E iv plain d1 \<and> aligned d1 \<and> d_pos d1 = d_pos d"
    proof (cases "aligned d")
      case True
      then show ?thesis using a assms(4) by auto
    next
      case False
      have "d_pos d < 2 ^ 63" using lt assms(3) by linarith
      then show ?thesis using a None align_ok [OF assms(1,2,4)] False by auto
    qed
    let ?p = "nat (d_pos d)"
    define want where "want = min n (nat (d_size d1 - d_pos d1))"
    obtain got e1 s' where r: "src_read env want (src d1) = ((got, e1), s')" by (metis prod.exhaust)
    obtain st where x: "xor_key_stream E (d_stream d1) got = (out, st)"
      and d': "d' = d1\<lparr>src := s', d_stream := st, d_pos := d_pos d1 + int (length got)\<rparr>"
      and err: "err = (if e1 = Some EOF \<and> d_pos d1 + int (length got) < d_size d1 then None else e1)"
      using assms(5) False a None r by (auto simp: dec_read_def Let_def want_def split: prod.splits)
    have at: "off (src d1) = 20 + ?p" "stream_at E iv ?p (d_stream d1)" "bytes (src d1) = sealed E iv plain"
      "d_size d1 = int (length plain)" "d_iv d1 = iv"
      using d1 by (auto simp: dec_ok_def)
    have len: "length out = length got" using x length_xor_stream [of E "d_stream d1" got] by simp
    have wl: "want \<le> length plain - ?p" "want \<le> n" using at(4) d1 lt by (auto simp: want_def)
    show ?thesis
    proof (cases "read_fails env")
      case True
      then have "got = []" "e1 = Some ReadFailed" "s' = src d1" using r by (auto simp: src_read_def)
      then show ?thesis using d1 lt x d' err True len by (auto simp: dec_ok_def)
    next
      case nf: False
      have got: "got = take (min want (chunk env)) (drop (20 + ?p) (sealed E iv plain))"
        and s': "s' = (src d1)\<lparr>off := off (src d1) + length got\<rparr>" and e1: "e1 \<in> {None, Some EOF}"
        using r nf at by (auto simp: src_read_def Let_def)
      have out: "out = take (min want (chunk env)) (drop ?p plain)"
        using decrypted_slice [OF assms(1,2) at(2), of "min want (chunk env)" plain] x got by simp
      have gl: "length got = min want (chunk env)"
        using wl assms(2) unfolding got by simp
      have "stream_at E iv (?p + length got) st"
        using xor_stream [OF assms(1,2) at(2), of got] x by simp
      moreover have np: "nat (d_pos d') = ?p + length got" "0 \<le> d_pos d'"
        using d1 lt(2) unfolding d' by (simp_all add: nat_add_distrib)
      moreover have "off (src d') = 20 + ?p + length got" "bytes (src d') = sealed E iv plain" "d_stream d' = st"
        "d_iv d' = iv" "d_size d' = int (length plain)"
        using at(1,3,4,5) unfolding d' s' by simp_all
      ultimately have ok': "dec_ok E iv plain d'" unfolding dec_ok_def by simp
      have "length out = min (min n (chunk env)) (length plain - ?p)"
        using len gl at(4) d1 lt by (simp add: want_def nat_diff_distrib min.assoc min.commute min.left_commute)
      moreover have "out = take (length out) (drop ?p plain)" unfolding len gl using out by simp
      moreover have "length out \<le> n" using len gl wl by simp
      moreover have "err \<in> {None, Some EOF}" "err = Some EOF \<longrightarrow> d_pos d + int (length out) \<ge> int (length plain)"
        using err e1 len d1 at(4) by auto
      moreover have "d_pos d' = d_pos d + int (length out)" using d' d1 len by simp
      ultimately show ?thesis using ok' lt by simp
    qed
  qed
qed

text \<open>Any sequence of reads and seeks.\<close>

datatype dec_op = ReadOp io_env nat | SeekOp int whence

fun dec_run :: "(byte list \<Rightarrow> byte list) \<Rightarrow> dec_op list \<Rightarrow> decryptor \<Rightarrow> read_log list" where
  "dec_run E [] d = []"
| "dec_run E (ReadOp env n # ops) d =
     (let ((out, err), d1) = dec_read E env n d in (d_pos d, n, env, out, err) # dec_run E ops d1)"
| "dec_run E (SeekOp o' w # ops) d = dec_run E ops (snd (dec_seek o' w d))"

lemma dec_seek_ok: "dec_ok E iv plain d \<Longrightarrow> dec_ok E iv plain (snd (dec_seek o' w d))"
  by (auto simp: dec_seek_def dec_ok_def split: option.splits whence.splits)

lemma dec_run_ok:
  assumes "blocks E" "length iv = 16" "int (length plain) < 2 ^ 63" "dec_ok E iv plain d"
  shows "list_all (read_ok plain) (dec_run E ops d)"
  using assms(4)
proof (induction ops arbitrary: d)
  case (Cons x ops)
  show ?case
  proof (cases x)
    case (ReadOp env n)
    obtain out err d1 where r: "dec_read E env n d = ((out, err), d1)" by (metis prod.exhaust)
    from dec_read_ok [OF assms(1-3) Cons.prems r] Cons.IH show ?thesis
      by (simp add: ReadOp r del: read_ok.simps)
  next
    case (SeekOp o' w)
    then show ?thesis using Cons.IH [OF dec_seek_ok [OF Cons.prems]] by simp
  qed
qed simp

lemma open_sealed:
  assumes "length iv = 16"
  shows "\<exists>d. decrypting_read_seeker False \<lparr>bytes = sealed E iv plain, off = 0\<rparr> (20 + int (length plain)) = Inr d \<and>
             dec_ok E iv plain d \<and> d_pos d = 0 \<and> d_size d = int (length plain)"
proof -
  have "take 20 (sealed E iv plain) = enc_magic @ iv" using assms by (simp add: sealed_def)
  then show ?thesis using assms by (simp add: decrypting_read_seeker_def dec_ok_def)
qed

text \<open>
  C29: playback of an archived recording may jump anywhere.  Over the object that encryption makes
  of a plaintext, under any sequence of reads and seeks, any short reads and any failures of the
  source, every read delivers exactly the plaintext at its position (a prefix of what is asked
  for); the end is reported at the end and only there; and a read inside that meets no failure
  makes progress.
\<close>

theorem ctr_random_access:
  assumes "blocks E" "length iv = 16" "int (length plain) < 2 ^ 63"
    and "encrypt_all E (Some iv) plain = Inr obj"
    and "decrypting_read_seeker False \<lparr>bytes = obj, off = 0\<rparr> (int (length obj)) = Inr d"
  shows "list_all (read_ok plain) (dec_run E ops d)"
proof -
  have o: "obj = sealed E iv plain" using assms(4) by (simp add: encrypt_all_def sealed_def)
  then have "int (length obj) = 20 + int (length plain)" using assms(2) by simp
  then have "dec_ok E iv plain d" using open_sealed [OF assms(2), of E plain] assms(5) unfolding o by auto
  then show ?thesis by (rule dec_run_ok [OF assms(1-3)])
qed

definition sample_iv :: "byte list" where "sample_iv = replicate 15 0xFF @ [0xFE]"

theorem ctr_random_access_witness:
  "list_all (read_ok (replicate 40 7))
     (dec_run rev [SeekOp (-6) SeekEnd, ReadOp (memory_env [1, 2, 3]) 10, ReadOp (memory_env [1, 2, 3]) 10]
       \<lparr>src = \<lparr>bytes = sealed rev sample_iv (replicate 40 7), off = 20\<rparr>, d_iv = sample_iv, d_size = 40, d_pos = 0,
        d_stream = new_ctr [], aligned = False\<rparr>)"
proof -
  have iv: "length sample_iv = 16" by (simp add: sample_iv_def)
  have "take 20 (sealed rev sample_iv (replicate 40 7)) = enc_magic @ sample_iv" using iv by (simp add: sealed_def)
  then show ?thesis
    using iv by (intro ctr_random_access [OF _ iv, of rev "replicate 40 7" "sealed rev sample_iv (replicate 40 7)"])
      (simp_all add: blocks_def encrypt_all_def sealed_def [symmetric] decrypting_read_seeker_def)
qed

section \<open>Whole objects\<close>

text \<open>
  Small blobs survive encryption and decryption unchanged, and with no randomness nothing is
  encrypted.
\<close>

theorem encrypt_decrypt_all:
  assumes "blocks E" "pred_option (\<lambda>iv. length iv = 16) rnd" "int (length plain) < 2 ^ 63"
  shows "(case encrypt_all E rnd plain of
            Inl e \<Rightarrow> e = NoRandom \<and> rnd = None
          | Inr obj \<Rightarrow> is_encrypted_header obj \<and> int (length obj) = int (length plain) + 20 \<and>
              decrypt_all E obj = Some (Inr plain))"
proof (cases rnd)
  case None
  then show ?thesis by (simp add: encrypt_all_def)
next
  case (Some iv')
  with assms(2) have iv: "length iv' = 16" "encrypt_all E rnd plain = Inr (sealed E iv' plain)"
    by (simp_all add: encrypt_all_def sealed_def)
  let ?obj = "sealed E iv' plain"
  obtain d where d: "decrypting_read_seeker False \<lparr>bytes = ?obj, off = 0\<rparr> (20 + int (length plain)) = Inr d"
    "dec_ok E iv' plain d" "d_pos d = 0" "d_size d = int (length plain)"
    using open_sealed [OF iv(1), of E plain] by blast
  have "read_full E (memory_env ?obj) (length plain) [] d = Some (Inr plain)"
  proof (cases "plain = []")
    case True
    then show ?thesis by (simp add: read_full.simps)
  next
    case False
    obtain out err d1 where r: "dec_read E (memory_env ?obj) (length plain) d = ((out, err), d1)"
      by (metis prod.exhaust)
    have ok: "read_ok plain (0, length plain, memory_env ?obj, out, err)"
      using dec_read_ok [OF assms(1) iv(1) assms(3) d(2) r] d(3) by simp
    have "out = take (length out) (drop (nat 0) plain)" using ok unfolding read_ok.simps by (rule conjunct1)
    moreover have "length out = length plain" using ok False iv(1) by (simp add: memory_env_def)
    ultimately have "out = plain" by (metis drop0 nat_zero_as_int order_refl take_all)
    then show ?thesis using r by (subst read_full.simps) simp
  qed
  then show ?thesis
    using iv d(1,4) by (simp add: decrypt_all_def is_encrypted_header_def) (simp add: sealed_def)
qed

theorem encrypt_decrypt_all_witness:
  "decrypt_all rev (sealed rev sample_iv [1, 2, 3]) = Some (Inr [1, 2, 3])"
proof -
  have "blocks rev" "pred_option (\<lambda>iv. length iv = 16) (Some sample_iv)" "int (length [1 :: byte, 2, 3]) < 2 ^ 63"
    by (simp_all add: blocks_def sample_iv_def)
  from encrypt_decrypt_all [OF this]
  show ?thesis unfolding encrypt_all_def option.case sealed_def [symmetric] sum.case by blast
qed

text \<open>
  When the source holds less than the size it was opened with (an object replaced or cut while it
  is being played), a read at its end reports neither bytes nor an error, so \<^verbatim>\<open>io.ReadFull\<close> and
  \<^verbatim>\<open>io.Copy\<close> never return.
\<close>

definition starved :: "decryptor \<Rightarrow> bool" where
  "starved d \<longleftrightarrow> aligned d \<and> off (src d) \<ge> length (bytes (src d)) \<and> d_pos d < d_size d"

lemma starved_read:
  "starved d \<Longrightarrow> \<not> read_fails env \<Longrightarrow> dec_read E env n d = (([], None), d)"
  by (simp add: starved_def dec_read_def src_read_def Let_def)

lemma short_object_hangs:
  assumes "starved d" "\<not> read_fails env" "0 < n"
  shows "read_full E env n acc d = None"
proof -
  have "\<not> (starved d \<and> \<not> read_fails env \<and> 0 < n)" if "read_full E env n acc d = Some r" for d n acc r
  proof (rule read_full.raw_induct [where P = "\<lambda>E env n acc d r. \<not> (starved d \<and> \<not> read_fails env \<and> 0 < n)", OF _ that])
    fix f E env n acc d r
    assume IH: "\<And>E env n acc d r. f E env n acc d = Some r \<Longrightarrow> \<not> (starved d \<and> \<not> read_fails env \<and> 0 < n)"
      and eq: "(if n = 0 then Some (Inr acc)
        else (case dec_read E env n d of (res, d1) \<Rightarrow> (case res of (got, err) \<Rightarrow>
          (if length got \<ge> n then Some (Inr (acc @ got))
           else (case err of
                   Some e \<Rightarrow> Some (Inl (if e = EOF \<and> acc @ got \<noteq> [] then UnexpectedEOF else e))
                 | None \<Rightarrow> f E env (n - length got) (acc @ got) d1))))) = Some r"
    show "\<not> (starved d \<and> \<not> read_fails env \<and> 0 < n)"
    proof
      assume st: "starved d \<and> \<not> read_fails env \<and> 0 < n"
      with eq have "f E env n acc d = Some r" by (simp add: starved_read)
      with IH st show False by blast
    qed
  qed
  then show ?thesis using assms by (metis option.exhaust)
qed

section \<open>Keys\<close>

text \<open>
  \<^verbatim>\<open>DeriveKey\<close> with its cache: \<open>b64\<close> decodes the salt, \<open>sha\<close> names the cache entry and \<open>kdf\<close> is
  Argon2id with the fixed parameters.
\<close>

type_synonym key_cache = "byte list \<rightharpoonup> byte list"

definition derive_key ::
  "(string \<Rightarrow> byte list option) \<Rightarrow> (byte list \<Rightarrow> byte list) \<Rightarrow> (byte list \<Rightarrow> byte list \<Rightarrow> byte list) \<Rightarrow>
   byte list \<Rightarrow> string \<Rightarrow> key_cache \<Rightarrow> (crypto_error + byte list) \<times> key_cache" where
  "derive_key b64 sha kdf passphrase salt64 cache =
     (if passphrase = [] then (Inl EmptyPassphrase, cache)
      else case b64 salt64 of
             None \<Rightarrow> (Inl BadSalt, cache)
           | Some salt \<Rightarrow>
               if length salt < 16 then (Inl ShortSalt, cache)
               else let ck = sha (passphrase @ [0] @ salt)
                    in (case cache ck of
                          Some k \<Rightarrow> (Inr k, cache)
                        | None \<Rightarrow> (let k = kdf passphrase salt in (Inr k, cache(ck \<mapsto> k)))))"

definition new_cipher :: "(byte list \<Rightarrow> byte list \<Rightarrow> byte list) \<Rightarrow> byte list \<Rightarrow> crypto_error + (byte list \<Rightarrow> byte list)" where
  "new_cipher aes key = (if length key \<noteq> 32 then Inl (BadKeyLen (length key)) else Inr (aes key))"

definition cipher_from_s3 ::
  "(string \<Rightarrow> byte list option) \<Rightarrow> (byte list \<Rightarrow> byte list) \<Rightarrow> (byte list \<Rightarrow> byte list \<Rightarrow> byte list) \<Rightarrow>
   (byte list \<Rightarrow> byte list \<Rightarrow> byte list) \<Rightarrow> bool \<Rightarrow> byte list \<Rightarrow> string \<Rightarrow> key_cache \<Rightarrow>
   (crypto_error + (byte list \<Rightarrow> byte list) option) \<times> key_cache" where
  "cipher_from_s3 b64 sha kdf aes enabled key salt cache =
     (if \<not> enabled \<or> key = [] then (Inr None, cache)
      else case derive_key b64 sha kdf key salt cache of
             (Inl e, cache1) \<Rightarrow> (Inl e, cache1)
           | (Inr k, cache1) \<Rightarrow> ((case new_cipher aes k of Inl e \<Rightarrow> Inl e | Inr c \<Rightarrow> Inr (Some c)), cache1))"

text \<open>
  The cache is transparent as long as the hash does not collide on what is hashed and no
  passphrase contains a zero byte.  With zero bytes two different pairs are hashed alike: the
  second one then gets the first one's key.
\<close>

definition cache_ok :: "(byte list \<Rightarrow> byte list) \<Rightarrow> (byte list \<Rightarrow> byte list \<Rightarrow> byte list) \<Rightarrow> key_cache \<Rightarrow> bool" where
  "cache_ok sha kdf cache \<longleftrightarrow>
     (\<forall>ck k. cache ck = Some k \<longrightarrow> (\<exists>p s. 0 \<notin> set p \<and> ck = sha (p @ [0] @ s) \<and> k = kdf p s))"

lemma split_at_zero:
  "0 \<notin> set p \<Longrightarrow> 0 \<notin> set q \<Longrightarrow> p @ [0] @ s = q @ [0] @ t \<Longrightarrow> p = q \<and> s = (t :: byte list)"
proof (induction p arbitrary: q)
  case Nil
  then show ?case by (cases q) auto
next
  case (Cons a p)
  then show ?case by (cases q) auto
qed

lemma derive_key_transparent:
  assumes "inj sha" "0 \<notin> set passphrase" "cache_ok sha kdf cache"
    and "derive_key b64 sha kdf passphrase salt64 cache = (Inr k, cache')"
  shows "(\<exists>salt. b64 salt64 = Some salt \<and> k = kdf passphrase salt) \<and> cache_ok sha kdf cache'"
proof -
  obtain salt where salt: "b64 salt64 = Some salt" "passphrase \<noteq> []" "\<not> length salt < 16"
    using assms(4) by (auto simp: derive_key_def split: if_splits option.splits)
  let ?ck = "sha (passphrase @ [0] @ salt)"
  show ?thesis
  proof (cases "cache ?ck")
    case None
    then have "k = kdf passphrase salt" "cache' = cache(?ck \<mapsto> k)"
      using assms(4) salt by (auto simp: derive_key_def Let_def)
    then show ?thesis using assms(2,3) salt(1) by (fastforce simp: cache_ok_def)
  next
    case (Some k')
    then obtain p s where ps: "0 \<notin> set p" "?ck = sha (p @ [0] @ s)" "k' = kdf p s"
      using assms(3) Some unfolding cache_ok_def by blast
    then have "passphrase = p \<and> salt = s"
      using assms(1,2) by (intro split_at_zero) (auto dest: injD)
    moreover have "k = k'" "cache' = cache" using assms(4) salt Some by (auto simp: derive_key_def Let_def)
    ultimately show ?thesis using ps assms(3) salt(1) by auto
  qed
qed

lemma key_cache_collision:
  assumes "b64 s1 = Some (0 # salt)" "b64 s2 = Some salt" "length salt \<ge> 16" "p \<noteq> []"
  shows "fst (derive_key b64 sha kdf (p @ [0]) s2 (snd (derive_key b64 sha kdf p s1 Map.empty))) =
         Inr (kdf p (0 # salt))"
  using assms by (simp add: derive_key_def Let_def)

end
