(* ===== verification/Hwaccel.thy ===== *)
theory Hwaccel
  imports GoStrings
begin

text \<open>
  Encoder discovery (\<^verbatim>\<open>internal/hwaccel/hwaccel.go\<close>): the encode recipes per operating system,
  the order in which an override makes them be tried, the arguments a recipe contributes, and the
  probe that takes the first one that works.  Running FFmpeg is a parameter: \<open>works args\<close> is the
  outcome of the smoke test with these arguments.
\<close>

record encoder =
  e_name :: string
  hardware :: bool
  vcodec :: string
  hw_decode :: string
  init_args :: "string list"
  vf :: string
  tune :: "string list"

definition software :: encoder where
  "software = \<lparr>e_name = ''libx264'', hardware = False, vcodec = ''libx264'', hw_decode = [], init_args = [],
     vf = [], tune = [''-preset'', ''veryfast'', ''-tune'', ''zerolatency'', ''-pix_fmt'', ''yuv420p'']\<rparr>"

definition hw :: "string \<Rightarrow> string \<Rightarrow> string list \<Rightarrow> encoder" where
  "hw n dec tn = \<lparr>e_name = n, hardware = True, vcodec = n, hw_decode = dec, init_args = [], vf = [], tune = tn\<rparr>"

definition candidates :: "string \<Rightarrow> encoder list" where
  "candidates goos =
     (if goos = ''darwin'' then
        [hw ''h264_videotoolbox'' ''videotoolbox'' [''-realtime'', ''1'', ''-allow_sw'', ''1''], software]
      else if goos = ''linux'' then
        [hw ''h264_nvenc'' ''cuda'' [''-preset'', ''p4'', ''-tune'', ''ll''],
         hw ''h264_qsv'' ''qsv'' [''-preset'', ''veryfast''],
         (hw ''h264_vaapi'' ''vaapi'' [])\<lparr>init_args := [''-vaapi_device'', ''/dev/dri/renderD128''],
            vf := ''format=nv12,hwupload''\<rparr>,
         hw ''h264_v4l2m2m'' [] [], software]
      else if goos = ''windows'' then
        [hw ''h264_nvenc'' ''cuda'' [''-preset'', ''p4'', ''-tune'', ''ll''],
         hw ''h264_qsv'' ''qsv'' [''-preset'', ''veryfast''],
         hw ''h264_amf'' [] [''-usage'', ''lowlatency''],
         hw ''h264_mf'' [] [], software]
      else [software])"

definition input_args :: "encoder \<Rightarrow> bool \<Rightarrow> string list" where
  "input_args e dec = init_args e @ (if dec \<and> hw_decode e \<noteq> [] then [''-hwaccel'', hw_decode e] else [])"

definition video_args :: "encoder \<Rightarrow> int \<Rightarrow> int \<Rightarrow> string list" where
  "video_args e bitrate gop =
     (if vf e \<noteq> [] then [''-vf'', vf e] else []) @ [''-c:v'', vcodec e] @ tune e @
     (if gop > 0 then [''-g'', itoa gop] else []) @
     (if bitrate > 0 then [''-b:v'', itoa bitrate @ ''k'', ''-maxrate'', itoa (bitrate * 3 div 2) @ ''k'',
                           ''-bufsize'', itoa (bitrate * 2) @ ''k''] else [])"

definition smoke_args :: "encoder \<Rightarrow> string list" where
  "smoke_args e =
     [''-hide_banner'', ''-v'', ''error'', ''-nostdin''] @ init_args e @
     [''-f'', ''lavfi'', ''-i'', ''color=c=black:s=320x240:r=15''] @
     (if vf e \<noteq> [] then [''-vf'', vf e] else []) @ [''-c:v'', vcodec e] @ tune e @
     [''-b:v'', ''300k'', ''-frames:v'', ''5'', ''-f'', ''null'', ''-'']"

text \<open>\<open>scan\<close> is the loop of \<^verbatim>\<open>order\<close>: the last match is the named one, the others are kept.\<close>

fun scan :: "string \<Rightarrow> encoder list \<Rightarrow> encoder option \<times> encoder list \<Rightarrow> encoder option \<times> encoder list" where
  "scan o' [] acc = acc"
| "scan o' (e # es) (named, rest) =
     (if e_name e = o' \<or> vcodec e = o' then scan o' es (Some e, rest) else scan o' es (named, rest @ [e]))"

definition order :: "string \<Rightarrow> string \<Rightarrow> encoder list" where
  "order goos override =
     (let o' = to_lower (trim_space override)
      in if o' \<in> {[], ''auto''} then candidates goos
         else if o' \<in> {''none'', ''software'', ''libx264'', ''x264''} then [software]
         else (case scan o' (candidates goos) (None, []) of
                 (None, _) \<Rightarrow> candidates goos
               | (Some e, rest) \<Rightarrow> e # rest))"

definition detect :: "bool \<Rightarrow> (string list \<Rightarrow> bool) \<Rightarrow> string \<Rightarrow> string \<Rightarrow> encoder option" where
  "detect available works goos override =
     (if \<not> available then None else List.find (\<lambda>e. works (smoke_args e)) (order goos override))"

section \<open>Software is always the last resort\<close>

lemma candidates_software: "candidates goos \<noteq> [] \<and> last (candidates goos) = software \<and> distinct (map e_name (candidates goos))"
  by (simp add: candidates_def hw_def software_def)

lemma scan_spec:
  "scan o' es (named, rest) =
     ((case filter (\<lambda>e. e_name e = o' \<or> vcodec e = o') es of [] \<Rightarrow> named | x # xs \<Rightarrow> Some (last (x # xs))),
      rest @ filter (\<lambda>e. \<not> (e_name e = o' \<or> vcodec e = o')) es)"
  by (induction es arbitrary: named rest) (auto split: list.splits)

lemma order_software: "software \<in> set (order goos override)"
proof -
  let ?o = "to_lower (trim_space override)"
  have sw: "software \<in> set (candidates goos)"
    using candidates_software [of goos] last_in_set by metis
  show ?thesis
  proof (cases "?o \<in> {[], ''auto'', ''none'', ''software'', ''libx264'', ''x264''}")
    case True
    then show ?thesis using sw by (auto simp: order_def Let_def)
  next
    case False
    then have "\<not> (e_name software = ?o \<or> vcodec software = ?o)" by (auto simp: software_def)
    then have "software \<in> set (snd (scan ?o (candidates goos) (None, [])))" using sw by (simp add: scan_spec)
    moreover obtain nm rest where sc: "scan ?o (candidates goos) (None, []) = (nm, rest)" by fastforce
    ultimately show ?thesis using False sw by (cases nm) (auto simp: order_def Let_def sc)
  qed
qed

lemma order_subset: "set (order goos override) \<subseteq> set (candidates goos)"
proof -
  have sw: "software \<in> set (candidates goos)"
    using candidates_software [of goos] last_in_set by metis
  let ?o = "to_lower (trim_space override)"
  let ?hit = "\<lambda>e. e_name e = ?o \<or> vcodec e = ?o"
  obtain nm rest where sc: "scan ?o (candidates goos) (None, []) = (nm, rest)" by fastforce
  have rest: "set rest \<subseteq> set (candidates goos)" using sc by (auto simp: scan_spec)
  have nm: "e \<in> set (candidates goos)" if "nm = Some e" for e
  proof (cases "filter ?hit (candidates goos)")
    case Nil
    then show ?thesis using sc that by (simp add: scan_spec)
  next
    case (Cons x xs)
    then have "e = last (filter ?hit (candidates goos))" using sc that by (simp add: scan_spec del: last.simps)
    then have "e \<in> set (filter ?hit (candidates goos))" using Cons by (metis last_in_set list.distinct(1))
    then show ?thesis by simp
  qed
  show ?thesis using sw rest nm by (cases nm) (auto simp: order_def Let_def sc)
qed

text \<open>Detection fails only without FFmpeg, or when not even the software encoder works.\<close>

lemma detect_complete:
  assumes "available" "works (smoke_args software)"
  shows "\<exists>e \<in> set (candidates goos). detect available works goos override = Some e \<and> works (smoke_args e)"
proof -
  have "detect available works goos override \<noteq> None"
    using assms order_software [of goos override] by (auto simp: detect_def find_None_iff)
  then obtain e where e: "List.find (\<lambda>e. works (smoke_args e)) (order goos override) = Some e"
    using assms(1) by (auto simp: detect_def)
  then have "works (smoke_args e)" "e \<in> set (order goos override)"
    by (auto simp: find_Some_iff intro: nth_mem)
  then show ?thesis using e assms(1) order_subset [of goos override] by (auto simp: detect_def)
qed

end
