(* ===== verification/Transcode_Live.thy ===== *)
theory Transcode_Live
  imports Core_Stream Hwaccel
begin

text \<open>
  The shared live transcoder (\<^verbatim>\<open>internal/transcode/transcode.go\<close>).  First the reference-counted
  life of the one FFmpeg process: every critical section of \<^verbatim>\<open>Acquire\<close>, \<^verbatim>\<open>Release\<close>, \<^verbatim>\<open>Close\<close>,
  \<^verbatim>\<open>stopIfIdle\<close> and \<^verbatim>\<open>run\<close> is one operation on the transcoder's state, and viewers, timers and runs
  interleave as the steps of \<open>live_step\<close>.  Then the demultiplexer's callbacks and the timestamp
  conversion.  FFmpeg is not modelled: a run may become ready and may end at any time.
\<close>

section \<open>The state\<close>

datatype viewer = Away | Waiting nat | Woken | Holding nat

text \<open>
  A run is \<open>Starting\<close> until \<^verbatim>\<open>onReady\<close>, \<open>Announcing\<close> between setting \<^verbatim>\<open>out\<close> and closing its ready
  channel, \<open>Serving\<close> after that, and \<open>Ending\<close> between its last critical section and its last call of
  \<^verbatim>\<open>signal\<close>; the flag tells whether \<^verbatim>\<open>once\<close> has been used.
\<close>

datatype run_phase = Starting | Announcing | Serving | Ending bool

record live =
  refs :: nat
  out :: "nat option"
  start_err :: "string option"
  running :: bool
  ready :: nat
  cancel :: "nat option"
  timer :: "nat option"
  phases :: "nat \<rightharpoonup> run_phase"
  cancelled :: "nat set"
  closed_ready :: "nat set"
  closed_out :: "nat set"
  armed :: "nat set"
  firing :: nat
  closing :: "nat set"
  viewers :: "nat \<Rightarrow> viewer"
  next_id :: nat
  panicked :: bool

definition new_live :: live where
  "new_live = \<lparr>refs = 0, out = None, start_err = None, running = False, ready = 0, cancel = None,
     timer = None, phases = Map.empty, cancelled = {}, closed_ready = {}, closed_out = {}, armed = {},
     firing = 0, closing = {}, viewers = (\<lambda>v. Away), next_id = 1, panicked = False\<rparr>"

definition set_viewer :: "nat \<Rightarrow> viewer \<Rightarrow> live \<Rightarrow> live" where
  "set_viewer v p s = s\<lparr>viewers := (viewers s)(v := p)\<rparr>"

definition set_phase :: "nat \<Rightarrow> run_phase option \<Rightarrow> live \<Rightarrow> live" where
  "set_phase r p s = s\<lparr>phases := (phases s)(r := p)\<rparr>"

definition stop_timer :: "live \<Rightarrow> live" where
  "stop_timer s = (case timer s of None \<Rightarrow> s | Some k \<Rightarrow> s\<lparr>armed := armed s - {k}\<rparr>)"

definition close_ready :: "nat \<Rightarrow> live \<Rightarrow> live" where
  "close_ready r s = (if r \<in> closed_ready s then s\<lparr>panicked := True\<rparr>
                      else s\<lparr>closed_ready := insert r (closed_ready s)\<rparr>)"

section \<open>The operations\<close>

definition start_run :: "live \<Rightarrow> live" where
  "start_run s = (let r = next_id s in
     s\<lparr>running := True, start_err := None, cancel := Some r, ready := r,
       phases := (phases s)(r \<mapsto> Starting), next_id := Suc r\<rparr>)"

definition acquire_begin :: "nat \<Rightarrow> live \<Rightarrow> live" where
  "acquire_begin v s0 =
     (let s1 = (stop_timer s0)\<lparr>timer := None\<rparr>;
          s2 = s1\<lparr>refs := refs s1 + 1\<rparr>
      in case out s2 of
           Some o' \<Rightarrow> set_viewer v (Holding o') s2
         | None \<Rightarrow> let s3 = (if running s2 then s2 else start_run s2)
                   in set_viewer v (Waiting (ready s3)) s3)"

definition release :: "live \<Rightarrow> live" where
  "release s =
     (if refs s = 0 then s
      else let s1 = s\<lparr>refs := refs s - 1\<rparr>
           in if refs s1 > 0 then s1
              else let s2 = stop_timer s1; k = next_id s2
                   in s2\<lparr>timer := Some k, armed := insert k (armed s2), next_id := Suc k\<rparr>)"

definition acquire_abort :: "nat \<Rightarrow> live \<Rightarrow> live" where
  "acquire_abort v s = set_viewer v Away (release s)"

definition acquire_finish :: "nat \<Rightarrow> live \<Rightarrow> live" where
  "acquire_finish v s =
     (case out s of Some o' \<Rightarrow> set_viewer v (Holding o') s | None \<Rightarrow> set_viewer v Away (release s))"

definition cancel_run :: "nat \<Rightarrow> live \<Rightarrow> live" where
  "cancel_run r s = s\<lparr>cancelled := insert r (cancelled s)\<rparr>"

definition stop_if_idle :: "live \<Rightarrow> live" where
  "stop_if_idle s =
     (if refs s > 0 then s
      else case cancel s of None \<Rightarrow> s | Some r \<Rightarrow> (cancel_run r s)\<lparr>cancel := None\<rparr>)"

definition close_begin :: "live \<Rightarrow> live" where
  "close_begin s0 =
     (let s1 = (stop_timer s0)\<lparr>timer := None\<rparr>
      in case cancel s1 of None \<Rightarrow> s1 | Some r \<Rightarrow> s1\<lparr>cancel := None, closing := insert r (closing s1)\<rparr>)"

definition run_ready :: "nat \<Rightarrow> live \<Rightarrow> live" where
  "run_ready r s = set_phase r (Some Announcing) (s\<lparr>out := Some (next_id s), next_id := Suc (next_id s)\<rparr>)"

definition run_end :: "string option \<Rightarrow> nat \<Rightarrow> live \<Rightarrow> live" where
  "run_end err r s =
     set_phase r (Some (Ending (phases s r = Some Serving)))
       (s\<lparr>start_err := (if start_err s = None then err else start_err s),
          closed_out := (case out s of None \<Rightarrow> closed_out s | Some o' \<Rightarrow> insert o' (closed_out s)),
          out := None, running := False, cancel := None\<rparr>)"

text \<open>
  The interleaving.  A step is a critical section of one of the goroutines, or an event of the
  environment: a context that ends or the start-up time-out (\<open>give_up\<close>), a timer that fires, a run
  that becomes ready or ends.
\<close>

inductive live_step :: "live \<Rightarrow> live \<Rightarrow> bool" where
  arrive: "viewers s v = Away \<Longrightarrow> live_step s (acquire_begin v s)"
| wake: "viewers s v = Waiting r \<Longrightarrow> r \<in> closed_ready s \<Longrightarrow> live_step s (set_viewer v Woken s)"
| give_up: "viewers s v = Waiting r \<Longrightarrow> live_step s (acquire_abort v s)"
| finish: "viewers s v = Woken \<Longrightarrow> live_step s (acquire_finish v s)"
| leave: "viewers s v = Holding o' \<Longrightarrow> live_step s (acquire_abort v s)"
| fire: "k \<in> armed s \<Longrightarrow> live_step s (s\<lparr>armed := armed s - {k}, firing := Suc (firing s)\<rparr>)"
| idle: "firing s = Suc n \<Longrightarrow> live_step s (stop_if_idle (s\<lparr>firing := n\<rparr>))"
| close_t: "live_step s (close_begin s)"
| close_c: "r \<in> closing s \<Longrightarrow> live_step s (cancel_run r (s\<lparr>closing := closing s - {r}\<rparr>))"
| on_ready: "phases s r = Some Starting \<Longrightarrow> live_step s (run_ready r s)"
| announce: "phases s r = Some Announcing \<Longrightarrow> live_step s (set_phase r (Some Serving) (close_ready r s))"
| stops: "phases s r = Some p \<Longrightarrow> p \<in> {Starting, Serving} \<Longrightarrow> live_step s (run_end err r s)"
| ended: "phases s r = Some (Ending b) \<Longrightarrow>
    live_step s (set_phase r None (if b then s else close_ready r s))"

inductive live_reach :: "live \<Rightarrow> bool" where
  init: "live_reach new_live"
| step: "live_reach s \<Longrightarrow> live_step s s' \<Longrightarrow> live_reach s'"

section \<open>The invariant\<close>

definition process :: "live \<Rightarrow> nat \<Rightarrow> bool" where
  "process s r \<longleftrightarrow> phases s r \<in> {Some Starting, Some Announcing, Some Serving}"

definition unsignalled :: "live \<Rightarrow> nat \<Rightarrow> bool" where
  "unsignalled s r \<longleftrightarrow> phases s r \<in> {Some Starting, Some Announcing, Some (Ending False)}"

definition present :: "live \<Rightarrow> nat set" where
  "present s = {v. viewers s v \<noteq> Away}"

definition runs_ok :: "live \<Rightarrow> bool" where
  "runs_ok s \<longleftrightarrow>
     (\<forall>r. process s r \<longleftrightarrow> running s \<and> r = ready s) \<and>
     (out s \<noteq> None \<longleftrightarrow> running s \<and> phases s (ready s) \<noteq> Some Starting) \<and>
     (\<forall>r. cancel s = Some r \<longrightarrow> running s \<and> r = ready s) \<and>
     (running s \<longrightarrow> cancel s = None \<longrightarrow> ready s \<in> cancelled s \<union> closing s)"

definition signals_ok :: "live \<Rightarrow> bool" where
  "signals_ok s \<longleftrightarrow>
     (\<forall>r. unsignalled s r \<longrightarrow> r \<notin> closed_ready s) \<and>
     (\<forall>r. phases s r \<noteq> None \<or> r \<in> closed_ready s \<longrightarrow> r < next_id s) \<and>
     (\<forall>v r. viewers s v = Waiting r \<longrightarrow> r \<in> closed_ready s \<or> unsignalled s r) \<and> \<not> panicked s"

definition refs_ok :: "live \<Rightarrow> bool" where
  "refs_ok s \<longleftrightarrow> finite (present s) \<and> refs s = card (present s) \<and>
     (refs s = 0 \<longrightarrow> cancel s \<noteq> None \<longrightarrow> armed s \<noteq> {} \<or> 0 < firing s) \<and>
     (\<forall>k \<in> armed s. timer s = Some k)"

definition live_inv :: "live \<Rightarrow> bool" where
  "live_inv s \<longleftrightarrow> runs_ok s \<and> signals_ok s \<and> refs_ok s"

lemmas live_ops = set_viewer_def set_phase_def close_ready_def cancel_run_def start_run_def

lemma stop_timer_frame [frame_simps]:
  "refs (stop_timer s) = refs s" "out (stop_timer s) = out s" "running (stop_timer s) = running s"
  "ready (stop_timer s) = ready s" "cancel (stop_timer s) = cancel s" "timer (stop_timer s) = timer s"
  "phases (stop_timer s) = phases s" "cancelled (stop_timer s) = cancelled s"
  "closed_ready (stop_timer s) = closed_ready s" "firing (stop_timer s) = firing s"
  "closing (stop_timer s) = closing s" "viewers (stop_timer s) = viewers s"
  "next_id (stop_timer s) = next_id s" "panicked (stop_timer s) = panicked s" "start_err (stop_timer s) = start_err s"
  "closed_out (stop_timer s) = closed_out s"
  by (simp_all add: stop_timer_def split: option.split)

lemma stop_timer_armed: "\<forall>k \<in> armed s. timer s = Some k \<Longrightarrow> armed (stop_timer s) = {}"
  by (cases "timer s") (auto simp: stop_timer_def)

text \<open>The viewers that are attached, counted.\<close>

lemma present_upd: "present (s\<lparr>viewers := (viewers s)(v := p)\<rparr>) = (if p = Away then present s - {v} else insert v (present s))"
  by (auto simp: present_def)

lemma present_cong: "viewers s = viewers s' \<Longrightarrow> present s = present s'"
  by (simp add: present_def)

lemma process_cong: "phases s = phases s' \<Longrightarrow> process s = process s'"
  by (simp add: process_def fun_eq_iff)

lemma unsignalled_cong: "phases s = phases s' \<Longrightarrow> unsignalled s = unsignalled s'"
  by (simp add: unsignalled_def fun_eq_iff)

lemma new_live_inv: "live_inv new_live"
  by (simp add: live_inv_def runs_ok_def signals_ok_def refs_ok_def new_live_def process_def unsignalled_def present_def)

lemma live_invD:
  assumes "live_inv s"
  shows "runs_ok s" "signals_ok s" "refs_ok s"
  using assms by (simp_all add: live_inv_def)

text \<open>Operations that leave the runs and the signals alone.\<close>

lemma runs_ok_cong:
  "runs_ok s \<Longrightarrow> phases s' = phases s \<Longrightarrow> running s' = running s \<Longrightarrow> ready s' = ready s \<Longrightarrow> out s' = out s \<Longrightarrow>
   cancel s' = cancel s \<Longrightarrow> cancelled s' = cancelled s \<Longrightarrow> closing s' = closing s \<Longrightarrow> runs_ok s'"
  by (simp add: runs_ok_def process_def)

lemma signals_ok_cong:
  assumes "signals_ok s" "phases s' = phases s" "closed_ready s' = closed_ready s" "panicked s' = panicked s"
    and "next_id s \<le> next_id s'" "\<And>v r. viewers s' v = Waiting r \<Longrightarrow> viewers s v = Waiting r \<or> r \<in> closed_ready s \<or> unsignalled s r"
  shows "signals_ok s'"
  using assms unfolding signals_ok_def unsignalled_def by (metis less_le_trans)

lemma release_frame [frame_simps]:
  "phases (release s) = phases s" "running (release s) = running s" "ready (release s) = ready s"
  "out (release s) = out s" "cancel (release s) = cancel s" "cancelled (release s) = cancelled s"
  "closing (release s) = closing s" "closed_ready (release s) = closed_ready s"
  "panicked (release s) = panicked s" "viewers (release s) = viewers s" "next_id s \<le> next_id (release s)"
  by (simp_all add: release_def Let_def frame_simps)

text \<open>A viewer goes.\<close>

lemma release_refs:
  assumes "refs_ok s" "viewers s v \<noteq> Away"
  shows "refs_ok (set_viewer v Away (release s))"
proof -
  have fin: "finite (present s)" and r: "refs s = card (present s)" and v: "v \<in> present s"
    and t: "\<forall>k \<in> armed s. timer s = Some k"
    using assms by (auto simp: refs_ok_def present_def)
  then have pos: "0 < refs s" "card (present s - {v}) = refs s - 1"
    by (auto simp: card_gt_0_iff)
  have att: "present (set_viewer v Away (release s)) = present s - {v}"
    using present_upd [of "release s" v Away] present_cong [of "release s" s]
    by (simp add: set_viewer_def frame_simps)
  have a: "armed (stop_timer (s\<lparr>refs := refs s - 1\<rparr>)) = {}" by (rule stop_timer_armed) (use t in simp)
  have rl: "refs (release s) = refs s - 1" "firing (release s) = firing s" "\<forall>k \<in> armed (release s). timer (release s) = Some k"
    "refs s = 1 \<Longrightarrow> armed (release s) \<noteq> {}"
    using pos(1) t a by (auto simp: release_def Let_def frame_simps)
  show ?thesis
    unfolding refs_ok_def att using fin pos rl assms(1)
    by (auto simp: set_viewer_def frame_simps)
qed

lemma depart_inv:
  assumes "live_inv s" "viewers s v \<noteq> Away"
  shows "live_inv (acquire_abort v s)"
proof -
  have "runs_ok (acquire_abort v s)"
    using live_invD(1) [OF assms(1)] by (rule runs_ok_cong) (simp_all add: acquire_abort_def set_viewer_def frame_simps)
  moreover have "signals_ok (acquire_abort v s)"
    using live_invD(2) [OF assms(1)]
    by (rule signals_ok_cong) (auto simp: acquire_abort_def set_viewer_def frame_simps split: if_splits)
  ultimately show ?thesis
    using release_refs [OF live_invD(3) [OF assms(1)] assms(2)] by (simp add: live_inv_def acquire_abort_def)
qed

text \<open>A viewer that is attached changes its place.\<close>

lemma move_inv:
  assumes "live_inv s" "viewers s v \<noteq> Away" "p \<in> {Woken} \<union> range Holding"
  shows "live_inv (set_viewer v p s)"
proof -
  have v: "v \<in> present s" using assms(2) by (simp add: present_def)
  have "present (set_viewer v p s) = present s"
    using present_upd [of s v p] v assms(3) by (auto simp: set_viewer_def)
  then have "refs_ok (set_viewer v p s)"
    using live_invD(3) [OF assms(1)] by (simp add: refs_ok_def set_viewer_def)
  moreover have "runs_ok (set_viewer v p s)"
    using live_invD(1) [OF assms(1)] by (rule runs_ok_cong) (simp_all add: set_viewer_def)
  moreover have "signals_ok (set_viewer v p s)"
    using live_invD(2) [OF assms(1)] assms(3)
    by (rule_tac signals_ok_cong [of s]) (auto simp: set_viewer_def split: if_splits)
  ultimately show ?thesis by (simp add: live_inv_def)
qed

lemma finish_inv: "live_inv s \<Longrightarrow> viewers s v \<noteq> Away \<Longrightarrow> live_inv (acquire_finish v s)"
  using depart_inv move_inv by (simp add: acquire_finish_def acquire_abort_def split: option.split)

text \<open>A viewer comes, and with it a run when there is none.\<close>

lemma arrive_refs:
  assumes "refs_ok s" "viewers s v = Away" "p \<noteq> Away"
    and "viewers s' = (viewers s)(v := p)" "refs s' = refs s + 1" "armed s' = {}"
  shows "refs_ok s'"
proof -
  have "present s' = insert v (present s)"
    using present_upd [of s v p] present_cong [of s' "s\<lparr>viewers := (viewers s)(v := p)\<rparr>"] assms(3,4) by simp
  moreover have "v \<notin> present s" using assms(2) by (simp add: present_def)
  ultimately show ?thesis using assms(1,5,6) by (simp add: refs_ok_def)
qed

lemma start_run_ok:
  assumes "runs_ok s" "signals_ok s" "\<not> running s"
  shows "runs_ok (start_run s) \<and> signals_ok (start_run s)"
proof -
  have fresh: "phases s (next_id s) = None" "next_id s \<notin> closed_ready s"
    using assms(2) by (auto simp: signals_ok_def)
  have "runs_ok (start_run s)"
    using assms(1,3) fresh by (auto simp: runs_ok_def start_run_def Let_def process_def)
  moreover have "signals_ok (start_run s)"
    using assms(2) fresh unfolding signals_ok_def start_run_def Let_def unsignalled_def
    by (auto simp: less_Suc_eq)
  ultimately show ?thesis ..
qed

lemma arrive_inv:
  assumes "live_inv s" "viewers s v = Away"
  shows "live_inv (acquire_begin v s)"
proof -
  let ?s2 = "(stop_timer s)\<lparr>timer := None, refs := refs s + 1\<rparr>"
  have beg: "acquire_begin v s = (case out s of Some o' \<Rightarrow> set_viewer v (Holding o') ?s2
      | None \<Rightarrow> let s3 = (if running s then ?s2 else start_run ?s2) in set_viewer v (Waiting (ready s3)) s3)"
    by (cases "out s") (simp_all add: acquire_begin_def Let_def frame_simps)
  have a: "armed ?s2 = {}" using live_invD(3) [OF assms(1)] by (simp add: refs_ok_def stop_timer_armed)
  have r2: "runs_ok ?s2" using live_invD(1) [OF assms(1)] by (rule runs_ok_cong) (simp_all add: frame_simps)
  have s2: "signals_ok ?s2"
    using live_invD(2) [OF assms(1)] by (rule signals_ok_cong) (simp_all add: frame_simps)
  show ?thesis
  proof (cases "out s")
    case (Some o')
    then have b: "acquire_begin v s = set_viewer v (Holding o') ?s2" by (simp add: beg)
    have "runs_ok (acquire_begin v s)" using r2 unfolding b by (rule runs_ok_cong) (simp_all add: set_viewer_def)
    moreover have "signals_ok (acquire_begin v s)" using s2 unfolding b
      by (rule signals_ok_cong) (auto simp: set_viewer_def split: if_splits)
    moreover have "refs_ok (acquire_begin v s)"
      using live_invD(3) [OF assms(1)] assms(2) by (rule arrive_refs) (use a in \<open>auto simp: b set_viewer_def frame_simps\<close>)
    ultimately show ?thesis by (simp add: live_inv_def)
  next
    case None
    define s3 where "s3 = (if running s then ?s2 else start_run ?s2)"
    have b: "acquire_begin v s = set_viewer v (Waiting (ready s3)) s3" by (simp add: beg None s3_def Let_def)
    have s3: "runs_ok s3" "signals_ok s3" "running s3" "viewers s3 = viewers s" "refs s3 = refs s + 1" "armed s3 = {}"
      "out s3 = None"
      using r2 s2 start_run_ok [OF r2 s2] a None
      by (auto simp: s3_def start_run_def Let_def frame_simps)
    then have "phases s3 (ready s3) = Some Starting" by (auto simp: runs_ok_def)
    then have u: "unsignalled s3 (ready s3)" by (simp add: unsignalled_def)
    have "runs_ok (acquire_begin v s)" using s3(1) unfolding b by (rule runs_ok_cong) (simp_all add: set_viewer_def)
    moreover have "signals_ok (acquire_begin v s)" using s3(2) u unfolding b
      by (rule_tac signals_ok_cong [of s3]) (auto simp: set_viewer_def split: if_splits)
    moreover have "refs_ok (acquire_begin v s)"
      using live_invD(3) [OF assms(1)] assms(2)
      by (rule arrive_refs [where p = "Waiting (ready s3)"]) (simp_all add: b set_viewer_def s3(4-6))
    ultimately show ?thesis by (simp add: live_inv_def)
  qed
qed

text \<open>Timers and cancellation.\<close>

lemma fire_inv:
  assumes "live_inv s" "k \<in> armed s"
  shows "live_inv (s\<lparr>armed := armed s - {k}, firing := Suc (firing s)\<rparr>)"
proof -
  let ?s' = "s\<lparr>armed := armed s - {k}, firing := Suc (firing s)\<rparr>"
  have "runs_ok ?s'" using live_invD(1) [OF assms(1)] by (rule runs_ok_cong) simp_all
  moreover have "signals_ok ?s'" using live_invD(2) [OF assms(1)] by (rule signals_ok_cong) simp_all
  moreover have "refs_ok ?s'" using live_invD(3) [OF assms(1)] by (simp add: refs_ok_def present_def)
  ultimately show ?thesis by (simp add: live_inv_def)
qed

lemma idle_inv:
  assumes "live_inv s" "firing s = Suc n"
  shows "live_inv (stop_if_idle (s\<lparr>firing := n\<rparr>))"
proof (cases "refs s > 0")
  case True
  then show ?thesis using assms
    by (auto simp: stop_if_idle_def live_inv_def runs_ok_def signals_ok_def refs_ok_def process_def unsignalled_def present_def)
next
  case False
  show ?thesis
  proof (cases "cancel s")
    case None
    then show ?thesis using assms False
      by (auto simp: stop_if_idle_def live_inv_def runs_ok_def signals_ok_def refs_ok_def process_def unsignalled_def present_def)
  next
    case (Some r)
    then have "r = ready s" using assms(1) by (auto simp: live_inv_def runs_ok_def)
    then show ?thesis using assms False Some
      by (auto simp: stop_if_idle_def live_inv_def runs_ok_def signals_ok_def refs_ok_def process_def unsignalled_def
          present_def cancel_run_def)
  qed
qed

lemma close_begin_inv:
  assumes "live_inv s"
  shows "live_inv (close_begin s)"
proof -
  let ?s1 = "(stop_timer s)\<lparr>timer := None\<rparr>"
  have a: "armed (stop_timer s) = {}" using live_invD(3) [OF assms] by (simp add: refs_ok_def stop_timer_armed)
  show ?thesis
  proof (cases "cancel s")
    case None
    then have b: "close_begin s = ?s1" by (simp add: close_begin_def frame_simps)
    show ?thesis using assms None a unfolding b
      by (auto simp: live_inv_def runs_ok_def signals_ok_def refs_ok_def process_def unsignalled_def present_def frame_simps)
  next
    case (Some r)
    then have b: "close_begin s = ?s1\<lparr>cancel := None, closing := insert r (closing s)\<rparr>"
      by (simp add: close_begin_def frame_simps)
    have "r = ready s" using Some assms by (auto simp: live_inv_def runs_ok_def)
    then show ?thesis using assms Some a unfolding b
      by (auto simp: live_inv_def runs_ok_def signals_ok_def refs_ok_def process_def unsignalled_def present_def frame_simps)
  qed
qed

lemma close_cancel_inv:
  assumes "live_inv s"
  shows "live_inv (cancel_run r (s\<lparr>closing := closing s - {r}\<rparr>))"
  using assms
  by (auto simp: live_inv_def runs_ok_def signals_ok_def refs_ok_def process_def unsignalled_def present_def cancel_run_def)

text \<open>The run's own steps.\<close>

lemma run_ready_inv:
  assumes "live_inv s" "phases s r = Some Starting"
  shows "live_inv (run_ready r s)"
proof -
  have r: "running s" "r = ready s" using assms by (auto simp: live_inv_def runs_ok_def process_def)
  show ?thesis
    unfolding live_inv_def
  proof (intro conjI)
    show "runs_ok (run_ready r s)"
      using assms r by (auto simp: live_inv_def runs_ok_def run_ready_def set_phase_def process_def)
    show "signals_ok (run_ready r s)"
      using live_invD(2) [OF assms(1)] assms(2) unfolding signals_ok_def run_ready_def set_phase_def unsignalled_def
      by (auto simp: less_Suc_eq)
    show "refs_ok (run_ready r s)"
      using live_invD(3) [OF assms(1)] by (simp add: refs_ok_def run_ready_def set_phase_def present_def)
  qed
qed

lemma announce_inv:
  assumes "live_inv s" "phases s r = Some Announcing"
  shows "live_inv (set_phase r (Some Serving) (close_ready r s))"
proof -
  have r: "running s" "r = ready s" "r \<notin> closed_ready s" "r < next_id s"
    using assms by (auto simp: live_inv_def runs_ok_def process_def signals_ok_def unsignalled_def)
  then have c: "close_ready r s = s\<lparr>closed_ready := insert r (closed_ready s)\<rparr>" by (simp add: close_ready_def)
  show ?thesis
    unfolding live_inv_def c
  proof (intro conjI)
    show "runs_ok (set_phase r (Some Serving) (s\<lparr>closed_ready := insert r (closed_ready s)\<rparr>))"
      using assms r by (auto simp: live_inv_def runs_ok_def set_phase_def process_def)
    show "signals_ok (set_phase r (Some Serving) (s\<lparr>closed_ready := insert r (closed_ready s)\<rparr>))"
      using live_invD(2) [OF assms(1)] r unfolding signals_ok_def set_phase_def unsignalled_def by auto
    show "refs_ok (set_phase r (Some Serving) (s\<lparr>closed_ready := insert r (closed_ready s)\<rparr>))"
      using live_invD(3) [OF assms(1)] by (simp add: refs_ok_def set_phase_def present_def)
  qed
qed

lemma waiting_closed:
  "signals_ok s \<Longrightarrow> \<not> unsignalled s r \<Longrightarrow> viewers s v = Waiting r \<Longrightarrow> r \<in> closed_ready s"
  by (auto simp: signals_ok_def)

lemma run_end_inv:
  assumes "live_inv s" "phases s r = Some p" "p \<in> {Starting, Serving}"
  shows "live_inv (run_end err r s)"
proof -
  have r: "running s" "r = ready s" "r < next_id s" using assms by (auto simp: live_inv_def runs_ok_def process_def signals_ok_def)
  show ?thesis
    unfolding live_inv_def
  proof (intro conjI)
    have "process s r' \<Longrightarrow> r' = r" for r' using assms(1) r by (auto simp: live_inv_def runs_ok_def)
    then show "runs_ok (run_end err r s)"
      by (auto simp: runs_ok_def run_end_def set_phase_def process_def)
    show "signals_ok (run_end err r s)"
    proof (cases "p = Serving")
      case True
      then have "\<not> unsignalled s r" using assms(2) by (simp add: unsignalled_def)
      note w = waiting_closed [OF live_invD(2) [OF assms(1)] this]
      show ?thesis
        using live_invD(2) [OF assms(1)] assms(2) True r unfolding signals_ok_def run_end_def set_phase_def unsignalled_def
        by (auto dest: w [unfolded r(2)])
    next
      case False
      then show ?thesis
        using live_invD(2) [OF assms(1)] assms(2,3) r unfolding signals_ok_def run_end_def set_phase_def unsignalled_def
        by auto
    qed
    show "refs_ok (run_end err r s)"
      using live_invD(3) [OF assms(1)] by (simp add: refs_ok_def run_end_def set_phase_def present_def)
  qed
qed

lemma ended_inv:
  assumes "live_inv s" "phases s r = Some (Ending b)"
  shows "live_inv (set_phase r None (if b then s else close_ready r s))"
proof -
  have r: "\<not> b \<Longrightarrow> r \<notin> closed_ready s" "r < next_id s" "\<not> process s r"
    using assms by (auto simp: live_inv_def signals_ok_def unsignalled_def process_def)
  define s1 where "s1 = (if b then s else s\<lparr>closed_ready := insert r (closed_ready s)\<rparr>)"
  have c: "(if b then s else close_ready r s) = s1" using r(1) by (simp add: s1_def close_ready_def)
  show ?thesis
    unfolding live_inv_def c
  proof (intro conjI)
    show "runs_ok (set_phase r None s1)"
      using live_invD(1) [OF assms(1)] r(3) assms(2) by (auto simp: runs_ok_def set_phase_def process_def s1_def)
    show "signals_ok (set_phase r None s1)"
    proof (cases b)
      case True
      then have "\<not> unsignalled s r" using assms(2) by (simp add: unsignalled_def)
      note w = waiting_closed [OF live_invD(2) [OF assms(1)] this]
      show ?thesis
        using live_invD(2) [OF assms(1)] assms(2) True r unfolding signals_ok_def set_phase_def unsignalled_def s1_def
        by (auto dest: w)
    next
      case False
      then show ?thesis
        using live_invD(2) [OF assms(1)] r assms(2) unfolding signals_ok_def set_phase_def unsignalled_def s1_def by auto
    qed
    show "refs_ok (set_phase r None s1)"
      using live_invD(3) [OF assms(1)] by (simp add: refs_ok_def set_phase_def present_def s1_def)
  qed
qed

lemma live_step_inv: "live_step s s' \<Longrightarrow> live_inv s \<Longrightarrow> live_inv s'"
  by (induction rule: live_step.induct)
    (simp_all add: arrive_inv move_inv depart_inv finish_inv fire_inv idle_inv close_begin_inv close_cancel_inv
      run_ready_inv announce_inv run_end_inv ended_inv)

lemma live_reach_inv: "live_reach s \<Longrightarrow> live_inv s"
  by (induction rule: live_reach.induct) (auto simp: new_live_inv live_step_inv)

text \<open>
  C31: however viewers, timers, \<^verbatim>\<open>Close\<close> and runs interleave: no channel is closed twice; at most
  one FFmpeg process exists; the reference count is the number of viewers; a viewer never waits for
  a channel that nobody will close; and when no viewer is left, a process that still exists has been
  cancelled, is about to be by \<^verbatim>\<open>Close\<close>, or a timer is armed or firing that will cancel it.
\<close>

theorem transcoder_safe:
  assumes "live_reach s"
  shows "\<not> panicked s \<and>
    (\<forall>r r'. process s r \<and> process s r' \<longrightarrow> r = r') \<and>
    finite (present s) \<and> refs s = card (present s) \<and>
    (\<forall>v r. viewers s v = Waiting r \<longrightarrow> r \<in> closed_ready s \<or> unsignalled s r) \<and>
    (present s = {} \<longrightarrow>
      (\<forall>r. process s r \<longrightarrow> r \<in> cancelled s \<union> closing s \<or> armed s \<noteq> {} \<or> 0 < firing s))"
proof -
  have inv: "runs_ok s" "signals_ok s" "refs_ok s"
    using live_invD [OF live_reach_inv [OF assms]] by simp_all
  then show ?thesis
    unfolding runs_ok_def signals_ok_def refs_ok_def by (metis card.empty)
qed

text \<open>A viewer comes, is served and leaves; its timer is armed.\<close>

definition served :: live where
  "served = set_viewer 7 Woken (set_phase 1 (Some Serving) (close_ready 1 (run_ready 1 (acquire_begin 7 new_live))))"

definition left_alone :: live where
  "left_alone = acquire_abort 7 (acquire_finish 7 served)"

lemmas live_run_defs = new_live_def acquire_begin_def start_run_def set_viewer_def set_phase_def run_ready_def
  close_ready_def stop_timer_def acquire_finish_def acquire_abort_def release_def Let_def

lemma served_reach: "live_reach served"
proof -
  have 1: "live_reach (acquire_begin 7 new_live)"
    by (rule live_reach.step [OF live_reach.init live_step.arrive]) (simp add: new_live_def)
  have 2: "live_reach (run_ready 1 (acquire_begin 7 new_live))"
    by (rule live_reach.step [OF 1 live_step.on_ready]) (simp add: live_run_defs)
  have 3: "live_reach (set_phase 1 (Some Serving) (close_ready 1 (run_ready 1 (acquire_begin 7 new_live))))"
    by (rule live_reach.step [OF 2 live_step.announce]) (simp add: live_run_defs)
  show ?thesis
    unfolding served_def by (rule live_reach.step [OF 3 live_step.wake [where r = 1]]) (simp_all add: live_run_defs)
qed

lemma left_alone_reach: "live_reach left_alone"
proof -
  have 1: "live_reach (acquire_finish 7 served)"
    by (rule live_reach.step [OF served_reach live_step.finish]) (simp add: served_def set_viewer_def)
  show ?thesis
    unfolding left_alone_def
    by (rule live_reach.step [OF 1 live_step.leave [where o' = 2]]) (simp add: served_def live_run_defs)
qed

theorem transcoder_safe_witness:
  "present left_alone = {} \<and> process left_alone 1 \<and>
   (1 \<in> cancelled left_alone \<union> closing left_alone \<or> armed left_alone \<noteq> {} \<or> 0 < firing left_alone)"
proof -
  have p: "present left_alone = {}" and q: "process left_alone 1"
    by (auto simp: left_alone_def served_def live_run_defs present_def process_def)
  from p have "\<forall>r. process left_alone r \<longrightarrow>
      r \<in> cancelled left_alone \<union> closing left_alone \<or> armed left_alone \<noteq> {} \<or> 0 < firing left_alone"
    using transcoder_safe [OF left_alone_reach] by (elim conjE) (erule mp)
  from spec [OF this, of 1, THEN mp, OF q] p q show ?thesis by (intro conjI)
qed

text \<open>
  The race the doc comment of \<^verbatim>\<open>Acquire\<close> does not mention: between the cancellation of an idle
  run and the end of that run, \<^verbatim>\<open>out\<close> is still set, so a viewer that comes then is handed the
  stream of the process that is shutting down, and no new process is started for it.
\<close>

definition doomed :: live where
  "doomed = acquire_begin 8 (stop_if_idle (left_alone\<lparr>armed := {}, firing := 0\<rparr>))"

lemma doomed_viewer:
  "live_reach doomed \<and> viewers doomed 8 = Holding 2 \<and> out doomed = Some 2 \<and> ready doomed \<in> cancelled doomed"
proof -
  have f: "left_alone\<lparr>armed := armed left_alone - {3}, firing := Suc (firing left_alone)\<rparr> =
      left_alone\<lparr>armed := {}, firing := 1\<rparr>"
    by (simp add: left_alone_def served_def live_run_defs)
  have 1: "live_reach (left_alone\<lparr>armed := {}, firing := 1\<rparr>)"
    unfolding f [symmetric]
    by (rule live_reach.step [OF left_alone_reach live_step.fire]) (simp add: left_alone_def served_def live_run_defs)
  have 2: "live_reach (stop_if_idle ((left_alone\<lparr>armed := {}, firing := 1\<rparr>)\<lparr>firing := 0\<rparr>))"
    by (rule live_reach.step [OF 1 live_step.idle]) simp
  have "live_reach doomed"
    unfolding doomed_def
    by (rule live_reach.step [OF _ live_step.arrive])
      (use 2 in \<open>simp_all add: stop_if_idle_def left_alone_def served_def live_run_defs cancel_run_def\<close>)
  then show ?thesis
    by (simp add: doomed_def stop_if_idle_def left_alone_def served_def live_run_defs cancel_run_def)
qed

section \<open>Timestamps\<close>

definition rescale :: "int \<Rightarrow> int \<Rightarrow> int \<Rightarrow> int" where
  "rescale v src dst =
     (if src = dst \<or> src = 0 then v
      else wrap64 (wrap64 (go_div v src * dst) + go_div (wrap64 (go_mod v src * dst)) src))"

lemma rescale_split:
  assumes "0 \<le> (u :: int)" "0 < f" "0 < t"
  shows "u * t div f = (u div f) * t + (u mod f) * t div f"
proof -
  have "u * t = (u mod f) * t + f * ((u div f) * t)"
    using mult_div_mod_eq [of f u] by (metis add.commute distrib_right mult.assoc)
  then show ?thesis using assms(2) by simp
qed

lemma go_div_neg: "0 < b \<Longrightarrow> go_div (- a) b = - go_div a b"
  by (simp add: go_div_def)

lemma go_mod_neg: "0 < b \<Longrightarrow> go_mod (- a) b = - go_mod a b"
  by (simp add: go_mod_def go_div_neg)

text \<open>The parts of the sum for a non-negative timestamp are bounded by the result.\<close>

lemma rescale_parts:
  assumes "0 \<le> (u :: int)" "0 < f" "0 < t" "f < 2 ^ 31" "t < 2 ^ 31" "u * t div f < 2 ^ 63"
  shows "0 \<le> (u div f) * t" "(u div f) * t < 2 ^ 63" "0 \<le> (u mod f) * t" "(u mod f) * t < 2 ^ 63"
    "0 \<le> u * t div f"
proof -
  have m: "0 \<le> u mod f" using assms(2) by simp
  have "u mod f < f" using assms(2) by (rule pos_mod_bound)
  then have m2: "u mod f < 2 ^ 31" using assms(4) by (rule less_trans)
  show a: "0 \<le> (u div f) * t" "0 \<le> (u mod f) * t" "0 \<le> u * t div f"
    using assms m by (simp_all add: pos_imp_zdiv_nonneg_iff)
  have "0 \<le> (u mod f) * t div f" using a(2) assms(2) by (simp add: pos_imp_zdiv_nonneg_iff)
  then show "(u div f) * t < 2 ^ 63" using rescale_split [OF assms(1-3)] assms(6) by linarith
  have "(u mod f) * t \<le> 2 ^ 31 * 2 ^ 31" using m m2 assms(3,5) by (intro mult_mono) auto
  then show "(u mod f) * t < 2 ^ 63" by simp
qed

text \<open>
  The conversion between clock rates is exact (truncated towards zero like Go's division)
  and none of its steps overflows, whenever the result itself fits into 63 bits; multiplying first
  would overflow long before.
\<close>

theorem rescale_exact:
  assumes "0 < src" "src < 2 ^ 31" "0 < dst" "dst < 2 ^ 31" "\<bar>v\<bar> * dst div src < 2 ^ 63"
  shows "rescale v src dst = go_div (v * dst) src"
proof (cases "src = dst")
  case True
  then show ?thesis using assms(1) by (auto simp: rescale_def go_div_def abs_mult sgn_mult sgn_mult_abs)
next
  case False
  let ?u = "\<bar>v\<bar>"
  note p = rescale_parts [OF abs_ge_zero assms(1,3,2,4,5)]
  have s: "?u * dst div src = (?u div src) * dst + (?u mod src) * dst div src"
    by (rule rescale_split) (use assms in auto)
  have q: "0 \<le> (?u mod src) * dst div src" using p(3) assms(1) by (simp add: pos_imp_zdiv_nonneg_iff)
  show ?thesis
  proof (cases "0 \<le> v")
    case True
    then have a: "\<bar>v\<bar> = v" by simp
    note p' = p [unfolded a] and s' = s [unfolded a] and fits = assms(5) [unfolded a]
    have w1: "wrap64 (go_div v src * dst) = v div src * dst"
      using True assms(1) p'(1,2) by (subst wrap64_id) auto
    have w2: "wrap64 (go_mod v src * dst) = v mod src * dst"
      using True assms(1) p'(3,4) by (subst wrap64_id) auto
    have "rescale v src dst = wrap64 (v div src * dst + v mod src * dst div src)"
      using False assms(1) p'(3) by (simp add: rescale_def w1 w2)
    also have "\<dots> = v * dst div src"
      unfolding s' [symmetric] using p'(5) fits by (subst wrap64_id) auto
    finally show ?thesis using True assms(1,3) by simp
  next
    case neg: False
    then have v: "v = - ?u" by simp
    have d: "go_div v src = - (?u div src)" "go_mod v src = - (?u mod src)" "go_div (v * dst) src = - (?u * dst div src)"
      using assms(1,3) by (subst v, simp add: go_div_neg go_mod_neg)+
    have w1: "wrap64 (go_div v src * dst) = - (?u div src * dst)"
      unfolding d using p(1,2) by (subst wrap64_id) auto
    have w2: "wrap64 (go_mod v src * dst) = - (?u mod src * dst)"
      unfolding d using p(3,4) by (subst wrap64_id) auto
    have "go_div (- (?u mod src * dst)) src = - (?u mod src * dst div src)"
      using p(3) assms(1) by (simp add: go_div_neg)
    then have "rescale v src dst = wrap64 (- (?u div src * dst) + - (?u mod src * dst div src))"
      using False assms(1) by (simp add: rescale_def w1 w2)
    also have "\<dots> = - (?u * dst div src)"
      unfolding s using p(5) assms(5) unfolding s by (subst wrap64_id) auto
    finally show ?thesis unfolding d .
  qed
qed

theorem rescale_exact_witness: "rescale (- 9000000000000000001) 90000 48000 = - 4800000000000000000"
  using rescale_exact [of 90000 48000 "- 9000000000000000001"] by (simp add: go_div_def)

section \<open>The output of the process\<close>

text \<open>
  The callbacks of \<^verbatim>\<open>demux\<close>: access units of the video track and audio frames arrive in any order.
  \<open>key\<close> is \<^verbatim>\<open>h264.IsRandomAccess\<close>.
\<close>

datatype live_event = VideoAU int "byte list list" | AudioAUs int "byte list list"

datatype live_out = Announce "track list" | Emit media_unit

record demux_state =
  d_out :: bool
  d_sps :: "byte list option"
  d_pps :: "byte list option"

fun extract_param_sets ::
  "byte list list \<Rightarrow> byte list option \<times> byte list option \<Rightarrow> byte list option \<times> byte list option" where
  "extract_param_sets [] acc = acc"
| "extract_param_sets (n # ns) (s, p) =
     extract_param_sets ns
       (if n = [] then (s, p)
        else if hd n AND 0x1f = 7 then (Some n, p)
        else if hd n AND 0x1f = 8 then (s, Some n)
        else (s, p))"

definition live_tracks :: "(byte list \<times> int) option \<Rightarrow> byte list \<Rightarrow> byte list \<Rightarrow> track list" where
  "live_tracks audio s p =
     \<lparr>track_id = 1, kind = MediaVideo, track_codec = CodecH264, clock_rate = 90000, sps = s, pps = p,
      vps = [], audio_config = None\<rparr> #
     (case audio of
        None \<Rightarrow> []
      | Some (cfg, hz) \<Rightarrow> [\<lparr>track_id = 2, kind = MediaAudio, track_codec = CodecAAC, clock_rate = hz,
                              sps = [], pps = [], vps = [], audio_config = Some cfg\<rparr>])"

definition ensure_ready ::
  "(byte list \<times> int) option \<Rightarrow> byte list list \<Rightarrow> demux_state \<Rightarrow> (bool \<times> live_out list) \<times> demux_state" where
  "ensure_ready audio au d =
     (if d_out d then ((True, []), d)
      else (case extract_param_sets au (d_sps d, d_pps d) of
              (Some s, Some p) \<Rightarrow>
                ((True, [Announce (live_tracks audio s p)]), d\<lparr>d_out := True, d_sps := Some s, d_pps := Some p\<rparr>)
            | (s, p) \<Rightarrow> ((False, []), d\<lparr>d_sps := s, d_pps := p\<rparr>)))"

fun on_event ::
  "(byte list list \<Rightarrow> bool) \<Rightarrow> int \<Rightarrow> (byte list \<times> int) option \<Rightarrow> live_event \<Rightarrow> demux_state \<Rightarrow> live_out list \<times> demux_state" where
  "on_event key now audio (VideoAU p au) d =
     (case ensure_ready audio au d of
        ((False, os), d1) \<Rightarrow> (os, d1)
      | ((True, os), d1) \<Rightarrow>
          (os @ [Emit \<lparr>unit_track = 1, pts = p, ntp = now, random_access = key au, aus = au\<rparr>], d1))"
| "on_event key now audio (AudioAUs p fs) d =
     (case audio of
        None \<Rightarrow> ([], d)
      | Some (cfg, hz) \<Rightarrow>
          if \<not> d_out d then ([], d)
          else ([Emit \<lparr>unit_track = 2, pts = rescale p 90000 hz, ntp = now, random_access = True, aus = fs\<rparr>], d))"

fun demux_events ::
  "(byte list list \<Rightarrow> bool) \<Rightarrow> (byte list \<times> int) option \<Rightarrow> (int \<times> live_event) list \<Rightarrow> demux_state \<Rightarrow> live_out list" where
  "demux_events key audio [] d = []"
| "demux_events key audio ((now, e) # es) d =
     (let (os, d1) = on_event key now audio e d in os @ demux_events key audio es d1)"

definition new_demux :: demux_state where
  "new_demux = \<lparr>d_out = False, d_sps = None, d_pps = None\<rparr>"

lemma demux_started:
  "d_out d \<Longrightarrow> \<exists>us. demux_events key audio es d = map Emit us"
proof (induction es arbitrary: d)
  case Nil
  then show ?case by simp
next
  case (Cons x es)
  obtain now e where x: "x = (now, e)" by fastforce
  obtain os d1 where e: "on_event key now audio e d = (os, d1)" by fastforce
  have "d_out d1 \<and> (os = [] \<or> (\<exists>u. os = [Emit u]))"
    using Cons.prems e by (cases e) (auto simp: ensure_ready_def split: option.splits)
  then have "d_out d1 \<and> (\<exists>us. os = map Emit us)" by (metis list.simps(8,9))
  moreover then obtain us where "demux_events key audio es d1 = map Emit us" using Cons.IH by blast
  ultimately show ?case by (auto simp: x e map_append [symmetric] simp del: map_append)
qed

text \<open>Nothing is published before the tracks are announced, and they are announced once.\<close>

lemma demux_announces_once:
  "\<not> d_out d \<Longrightarrow> demux_events key audio es d = [] \<or>
     (\<exists>s p us. demux_events key audio es d = Announce (live_tracks audio s p) # map Emit us)"
proof (induction es arbitrary: d)
  case Nil
  then show ?case by simp
next
  case (Cons x es)
  obtain now e where x: "x = (now, e)" by fastforce
  obtain os d1 where e: "on_event key now audio e d = (os, d1)" by fastforce
  show ?case
  proof (cases "d_out d1")
    case False
    then have "os = []" using Cons.prems e
      by (cases e) (auto simp: ensure_ready_def split: option.splits prod.splits if_splits)
    then show ?thesis using Cons.IH [OF False] by (simp add: x e)
  next
    case True
    then obtain s p u where "os = [Announce (live_tracks audio s p), Emit u]"
      using Cons.prems e by (cases e) (auto simp: ensure_ready_def split: option.splits prod.splits if_splits)
    moreover obtain us where "demux_events key audio es d1 = map Emit us"
      using demux_started [OF True] by blast
    ultimately have "demux_events key audio (x # es) d = Announce (live_tracks audio s p) # map Emit (u # us)"
      by (simp add: x e)
    then show ?thesis by blast
  qed
qed

section \<open>The input of the process\<close>

text \<open>
  The tracks \<^verbatim>\<open>buildInputTracks\<close> accepts, and the packet a unit becomes; a decode time that cannot
  be extracted yet drops the unit.
\<close>

datatype mts_codec = MtsH264 | MtsH265 | MtsAAC "byte list"

definition mts_codec_of :: "track \<Rightarrow> mts_codec option" where
  "mts_codec_of t =
     (case track_codec t of
        CodecH264 \<Rightarrow> Some MtsH264
      | CodecH265 \<Rightarrow> Some MtsH265
      | CodecAAC \<Rightarrow> map_option MtsAAC (audio_config t))"

definition build_input_tracks :: "track list \<Rightarrow> (int \<rightharpoonup> track) \<times> mts_codec list" where
  "build_input_tracks ts =
     (map_of (rev (map (\<lambda>t. (track_id t, t)) (filter (\<lambda>t. mts_codec_of t \<noteq> None) ts))),
      List.map_filter mts_codec_of ts)"

datatype mts_packet = PacketH264 int int "byte list list" | PacketH265 int int "byte list list"
  | PacketAAC int "byte list list"

definition input_packet ::
  "(byte list list \<Rightarrow> int \<Rightarrow> int option) \<Rightarrow> track option \<Rightarrow> media_unit \<Rightarrow> mts_packet option" where
  "input_packet extractor it u =
     (case it of
        None \<Rightarrow> None
      | Some t \<Rightarrow>
          (let p = rescale (pts u) (clock_rate t) 90000
           in case track_codec t of
                CodecH264 \<Rightarrow> map_option (\<lambda>d. PacketH264 p (rescale d (clock_rate t) 90000) (aus u)) (extractor (aus u) (pts u))
              | CodecH265 \<Rightarrow> map_option (\<lambda>d. PacketH265 p (rescale d (clock_rate t) 90000) (aus u)) (extractor (aus u) (pts u))
              | CodecAAC \<Rightarrow> Some (PacketAAC p (aus u))))"

definition live_args :: "encoder \<Rightarrow> int \<Rightarrow> int \<Rightarrow> bool \<Rightarrow> string list" where
  "live_args e bitrate0 gop0 has_audio =
     (let bitrate = (if bitrate0 \<le> 0 then 2500 else bitrate0);
          gop = (if gop0 \<le> 0 then 50 else gop0)
      in [''-hide_banner'', ''-loglevel'', ''warning'', ''-nostdin'', ''-fflags'', ''+genpts''] @
         input_args e False @ [''-f'', ''mpegts'', ''-i'', ''pipe:0''] @ video_args e bitrate gop @
         (if has_audio then [''-c:a'', ''copy''] else [''-an'']) @ [''-f'', ''mpegts'', ''pipe:1''])"

end
