(* ===== verification/Rec_Hls.thy ===== *)
theory Rec_Hls
  imports Hwaccel
begin

text \<open>
  HLS playback of recordings (\<^verbatim>\<open>internal/rechls/rechls.go\<close>): the table of transcode sessions with
  its least-recently-used eviction, the starter of a session, the poller that waits for its first
  segment, and the teardown by eviction, collection and \<^verbatim>\<open>Close\<close>.  Each critical section or
  system call is one operation of \<open>hls_do\<close>; a run of the manager is a list of operations in the
  order in which the goroutines performed them.  The table is a list: its order is the order in
  which the Go map is walked.
\<close>

section \<open>The state\<close>

datatype stage = Making | Launching | Starting | Polling | Finished

record hsession =
  h_sid :: string
  h_stage :: stage
  has_cancel :: bool
  stopped :: bool
  ready_closed :: bool
  failed :: bool
  last_access :: int
  process_up :: bool

record hls =
  table :: "(string \<times> nat) list"
  objs :: "nat \<rightharpoonup> hsession"
  next_obj :: nat
  stopping :: "nat list"
  dirs :: "string \<rightharpoonup> nat"
  hls_panic :: bool

definition max_sessions :: nat where "max_sessions = 8"

definition default_idle :: int where "default_idle = 60000000000"

definition new_hls :: hls where
  "new_hls = \<lparr>table = [], objs = Map.empty, next_obj = 0, stopping = [], dirs = Map.empty, hls_panic = False\<rparr>"

definition session_id :: "string \<Rightarrow> int \<Rightarrow> string" where
  "session_id recording from = recording @ ''_'' @ itoa from"

definition upd_obj :: "nat \<Rightarrow> (hsession \<Rightarrow> hsession) \<Rightarrow> hls \<Rightarrow> hls" where
  "upd_obj k f m = m\<lparr>objs := (objs m)(k := map_option f (objs m k))\<rparr>"

text \<open>\<^verbatim>\<open>close(s.ready)\<close>: a second close panics.\<close>

definition close_ready :: "nat \<Rightarrow> hls \<Rightarrow> hls" where
  "close_ready k m =
     (case objs m k of
        Some s \<Rightarrow> if ready_closed s then m\<lparr>hls_panic := True\<rparr> else upd_obj k (\<lambda>s. s\<lparr>ready_closed := True\<rparr>) m
      | None \<Rightarrow> m)"

definition last_of :: "hls \<Rightarrow> nat \<Rightarrow> int" where
  "last_of m k = (case objs m k of Some s \<Rightarrow> last_access s | None \<Rightarrow> 0)"

section \<open>The operations\<close>

text \<open>\<^verbatim>\<open>evictLocked\<close>: the first entry with the smallest access time.\<close>

fun oldest_entry :: "hls \<Rightarrow> (string \<times> nat) list \<Rightarrow> (string \<times> nat) option \<Rightarrow> (string \<times> nat) option" where
  "oldest_entry m [] best = best"
| "oldest_entry m (e # es) best =
     oldest_entry m es
       (case best of None \<Rightarrow> Some e
        | Some b \<Rightarrow> if last_of m (snd e) < last_of m (snd b) then Some e else Some b)"

definition evict :: "hls \<Rightarrow> hls" where
  "evict m =
     (if length (table m) < max_sessions then m
      else case oldest_entry m (table m) None of
             None \<Rightarrow> m
           | Some (sid, k) \<Rightarrow>
               m\<lparr>table := filter (\<lambda>e. fst e \<noteq> sid) (table m), stopping := stopping m @ [k]\<rparr>)"

text \<open>\<^verbatim>\<open>Ensure\<close> up to the unlock: the caller then waits for the session's ready channel.\<close>

definition ensure :: "string \<Rightarrow> int \<Rightarrow> hls \<Rightarrow> hls" where
  "ensure sid now m =
     (case map_of (table m) sid of
        Some k \<Rightarrow> upd_obj k (\<lambda>s. s\<lparr>last_access := now\<rparr>) m
      | None \<Rightarrow>
          (let m1 = evict m; k = next_obj m1
           in m1\<lparr>table := table m1 @ [(sid, k)], next_obj := Suc k,
                 objs := (objs m1)(k \<mapsto> \<lparr>h_sid = sid, h_stage = Making, has_cancel = False, stopped = False,
                   ready_closed = False, failed = False, last_access = now, process_up = False\<rparr>)\<rparr>))"

text \<open>\<^verbatim>\<open>session.stop\<close>: cancelling kills the process; the directory goes in any case.\<close>

definition stop_obj :: "nat \<Rightarrow> hls \<Rightarrow> hls" where
  "stop_obj k m =
     (case objs m k of
        None \<Rightarrow> m
      | Some s \<Rightarrow> (upd_obj k (\<lambda>s. if has_cancel s then s\<lparr>stopped := True, process_up := False\<rparr> else s) m)
                   \<lparr>dirs := (dirs m)(h_sid s := None)\<rparr>)"

text \<open>\<^verbatim>\<open>drop\<close>: whatever session is registered under the id is removed and stopped.\<close>

definition drop_sid :: "string \<Rightarrow> hls \<Rightarrow> hls" where
  "drop_sid sid m =
     (case map_of (table m) sid of
        None \<Rightarrow> m
      | Some k \<Rightarrow> stop_obj k (m\<lparr>table := filter (\<lambda>e. fst e \<noteq> sid) (table m)\<rparr>))"

definition set_stage :: "stage \<Rightarrow> hsession \<Rightarrow> hsession" where
  "set_stage p s = s\<lparr>h_stage := p\<rparr>"

datatype hls_op =
    EnsureOp string int
  | TouchOp string int
  | MkdirOp nat bool
  | CancelOp nat
  | StartOp nat bool
  | PollOp nat bool
  | ExitOp nat
  | StopOp nat
  | CollectOp int int
  | CloseAllOp
  | RemoveRootOp

definition fail_start :: "nat \<Rightarrow> hsession \<Rightarrow> hls \<Rightarrow> hls" where
  "fail_start k s m =
     drop_sid (h_sid s)
       (upd_obj k (\<lambda>s. s\<lparr>stopped := has_cancel s\<rparr>)
          (close_ready k (upd_obj k (\<lambda>s. set_stage Finished (s\<lparr>failed := True\<rparr>)) m)))"

fun hls_do :: "hls_op \<Rightarrow> hls \<Rightarrow> hls option" where
  "hls_do (EnsureOp sid now) m = Some (ensure sid now m)"
| "hls_do (TouchOp sid now) m =
     Some (case map_of (table m) sid of Some k \<Rightarrow> upd_obj k (\<lambda>s. s\<lparr>last_access := now\<rparr>) m | None \<Rightarrow> m)"
| "hls_do (MkdirOp k ok) m =
     (case objs m k of
        Some s \<Rightarrow> if h_stage s \<noteq> Making then None
                   else if ok then Some ((upd_obj k (set_stage Launching) m)\<lparr>dirs := (dirs m)(h_sid s \<mapsto> k)\<rparr>)
                   else Some (fail_start k s m)
      | None \<Rightarrow> None)"
| "hls_do (CancelOp k) m =
     (case objs m k of
        Some s \<Rightarrow> if h_stage s \<noteq> Launching then None
                   else Some (upd_obj k (\<lambda>s. set_stage Starting (s\<lparr>has_cancel := True\<rparr>)) m)
      | None \<Rightarrow> None)"
| "hls_do (StartOp k ok) m =
     (case objs m k of
        Some s \<Rightarrow> if h_stage s \<noteq> Starting then None
                   else if ok \<and> \<not> stopped s then Some (upd_obj k (\<lambda>s. set_stage Polling (s\<lparr>process_up := True\<rparr>)) m)
                   else Some (fail_start k s m)
      | None \<Rightarrow> None)"
| "hls_do (PollOp k ok) m =
     (case objs m k of
        Some s \<Rightarrow> if h_stage s \<noteq> Polling then None
                   else Some (close_ready k (upd_obj k (\<lambda>s. set_stage Finished (s\<lparr>failed := \<not> ok\<rparr>)) m))
      | None \<Rightarrow> None)"
| "hls_do (ExitOp k) m = Some (upd_obj k (\<lambda>s. s\<lparr>process_up := False\<rparr>) m)"
| "hls_do (StopOp k) m =
     (if k \<in> set (stopping m) then Some (stop_obj k (m\<lparr>stopping := remove1 k (stopping m)\<rparr>)) else None)"
| "hls_do (CollectOp now idle0) m =
     (let idle = (if idle0 \<le> 0 then default_idle else idle0);
          stale = (\<lambda>e. now - last_of m (snd e) > idle)
      in Some (m\<lparr>table := filter (\<lambda>e. \<not> stale e) (table m),
                 stopping := stopping m @ map snd (filter stale (table m))\<rparr>))"
| "hls_do CloseAllOp m = Some (m\<lparr>table := [], stopping := stopping m @ map snd (table m)\<rparr>)"
| "hls_do RemoveRootOp m = Some (m\<lparr>dirs := Map.empty\<rparr>)"

fun hls_run :: "hls_op list \<Rightarrow> hls \<Rightarrow> hls option" where
  "hls_run [] m = Some m"
| "hls_run (x # xs) m = (case hls_do x m of None \<Rightarrow> None | Some m1 \<Rightarrow> hls_run xs m1)"

definition contains_segment :: "string \<Rightarrow> bool" where
  "contains_segment playlist \<longleftrightarrow> list_ex (\<lambda>i. take 8 (drop i playlist) = ''#EXTINF:'') [0..<length playlist - 7]"

definition hls_args :: "encoder option \<Rightarrow> string \<Rightarrow> int \<Rightarrow> string \<Rightarrow> string list" where
  "hls_args enc path from dir =
     (let e = (case enc of None \<Rightarrow> software | Some e \<Rightarrow> e)
      in [''-hide_banner'', ''-loglevel'', ''error'', ''-nostdin''] @ input_args e False @
         (if from > 0 then [''-ss'', itoa from] else []) @ [''-i'', path] @ video_args e 2500 96 @
         [''-force_key_frames'', ''expr:gte(t,n_forced*4)'', ''-c:a'', ''aac'', ''-ac'', ''2'', ''-b:a'', ''128k'',
          ''-f'', ''hls'', ''-hls_time'', ''4'', ''-hls_list_size'', ''0'',
          ''-hls_flags'', ''independent_segments+temp_file'', ''-hls_playlist_type'', ''event'',
          ''-hls_segment_type'', ''mpegts'', ''-hls_segment_filename'', dir @ ''/seg%05d.ts'', dir @ ''/index.m3u8''])"

section \<open>The invariant\<close>

definition table_ok :: "hls \<Rightarrow> bool" where
  "table_ok m \<longleftrightarrow> length (table m) \<le> max_sessions \<and> distinct (map fst (table m)) \<and>
     (\<forall>(sid, k) \<in> set (table m). map_option h_sid (objs m k) = Some sid)"

definition obj_ok :: "hsession \<Rightarrow> bool" where
  "obj_ok s \<longleftrightarrow> (ready_closed s \<longleftrightarrow> h_stage s = Finished) \<and> (stopped s \<or> process_up s \<longrightarrow> has_cancel s) \<and>
     (process_up s \<longrightarrow> \<not> stopped s \<and> h_stage s \<in> {Polling, Finished}) \<and>
     (h_stage s \<in> {Starting, Polling} \<longrightarrow> has_cancel s)"

definition hls_inv :: "hls \<Rightarrow> bool" where
  "hls_inv m \<longleftrightarrow> table_ok m \<and> (\<forall>k s. objs m k = Some s \<longrightarrow> obj_ok s \<and> k < next_obj m) \<and> \<not> hls_panic m"

lemma upd_obj_frame [frame_simps]:
  "table (upd_obj k f m) = table m" "next_obj (upd_obj k f m) = next_obj m" "stopping (upd_obj k f m) = stopping m"
  "dirs (upd_obj k f m) = dirs m" "hls_panic (upd_obj k f m) = hls_panic m"
  by (simp_all add: upd_obj_def)

lemma objs_upd [simp]: "objs (upd_obj k f m) k' = (if k' = k then map_option f (objs m k) else objs m k')"
  by (simp add: upd_obj_def)

lemma sids_upd:
  assumes "\<And>s. h_sid (f s) = h_sid s"
  shows "map_option h_sid (objs (upd_obj k f m) k') = map_option h_sid (objs m k')"
  using assms by (cases "objs m k'") auto

lemma table_ok_cong:
  assumes "table_ok m" "\<And>k. map_option h_sid (objs m' k) = map_option h_sid (objs m k)" "table m' = table m"
  shows "table_ok m'"
  using assms by (simp add: table_ok_def)

lemma table_ok_filter:
  assumes "table_ok m" "\<And>k. map_option h_sid (objs m' k) = map_option h_sid (objs m k)" "table m' = filter P (table m)"
  shows "table_ok m'"
proof -
  have "length (table m') \<le> max_sessions"
    unfolding assms(3) using assms(1) le_trans [OF length_filter_le] by (auto simp only: table_ok_def)
  then show ?thesis using assms by (auto simp: table_ok_def distinct_map_filter)
qed

lemma upd_inv:
  assumes "hls_inv m" "\<And>s. h_sid (f s) = h_sid s" "\<And>s. objs m k = Some s \<Longrightarrow> obj_ok (f s)"
  shows "hls_inv (upd_obj k f m)"
  unfolding hls_inv_def
proof (intro conjI)
  show "table_ok (upd_obj k f m)"
    by (rule table_ok_cong [of m]) (use assms(1) sids_upd [of f, OF assms(2)] in \<open>simp_all add: hls_inv_def frame_simps\<close>)
  show "\<forall>k' s. objs (upd_obj k f m) k' = Some s \<longrightarrow> obj_ok s \<and> k' < next_obj (upd_obj k f m)"
    using assms(1,3) by (auto simp: hls_inv_def frame_simps)
  show "\<not> hls_panic (upd_obj k f m)" using assms(1) by (simp add: hls_inv_def frame_simps)
qed

lemma filter_inv: "hls_inv m \<Longrightarrow> hls_inv (m\<lparr>table := filter P (table m)\<rparr>)"
  using table_ok_filter [of m "m\<lparr>table := filter P (table m)\<rparr>" P] by (simp add: hls_inv_def)

lemma other_inv: "hls_inv m \<Longrightarrow> hls_inv (m\<lparr>stopping := q\<rparr>)" "hls_inv m \<Longrightarrow> hls_inv (m\<lparr>dirs := d\<rparr>)"
  by (simp_all add: hls_inv_def table_ok_def)

lemma oldest_spec:
  "oldest_entry m es best =
     (case best of None \<Rightarrow> (case es of [] \<Rightarrow> None | e # es' \<Rightarrow> oldest_entry m es' (Some e))
      | Some b \<Rightarrow> oldest_entry m es (Some b))"
  by (cases best; cases es) auto

lemma oldest_min:
  "\<exists>e \<in> insert b (set es). oldest_entry m es (Some b) = Some e \<and>
     (\<forall>e' \<in> insert b (set es). last_of m (snd e) \<le> last_of m (snd e'))"
proof (induction es arbitrary: b)
  case Nil
  then show ?case by simp
next
  case (Cons x es)
  show ?case
  proof (cases "last_of m (snd x) < last_of m (snd b)")
    case True
    then show ?thesis using Cons.IH [of x] by force
  next
    case False
    then show ?thesis using Cons.IH [of b] by force
  qed
qed

lemma evict_spec:
  "length (table m) < max_sessions \<and> evict m = m \<or>
   (\<exists>sid k. (sid, k) \<in> set (table m) \<and> (\<forall>e \<in> set (table m). last_of m k \<le> last_of m (snd e)) \<and>
      evict m = m\<lparr>table := filter (\<lambda>e. fst e \<noteq> sid) (table m), stopping := stopping m @ [k]\<rparr>)"
proof (cases "length (table m) < max_sessions")
  case False
  then obtain e es where es: "table m = e # es" by (cases "table m") (auto simp: max_sessions_def)
  obtain x where "x \<in> insert e (set es)" "oldest_entry m es (Some e) = Some x"
    "\<forall>e' \<in> insert e (set es). last_of m (snd x) \<le> last_of m (snd e')"
    using oldest_min [of e es m] by blast
  then show ?thesis using False es by (cases x) (auto simp: evict_def)
qed (simp add: evict_def)

lemma evict_room:
  assumes "table_ok m"
  shows "length (table (evict m)) < max_sessions"
  using evict_spec [of m]
proof (elim disjE exE conjE)
  fix sid k
  assume e: "(sid, k) \<in> set (table m)" "evict m = m\<lparr>table := filter (\<lambda>e. fst e \<noteq> sid) (table m), stopping := stopping m @ [k]\<rparr>"
  have "length (filter (\<lambda>e. fst e \<noteq> sid) (table m)) < length (table m)"
    by (rule length_filter_less [OF e(1)]) simp
  then show ?thesis using assms e(2) by (simp add: table_ok_def)
qed simp

lemma ensure_inv:
  assumes "hls_inv m"
  shows "hls_inv (ensure sid now m)"
proof (cases "map_of (table m) sid")
  case (Some k)
  then show ?thesis using assms
    by (auto simp: ensure_def intro!: upd_inv) (auto simp: hls_inv_def obj_ok_def)
next
  case None
  let ?m1 = "evict m"
  have m1: "hls_inv ?m1"
    using evict_spec [of m] assms filter_inv other_inv(1) by auto
  have len: "length (table ?m1) < max_sessions"
    using assms by (intro evict_room) (simp add: hls_inv_def)
  have keys: "sid \<notin> fst ` set (table ?m1)"
    using None evict_spec [of m] by (auto simp: map_of_eq_None_iff)
  have fresh: "\<forall>k s. objs ?m1 k = Some s \<longrightarrow> k \<noteq> next_obj ?m1" using m1 by (auto simp: hls_inv_def)
  have "ensure sid now m = ?m1\<lparr>table := table ?m1 @ [(sid, next_obj ?m1)], next_obj := Suc (next_obj ?m1),
                 objs := (objs ?m1)(next_obj ?m1 \<mapsto> \<lparr>h_sid = sid, h_stage = Making, has_cancel = False, stopped = False,
                   ready_closed = False, failed = False, last_access = now, process_up = False\<rparr>)\<rparr>"
    by (simp add: ensure_def None Let_def)
  moreover have "table_ok \<dots>"
    using m1 len keys fresh by (fastforce simp: hls_inv_def table_ok_def)
  ultimately show ?thesis
    using m1 by (auto simp: hls_inv_def obj_ok_def less_Suc_eq)
qed

lemma stop_inv: "hls_inv m \<Longrightarrow> hls_inv (stop_obj k m)"
  by (auto simp: stop_obj_def intro!: other_inv upd_inv split: option.split) (auto simp: hls_inv_def obj_ok_def)

lemma drop_inv: "hls_inv m \<Longrightarrow> hls_inv (drop_sid sid m)"
  by (auto simp: drop_sid_def intro!: stop_inv filter_inv split: option.split)

lemma close_ready_eq:
  assumes "hls_inv m" "objs m k = Some s" "h_stage s \<noteq> Finished" "ready_closed (f s) = ready_closed s"
  shows "close_ready k (upd_obj k f m) = upd_obj k (\<lambda>s. (f s)\<lparr>ready_closed := True\<rparr>) m"
proof -
  have "\<not> ready_closed s" using assms(1-3) by (auto simp: hls_inv_def obj_ok_def)
  then show ?thesis using assms(2,4) by (simp add: close_ready_def) (simp add: upd_obj_def)
qed

lemma upd_upd: "upd_obj k g (upd_obj k f m) = upd_obj k (\<lambda>s. g (f s)) m"
  by (simp add: upd_obj_def option.map_comp comp_def)

lemma fail_start_inv:
  assumes "hls_inv m" "objs m k = Some s" "h_stage s \<noteq> Finished" "\<not> process_up s"
  shows "hls_inv (fail_start k s m)"
proof -
  have o: "obj_ok s" using assms(1,2) by (simp add: hls_inv_def)
  have "hls_inv (upd_obj k (\<lambda>s. (set_stage Finished (s\<lparr>failed := True\<rparr>))
      \<lparr>ready_closed := True, stopped := has_cancel s\<rparr>) m)"
    by (rule upd_inv [OF assms(1)]) (use o assms(2,4) in \<open>auto simp: set_stage_def obj_ok_def\<close>)
  moreover have "fail_start k s m = drop_sid (h_sid s) (upd_obj k (\<lambda>s. (set_stage Finished (s\<lparr>failed := True\<rparr>))
      \<lparr>ready_closed := True, stopped := has_cancel s\<rparr>) m)"
    unfolding fail_start_def
    by (subst close_ready_eq [OF assms(1-3)]) (simp_all add: set_stage_def upd_upd)
  ultimately show ?thesis by (simp add: drop_inv)
qed

lemma obj_okD: "hls_inv m \<Longrightarrow> objs m k = Some s \<Longrightarrow> obj_ok s"
  by (simp add: hls_inv_def)

lemma hls_do_inv:
  assumes "hls_do x m = Some m'" "hls_inv m"
  shows "hls_inv m'"
proof (cases x)
  case (EnsureOp sid now)
  then show ?thesis using assms ensure_inv by auto
next
  case (TouchOp sid now)
  then show ?thesis using assms
    by (auto intro!: upd_inv dest: obj_okD split: option.splits) (auto dest: obj_okD simp: obj_ok_def)
next
  case (MkdirOp k ok)
  then obtain s where s: "objs m k = Some s" "h_stage s = Making"
    using assms(1) by (auto split: option.splits if_splits)
  then have o: "obj_ok s" using assms(2) by (simp add: obj_okD)
  then have up: "\<not> process_up s" using s by (auto simp: obj_ok_def)
  have "hls_inv (upd_obj k (set_stage Launching) m)"
    using assms(2) s o up by (intro upd_inv) (auto simp: set_stage_def obj_ok_def)
  then show ?thesis using assms MkdirOp s up fail_start_inv [OF assms(2) s(1)] other_inv(2)
    by (auto split: if_splits)
next
  case (CancelOp k)
  then obtain s where s: "objs m k = Some s" "h_stage s = Launching"
    "m' = upd_obj k (\<lambda>s. set_stage Starting (s\<lparr>has_cancel := True\<rparr>)) m"
    using assms(1) by (auto split: option.splits if_splits)
  moreover have "obj_ok s" using assms(2) s(1) by (simp add: obj_okD)
  ultimately show ?thesis using assms(2) by (auto intro!: upd_inv simp: set_stage_def obj_ok_def)
next
  case (StartOp k ok)
  then obtain s where s: "objs m k = Some s" "h_stage s = Starting"
    using assms(1) by (auto split: option.splits if_splits)
  then have o: "obj_ok s" using assms(2) by (simp add: obj_okD)
  then have up: "\<not> process_up s" using s by (auto simp: obj_ok_def)
  show ?thesis
  proof (cases "ok \<and> \<not> stopped s")
    case True
    then have "hls_inv (upd_obj k (\<lambda>s. set_stage Polling (s\<lparr>process_up := True\<rparr>)) m)"
      using assms(2) s o by (intro upd_inv) (auto simp: set_stage_def obj_ok_def)
    then show ?thesis using True assms(1) StartOp s by auto
  next
    case False
    then show ?thesis using assms StartOp s up fail_start_inv [OF assms(2) s(1)] by (auto split: if_splits)
  qed
next
  case (PollOp k ok)
  then obtain s where s: "objs m k = Some s" "h_stage s = Polling" and
    m': "m' = close_ready k (upd_obj k (\<lambda>s. set_stage Finished (s\<lparr>failed := \<not> ok\<rparr>)) m)"
    using assms(1) by (auto split: option.splits if_splits)
  have o: "obj_ok s" using assms(2) s(1) by (simp add: obj_okD)
  have "m' = upd_obj k (\<lambda>s. (set_stage Finished (s\<lparr>failed := \<not> ok\<rparr>))\<lparr>ready_closed := True\<rparr>) m"
    unfolding m' by (rule close_ready_eq [OF assms(2) s(1)]) (use s(2) in \<open>simp_all add: set_stage_def\<close>)
  then show ?thesis
    using assms(2) o s by (simp only:) (rule upd_inv, auto simp: set_stage_def obj_ok_def)
next
  case (ExitOp k)
  then show ?thesis using assms by (auto intro!: upd_inv dest: obj_okD simp: obj_ok_def)
next
  case (StopOp k)
  then show ?thesis using assms by (auto intro!: stop_inv other_inv split: if_splits)
next
  case (CollectOp now idle)
  then show ?thesis using assms other_inv(1) [OF filter_inv [OF assms(2)]] by (auto simp: Let_def)
next
  case CloseAllOp
  then show ?thesis using assms by (auto simp: hls_inv_def table_ok_def)
next
  case RemoveRootOp
  then show ?thesis using assms other_inv(2) by auto
qed

lemma hls_run_inv: "hls_run ops m = Some m' \<Longrightarrow> hls_inv m \<Longrightarrow> hls_inv m'"
  by (induction ops arbitrary: m) (auto split: option.splits dest: hls_do_inv)

lemma new_hls_inv: "hls_inv new_hls"
  by (simp add: hls_inv_def table_ok_def new_hls_def)

lemma hls_run_append: "hls_run (xs @ ys) m = (case hls_run xs m of None \<Rightarrow> None | Some m1 \<Rightarrow> hls_run ys m1)"
  by (induction xs arbitrary: m) (auto split: option.splits)

definition stage_op :: "nat \<Rightarrow> hsession \<Rightarrow> hls_op" where
  "stage_op k s = (case h_stage s of Making \<Rightarrow> MkdirOp k True | Launching \<Rightarrow> CancelOp k
     | Starting \<Rightarrow> StartOp k False | Polling \<Rightarrow> PollOp k False | Finished \<Rightarrow> ExitOp k)"

text \<open>
  C33: however requests, starters, pollers, eviction, collection and \<^verbatim>\<open>Close\<close> interleave: the table
  holds at most eight sessions, one per id; no ready channel is closed twice; the callers waiting
  for a session are released exactly when its starter or poller is through, and until then that
  goroutine can always take its next step; and admitting a session evicts nothing, or, at capacity,
  an entry that no other was accessed before.
\<close>

theorem hls_sessions_safe:
  assumes "hls_run ops new_hls = Some m"
  shows "length (table m) \<le> 8 \<and> distinct (map fst (table m)) \<and> \<not> hls_panic m \<and>
    (\<forall>k s. objs m k = Some s \<longrightarrow> (ready_closed s \<longleftrightarrow> h_stage s = Finished) \<and> hls_do (stage_op k s) m \<noteq> None) \<and>
    (\<forall>e \<in> set (table m) - set (table (ensure sid now m)).
       length (table m) = 8 \<and> (\<forall>e' \<in> set (table m). last_of m (snd e) \<le> last_of m (snd e')))"
proof -
  have inv: "hls_inv m" using hls_run_inv [OF assms new_hls_inv] .
  then have t: "length (table m) \<le> 8" "distinct (map fst (table m))" "\<not> hls_panic m"
    by (simp_all add: hls_inv_def table_ok_def max_sessions_def)
  have "hls_do (stage_op k s) m \<noteq> None" if "objs m k = Some s" for k s
    using that by (cases "h_stage s") (simp_all add: stage_op_def)
  moreover have "ready_closed s \<longleftrightarrow> h_stage s = Finished" if "objs m k = Some s" for k s
    using obj_okD [OF inv that] by (simp add: obj_ok_def)
  moreover have "length (table m) = 8 \<and> (\<forall>e' \<in> set (table m). last_of m (snd e) \<le> last_of m (snd e'))"
    if e: "e \<in> set (table m) - set (table (ensure sid now m))" for e
  proof (cases "map_of (table m) sid")
    case (Some k)
    then show ?thesis using e by (simp add: ensure_def frame_simps)
  next
    case None
    then have "e \<in> set (table m) - set (table (evict m))" using e by (auto simp: ensure_def Let_def)
    then show ?thesis
      using evict_spec [of m]
    proof (elim disjE exE conjE)
      fix sid' k
      assume v: "(sid', k) \<in> set (table m)" "\<forall>e \<in> set (table m). last_of m k \<le> last_of m (snd e)"
        "evict m = m\<lparr>table := filter (\<lambda>e. fst e \<noteq> sid') (table m), stopping := stopping m @ [k]\<rparr>"
      assume ev: "e \<in> set (table m) - set (table (evict m))"
      then have "fst e = sid'" "e \<in> set (table m)" using v(3) by auto
      then have "e = (sid', k)" using t(2) v(1) by (cases e) (auto dest: eq_key_imp_eq_value)
      moreover have "\<not> length (table m) < max_sessions"
      proof
        assume "length (table m) < max_sessions"
        then have "evict m = m" by (simp add: evict_def)
        then show False using ev by simp
      qed
      ultimately show ?thesis using v(2) t(1) by (simp add: max_sessions_def)
    qed simp
  qed
  ultimately show ?thesis using t by blast
qed

text \<open>Nine recordings are opened one after the other.\<close>

definition nine_opened :: "hls_op list" where
  "nine_opened = map (\<lambda>i. EnsureOp (''r'' @ itoa i) (i * 10)) [0, 1, 2, 3, 4, 5, 6, 7]"

definition nine_state :: hls where
  "nine_state = the (hls_run nine_opened new_hls)"

theorem hls_sessions_safe_witness:
  "length (table nine_state) \<le> 8 \<and>
   list_all (\<lambda>e. length (table nine_state) = 8 \<and> list_all (\<lambda>e'. last_of nine_state (snd e) \<le> last_of nine_state (snd e')) (table nine_state))
     (filter (\<lambda>e. e \<notin> set (table (ensure ''r8'' 80 nine_state))) (table nine_state))"
proof -
  have "hls_run nine_opened new_hls \<noteq> None"
    by (simp add: nine_opened_def)
  then have "hls_run nine_opened new_hls = Some nine_state" by (auto simp: nine_state_def)
  from hls_sessions_safe [OF this, of "''r8''" 80] show ?thesis by (simp add: list_all_iff)
qed

section \<open>Two races\<close>

text \<open>
  A session that is taken out of the table before its starter has set the cancel function is
  stopped in vain: the starter goes on, and from then on nothing can reach the process.
\<close>

definition orphan :: "hls \<Rightarrow> nat \<Rightarrow> bool" where
  "orphan m k \<longleftrightarrow> k \<notin> snd ` set (table m) \<and> k \<notin> set (stopping m) \<and>
     (\<exists>s. objs m k = Some s \<and> \<not> stopped s \<and> h_stage s \<in> {Polling, Finished})"

definition early_stop :: "hls_op list" where
  "early_stop = [EnsureOp ''a'' 1, CloseAllOp, StopOp 0, RemoveRootOp, MkdirOp 0 True, CancelOp 0, StartOp 0 True]"

lemma early_stop_orphans:
  "\<exists>m. hls_run early_stop new_hls = Some m \<and> orphan m 0 \<and> map_option process_up (objs m 0) = Some True"
  by (simp add: early_stop_def new_hls_def ensure_def evict_def max_sessions_def stop_obj_def upd_obj_def Let_def
      set_stage_def orphan_def)

text \<open>
  The directory belongs to the id, not to the session: the late \<^verbatim>\<open>stop\<close> of an evicted session
  removes the directory of the session that has replaced it.
\<close>

definition late_stop :: "hls_op list" where
  "late_stop = [EnsureOp ''a'' 1, MkdirOp 0 True, CancelOp 0, StartOp 0 True, PollOp 0 True,
     CollectOp 100000000000 0, EnsureOp ''a'' 100000000001, MkdirOp 1 True, CancelOp 1, StartOp 1 True, StopOp 0]"

lemma late_stop_removes_directory:
  "\<exists>m. hls_run late_stop new_hls = Some m \<and> table m = [(''a'', 1)] \<and>
     map_option process_up (objs m 1) = Some True \<and> dirs m ''a'' = None"
  by (simp add: late_stop_def new_hls_def ensure_def evict_def max_sessions_def stop_obj_def upd_obj_def Let_def
      set_stage_def close_ready_def last_of_def default_idle_def)

text \<open>A session whose transcode did not start stays in the table, and asking again keeps it there.\<close>

lemma failed_stays:
  assumes "map_of (table m) sid = Some k" "objs m k = Some s" "failed s"
  shows "table (ensure sid now m) = table m \<and> map_option failed (objs (ensure sid now m) k) = Some True \<and>
         last_of (ensure sid now m) k = now"
  using assms by (simp add: ensure_def frame_simps last_of_def)

end
