(* ===== verification/Motion_Detect.thy ===== *)
theory Motion_Detect
  imports Complex_Main Prelude
begin

text \<open>
  Motion detection (\<^verbatim>\<open>internal/motion\<close>): the frame difference, the sensitivity scale, the analyzer
  with its hysteresis, and the detector's loop with the closing event.  Ratios are rational
  numbers: the rounding of \<^verbatim>\<open>float64\<close> is not modelled.  FFmpeg, which produces the grey frames, is
  outside; the two clock readings per frame are inputs.
\<close>

section \<open>Frames\<close>

definition pixel_changed :: "int \<Rightarrow> byte \<times> byte \<Rightarrow> bool" where
  "pixel_changed delta p = (\<bar>uint (fst p) - uint (snd p)\<bar> > delta)"

definition change_ratio :: "byte list \<Rightarrow> byte list \<Rightarrow> int \<Rightarrow> rat" where
  "change_ratio prev cur delta =
     (let n = min (length prev) (length cur)
      in if n = 0 then 0
         else of_nat (length (filter (pixel_changed delta) (zip prev cur))) / of_nat n)"

definition pixel_delta :: int where "pixel_delta = 18"

lemma change_ratio_range: "0 \<le> change_ratio prev cur d \<and> change_ratio prev cur d \<le> 1"
proof -
  have "length (filter (pixel_changed d) (zip prev cur)) \<le> min (length prev) (length cur)"
    using length_filter_le [of "pixel_changed d" "zip prev cur"] by simp
  then show ?thesis by (auto simp: change_ratio_def Let_def divide_le_eq simp flip: of_nat_le_iff)
qed

lemma change_ratio_still: "0 \<le> d \<Longrightarrow> change_ratio f f d = 0"
proof -
  assume d: "0 \<le> d"
  have "filter (pixel_changed d) (zip f f) = []"
    using d by (auto simp: filter_empty_conv pixel_changed_def zip_same_conv_map)
  then show ?thesis by (simp add: change_ratio_def)
qed

section \<open>The analyzer\<close>

record analyzer =
  start_ratio :: rat
  end_ratio :: rat
  cooldown :: int
  active :: bool
  last_above :: int
  peak :: rat

definition sensitivity_to_ratios :: "int \<Rightarrow> rat \<times> rat" where
  "sensitivity_to_ratios s0 =
     (let s = (if s0 < 0 then 0 else s0); s = (if s > 100 then 100 else s);
          lo = 4 / 1000; hi = 5 / 100;
          start = lo + (1 - of_int s / 100) * (hi - lo)
      in (start, start * (4 / 10)))"

definition new_analyzer :: "int \<Rightarrow> int \<Rightarrow> analyzer" where
  "new_analyzer sensitivity cd =
     (let (s, e) = sensitivity_to_ratios sensitivity
      in \<lparr>start_ratio = s, end_ratio = e, cooldown = cd, active = False, last_above = 0, peak = 0\<rparr>)"

text \<open>\<^verbatim>\<open>update\<close> answers (started, ended, score).\<close>

definition update :: "rat \<Rightarrow> int \<Rightarrow> analyzer \<Rightarrow> (bool \<times> bool \<times> rat) \<times> analyzer" where
  "update ratio now a0 =
     (let a = (if ratio \<ge> end_ratio a0 then a0\<lparr>last_above := now\<rparr> else a0)
      in if \<not> active a then
           (if ratio \<ge> start_ratio a
            then ((True, False, 0), a\<lparr>active := True, peak := ratio, last_above := now\<rparr>)
            else ((False, False, 0), a))
         else
           (let a1 = (if ratio > peak a then a\<lparr>peak := ratio\<rparr> else a)
            in if now - last_above a1 \<ge> cooldown a1
               then ((False, True, peak a1), a1\<lparr>active := False, peak := 0\<rparr>)
               else ((False, False, 0), a1)))"

definition finish :: "analyzer \<Rightarrow> (bool \<times> rat) \<times> analyzer" where
  "finish a = (if active a then ((True, peak a), a\<lparr>active := False, peak := 0\<rparr>) else ((False, 0), a))"

section \<open>The detector\<close>

datatype motion_event = Started int | Ended int rat

text \<open>A measured frame: its ratio, the time given to \<^verbatim>\<open>update\<close> and the time given to the callback.\<close>

type_synonym measure = "rat \<times> int \<times> int"

fun analyze_from :: "measure list \<Rightarrow> analyzer \<Rightarrow> motion_event list \<times> analyzer" where
  "analyze_from [] a = ([], a)"
| "analyze_from ((ratio, now, cb) # ms) a =
     (let ((s, e, score), a1) = update ratio now a;
          (evs, a2) = analyze_from ms a1
      in ((if s then [Started cb] else []) @ (if e then [Ended cb score] else []) @ evs, a2))"

text \<open>\<^verbatim>\<open>analyze\<close>: the first frame has nothing to be compared with.\<close>

fun measures :: "byte list \<Rightarrow> (byte list \<times> int \<times> int) list \<Rightarrow> measure list" where
  "measures prev [] = []"
| "measures prev ((cur, now, cb) # fs) = (change_ratio prev cur pixel_delta, now, cb) # measures cur fs"

definition detector_run :: "int \<Rightarrow> int \<Rightarrow> (byte list \<times> int \<times> int) list \<Rightarrow> int \<Rightarrow> motion_event list" where
  "detector_run sensitivity cd0 frames t_end =
     (let cd = (if cd0 \<le> 0 then 4000000000 else cd0);
          ms = (case frames of [] \<Rightarrow> [] | (f, _) # fs \<Rightarrow> measures f fs);
          (evs, a) = analyze_from ms (new_analyzer sensitivity cd);
          ((e, score), _) = finish a
      in evs @ (if e then [Ended t_end score] else []))"

section \<open>The reference: intervals of motion\<close>

text \<open>
  An interval opens at the first measure that reaches the start ratio.  It closes at the first later
  measure whose time is at least the cool-down after the last measure of the interval that reaches
  the end ratio, and its score is the greatest ratio in it; an interval that never closes is closed
  by the end of the stream.
\<close>

definition loud_time :: "rat \<Rightarrow> measure list \<Rightarrow> int" where
  "loud_time e ms = fst (snd (last (filter (\<lambda>m. fst m \<ge> e) ms)))"

definition quiet_at :: "rat \<Rightarrow> int \<Rightarrow> measure list \<Rightarrow> nat \<Rightarrow> bool" where
  "quiet_at e cd ms j \<longleftrightarrow> fst (snd (ms ! j)) - loud_time e (take (Suc j) ms) \<ge> cd"

definition peak_of :: "measure list \<Rightarrow> rat" where
  "peak_of ms = Max (set (map fst ms))"

function intervals :: "rat \<Rightarrow> rat \<Rightarrow> int \<Rightarrow> int \<Rightarrow> measure list \<Rightarrow> motion_event list" where
  "intervals s e cd t_end ms =
     (case dropWhile (\<lambda>m. fst m < s) ms of
        [] \<Rightarrow> []
      | m # rest \<Rightarrow>
          (case List.find (quiet_at e cd (m # rest)) [1..<length (m # rest)] of
             None \<Rightarrow> [Started (snd (snd m)), Ended t_end (peak_of (m # rest))]
           | Some j \<Rightarrow>
               Started (snd (snd m)) # Ended (snd (snd ((m # rest) ! j))) (peak_of (take (Suc j) (m # rest))) #
               intervals s e cd t_end (drop (Suc j) (m # rest))))"
  by auto
termination
proof (relation "measure (\<lambda>(s, e, cd, t_end, ms). length ms)")
  fix s e :: rat and cd t_end :: int and ms :: "measure list" and m :: measure and rest j
  assume "dropWhile (\<lambda>m. fst m < s) ms = m # rest"
  then have "length (m # rest) \<le> length ms" by (metis length_dropWhile_le)
  then show "((s, e, cd, t_end, drop (Suc j) (m # rest)), (s, e, cd, t_end, ms)) \<in>
      measure (\<lambda>(s, e, cd, t_end, ms). length ms)"
    by simp
qed simp

declare intervals.simps [simp del]

section \<open>The analyzer finds these intervals\<close>

definition thresholds :: "rat \<Rightarrow> rat \<Rightarrow> int \<Rightarrow> analyzer \<Rightarrow> bool" where
  "thresholds s e cd a \<longleftrightarrow> start_ratio a = s \<and> end_ratio a = e \<and> cooldown a = cd"

definition run_out :: "int \<Rightarrow> measure list \<Rightarrow> analyzer \<Rightarrow> motion_event list" where
  "run_out t_end ms a =
     fst (analyze_from ms a) @
     (let ((e, score), _) = finish (snd (analyze_from ms a)) in if e then [Ended t_end score] else [])"

lemma run_out_Nil: "run_out t_end [] a = (if active a then [Ended t_end (peak a)] else [])"
  by (simp add: run_out_def finish_def)

lemma run_out_Cons:
  "run_out t_end ((r, n, c) # ms) a =
     (let ((s, e, score), a1) = update r n a
      in (if s then [Started c] else []) @ (if e then [Ended c score] else []) @ run_out t_end ms a1)"
  by (simp add: run_out_def Let_def case_prod_unfold)

text \<open>The state inside an interval of which \<open>hist\<close> has been seen.\<close>

definition inside :: "rat \<Rightarrow> measure list \<Rightarrow> analyzer \<Rightarrow> bool" where
  "inside e hist a \<longleftrightarrow> active a \<and> filter (\<lambda>m. fst m \<ge> e) hist \<noteq> [] \<and> last_above a = loud_time e hist \<and>
     peak a = peak_of hist"

lemma peak_snoc: "hist \<noteq> [] \<Longrightarrow> peak_of (hist @ [m]) = max (peak_of hist) (fst m)"
  by (simp add: peak_of_def max.commute)

lemma update_inside:
  assumes "thresholds s e cd a" "inside e hist a"
  shows "\<exists>a1. thresholds s e cd a1 \<and>
    (if n - loud_time e (hist @ [(r, n, c)]) \<ge> cd
     then update r n a = ((False, True, peak_of (hist @ [(r, n, c)])), a1) \<and> \<not> active a1
     else update r n a = ((False, False, 0), a1) \<and> inside e (hist @ [(r, n, c)]) a1)"
proof -
  have ne: "hist \<noteq> []" using assms(2) by (auto simp: inside_def)
  define a' where "a' = (if r \<ge> e then a\<lparr>last_above := n\<rparr> else a)"
  define a1 where "a1 = (if r > peak a' then a'\<lparr>peak := r\<rparr> else a')"
  have l: "last_above a' = loud_time e (hist @ [(r, n, c)])"
    using assms(2) by (simp add: a'_def inside_def loud_time_def)
  have p: "peak a1 = peak_of (hist @ [(r, n, c)])"
    using assms(2) ne by (auto simp: a1_def a'_def inside_def peak_snoc)
  have f: "active a'" "active a1" "last_above a1 = last_above a'" "thresholds s e cd a1" "cooldown a1 = cd" "end_ratio a = e"
    using assms by (auto simp: a1_def a'_def inside_def thresholds_def)
  have u: "update r n a = (if n - last_above a1 \<ge> cd then ((False, True, peak a1), a1\<lparr>active := False, peak := 0\<rparr>)
      else ((False, False, 0), a1))"
    using f by (simp add: update_def Let_def a'_def [symmetric] a1_def [symmetric])
  show ?thesis
  proof (cases "n - loud_time e (hist @ [(r, n, c)]) \<ge> cd")
    case True
    then show ?thesis using u f l p by (intro exI [of _ "a1\<lparr>active := False, peak := 0\<rparr>"]) (simp add: thresholds_def)
  next
    case False
    moreover have "inside e (hist @ [(r, n, c)]) a1"
      using f l p assms(2) by (simp add: inside_def)
    ultimately show ?thesis using u f l by (intro exI [of _ a1]) simp
  qed
qed

lemma inside_run:
  assumes idle: "\<And>ms a. length ms < length gs \<Longrightarrow> thresholds s e cd a \<Longrightarrow> \<not> active a \<Longrightarrow>
      run_out t_end ms a = intervals s e cd t_end ms"
    and "thresholds s e cd a" "inside e hist a"
  shows "run_out t_end gs a =
     (case List.find (quiet_at e cd (hist @ gs)) [length hist..<length (hist @ gs)] of
        None \<Rightarrow> [Ended t_end (peak_of (hist @ gs))]
      | Some j \<Rightarrow> Ended (snd (snd ((hist @ gs) ! j))) (peak_of (take (Suc j) (hist @ gs))) #
                   intervals s e cd t_end (drop (Suc j) (hist @ gs)))"
  using assms
proof (induction gs arbitrary: hist a)
  case Nil
  then show ?case by (simp add: run_out_Nil inside_def)
next
  case (Cons g gs)
  obtain r n c where g: "g = (r, n, c)" by (cases g)
  have sh: "hist @ g # gs = (hist @ [g]) @ gs" by simp
  have up: "[length hist..<length (hist @ g # gs)] = length hist # [length (hist @ [g])..<length (hist @ g # gs)]"
    by (simp add: upt_rec)
  have q: "quiet_at e cd (hist @ g # gs) (length hist) \<longleftrightarrow> n - loud_time e (hist @ [g]) \<ge> cd"
    by (simp add: quiet_at_def g)
  obtain a1 where a1: "thresholds s e cd a1"
    "if n - loud_time e (hist @ [g]) \<ge> cd then update r n a = ((False, True, peak_of (hist @ [g])), a1) \<and> \<not> active a1
     else update r n a = ((False, False, 0), a1) \<and> inside e (hist @ [g]) a1"
    using update_inside [OF Cons.prems(2,3), where n = n and r = r and c = c] unfolding g by blast
  show ?case
  proof (cases "n - loud_time e (hist @ [g]) \<ge> cd")
    case True
    then have "run_out t_end (g # gs) a = Ended c (peak_of (hist @ [g])) # run_out t_end gs a1"
      using a1 unfolding g run_out_Cons by simp
    moreover have "run_out t_end gs a1 = intervals s e cd t_end gs"
      using Cons.prems(1) a1 True by simp
    ultimately show ?thesis using True q unfolding up List.find.simps by (simp add: g)
  next
    case False
    then have "run_out t_end (g # gs) a = run_out t_end gs a1"
      using a1 unfolding g run_out_Cons by simp
    moreover have "inside e (hist @ [g]) a1" using a1(2) False by simp
    note ih = Cons.IH [OF _ a1(1) this]
    have skip: "List.find (quiet_at e cd (hist @ g # gs)) [length hist..<length (hist @ g # gs)] =
        List.find (quiet_at e cd (hist @ g # gs)) [length (hist @ [g])..<length (hist @ g # gs)]"
      unfolding up using q False by simp
    ultimately show ?thesis
      unfolding skip using ih Cons.prems(1) unfolding append_assoc append_Cons append_Nil by simp
  qed
qed

lemma idle_run:
  assumes "e \<le> s" "thresholds s e cd a" "\<not> active a"
  shows "run_out t_end ms a = intervals s e cd t_end ms"
  using assms(2,3)
proof (induction "length ms" arbitrary: ms a rule: less_induct)
  case less
  show ?case
  proof (cases ms)
    case Nil
    then show ?thesis using less.prems by (simp add: run_out_Nil intervals.simps)
  next
    case (Cons m rest)
    obtain r n c where m: "m = (r, n, c)" by (cases m)
    show ?thesis
    proof (cases "r < s")
      case True
      define a1 where "a1 = (if r \<ge> e then a\<lparr>last_above := n\<rparr> else a)"
      have "update r n a = ((False, False, 0), a1)"
        using less.prems True by (auto simp: update_def thresholds_def a1_def)
      then have "run_out t_end ms a = run_out t_end rest a1" by (simp add: Cons m run_out_Cons)
      also have "\<dots> = intervals s e cd t_end rest"
        using less.prems by (intro less.hyps) (auto simp: Cons a1_def thresholds_def)
      also have "\<dots> = intervals s e cd t_end ms"
        using True by (simp add: intervals.simps [of s e cd t_end "(r, n, c) # rest"] intervals.simps [of s e cd t_end rest] Cons m)
      finally show ?thesis .
    next
      case False
      define a1 where "a1 = a\<lparr>active := True, peak := r, last_above := n\<rparr>"
      have u: "update r n a = ((True, False, 0), a1)"
        using less.prems False by (auto simp: update_def thresholds_def a1_def)
      have "inside e [m] a1" using False assms(1) by (simp add: inside_def m a1_def loud_time_def peak_of_def)
      moreover have "thresholds s e cd a1" using less.prems(1) by (simp add: thresholds_def a1_def)
      ultimately have "run_out t_end rest a1 =
        (case List.find (quiet_at e cd ([m] @ rest)) [length [m]..<length ([m] @ rest)] of
            None \<Rightarrow> [Ended t_end (peak_of ([m] @ rest))]
          | Some j \<Rightarrow> Ended (snd (snd (([m] @ rest) ! j))) (peak_of (take (Suc j) ([m] @ rest))) #
                       intervals s e cd t_end (drop (Suc j) ([m] @ rest)))"
        by (intro inside_run less.hyps) (auto simp: Cons)
      moreover have "run_out t_end ms a = Started c # run_out t_end rest a1"
        using u by (simp add: Cons m run_out_Cons)
      moreover have "dropWhile (\<lambda>m. fst m < s) ms = m # rest" using False by (simp add: Cons m)
      ultimately show ?thesis
        unfolding intervals.simps [of s e cd t_end ms] by (simp add: m split: option.split)
    qed
  qed
qed

lemma detector_intervals:
  "detector_run sensitivity cd0 frames t_end =
     intervals (fst (sensitivity_to_ratios sensitivity)) (snd (sensitivity_to_ratios sensitivity))
       (if cd0 \<le> 0 then 4000000000 else cd0) t_end
       (case frames of [] \<Rightarrow> [] | (f, _) # fs \<Rightarrow> measures f fs)"
proof -
  let ?cd = "if cd0 \<le> 0 then 4000000000 else cd0"
  let ?ms = "case frames of [] \<Rightarrow> [] | (f, _) # fs \<Rightarrow> measures f fs"
  have "snd (sensitivity_to_ratios sensitivity) \<le> fst (sensitivity_to_ratios sensitivity)"
    by (simp add: sensitivity_to_ratios_def Let_def field_simps)
  moreover have "thresholds (fst (sensitivity_to_ratios sensitivity)) (snd (sensitivity_to_ratios sensitivity)) ?cd
      (new_analyzer sensitivity ?cd)" "\<not> active (new_analyzer sensitivity ?cd)"
    by (simp_all add: thresholds_def new_analyzer_def case_prod_unfold Let_def)
  moreover have "detector_run sensitivity cd0 frames t_end = run_out t_end ?ms (new_analyzer sensitivity ?cd)"
    unfolding detector_run_def run_out_def Let_def case_prod_unfold by simp
  ultimately show ?thesis by (simp add: idle_run)
qed

text \<open>Whatever the measures, starts and ends alternate.\<close>

fun alternating :: "bool \<Rightarrow> motion_event list \<Rightarrow> bool" where
  "alternating b [] = (\<not> b)"
| "alternating b (Started t # es) = (\<not> b \<and> alternating True es)"
| "alternating b (Ended t sc # es) = (b \<and> alternating False es)"

lemma alternating_run: "alternating (active a) (run_out t_end ms a)"
proof (induction ms arbitrary: a)
  case Nil
  then show ?case by (simp add: run_out_Nil)
next
  case (Cons m ms)
  obtain r n c where m: "m = (r, n, c)" by (cases m)
  show ?case
    using Cons.IH [of "snd (update r n a)"]
    by (auto simp: m run_out_Cons update_def Let_def)
qed

lemma alternating_detector: "alternating False (detector_run sensitivity cd frames t_end)"
proof -
  define a where "a = new_analyzer sensitivity (if cd \<le> 0 then 4000000000 else cd)"
  have "detector_run sensitivity cd frames t_end =
      run_out t_end (case frames of [] \<Rightarrow> [] | (f, _) # fs \<Rightarrow> measures f fs) a"
    by (simp add: detector_run_def run_out_def Let_def case_prod_unfold a_def)
  moreover have "active a = False"
    by (simp add: new_analyzer_def case_prod_unfold Let_def a_def)
  ultimately show ?thesis using alternating_run [of a] by simp
qed

text \<open>
  C34: the detector reports exactly the intervals of motion of the reference, for every sensitivity
  and cool-down and every sequence of frames and clock readings (also a clock that steps back);
  an interval that is open when the stream stops is closed.
\<close>

theorem detector_reports_intervals:
  "detector_run sensitivity cd0 frames t_end =
     intervals (fst (sensitivity_to_ratios sensitivity)) (snd (sensitivity_to_ratios sensitivity))
       (if cd0 \<le> 0 then 4000000000 else cd0) t_end
       (case frames of [] \<Rightarrow> [] | (f, _) # fs \<Rightarrow> measures f fs)"
  by (rule detector_intervals)

end
