(* ===== verification/Api_Users.thy ===== *)
theory Api_Users
  imports GoStrings
begin

text \<open>
  Accounts and sessions (\<^verbatim>\<open>internal/api/auth.go\<close>, \<^verbatim>\<open>internal/api/users.go\<close>,
  \<^verbatim>\<open>internal/database/user_store.go\<close>): the user table with its unique keys, the bearer tokens, the
  middlewares, and the handlers on every branch.  Every database call may fail; password hashing,
  randomness and the clock are inputs of a request.  First each handler is one step; the section on
  races interleaves their database calls.
\<close>

section \<open>The user table\<close>

record user =
  u_id :: string
  username :: string
  pw_hash :: string
  role :: string
  created :: int
  updated :: int

datatype db_err = NotFound | Duplicate | DbError

definition valid_role :: "string \<Rightarrow> bool" where
  "valid_role r \<longleftrightarrow> r \<in> {''admin'', ''operator'', ''viewer''}"

definition count_users :: "bool \<Rightarrow> user list \<Rightarrow> db_err + nat" where
  "count_users ok us = (if ok then Inr (length us) else Inl DbError)"

text \<open>The order of \<open>list_users\<close> is that of the \<^verbatim>\<open>NOCASE\<close> collation of the column.\<close>

definition name_lt :: "user \<Rightarrow> user \<Rightarrow> bool" where
  "name_lt u v \<longleftrightarrow> (to_lower (username u), to_lower (username v)) \<in> lexord {(c, d). (of_char c :: nat) < of_char d}"

definition list_users :: "bool \<Rightarrow> user list \<Rightarrow> db_err + user list" where
  "list_users ok us = (if ok then Inr (stable_sort name_lt us) else Inl DbError)"

definition get_user :: "bool \<Rightarrow> string \<Rightarrow> user list \<Rightarrow> db_err + user" where
  "get_user ok i us =
     (if \<not> ok then Inl DbError
      else case List.find (\<lambda>u. u_id u = i) us of None \<Rightarrow> Inl NotFound | Some u \<Rightarrow> Inr u)"

definition get_by_username :: "bool \<Rightarrow> string \<Rightarrow> user list \<Rightarrow> db_err + user" where
  "get_by_username ok n us =
     (if \<not> ok then Inl DbError
      else case List.find (\<lambda>u. to_lower (username u) = to_lower n) us of None \<Rightarrow> Inl NotFound | Some u \<Rightarrow> Inr u)"

definition create_user :: "bool \<Rightarrow> int \<Rightarrow> user \<Rightarrow> user list \<Rightarrow> db_err option \<times> user list" where
  "create_user ok now u us =
     (if \<not> ok then (Some DbError, us)
      else if \<exists>v \<in> set us. u_id v = u_id u \<or> to_lower (username v) = to_lower (username u) then (Some Duplicate, us)
      else (None, us @ [u\<lparr>created := now, updated := now\<rparr>]))"

definition set_user :: "string \<Rightarrow> string \<Rightarrow> string \<Rightarrow> int \<Rightarrow> user \<Rightarrow> user" where
  "set_user n r h now u = u\<lparr>username := n, role := r, pw_hash := (if h = [] then pw_hash u else h), updated := now\<rparr>"

definition update_user ::
  "bool \<Rightarrow> int \<Rightarrow> string \<Rightarrow> string \<Rightarrow> string \<Rightarrow> string \<Rightarrow> user list \<Rightarrow> db_err option \<times> user list" where
  "update_user ok now i n r h us =
     (if \<not> ok then (Some DbError, us)
      else if \<not> (\<exists>v \<in> set us. u_id v = i) then (Some NotFound, us)
      else if \<exists>v \<in> set us. u_id v \<noteq> i \<and> to_lower (username v) = to_lower n then (Some Duplicate, us)
      else (None, map (\<lambda>u. if u_id u = i then set_user n r h now u else u) us))"

definition delete_user :: "bool \<Rightarrow> string \<Rightarrow> user list \<Rightarrow> db_err option \<times> user list" where
  "delete_user ok i us =
     (if \<not> ok then (Some DbError, us)
      else if \<not> (\<exists>v \<in> set us. u_id v = i) then (Some NotFound, us)
      else (None, filter (\<lambda>u. u_id u \<noteq> i) us))"

section \<open>Tokens\<close>

record session =
  s_user :: string
  s_name :: string
  s_role :: string
  s_exp :: int

record api =
  users :: "user list"
  tokens :: "string \<rightharpoonup> session"

definition token_ttl :: int where "token_ttl = 43200000000000"

definition issue :: "string \<Rightarrow> int \<Rightarrow> user \<Rightarrow> api \<Rightarrow> api" where
  "issue tok now u a =
     a\<lparr>tokens := (\<lambda>t. case ((tokens a)(tok \<mapsto> \<lparr>s_user = u_id u, s_name = username u, s_role = role u,
                                                 s_exp = now + token_ttl\<rparr>)) t of
                         None \<Rightarrow> None | Some s \<Rightarrow> if now > s_exp s then None else Some s)\<rparr>"

definition valid :: "string \<Rightarrow> int \<Rightarrow> api \<Rightarrow> session option \<times> api" where
  "valid tok now a =
     (if tok = [] then (None, a)
      else case tokens a tok of
             None \<Rightarrow> (None, a)
           | Some s \<Rightarrow> if now > s_exp s then (None, a\<lparr>tokens := (tokens a)(tok := None)\<rparr>) else (Some s, a))"

definition revoke :: "string \<Rightarrow> api \<Rightarrow> api" where
  "revoke tok a = a\<lparr>tokens := (tokens a)(tok := None)\<rparr>"

definition revoke_user :: "string \<Rightarrow> api \<Rightarrow> api" where
  "revoke_user i a =
     a\<lparr>tokens := (\<lambda>t. case tokens a t of None \<Rightarrow> None | Some s \<Rightarrow> if s_user s = i then None else Some s)\<rparr>"

definition role_rank :: "string \<Rightarrow> nat" where
  "role_rank r = (if r = ''admin'' then 2 else if r = ''operator'' then 1 else 0)"

definition bearer :: "string \<Rightarrow> string" where
  "bearer h = (if has_prefix h ''Bearer '' then trim_prefix h ''Bearer '' else [])"

section \<open>Requests\<close>

record user_input =
  in_name :: string
  in_pass :: string
  in_role :: string

datatype route =
    Login "(string \<times> string) option"
  | Logout
  | Me
  | ListUsers
  | CreateUser "user_input option"
  | UpdateUser string "user_input option"
  | DeleteUser string
  | Media string
  | AtLeast string

text \<open>
  \<open>Media q\<close> stands for the media end points with their \<^verbatim>\<open>token\<close> query parameter, \<open>AtLeast r\<close> for
  the other authenticated end points behind \<^verbatim>\<open>requireRole(r)\<close>; their handlers do not touch accounts.
  \<open>db_ok k\<close> tells whether the \<open>k\<close>-th database call of the request succeeds.
\<close>

record request =
  route :: route
  auth_header :: string
  now :: int
  db_ok :: "nat \<Rightarrow> bool"
  new_token :: string
  new_id :: string
  hash :: "string \<Rightarrow> string option"
  check :: "string \<Rightarrow> string \<Rightarrow> bool"

type_synonym status = nat

definition not_found_or_500 :: "db_err \<Rightarrow> status" where
  "not_found_or_500 e = (if e = NotFound then 404 else 500)"

definition handle_login :: "request \<Rightarrow> (string \<times> string) option \<Rightarrow> api \<Rightarrow> status \<times> api" where
  "handle_login q body a =
     (case body of
        None \<Rightarrow> (400, a)
      | Some (n, p) \<Rightarrow>
          (case get_by_username (db_ok q 0) (trim_space n) (users a) of
             Inl e \<Rightarrow> (401, a)
           | Inr u \<Rightarrow> if \<not> check q (pw_hash u) p then (401, a) else (200, issue (new_token q) (now q) u a)))"

definition handle_list_users :: "request \<Rightarrow> api \<Rightarrow> status \<times> api" where
  "handle_list_users q a = (case list_users (db_ok q 0) (users a) of Inl e \<Rightarrow> (500, a) | Inr us \<Rightarrow> (200, a))"

definition handle_create_user :: "request \<Rightarrow> user_input option \<Rightarrow> api \<Rightarrow> status \<times> api" where
  "handle_create_user q body a =
     (case body of
        None \<Rightarrow> (400, a)
      | Some i \<Rightarrow>
          (let n = trim_space (in_name i)
           in if n = [] then (400, a)
              else if length (in_pass i) < 4 then (400, a)
              else if \<not> valid_role (in_role i) then (400, a)
              else (case hash q (in_pass i) of
                      None \<Rightarrow> (500, a)
                    | Some h \<Rightarrow>
                        (case create_user (db_ok q 0) (now q)
                                \<lparr>u_id = new_id q, username = n, pw_hash = h, role = in_role i, created = 0, updated = 0\<rparr>
                                (users a) of
                           (None, us) \<Rightarrow> (201, a\<lparr>users := us\<rparr>)
                         | (Some e, us) \<Rightarrow> (if e = Duplicate then 409 else 500, a)))))"

definition is_last_admin :: "bool \<Rightarrow> string \<Rightarrow> user list \<Rightarrow> db_err + bool" where
  "is_last_admin ok i us =
     (case list_users ok us of
        Inl e \<Rightarrow> Inl e
      | Inr vs \<Rightarrow> Inr (length (filter (\<lambda>u. role u = ''admin'' \<and> u_id u \<noteq> i) vs) = 0))"

text \<open>The guards read \<^verbatim>\<open>last, _ := isLastAdmin(id)\<close>: a failed query counts as \<^verbatim>\<open>false\<close>.\<close>

definition guard_last :: "bool \<Rightarrow> string \<Rightarrow> user list \<Rightarrow> bool" where
  "guard_last ok i us = (case is_last_admin ok i us of Inl e \<Rightarrow> False | Inr b \<Rightarrow> b)"

definition handle_update_user :: "request \<Rightarrow> string \<Rightarrow> user_input option \<Rightarrow> api \<Rightarrow> status \<times> api" where
  "handle_update_user q i body a =
     (case get_user (db_ok q 0) i (users a) of
        Inl e \<Rightarrow> (not_found_or_500 e, a)
      | Inr old \<Rightarrow>
          (case body of
             None \<Rightarrow> (400, a)
           | Some b \<Rightarrow>
               (let n = (if trim_space (in_name b) = [] then username old else trim_space (in_name b));
                    r = (if in_role b = [] then role old else in_role b)
                in if \<not> valid_role r then (400, a)
                   else if role old = ''admin'' \<and> r \<noteq> ''admin'' \<and> guard_last (db_ok q 1) i (users a) then (400, a)
                   else if in_pass b \<noteq> [] \<and> length (in_pass b) < 4 then (400, a)
                   else (case (if in_pass b = [] then Some [] else hash q (in_pass b)) of
                           None \<Rightarrow> (500, a)
                         | Some h \<Rightarrow>
                             (case update_user (db_ok q 2) (now q) i n r h (users a) of
                                (Some e, us) \<Rightarrow> (if e = Duplicate then 409 else not_found_or_500 e, a)
                              | (None, us) \<Rightarrow>
                                  (200, if r \<noteq> role old \<or> h \<noteq> [] then revoke_user i (a\<lparr>users := us\<rparr>)
                                        else a\<lparr>users := us\<rparr>))))))"

definition handle_delete_user :: "request \<Rightarrow> string \<Rightarrow> api \<Rightarrow> status \<times> api" where
  "handle_delete_user q i a =
     (case get_user (db_ok q 0) i (users a) of
        Inl e \<Rightarrow> (not_found_or_500 e, a)
      | Inr old \<Rightarrow>
          if role old = ''admin'' \<and> guard_last (db_ok q 1) i (users a) then (400, a)
          else (case delete_user (db_ok q 2) i (users a) of
                  (Some e, us) \<Rightarrow> (not_found_or_500 e, a)
                | (None, us) \<Rightarrow> (204, revoke_user i (a\<lparr>users := us\<rparr>))))"

text \<open>\<^verbatim>\<open>handleMe\<close> answers identity, role and whether the password is still the default one.\<close>

definition handle_me :: "request \<Rightarrow> session \<Rightarrow> api \<Rightarrow> string \<times> string \<times> string \<times> bool" where
  "handle_me q s a =
     (s_user s, s_name s, s_role s,
      case get_user (db_ok q 0) (s_user s) (users a) of Inl e \<Rightarrow> False | Inr u \<Rightarrow> check q (pw_hash u) ''admin'')"

definition require_role :: "string \<Rightarrow> session \<Rightarrow> (api \<Rightarrow> status \<times> api) \<Rightarrow> api \<Rightarrow> status \<times> api" where
  "require_role r s h a = (if role_rank (s_role s) < role_rank r then (403, a) else h a)"

definition middleware :: "request \<Rightarrow> string \<Rightarrow> (session \<Rightarrow> api \<Rightarrow> status \<times> api) \<Rightarrow> api \<Rightarrow> status \<times> api" where
  "middleware q tok h a = (case valid tok (now q) a of (None, a1) \<Rightarrow> (401, a1) | (Some s, a1) \<Rightarrow> h s a1)"

definition media_token :: "request \<Rightarrow> string \<Rightarrow> string" where
  "media_token q query = (if bearer (auth_header q) = [] then query else bearer (auth_header q))"

definition serve :: "request \<Rightarrow> api \<Rightarrow> status \<times> api" where
  "serve q a =
     (let tok = bearer (auth_header q);
          authed = middleware q tok;
          admin = (\<lambda>h. authed (\<lambda>s. require_role ''admin'' s h))
      in case route q of
           Login body \<Rightarrow> handle_login q body a
         | Logout \<Rightarrow> authed (\<lambda>s a. (204, revoke tok a)) a
         | Me \<Rightarrow> authed (\<lambda>s a. (200, a)) a
         | ListUsers \<Rightarrow> admin (handle_list_users q) a
         | CreateUser b \<Rightarrow> admin (handle_create_user q b) a
         | UpdateUser i b \<Rightarrow> admin (handle_update_user q i b) a
         | DeleteUser i \<Rightarrow> admin (handle_delete_user q i) a
         | Media query \<Rightarrow> middleware q (media_token q query) (\<lambda>s a. (200, a)) a
         | AtLeast r \<Rightarrow> authed (\<lambda>s. require_role r s (\<lambda>a. (200, a))) a)"

definition ensure_seed_admin ::
  "(nat \<Rightarrow> bool) \<Rightarrow> (string \<Rightarrow> string option) \<Rightarrow> string \<Rightarrow> int \<Rightarrow> string \<Rightarrow> string \<Rightarrow> user list \<Rightarrow> bool \<times> user list" where
  "ensure_seed_admin ok hs i t n p us =
     (case count_users (ok 0) us of
        Inl e \<Rightarrow> (False, us)
      | Inr k \<Rightarrow>
          if k > 0 then (True, us)
          else (case hs (if p = [] then ''admin'' else p) of
                  None \<Rightarrow> (False, us)
                | Some h \<Rightarrow>
                    (case create_user (ok 1) t
                            \<lparr>u_id = i, username = (if n = [] then ''admin'' else n), pw_hash = h, role = ''admin'',
                             created = 0, updated = 0\<rparr> us of
                       (err, us') \<Rightarrow> (err = None, us'))))"

fun serve_all :: "request list \<Rightarrow> api \<Rightarrow> api" where
  "serve_all [] a = a"
| "serve_all (q # qs) a = serve_all qs (snd (serve q a))"

section \<open>Invariants\<close>

definition accounts_ok :: "user list \<Rightarrow> bool" where
  "accounts_ok us \<longleftrightarrow> distinct (map u_id us) \<and> distinct (map (\<lambda>u. to_lower (username u)) us)"

definition has_role :: "user list \<Rightarrow> string \<Rightarrow> string \<Rightarrow> bool" where
  "has_role us i r \<longleftrightarrow> (\<exists>u \<in> set us. u_id u = i \<and> role u = r)"

definition current :: "api \<Rightarrow> bool" where
  "current a \<longleftrightarrow> (\<forall>t s. tokens a t = Some s \<longrightarrow> has_role (users a) (s_user s) (s_role s))"

definition api_ok :: "api \<Rightarrow> bool" where
  "api_ok a \<longleftrightarrow> accounts_ok (users a) \<and> current a"

lemma find_user: "List.find P us = Some u \<Longrightarrow> u \<in> set us \<and> P u"
  by (auto simp: find_Some_iff)

lemma get_user_Inr: "get_user ok i us = Inr u \<Longrightarrow> u \<in> set us \<and> u_id u = i"
  by (auto simp: get_user_def dest: find_user split: if_splits option.splits)

lemma get_by_username_Inr: "get_by_username ok n us = Inr u \<Longrightarrow> u \<in> set us"
  by (auto simp: get_by_username_def dest: find_user split: if_splits option.splits)

lemma accounts_unique: "accounts_ok us \<Longrightarrow> u \<in> set us \<Longrightarrow> v \<in> set us \<Longrightarrow> u_id u = u_id v \<Longrightarrow> u = v"
  by (auto simp: accounts_ok_def distinct_map inj_on_def)

lemma create_accounts:
  assumes "create_user ok t u us = (None, us')" "accounts_ok us"
  shows "accounts_ok us' \<and> us' = us @ [u\<lparr>created := t, updated := t\<rparr>]"
proof -
  have n: "\<forall>v \<in> set us. u_id v \<noteq> u_id u \<and> to_lower (username v) \<noteq> to_lower (username u)"
    and us': "us' = us @ [u\<lparr>created := t, updated := t\<rparr>]"
    using assms(1) by (auto simp: create_user_def split: if_splits)
  then have "u_id u \<notin> u_id ` set us" "to_lower (username u) \<notin> (\<lambda>u. to_lower (username u)) ` set us" by force+
  then show ?thesis using assms(2) us' by (simp add: accounts_ok_def)
qed

lemma delete_accounts:
  assumes "delete_user ok i us = (None, us')" "accounts_ok us"
  shows "accounts_ok us' \<and> us' = filter (\<lambda>u. u_id u \<noteq> i) us"
  using assms by (auto simp: delete_user_def accounts_ok_def distinct_map_filter split: if_splits)

lemma distinct_upd:
  "distinct (map k us) \<Longrightarrow> distinct (map g us) \<Longrightarrow> \<forall>v \<in> set us. k v \<noteq> i \<longrightarrow> g v \<noteq> c \<Longrightarrow>
   distinct (map (\<lambda>u. if k u = i then c else g u) us)"
proof (induction us)
  case (Cons u us)
  then have "k u \<notin> k ` set us" "g u \<notin> g ` set us" by simp_all
  then have ne: "k x \<noteq> k u" "g x \<noteq> g u" if "x \<in> set us" for x using that by (metis imageI)+
  have "(if k u = i then c else g u) \<notin> (\<lambda>u. if k u = i then c else g u) ` set us"
  proof
    assume "(if k u = i then c else g u) \<in> (\<lambda>u. if k u = i then c else g u) ` set us"
    then obtain x where x: "x \<in> set us" "(if k u = i then c else g u) = (if k x = i then c else g x)" by auto
    then show False using ne [OF x(1)] Cons.prems(3) by (cases "k u = i"; cases "k x = i") auto
  qed
  then show ?case using Cons by simp
qed simp

lemma update_accounts:
  assumes "update_user ok t i n r h us = (None, us')" "accounts_ok us"
  shows "accounts_ok us' \<and> us' = map (\<lambda>u. if u_id u = i then set_user n r h t u else u) us"
proof -
  let ?f = "\<lambda>u. if u_id u = i then set_user n r h t u else u"
  have us': "us' = map ?f us" and fresh: "\<forall>v \<in> set us. u_id v \<noteq> i \<longrightarrow> to_lower (username v) \<noteq> to_lower n"
    using assms(1) by (auto simp: update_user_def split: if_splits)
  have "map u_id us' = map u_id us" by (simp add: us' set_user_def)
  moreover have "map (\<lambda>u. to_lower (username u)) us' =
      map (\<lambda>u. if u_id u = i then to_lower n else to_lower (username u)) us"
    by (simp add: us' set_user_def)
  moreover have "distinct (map (\<lambda>u. if u_id u = i then to_lower n else to_lower (username u)) us)"
    using assms(2) fresh by (intro distinct_upd) (simp_all add: accounts_ok_def)
  ultimately show ?thesis using assms(2) us' unfolding accounts_ok_def by (simp only: simp_thms)
qed

section \<open>Every handler keeps them\<close>

lemma tokens_shrink:
  assumes "api_ok a" "users b = users a" "\<And>t s. tokens b t = Some s \<Longrightarrow> tokens a t = Some s"
  shows "api_ok b"
  using assms by (auto simp: api_ok_def current_def)

lemma valid_ok:
  assumes "valid tok t a = (r, a1)" "api_ok a"
  shows "api_ok a1 \<and> users a1 = users a \<and> (\<forall>s. r = Some s \<longrightarrow> tokens a tok = Some s \<and> t \<le> s_exp s \<and> a1 = a)"
proof -
  have "users a1 = users a \<and> (\<forall>t s. tokens a1 t = Some s \<longrightarrow> tokens a t = Some s) \<and>
      (\<forall>s. r = Some s \<longrightarrow> tokens a tok = Some s \<and> t \<le> s_exp s \<and> a1 = a)"
    using assms(1) by (auto simp: valid_def split: if_splits option.splits)
  then show ?thesis using tokens_shrink [OF assms(2)] by blast
qed

lemma issue_ok:
  assumes "api_ok a" "u \<in> set (users a)"
  shows "api_ok (issue tok t u a) \<and> users (issue tok t u a) = users a"
  using assms by (auto simp: api_ok_def current_def issue_def has_role_def split: option.splits if_splits)

lemma login_ok: "handle_login q b a = (st, a1) \<Longrightarrow> api_ok a \<Longrightarrow> api_ok a1 \<and> users a1 = users a"
  using issue_ok by (auto simp: handle_login_def dest!: get_by_username_Inr split: option.splits sum.splits if_splits)

lemma list_users_ok: "handle_list_users q a = (st, a1) \<Longrightarrow> a1 = a"
  by (auto simp: handle_list_users_def split: sum.splits)

lemma create_ok:
  assumes "handle_create_user q b a = (st, a1)" "api_ok a"
  shows "api_ok a1 \<and> (\<exists>vs. users a1 = users a @ vs)"
proof (cases "a1 = a")
  case False
  then obtain u where u: "create_user (db_ok q 0) (now q) u (users a) = (None, users a1)" "tokens a1 = tokens a"
    using assms(1) by (auto simp: handle_create_user_def Let_def split: option.splits if_splits prod.splits)
  then have us: "accounts_ok (users a1) \<and> users a1 = users a @ [u\<lparr>created := now q, updated := now q\<rparr>]"
    using assms(2) create_accounts by (auto simp: api_ok_def)
  then have "current a1" using assms(2) u(2) by (auto simp: api_ok_def current_def has_role_def)
  then show ?thesis using us by (auto simp: api_ok_def)
qed (use assms in auto)

lemma has_role_other: "has_role us i r \<Longrightarrow> i \<noteq> j \<Longrightarrow> has_role (filter (\<lambda>u. u_id u \<noteq> j) us) i r"
  by (auto simp: has_role_def)

lemma has_role_upd:
  "has_role us i r \<Longrightarrow> i \<noteq> j \<Longrightarrow> has_role (map (\<lambda>u. if u_id u = j then set_user n r' h t u else u) us) i r"
  by (force simp: has_role_def)

lemma has_role_same:
  assumes "accounts_ok us" "old \<in> set us" "u_id old = j" "has_role us i r"
  shows "has_role (map (\<lambda>u. if u_id u = j then set_user n (role old) h t u else u) us) i r"
proof -
  obtain u where u: "u \<in> set us" "u_id u = i" "role u = r" using assms(4) by (auto simp: has_role_def)
  let ?f = "\<lambda>u. if u_id u = j then set_user n (role old) h t u else u"
  have "u_id u = j \<Longrightarrow> u = old" using accounts_unique [OF assms(1) u(1) assms(2)] assms(3) by simp
  then have "u_id (?f u) = i" "role (?f u) = r" using u by (auto simp: set_user_def)
  then show ?thesis unfolding has_role_def using u(1) by (metis (no_types, lifting) imageI set_map)
qed

lemma revoked: "tokens (revoke_user i a) t = Some s \<longleftrightarrow> tokens a t = Some s \<and> s_user s \<noteq> i"
  by (auto simp: revoke_user_def split: option.splits)

lemma users_revoke [simp]: "users (revoke_user i a) = users a" "users (revoke t a) = users a"
  by (simp_all add: revoke_user_def revoke_def)

lemma delete_ok:
  assumes "handle_delete_user q i a = (st, a1)" "api_ok a"
  shows "api_ok a1 \<and> (users a1 = users a \<or> users a1 = filter (\<lambda>u. u_id u \<noteq> i) (users a) \<and>
    (\<exists>old \<in> set (users a). u_id old = i \<and> \<not> (role old = ''admin'' \<and> guard_last (db_ok q 1) i (users a))))"
proof (cases "a1 = a")
  case False
  then obtain old us where o: "old \<in> set (users a)" "u_id old = i"
    "\<not> (role old = ''admin'' \<and> guard_last (db_ok q 1) i (users a))"
    "delete_user (db_ok q 2) i (users a) = (None, us)" "a1 = revoke_user i (a\<lparr>users := us\<rparr>)"
    using assms(1) by (auto simp: handle_delete_user_def dest!: get_user_Inr split: sum.splits if_splits prod.splits option.splits)
  then have us: "accounts_ok us" "us = filter (\<lambda>u. u_id u \<noteq> i) (users a)"
    using delete_accounts [OF o(4)] assms(2) unfolding api_ok_def by blast+
  have "current a1"
    using assms(2) has_role_other us(2) unfolding o(5) by (auto simp: api_ok_def current_def revoked)
  moreover have "users a1 = us" by (simp add: o(5))
  ultimately show ?thesis using us o(1-3) by (auto simp: api_ok_def)
qed (use assms in auto)

lemma update_ok:
  assumes "handle_update_user q i b a = (st, a1)" "api_ok a"
  shows "api_ok a1 \<and> (users a1 = users a \<or> (\<exists>n r h old. old \<in> set (users a) \<and> u_id old = i \<and>
    users a1 = map (\<lambda>u. if u_id u = i then set_user n r h (now q) u else u) (users a) \<and>
    \<not> (role old = ''admin'' \<and> r \<noteq> ''admin'' \<and> guard_last (db_ok q 1) i (users a))))"
proof (cases "a1 = a")
  case False
  then obtain old b' where g: "get_user (db_ok q 0) i (users a) = Inr old" "b = Some b'"
    using assms(1) by (auto simp: handle_update_user_def split: sum.splits option.splits)
  define n where "n = (if trim_space (in_name b') = [] then username old else trim_space (in_name b'))"
  define r where "r = (if in_role b' = [] then role old else in_role b')"
  have E: "(if \<not> valid_role r then (400, a)
      else if role old = ''admin'' \<and> r \<noteq> ''admin'' \<and> guard_last (db_ok q 1) i (users a) then (400, a)
      else if in_pass b' \<noteq> [] \<and> length (in_pass b') < 4 then (400, a)
      else (case (if in_pass b' = [] then Some [] else hash q (in_pass b')) of
              None \<Rightarrow> (500, a)
            | Some h \<Rightarrow>
                (case update_user (db_ok q 2) (now q) i n r h (users a) of
                   (Some e, us) \<Rightarrow> (if e = Duplicate then 409 else not_found_or_500 e, a)
                 | (None, us) \<Rightarrow>
                     (200, if r \<noteq> role old \<or> h \<noteq> [] then revoke_user i (a\<lparr>users := us\<rparr>)
                           else a\<lparr>users := us\<rparr>)))) = (st, a1)"
    using assms(1) unfolding handle_update_user_def g sum.case option.case Let_def r_def [symmetric] n_def [symmetric] .
  have c: "\<not> (role old = ''admin'' \<and> r \<noteq> ''admin'' \<and> guard_last (db_ok q 1) i (users a))"
    "valid_role r" "\<not> (in_pass b' \<noteq> [] \<and> length (in_pass b') < 4)"
    using E False by (auto split: if_splits)
  then obtain h where h: "(if in_pass b' = [] then Some [] else hash q (in_pass b')) = Some h"
    using E False by (cases "if in_pass b' = [] then Some [] else hash q (in_pass b')") auto
  obtain us where u: "update_user (db_ok q 2) (now q) i n r h (users a) = (None, us)"
    using E False c unfolding h option.case
    by (cases "update_user (db_ok q 2) (now q) i n r h (users a)") (auto split: option.splits)
  have o: "old \<in> set (users a)" "u_id old = i"
    "\<not> (role old = ''admin'' \<and> r \<noteq> ''admin'' \<and> guard_last (db_ok q 1) i (users a))"
    "update_user (db_ok q 2) (now q) i n r h (users a) = (None, us)"
    "a1 = (if r \<noteq> role old \<or> h \<noteq> [] then revoke_user i (a\<lparr>users := us\<rparr>) else a\<lparr>users := us\<rparr>)"
    using E c u get_user_Inr [OF g(1)] unfolding h option.case by auto
  then have us: "accounts_ok us" "us = map (\<lambda>u. if u_id u = i then set_user n r h (now q) u else u) (users a)"
    using update_accounts [OF o(4)] assms(2) unfolding api_ok_def by blast+
  have cur: "tokens a t = Some s \<Longrightarrow> has_role (users a) (s_user s) (s_role s)" for t s
    using assms(2) by (simp add: api_ok_def current_def)
  have "current a1"
  proof (cases "r \<noteq> role old \<or> h \<noteq> []")
    case True
    then show ?thesis using cur has_role_upd us(2) unfolding o(5) by (auto simp: current_def revoked)
  next
    case False
    then show ?thesis
      using cur has_role_same [OF _ o(1,2)] assms(2) us(2) unfolding o(5) by (auto simp: current_def api_ok_def)
  qed
  moreover have "users a1 = us" by (simp add: o(5))
  ultimately have "api_ok a1" "users a1 = map (\<lambda>u. if u_id u = i then set_user n r h (now q) u else u) (users a)"
    using us by (simp_all add: api_ok_def)
  then show ?thesis using o(1-3) by blast
qed (use assms in auto)

text \<open>What a request may do to the table.\<close>

definition changes_accounts :: "request \<Rightarrow> api \<Rightarrow> user list \<Rightarrow> bool" where
  "changes_accounts q a us \<longleftrightarrow>
     (\<exists>vs. us = users a @ vs) \<or>
     (\<exists>old \<in> set (users a).
        us = filter (\<lambda>u. u_id u \<noteq> u_id old) (users a) \<and>
          \<not> (role old = ''admin'' \<and> guard_last (db_ok q 1) (u_id old) (users a)) \<or>
        (\<exists>n r h. us = map (\<lambda>u. if u_id u = u_id old then set_user n r h (now q) u else u) (users a) \<and>
          \<not> (role old = ''admin'' \<and> r \<noteq> ''admin'' \<and> guard_last (db_ok q 1) (u_id old) (users a))))"

lemma middleware_ok:
  assumes "middleware q tok h a = (st, a1)" "api_ok a"
    and "\<And>s st a1. h s a = (st, a1) \<Longrightarrow> tokens a tok = Some s \<Longrightarrow> now q \<le> s_exp s \<Longrightarrow> P s a1"
    and "\<And>a1. api_ok a1 \<Longrightarrow> users a1 = users a \<Longrightarrow> Q a1"
    and "\<And>s a1. tokens a tok = Some s \<Longrightarrow> now q \<le> s_exp s \<Longrightarrow> P s a1 \<Longrightarrow> Q a1"
  shows "Q a1"
proof -
  obtain r a' where v: "valid tok (now q) a = (r, a')" by fastforce
  note ok = valid_ok [OF v assms(2)]
  show ?thesis
  proof (cases r)
    case None
    then show ?thesis using assms(1,4) ok v by (simp add: middleware_def)
  next
    case (Some s)
    then have "h s a = (st, a1)" "tokens a tok = Some s" "now q \<le> s_exp s"
      using assms(1) ok v by (auto simp: middleware_def)
    then show ?thesis using assms(3,5) by blast
  qed
qed

lemma admin_rank: "\<not> role_rank r < role_rank ''admin'' \<Longrightarrow> r = ''admin''"
  by (auto simp: role_rank_def split: if_splits)

text \<open>An end point behind \<^verbatim>\<open>requireRole(admin)\<close>.\<close>

definition by_admin :: "request \<Rightarrow> api \<Rightarrow> bool" where
  "by_admin q a \<longleftrightarrow> (\<exists>s. tokens a (bearer (auth_header q)) = Some s \<and> now q \<le> s_exp s \<and> s_role s = ''admin'')"

definition good_step :: "request \<Rightarrow> api \<Rightarrow> api \<Rightarrow> bool" where
  "good_step q a a1 \<longleftrightarrow> api_ok a1 \<and> (users a1 = users a \<or> by_admin q a \<and> changes_accounts q a (users a1))"

lemma admin_step:
  assumes "middleware q (bearer (auth_header q)) (\<lambda>s. require_role ''admin'' s h) a = (st, a1)" "api_ok a"
    and "\<And>st a1. h a = (st, a1) \<Longrightarrow> api_ok a1 \<and> (users a1 = users a \<or> changes_accounts q a (users a1))"
  shows "good_step q a a1"
  using assms(1,2)
proof (rule middleware_ok [where P = "\<lambda>s a1. good_step q a a1"])
  fix s st a1
  assume s: "require_role ''admin'' s h a = (st, a1)" "tokens a (bearer (auth_header q)) = Some s" "now q \<le> s_exp s"
  show "good_step q a a1"
  proof (cases "role_rank (s_role s) < role_rank ''admin''")
    case True
    then show ?thesis using s assms(2) by (simp add: require_role_def good_step_def)
  next
    case False
    then have "by_admin q a" using s admin_rank by (auto simp: by_admin_def)
    moreover have "h a = (st, a1)" using False s by (simp add: require_role_def)
    ultimately show ?thesis using assms(3) by (auto simp: good_step_def)
  qed
qed (auto simp: good_step_def)

lemma plain_step:
  assumes "middleware q tok h a = (st, a1)" "api_ok a"
    and "\<And>s st a1. h s a = (st, a1) \<Longrightarrow> api_ok a1 \<and> users a1 = users a"
  shows "good_step q a a1"
  using assms(1,2)
  by (rule middleware_ok [where P = "\<lambda>s a1. good_step q a a1"]) (use assms(3) in \<open>auto simp: good_step_def\<close>)

lemma revoke_ok: "api_ok a \<Longrightarrow> api_ok (revoke t a)"
  by (rule tokens_shrink) (auto simp: revoke_def split: if_splits)

lemma serve_good:
  assumes "api_ok a"
  shows "good_step q a (snd (serve q a))"
proof (cases "serve q a")
  case (Pair st a1)
  show ?thesis
  proof (cases "route q")
    case (Login b)
    then show ?thesis using Pair assms login_ok by (simp add: serve_def Let_def good_step_def)
  next
    case Logout
    then show ?thesis using Pair assms revoke_ok
      by (auto simp: serve_def Let_def intro!: plain_step)
  next
    case Me
    then show ?thesis using Pair assms by (auto simp: serve_def Let_def intro!: plain_step)
  next
    case ListUsers
    then show ?thesis using Pair assms list_users_ok
      by (auto simp: serve_def Let_def intro!: admin_step)
  next
    case (CreateUser b)
    then show ?thesis using Pair assms create_ok
      by (auto simp: serve_def Let_def changes_accounts_def intro!: admin_step)
  next
    case (UpdateUser i b)
    then have m: "middleware q (bearer (auth_header q)) (\<lambda>s. require_role ''admin'' s (handle_update_user q i b)) a = (st, a1)"
      using Pair by (simp add: serve_def Let_def)
    have "good_step q a a1"
      using m assms by (rule admin_step) (use update_ok [OF _ assms] in \<open>unfold changes_accounts_def, blast\<close>)
    then show ?thesis by (simp add: Pair)
  next
    case (DeleteUser i)
    then have m: "middleware q (bearer (auth_header q)) (\<lambda>s. require_role ''admin'' s (handle_delete_user q i)) a = (st, a1)"
      using Pair by (simp add: serve_def Let_def)
    have "good_step q a a1"
      using m assms by (rule admin_step) (use delete_ok [OF _ assms] in \<open>unfold changes_accounts_def, blast\<close>)
    then show ?thesis by (simp add: Pair)
  next
    case (Media t)
    then show ?thesis using Pair assms by (auto simp: serve_def Let_def intro!: plain_step)
  next
    case (AtLeast r)
    then show ?thesis using Pair assms
      by (auto simp: serve_def Let_def require_role_def intro!: plain_step split: if_splits)
  qed
qed

lemma serve_all_ok: "api_ok a \<Longrightarrow> api_ok (serve_all qs a)"
  by (induction qs arbitrary: a) (use serve_good in \<open>auto simp: good_step_def\<close>)


definition sample_request :: "route \<Rightarrow> string \<Rightarrow> request" where
  "sample_request r h = \<lparr>route = r, auth_header = h, now = 5, db_ok = (\<lambda>k. True), new_token = ''tok'',
     new_id = ''2'', hash = Some, check = (=)\<rparr>"

definition sample_admin :: user where
  "sample_admin = \<lparr>u_id = ''1'', username = ''admin'', pw_hash = ''pass'', role = ''admin'', created = 0, updated = 0\<rparr>"

definition sample_api :: api where
  "sample_api = \<lparr>users = [sample_admin], tokens = Map.empty\<rparr>"

definition sample_create :: request where
  "sample_create = sample_request (CreateUser (Some \<lparr>in_name = ''bob'', in_pass = ''bobs'', in_role = ''viewer''\<rparr>)) ''Bearer tok''"

definition sample_login :: request where
  "sample_login = sample_request (Login (Some (''admin'', ''pass''))) []"

lemma sample_logged_in:
  "serve_all [sample_login] sample_api = \<lparr>users = [sample_admin],
     tokens = [''tok'' \<mapsto> \<lparr>s_user = ''1'', s_name = ''admin'', s_role = ''admin'', s_exp = 43200000000005\<rparr>]\<rparr>"
proof -
  have "get_by_username True (trim_space ''admin'') [sample_admin] = Inr sample_admin"
    by (simp add: get_by_username_def sample_admin_def to_lower_def trim_by_def trim_left_def trim_right_def is_space_def)
  then show ?thesis
    by (simp add: sample_login_def sample_request_def sample_api_def serve_def handle_login_def Let_def issue_def
        token_ttl_def sample_admin_def fun_eq_iff)
qed


section \<open>The last administrator\<close>

lemma guard_last_spec: "guard_last True i us \<longleftrightarrow> \<not> (\<exists>u \<in> set us. role u = ''admin'' \<and> u_id u \<noteq> i)"
proof -
  have "set (stable_sort name_lt us) = set us" by simp
  then show ?thesis
    unfolding guard_last_def is_last_admin_def list_users_def length_0_conv filter_empty_conv by auto
qed

lemma admin_survives:
  assumes "changes_accounts q a us" "accounts_ok (users a)" "db_ok q 1" "\<exists>u \<in> set (users a). role u = ''admin''"
  shows "\<exists>u \<in> set us. role u = ''admin''"
  using assms(1)
  unfolding changes_accounts_def
proof (elim disjE exE bexE conjE)
  fix vs assume "us = users a @ vs"
  then show ?thesis using assms(4) by auto
next
  fix old assume d: "old \<in> set (users a)" "us = filter (\<lambda>u. u_id u \<noteq> u_id old) (users a)"
    "\<not> (role old = ''admin'' \<and> guard_last (db_ok q 1) (u_id old) (users a))"
  obtain u where u: "u \<in> set (users a)" "role u = ''admin''" using assms(4) by blast
  show ?thesis
  proof (cases "u_id u = u_id old")
    case True
    then have "u = old" using accounts_unique [OF assms(2) u(1) d(1)] by simp
    then show ?thesis using d assms(3) u(2) by (auto simp: guard_last_spec)
  next
    case False
    then show ?thesis using u d(2) by auto
  qed
next
  fix old n r h assume d: "old \<in> set (users a)"
    "us = map (\<lambda>u. if u_id u = u_id old then set_user n r h (now q) u else u) (users a)"
    "\<not> (role old = ''admin'' \<and> r \<noteq> ''admin'' \<and> guard_last (db_ok q 1) (u_id old) (users a))"
  let ?f = "\<lambda>u. if u_id u = u_id old then set_user n r h (now q) u else u"
  obtain u where u: "u \<in> set (users a)" "role u = ''admin''" using assms(4) by blast
  have "\<exists>u \<in> set (users a). role (?f u) = ''admin''"
  proof (cases "u_id u = u_id old \<and> r \<noteq> ''admin''")
    case True
    then have "u = old" using accounts_unique [OF assms(2) u(1) d(1)] by simp
    then show ?thesis using d True assms(3) u(2) by (auto simp: guard_last_spec)
  next
    case False
    then show ?thesis using u by (auto simp: set_user_def intro!: bexI [of _ u])
  qed
  then obtain v where v: "v \<in> set (users a)" "role (?f v) = ''admin''" by blast
  have "?f v \<in> set us" unfolding d(2) set_map using v(1) by (rule imageI)
  then show ?thesis using v(2) by blast
qed

text \<open>
  C36: as long as the listing query of the guard does not fail, requests handled one after the other
  never leave the system without an administrator.
\<close>

theorem last_admin_stays:
  assumes "accounts_ok (users a0)" "tokens a0 = Map.empty" "\<exists>u \<in> set (users a0). role u = ''admin''"
    and "list_all (\<lambda>q. db_ok q 1) qs"
  shows "\<exists>u \<in> set (users (serve_all qs a0)). role u = ''admin''"
proof -
  have "api_ok a \<Longrightarrow> \<exists>u \<in> set (users a). role u = ''admin'' \<Longrightarrow> list_all (\<lambda>q. db_ok q 1) qs \<Longrightarrow>
      \<exists>u \<in> set (users (serve_all qs a)). role u = ''admin''" for a
  proof (induction qs arbitrary: a)
    case (Cons q qs)
    have g: "good_step q a (snd (serve q a))" using Cons.prems(1) by (rule serve_good)
    then have "\<exists>u \<in> set (users (snd (serve q a))). role u = ''admin''"
      using admin_survives [of q a] Cons.prems by (auto simp: good_step_def api_ok_def)
    then show ?case using Cons.IH [of "snd (serve q a)"] g Cons.prems(3) by (simp add: good_step_def)
  qed simp
  moreover have "api_ok a0" using assms(1,2) by (simp add: api_ok_def current_def)
  ultimately show ?thesis using assms(3,4) by blast
qed

theorem last_admin_stays_witness:
  "\<exists>u \<in> set (users (serve_all [sample_login, sample_request (DeleteUser ''1'') ''Bearer tok''] sample_api)). role u = ''admin''"
  by (rule last_admin_stays) (simp_all add: sample_api_def accounts_ok_def sample_admin_def sample_login_def sample_request_def)

text \<open>
  With the listing query failing, the guard lets the last administrator be deleted: the error of
  \<^verbatim>\<open>isLastAdmin\<close> is discarded by its callers.
\<close>

lemma failed_guard_deletes_last_admin:
  assumes "role u = ''admin''" "db_ok q 0" "\<not> db_ok q 1" "db_ok q 2" "users a = [u]"
  shows "handle_delete_user q (u_id u) a = (204, revoke_user (u_id u) (a\<lparr>users := []\<rparr>))"
  using assms
  by (simp add: handle_delete_user_def get_user_def guard_last_def is_last_admin_def list_users_def delete_user_def)

section \<open>Races between handlers\<close>

text \<open>
  A handler holds no lock across its database calls.  Its two halves, with anything in between:
\<close>

definition delete_check :: "request \<Rightarrow> string \<Rightarrow> api \<Rightarrow> status option" where
  "delete_check q i a =
     (case get_user (db_ok q 0) i (users a) of
        Inl e \<Rightarrow> Some (not_found_or_500 e)
      | Inr old \<Rightarrow> if role old = ''admin'' \<and> guard_last (db_ok q 1) i (users a) then Some 400 else None)"

definition delete_commit :: "request \<Rightarrow> string \<Rightarrow> api \<Rightarrow> status \<times> api" where
  "delete_commit q i a =
     (case delete_user (db_ok q 2) i (users a) of
        (Some e, us) \<Rightarrow> (not_found_or_500 e, a)
      | (None, us) \<Rightarrow> (204, revoke_user i (a\<lparr>users := us\<rparr>)))"

lemma delete_halves:
  "handle_delete_user q i a = (case delete_check q i a of Some st \<Rightarrow> (st, a) | None \<Rightarrow> delete_commit q i a)"
  by (simp add: handle_delete_user_def delete_check_def delete_commit_def split: sum.split)

lemma racing_deletes:
  assumes "users a = [u, v]" "role u = ''admin''" "role v = ''admin''" "u_id u \<noteq> u_id v"
    and "\<And>k. db_ok q k" "\<And>k. db_ok q' k"
  shows "delete_check q (u_id u) a = None \<and> delete_check q' (u_id v) a = None \<and>
    users (snd (delete_commit q' (u_id v) (snd (delete_commit q (u_id u) a)))) = []"
  using assms by (auto simp: delete_check_def delete_commit_def get_user_def guard_last_spec delete_user_def)

text \<open>
  A log-in that has read the account before its deletion (or demotion) issues its token after
  \<^verbatim>\<open>revokeUser\<close>: the session outlives the account, with the old role, until it expires.
\<close>

lemma racing_login:
  assumes "users a = [u]" "db_ok q 2"
  shows "(let a1 = issue tok t u (snd (delete_commit q (u_id u) a))
          in users a1 = [] \<and> (\<exists>s. tokens a1 tok = Some s \<and> s_user s = u_id u \<and> s_role s = role u))"
  using assms by (simp add: delete_commit_def delete_user_def issue_def Let_def token_ttl_def)

end
