(* ===== verification/Notify_Throttle.thy ===== *)
theory Notify_Throttle
  imports GoStrings
begin

text \<open>
  Notifications (\<^verbatim>\<open>internal/notify/notify.go\<close> and the configuration of \<^verbatim>\<open>internal/database/models.go\<close>):
  which channels want a kind, the throttle per camera and kind, delivery to each channel with
  isolated failures, and the choice of the MQTT broker.  The transports are outside: whether a
  channel delivers is an input.  Times are nanoseconds of the monotonic clock.
\<close>

section \<open>Configuration\<close>

datatype channel_type = ChannelEmail | ChannelWebhook | ChannelMQTT | ChannelWebPush | ChannelOther string

record notify_channel =
  ch_name :: string
  ch_type :: channel_type
  ch_enabled :: bool
  ch_events :: "string list"
  ch_broker :: string
  ch_subject :: string

record notify_config =
  nc_enabled :: bool
  on_motion :: bool
  on_camera_offline :: bool
  min_interval_seconds :: int
  nc_channels :: "notify_channel list"
  vapid_subject :: string

definition wants_kind :: "notify_channel \<Rightarrow> string \<Rightarrow> notify_config \<Rightarrow> bool" where
  "wants_kind ch k cfg =
     (if ch_events ch \<noteq> [] then list_ex (\<lambda>e. e = k) (ch_events ch)
      else if k = ''motion'' then on_motion cfg
      else if k = ''offline'' then on_camera_offline cfg
      else True)"

text \<open>\<^verbatim>\<open>FirstMQTT\<close>: the first enabled channel with a broker, else the first one with a broker.\<close>

fun first_mqtt_from :: "notify_channel list \<Rightarrow> string option \<Rightarrow> string option" where
  "first_mqtt_from [] fallback = fallback"
| "first_mqtt_from (ch # chs) fallback =
     (if ch_type ch \<noteq> ChannelMQTT \<or> ch_broker ch = [] then first_mqtt_from chs fallback
      else if ch_enabled ch then Some (ch_broker ch)
      else first_mqtt_from chs (if fallback = None then Some (ch_broker ch) else fallback))"

definition first_mqtt :: "notify_config \<Rightarrow> string option" where
  "first_mqtt cfg = first_mqtt_from (nc_channels cfg) None"

lemma first_mqtt_from_eq:
  "first_mqtt_from chs fb =
     (case filter (\<lambda>c. ch_type c = ChannelMQTT \<and> ch_broker c \<noteq> [] \<and> ch_enabled c) chs of
        c # _ \<Rightarrow> Some (ch_broker c)
      | [] \<Rightarrow> (case fb of Some b \<Rightarrow> Some b
               | None \<Rightarrow> map_option ch_broker (List.find (\<lambda>c. ch_type c = ChannelMQTT \<and> ch_broker c \<noteq> []) chs)))"
  by (induction chs arbitrary: fb) (auto split: list.splits option.splits)

section \<open>The notifier\<close>

record notification =
  nt_kind :: string
  nt_camera :: string
  nt_name :: string
  nt_time :: "int option"

type_synonym throttle = "string \<rightharpoonup> int"

definition throttle_key :: "notification \<Rightarrow> string" where
  "throttle_key msg = nt_camera msg @ ''|'' @ nt_kind msg"

text \<open>\<^verbatim>\<open>allow\<close>: \<open>now\<close> stands for its two clock readings; a multiplication with \<^verbatim>\<open>time.Second\<close> wraps.\<close>

definition allow :: "int \<Rightarrow> notification \<Rightarrow> int \<Rightarrow> throttle \<Rightarrow> bool \<times> throttle" where
  "allow now msg min_sec last_sent =
     (if min_sec \<le> 0 then (True, last_sent)
      else case last_sent (throttle_key msg) of
             Some l \<Rightarrow> if now - l < wrap64 (min_sec * 1000000000) then (False, last_sent)
                       else (True, last_sent(throttle_key msg \<mapsto> now))
           | None \<Rightarrow> (True, last_sent(throttle_key msg \<mapsto> now)))"

datatype notify_error = PushUnavailable | UnknownChannel | TransportFailed

text \<open>
  What \<^verbatim>\<open>deliver\<close> hands to a transport: the channel, the VAPID subject of a web push, and the message.
  \<open>ok\<close> is the transport's answer and \<open>push\<close> whether web push is available.
\<close>

type_synonym delivery = "notify_channel \<times> string \<times> notification"

definition deliver ::
  "(notify_channel \<Rightarrow> bool) \<Rightarrow> bool \<Rightarrow> notify_config \<Rightarrow> notify_channel \<Rightarrow> notification \<Rightarrow> delivery list \<times> notify_error option" where
  "deliver ok push cfg ch msg =
     (let result = (if ok ch then None else Some TransportFailed) in
      case ch_type ch of
        ChannelEmail \<Rightarrow> ([(ch, [], msg)], result)
      | ChannelWebhook \<Rightarrow> ([(ch, [], msg)], result)
      | ChannelMQTT \<Rightarrow> ([(ch, [], msg)], result)
      | ChannelWebPush \<Rightarrow>
          (if \<not> push then ([], Some PushUnavailable)
           else ([(ch, if ch_subject ch \<noteq> [] then ch_subject ch else vapid_subject cfg, msg)], result))
      | ChannelOther t \<Rightarrow> ([], Some UnknownChannel))"

definition targets :: "notify_config \<Rightarrow> notification \<Rightarrow> notify_channel list" where
  "targets cfg msg = filter (\<lambda>ch. ch_enabled ch \<and> wants_kind ch (nt_kind msg) cfg) (nc_channels cfg)"

definition notify ::
  "(notify_channel \<Rightarrow> bool) \<Rightarrow> bool \<Rightarrow> notify_config \<Rightarrow> int \<Rightarrow> notification \<Rightarrow> throttle \<Rightarrow> delivery list \<times> throttle" where
  "notify ok push cfg now msg0 last_sent =
     (if \<not> nc_enabled cfg then ([], last_sent)
      else let msg = (if nt_time msg0 = None then msg0\<lparr>nt_time := Some now\<rparr> else msg0);
               ts = targets cfg msg
           in if ts = [] then ([], last_sent)
              else case allow now msg (min_interval_seconds cfg) last_sent of
                     (False, l) \<Rightarrow> ([], l)
                   | (True, l) \<Rightarrow> (concat (map (\<lambda>ch. fst (deliver ok push cfg ch msg)) ts), l))"

text \<open>A sequence of notifications: what is delivered for each, with the time of the call.\<close>

fun notify_all ::
  "(notify_channel \<Rightarrow> bool) \<Rightarrow> bool \<Rightarrow> notify_config \<Rightarrow> (int \<times> notification) list \<Rightarrow> throttle \<Rightarrow> delivery list list" where
  "notify_all ok push cfg [] l = []"
| "notify_all ok push cfg ((now, msg) # ms) l =
     (let (ds, l1) = notify ok push cfg now msg l in ds # notify_all ok push cfg ms l1)"

section \<open>The reference\<close>

text \<open>
  A message passes when it is wanted and no message of the same camera and kind that passed is less
  than the interval old; \<open>hist\<close> holds the messages that passed, the latest first.
\<close>

type_synonym history = "((string \<times> string) \<times> int) list"

definition source_of :: "notification \<Rightarrow> string \<times> string" where
  "source_of msg = (nt_camera msg, nt_kind msg)"

definition due_for :: "int \<Rightarrow> int \<Rightarrow> notification \<Rightarrow> history \<Rightarrow> bool" where
  "due_for min_sec now msg hist \<longleftrightarrow>
     min_sec \<le> 0 \<or> list_all (\<lambda>(src, t). src = source_of msg \<longrightarrow> now - t \<ge> min_sec * 1000000000) hist"

fun passing :: "notify_config \<Rightarrow> history \<Rightarrow> (int \<times> notification) list \<Rightarrow> bool list" where
  "passing cfg hist [] = []"
| "passing cfg hist ((now, msg) # ms) =
     (let p = nc_enabled cfg \<and> targets cfg msg \<noteq> [] \<and> due_for (min_interval_seconds cfg) now msg hist
      in p # passing cfg (if p then (source_of msg, now) # hist else hist) ms)"

text \<open>What each wanted channel is handed, whatever becomes of the other deliveries.\<close>

definition expected :: "bool \<Rightarrow> notify_config \<Rightarrow> notification \<Rightarrow> notify_channel \<Rightarrow> delivery list" where
  "expected push cfg msg ch =
     (case ch_type ch of
        ChannelWebPush \<Rightarrow> if push then [(ch, if ch_subject ch = [] then vapid_subject cfg else ch_subject ch, msg)] else []
      | ChannelOther t \<Rightarrow> []
      | _ \<Rightarrow> [(ch, [], msg)])"

definition stamped :: "int \<Rightarrow> notification \<Rightarrow> notification" where
  "stamped now msg = msg\<lparr>nt_time := Some (case nt_time msg of None \<Rightarrow> now | Some t \<Rightarrow> t)\<rparr>"

definition expected_all :: "bool \<Rightarrow> notify_config \<Rightarrow> bool \<Rightarrow> int \<times> notification \<Rightarrow> delivery list" where
  "expected_all push cfg p m =
     (if p then concat (map (expected push cfg (stamped (fst m) (snd m))) (targets cfg (snd m))) else [])"

section \<open>The notifier meets the reference\<close>

lemma deliver_expected: "fst (deliver ok push cfg ch msg) = expected push cfg msg ch"
  by (simp add: deliver_def expected_def Let_def split: channel_type.split)

lemma stamp_source [simp]:
  "nt_kind (stamped now msg) = nt_kind msg" "nt_camera (stamped now msg) = nt_camera msg"
  "targets cfg (stamped now msg) = targets cfg msg" "throttle_key (stamped now msg) = throttle_key msg"
  by (simp_all add: stamped_def targets_def throttle_key_def)

lemma stamped_if: "(if nt_time msg = None then msg\<lparr>nt_time := Some now\<rparr> else msg) = stamped now msg"
  by (auto simp: stamped_def)

definition bar_free :: "string \<Rightarrow> bool" where "bar_free s \<longleftrightarrow> CHR ''|'' \<notin> set s"

lemma bar_key_inj:
  assumes "bar_free k" "bar_free k'"
  shows "c @ ''|'' @ k = c' @ ''|'' @ k' \<longleftrightarrow> c = c' \<and> k = k'"
proof
  assume e: "c @ ''|'' @ k = c' @ ''|'' @ k'"
  have "takeWhile (\<lambda>x. x \<noteq> CHR ''|'') (rev (c @ ''|'' @ k)) = rev k"
    using assms(1) by (simp add: bar_free_def takeWhile_append)
  moreover have "takeWhile (\<lambda>x. x \<noteq> CHR ''|'') (rev (c' @ ''|'' @ k')) = rev k'"
    using assms(2) by (simp add: bar_free_def takeWhile_append)
  ultimately have "k = k'" using e by (metis rev_rev_ident)
  then show "c = c' \<and> k = k'" using e by simp
qed simp

text \<open>The throttle table holds, for every source, the time its latest message passed.\<close>

definition records :: "throttle \<Rightarrow> history \<Rightarrow> bool" where
  "records l hist \<longleftrightarrow> (\<forall>c k. bar_free k \<longrightarrow> l (c @ ''|'' @ k) = map_of hist (c, k))"

lemma records_upd:
  "records l hist \<Longrightarrow> bar_free (nt_kind msg) \<Longrightarrow>
   records (l(throttle_key msg \<mapsto> now)) ((source_of msg, now) # hist)"
  by (auto simp: records_def throttle_key_def source_of_def bar_key_inj [simplified])

lemma latest_decides:
  assumes "sorted_wrt (\<ge>) (map snd (hist :: ('a \<times> int) list))"
  shows "list_all (\<lambda>(src, t). src = x \<longrightarrow> now - t \<ge> d) hist \<longleftrightarrow>
    (case map_of hist x of None \<Rightarrow> True | Some t \<Rightarrow> now - t \<ge> d)"
  using assms
proof (induction hist)
  case (Cons h hist)
  show ?case
  proof (cases "fst h = x")
    case True
    have "list_all (\<lambda>(src, t). src = x \<longrightarrow> now - t \<ge> d) hist" if "now - snd h \<ge> d"
    proof -
      have "t \<le> snd h" if "(src, t) \<in> set hist" for src t using Cons.prems that by (force simp: image_iff)
      then have "d \<le> now - t" if "(src, t) \<in> set hist" for src t
        using that \<open>now - snd h \<ge> d\<close> by fastforce
      then show ?thesis by (auto simp: list_all_iff)
    qed
    then show ?thesis using True by (cases h) auto
  next
    case False
    then show ?thesis using Cons by (cases h) auto
  qed
qed simp

lemma allow_due:
  assumes "records l hist" "sorted_wrt (\<ge>) (map snd hist)" "bar_free (nt_kind msg)"
    and "min_sec * 1000000000 < 2 ^ 63"
  shows "allow now msg min_sec l =
    (due_for min_sec now msg hist,
     if 0 < min_sec \<and> due_for min_sec now msg hist then l(throttle_key msg \<mapsto> now) else l)"
proof (cases "min_sec \<le> 0")
  case True
  then show ?thesis by (simp add: allow_def due_for_def)
next
  case False
  then have w: "wrap64 (min_sec * 1000000000) = min_sec * 1000000000"
    using assms(4) by (intro wrap64_id) auto
  have "l (throttle_key msg) = map_of hist (source_of msg)"
    using assms(1,3) by (simp add: records_def throttle_key_def source_of_def)
  then show ?thesis
    using False latest_decides [OF assms(2), where x = "source_of msg" and now = now and d = "min_sec * 1000000000"]
    by (simp add: allow_def due_for_def w split: option.split)
qed

lemma notify_passing:
  assumes "records l hist" "sorted_wrt (\<ge>) (map snd hist)" "bar_free (nt_kind msg)"
    and "min_interval_seconds cfg * 1000000000 < 2 ^ 63"
  shows "let p = nc_enabled cfg \<and> targets cfg msg \<noteq> [] \<and> due_for (min_interval_seconds cfg) now msg hist
    in fst (notify ok push cfg now msg l) = expected_all push cfg p (now, msg) \<and>
       (0 < min_interval_seconds cfg \<longrightarrow>
          records (snd (notify ok push cfg now msg l)) (if p then (source_of msg, now) # hist else hist)) \<and>
       (min_interval_seconds cfg \<le> 0 \<longrightarrow> snd (notify ok push cfg now msg l) = l)"
proof -
  note a = allow_due [OF assms(1,2,3,4), of now]
  have "allow now (stamped now msg) i l = allow now msg i l" for i
    by (simp only: allow_def stamp_source)
  then show ?thesis
    using a records_upd [OF assms(1,3), of now] assms(1)
    by (auto simp: notify_def Let_def stamped_if deliver_expected expected_all_def split: if_splits)
qed

lemma notify_all_passing:
  assumes "records l hist" "sorted_wrt (\<ge>) (map snd hist)" "list_all (\<lambda>m. bar_free (nt_kind (snd m))) ms"
    and "min_interval_seconds cfg * 1000000000 < 2 ^ 63" "0 < min_interval_seconds cfg"
    and "sorted (map fst ms)" "\<forall>h \<in> set hist. \<forall>m \<in> set ms. snd h \<le> fst m"
  shows "notify_all ok push cfg ms l = map2 (expected_all push cfg) (passing cfg hist ms) ms"
  using assms(1-3,6,7)
proof (induction ms arbitrary: l hist)
  case (Cons m ms)
  obtain now msg where m: "m = (now, msg)" by fastforce
  let ?p = "nc_enabled cfg \<and> targets cfg msg \<noteq> [] \<and> due_for (min_interval_seconds cfg) now msg hist"
  let ?h = "if ?p then (source_of msg, now) # hist else hist"
  have n: "fst (notify ok push cfg now msg l) = expected_all push cfg ?p (now, msg)"
    "records (snd (notify ok push cfg now msg l)) ?h"
    using notify_passing [OF Cons.prems(1,2), of msg cfg now ok push] Cons.prems(3) assms(4,5)
    by (simp_all add: m Let_def)
  have "notify_all ok push cfg ms (snd (notify ok push cfg now msg l)) =
      map2 (expected_all push cfg) (passing cfg ?h ms) ms"
    using Cons.prems(2-5) by (intro Cons.IH [OF n(2)]) (auto simp: m)
  then show ?case using n(1) by (simp add: m Let_def case_prod_unfold)
qed simp

lemma notify_all_unthrottled:
  assumes "min_interval_seconds cfg \<le> 0"
  shows "notify_all ok push cfg ms l = map2 (expected_all push cfg) (passing cfg hist ms) ms"
proof (induction ms arbitrary: hist l)
  case (Cons m ms)
  obtain now msg where m: "m = (now, msg)" by fastforce
  have "notify ok push cfg now msg l =
      (expected_all push cfg (nc_enabled cfg \<and> targets cfg msg \<noteq> [] \<and>
         due_for (min_interval_seconds cfg) now msg hist) (now, msg), l)"
    using assms by (auto simp: notify_def Let_def stamped_if allow_def due_for_def deliver_expected expected_all_def)
  then show ?case using Cons.IH by (simp add: m Let_def)
qed simp

text \<open>
  C40: whatever transports fail, a message is handed to every enabled channel that wants its kind,
  in the order of the configuration, exactly when no message of the same camera and kind that was
  handed out is younger than the interval; messages that no channel wants, and messages that were
  suppressed, do not count.
\<close>

theorem throttle_exact:
  assumes "list_all (\<lambda>m. bar_free (nt_kind (snd m))) ms" "sorted (map fst ms)"
    and "min_interval_seconds cfg * 1000000000 < 2 ^ 63"
  shows "notify_all ok push cfg ms Map.empty = map2 (expected_all push cfg) (passing cfg [] ms) ms"
proof (cases "0 < min_interval_seconds cfg")
  case True
  show ?thesis by (rule notify_all_passing) (use assms True in \<open>simp_all add: records_def\<close>)
next
  case False
  then show ?thesis by (intro notify_all_unthrottled) simp
qed

definition sample_channel :: "channel_type \<Rightarrow> string list \<Rightarrow> notify_channel" where
  "sample_channel t evs =
     \<lparr>ch_name = ''c'', ch_type = t, ch_enabled = True, ch_events = evs, ch_broker = [], ch_subject = []\<rparr>"

definition sample_notify :: notify_config where
  "sample_notify = \<lparr>nc_enabled = True, on_motion = True, on_camera_offline = False, min_interval_seconds = 60,
     nc_channels = [sample_channel ChannelEmail [], sample_channel ChannelWebhook [''offline'']], vapid_subject = []\<rparr>"

definition sample_note :: "string \<Rightarrow> notification" where
  "sample_note k = \<lparr>nt_kind = k, nt_camera = ''cam'', nt_name = ''door'', nt_time = Some 0\<rparr>"

text \<open>A second movement within the minute is suppressed, an offline alert in between is not.\<close>

theorem throttle_exact_witness:
  "notify_all (\<lambda>_. False) True sample_notify
     [(0, sample_note ''motion''), (1000, sample_note ''offline''), (2000, sample_note ''motion''),
      (60000000000, sample_note ''motion'')] Map.empty =
   [[(sample_channel ChannelEmail [], [], sample_note ''motion'')],
    [(sample_channel ChannelWebhook [''offline''], [], sample_note ''offline'')],
    [],
    [(sample_channel ChannelEmail [], [], sample_note ''motion'')]]"
  by (subst throttle_exact)
    (simp_all add: bar_free_def sample_note_def sample_notify_def sample_channel_def targets_def wants_kind_def
      due_for_def source_of_def expected_all_def expected_def stamped_def)

end
