(* ===== verification/Event_Store.thy ===== *)
theory Event_Store
  imports Complex_Main Prelude
begin

text \<open>
  The table of events (\<^verbatim>\<open>internal/database/event_store.go\<close>) with its statements over the list of
  rows, in milliseconds (0 is an unset time), and the interface the camera runtime uses.  The
  database may fail at any statement; \<open>up\<close> says which statements succeed.
\<close>

record event =
  e_id :: string
  e_camera :: string
  e_type :: string
  e_start :: int
  e_end :: int
  e_score :: rat
  e_created :: int

section \<open>Statements\<close>

text \<open>The identifier is the primary key and the camera a foreign key.\<close>

definition create_event :: "int \<Rightarrow> string set \<Rightarrow> event \<Rightarrow> event list \<Rightarrow> event list option" where
  "create_event now cams e rows =
     (let e1 = (if e_created e = 0 then e\<lparr>e_created := now\<rparr> else e);
          e2 = (if e_type e1 = [] then e1\<lparr>e_type := ''motion''\<rparr> else e1)
      in if e_id e \<in> e_id ` set rows \<or> e_camera e \<notin> cams then None else Some (rows @ [e2]))"

definition finalize_event :: "string \<Rightarrow> int \<Rightarrow> rat \<Rightarrow> event list \<Rightarrow> event list" where
  "finalize_event i t sc rows = map (\<lambda>e. if e_id e = i then e\<lparr>e_end := t, e_score := sc\<rparr> else e) rows"

record event_filter =
  ef_cameras :: "string list"
  ef_types :: "string list"
  ef_from :: "int option"
  ef_to :: "int option"
  ef_limit :: int

definition list_events :: "event_filter \<Rightarrow> event list \<Rightarrow> event list" where
  "list_events f rows =
     (let hits = filter (\<lambda>e. (ef_cameras f \<noteq> [] \<longrightarrow> e_camera e \<in> set (ef_cameras f)) \<and>
                   (ef_types f \<noteq> [] \<longrightarrow> e_type e \<in> set (ef_types f)) \<and>
                   (case ef_from f of None \<Rightarrow> True | Some t \<Rightarrow> t \<le> e_start e) \<and>
                   (case ef_to f of None \<Rightarrow> True | Some t \<Rightarrow> e_start e \<le> t)) rows;
          sorted = sort_key (\<lambda>e. - e_start e) hits
      in if ef_limit f > 0 then take (nat (ef_limit f)) sorted else sorted)"

definition delete_events_before :: "int \<Rightarrow> event list \<Rightarrow> int \<times> event list" where
  "delete_events_before cutoff rows =
     (int (length (filter (\<lambda>e. e_start e < cutoff) rows)), filter (\<lambda>e. \<not> e_start e < cutoff) rows)"

lemma finalize_ids [simp]: "map e_id (finalize_event i t sc rows) = map e_id rows"
  by (simp add: finalize_event_def)

lemma finalize_absent: "i \<notin> e_id ` set rows \<Longrightarrow> finalize_event i t sc rows = rows"
  by (auto simp: finalize_event_def intro!: map_idI)

lemma finalize_append [simp]:
  "finalize_event i t sc (rows @ rows') = finalize_event i t sc rows @ finalize_event i t sc rows'"
  by (simp add: finalize_event_def)

section \<open>The interface\<close>

record 's event_ops =
  op_create :: "int \<Rightarrow> event \<Rightarrow> 's \<Rightarrow> bool \<times> 's"
  op_finalize :: "string \<Rightarrow> int \<Rightarrow> rat \<Rightarrow> 's \<Rightarrow> bool \<times> 's"

text \<open>
  What the runtime needs of a store: the statements are the ones above; a failed one changes nothing.
  \<open>future\<close> is the fate of the statements to come.
\<close>

locale event_log =
  fixes ops :: "'s event_ops"
    and rows_of :: "'s \<Rightarrow> event list"
    and cams_of :: "'s \<Rightarrow> string set"
    and future :: "'s \<Rightarrow> nat \<Rightarrow> bool"
  assumes create_ok: "op_create ops now e s = (ok, s') \<Longrightarrow>
      ok \<longleftrightarrow> future s 0 \<and> create_event now (cams_of s) e (rows_of s) \<noteq> None"
    and create_rows: "op_create ops now e s = (ok, s') \<Longrightarrow>
      rows_of s' = (if ok then the (create_event now (cams_of s) e (rows_of s)) else rows_of s)"
    and create_rest: "op_create ops now e s = (ok, s') \<Longrightarrow>
      cams_of s' = cams_of s \<and> future s' = (\<lambda>n. future s (Suc n))"
    and finalize_ok: "op_finalize ops i t sc s = (ok, s') \<Longrightarrow> ok \<longleftrightarrow> future s 0"
    and finalize_rows: "op_finalize ops i t sc s = (ok, s') \<Longrightarrow>
      rows_of s' = (if ok then finalize_event i t sc (rows_of s) else rows_of s)"
    and finalize_rest: "op_finalize ops i t sc s = (ok, s') \<Longrightarrow>
      cams_of s' = cams_of s \<and> future s' = (\<lambda>n. future s (Suc n))"

section \<open>The database\<close>

record event_db =
  ev_rows :: "event list"
  ev_cameras :: "string set"
  ev_clock :: nat
  up :: "nat \<Rightarrow> bool"

definition ev_tick :: "event_db \<Rightarrow> event_db" where
  "ev_tick d = d\<lparr>ev_clock := Suc (ev_clock d)\<rparr>"

definition db_create :: "int \<Rightarrow> event \<Rightarrow> event_db \<Rightarrow> bool \<times> event_db" where
  "db_create now e d =
     (case (if up d (ev_clock d) then create_event now (ev_cameras d) e (ev_rows d) else None) of
        None \<Rightarrow> (False, ev_tick d)
      | Some rows \<Rightarrow> (True, ev_tick (d\<lparr>ev_rows := rows\<rparr>)))"

definition db_finalize :: "string \<Rightarrow> int \<Rightarrow> rat \<Rightarrow> event_db \<Rightarrow> bool \<times> event_db" where
  "db_finalize i t sc d =
     (if up d (ev_clock d) then (True, ev_tick (d\<lparr>ev_rows := finalize_event i t sc (ev_rows d)\<rparr>))
      else (False, ev_tick d))"

definition db_ops :: "event_db event_ops" where
  "db_ops = \<lparr>op_create = db_create, op_finalize = db_finalize\<rparr>"

interpretation evs: event_log db_ops ev_rows ev_cameras "\<lambda>d n. up d (ev_clock d + n)"
  by unfold_locales
    (auto simp: db_ops_def db_create_def db_finalize_def ev_tick_def split: option.splits if_splits)

end
