(* ===== verification/Mgr_Motion.thy ===== *)
theory Mgr_Motion
  imports Motion_Detect Event_Store Notify_Throttle
begin

text \<open>
  The motion and face callbacks of a camera runtime and the gate of its recorder
  (\<^verbatim>\<open>internal/manager/runtime.go\<close>), over the interface of the event store.  Times are nanoseconds; the
  fixed texts of the notifications are not modelled.
\<close>

section \<open>State and callbacks\<close>

datatype alert = Notified notification | HaMotion string bool

record 's cam_rt =
  rt_id :: string
  rt_name :: string
  motion_active :: bool
  motion_end_at :: "int option"
  motion_event_id :: string
  face_event_id :: string
  alerts :: "alert list"
  store :: 's

definition idle_rt :: "string \<Rightarrow> string \<Rightarrow> 's \<Rightarrow> 's cam_rt" where
  "idle_rt c nm s = \<lparr>rt_id = c, rt_name = nm, motion_active = False, motion_end_at = None,
     motion_event_id = [], face_event_id = [], alerts = [], store = s\<rparr>"

definition to_ms :: "int \<Rightarrow> int" where "to_ms t = t div 1000000"

text \<open>
  The surroundings of the runtime: whether notifications and Home Assistant are configured, a fresh
  identifier and the clock of the store for every callback.
\<close>

record rt_env =
  has_notifier :: bool
  notify_enabled :: bool
  has_ha :: bool

definition mgr_notify :: "rt_env \<Rightarrow> notification \<Rightarrow> alert list" where
  "mgr_notify env n = (if has_notifier env \<and> notify_enabled env then [Notified n] else [])"

definition ha_motion :: "rt_env \<Rightarrow> string \<Rightarrow> bool \<Rightarrow> alert list" where
  "ha_motion env c on = (if has_ha env then [HaMotion c on] else [])"

definition new_event :: "string \<Rightarrow> string \<Rightarrow> string \<Rightarrow> int \<Rightarrow> event" where
  "new_event i c typ t = \<lparr>e_id = i, e_camera = c, e_type = typ, e_start = to_ms t, e_end = 0, e_score = 0, e_created = 0\<rparr>"

definition on_motion_start :: "'s event_ops \<Rightarrow> rt_env \<Rightarrow> string \<Rightarrow> int \<Rightarrow> int \<Rightarrow> 's cam_rt \<Rightarrow> 's cam_rt" where
  "on_motion_start ops env i now t rt =
     (let rt1 = rt\<lparr>motion_active := True, motion_event_id := i\<rparr>;
          (_, s) = op_create ops now (new_event i (rt_id rt) ''motion'' t) (store rt1)
      in rt1\<lparr>store := s,
             alerts := alerts rt1 @
               mgr_notify env \<lparr>nt_kind = ''motion'', nt_camera = rt_id rt, nt_name = rt_name rt, nt_time = Some t\<rparr> @
               ha_motion env (rt_id rt) True\<rparr>)"

definition on_motion_end :: "'s event_ops \<Rightarrow> rt_env \<Rightarrow> int \<Rightarrow> rat \<Rightarrow> 's cam_rt \<Rightarrow> 's cam_rt" where
  "on_motion_end ops env t score rt =
     (let i = motion_event_id rt;
          rt1 = rt\<lparr>motion_active := False, motion_end_at := Some t, motion_event_id := []\<rparr>;
          s = (if i \<noteq> [] then snd (op_finalize ops i (to_ms t) score (store rt1)) else store rt1)
      in rt1\<lparr>store := s, alerts := alerts rt1 @ ha_motion env (rt_id rt) False\<rparr>)"

definition on_face_start :: "'s event_ops \<Rightarrow> rt_env \<Rightarrow> string \<Rightarrow> int \<Rightarrow> int \<Rightarrow> 's cam_rt \<Rightarrow> 's cam_rt" where
  "on_face_start ops env i now t rt =
     (let rt1 = rt\<lparr>face_event_id := i\<rparr>;
          (_, s) = op_create ops now (new_event i (rt_id rt) ''face'' t) (store rt1)
      in rt1\<lparr>store := s,
             alerts := alerts rt1 @
               mgr_notify env \<lparr>nt_kind = ''face'', nt_camera = rt_id rt, nt_name = rt_name rt, nt_time = Some t\<rparr>\<rparr>)"

definition on_face_end :: "'s event_ops \<Rightarrow> int \<Rightarrow> rat \<Rightarrow> 's cam_rt \<Rightarrow> 's cam_rt" where
  "on_face_end ops t score rt =
     (let i = face_event_id rt; rt1 = rt\<lparr>face_event_id := []\<rparr>
      in if i \<noteq> [] then rt1\<lparr>store := snd (op_finalize ops i (to_ms t) score (store rt1))\<rparr> else rt1)"

section \<open>The gate\<close>

definition motion_post_roll :: int where "motion_post_roll = 5000000000"

definition motion_gate :: "int \<Rightarrow> 's cam_rt \<Rightarrow> bool" where
  "motion_gate t rt \<longleftrightarrow>
     motion_active rt \<or> (case motion_end_at rt of None \<Rightarrow> False | Some e \<Rightarrow> t - e < motion_post_roll)"

text \<open>The detector's events run through the callbacks; each brings a fresh identifier and the clock.\<close>

fun run_motion :: "'s event_ops \<Rightarrow> rt_env \<Rightarrow> (string \<times> int) list \<Rightarrow> motion_event list \<Rightarrow> 's cam_rt \<Rightarrow> 's cam_rt" where
  "run_motion ops env ((i, now) # ids) (Started t # es) rt =
     run_motion ops env ids es (on_motion_start ops env i now t rt)"
| "run_motion ops env ids (Ended t sc # es) rt = run_motion ops env ids es (on_motion_end ops env t sc rt)"
| "run_motion ops env ids es rt = rt"

section \<open>The reference\<close>

text \<open>
  The rows that intervals of motion leave behind: \<open>f\<close> is the fate of the statements.  An event whose
  insertion fails is lost, one whose closing statement fails stays open.
\<close>

fun motion_rows :: "string \<Rightarrow> (nat \<Rightarrow> bool) \<Rightarrow> (string \<times> int) list \<Rightarrow> motion_event list \<Rightarrow> event list" where
  "motion_rows c f ((i, now) # ids) (Started t # Ended u sc # es) =
     (if f 0 then [\<lparr>e_id = i, e_camera = c, e_type = ''motion'', e_start = to_ms t,
                    e_end = (if f 1 then to_ms u else 0), e_score = (if f 1 then sc else 0), e_created = now\<rparr>]
      else []) @ motion_rows c (\<lambda>n. f (Suc (Suc n))) ids es"
| "motion_rows c f ids es = []"

text \<open>Whether the recorder is wanted at \<open>t\<close>: in an interval, or less than the post-roll after the last.\<close>

definition wanted_at :: "int \<Rightarrow> motion_event list \<Rightarrow> bool" where
  "wanted_at t es =
     (case rev es of [] \<Rightarrow> False | Started _ # _ \<Rightarrow> True | Ended u _ # _ \<Rightarrow> t - u < 5000000000)"

section \<open>Proofs over the interface\<close>

lemma alternating_cases:
  assumes "alternating False es"
  obtains "es = []" | t u sc es' where "es = Started t # Ended u sc # es'" "alternating False es'"
proof (cases es)
  case (Cons e es1)
  then obtain t where e: "e = Started t" "alternating True es1" using assms by (cases e) auto
  then obtain d es2 where es1: "es1 = d # es2" by (cases es1) auto
  then obtain u sc where "d = Ended u sc" "alternating False es2" using e by (cases d) auto
  then show thesis using that Cons e es1 by blast
qed (use that in blast)

context event_log
begin

lemma start_rows:
  assumes "i \<notin> e_id ` set (rows_of (store rt))" "rt_id rt \<in> cams_of (store rt)"
    and "rt' = on_motion_start ops env i now t rt"
  shows "rows_of (store rt') = rows_of (store rt) @
      (if future (store rt) 0 then [(new_event i (rt_id rt) ''motion'' t)\<lparr>e_created := now\<rparr>] else [])"
    and "cams_of (store rt') = cams_of (store rt)" "future (store rt') = (\<lambda>n. future (store rt) (Suc n))"
    and "rt_id rt' = rt_id rt" "motion_event_id rt' = i"
proof -
  obtain ok s where o: "op_create ops now (new_event i (rt_id rt) ''motion'' t) (store rt) = (ok, s)" by fastforce
  have s: "store rt' = s" using assms(3) o by (simp add: on_motion_start_def Let_def)
  have "create_event now (cams_of (store rt)) (new_event i (rt_id rt) ''motion'' t) (rows_of (store rt)) =
      Some (rows_of (store rt) @ [(new_event i (rt_id rt) ''motion'' t)\<lparr>e_created := now\<rparr>])"
    using assms(1,2) by (simp add: create_event_def Let_def new_event_def)
  then show "rows_of (store rt') = rows_of (store rt) @
      (if future (store rt) 0 then [(new_event i (rt_id rt) ''motion'' t)\<lparr>e_created := now\<rparr>] else [])"
    using create_ok [OF o] create_rows [OF o] s by simp
  show "cams_of (store rt') = cams_of (store rt)" "future (store rt') = (\<lambda>n. future (store rt) (Suc n))"
    using create_rest [OF o] s by simp_all
  show "rt_id rt' = rt_id rt" "motion_event_id rt' = i"
    using assms(3) o by (simp_all add: on_motion_start_def Let_def)
qed

lemma end_rows:
  assumes "motion_event_id rt = i" "i \<noteq> []" "rt' = on_motion_end ops env t sc rt"
  shows "rows_of (store rt') =
      (if future (store rt) 0 then finalize_event i (to_ms t) sc (rows_of (store rt)) else rows_of (store rt))"
    and "cams_of (store rt') = cams_of (store rt)" "future (store rt') = (\<lambda>n. future (store rt) (Suc n))"
    and "rt_id rt' = rt_id rt"
proof -
  obtain ok s where o: "op_finalize ops i (to_ms t) sc (store rt) = (ok, s)" by fastforce
  have s: "store rt' = s" using assms o by (simp add: on_motion_end_def Let_def)
  show "rows_of (store rt') =
      (if future (store rt) 0 then finalize_event i (to_ms t) sc (rows_of (store rt)) else rows_of (store rt))"
    using finalize_ok [OF o] finalize_rows [OF o] s by simp
  show "cams_of (store rt') = cams_of (store rt)" "future (store rt') = (\<lambda>n. future (store rt) (Suc n))"
    using finalize_rest [OF o] s by simp_all
  show "rt_id rt' = rt_id rt" using assms(3) by (simp add: on_motion_end_def Let_def)
qed

lemma run_rows:
  assumes "alternating False es" "distinct (map fst ids)" "length es \<le> length ids"
    and "fst ` set ids \<inter> e_id ` set (rows_of (store rt)) = {}" "[] \<notin> fst ` set ids"
    and "rt_id rt \<in> cams_of (store rt)"
  shows "rows_of (store (run_motion ops env ids es rt)) =
    rows_of (store rt) @ motion_rows (rt_id rt) (future (store rt)) ids es"
  using assms
proof (induction es arbitrary: ids rt rule: length_induct)
  case (1 es0)
  note prems = "1.prems"
  show ?case
  proof (cases rule: alternating_cases [OF prems(1)])
    case 1
    then show ?thesis by simp
  next
    case (2 t u sc es)
    then obtain i now ids' where ids: "ids = (i, now) # ids'" using prems(3) by (cases ids) auto
    define rt1 where "rt1 = on_motion_start ops env i now t rt"
    define rt2 where "rt2 = on_motion_end ops env u sc rt1"
    have i: "i \<notin> e_id ` set (rows_of (store rt))" "i \<noteq> []" "i \<notin> fst ` set ids'" using prems(2,4,5) by (auto simp: ids)
    note a = start_rows [OF i(1) prems(6) rt1_def]
    note b = end_rows [OF a(5) i(2) rt2_def]
    have f: "future (store rt2) = (\<lambda>n. future (store rt) (Suc (Suc n)))" using a(3) b(3) by simp
    have r: "rows_of (store rt2) = rows_of (store rt) @
        (if future (store rt) 0 then [\<lparr>e_id = i, e_camera = rt_id rt, e_type = ''motion'', e_start = to_ms t,
            e_end = (if future (store rt) 1 then to_ms u else 0),
            e_score = (if future (store rt) 1 then sc else 0), e_created = now\<rparr>] else [])"
      using b(1) a(1,3) finalize_absent [OF i(1)] by (simp add: new_event_def finalize_event_def)
    have "e_id ` set (rows_of (store rt2)) \<subseteq> insert i (e_id ` set (rows_of (store rt)))" unfolding r by auto
    then have "fst ` set ids' \<inter> e_id ` set (rows_of (store rt2)) = {}" using i(3) prems(4)
      by (simp only: ids list.set image_insert fst_conv) blast
    moreover have "rt_id rt2 \<in> cams_of (store rt2)" using a b prems(6) by simp
    ultimately have "rows_of (store (run_motion ops env ids' es rt2)) =
        rows_of (store rt2) @ motion_rows (rt_id rt2) (future (store rt2)) ids' es"
      using "1.IH" [rule_format, of es ids' rt2] 2 prems(1-3,5) by (simp add: ids)
    then show ?thesis using r f a(4) b(4) by (simp add: 2 ids flip: rt1_def rt2_def)
  qed
qed

end

lemma gate_last:
  assumes "length es \<le> length ids"
  shows "motion_gate t (run_motion ops env ids es rt) = (if es = [] then motion_gate t rt else wanted_at t es)"
  using assms
proof (induction es arbitrary: ids rt)
  case (Cons e es)
  then obtain i now ids' where ids: "ids = (i, now) # ids'" by (cases ids) auto
  have w: "wanted_at t (e # es) = wanted_at t es" if "es \<noteq> []"
    using that by (cases es rule: rev_cases) (auto simp: wanted_at_def)
  show ?case
  proof (cases e)
    case (Started v)
    have "motion_gate t (on_motion_start ops env i now v rt)"
      by (simp add: motion_gate_def on_motion_start_def Let_def case_prod_unfold)
    then show ?thesis using Cons.IH [of ids'] Cons.prems w by (simp add: ids Started wanted_at_def)
  next
    case (Ended v sc)
    have "motion_gate t (on_motion_end ops env v sc rt) \<longleftrightarrow> t - v < 5000000000"
      by (simp add: motion_gate_def on_motion_end_def Let_def motion_post_roll_def)
    then show ?thesis using Cons.IH [of ids] Cons.prems w by (simp add: ids Ended wanted_at_def)
  qed
qed simp


definition sample_frames :: "(byte list \<times> int \<times> int) list" where
  "sample_frames = [([0, 0], 0, 0), ([200, 0], 1000000, 1000000), ([200, 0], 6000000000, 6000000000)]"

definition sample_db :: event_db where
  "sample_db = \<lparr>ev_rows = [], ev_cameras = {''cam''}, ev_clock = 0, up = (\<lambda>_. True)\<rparr>"

definition sample_env :: rt_env where
  "sample_env = \<lparr>has_notifier = False, notify_enabled = False, has_ha = True\<rparr>"

lemma sample_ratios: "sensitivity_to_ratios 100 = (4 / 1000, 16 / 10000)"
  by (simp add: sensitivity_to_ratios_def Let_def)

lemma sample_intervals:
  "intervals (4 / 1000) (16 / 10000) 4000000000 0 (measures [0, 0] [([200, 0], 1000000, 1000000), ([200, 0], 6000000000, 6000000000)]) =
   [Started 1000000, Ended 6000000000 (1 / 2)]"
proof -
  have m: "measures [0, 0] [([200, 0], 1000000, 1000000), ([200, 0], 6000000000, 6000000000)] =
      [(1 / 2, 1000000, 1000000), (0, 6000000000, 6000000000)]"
    by (simp add: change_ratio_def pixel_changed_def pixel_delta_def)
  show ?thesis unfolding m
    by (simp add: intervals.simps quiet_at_def loud_time_def peak_of_def upt_conv_Cons)
qed


end
