(* ===== verification/Mgr_Traffic.thy ===== *)
theory Mgr_Traffic
  imports Complex_Main Prelude
begin

text \<open>
  Traffic accounting (\<^verbatim>\<open>sampleTraffic\<close> of \<^verbatim>\<open>internal/manager/manager.go\<close> over the counters of
  \<^verbatim>\<open>internal/netstat\<close>): the counters are 64-bit words and wrap.  A sample sees, for every camera, the
  stream it has (its identity is not looked at by the code) and the bytes this stream has received.
\<close>

section \<open>Counters and samples\<close>

record netstat =
  ingress :: u64
  egress :: u64

definition add_ingress :: "u64 \<Rightarrow> netstat \<Rightarrow> netstat" where
  "add_ingress n s = s\<lparr>ingress := ingress s + n\<rparr>"

definition add_egress :: "u64 \<Rightarrow> netstat \<Rightarrow> netstat" where
  "add_egress n s = s\<lparr>egress := egress s + n\<rparr>"

text \<open>\<^verbatim>\<open>Read\<close> and \<^verbatim>\<open>Write\<close> of a client connection, with the length the socket answered.\<close>

definition conn_read :: "int \<Rightarrow> netstat \<Rightarrow> netstat" where
  "conn_read n s = (if n > 0 then add_ingress (word_of_int n) s else s)"

definition conn_write :: "int \<Rightarrow> netstat \<Rightarrow> netstat" where
  "conn_write n s = (if n > 0 then add_egress (word_of_int n) s else s)"

record traffic =
  net :: netstat
  cam_last :: "string \<rightharpoonup> u64"
  last_ingress :: u64
  last_egress :: u64
  ingress_rate :: rat
  egress_rate :: rat

text \<open>The cameras of a sample: no stream, or the identity and the counter of the current one.\<close>

type_synonym cam_sample = "(string \<times> (nat \<times> u64) option) list"

definition current_bytes :: "cam_sample \<Rightarrow> (string \<times> u64) list" where
  "current_bytes cams = List.map_filter (\<lambda>(c, st). map_option (\<lambda>(sid, b). (c, b)) st) cams"

definition cam_delta :: "u64 \<Rightarrow> u64 \<Rightarrow> u64" where
  "cam_delta prev c = (if prev \<le> c then c - prev else c)"

definition sample_traffic :: "cam_sample \<Rightarrow> traffic \<Rightarrow> traffic" where
  "sample_traffic cams t =
     (let cur = current_bytes cams;
          delta = sum_list (map (\<lambda>(i, c). cam_delta (case cam_last t i of None \<Rightarrow> 0 | Some p \<Rightarrow> p) c) cur);
          n = add_ingress delta (net t)
      in t\<lparr>net := n, cam_last := map_of cur,
           ingress_rate := of_int (uint (ingress n - last_ingress t)) / 2,
           egress_rate := of_int (uint (egress n - last_egress t)) / 2,
           last_ingress := ingress n, last_egress := egress n\<rparr>)"

datatype net_event = ClientRead int | ClientWrite int | Sample cam_sample

fun net_do :: "net_event \<Rightarrow> traffic \<Rightarrow> traffic" where
  "net_do (ClientRead n) t = t\<lparr>net := conn_read n (net t)\<rparr>"
| "net_do (ClientWrite n) t = t\<lparr>net := conn_write n (net t)\<rparr>"
| "net_do (Sample cams) t = sample_traffic cams t"

definition net_run :: "net_event list \<Rightarrow> traffic \<Rightarrow> traffic" where
  "net_run es t = fold net_do es t"

definition no_traffic :: traffic where
  "no_traffic = \<lparr>net = \<lparr>ingress = 0, egress = 0\<rparr>, cam_last = Map.empty, last_ingress = 0, last_egress = 0,
     ingress_rate = 0, egress_rate = 0\<rparr>"

section \<open>The reference\<close>

text \<open>What the samples say about one camera, and what its streams received, told apart by identity.\<close>

fun seen_of :: "string \<Rightarrow> net_event list \<Rightarrow> (nat \<times> u64) option list" where
  "seen_of c [] = []"
| "seen_of c (Sample cams # es) = (case map_of cams c of None \<Rightarrow> None | Some st \<Rightarrow> st) # seen_of c es"
| "seen_of c (e # es) = seen_of c es"

fun received :: "(nat \<times> u64) option \<Rightarrow> (nat \<times> u64) option list \<Rightarrow> nat" where
  "received p [] = 0"
| "received p (None # os) = received None os"
| "received p (Some (sid, b) # os) =
     (case p of Some (sid', b') \<Rightarrow> if sid = sid' then unat b - unat b' else unat b | None \<Rightarrow> unat b) +
     received (Some (sid, b)) os"

text \<open>A stream's counter only grows; a replacement is visible when its counter is below the last one seen.\<close>

fun growing :: "(nat \<times> u64) option \<Rightarrow> (nat \<times> u64) option list \<Rightarrow> bool" where
  "growing p [] = True"
| "growing p (None # os) = growing None os"
| "growing p (Some (sid, b) # os) =
     ((case p of Some (sid', b') \<Rightarrow> sid = sid' \<longrightarrow> b' \<le> b | None \<Rightarrow> True) \<and> growing (Some (sid, b)) os)"

fun visible :: "(nat \<times> u64) option \<Rightarrow> (nat \<times> u64) option list \<Rightarrow> bool" where
  "visible p [] = True"
| "visible p (None # os) = visible None os"
| "visible p (Some (sid, b) # os) =
     ((case p of Some (sid', b') \<Rightarrow> sid \<noteq> sid' \<longrightarrow> b < b' \<or> b' = 0 | None \<Rightarrow> True) \<and> visible (Some (sid, b)) os)"

fun client_in :: "net_event list \<Rightarrow> nat" where
  "client_in [] = 0"
| "client_in (ClientRead n # es) = nat n + client_in es"
| "client_in (e # es) = client_in es"

section \<open>The sampler against the reference\<close>

fun folded :: "u64 option \<Rightarrow> (nat \<times> u64) option list \<Rightarrow> nat" where
  "folded p [] = 0"
| "folded p (None # os) = folded None os"
| "folded p (Some (sid, b) # os) =
     unat (cam_delta (case p of None \<Rightarrow> 0 | Some q \<Rightarrow> q) b) + folded (Some b) os"

lemma unat_cam_delta: "unat (cam_delta p b) = (if unat p \<le> unat b then unat b - unat p else unat b)"
  by (simp add: cam_delta_def word_le_nat_alt unat_sub)

lemma folded_le: "growing p os \<Longrightarrow> folded (map_option snd p) os \<le> received p os"
proof (induction p os rule: received.induct)
  case (3 p sid b os)
  then show ?case by (auto simp: unat_cam_delta word_le_nat_alt split: option.splits)
qed auto

lemma folded_eq: "growing p os \<Longrightarrow> visible p os \<Longrightarrow> folded (map_option snd p) os = received p os"
proof (induction p os rule: received.induct)
  case (3 p sid b os)
  then show ?case
    by (auto simp: unat_cam_delta word_le_nat_alt word_less_nat_alt split: option.splits)
qed auto

text \<open>One sample: the words added up are those of the cameras.\<close>

definition now_of :: "cam_sample \<Rightarrow> string \<Rightarrow> (nat \<times> u64) option" where
  "now_of cams c = (case map_of cams c of None \<Rightarrow> None | Some st \<Rightarrow> st)"

definition share :: "u64 option \<Rightarrow> (nat \<times> u64) option \<Rightarrow> nat" where
  "share p o' = (case o' of None \<Rightarrow> 0 | Some (sid, b) \<Rightarrow> unat (cam_delta (case p of None \<Rightarrow> 0 | Some q \<Rightarrow> q) b))"

lemma folded_Cons: "folded p (o' # os) = share p o' + folded (map_option snd o') os"
  by (cases o') (auto simp: share_def)

lemma current_bytes_Cons:
  "current_bytes ((c, st) # cams) = (case st of None \<Rightarrow> [] | Some (sid, b) \<Rightarrow> [(c, b)]) @ current_bytes cams"
  by (auto simp: current_bytes_def List.map_filter_def split: option.split)

lemma current_bytes_Nil [simp]: "current_bytes [] = []"
  by (simp add: current_bytes_def List.map_filter_def)

lemma map_of_current:
  "distinct (map fst cams) \<Longrightarrow> map_of (current_bytes cams) c = map_option snd (now_of cams c)"
proof (induction cams)
  case (Cons m cams)
  obtain c0 st where m: "m = (c0, st)" by fastforce
  have "now_of cams c0 = None" using Cons.prems by (simp add: m now_of_def map_of_eq_None_iff [THEN iffD2])
  then show ?case using Cons by (cases st) (auto simp: m current_bytes_Cons now_of_def)
qed (simp add: now_of_def)

lemma sum_current:
  fixes g :: "string \<Rightarrow> u64 \<Rightarrow> u64"
  assumes "distinct (map fst cams)" "fst ` set cams \<subseteq> C" "finite C"
  shows "sum_list (map (\<lambda>(i, c). g i c) (current_bytes cams)) =
    (\<Sum>c\<in>C. case now_of cams c of None \<Rightarrow> 0 | Some (sid, b) \<Rightarrow> g c b)"
  using assms
proof (induction cams)
  case (Cons m cams)
  obtain c0 st where m: "m = (c0, st)" by fastforce
  let ?v = "\<lambda>cams c. case now_of cams c of None \<Rightarrow> 0 | Some (sid, b) \<Rightarrow> g c b"
  have n0: "now_of cams c0 = None" using Cons.prems by (simp add: m now_of_def map_of_eq_None_iff [THEN iffD2])
  have c0: "c0 \<in> C" using Cons.prems by (simp add: m)
  have other: "(\<Sum>c\<in>C - {c0}. ?v (m # cams) c) = (\<Sum>c\<in>C - {c0}. ?v cams c)"
    by (rule sum.cong) (simp_all add: m now_of_def)
  have "(\<Sum>c\<in>C. ?v (m # cams) c) = ?v (m # cams) c0 + (\<Sum>c\<in>C. ?v cams c)"
    using sum.remove [OF Cons.prems(3) c0, of "?v (m # cams)"] sum.remove [OF Cons.prems(3) c0, of "?v cams"]
      other n0 by simp
  moreover have "now_of (m # cams) c0 = st" by (simp add: m now_of_def)
  ultimately show ?case using Cons by (cases st) (auto simp: m current_bytes_Cons)
qed (simp add: now_of_def)

lemma sample_ingress:
  assumes "distinct (map fst cams)" "fst ` set cams \<subseteq> C" "finite C"
  shows "ingress (net (sample_traffic cams t)) =
      ingress (net t) + of_nat (\<Sum>c\<in>C. share (cam_last t c) (now_of cams c))"
    and "cam_last (sample_traffic cams t) c = map_option snd (now_of cams c)"
proof -
  have "(\<Sum>c\<in>C. case now_of cams c of None \<Rightarrow> 0
            | Some (sid, b) \<Rightarrow> cam_delta (case cam_last t c of None \<Rightarrow> 0 | Some p \<Rightarrow> p) b) =
      of_nat (\<Sum>c\<in>C. share (cam_last t c) (now_of cams c))"
    unfolding of_nat_sum by (rule sum.cong) (auto simp: share_def split: option.split)
  then show "ingress (net (sample_traffic cams t)) =
      ingress (net t) + of_nat (\<Sum>c\<in>C. share (cam_last t c) (now_of cams c))"
    using sum_current [OF assms] by (simp add: sample_traffic_def Let_def add_ingress_def)
  show "cam_last (sample_traffic cams t) c = map_option snd (now_of cams c)"
    using map_of_current [OF assms(1)] by (simp add: sample_traffic_def Let_def)
qed

definition sampled :: "string set \<Rightarrow> net_event \<Rightarrow> bool" where
  "sampled C e = (case e of Sample cams \<Rightarrow> distinct (map fst cams) \<and> fst ` set cams \<subseteq> C | _ \<Rightarrow> True)"

lemma net_run_ingress:
  assumes "finite C" "list_all (sampled C) es"
  shows "ingress (net (net_run es t)) =
    ingress (net t) + of_nat (client_in es + (\<Sum>c\<in>C. folded (cam_last t c) (seen_of c es)))"
  using assms(2)
proof (induction es arbitrary: t)
  case (Cons e es)
  have ih: "ingress (net (net_run es u)) =
      ingress (net u) + of_nat (client_in es + (\<Sum>c\<in>C. folded (cam_last u c) (seen_of c es)))" for u
    using Cons by simp
  have run: "net_run (e # es) t = net_run es (net_do e t)" by (simp add: net_run_def)
  show ?case
  proof (cases e)
    case (ClientRead n)
    have "(word_of_int n :: u64) = of_nat (nat n)" if "n > 0" using that by simp
    then show ?thesis unfolding run ih by (simp add: ClientRead conn_read_def add_ingress_def)
  next
    case (ClientWrite n)
    then show ?thesis unfolding run ih by (simp add: conn_write_def add_egress_def)
  next
    case (Sample cams)
    then have d: "distinct (map fst cams)" "fst ` set cams \<subseteq> C" using Cons.prems by (simp_all add: sampled_def)
    have f: "folded (cam_last t c) (seen_of c (e # es)) =
        share (cam_last t c) (now_of cams c) + folded (map_option snd (now_of cams c)) (seen_of c es)" for c
      by (simp add: Sample folded_Cons flip: now_of_def)
    show ?thesis
      unfolding run ih f sum.distrib using sample_ingress [OF d assms(1)] by (simp add: Sample)
  qed
qed (simp add: net_run_def)


definition sample_day :: "net_event list" where
  "sample_day = [Sample [(''a'', Some (1, 500)), (''b'', None)], ClientRead 20,
     Sample [(''a'', Some (2, 100)), (''b'', Some (3, 7))], Sample [(''a'', Some (2, 150))]]"


text \<open>
  A replaced stream that has already received as much as the last sample of its predecessor is not
  noticed: of its bytes only the excess is counted.
\<close>

lemma hidden_replacement:
  "let es = [Sample [(''a'', Some (1, 500))], Sample [(''a'', Some (2, 800))]]
   in ingress (net (net_run es no_traffic)) = 800 \<and> received None (seen_of ''a'' es) = 1300"
  by (simp add: net_run_def no_traffic_def sample_traffic_def Let_def current_bytes_Cons add_ingress_def cam_delta_def)

end
