(* ===== verification/Mgr_Runtime.thy ===== *)
theory Mgr_Runtime
  imports Core_Stream
begin

text \<open>
  The camera manager (\<^verbatim>\<open>internal/manager/manager.go\<close>, \<^verbatim>\<open>runtime.go\<close>): one runtime per camera, the
  reconnect loop of pull cameras, RTMP publishers that attach to push cameras, the consumers of a
  stream and the shared live transcoder, and the lock \<^verbatim>\<open>m.mu\<close> that is held while a runtime is
  stopped.  Runtimes, streams, runs, consumers and transcoders are numbers (pointer identity) drawn
  from one counter.  A goroutine's progress is a field of the object it belongs to, so that every
  step below is what one goroutine does between two points where it may wait.
\<close>

section \<open>State\<close>

text \<open>Contexts are cancelled with all their descendants.\<close>

datatype ctx = MgrCtx | RtCtx nat | RunCtx nat nat | PushCtx nat

fun ancestors :: "ctx \<Rightarrow> ctx list" where
  "ancestors MgrCtx = [MgrCtx]"
| "ancestors (RtCtx r) = [RtCtx r, MgrCtx]"
| "ancestors (RunCtx r n) = [RunCtx r n, RtCtx r, MgrCtx]"
| "ancestors (PushCtx n) = [PushCtx n, MgrCtx]"

datatype source_type = SourceRTSP | SourceRTMP | SourceONVIF | SourceGB28181 | SourceOther string

record camera =
  cam_id :: string
  cam_name :: string
  cam_enabled :: bool
  source_type :: source_type
  url :: string
  username :: string
  password :: string
  transport :: string
  record_on :: bool
  motion_enabled :: bool
  record_mode :: string
  gb_device :: string
  gb_channel :: string

text \<open>Where the goroutine of \<^verbatim>\<open>supervise\<close> is, with its backoff in seconds; push cameras have none.\<close>

datatype loop =
    NotStarted
  | Passive
  | Top int
  | Dialing nat int
  | Connected nat nat int
  | Waiting int
  | Finished

record runtime =
  rt_camera :: camera
  rt_state :: source_state
  rt_err :: string
  rt_stream :: "nat option"
  rt_muxer :: "nat option"
  rt_live :: "(nat \<times> nat) option"
  push_cancel :: "nat option"
  rt_loop :: loop

datatype consumer_kind = HlsMuxer | MotionDetector | FaceDetector | CopyRecorder bool | TranscodeRecorder

datatype consumer_stage = Launched | Reading bool

text \<open>A consumer that adds its reader after the stream was closed reads \<open>late\<close>.\<close>

record consumer =
  co_rt :: nat
  co_stream :: nat
  co_ctx :: ctx
  co_kind :: consumer_kind
  co_stage :: consumer_stage

record pub =
  p_key :: string
  p_stream :: "nat option"

datatype lock = Free | Replacing camera nat | Stopping "nat list" | Draining nat "nat list"

datatype signal = HaAvailability string bool | HaRemove string | HaConfigure string | Offline string

record mgr =
  cams :: "string \<rightharpoonup> nat"
  rts :: "nat \<rightharpoonup> runtime"
  streams :: "nat \<rightharpoonup> track list"
  closed_streams :: "nat set"
  cancelled :: "ctx set"
  consumers :: "nat \<rightharpoonup> consumer"
  pubs :: "nat \<rightharpoonup> pub"
  closed_tcs :: "nat set"
  held :: lock
  fresh :: nat
  signals :: "signal list"

definition new_mgr :: mgr where
  "new_mgr = \<lparr>cams = Map.empty, rts = Map.empty, streams = Map.empty, closed_streams = {}, cancelled = {},
     consumers = Map.empty, pubs = Map.empty, closed_tcs = {}, held = Free, fresh = 0, signals = []\<rparr>"

definition ctx_done :: "mgr \<Rightarrow> ctx \<Rightarrow> bool" where
  "ctx_done m c \<longleftrightarrow> list_ex (\<lambda>a. a \<in> cancelled m) (ancestors c)"

definition upd_rt :: "nat \<Rightarrow> (runtime \<Rightarrow> runtime) \<Rightarrow> mgr \<Rightarrow> mgr" where
  "upd_rt r f m = m\<lparr>rts := (case rts m r of None \<Rightarrow> rts m | Some rt \<Rightarrow> (rts m)(r \<mapsto> f rt))\<rparr>"

definition close_str :: "nat \<Rightarrow> mgr \<Rightarrow> mgr" where
  "close_str s m = m\<lparr>closed_streams := insert s (closed_streams m)\<rparr>"

definition cancel_ctx :: "ctx \<Rightarrow> mgr \<Rightarrow> mgr" where
  "cancel_ctx c m = m\<lparr>cancelled := insert c (cancelled m)\<rparr>"

definition signal :: "signal \<Rightarrow> mgr \<Rightarrow> mgr" where
  "signal x m = m\<lparr>signals := signals m @ [x]\<rparr>"

definition set_loop :: "nat \<Rightarrow> loop \<Rightarrow> mgr \<Rightarrow> mgr" where
  "set_loop r l = upd_rt r (\<lambda>rt. rt\<lparr>rt_loop := l\<rparr>)"

definition set_state :: "nat \<Rightarrow> source_state \<Rightarrow> string \<Rightarrow> mgr \<Rightarrow> mgr" where
  "set_state r st msg = upd_rt r (\<lambda>rt. rt\<lparr>rt_state := st, rt_err := msg\<rparr>)"

definition rt_cam :: "nat \<Rightarrow> mgr \<Rightarrow> string" where
  "rt_cam r m = (case rts m r of None \<Rightarrow> [] | Some rt \<Rightarrow> cam_id (rt_camera rt))"

section \<open>Streams and consumers of a runtime\<close>

definition set_stream :: "nat \<Rightarrow> nat \<Rightarrow> mgr \<Rightarrow> mgr" where
  "set_stream r s m = signal (HaAvailability (rt_cam r m) True) (upd_rt r (\<lambda>rt. rt\<lparr>rt_stream := Some s\<rparr>) m)"

definition close_tc :: "(nat \<times> nat) option \<Rightarrow> mgr \<Rightarrow> mgr" where
  "close_tc tc m = (case tc of None \<Rightarrow> m | Some (k, s) \<Rightarrow> m\<lparr>closed_tcs := insert k (closed_tcs m)\<rparr>)"

definition clear_stream :: "nat \<Rightarrow> mgr \<Rightarrow> mgr" where
  "clear_stream r m =
     (let tc = (case rts m r of None \<Rightarrow> None | Some rt \<Rightarrow> rt_live rt)
      in signal (HaAvailability (rt_cam r m) False)
           (close_tc tc (upd_rt r (\<lambda>rt. rt\<lparr>rt_stream := None, rt_live := None\<rparr>) m)))"

record cons_env =
  motion_available :: bool
  face_realtime :: bool
  transcode_on :: bool
  transcode_available :: bool

text \<open>\<^verbatim>\<open>hls.New\<close> fails without a track it can mux.\<close>

definition hls_ok :: "track list \<Rightarrow> bool" where
  "hls_ok ts \<longleftrightarrow> list_ex (\<lambda>t. track_codec t \<noteq> CodecAAC \<or> audio_config t \<noteq> None) ts"

definition consumer_kinds :: "cons_env \<Rightarrow> camera \<Rightarrow> track list \<Rightarrow> consumer_kind list" where
  "consumer_kinds env cam ts =
     (let motion_mode = (record_mode cam = ''motion'');
          video = list_ex is_video ts;
          use_gate = (motion_mode \<and> motion_available env \<and> video)
      in (if hls_ok ts then [HlsMuxer] else []) @
         (if (motion_enabled cam \<or> motion_mode) \<and> motion_available env \<and> video then [MotionDetector] else []) @
         (if face_realtime env \<and> motion_available env \<and> video then [FaceDetector] else []) @
         (if record_on cam
          then [if transcode_on env \<and> \<not> use_gate \<and> transcode_available env then TranscodeRecorder else CopyRecorder use_gate]
          else []))"

definition launch :: "nat \<Rightarrow> ctx \<Rightarrow> nat \<Rightarrow> consumer_kind \<Rightarrow> mgr \<Rightarrow> mgr" where
  "launch r c s k m =
     (let m1 = m\<lparr>consumers := (consumers m)(fresh m \<mapsto>
                   \<lparr>co_rt = r, co_stream = s, co_ctx = c, co_kind = k, co_stage = Launched\<rparr>),
                 fresh := Suc (fresh m)\<rparr>
      in if k = HlsMuxer then upd_rt r (\<lambda>rt. rt\<lparr>rt_muxer := Some (fresh m)\<rparr>) m1 else m1)"

definition start_consumers :: "cons_env \<Rightarrow> nat \<Rightarrow> ctx \<Rightarrow> nat \<Rightarrow> mgr \<Rightarrow> mgr" where
  "start_consumers env r c s m =
     (case (rts m r, streams m s) of
        (Some rt, Some ts) \<Rightarrow> fold (launch r c s) (consumer_kinds env (rt_camera rt) ts) m
      | _ \<Rightarrow> m)"

text \<open>A consumer's goroutine: it adds its reader, and it ends with its stream or its context.\<close>

definition consumer_attach :: "nat \<Rightarrow> mgr \<Rightarrow> mgr option" where
  "consumer_attach k m =
     (case consumers m k of
        Some c \<Rightarrow> if co_stage c \<noteq> Launched then None
                  else Some (m\<lparr>consumers := (consumers m)(k \<mapsto> c\<lparr>co_stage := Reading (co_stream c \<in> closed_streams m)\<rparr>)\<rparr>)
      | None \<Rightarrow> None)"

definition consumer_exit :: "nat \<Rightarrow> mgr \<Rightarrow> mgr option" where
  "consumer_exit k m =
     (case consumers m k of
        Some c \<Rightarrow>
          if (co_stage c = Reading False \<and> co_stream c \<in> closed_streams m) \<or> (co_stage c \<noteq> Launched \<and> ctx_done m (co_ctx c))
          then (let m1 = m\<lparr>consumers := (consumers m)(k := None)\<rparr>
                in Some (if co_kind c = HlsMuxer then upd_rt (co_rt c) (\<lambda>rt. rt\<lparr>rt_muxer := None\<rparr>) m1 else m1))
          else None
      | None \<Rightarrow> None)"

section \<open>The reconnect loop\<close>

definition max_backoff :: int where "max_backoff = 30"

datatype pull_source = RtspSource string string string string | OnvifSource string string | GbSource string string

text \<open>\<open>gb\<close>: whether the GB28181 platform runs; \<open>def_transport\<close>: the transport of the system settings.\<close>

definition rtsp_transport :: "string \<Rightarrow> camera \<Rightarrow> string" where
  "rtsp_transport def_transport cam =
     (if transport cam \<noteq> [] then transport cam
      else if def_transport \<noteq> [] \<and> def_transport \<noteq> ''automatic'' then def_transport
      else [])"

definition build_pull_source :: "bool \<Rightarrow> string \<Rightarrow> camera \<Rightarrow> pull_source option" where
  "build_pull_source gb def_transport cam =
     (case source_type cam of
        SourceRTSP \<Rightarrow> Some (RtspSource (url cam) (username cam) (password cam) (rtsp_transport def_transport cam))
      | SourceONVIF \<Rightarrow> Some (OnvifSource (cam_id cam) (rtsp_transport def_transport cam))
      | SourceGB28181 \<Rightarrow>
          if gb then Some (GbSource (gb_device cam) (if gb_channel cam = [] then gb_device cam else gb_channel cam)) else None
      | _ \<Rightarrow> None)"

definition sup_top :: "bool \<Rightarrow> string \<Rightarrow> nat \<Rightarrow> mgr \<Rightarrow> mgr option" where
  "sup_top gb def_transport r m =
     (case rts m r of
        Some rt \<Rightarrow>
          (case rt_loop rt of
             Top b \<Rightarrow>
               if ctx_done m (RtCtx r) then Some (set_loop r Finished (set_state r StateIdle [] m))
               else if build_pull_source gb def_transport (rt_camera rt) = None
               then Some (set_loop r Finished (set_state r StateError ''unsupported source type'' m))
               else Some (set_loop r (Dialing (fresh m) b) (set_state r StateConnecting [] (m\<lparr>fresh := Suc (fresh m)\<rparr>)))
           | _ \<Rightarrow> None)
      | None \<Rightarrow> None)"

text \<open>The source delivers its stream; \<open>Select\<close> may take it even when the context is done already.\<close>

definition sup_ready :: "cons_env \<Rightarrow> track list \<Rightarrow> nat \<Rightarrow> mgr \<Rightarrow> mgr option" where
  "sup_ready env ts r m =
     (case rts m r of
        Some rt \<Rightarrow>
          (case rt_loop rt of
             Dialing n b \<Rightarrow>
               (let s = fresh m;
                    m1 = m\<lparr>streams := (streams m)(s \<mapsto> ts), fresh := Suc s\<rparr>
                in Some (set_loop r (Connected n s 1)
                     (start_consumers env r (RunCtx r n) s (set_state r StateRunning [] (set_stream r s m1)))))
           | _ \<Rightarrow> None)
      | None \<Rightarrow> None)"

text \<open>The source ends with an error text (empty without an error).\<close>

definition sup_err :: "string \<Rightarrow> nat \<Rightarrow> mgr \<Rightarrow> mgr option" where
  "sup_err err r m =
     (case rts m r of
        Some rt \<Rightarrow>
          (case rt_loop rt of
             Dialing n b \<Rightarrow> Some (set_loop r (Waiting b) (set_state r StateError err (cancel_ctx (RunCtx r n) m)))
           | Connected n s b \<Rightarrow>
               (let m1 = cancel_ctx (RunCtx r n) (clear_stream r (close_str s m))
                in Some (set_loop r (Waiting b)
                     (if ctx_done m1 (RtCtx r) then m1
                      else signal (Offline (cam_id (rt_camera rt))) (set_state r StateError err m1))))
           | _ \<Rightarrow> None)
      | None \<Rightarrow> None)"

definition sup_cancelled :: "nat \<Rightarrow> mgr \<Rightarrow> mgr option" where
  "sup_cancelled r m =
     (case rts m r of
        Some rt \<Rightarrow>
          if \<not> ctx_done m (RtCtx r) then None
          else (case rt_loop rt of
             Dialing n b \<Rightarrow> Some (set_loop r Finished (set_state r StateIdle [] (cancel_ctx (RunCtx r n) m)))
           | Waiting b \<Rightarrow> Some (set_loop r Finished (set_state r StateIdle [] m))
           | _ \<Rightarrow> None)
      | None \<Rightarrow> None)"

definition next_backoff :: "int \<Rightarrow> int" where
  "next_backoff b = (if b < max_backoff then b * 2 else b)"

definition sup_timer :: "nat \<Rightarrow> mgr \<Rightarrow> mgr option" where
  "sup_timer r m =
     (case rts m r of
        Some rt \<Rightarrow> (case rt_loop rt of Waiting b \<Rightarrow> Some (set_loop r (Top (next_backoff b)) m) | _ \<Rightarrow> None)
      | None \<Rightarrow> None)"

section \<open>Push cameras\<close>

definition detach_push :: "nat \<Rightarrow> mgr \<Rightarrow> mgr" where
  "detach_push r m =
     (case rts m r of
        None \<Rightarrow> m
      | Some rt \<Rightarrow>
          (let m1 = upd_rt r (\<lambda>rt. rt\<lparr>push_cancel := None\<rparr>) m;
               m2 = (case push_cancel rt of None \<Rightarrow> m1 | Some n \<Rightarrow> cancel_ctx (PushCtx n) m1);
               m3 = (case rt_stream rt of None \<Rightarrow> m2 | Some s \<Rightarrow> close_str s m2)
           in set_state r StateConnecting [] (clear_stream r m3)))"

definition attach_push :: "cons_env \<Rightarrow> nat \<Rightarrow> nat \<Rightarrow> mgr \<Rightarrow> mgr" where
  "attach_push env r s m =
     (let m1 = detach_push r m; n = fresh m1;
          m2 = upd_rt r (\<lambda>rt. rt\<lparr>push_cancel := Some n\<rparr>) (m1\<lparr>fresh := Suc n\<rparr>)
      in start_consumers env r (PushCtx n) s (set_state r StateRunning [] (set_stream r s m2)))"

definition on_publish_start :: "cons_env \<Rightarrow> string \<Rightarrow> nat \<Rightarrow> mgr \<Rightarrow> bool \<times> mgr" where
  "on_publish_start env key s m =
     (case Option.bind (cams m key) (\<lambda>r. map_option (\<lambda>rt. (r, rt)) (rts m r)) of
        None \<Rightarrow> (False, m)
      | Some (r, rt) \<Rightarrow> if source_type (rt_camera rt) \<noteq> SourceRTMP then (False, m) else (True, attach_push env r s m))"

definition on_publish_stop :: "string \<Rightarrow> mgr \<Rightarrow> mgr" where
  "on_publish_stop key m = (case cams m key of None \<Rightarrow> m | Some r \<Rightarrow> detach_push r m)"

text \<open>The publisher's connection: \<^verbatim>\<open>publish\<close> offers a new stream, \<^verbatim>\<open>OnClose\<close> ends it.\<close>

definition pub_publish :: "cons_env \<Rightarrow> track list \<Rightarrow> nat \<Rightarrow> mgr \<Rightarrow> mgr option" where
  "pub_publish env ts p m =
     (case pubs m p of
        Some q \<Rightarrow>
          if held m \<noteq> Free \<or> p_stream q \<noteq> None then None
          else (let s = fresh m;
                    m1 = m\<lparr>streams := (streams m)(s \<mapsto> ts), fresh := Suc s\<rparr>
                in case on_publish_start env (p_key q) s m1 of
                     (False, m2) \<Rightarrow> Some (close_str s m2)
                   | (True, m2) \<Rightarrow> Some (m2\<lparr>pubs := (pubs m2)(p \<mapsto> q\<lparr>p_stream := Some s\<rparr>)\<rparr>))
      | None \<Rightarrow> None)"

definition pub_close :: "nat \<Rightarrow> mgr \<Rightarrow> mgr option" where
  "pub_close p m =
     (case pubs m p of
        Some q \<Rightarrow>
          (case p_stream q of
             None \<Rightarrow> Some (m\<lparr>pubs := (pubs m)(p := None)\<rparr>)
           | Some s \<Rightarrow> if held m \<noteq> Free then None
                       else Some ((close_str s (on_publish_stop (p_key q) m))\<lparr>pubs := (pubs m)(p := None)\<rparr>))
      | None \<Rightarrow> None)"

section \<open>The live transcoder of a runtime\<close>

text \<open>\<^verbatim>\<open>liveStream\<close>: the stream, and the transcoder to acquire when there is one.\<close>

definition live_stream :: "bool \<Rightarrow> nat \<Rightarrow> mgr \<Rightarrow> (nat \<times> nat option) option \<times> mgr" where
  "live_stream has_encoder r m =
     (case Option.bind (rts m r) (\<lambda>rt. map_option (\<lambda>s. (rt, s)) (rt_stream rt)) of
        None \<Rightarrow> (None, m)
      | Some (rt, s) \<Rightarrow>
          (case Option.bind (streams m s) (List.find is_video) of
             None \<Rightarrow> (Some (s, None), m)
           | Some v \<Rightarrow>
               if track_codec v = CodecH264 \<or> \<not> has_encoder then (Some (s, None), m)
               else (case rt_live rt of
                       Some (k, s') \<Rightarrow>
                         if s' = s then (Some (s, Some k), m)
                         else (Some (s, Some (fresh m)),
                               upd_rt r (\<lambda>rt. rt\<lparr>rt_live := Some (fresh m, s)\<rparr>)
                                 ((close_tc (rt_live rt) m)\<lparr>fresh := Suc (fresh m)\<rparr>))
                     | None \<Rightarrow> (Some (s, Some (fresh m)),
                               upd_rt r (\<lambda>rt. rt\<lparr>rt_live := Some (fresh m, s)\<rparr>) (m\<lparr>fresh := Suc (fresh m)\<rparr>)))))"

section \<open>Cameras come and go\<close>

text \<open>\<^verbatim>\<open>stop\<close> up to its final wait, which ends when the runtime is quiet.\<close>

definition stop_begin :: "nat \<Rightarrow> mgr \<Rightarrow> mgr" where
  "stop_begin r m =
     (case rts m r of
        None \<Rightarrow> m
      | Some rt \<Rightarrow>
          (let m1 = (if rt_loop rt = NotStarted then m else cancel_ctx (RtCtx r) m);
               m2 = (case rt_stream rt of None \<Rightarrow> m1 | Some s \<Rightarrow> close_str s m1)
           in close_tc (rt_live rt) (upd_rt r (\<lambda>rt. rt\<lparr>rt_live := None\<rparr>) m2)))"

definition quiet :: "nat \<Rightarrow> mgr \<Rightarrow> bool" where
  "quiet r m \<longleftrightarrow>
     (\<forall>rt. rts m r = Some rt \<longrightarrow> rt_loop rt \<in> {NotStarted, Passive, Finished}) \<and>
     (\<forall>k c. consumers m k = Some c \<longrightarrow> co_rt c \<noteq> r)"

definition create_rt :: "camera \<Rightarrow> mgr \<Rightarrow> mgr" where
  "create_rt cam m =
     m\<lparr>rts := (rts m)(fresh m \<mapsto> \<lparr>rt_camera = cam, rt_state = StateIdle, rt_err = [], rt_stream = None,
                 rt_muxer = None, rt_live = None, push_cancel = None, rt_loop = NotStarted\<rparr>),
       cams := (cams m)(cam_id cam \<mapsto> fresh m), fresh := Suc (fresh m)\<rparr>"

text \<open>\<^verbatim>\<open>rt.start\<close>, which \<^verbatim>\<open>startCamera\<close> calls after it has released the lock.\<close>

definition rt_start :: "nat \<Rightarrow> mgr \<Rightarrow> mgr" where
  "rt_start r m =
     (case rts m r of
        None \<Rightarrow> m
      | Some rt \<Rightarrow> if source_type (rt_camera rt) = SourceRTMP
                   then set_loop r Passive (set_state r StateConnecting [] m)
                   else set_loop r (Top 1) m)"

text \<open>
  \<^verbatim>\<open>startCamera\<close>: with a runtime of that camera the lock is kept until it is quiet.  The two halves of
  its second part, under and after the lock, are one step here; \<open>racing_starts\<close> in \<open>Mgr_Races\<close> takes them apart.
\<close>

definition start_new :: "camera \<Rightarrow> mgr \<Rightarrow> mgr" where
  "start_new cam m = rt_start (fresh m) (create_rt cam m)"

definition start_camera :: "camera \<Rightarrow> mgr \<Rightarrow> mgr option" where
  "start_camera cam m =
     (if held m \<noteq> Free then None
      else case cams m (cam_id cam) of
             None \<Rightarrow> Some (start_new cam m)
           | Some r \<Rightarrow> Some ((stop_begin r m)\<lparr>held := Replacing cam r\<rparr>))"

definition start_camera_done :: "mgr \<Rightarrow> mgr option" where
  "start_camera_done m =
     (case held m of
        Replacing cam r \<Rightarrow>
          if quiet r m then Some (start_new cam (m\<lparr>held := Free, cams := (cams m)(cam_id cam := None)\<rparr>)) else None
      | _ \<Rightarrow> None)"

definition remove_camera :: "string \<Rightarrow> mgr \<Rightarrow> mgr option" where
  "remove_camera c m =
     (if held m \<noteq> Free then None
      else case cams m c of
             None \<Rightarrow> Some (signal (HaRemove c) m)
           | Some r \<Rightarrow> Some (signal (HaRemove c) (stop_begin r (m\<lparr>cams := (cams m)(c := None)\<rparr>))))"

definition apply_camera :: "camera \<Rightarrow> mgr \<Rightarrow> mgr option" where
  "apply_camera cam m =
     (if cam_enabled cam then start_camera cam (signal (HaConfigure (cam_id cam)) m)
      else remove_camera (cam_id cam) m)"

text \<open>\<^verbatim>\<open>Stop\<close>: the context goes first, then one runtime after the other in the order of the map.\<close>

definition stop_all :: "nat list \<Rightarrow> mgr \<Rightarrow> mgr option" where
  "stop_all order m =
     (if held m \<noteq> Free \<or> set order \<noteq> ran (cams m) then None
      else Some ((cancel_ctx MgrCtx m)\<lparr>held := Stopping order\<rparr>))"

definition stop_next :: "mgr \<Rightarrow> mgr option" where
  "stop_next m =
     (case held m of
        Stopping [] \<Rightarrow> Some (m\<lparr>held := Free\<rparr>)
      | Stopping (r # rs) \<Rightarrow> Some ((stop_begin r m)\<lparr>held := Draining r rs\<rparr>)
      | Draining r rs \<Rightarrow> if quiet r m then Some (m\<lparr>held := Stopping rs\<rparr>) else None
      | _ \<Rightarrow> None)"

text \<open>Every running GB28181 camera is started again after the platform was swapped.\<close>

definition gb_cameras :: "nat list \<Rightarrow> mgr \<Rightarrow> camera list" where
  "gb_cameras order m =
     filter (\<lambda>c. source_type c = SourceGB28181) (map rt_camera (List.map_filter (rts m) order))"

section \<open>Status\<close>

record camera_status =
  st_id :: string
  st_state :: source_state
  st_error :: string
  st_live :: bool
  st_recording :: bool
  st_tracks :: "(media_kind \<times> codec) list"

definition rt_status :: "mgr \<Rightarrow> runtime \<Rightarrow> camera_status" where
  "rt_status m rt =
     \<lparr>st_id = cam_id (rt_camera rt), st_state = rt_state rt, st_error = rt_err rt,
      st_live = (rt_stream rt \<noteq> None), st_recording = (record_on (rt_camera rt) \<and> rt_stream rt \<noteq> None),
      st_tracks = (case Option.bind (rt_stream rt) (streams m) of None \<Rightarrow> [] | Some ts \<Rightarrow> map (\<lambda>t. (kind t, track_codec t)) ts)\<rparr>"

definition status_of :: "string \<Rightarrow> mgr \<Rightarrow> camera_status" where
  "status_of c m =
     (case Option.bind (cams m c) (rts m) of
        None \<Rightarrow> \<lparr>st_id = c, st_state = StateIdle, st_error = [], st_live = False, st_recording = False, st_tracks = []\<rparr>
      | Some rt \<Rightarrow> rt_status m rt)"

section \<open>Runs\<close>

datatype mgr_op =
    Apply camera
  | Start camera
  | Started
  | Remove string
  | StopAll "nat list"
  | StopNext
  | SupTop bool string nat
  | SupReady cons_env "track list" nat
  | SupErr string nat
  | SupCancelled nat
  | SupTimer nat
  | Connect string
  | Publish cons_env "track list" nat
  | PubClose nat
  | ConsumerAttach nat
  | ConsumerExit nat
  | Live bool nat

fun mgr_do :: "mgr_op \<Rightarrow> mgr \<Rightarrow> mgr option" where
  "mgr_do (Apply cam) m = apply_camera cam m"
| "mgr_do (Start cam) m = start_camera cam m"
| "mgr_do Started m = start_camera_done m"
| "mgr_do (Remove c) m = remove_camera c m"
| "mgr_do (StopAll order) m = stop_all order m"
| "mgr_do StopNext m = stop_next m"
| "mgr_do (SupTop gb t r) m = sup_top gb t r m"
| "mgr_do (SupReady env ts r) m = sup_ready env ts r m"
| "mgr_do (SupErr e r) m = sup_err e r m"
| "mgr_do (SupCancelled r) m = sup_cancelled r m"
| "mgr_do (SupTimer r) m = sup_timer r m"
| "mgr_do (Connect key) m = Some (m\<lparr>pubs := (pubs m)(fresh m \<mapsto> \<lparr>p_key = key, p_stream = None\<rparr>), fresh := Suc (fresh m)\<rparr>)"
| "mgr_do (Publish env ts p) m = pub_publish env ts p m"
| "mgr_do (PubClose p) m = pub_close p m"
| "mgr_do (ConsumerAttach k) m = consumer_attach k m"
| "mgr_do (ConsumerExit k) m = consumer_exit k m"
| "mgr_do (Live enc r) m = Some (snd (live_stream enc r m))"

fun mgr_run :: "mgr_op list \<Rightarrow> mgr \<Rightarrow> mgr option" where
  "mgr_run [] m = Some m"
| "mgr_run (x # xs) m = (case mgr_do x m of None \<Rightarrow> None | Some m1 \<Rightarrow> mgr_run xs m1)"

section \<open>What the properties speak about\<close>

text \<open>
  The view forgets states, errors, muxers, transcoders and signals; of the contexts it keeps those of
  the runtimes and of the manager.
\<close>

record view =
  v_cams :: "string \<rightharpoonup> nat"
  v_cam :: "nat \<rightharpoonup> camera"
  v_loop :: "nat \<rightharpoonup> loop"
  v_hold :: "nat \<rightharpoonup> nat"
  v_streams :: "nat set"
  v_closed :: "nat set"
  v_torn :: "nat set"
  v_down :: bool
  v_cons :: "nat \<rightharpoonup> (nat \<times> nat \<times> ctx \<times> consumer_kind)"
  v_pubs :: "nat \<rightharpoonup> pub"
  v_held :: lock
  v_fresh :: nat

definition view_of :: "mgr \<Rightarrow> view" where
  "view_of m = \<lparr>v_cams = cams m,
     v_cam = (\<lambda>r. map_option rt_camera (rts m r)),
     v_loop = (\<lambda>r. map_option rt_loop (rts m r)),
     v_hold = (\<lambda>r. Option.bind (rts m r) rt_stream),
     v_streams = dom (streams m), v_closed = closed_streams m,
     v_torn = {r. RtCtx r \<in> cancelled m}, v_down = (MgrCtx \<in> cancelled m),
     v_cons = (\<lambda>k. map_option (\<lambda>c. (co_rt c, co_stream c, co_ctx c, co_kind c)) (consumers m k)),
     v_pubs = pubs m, v_held = held m, v_fresh = fresh m\<rparr>"

lemma dom_upd_rt [simp]: "dom (rts (upd_rt r f m)) = dom (rts m)"
  by (auto simp: upd_rt_def split: option.split)

lemma dom_rts [simp]:
  "dom (rts (set_loop r l m)) = dom (rts m)" "dom (rts (set_state r st e m)) = dom (rts m)"
  "dom (rts (signal x m)) = dom (rts m)" "dom (rts (close_str s m)) = dom (rts m)"
  "dom (rts (cancel_ctx c m)) = dom (rts m)" "dom (rts (set_stream r s m)) = dom (rts m)"
  "dom (rts (close_tc tc m)) = dom (rts m)" "dom (rts (clear_stream r m)) = dom (rts m)"
  by (simp_all add: set_loop_def set_state_def signal_def close_str_def cancel_ctx_def set_stream_def
      close_tc_def clear_stream_def Let_def split: option.split prod.split)

lemma view_upd_same:
  assumes "\<And>rt. rt_camera (f rt) = rt_camera rt" "\<And>rt. rt_loop (f rt) = rt_loop rt" "\<And>rt. rt_stream (f rt) = rt_stream rt"
  shows "view_of (upd_rt r f m) = view_of m"
  using assms by (auto simp: view_of_def upd_rt_def fun_eq_iff split: option.split)

lemma view_same [simp]:
  "view_of (set_state r st e m) = view_of m" "view_of (signal x m) = view_of m" "view_of (close_tc tc m) = view_of m"
  "view_of (upd_rt r (\<lambda>rt. rt\<lparr>rt_live := lv\<rparr>) m) = view_of m" "view_of (upd_rt r (\<lambda>rt. rt\<lparr>rt_muxer := x'\<rparr>) m) = view_of m"
  "view_of (upd_rt r (\<lambda>rt. rt\<lparr>push_cancel := pc\<rparr>) m) = view_of m"
  unfolding set_state_def by (simp_all add: view_upd_same)
    (simp_all add: view_of_def signal_def close_tc_def split: option.split prod.split)

lemma view_close [simp]: "view_of (close_str s m) = (view_of m)\<lparr>v_closed := insert s (v_closed (view_of m))\<rparr>"
  by (simp add: view_of_def close_str_def)

lemma view_cancel [simp]:
  "view_of (cancel_ctx (RtCtx r) m) = (view_of m)\<lparr>v_torn := insert r (v_torn (view_of m))\<rparr>"
  "view_of (cancel_ctx MgrCtx m) = (view_of m)\<lparr>v_down := True\<rparr>"
  "view_of (cancel_ctx (RunCtx r n) m) = view_of m" "view_of (cancel_ctx (PushCtx n) m) = view_of m"
  by (auto simp: view_of_def cancel_ctx_def)

lemma view_rt [simp]:
  assumes "r \<in> dom (rts m)"
  shows "view_of (set_loop r l m) = (view_of m)\<lparr>v_loop := (v_loop (view_of m))(r \<mapsto> l)\<rparr>"
    and "view_of (set_stream r s m) = (view_of m)\<lparr>v_hold := (v_hold (view_of m))(r \<mapsto> s)\<rparr>"
    and "view_of (clear_stream r m) = (view_of m)\<lparr>v_hold := (v_hold (view_of m))(r := None)\<rparr>"
  using assms
  by (auto simp: view_of_def set_loop_def set_stream_def clear_stream_def upd_rt_def signal_def close_tc_def Let_def
      fun_eq_iff split: option.split prod.split)

lemma view_fresh [simp]: "view_of (m\<lparr>fresh := n\<rparr>) = (view_of m)\<lparr>v_fresh := n\<rparr>"
  by (simp add: view_of_def)

lemma view_stream [simp]:
  "view_of (m\<lparr>streams := (streams m)(s \<mapsto> ts)\<rparr>) = (view_of m)\<lparr>v_streams := insert s (v_streams (view_of m))\<rparr>"
  by (simp add: view_of_def)

lemma view_held [simp]: "view_of (m\<lparr>held := l\<rparr>) = (view_of m)\<lparr>v_held := l\<rparr>"
  by (simp add: view_of_def)

lemma view_pubs [simp]: "view_of (m\<lparr>pubs := ps\<rparr>) = (view_of m)\<lparr>v_pubs := ps\<rparr>"
  by (simp add: view_of_def)

lemma view_launch:
  "view_of (launch r c s k m) =
     (view_of m)\<lparr>v_cons := (v_cons (view_of m))(fresh m \<mapsto> (r, s, c, k)), v_fresh := Suc (fresh m)\<rparr>"
  by (auto simp: launch_def Let_def) (auto simp: view_of_def)

text \<open>All consumers of a stream at once.\<close>

definition add_cons :: "nat \<Rightarrow> ctx \<Rightarrow> nat \<Rightarrow> consumer_kind list \<Rightarrow> view \<Rightarrow> view" where
  "add_cons r c s ks v = v\<lparr>v_cons := (\<lambda>k. if v_fresh v \<le> k \<and> k < v_fresh v + length ks
                                       then Some (r, s, c, ks ! (k - v_fresh v)) else v_cons v k),
     v_fresh := v_fresh v + length ks\<rparr>"

lemma launch_same [simp]:
  "streams (launch r c s k m) = streams m" "dom (rts (launch r c s k m)) = dom (rts m)" "pubs (launch r c s k m) = pubs m"
  by (simp_all add: launch_def Let_def upd_rt_def) (auto split: option.split)

lemma view_launch_all: "view_of (fold (launch r c s) ks m) = add_cons r c s ks (view_of m)"
proof (induction ks arbitrary: m)
  case Nil
  have "(\<lambda>k. if n \<le> k \<and> k < n then x k else y k) = y" for n :: nat and x y :: "nat \<Rightarrow> (nat \<times> nat \<times> ctx \<times> consumer_kind) option"
    by (auto simp: fun_eq_iff)
  then show ?case by (simp add: add_cons_def)
next
  case (Cons k ks)
  have f: "v_fresh (view_of m) = fresh m" by (simp add: view_of_def)
  have "(\<lambda>i. if Suc (fresh m) \<le> i \<and> i < Suc (fresh m) + length ks then Some (r, s, c, ks ! (i - Suc (fresh m)))
             else ((v_cons (view_of m))(fresh m \<mapsto> (r, s, c, k))) i) =
        (\<lambda>i. if fresh m \<le> i \<and> i < fresh m + length (k # ks) then Some (r, s, c, (k # ks) ! (i - fresh m))
             else v_cons (view_of m) i)"
    by (auto simp: fun_eq_iff nth_Cons' Suc_le_eq diff_Suc split: nat.split)
  then show ?case by (simp only: fold_Cons comp_apply Cons.IH) (simp add: view_launch add_cons_def f cong: if_cong)
qed

section \<open>The invariant\<close>

definition recorder_kind :: "consumer_kind \<Rightarrow> bool" where
  "recorder_kind k \<longleftrightarrow> k = TranscodeRecorder \<or> (\<exists>g. k = CopyRecorder g)"

text \<open>\<^verbatim>\<open>Stop\<close> works through runtimes that exist, after the context of the manager is done.\<close>

definition lock_ok :: "view \<Rightarrow> bool" where
  "lock_ok v \<longleftrightarrow>
     (\<forall>rs. v_held v = Stopping rs \<longrightarrow> v_down v \<and> set rs \<subseteq> dom (v_cam v)) \<and>
     (\<forall>r rs. v_held v = Draining r rs \<longrightarrow> v_down v \<and> set rs \<subseteq> dom (v_cam v))"

text \<open>The registry: a runtime that is not registered, or whose camera is being replaced, is torn down.\<close>

definition registry_ok :: "view \<Rightarrow> bool" where
  "registry_ok v \<longleftrightarrow>
     (\<forall>c r. v_cams v c = Some r \<longrightarrow> (\<exists>cam. v_cam v r = Some cam \<and> cam_id cam = c)) \<and>
     (\<forall>r \<in> dom (v_cam v). r \<in> ran (v_cams v) \<or> r \<in> v_torn v) \<and>
     (\<forall>r \<in> ran (v_cams v) \<inter> v_torn v. v_down v \<or> (\<exists>cam. v_held v = Replacing cam r)) \<and>
     (\<forall>cam r. v_held v = Replacing cam r \<longrightarrow> v_cams v (cam_id cam) = Some r \<and> r \<in> v_torn v) \<and>
     lock_ok v"

text \<open>The streams: an open one is held by exactly one runtime, and what a live runtime holds is open.\<close>

definition holding_ok :: "view \<Rightarrow> bool" where
  "holding_ok v \<longleftrightarrow>
     (\<forall>r r' s. v_hold v r = Some s \<longrightarrow> v_hold v r' = Some s \<longrightarrow> r = r') \<and>
     v_streams v - v_closed v \<subseteq> ran (v_hold v) \<and>
     (\<forall>r s. v_hold v r = Some s \<longrightarrow> r \<notin> v_torn v \<longrightarrow> s \<notin> v_closed v) \<and>
     (\<forall>r s. v_hold v r = Some s \<longrightarrow> v_loop v r = Some Passive \<longrightarrow> r \<in> v_torn v \<longrightarrow> v_down v \<or> s \<in> v_closed v) \<and>
     (\<forall>r n s b. v_loop v r = Some (Connected n s b) \<longrightarrow> v_hold v r = Some s \<or> s \<in> v_closed v)"

definition loop_holds :: "loop \<Rightarrow> nat option \<Rightarrow> source_type \<Rightarrow> bool" where
  "loop_holds l h t =
     (case l of NotStarted \<Rightarrow> False | Passive \<Rightarrow> t = SourceRTMP | Connected n s b \<Rightarrow> h \<in> {None, Some s} \<and> t \<noteq> SourceRTMP
      | _ \<Rightarrow> h = None \<and> t \<noteq> SourceRTMP)"

definition loops_ok :: "view \<Rightarrow> bool" where
  "loops_ok v \<longleftrightarrow>
     dom (v_loop v) = dom (v_cam v) \<and> dom (v_hold v) \<subseteq> dom (v_cam v) \<and>
     (\<forall>r l cam. v_loop v r = Some l \<longrightarrow> v_cam v r = Some cam \<longrightarrow> loop_holds l (v_hold v r) (source_type cam))"

definition pubs_ok :: "view \<Rightarrow> bool" where
  "pubs_ok v \<longleftrightarrow>
     (\<forall>p q s r cam. v_pubs v p = Some q \<longrightarrow> p_stream q = Some s \<longrightarrow> v_hold v r = Some s \<longrightarrow> v_cam v r = Some cam \<longrightarrow>
        cam_id cam = p_key q)"

definition cons_ok :: "view \<Rightarrow> bool" where
  "cons_ok v \<longleftrightarrow>
     (\<forall>k r s c q. v_cons v k = Some (r, s, c, q) \<longrightarrow>
        (s \<notin> v_closed v \<longrightarrow> v_hold v r = Some s) \<and>
        (case c of PushCtx n \<Rightarrow> v_loop v r = Some Passive | RunCtx r' n \<Rightarrow> r' = r | _ \<Rightarrow> False)) \<and>
     (\<forall>k k' r r' s c c' q q'. v_cons v k = Some (r, s, c, q) \<longrightarrow> v_cons v k' = Some (r', s, c', q') \<longrightarrow>
        recorder_kind q \<longrightarrow> recorder_kind q' \<longrightarrow> k = k')"

text \<open>All numbers in use have been drawn.\<close>

definition drawn :: "view \<Rightarrow> bool" where
  "drawn v \<longleftrightarrow>
     dom (v_cam v) \<subseteq> {..<v_fresh v} \<and> v_streams v \<subseteq> {..<v_fresh v} \<and> v_closed v \<subseteq> v_streams v \<and>
     v_torn v \<subseteq> {..<v_fresh v} \<and> dom (v_cons v) \<subseteq> {..<v_fresh v} \<and> ran (v_hold v) \<subseteq> v_streams v \<and>
     (\<forall>k r s c q. v_cons v k = Some (r, s, c, q) \<longrightarrow> s \<in> v_streams v) \<and>
     (\<forall>p q s. v_pubs v p = Some q \<longrightarrow> p_stream q = Some s \<longrightarrow> s \<in> v_streams v)"

definition view_ok :: "view \<Rightarrow> bool" where
  "view_ok v \<longleftrightarrow> registry_ok v \<and> holding_ok v \<and> loops_ok v \<and> pubs_ok v \<and> cons_ok v \<and> drawn v"

lemma view_okI:
  "registry_ok v \<Longrightarrow> holding_ok v \<Longrightarrow> loops_ok v \<Longrightarrow> pubs_ok v \<Longrightarrow> cons_ok v \<Longrightarrow> drawn v \<Longrightarrow> view_ok v"
  by (simp add: view_ok_def)

lemma view_okD:
  "view_ok v \<Longrightarrow> registry_ok v" "view_ok v \<Longrightarrow> holding_ok v" "view_ok v \<Longrightarrow> loops_ok v"
  "view_ok v \<Longrightarrow> pubs_ok v" "view_ok v \<Longrightarrow> cons_ok v" "view_ok v \<Longrightarrow> drawn v"
  by (simp_all add: view_ok_def)

lemma new_mgr_ok: "view_ok (view_of new_mgr)"
  by (simp add: view_of_def new_mgr_def view_ok_def registry_ok_def lock_ok_def holding_ok_def loops_ok_def pubs_ok_def
      cons_ok_def drawn_def)

section \<open>Steps of the view\<close>

definition detach :: "nat \<Rightarrow> view \<Rightarrow> view" where
  "detach r v = v\<lparr>v_closed := v_closed v \<union> set_option (v_hold v r), v_hold := (v_hold v)(r := None)\<rparr>"

definition give :: "nat \<Rightarrow> loop \<Rightarrow> view \<Rightarrow> view" where
  "give r l v = v\<lparr>v_streams := insert (v_fresh v) (v_streams v), v_hold := (v_hold v)(r \<mapsto> v_fresh v),
     v_loop := (v_loop v)(r \<mapsto> l), v_fresh := Suc (v_fresh v)\<rparr>"

definition tear :: "nat \<Rightarrow> view \<Rightarrow> view" where
  "tear r v = v\<lparr>v_torn := insert r (v_torn v), v_closed := v_closed v \<union> set_option (v_hold v r)\<rparr>"

lemma fresh_parts [simp]:
  "registry_ok (v\<lparr>v_fresh := n\<rparr>) = registry_ok v" "holding_ok (v\<lparr>v_fresh := n\<rparr>) = holding_ok v"
  "loops_ok (v\<lparr>v_fresh := n\<rparr>) = loops_ok v" "pubs_ok (v\<lparr>v_fresh := n\<rparr>) = pubs_ok v"
  "cons_ok (v\<lparr>v_fresh := n\<rparr>) = cons_ok v"
  by (cases v; simp only: registry_ok_def lock_ok_def holding_ok_def loops_ok_def pubs_ok_def cons_ok_def view.simps)+

lemma fresh_ok:
  assumes "view_ok v" "v_fresh v \<le> n"
  shows "view_ok (v\<lparr>v_fresh := n\<rparr>)"
proof -
  have "A \<subseteq> {..<n}" if "A \<subseteq> {..<v_fresh v}" for A :: "nat set" using that assms(2) by auto
  then have "drawn (v\<lparr>v_fresh := n\<rparr>)" using view_okD(6) [OF assms(1)] by (simp add: drawn_def)
  then show ?thesis using view_okD [OF assms(1)]
    by (simp add: view_ok_def)
qed

lemma loop_holds_None: "loop_holds l h t \<Longrightarrow> loop_holds l None t"
  by (auto simp: loop_holds_def split: loop.splits)

lemma holding_okI:
  assumes "\<And>r r' s. v_hold v r = Some s \<Longrightarrow> v_hold v r' = Some s \<Longrightarrow> r = r'"
    and "\<And>s. s \<in> v_streams v \<Longrightarrow> s \<notin> v_closed v \<Longrightarrow> \<exists>r. v_hold v r = Some s"
    and "\<And>r s. v_hold v r = Some s \<Longrightarrow> r \<notin> v_torn v \<Longrightarrow> s \<notin> v_closed v"
    and "\<And>r s. v_hold v r = Some s \<Longrightarrow> v_loop v r = Some Passive \<Longrightarrow> r \<in> v_torn v \<Longrightarrow> v_down v \<or> s \<in> v_closed v"
    and "\<And>r n s b. v_loop v r = Some (Connected n s b) \<Longrightarrow> v_hold v r = Some s \<or> s \<in> v_closed v"
  shows "holding_ok v"
  using assms unfolding holding_ok_def ran_def by blast

lemma holding_okD:
  assumes "holding_ok v"
  shows "v_hold v r = Some s \<Longrightarrow> v_hold v r' = Some s \<Longrightarrow> r = r'"
    and "s \<in> v_streams v \<Longrightarrow> s \<notin> v_closed v \<Longrightarrow> \<exists>r. v_hold v r = Some s"
    and "v_hold v r = Some s \<Longrightarrow> r \<notin> v_torn v \<Longrightarrow> s \<notin> v_closed v"
    and "v_hold v r = Some s \<Longrightarrow> v_loop v r = Some Passive \<Longrightarrow> r \<in> v_torn v \<Longrightarrow> v_down v \<or> s \<in> v_closed v"
    and "v_loop v r = Some (Connected n s b) \<Longrightarrow> v_hold v r = Some s \<or> s \<in> v_closed v"
  using assms unfolding holding_ok_def ran_def by blast+

lemma loops_okD:
  assumes "loops_ok v"
  shows "dom (v_loop v) = dom (v_cam v)" "dom (v_hold v) \<subseteq> dom (v_cam v)"
    and "v_loop v r = Some l \<Longrightarrow> v_cam v r = Some cam \<Longrightarrow> loop_holds l (v_hold v r) (source_type cam)"
  using assms unfolding loops_ok_def by blast+

lemma consD:
  assumes "cons_ok v" "v_cons v k = Some (r, s, c, q)"
  shows "s \<notin> v_closed v \<Longrightarrow> v_hold v r = Some s"
    and "case c of PushCtx n \<Rightarrow> v_loop v r = Some Passive | RunCtx r' n \<Rightarrow> r' = r | _ \<Rightarrow> False"
    and "v_cons v k' = Some (r', s, c', q') \<Longrightarrow> recorder_kind q \<Longrightarrow> recorder_kind q' \<Longrightarrow> k = k'"
  using assms unfolding cons_ok_def by blast+

text \<open>What keeps the consumers consistent: fewer open streams and holders of the open ones kept.\<close>

lemma cons_ok_step:
  assumes "cons_ok v" "v_cons v' = v_cons v" "v_closed v \<subseteq> v_closed v'"
    and "\<And>r s. v_hold v r = Some s \<Longrightarrow> s \<notin> v_closed v' \<Longrightarrow> v_hold v' r = Some s"
    and "\<And>r. v_loop v r = Some Passive \<Longrightarrow> v_loop v' r = Some Passive"
  shows "cons_ok v'"
proof -
  have "(s \<notin> v_closed v' \<longrightarrow> v_hold v' r = Some s) \<and>
      (case c of PushCtx n \<Rightarrow> v_loop v' r = Some Passive | RunCtx r' n \<Rightarrow> r' = r | _ \<Rightarrow> False)"
    if "v_cons v k = Some (r, s, c, q)" for k r s c q
    using consD(1,2) [OF assms(1) that] assms(3-5) by (auto split: ctx.splits)
  then show ?thesis using assms(1,2) unfolding cons_ok_def by simp
qed

lemma drawn_fresh:
  assumes "drawn v"
  shows "v_fresh v \<notin> v_streams v" "v_fresh v \<notin> v_closed v" "v_hold v r \<noteq> Some (v_fresh v)" "v_fresh v \<notin> v_torn v"
    "v_cam v (v_fresh v) = None" "v_hold v r = Some s \<Longrightarrow> s \<in> v_streams v"
  using assms unfolding drawn_def ran_def by (auto simp: subset_iff)

lemma drawn_cons: "drawn v \<Longrightarrow> v_cons v k = Some (r, s, c, q) \<Longrightarrow> s \<in> v_streams v \<and> k < v_fresh v"
  unfolding drawn_def by blast

lemma drawn_pubs: "drawn v \<Longrightarrow> v_pubs v p = Some q \<Longrightarrow> p_stream q = Some s \<Longrightarrow> s \<in> v_streams v"
  unfolding drawn_def by blast

lemma detach_ok:
  assumes "view_ok v"
  shows "view_ok (detach r v)"
proof (rule view_okI)
  note d = view_okD [OF assms(1)]
  show "registry_ok (detach r v)" using d(1) by (simp add: detach_def registry_ok_def lock_ok_def)
  show "holding_ok (detach r v)"
    by (rule holding_okI) (use holding_okD [OF d(2)] in \<open>auto simp: detach_def split: if_splits\<close>, (blast | metis)+)
  have "loop_holds l None (source_type cam)" if "v_loop v r = Some l" "v_cam v r = Some cam" for l cam
    by (rule loop_holds_None [OF loops_okD(3) [OF d(3) that]])
  then show "loops_ok (detach r v)" using loops_okD [OF d(3)] by (auto simp: detach_def loops_ok_def)
  show "pubs_ok (detach r v)" using d(4) unfolding pubs_ok_def detach_def by (auto split: if_splits)
  show "cons_ok (detach r v)" by (rule cons_ok_step [OF d(5)]) (auto simp: detach_def)
  have "ran ((v_hold v)(r := None)) \<subseteq> ran (v_hold v)" by (auto simp: ran_def split: if_splits)
  moreover have "set_option (v_hold v r) \<subseteq> v_streams v" using drawn_fresh(6) [OF d(6)] by auto
  ultimately show "drawn (detach r v)" using d(6) by (auto simp: detach_def drawn_def)
qed

lemma give_ok:
  assumes "view_ok v" "v_hold v r = None" "r \<in> dom (v_cam v)"
    and "\<And>cam. v_cam v r = Some cam \<Longrightarrow> loop_holds l (Some (v_fresh v)) (source_type cam)"
    and "l = Passive \<Longrightarrow> r \<in> v_torn v \<Longrightarrow> v_down v"
    and "v_loop v r = Some Passive \<Longrightarrow> l = Passive"
  shows "view_ok (give r l v)"
proof (rule view_okI)
  note d = view_okD [OF assms(1)]
  note f = drawn_fresh [OF d(6)]
  show "registry_ok (give r l v)" using d(1) by (simp add: give_def registry_ok_def lock_ok_def)
  show "holding_ok (give r l v)"
  proof (rule holding_okI)
    fix r' n s b
    assume "v_loop (give r l v) r' = Some (Connected n s b)"
    then show "v_hold (give r l v) r' = Some s \<or> s \<in> v_closed (give r l v)"
      using holding_okD(5) [OF d(2)] assms(3,4) by (auto simp: give_def loop_holds_def split: if_splits)
  qed (use holding_okD(1-4) [OF d(2)] f assms(2,5) in \<open>auto simp: give_def split: if_splits\<close>, metis option.distinct(1))
  show "loops_ok (give r l v)" using loops_okD [OF d(3)] assms(3,4) by (auto simp: give_def loops_ok_def)
  show "pubs_ok (give r l v)" using d(4,6) f(1) unfolding pubs_ok_def give_def drawn_def by (auto split: if_splits)
  show "cons_ok (give r l v)" by (rule cons_ok_step [OF d(5)]) (use assms(2,6) in \<open>auto simp: give_def\<close>)
  show "drawn (give r l v)" using d(6) assms(2,3) unfolding drawn_def give_def
    by simp (auto simp: less_Suc_eq)
qed

lemma registry_okI:
  assumes "\<And>c r. v_cams v c = Some r \<Longrightarrow> \<exists>cam. v_cam v r = Some cam \<and> cam_id cam = c"
    and "\<And>r cam. v_cam v r = Some cam \<Longrightarrow> r \<notin> v_torn v \<Longrightarrow> \<exists>c. v_cams v c = Some r"
    and "\<And>c r. v_cams v c = Some r \<Longrightarrow> r \<in> v_torn v \<Longrightarrow> v_down v \<or> (\<exists>cam. v_held v = Replacing cam r)"
    and "\<And>cam r. v_held v = Replacing cam r \<Longrightarrow> v_cams v (cam_id cam) = Some r \<and> r \<in> v_torn v"
    and "lock_ok v"
  shows "registry_ok v"
  using assms unfolding registry_ok_def ran_def by blast

lemma registry_okD:
  assumes "registry_ok v"
  shows "v_cams v c = Some r \<Longrightarrow> \<exists>cam. v_cam v r = Some cam \<and> cam_id cam = c"
    and "v_cam v r = Some cam \<Longrightarrow> r \<notin> v_torn v \<Longrightarrow> \<exists>c. v_cams v c = Some r"
    and "v_cams v c = Some r \<Longrightarrow> r \<in> v_torn v \<Longrightarrow> v_down v \<or> (\<exists>cam. v_held v = Replacing cam r)"
    and "v_held v = Replacing cam r \<Longrightarrow> v_cams v (cam_id cam) = Some r \<and> r \<in> v_torn v"
    and "lock_ok v"
  using assms unfolding registry_ok_def ran_def by blast+

lemma registry_one:
  assumes "registry_ok v" "v_cams v c = Some r" "v_cams v c' = Some r"
  shows "c = c'"
  using registry_okD(1) [OF assms(1,2)] registry_okD(1) [OF assms(1,3)] by auto

text \<open>Fields that single parts of the invariant do not mention.\<close>

lemma other_parts [simp]:
  "holding_ok (v\<lparr>v_cams := cs\<rparr>) = holding_ok v" "loops_ok (v\<lparr>v_cams := cs\<rparr>) = loops_ok v" "pubs_ok (v\<lparr>v_cams := cs\<rparr>) = pubs_ok v"
  "cons_ok (v\<lparr>v_cams := cs\<rparr>) = cons_ok v" "drawn (v\<lparr>v_cams := cs\<rparr>) = drawn v"
  "holding_ok (v\<lparr>v_held := h\<rparr>) = holding_ok v" "loops_ok (v\<lparr>v_held := h\<rparr>) = loops_ok v" "pubs_ok (v\<lparr>v_held := h\<rparr>) = pubs_ok v"
  "cons_ok (v\<lparr>v_held := h\<rparr>) = cons_ok v" "drawn (v\<lparr>v_held := h\<rparr>) = drawn v"
  "registry_ok (v\<lparr>v_pubs := ps\<rparr>) = registry_ok v" "holding_ok (v\<lparr>v_pubs := ps\<rparr>) = holding_ok v"
  "loops_ok (v\<lparr>v_pubs := ps\<rparr>) = loops_ok v" "cons_ok (v\<lparr>v_pubs := ps\<rparr>) = cons_ok v"
  "registry_ok (v\<lparr>v_loop := l\<rparr>) = registry_ok v" "pubs_ok (v\<lparr>v_loop := l\<rparr>) = pubs_ok v" "drawn (v\<lparr>v_loop := l\<rparr>) = drawn v"
  "registry_ok (v\<lparr>v_cons := ks\<rparr>) = registry_ok v" "holding_ok (v\<lparr>v_cons := ks\<rparr>) = holding_ok v"
  "loops_ok (v\<lparr>v_cons := ks\<rparr>) = loops_ok v" "pubs_ok (v\<lparr>v_cons := ks\<rparr>) = pubs_ok v"
  "registry_ok (v\<lparr>v_closed := xs\<rparr>) = registry_ok v" "loops_ok (v\<lparr>v_closed := xs\<rparr>) = loops_ok v"
  "pubs_ok (v\<lparr>v_closed := xs\<rparr>) = pubs_ok v" "loops_ok (v\<lparr>v_torn := ts\<rparr>) = loops_ok v" "pubs_ok (v\<lparr>v_torn := ts\<rparr>) = pubs_ok v"
  "cons_ok (v\<lparr>v_torn := ts\<rparr>) = cons_ok v"
  "loops_ok (v\<lparr>v_down := b\<rparr>) = loops_ok v" "pubs_ok (v\<lparr>v_down := b\<rparr>) = pubs_ok v"
  "cons_ok (v\<lparr>v_down := b\<rparr>) = cons_ok v" "drawn (v\<lparr>v_down := b\<rparr>) = drawn v"
  by (cases v; simp only: registry_ok_def lock_ok_def holding_ok_def loops_ok_def pubs_ok_def cons_ok_def drawn_def view.simps)+

lemma tear_parts:
  assumes "view_ok v"
  shows "holding_ok (tear r v)" "loops_ok (tear r v)" "pubs_ok (tear r v)" "cons_ok (tear r v)"
    and "r \<in> dom (v_cam v) \<Longrightarrow> drawn (tear r v)"
proof -
  note d = view_okD [OF assms]
  show "holding_ok (tear r v)"
    by (rule holding_okI) (use holding_okD [OF d(2)] in \<open>auto simp: tear_def\<close>, blast)
  show "loops_ok (tear r v)" "pubs_ok (tear r v)" using d(3,4) by (simp_all add: tear_def)
  show "cons_ok (tear r v)" by (rule cons_ok_step [OF d(5)]) (auto simp: tear_def)
  have "set_option (v_hold v r) \<subseteq> v_streams v" using drawn_fresh(6) [OF d(6)] by auto
  then show "drawn (tear r v)" if "r \<in> dom (v_cam v)"
    using d(6) that unfolding drawn_def by (simp add: tear_def) blast
qed

lemma tear_replacing:
  assumes "view_ok v" "v_held v = Free" "v_cams v (cam_id cam) = Some r"
  shows "view_ok ((tear r v)\<lparr>v_held := Replacing cam r\<rparr>)"
proof -
  note g = registry_okD [OF view_okD(1) [OF assms(1)]]
  have "registry_ok ((tear r v)\<lparr>v_held := Replacing cam r\<rparr>)"
    by (rule registry_okI) (use g(1-4) assms(2,3) in \<open>auto simp: tear_def lock_ok_def\<close>)
  moreover have "r \<in> dom (v_cam v)" using g(1) [OF assms(3)] by auto
  ultimately show ?thesis using tear_parts [OF assms(1), of r] by (simp add: view_ok_def)
qed

lemma tear_removed:
  assumes "view_ok v" "v_held v = Free" "v_cams v c = Some r"
  shows "view_ok ((tear r v)\<lparr>v_cams := (v_cams v)(c := None)\<rparr>)"
proof -
  note g = registry_okD [OF view_okD(1) [OF assms(1)]]
  let ?v = "(tear r v)\<lparr>v_cams := (v_cams v)(c := None)\<rparr>"
  have old: "v_cams v c' = Some r' \<and> r' \<noteq> r" if "v_cams ?v c' = Some r'" for c' r'
    using that assms(3) registry_one [OF view_okD(1) [OF assms(1)] assms(3), of c'] by (auto split: if_splits)
  have same: "v_cam ?v = v_cam v" "v_torn ?v = insert r (v_torn v)" "v_down ?v = v_down v" "v_held ?v = Free"
    using assms(2) by (simp_all add: tear_def)
  have "registry_ok ?v"
  proof (rule registry_okI)
    show "\<exists>cam. v_cam ?v r' = Some cam \<and> cam_id cam = c'" if "v_cams ?v c' = Some r'" for c' r'
      unfolding same using g(1) old [OF that] by blast
    show "\<exists>c'. v_cams ?v c' = Some r'" if r': "v_cam ?v r' = Some cam" "r' \<notin> v_torn ?v" for r' cam
    proof -
      obtain c' where "v_cams v c' = Some r'" "r' \<noteq> r" using g(2) [of r' cam] r' unfolding same by auto
      then have "c' \<noteq> c" using assms(3) by auto
      then have "v_cams ?v c' = Some r'" using \<open>v_cams v c' = Some r'\<close> by simp
      then show ?thesis ..
    qed
    show "v_down ?v \<or> (\<exists>cam. v_held ?v = Replacing cam r')" if "v_cams ?v c' = Some r'" "r' \<in> v_torn ?v" for c' r'
      using g(3) [of c' r'] old [OF that(1)] that(2) assms(2) unfolding same by auto
  qed (simp_all add: same lock_ok_def)
  moreover have "r \<in> dom (v_cam v)" using g(1) [OF assms(3)] by auto
  ultimately show ?thesis using tear_parts [OF assms(1), of r] by (simp add: view_ok_def)
qed

lemma tear_down:
  assumes "view_ok v" "v_down v" "r \<in> dom (v_cam v)" "\<And>cam r. v_held v \<noteq> Replacing cam r"
  shows "view_ok (tear r v)"
proof -
  note g = registry_okD [OF view_okD(1) [OF assms(1)]]
  have "registry_ok (tear r v)"
    by (rule registry_okI) (use g assms(2,4) in \<open>auto simp: tear_def lock_ok_def\<close>)
  then show ?thesis using tear_parts [OF assms(1), of r] assms(3) by (simp add: view_ok_def)
qed

lemma released:
  assumes "view_ok v" "v_held v = Replacing cam r"
  shows "view_ok (v\<lparr>v_held := Free, v_cams := (v_cams v)(cam_id cam := None)\<rparr>)"
proof -
  note g = registry_okD [OF view_okD(1) [OF assms(1)]]
  let ?v = "v\<lparr>v_held := Free, v_cams := (v_cams v)(cam_id cam := None)\<rparr>"
  have r: "v_cams v (cam_id cam) = Some r" "r \<in> v_torn v" using g(4) [OF assms(2)] by simp_all
  have old: "v_cams v c' = Some r' \<and> r' \<noteq> r" if "v_cams ?v c' = Some r'" for c' r'
    using that r registry_one [OF view_okD(1) [OF assms(1)] r(1), of c'] by (auto split: if_splits)
  have same: "v_cam ?v = v_cam v" "v_torn ?v = v_torn v" "v_down ?v = v_down v" "v_held ?v = Free"
    by simp_all
  have "registry_ok ?v"
  proof (rule registry_okI)
    show "\<exists>cam. v_cam ?v r' = Some cam \<and> cam_id cam = c'" if "v_cams ?v c' = Some r'" for c' r'
      unfolding same using g(1) old [OF that] by blast
    show "\<exists>c'. v_cams ?v c' = Some r'" if r': "v_cam ?v r' = Some cam'" "r' \<notin> v_torn ?v" for r' cam'
    proof -
      obtain c' where "v_cams v c' = Some r'" "r' \<noteq> r" using g(2) [of r' cam'] r' r(2) unfolding same by auto
      then have "c' \<noteq> cam_id cam" using r(1) by auto
      then have "v_cams ?v c' = Some r'" using \<open>v_cams v c' = Some r'\<close> by simp
      then show ?thesis ..
    qed
    show "v_down ?v \<or> (\<exists>cam. v_held ?v = Replacing cam r')" if "v_cams ?v c' = Some r'" "r' \<in> v_torn ?v" for c' r'
      using g(3) [of c' r'] old [OF that(1)] that(2) assms(2) unfolding same by auto
  qed (simp_all add: same lock_ok_def)
  then show ?thesis using view_okD [OF assms(1)] by (simp add: view_ok_def)
qed

text \<open>A new runtime.\<close>

definition create :: "camera \<Rightarrow> view \<Rightarrow> view" where
  "create cam v = v\<lparr>v_cams := (v_cams v)(cam_id cam \<mapsto> v_fresh v), v_cam := (v_cam v)(v_fresh v \<mapsto> cam),
     v_loop := (v_loop v)(v_fresh v \<mapsto> (if source_type cam = SourceRTMP then Passive else Top 1)), v_fresh := Suc (v_fresh v)\<rparr>"

lemma create_view_ok:
  assumes "view_ok v" "v_held v = Free" "v_cams v (cam_id cam) = None"
  shows "view_ok (create cam v)"
proof (rule view_okI)
  note d = view_okD [OF assms(1)]
  note f = drawn_fresh [OF d(6)]
  note g = registry_okD [OF d(1)]
  have n: "v_cams v c \<noteq> Some (v_fresh v)" for c using g(1) [of c "v_fresh v"] f(5) by auto
  have h: "v_hold v (v_fresh v) = None" using loops_okD(2) [OF d(3)] f(5) by blast
  show "registry_ok (create cam v)"
  proof (rule registry_okI)
    show "\<exists>cam'. v_cam (create cam v) r = Some cam' \<and> cam_id cam' = c" if "v_cams (create cam v) c = Some r" for c r
      using that g(1) [of c r] n by (auto simp: create_def split: if_splits)
    show "\<exists>c. v_cams (create cam v) c = Some r" if r: "v_cam (create cam v) r = Some cam'" "r \<notin> v_torn (create cam v)" for r cam'
    proof (cases "r = v_fresh v")
      case False
      then obtain c where "v_cams v c = Some r" using r g(2) [of r cam'] by (auto simp: create_def)
      moreover from this have "c \<noteq> cam_id cam" using assms(3) by auto
      ultimately show ?thesis by (intro exI [of _ c]) (simp add: create_def)
    qed (auto simp: create_def)
    show "v_down (create cam v) \<or> (\<exists>cam'. v_held (create cam v) = Replacing cam' r)"
      if "v_cams (create cam v) c = Some r" "r \<in> v_torn (create cam v)" for c r
      using that g(3) [of c r] f(4) by (auto simp: create_def split: if_splits)
  qed (simp_all add: create_def assms(2) lock_ok_def)
  show "holding_ok (create cam v)"
    by (rule holding_okI) (use holding_okD [OF d(2)] h in \<open>auto simp: create_def split: if_splits\<close>)
  show "loops_ok (create cam v)" using loops_okD [OF d(3)] h f(5)
    by (auto simp: create_def loops_ok_def loop_holds_def)
  show "pubs_ok (create cam v)" using d(4) h unfolding pubs_ok_def create_def by auto
  have "v_loop v (v_fresh v) = None" using loops_okD(1) [OF d(3)] f(5) by blast
  then show "cons_ok (create cam v)" by (intro cons_ok_step [OF d(5)]) (auto simp: create_def)
  show "drawn (create cam v)" using d(6) unfolding drawn_def create_def by simp (auto simp: less_Suc_eq)
qed

text \<open>A step of the loop of a pull camera.\<close>

lemma loop_ok:
  assumes "view_ok v" "v_loop v r = Some l0" "l0 \<noteq> Passive" "l \<noteq> Passive" "\<And>n s b. l \<noteq> Connected n s b"
    and "\<And>cam. v_cam v r = Some cam \<Longrightarrow> source_type cam \<noteq> SourceRTMP \<Longrightarrow> loop_holds l (v_hold v r) (source_type cam)"
  shows "view_ok (v\<lparr>v_loop := (v_loop v)(r \<mapsto> l)\<rparr>)"
proof -
  note d = view_okD [OF assms(1)]
  let ?v = "v\<lparr>v_loop := (v_loop v)(r \<mapsto> l)\<rparr>"
  have "holding_ok ?v"
    by (rule holding_okI) (use holding_okD [OF d(2)] assms(4,5) in \<open>auto split: if_splits\<close>)
  moreover have "source_type cam \<noteq> SourceRTMP" if "v_cam v r = Some cam" for cam
    using loops_okD(3) [OF d(3) assms(2) that] assms(3) by (auto simp: loop_holds_def split: loop.splits)
  then have "loops_ok ?v" using loops_okD [OF d(3)] assms(2,6) by (auto simp: loops_ok_def)
  moreover have "cons_ok ?v" by (rule cons_ok_step [OF d(5)]) (use assms(2,3) in auto)
  ultimately show ?thesis using d by (simp add: view_ok_def)
qed

text \<open>The consumers of a stream that nobody reads yet.\<close>

lemma one_recorder:
  assumes "i < length (consumer_kinds env cam ts)" "j < length (consumer_kinds env cam ts)"
    and "recorder_kind (consumer_kinds env cam ts ! i)" "recorder_kind (consumer_kinds env cam ts ! j)"
  shows "i = j"
proof -
  obtain xs ys where k: "consumer_kinds env cam ts = xs @ ys" "\<forall>x \<in> set xs. \<not> recorder_kind x" "length ys \<le> 1"
    by (rule that [of "butlast (consumer_kinds env cam ts)" "if consumer_kinds env cam ts = [] then [] else [last (consumer_kinds env cam ts)]"])
      (auto simp: consumer_kinds_def Let_def recorder_kind_def butlast_append)
  have "n = length xs" if "n < length (xs @ ys)" "recorder_kind ((xs @ ys) ! n)" for n
    using that k(2,3) by (cases "n < length xs") (auto simp: nth_append)
  then show ?thesis using assms unfolding k(1) by blast
qed

lemma add_cons_ok:
  assumes "view_ok v" "v_hold v r = Some s" "\<And>k r' c' q. v_cons v k \<noteq> Some (r', s, c', q)"
    and "case c of PushCtx n \<Rightarrow> v_loop v r = Some Passive | RunCtx r' n \<Rightarrow> r' = r | _ \<Rightarrow> False"
    and "\<And>i j. i < length ks \<Longrightarrow> j < length ks \<Longrightarrow> recorder_kind (ks ! i) \<Longrightarrow> recorder_kind (ks ! j) \<Longrightarrow> i = j"
  shows "view_ok (add_cons r c s ks v)"
proof -
  note d = view_okD [OF assms(1)]
  let ?v = "add_cons r c s ks v"
  have new: "v_cons v k = Some x \<or> (v_fresh v \<le> k \<and> k < v_fresh v + length ks \<and> x = (r, s, c, ks ! (k - v_fresh v)))"
    if "v_cons ?v k = Some x" for k x using that by (auto simp: add_cons_def split: if_splits)
  have s: "s \<in> v_streams v" using drawn_fresh(6) [OF d(6) assms(2)] .
  have same: "v_loop ?v = v_loop v" "v_hold ?v = v_hold v" "v_closed ?v = v_closed v" by (simp_all add: add_cons_def)
  have "(s' \<notin> v_closed ?v \<longrightarrow> v_hold ?v r' = Some s') \<and>
      (case c' of PushCtx n \<Rightarrow> v_loop ?v r' = Some Passive | RunCtx r'' n \<Rightarrow> r'' = r' | _ \<Rightarrow> False)"
    if "v_cons ?v k = Some (r', s', c', q)" for k r' s' c' q
    using new [OF that] consD(1,2) [OF d(5)] assms(2,4) unfolding same by auto
  moreover have "k = k'"
    if k: "v_cons ?v k = Some (r1, s', c1, q1)" "v_cons ?v k' = Some (r2, s', c2, q2)" "recorder_kind q1" "recorder_kind q2"
    for k k' r1 r2 s' c1 c2 q1 q2
    using new [OF k(1)] new [OF k(2)] consD(3) [OF d(5) _ _ k(3,4)] assms(3) assms(5) [of "k - v_fresh v" "k' - v_fresh v"] k(3,4)
    by (auto simp: less_diff_conv2 add.commute [of _ "v_fresh v"])
  ultimately have "cons_ok ?v" unfolding cons_ok_def by blast
  moreover have "drawn ?v"
  proof -
    have lt: "x < v_fresh v" if "v_cons v x = Some y" for x y using d(6) that unfolding drawn_def by blast
    have "dom (v_cons ?v) \<subseteq> {..<v_fresh v + length ks}" using new lt by (fastforce simp: trans_less_add1)
    moreover have "s' \<in> v_streams v" if "v_cons ?v k = Some (r', s', c', q)" for k r' s' c' q
      using new [OF that] s drawn_cons [OF d(6)] by auto
    moreover have "A \<subseteq> {..<v_fresh v + length ks}" if "A \<subseteq> {..<v_fresh v}" for A :: "nat set" using that by auto
    ultimately show ?thesis using d(6) by (simp add: drawn_def add_cons_def)
  qed
  ultimately show ?thesis using d by (simp add: view_ok_def add_cons_def)
qed

text \<open>A consumer that is gone, a publisher that comes or goes, a stream that is closed unheld.\<close>

lemma cons_gone:
  assumes "view_ok v"
  shows "view_ok (v\<lparr>v_cons := (v_cons v)(k := None)\<rparr>)"
proof -
  note d = view_okD [OF assms]
  let ?v = "v\<lparr>v_cons := (v_cons v)(k := None)\<rparr>"
  have old: "v_cons v k' = Some x" if "v_cons ?v k' = Some x" for k' x using that by (auto split: if_splits)
  have same: "v_loop ?v = v_loop v" "v_hold ?v = v_hold v" "v_closed ?v = v_closed v" by simp_all
  have "(s \<notin> v_closed ?v \<longrightarrow> v_hold ?v r = Some s) \<and>
      (case c of PushCtx n \<Rightarrow> v_loop ?v r = Some Passive | RunCtx r' n \<Rightarrow> r' = r | _ \<Rightarrow> False)"
    if "v_cons ?v k' = Some (r, s, c, q)" for k' r s c q
    using consD(1,2) [OF d(5) old [OF that]] unfolding same by simp
  moreover have "k1 = k2"
    if "v_cons ?v k1 = Some (r, s, c, q)" "v_cons ?v k2 = Some (r', s, c', q')" "recorder_kind q" "recorder_kind q'"
    for k1 k2 r r' s c c' q q'
    using consD(3) [OF d(5) old [OF that(1)] old [OF that(2)] that(3,4)] .
  ultimately have "cons_ok ?v" unfolding cons_ok_def by blast
  moreover have "dom (v_cons ?v) \<subseteq> dom (v_cons v)" by auto
  then have "drawn ?v" using d(6) drawn_cons [OF d(6) old] unfolding drawn_def by auto
  ultimately show ?thesis using d by (simp add: view_ok_def)
qed

lemma pubs_change:
  assumes "view_ok v" "\<And>q s. ps p = Some q \<Longrightarrow> p_stream q = Some s \<Longrightarrow> s \<in> v_streams v"
    and "\<And>q s r cam. ps p = Some q \<Longrightarrow> p_stream q = Some s \<Longrightarrow> v_hold v r = Some s \<Longrightarrow> v_cam v r = Some cam \<Longrightarrow>
      cam_id cam = p_key q"
    and "\<And>p'. p' \<noteq> p \<Longrightarrow> ps p' = v_pubs v p'"
  shows "view_ok (v\<lparr>v_pubs := ps\<rparr>)"
proof -
  note d = view_okD [OF assms(1)]
  have "pubs_ok (v\<lparr>v_pubs := ps\<rparr>)"
    using d(4) assms(3,4) unfolding pubs_ok_def by (simp, metis)
  moreover have "s \<in> v_streams v" if "ps p' = Some q" "p_stream q = Some s" for p' q s
    using that assms(2,4) drawn_pubs [OF d(6)] by metis
  then have "drawn (v\<lparr>v_pubs := ps\<rparr>)" using d(6) by (simp add: drawn_def)
  ultimately show ?thesis using d by (simp add: view_ok_def)
qed

lemma close_free:
  assumes "view_ok v" "s \<in> v_streams v" "\<And>r. v_hold v r = Some s \<Longrightarrow> r \<in> v_torn v"
  shows "view_ok (v\<lparr>v_closed := insert s (v_closed v)\<rparr>)"
proof -
  note d = view_okD [OF assms(1)]
  let ?v = "v\<lparr>v_closed := insert s (v_closed v)\<rparr>"
  have "holding_ok ?v"
    by (rule holding_okI) (use holding_okD [OF d(2)] assms(3) in auto, blast)
  moreover have "cons_ok ?v" by (rule cons_ok_step [OF d(5)]) auto
  moreover have "registry_ok ?v" "drawn ?v" using d(1,6) assms(2) by (simp_all add: drawn_def)
  ultimately show ?thesis using d by (simp add: view_ok_def)
qed

lemma rejected:
  assumes "view_ok v"
  shows "view_ok (v\<lparr>v_streams := insert (v_fresh v) (v_streams v), v_fresh := Suc (v_fresh v),
    v_closed := insert (v_fresh v) (v_closed v)\<rparr>)"
proof -
  note d = view_okD [OF assms]
  note f = drawn_fresh [OF d(6)]
  let ?v = "v\<lparr>v_streams := insert (v_fresh v) (v_streams v), v_closed := insert (v_fresh v) (v_closed v)\<rparr>"
  have "holding_ok ?v"
    by (rule holding_okI) (use holding_okD [OF d(2)] f in auto, blast)
  moreover have "cons_ok ?v" by (rule cons_ok_step [OF d(5)]) auto
  moreover have "registry_ok ?v" using d(1) by (simp add: registry_ok_def lock_ok_def)
  moreover have "loops_ok ?v" "pubs_ok ?v" using d(3,4) by (simp_all add: loops_ok_def pubs_ok_def)
  moreover have "A \<subseteq> {..<Suc (v_fresh v)}" if "A \<subseteq> {..<v_fresh v}" for A :: "nat set" using that by auto
  then have "drawn (?v\<lparr>v_fresh := Suc (v_fresh v)\<rparr>)"
    using d(6) by (auto simp: drawn_def)
  ultimately have "view_ok (?v\<lparr>v_fresh := Suc (v_fresh v)\<rparr>)" by (simp add: view_ok_def)
  moreover have "?v\<lparr>v_fresh := Suc (v_fresh v)\<rparr> = v\<lparr>v_streams := insert (v_fresh v) (v_streams v),
      v_fresh := Suc (v_fresh v), v_closed := insert (v_fresh v) (v_closed v)\<rparr>" by (cases v) simp
  ultimately show ?thesis by simp
qed

lemma down_ok:
  assumes "view_ok v" "v_held v = Free" "set rs \<subseteq> dom (v_cam v)" "h = Stopping rs"
  shows "view_ok (v\<lparr>v_down := True, v_held := h\<rparr>)"
proof -
  note d = view_okD [OF assms(1)]
  have "registry_ok (v\<lparr>v_down := True, v_held := h\<rparr>)"
    by (rule registry_okI) (use registry_okD(1-4) [OF d(1)] assms(3,4) in \<open>auto simp: lock_ok_def\<close>)
  moreover have "holding_ok (v\<lparr>v_down := True\<rparr>)"
    by (rule holding_okI) (use holding_okD [OF d(2)] in auto)
  ultimately show ?thesis using d by (simp add: view_ok_def)
qed

lemma held_ok:
  assumes "view_ok v" "v_down v" "set rs \<subseteq> dom (v_cam v)" "h \<in> {Free, Stopping rs, Draining r rs}"
  shows "view_ok (v\<lparr>v_held := h\<rparr>)"
proof -
  note d = view_okD [OF assms(1)]
  have "registry_ok (v\<lparr>v_held := h\<rparr>)"
    by (rule registry_okI) (use registry_okD(1-4) [OF d(1)] assms(2-4) in \<open>auto simp: lock_ok_def\<close>)
  then show ?thesis using d by (simp add: view_ok_def)
qed

section \<open>The operations and the view\<close>

lemma view_fields:
  "v_cams (view_of m) = cams m" "v_fresh (view_of m) = fresh m" "v_held (view_of m) = held m" "v_pubs (view_of m) = pubs m"
  "v_closed (view_of m) = closed_streams m" "v_streams (view_of m) = dom (streams m)"
  "v_down (view_of m) = (MgrCtx \<in> cancelled m)" "v_torn (view_of m) = {r. RtCtx r \<in> cancelled m}"
  by (simp_all add: view_of_def)

lemma view_rts:
  "rts m r = Some rt \<Longrightarrow> v_cam (view_of m) r = Some (rt_camera rt)"
  "rts m r = Some rt \<Longrightarrow> v_loop (view_of m) r = Some (rt_loop rt)"
  "rts m r = Some rt \<Longrightarrow> v_hold (view_of m) r = rt_stream rt"
  "rts m r = None \<Longrightarrow> v_hold (view_of m) r = None" "dom (v_cam (view_of m)) = dom (rts m)"
  by (auto simp: view_of_def)

lemma view_start_consumers:
  assumes "rts m r = Some rt" "streams m s = Some ts"
  shows "view_of (start_consumers env r c s m) = add_cons r c s (consumer_kinds env (rt_camera rt) ts) (view_of m)"
  using assms by (simp add: start_consumers_def view_launch_all)

lemma view_detach:
  assumes "rts m r = Some rt"
  shows "view_of (detach_push r m) = detach r (view_of m)" "rts (detach_push r m) r \<noteq> None"
    "streams (detach_push r m) = streams m" "fresh (detach_push r m) = fresh m"
proof -
  have r: "r \<in> dom (rts m)" using assms by auto
  then show "view_of (detach_push r m) = detach r (view_of m)"
    using assms by (auto simp: detach_push_def Let_def detach_def view_rts(3) split: option.split)
  have "dom (rts (detach_push r m)) = dom (rts m)"
    by (auto simp: detach_push_def Let_def split: option.split)
  then show "rts (detach_push r m) r \<noteq> None" using r by auto
  show "streams (detach_push r m) = streams m" "fresh (detach_push r m) = fresh m"
    by (simp_all add: detach_push_def Let_def set_state_def clear_stream_def upd_rt_def signal_def close_tc_def
        close_str_def cancel_ctx_def split: option.split prod.split)
qed

lemma view_stop_begin:
  assumes "rts m r = Some rt" "rt_loop rt \<noteq> NotStarted"
  shows "view_of (stop_begin r m) = tear r (view_of m)" "pubs (stop_begin r m) = pubs m"
proof -
  show "view_of (stop_begin r m) = tear r (view_of m)"
    using assms by (auto simp: stop_begin_def Let_def tear_def view_rts(3) split: option.split)
  show "pubs (stop_begin r m) = pubs m"
    by (simp add: stop_begin_def Let_def upd_rt_def close_tc_def close_str_def cancel_ctx_def split: option.split prod.split)
qed

lemma view_start_new:
  assumes "rts m (fresh m) = None"
  shows "view_of (start_new cam m) = create cam (view_of m)"
  using assms
  by (auto simp: start_new_def rt_start_def create_rt_def create_def)
    (auto simp: view_of_def set_loop_def set_state_def upd_rt_def fun_eq_iff)

section \<open>Every operation keeps the invariant\<close>

lemma loop_cases:
  assumes "view_ok (view_of m)" "rts m r = Some rt"
  shows "loop_holds (rt_loop rt) (rt_stream rt) (source_type (rt_camera rt))"
    and "cams m c = Some r \<Longrightarrow> cam_id (rt_camera rt) = c"
  using loops_okD(3) [OF view_okD(3) [OF assms(1)], of r] registry_okD(1) [OF view_okD(1) [OF assms(1)], of c r]
    view_rts(1-3) [OF assms(2)]
  by (simp_all add: view_fields)

lemma registered_rt:
  assumes "view_ok (view_of m)" "cams m c = Some r"
  obtains rt where "rts m r = Some rt" "cam_id (rt_camera rt) = c" "rt_loop rt \<noteq> NotStarted"
proof -
  obtain cam where "v_cam (view_of m) r = Some cam"
    using registry_okD(1) [OF view_okD(1) [OF assms(1)], of c r] assms(2) by (auto simp: view_fields)
  then obtain rt where rt: "rts m r = Some rt" by (auto simp: view_of_def)
  then show thesis using that loop_cases [OF assms(1) rt] assms(2) by (auto simp: loop_holds_def split: loop.splits)
qed

lemma fresh_unused: "view_ok (view_of m) \<Longrightarrow> rts m (fresh m) = None"
  using drawn_fresh(5) [OF view_okD(6), of "view_of m"] by (simp add: view_of_def)

lemma start_new_ok:
  assumes "view_ok (view_of m)" "held m = Free" "cams m (cam_id cam) = None"
  shows "view_ok (view_of (start_new cam m))"
  unfolding view_start_new [OF fresh_unused [OF assms(1)]]
  by (rule create_view_ok) (use assms in \<open>simp_all add: view_fields\<close>)

lemma start_camera_ok:
  assumes "view_ok (view_of m)" "start_camera cam m = Some m'"
  shows "view_ok (view_of m')"
proof -
  have f: "held m = Free" using assms(2) by (auto simp: start_camera_def split: if_splits)
  show ?thesis
  proof (cases "cams m (cam_id cam)")
    case None
    then have "m' = start_new cam m" using assms(2) f by (simp add: start_camera_def)
    then show ?thesis using start_new_ok [OF assms(1) f None] by simp
  next
    case (Some r)
    obtain rt where rt: "rts m r = Some rt" "rt_loop rt \<noteq> NotStarted" using registered_rt [OF assms(1) Some] by blast
    have "m' = (stop_begin r m)\<lparr>held := Replacing cam r\<rparr>" using assms(2) f Some by (simp add: start_camera_def)
    then show ?thesis
      using tear_replacing [OF assms(1), of cam r] f Some by (simp add: view_stop_begin [OF rt] view_fields)
  qed
qed

lemma started_ok:
  assumes "view_ok (view_of m)" "start_camera_done m = Some m'"
  shows "view_ok (view_of m')"
proof -
  obtain cam r where h: "held m = Replacing cam r"
    and m': "m' = start_new cam (m\<lparr>held := Free, cams := (cams m)(cam_id cam := None)\<rparr>)"
    using assms(2) by (auto simp: start_camera_done_def split: lock.splits if_splits)
  have "view_of (m\<lparr>held := Free, cams := (cams m)(cam_id cam := None)\<rparr>) =
      (view_of m)\<lparr>v_held := Free, v_cams := (v_cams (view_of m))(cam_id cam := None)\<rparr>"
    by (simp add: view_of_def)
  then have "view_ok (view_of (m\<lparr>held := Free, cams := (cams m)(cam_id cam := None)\<rparr>))"
    using released [OF assms(1), of cam r] h by (simp add: view_fields)
  then show ?thesis unfolding m' by (rule start_new_ok) simp_all
qed

lemma remove_camera_ok:
  assumes "view_ok (view_of m)" "remove_camera c m = Some m'"
  shows "view_ok (view_of m')"
proof (cases "cams m c")
  case None
  then show ?thesis using assms by (auto simp: remove_camera_def split: if_splits)
next
  case (Some r)
  have f: "held m = Free" using assms(2) by (auto simp: remove_camera_def split: if_splits)
  obtain rt where rt: "rts m r = Some rt" "rt_loop rt \<noteq> NotStarted" using registered_rt [OF assms(1) Some] by blast
  let ?m = "m\<lparr>cams := (cams m)(c := None)\<rparr>"
  have "view_of ?m = (view_of m)\<lparr>v_cams := (v_cams (view_of m))(c := None)\<rparr>" by (simp add: view_of_def)
  moreover have "view_of (stop_begin r ?m) = tear r (view_of ?m)" using rt by (intro view_stop_begin) simp_all
  ultimately have "view_of m' = (tear r (view_of m))\<lparr>v_cams := (v_cams (view_of m))(c := None)\<rparr>"
    using assms(2) f Some by (auto simp: remove_camera_def tear_def)
  then show ?thesis using tear_removed [OF assms(1), of c r] f Some by (simp add: view_fields)
qed

lemma stop_next_ok:
  assumes "view_ok (view_of m)" "stop_next m = Some m'"
  shows "view_ok (view_of m')"
proof -
  note l = registry_okD(5) [OF view_okD(1) [OF assms(1)], unfolded lock_ok_def view_fields]
  consider "held m = Stopping []" "m' = m\<lparr>held := Free\<rparr>"
    | r rs where "held m = Stopping (r # rs)" "m' = (stop_begin r m)\<lparr>held := Draining r rs\<rparr>"
    | r rs where "held m = Draining r rs" "m' = m\<lparr>held := Stopping rs\<rparr>"
    using assms(2) by (auto simp: stop_next_def split: lock.splits list.splits if_splits)
  then show ?thesis
  proof cases
    case 1
    then show ?thesis using held_ok [OF assms(1), of "[]" Free 0] l by (simp add: view_fields)
  next
    case (2 r rs)
    then have d: "v_down (view_of m)" "r \<in> dom (rts m)" "set rs \<subseteq> dom (rts m)"
      using l by (auto simp: view_fields view_rts(5))
    then obtain rt where rt: "rts m r = Some rt" by blast
    then have "rt_loop rt \<noteq> NotStarted" using loop_cases [OF assms(1) rt] by (auto simp: loop_holds_def)
    then have v: "view_of (stop_begin r m) = tear r (view_of m)" by (rule view_stop_begin [OF rt])
    have "view_ok (tear r (view_of m))"
      by (rule tear_down [OF assms(1)]) (use d 2 in \<open>auto simp: view_fields view_rts(5)\<close>)
    from held_ok [OF this, of rs "Draining r rs" r] show ?thesis
      using d by (simp add: 2 v tear_def view_rts(5))
  next
    case (3 r rs)
    then show ?thesis using held_ok [OF assms(1), of rs "Stopping rs" 0] l by (simp add: view_fields)
  qed
qed

lemma stop_all_ok:
  assumes "view_ok (view_of m)" "stop_all order m = Some m'"
  shows "view_ok (view_of m')"
proof -
  have f: "held m = Free" "set order = ran (cams m)" "m' = (cancel_ctx MgrCtx m)\<lparr>held := Stopping order\<rparr>"
    using assms(2) by (auto simp: stop_all_def split: if_splits)
  have "set order \<subseteq> dom (v_cam (view_of m))"
    using f(2) registered_rt [OF assms(1)] by (auto simp: ran_def view_rts(5)) blast
  then show ?thesis using down_ok [OF assms(1), of order "Stopping order"] f by (simp add: view_fields)
qed

text \<open>The loop.\<close>

lemma set_loop_ok:
  assumes "view_ok (view_of m)" "rts m r = Some rt" "rt_loop rt \<noteq> Passive" "rt_stream rt = None"
    and "l \<in> {Finished, Top b, Waiting b, Dialing n b}"
  shows "view_ok (view_of (set_loop r l m))"
proof -
  have "r \<in> dom (rts m)" using assms(2) by auto
  moreover have "view_ok ((view_of m)\<lparr>v_loop := (v_loop (view_of m))(r \<mapsto> l)\<rparr>)"
    by (rule loop_ok [OF assms(1), of r "rt_loop rt"]) (use assms(2-5) in \<open>auto simp: view_rts loop_holds_def\<close>)
  ultimately show ?thesis by simp
qed

lemma idle_holds_none:
  assumes "view_ok (view_of m)" "rts m r = Some rt" "rt_loop rt \<noteq> Passive" "\<And>n s b. rt_loop rt \<noteq> Connected n s b"
  shows "rt_stream rt = None" "source_type (rt_camera rt) \<noteq> SourceRTMP"
  using loop_cases(1) [OF assms(1,2)] assms(3,4) by (auto simp: loop_holds_def split: loop.splits)

lemma sup_top_ok:
  assumes "view_ok (view_of m)" "sup_top gb t r m = Some m'"
  shows "view_ok (view_of m')"
proof -
  obtain rt b where rt: "rts m r = Some rt" "rt_loop rt = Top b"
    using assms(2) by (auto simp: sup_top_def split: option.splits loop.splits)
  have n: "rt_stream rt = None" using idle_holds_none(1) [OF assms(1) rt(1)] rt(2) by simp
  have st: "rts (set_state r st e m0) r = Some (rt\<lparr>rt_state := st, rt_err := e\<rparr>)" if "rts m0 r = Some rt" for st e m0
    using that by (simp add: set_state_def upd_rt_def)
  consider st e where "m' = set_loop r Finished (set_state r st e m)"
    | "m' = set_loop r (Dialing (fresh m) b) (set_state r StateConnecting [] (m\<lparr>fresh := Suc (fresh m)\<rparr>))"
    using assms(2) rt by (auto simp: sup_top_def split: if_splits)
  then show ?thesis
  proof cases
    case (1 st e)
    have "view_ok (view_of (set_state r st e m))" using assms(1) by simp
    from set_loop_ok [OF this st [OF rt(1)], of Finished 0 0] show ?thesis using rt n by (simp add: 1)
  next
    case 2
    have "view_ok (view_of (set_state r StateConnecting [] (m\<lparr>fresh := Suc (fresh m)\<rparr>)))"
      using fresh_ok [OF assms(1), of "Suc (fresh m)"] by (simp add: view_fields)
    from set_loop_ok [OF this st, of "Dialing (fresh m) b" b "fresh m"] show ?thesis using rt n by (simp add: 2)
  qed
qed

lemma sup_wait_ok:
  assumes "view_ok (view_of m)" "rts m r = Some rt" "rt_loop rt \<in> {Dialing n b, Waiting b}" "l \<in> {Finished, Top b', Waiting b'}"
  shows "view_ok (view_of (set_loop r l (set_state r st e m)))"
proof -
  have n: "rt_stream rt = None" using idle_holds_none(1) [OF assms(1,2)] assms(3) by auto
  have "rts (set_state r st e m) r = Some (rt\<lparr>rt_state := st, rt_err := e\<rparr>)"
    using assms(2) by (simp add: set_state_def upd_rt_def)
  from set_loop_ok [OF _ this, of l b' 0] show ?thesis using assms n by auto
qed

lemma cancel_rts [simp]: "rts (cancel_ctx c m) = rts m"
  by (simp add: cancel_ctx_def)

lemma sup_cancelled_ok:
  assumes "view_ok (view_of m)" "sup_cancelled r m = Some m'"
  shows "view_ok (view_of m')"
proof -
  obtain rt where rt: "rts m r = Some rt" using assms(2) by (auto simp: sup_cancelled_def split: option.splits)
  consider n b where "rt_loop rt = Dialing n b" "m' = set_loop r Finished (set_state r StateIdle [] (cancel_ctx (RunCtx r n) m))"
    | b where "rt_loop rt = Waiting b" "m' = set_loop r Finished (set_state r StateIdle [] m)"
    using assms(2) rt by (auto simp: sup_cancelled_def split: loop.splits if_splits)
  then show ?thesis
  proof cases
    case (1 n b)
    have "view_ok (view_of (cancel_ctx (RunCtx r n) m))" using assms(1) by simp
    then show ?thesis using sup_wait_ok [of "cancel_ctx (RunCtx r n) m" r rt n b Finished 0] rt by (simp add: 1)
  next
    case (2 b)
    then show ?thesis using sup_wait_ok [OF assms(1) rt, of 0 b Finished 0] by simp
  qed
qed

lemma sup_timer_ok:
  assumes "view_ok (view_of m)" "sup_timer r m = Some m'"
  shows "view_ok (view_of m')"
proof -
  obtain rt b where rt: "rts m r = Some rt" "rt_loop rt = Waiting b" "m' = set_loop r (Top (next_backoff b)) m"
    using assms(2) by (auto simp: sup_timer_def split: option.splits loop.splits)
  have "rt_stream rt = None" using idle_holds_none(1) [OF assms(1) rt(1)] rt(2) by simp
  then show ?thesis
    using set_loop_ok [OF assms(1) rt(1), of "Top (next_backoff b)" "next_backoff b" 0] rt(2,3) by simp
qed

lemma sup_err_ok:
  assumes "view_ok (view_of m)" "sup_err err r m = Some m'"
  shows "view_ok (view_of m')"
proof -
  obtain rt where rt: "rts m r = Some rt" using assms(2) by (auto simp: sup_err_def split: option.splits)
  have dom: "r \<in> dom (rts m)" using rt by auto
  consider n b where "rt_loop rt = Dialing n b" "m' = set_loop r (Waiting b) (set_state r StateError err (cancel_ctx (RunCtx r n) m))"
    | n s b where "rt_loop rt = Connected n s b"
    using assms(2) rt by (auto simp: sup_err_def Let_def split: loop.splits)
  then show ?thesis
  proof cases
    case (1 n b)
    have "view_ok (view_of (cancel_ctx (RunCtx r n) m))" using assms(1) by simp
    then show ?thesis using sup_wait_ok [of "cancel_ctx (RunCtx r n) m" r rt n b "Waiting b" b] rt by (simp add: 1)
  next
    case (2 n s b)
    let ?m = "clear_stream r (close_str s m)"
    have m': "view_of m' = (view_of ?m)\<lparr>v_loop := (v_loop (view_of ?m))(r \<mapsto> Waiting b)\<rparr>"
    proof -
      let ?n = "cancel_ctx (RunCtx r n) ?m"
      define x where "x = (if ctx_done ?n (RtCtx r) then ?n else signal (Offline (cam_id (rt_camera rt))) (set_state r StateError err ?n))"
      have "m' = set_loop r (Waiting b) x" using assms(2) rt by (simp add: sup_err_def Let_def 2 x_def)
      moreover have "dom (rts x) = dom (rts m)" "view_of x = view_of ?m" by (simp_all add: x_def)
      ultimately show ?thesis using dom by simp
    qed
    have l: "v_loop (view_of m) r = Some (Connected n s b)" using 2 view_rts(2) [OF rt] by simp
    have "v_hold (view_of m) r = Some s \<or> v_hold (view_of m) r = None \<and> s \<in> v_closed (view_of m)"
      using holding_okD(5) [OF view_okD(2) [OF assms(1)] l] loop_cases(1) [OF assms(1) rt] 2 view_rts(3) [OF rt]
      by (auto simp: loop_holds_def)
    then have d: "view_of (clear_stream r (close_str s m)) = detach r (view_of m)"
      using dom by (auto simp: detach_def insert_absorb fun_upd_idem_iff)
    have "v_loop (detach r (view_of m)) r = Some (Connected n s b)" using l by (simp add: detach_def)
    from loop_ok [OF detach_ok [OF assms(1)] this, of "Waiting b"]
    have "view_ok ((detach r (view_of m))\<lparr>v_loop := (v_loop (detach r (view_of m)))(r \<mapsto> Waiting b)\<rparr>)"
      by (simp add: detach_def loop_holds_def)
    then show ?thesis unfolding m' d .
  qed
qed

lemma sup_ready_ok:
  assumes "view_ok (view_of m)" "sup_ready env ts r m = Some m'"
  shows "view_ok (view_of m')"
proof -
  obtain rt n b where rt: "rts m r = Some rt" "rt_loop rt = Dialing n b"
    using assms(2) by (auto simp: sup_ready_def split: option.splits loop.splits)
  define s where "s = fresh m"
  define m1 where "m1 = set_state r StateRunning [] (set_stream r s (m\<lparr>streams := (streams m)(s \<mapsto> ts), fresh := Suc s\<rparr>))"
  have m': "m' = set_loop r (Connected n s 1) (start_consumers env r (RunCtx r n) s m1)"
    using assms(2) rt by (simp add: sup_ready_def m1_def s_def Let_def)
  have hold: "v_hold (view_of m) r = None" "source_type (rt_camera rt) \<noteq> SourceRTMP"
    using idle_holds_none [OF assms(1) rt(1)] rt(2) view_rts(3) [OF rt(1)] by simp_all
  have dom: "r \<in> dom (rts m)" using rt by auto
  obtain rt1 where rt1: "rts m1 r = Some rt1" "rt_camera rt1 = rt_camera rt" and st: "streams m1 s = Some ts"
    using rt(1) by (simp add: m1_def set_state_def set_stream_def upd_rt_def signal_def)
  let ?ks = "consumer_kinds env (rt_camera rt) ts"
  have v1: "view_of m1 = (view_of m)\<lparr>v_streams := insert s (v_streams (view_of m)), v_fresh := Suc s,
      v_hold := (v_hold (view_of m))(r \<mapsto> s)\<rparr>"
    using dom by (simp add: m1_def)
  have "dom (rts (start_consumers env r (RunCtx r n) s m1)) = dom (rts m1)"
    by (simp add: start_consumers_def rt1 st fold_invariant [where P = "\<lambda>m. dom (rts m) = dom (rts m1)" and Q = "\<lambda>_. True"])
  then have d: "r \<in> dom (rts (start_consumers env r (RunCtx r n) s m1))" using rt1 by auto
  have v: "view_of m' = add_cons r (RunCtx r n) s ?ks (give r (Connected n s 1) (view_of m))"
    unfolding m' view_rt(1) [OF d] view_start_consumers [OF rt1(1) st] rt1(2) v1
    by (simp add: give_def add_cons_def view_fields s_def [symmetric] cong: if_cong)
  have g: "view_ok (give r (Connected n s 1) (view_of m))"
    by (rule give_ok [OF assms(1) hold(1)])
      (use rt hold dom in \<open>auto simp: view_rts loop_holds_def view_fields s_def\<close>)
  show ?thesis unfolding v
  proof (rule add_cons_ok [OF g])
    show "v_hold (give r (Connected n s 1) (view_of m)) r = Some s" by (simp add: give_def view_fields s_def)
    show "v_cons (give r (Connected n s 1) (view_of m)) k \<noteq> Some (r', s, c', q)" for k r' c' q
      using drawn_cons [OF view_okD(6) [OF assms(1)], of k r' s c' q] drawn_fresh(1) [OF view_okD(6) [OF assms(1)]]
      by (auto simp: give_def view_fields s_def)
  qed (auto intro: one_recorder)
qed

text \<open>Publishers and consumers.\<close>

lemma on_publish_stop_ok:
  assumes "view_ok (view_of m)"
  shows "view_ok (view_of (on_publish_stop key m))"
proof (cases "cams m key")
  case (Some r)
  then obtain rt where "rts m r = Some rt" using registered_rt [OF assms] by blast
  then show ?thesis using detach_ok [OF assms, of r] Some by (simp add: on_publish_stop_def view_detach(1))
qed (simp add: on_publish_stop_def assms)

lemma pub_close_ok:
  assumes "view_ok (view_of m)" "pub_close p m = Some m'"
  shows "view_ok (view_of m')"
proof -
  obtain q where q: "pubs m p = Some q" using assms(2) by (auto simp: pub_close_def split: option.splits)
  have gone: "view_ok ((view_of m0)\<lparr>v_pubs := (pubs m)(p := None)\<rparr>)"
    if "view_ok (view_of m0)" "pubs m0 = pubs m" for m0
    by (rule pubs_change [OF that(1), of _ p]) (auto simp: that(2) view_fields)
  show ?thesis
  proof (cases "p_stream q")
    case None
    then have "m' = m\<lparr>pubs := (pubs m)(p := None)\<rparr>" using assms(2) q by (simp add: pub_close_def)
    then show ?thesis using gone [OF assms(1)] by simp
  next
    case (Some s)
    define m1 where "m1 = on_publish_stop (p_key q) m"
    have m': "m' = (close_str s m1)\<lparr>pubs := (pubs m)(p := None)\<rparr>"
      using assms(2) q Some by (simp add: pub_close_def m1_def split: if_splits)
    have p1: "pubs m1 = pubs m"
      by (simp add: m1_def on_publish_stop_def detach_push_def Let_def set_state_def clear_stream_def upd_rt_def
          signal_def close_tc_def close_str_def cancel_ctx_def split: option.split prod.split)
    have ok1: "view_ok (view_of m1)" unfolding m1_def by (rule on_publish_stop_ok [OF assms(1)])
    note d = view_okD [OF ok1]
    have "r \<in> v_torn (view_of m1)" if h: "v_hold (view_of m1) r = Some s" for r
    proof (rule ccontr)
      assume t: "r \<notin> v_torn (view_of m1)"
      obtain cam where cam: "v_cam (view_of m1) r = Some cam" using loops_okD(2) [OF d(3)] h by blast
      then have k: "cam_id cam = p_key q" using d(4) q p1 Some h unfolding pubs_ok_def by (simp add: view_fields)
      have "cams m1 (p_key q) = Some r"
        using registry_okD(1,2) [OF d(1)] cam t k by (fastforce simp: view_fields)
      moreover have "cams m1 = cams m"
        by (simp add: m1_def on_publish_stop_def detach_push_def Let_def set_state_def clear_stream_def upd_rt_def
            signal_def close_tc_def close_str_def cancel_ctx_def split: option.split prod.split)
      ultimately have c: "cams m (p_key q) = Some r" by simp
      then obtain rt where "rts m r = Some rt" using registered_rt [OF assms(1)] by blast
      then have "view_of m1 = detach r (view_of m)" using c by (simp add: m1_def on_publish_stop_def view_detach(1))
      then show False using h by (simp add: detach_def)
    qed
    moreover have "s \<in> v_streams (view_of m1)" using drawn_pubs [OF d(6)] q p1 Some by (simp add: view_fields)
    ultimately have "view_ok (view_of (close_str s m1))" using close_free [OF ok1] by simp
    then show ?thesis unfolding m' using gone [of "close_str s m1"] p1 by (simp add: close_str_def)
  qed
qed

lemma attach_ok:
  assumes "view_ok (view_of m)" "held m = Free" "cams m key = Some r" "rts m r = Some rt"
    and "source_type (rt_camera rt) = SourceRTMP" "s = fresh m"
    and "m' = attach_push env r s (m\<lparr>streams := (streams m)(s \<mapsto> ts), fresh := Suc s\<rparr>)"
  shows "view_ok (view_of m')" "v_hold (view_of m') r = Some s" "s \<in> v_streams (view_of m')"
    "v_cam (view_of m') = v_cam (view_of m)" "pubs m' = pubs m"
proof -
  define m1 where "m1 = m\<lparr>streams := (streams m)(s \<mapsto> ts), fresh := Suc s\<rparr>"
  define m2 where "m2 = detach_push r m1"
  define m3 where "m3 = set_state r StateRunning [] (set_stream r s
      (upd_rt r (\<lambda>rt. rt\<lparr>push_cancel := Some (Suc s)\<rparr>) (m2\<lparr>fresh := Suc (Suc s)\<rparr>)))"
  have r1: "rts m1 r = Some rt" using assms(4) by (simp add: m1_def)
  have f2: "fresh m2 = Suc s" "streams m2 = (streams m)(s \<mapsto> ts)" using view_detach(3,4) [OF r1] by (simp_all add: m2_def m1_def)
  have m': "m' = start_consumers env r (PushCtx (Suc s)) s m3"
    using assms(7) f2 by (simp add: attach_push_def Let_def m3_def m2_def m1_def)
  have l: "v_loop (view_of m) r = Some Passive"
    using loop_cases(1) [OF assms(1,4)] assms(5) view_rts(2) [OF assms(4)] by (auto simp: loop_holds_def split: loop.splits)
  have dom2: "r \<in> dom (rts m2)" using view_detach(2) [OF r1] by (auto simp: m2_def)
  have v3: "view_of m3 = (give r Passive (detach r (view_of m)))\<lparr>v_fresh := Suc (Suc s)\<rparr>"
  proof -
    have "view_of m2 = detach r (view_of m1)" unfolding m2_def by (rule view_detach(1) [OF r1])
    moreover have "view_of m1 = (view_of m)\<lparr>v_streams := insert s (v_streams (view_of m)), v_fresh := Suc s\<rparr>"
      by (simp add: m1_def)
    moreover have "(v_loop (view_of m))(r \<mapsto> Passive) = v_loop (view_of m)" using l by (simp add: fun_upd_idem_iff)
    ultimately show ?thesis using dom2 assms(6) by (simp add: m3_def give_def detach_def view_fields)
  qed
  have st3: "streams m3 s = Some ts" using f2 by (simp add: m3_def set_state_def set_stream_def upd_rt_def signal_def)
  have "dom (rts m3) = dom (rts m2)" by (simp add: m3_def) 
  then obtain rt3 where rt3: "rts m3 r = Some rt3" using dom2 by blast
  let ?ks = "consumer_kinds env (rt_camera rt3) ts"
  have v: "view_of m' = add_cons r (PushCtx (Suc s)) s ?ks (view_of m3)"
    unfolding m' by (rule view_start_consumers [OF rt3 st3])
  have "view_ok (give r Passive (detach r (view_of m)))"
  proof (rule give_ok [OF detach_ok [OF assms(1)]])
    show "v_down (detach r (view_of m))" if "r \<in> v_torn (detach r (view_of m))"
      using registry_okD(3) [OF view_okD(1) [OF assms(1)], of key r] that assms(2,3) by (simp add: detach_def view_fields)
  qed (use l assms(4,5) in \<open>auto simp: detach_def view_rts loop_holds_def\<close>)
  then have ok3: "view_ok (view_of m3)"
    unfolding v3 using assms(6) by (intro fresh_ok) (simp_all add: give_def detach_def view_fields)
  have h3: "v_hold (view_of m3) r = Some s" "v_loop (view_of m3) r = Some Passive" "s \<in> v_streams (view_of m3)"
    "v_cam (view_of m3) = v_cam (view_of m)" "v_cons (view_of m3) = v_cons (view_of m)"
    using assms(6) by (simp_all add: v3 give_def detach_def view_fields)
  show "view_ok (view_of m')" unfolding v
  proof (rule add_cons_ok [OF ok3 h3(1)])
    show "v_cons (view_of m3) k \<noteq> Some (r', s, c', q)" for k r' c' q
      using drawn_cons [OF view_okD(6) [OF assms(1)], of k r' s c' q] drawn_fresh(1) [OF view_okD(6) [OF assms(1)]] assms(6)
      unfolding h3(5) by (auto simp: view_fields)
  qed (use h3(2) in \<open>auto intro: one_recorder\<close>)
  show "v_hold (view_of m') r = Some s" "s \<in> v_streams (view_of m')" "v_cam (view_of m') = v_cam (view_of m)"
    using h3 by (simp_all add: v add_cons_def)
  have "v_pubs (view_of m') = v_pubs (view_of m)" by (simp add: v v3 add_cons_def give_def detach_def)
  then show "pubs m' = pubs m" by (simp add: view_fields)
qed

lemma pub_publish_ok:
  assumes "view_ok (view_of m)" "pub_publish env ts p m = Some m'"
  shows "view_ok (view_of m')"
proof -
  define s where "s = fresh m"
  define m1 where "m1 = m\<lparr>streams := (streams m)(s \<mapsto> ts), fresh := Suc s\<rparr>"
  obtain q where q: "pubs m p = Some q" "held m = Free" "p_stream q = None"
    using assms(2) by (auto simp: pub_publish_def split: option.splits if_splits)
  consider "m' = close_str s m1"
    | r rt where "cams m (p_key q) = Some r" "rts m r = Some rt" "source_type (rt_camera rt) = SourceRTMP"
      "m' = (attach_push env r s m1)\<lparr>pubs := (pubs (attach_push env r s m1))(p \<mapsto> q\<lparr>p_stream := Some s\<rparr>)\<rparr>"
    using assms(2) q
    by (auto simp: pub_publish_def on_publish_start_def Let_def m1_def s_def split: bind_splits option.splits if_splits)
  then show ?thesis
  proof cases
    case 1
    show ?thesis using rejected [OF assms(1)] by (simp add: 1 m1_def s_def view_fields)
  next
    case (2 r rt)
    note a = attach_ok [OF assms(1) q(2) 2(1-3) s_def refl, of env ts, folded m1_def]
    show ?thesis unfolding 2(4) view_pubs
    proof (rule pubs_change [OF a(1), of _ p])
      fix q' s' r' cam
      assume h: "((pubs (attach_push env r s m1))(p \<mapsto> q\<lparr>p_stream := Some s\<rparr>)) p = Some q'" "p_stream q' = Some s'"
        "v_hold (view_of (attach_push env r s m1)) r' = Some s'" "v_cam (view_of (attach_push env r s m1)) r' = Some cam"
      then have "r' = r" using holding_okD(1) [OF view_okD(2) [OF a(1)] _ a(2)] by auto
      then show "cam_id cam = p_key q'" using h a(4) view_rts(1) [OF 2(2)] loop_cases(2) [OF assms(1) 2(2,1)] by auto
    qed (use a in \<open>auto simp: view_fields\<close>)
  qed
qed

lemma connect_ok:
  assumes "view_ok (view_of m)"
  shows "view_ok (view_of (m\<lparr>pubs := (pubs m)(fresh m \<mapsto> \<lparr>p_key = key, p_stream = None\<rparr>), fresh := Suc (fresh m)\<rparr>))"
proof -
  have "view_ok ((view_of m)\<lparr>v_pubs := (pubs m)(fresh m \<mapsto> \<lparr>p_key = key, p_stream = None\<rparr>)\<rparr>)"
    by (rule pubs_change [OF assms, of _ "fresh m"]) (auto simp: view_fields)
  from fresh_ok [OF this, of "Suc (fresh m)"] show ?thesis by (simp add: view_fields)
qed

lemma consumer_ok:
  assumes "view_ok (view_of m)"
  shows "consumer_attach k m = Some m' \<Longrightarrow> view_ok (view_of m')" "consumer_exit k m = Some m' \<Longrightarrow> view_ok (view_of m')"
proof -
  assume a: "consumer_attach k m = Some m'"
  then have "view_of m' = view_of m"
    by (auto simp: consumer_attach_def view_of_def fun_eq_iff split: option.splits if_splits)
  then show "view_ok (view_of m')" using assms by simp
next
  assume a: "consumer_exit k m = Some m'"
  then have "view_of m' = view_of (m\<lparr>consumers := (consumers m)(k := None)\<rparr>)"
    by (auto simp: consumer_exit_def Let_def split: option.splits if_splits)
  also have "\<dots> = (view_of m)\<lparr>v_cons := (v_cons (view_of m))(k := None)\<rparr>"
    by (auto simp: view_of_def fun_eq_iff)
  finally show "view_ok (view_of m')" using cons_gone [OF assms] by simp
qed

lemma live_ok:
  assumes "view_ok (view_of m)"
  shows "view_ok (view_of (snd (live_stream enc r m)))"
proof -
  have "view_ok (view_of (m0\<lparr>fresh := Suc (fresh m0)\<rparr>))" if "view_of m0 = view_of m" for m0
    using fresh_ok [OF assms, of "Suc (fresh m0)"] that by (simp add: view_of_def)
  moreover have "view_of (close_tc tc m) = view_of m" for tc by simp
  moreover have "fresh (close_tc tc m) = fresh m" for tc by (simp add: close_tc_def split: option.split prod.split)
  ultimately show ?thesis using assms
    by (auto simp: live_stream_def split: option.split prod.split bind_splits)
qed

lemma apply_ok:
  assumes "view_ok (view_of m)" "apply_camera cam m = Some m'"
  shows "view_ok (view_of m')"
proof (cases "cam_enabled cam")
  case True
  have "view_ok (view_of (signal (HaConfigure (cam_id cam)) m))" using assms(1) by simp
  then show ?thesis by (rule start_camera_ok) (use assms(2) True in \<open>simp add: apply_camera_def\<close>)
next
  case False
  show ?thesis by (rule remove_camera_ok [OF assms(1)]) (use assms(2) False in \<open>simp add: apply_camera_def\<close>)
qed

lemmas mgr_ops_ok = apply_ok start_camera_ok started_ok remove_camera_ok stop_all_ok stop_next_ok sup_top_ok sup_ready_ok
  sup_err_ok sup_cancelled_ok sup_timer_ok pub_publish_ok pub_close_ok consumer_ok

lemma mgr_do_ok:
  assumes "view_ok (view_of m)" "mgr_do x m = Some m'"
  shows "view_ok (view_of m')"
  using assms
  by (cases x)
    (simp_all, (erule (1) mgr_ops_ok | (hypsubst, erule connect_ok) | (hypsubst, erule live_ok))+)

lemma mgr_run_ok: "view_ok (view_of m) \<Longrightarrow> mgr_run xs m = Some m' \<Longrightarrow> view_ok (view_of m')"
  by (induction xs arbitrary: m) (auto split: option.splits dest: mgr_do_ok)

section \<open>What the manager guarantees\<close>

definition open_stream :: "mgr \<Rightarrow> nat \<Rightarrow> bool" where
  "open_stream m s \<longleftrightarrow> s \<in> dom (streams m) \<and> s \<notin> closed_streams m"

text \<open>A recorder that still receives: its stream is open and its context not done.\<close>

definition recording_now :: "mgr \<Rightarrow> nat \<Rightarrow> string \<Rightarrow> bool" where
  "recording_now m k c \<longleftrightarrow>
     (case consumers m k of
        Some x \<Rightarrow> recorder_kind (co_kind x) \<and> co_stream x \<notin> closed_streams m \<and> \<not> ctx_done m (co_ctx x) \<and>
          rt_cam (co_rt x) m = c \<and> rts m (co_rt x) \<noteq> None
      | None \<Rightarrow> False)"

lemma recording_held:
  assumes "view_ok (view_of m)" "recording_now m k c"
  obtains r s x q where "v_cons (view_of m) k = Some (r, s, x, q)" "recorder_kind q" "v_hold (view_of m) r = Some s"
    "r \<notin> v_torn (view_of m)" "cams m c = Some r"
proof -
  obtain x where x: "consumers m k = Some x" "recorder_kind (co_kind x)" "co_stream x \<notin> closed_streams m"
    "\<not> ctx_done m (co_ctx x)" "rt_cam (co_rt x) m = c" "rts m (co_rt x) \<noteq> None"
    using assms(2) by (auto simp: recording_now_def split: option.splits)
  have v: "v_cons (view_of m) k = Some (co_rt x, co_stream x, co_ctx x, co_kind x)" using x(1) by (simp add: view_of_def)
  note d = view_okD [OF assms(1)]
  have h: "v_hold (view_of m) (co_rt x) = Some (co_stream x)" using consD(1) [OF d(5) v] x(3) by (simp add: view_fields)
  have t: "co_rt x \<notin> v_torn (view_of m)"
  proof (cases "co_ctx x")
    case (PushCtx n)
    then have "v_loop (view_of m) (co_rt x) = Some Passive" "MgrCtx \<notin> cancelled m"
      using consD(2) [OF d(5) v] x(4) by (auto simp: ctx_done_def)
    then show ?thesis using holding_okD(4) [OF d(2) h] x(3) by (auto simp: view_fields)
  next
    case (RunCtx r n)
    then show ?thesis using consD(2) [OF d(5) v] x(4) by (auto simp: ctx_done_def view_fields)
  qed (use consD(2) [OF d(5) v] in auto)
  obtain rt where rt: "rts m (co_rt x) = Some rt" using x(6) by blast
  then obtain c' where c': "cams m c' = Some (co_rt x)"
    using registry_okD(2) [OF d(1) view_rts(1) [OF rt] t] by (auto simp: view_fields)
  moreover have "c' = c" using loop_cases(2) [OF assms(1) rt c'] x(5) rt by (simp add: rt_cam_def)
  ultimately show thesis using that v x(2) h t by blast
qed


text \<open>Two cameras and an environment to run the model on.\<close>

definition plain_env :: cons_env where
  "plain_env = \<lparr>motion_available = False, face_realtime = False, transcode_on = False, transcode_available = False\<rparr>"

definition push_camera :: camera where
  "push_camera = \<lparr>cam_id = ''a'', cam_name = ''gate'', cam_enabled = True, source_type = SourceRTMP, url = [], username = [],
     password = [], transport = [], record_on = False, motion_enabled = False, record_mode = [], gb_device = [], gb_channel = []\<rparr>"

definition pull_camera :: camera where
  "pull_camera = push_camera\<lparr>source_type := SourceRTSP, url := ''rtsp://h/s''\<rparr>"

definition h264_track :: track where
  "h264_track = \<lparr>track_id = 0, kind = MediaVideo, track_codec = CodecH264, clock_rate = 90000, sps = [], pps = [], vps = [],
     audio_config = None\<rparr>"

lemmas run_defs = new_mgr_def plain_env_def push_camera_def pull_camera_def h264_track_def start_camera_def start_new_def
  rt_start_def create_rt_def set_loop_def set_state_def upd_rt_def pub_publish_def on_publish_start_def attach_push_def
  detach_push_def cancel_ctx_def close_str_def signal_def close_tc_def clear_stream_def set_stream_def start_consumers_def
  consumer_kinds_def hls_ok_def launch_def rt_cam_def is_video_def consumer_attach_def consumer_exit_def pub_close_def
  on_publish_stop_def stop_begin_def ctx_done_def start_camera_done_def quiet_def sup_top_def sup_ready_def build_pull_source_def
  rtsp_transport_def remove_camera_def


end
