(* ===== verification/Mgr_Races.thy ===== *)
theory Mgr_Races
  imports Mgr_Runtime
begin

text \<open>
  Interleavings of the camera manager (\<^verbatim>\<open>internal/manager\<close>) that end badly, as concrete runs of the
  model of \<open>Mgr_Runtime\<close>: publishers that outlive their attachment, a muxer that is forgotten, two
  starts of one camera at once, and a consumer that attaches too late, after which the manager's
  lock is never released again.
\<close>

section \<open>Publishers and re-publishing\<close>

text \<open>
  \<^verbatim>\<open>OnPublishStop\<close> goes by the stream key alone.  When a second publisher took over a camera, the end
  of the first one's connection closes the second one's stream, whose connection goes on without it.
\<close>

lemma stale_publisher:
  "\<exists>m rt q. mgr_run [Start push_camera, Connect ''a'', Connect ''a'', Publish plain_env [h264_track] 1,
       Publish plain_env [h264_track] 2, PubClose 1] new_mgr = Some m \<and>
     cams m ''a'' = Some 0 \<and> rts m 0 = Some rt \<and> rt_stream rt = None \<and>
     pubs m 2 = Some q \<and> p_stream q = Some 6 \<and> 6 \<in> closed_streams m"
  by (simp add: run_defs Let_def)

text \<open>
  The muxer's goroutine clears the runtime's muxer when it ends, also when a newer stream has
  already put its own there: HLS is then unavailable for a live stream whose muxer runs.
\<close>

lemma muxer_forgotten:
  "\<exists>m rt c. mgr_run [Start push_camera, Connect ''a'', Connect ''a'', Publish plain_env [h264_track] 1, ConsumerAttach 5,
       Publish plain_env [h264_track] 2, ConsumerAttach 8, ConsumerExit 5] new_mgr = Some m \<and>
     rts m 0 = Some rt \<and> rt_stream rt = Some 6 \<and> 6 \<notin> closed_streams m \<and> rt_muxer rt = None \<and>
     consumers m 8 = Some c \<and> co_kind c = HlsMuxer \<and> co_stream c = 6"
  by (simp add: run_defs Let_def)

text \<open>
  A camera that was changed from RTMP to a pulled source keeps the id that is its old publisher's
  stream key: the end of that connection closes the pulled stream, and the reconnect loop, which
  waits for its source alone, stays connected without a stream.
\<close>

lemma publisher_of_changed_camera:
  "\<exists>m rt. mgr_run [Start push_camera, Connect ''a'', Publish plain_env [h264_track] 1, ConsumerAttach 4, Start pull_camera,
       ConsumerExit 4, Started, SupTop False [] 5, SupReady plain_env [h264_track] 5, PubClose 1] new_mgr = Some m \<and>
     cams m ''a'' = Some 5 \<and> rts m 5 = Some rt \<and> rt_loop rt = Connected 6 7 1 \<and> rt_stream rt = None \<and> 7 \<in> closed_streams m"
  by (simp add: run_defs Let_def)

section \<open>Starting and stopping\<close>

text \<open>
  Two overlapping \<^verbatim>\<open>startCamera\<close> of one camera: the first has registered its runtime but not
  started it when the second stops and replaces it.  Started afterwards, the first runtime is
  registered nowhere and not cancelled: it pulls the camera beside the second.
\<close>

lemma racing_starts:
  "\<exists>m1 m rt. start_camera pull_camera (create_rt pull_camera new_mgr) = Some m1 \<and>
     Option.bind (start_camera_done m1) (sup_top False [] 1) = Some m \<and>
     cams (rt_start 0 m) = [''a'' \<mapsto> 1] \<and> rts (rt_start 0 m) 0 = Some rt \<and> rt_loop rt = Top 1 \<and>
     \<not> ctx_done (rt_start 0 m) (RtCtx 0)"
  by (simp add: run_defs Let_def)
 
text \<open>The backoff reaches 32 seconds, above the maximum of 30 that it is compared with.\<close>

lemma backoff_max: "(next_backoff ^^ 5) 1 = 32 \<and> next_backoff 32 = 32 \<and> max_backoff < 32"
  by (simp add: next_backoff_def max_backoff_def eval_nat_numeral)

section \<open>A runtime that never stops\<close>

text \<open>
  A consumer that adds its reader after \<^verbatim>\<open>stop\<close> has closed the stream of a push camera waits for a
  reader that nobody closes and a context that \<^verbatim>\<open>stop\<close> does not cancel (\<open>pushCancel\<close> is left
  alone); \<open>stuck\<close> is that situation while \<^verbatim>\<open>startCamera\<close> waits for the runtime under the manager's lock.
\<close>

definition stuck :: "nat \<Rightarrow> nat \<Rightarrow> mgr \<Rightarrow> bool" where
  "stuck k n m \<longleftrightarrow>
     (\<exists>cam c. held m = Replacing cam (co_rt c) \<and> consumers m k = Some c \<and> co_stage c = Reading True \<and>
        co_ctx c = PushCtx n) \<and> PushCtx n \<notin> cancelled m \<and> MgrCtx \<notin> cancelled m \<and> k < fresh m"

lemma stuck_same:
  "stuck k n m \<Longrightarrow> held m' = held m \<Longrightarrow> consumers m' k = consumers m k \<Longrightarrow> PushCtx n \<notin> cancelled m' \<Longrightarrow>
   MgrCtx \<notin> cancelled m' \<Longrightarrow> fresh m \<le> fresh m' \<Longrightarrow> stuck k n m'"
  by (auto simp: stuck_def)

lemma launch_frame [simp]:
  "held (launch r c s a m) = held m" "cancelled (launch r c s a m) = cancelled m" "fresh (launch r c s a m) = Suc (fresh m)"
  "k < fresh m \<Longrightarrow> consumers (launch r c s a m) k = consumers m k"
  by (simp_all add: launch_def upd_rt_def Let_def)

lemma launch_keeps:
  "held (fold (launch r c s) ks m) = held m \<and> cancelled (fold (launch r c s) ks m) = cancelled m \<and>
   fresh m \<le> fresh (fold (launch r c s) ks m) \<and> (k < fresh m \<longrightarrow> consumers (fold (launch r c s) ks m) k = consumers m k)"
proof (induction ks arbitrary: m)
  case (Cons a ks)
  show ?case using Cons [of "launch r c s a m"] by simp
qed simp

lemma stuck_consumers [simp]:
  "stuck k n m \<Longrightarrow> stuck k n (start_consumers env r c s m)"
  unfolding start_consumers_def
  by (rule stuck_same [of k n m]) (auto simp: stuck_def launch_keeps split: option.split)

lemma stuck_parts [simp]:
  "stuck k n (upd_rt r f m) = stuck k n m" "stuck k n (signal x m) = stuck k n m" "stuck k n (close_str s m) = stuck k n m"
  "stuck k n (close_tc tc m) = stuck k n m" "stuck k n (cancel_ctx (RunCtx r j) m) = stuck k n m"
  "stuck k n (set_loop r l m) = stuck k n m" "stuck k n (set_state r st e m) = stuck k n m"
  "stuck k n (set_stream r s m) = stuck k n m" "stuck k n (clear_stream r m) = stuck k n m"
  "stuck k n m \<Longrightarrow> fresh m \<le> j \<Longrightarrow> stuck k n (m\<lparr>fresh := j\<rparr>)" "stuck k n (m\<lparr>streams := ss\<rparr>) = stuck k n m"
  "stuck k n (m\<lparr>pubs := ps\<rparr>) = stuck k n m" "stuck k n (m\<lparr>signals := xs\<rparr>) = stuck k n m" "fresh (close_tc tc m) = fresh m"
  by (auto simp: stuck_def upd_rt_def signal_def close_str_def close_tc_def cancel_ctx_def set_loop_def set_state_def
      set_stream_def clear_stream_def Let_def split: option.split prod.split)

lemma stuck_held: "stuck k n m \<Longrightarrow> held m \<noteq> Free \<and> (\<forall>l. held m \<noteq> Stopping l) \<and> (\<forall>r l. held m \<noteq> Draining r l)"
  by (auto simp: stuck_def)

lemma stuck_waits: "stuck k n m \<Longrightarrow> start_camera_done m = None"
  unfolding start_camera_done_def quiet_def by (fastforce simp: stuck_def)

lemma stuck_consumer_steps:
  "stuck k n m \<Longrightarrow> consumer_attach j m = Some m' \<Longrightarrow> stuck k n m'"
  "stuck k n m \<Longrightarrow> consumer_exit j m = Some m' \<Longrightarrow> stuck k n m'"
  by (auto simp: stuck_def consumer_attach_def consumer_exit_def ctx_done_def upd_rt_def Let_def split: option.splits if_splits)

lemma stuck_step:
  assumes "stuck k n m" "mgr_do x m = Some m'"
  shows "stuck k n m'"
  using assms stuck_held [OF assms(1)] stuck_waits [OF assms(1)]
  by (cases x)
    (auto simp: apply_camera_def start_camera_def remove_camera_def stop_all_def stop_next_def sup_top_def sup_ready_def
      sup_err_def sup_cancelled_def sup_timer_def pub_publish_def pub_close_def live_stream_def signal_def Let_def
      dest: stuck_consumer_steps split: option.splits if_splits loop.splits lock.splits bind_splits)

lemma stuck_forever: "stuck k n m \<Longrightarrow> mgr_run xs m = Some m' \<Longrightarrow> stuck k n m'"
  by (induction xs arbitrary: m) (auto split: option.splits dest: stuck_step)

text \<open>From then on no step of any goroutine frees the lock of the manager again.\<close>

lemma manager_deadlock:
  "\<exists>m. mgr_run [Start push_camera, Connect ''a'', Publish plain_env [h264_track] 1, Start push_camera, ConsumerAttach 4] new_mgr = Some m \<and>
     (\<forall>xs m'. mgr_run xs m = Some m' \<longrightarrow> held m' \<noteq> Free)"
proof -
  obtain m where m: "mgr_run [Start push_camera, Connect ''a'', Publish plain_env [h264_track] 1, Start push_camera,
      ConsumerAttach 4] new_mgr = Some m" "stuck 4 3 m"
    by (simp add: run_defs stuck_def Let_def)
  then show ?thesis using stuck_forever stuck_held by blast
qed
end
