(* ===== verification/Face_Tables.thy ===== *)
theory Face_Tables
  imports Complex_Main Prelude
begin

text \<open>
  The tables of face recognition (\<^verbatim>\<open>internal/database/face.go\<close>, \<^verbatim>\<open>face_store.go\<close>,
  \<^verbatim>\<open>face_track_store.go\<close>, \<^verbatim>\<open>face_link_store.go\<close>): faces, persons, tracks, links and analysis jobs with the
  statements of their stores over lists of rows.  Times are milliseconds (0 is unset), scores are
  rational numbers (the rounding of \<^verbatim>\<open>float64\<close> is not modelled) and an embedding is the list of the
  bit patterns of its \<^verbatim>\<open>float32\<close> values.
\<close>

section \<open>Rows\<close>

type_synonym embedding = "u32 list"

record bbox =
  box_x :: rat
  box_y :: rat
  box_w :: rat
  box_h :: rat

record face =
  f_id :: string
  f_recording :: string
  f_cam :: string
  f_person :: string
  f_track :: string
  f_ts :: int
  f_offset_ms :: int
  f_bbox :: bbox
  f_score :: rat
  f_quality :: rat
  f_emb :: embedding
  f_dim :: int
  f_model :: string
  f_thumb :: string
  f_exemplar :: bool
  f_confirmed :: bool
  f_ignored :: bool
  f_created :: int

record person =
  p_id :: string
  p_name :: string
  p_notes :: string
  p_cover :: string
  p_named :: bool
  p_faces :: int
  p_first :: int
  p_last :: int
  p_created :: int
  p_updated :: int

record face_track =
  t_id :: string
  t_recording :: string
  t_cam :: string
  t_person :: string
  t_start :: int
  t_end :: int
  t_faces :: int
  t_quality :: rat
  t_emb :: embedding
  t_dim :: int
  t_best :: string
  t_best_offset :: int
  t_cand :: string
  t_cand_sim :: rat
  t_confirmed :: bool
  t_created :: int

datatype link_kind = LinkMust | LinkCannot

record person_link =
  l_id :: string
  l_kind :: link_kind
  l_a :: string
  l_b :: string
  l_created :: int

datatype job_state = JobPending | JobRunning | JobDone | JobFailed | JobSkipped

record face_job =
  j_id :: string
  j_recording :: string
  j_state :: job_state
  j_attempts :: int
  j_error :: string
  j_faces :: int
  j_created :: int
  j_updated :: int

record face_tables =
  faces :: "face list"
  persons :: "person list"
  tracks :: "face_track list"
  links :: "person_link list"
  jobs :: "face_job list"

section \<open>The embedding column\<close>

definition le32_bytes :: "u32 \<Rightarrow> byte list" where
  "le32_bytes w = map (\<lambda>i. ucast (drop_bit (8 * i) w)) [0, 1, 2, 3]"

definition le32_val :: "byte list \<Rightarrow> u32" where
  "le32_val bs = foldr (\<lambda>b acc. (push_bit 8 acc) OR ucast b) bs 0"

definition encode_embedding :: "embedding \<Rightarrow> byte list" where
  "encode_embedding v = concat (map le32_bytes v)"

fun decode_embedding :: "byte list \<Rightarrow> embedding" where
  "decode_embedding (a # b # c # d # bs) = le32_val [a, b, c, d] # decode_embedding bs"
| "decode_embedding bs = []"

lemma bit_byte: "bit (b :: byte) n \<Longrightarrow> n < 8"
  using bit_imp_le_length [of b n] by simp

lemma le32_bit:
  "bit (le32_val [a, b, c, d]) n \<longleftrightarrow> bit a n \<or> (8 \<le> n \<and> bit b (n - 8)) \<or>
     (16 \<le> n \<and> bit c (n - 16)) \<or> (24 \<le> n \<and> bit d (n - 24))"
proof -
  have "n < 32" if "bit b (n - 8) \<or> bit c (n - 16) \<or> bit d (n - 24) \<or> bit a n"
    using that bit_byte [of a n] bit_byte [of b "n - 8"] bit_byte [of c "n - 16"] bit_byte [of d "n - 24"] by linarith
  then show ?thesis
    by (simp only: le32_val_def foldr.simps comp_apply bit_or_iff bit_push_bit_iff bit_unsigned_iff possible_bit_word bit_0_eq bot_apply diff_diff_left le_diff_conv2 id_apply) auto
qed

lemma bit_part: "bit (ucast (drop_bit m w) :: byte) k \<longleftrightarrow> k < 8 \<and> bit (w :: u32) (m + k)"
  by (simp add: bit_simps)

lemma le32_roundtrip: "le32_val (le32_bytes w) = w"
proof (rule bit_word_eqI)
  fix n
  assume "n < LENGTH(32)"
  then consider "n < 8" | "8 \<le> n" "n < 16" | "16 \<le> n" "n < 24" | "24 \<le> n" "n < 32" by simp linarith
  then show "bit (le32_val (le32_bytes w)) n \<longleftrightarrow> bit w n"
    by cases (auto simp: le32_bytes_def le32_bit bit_part bit_unsigned_iff bit_drop_bit_eq)
qed
lemma decode_encode_embedding: "decode_embedding (encode_embedding v) = v"
proof (induction v)
  case (Cons w v)
  obtain a b c d where w: "le32_bytes w = [a, b, c, d]" by (simp add: le32_bytes_def)
  then have "le32_val [a, b, c, d] = w" using le32_roundtrip [of w] by simp
  then show ?case using Cons w by (simp add: encode_embedding_def)
qed (simp add: encode_embedding_def)

section \<open>Faces\<close>

definition create_face :: "string set \<Rightarrow> int \<Rightarrow> face \<Rightarrow> face list \<Rightarrow> face list option" where
  "create_face recs now f rows =
     (if f_id f \<in> f_id ` set rows \<or> f_recording f \<notin> recs then None
      else Some (rows @ [if f_created f = 0 then f\<lparr>f_created := now\<rparr> else f]))"

definition get_face :: "string \<Rightarrow> face list \<Rightarrow> face option" where
  "get_face i rows = List.find (\<lambda>f. f_id f = i) rows"

record face_filter =
  ff_person :: string
  ff_recording :: string
  ff_camera :: string
  ff_track :: string
  ff_from :: "int option"
  ff_to :: "int option"
  ff_exemplars :: bool
  ff_unassigned :: bool
  ff_ignored :: bool
  ff_limit :: int
  ff_offset :: int

definition any_face :: face_filter where
  "any_face = \<lparr>ff_person = [], ff_recording = [], ff_camera = [], ff_track = [], ff_from = None, ff_to = None,
     ff_exemplars = False, ff_unassigned = False, ff_ignored = False, ff_limit = 0, ff_offset = 0\<rparr>"

text \<open>\<open>LIMIT\<close> with \<open>OFFSET\<close>, which the code adds only for positive numbers.\<close>

definition page :: "int \<Rightarrow> int \<Rightarrow> 'a list \<Rightarrow> 'a list" where
  "page limit offset xs =
     (if limit > 0 then take (nat limit) (if offset > 0 then drop (nat offset) xs else xs) else xs)"

text \<open>The same with the length looked at first, for evaluation with large limits.\<close>

lemma page_code [code]:
  "page limit offset xs =
     (if limit > 0
      then let ys = (if offset > 0 then drop (nat offset) xs else xs)
           in if int (length ys) \<le> limit then ys else take (nat limit) ys
      else xs)"
  by (auto simp: page_def Let_def)

definition face_hit :: "face_filter \<Rightarrow> face \<Rightarrow> bool" where
  "face_hit q f \<longleftrightarrow>
     (ff_person q \<noteq> [] \<longrightarrow> f_person f = ff_person q) \<and> (ff_recording q \<noteq> [] \<longrightarrow> f_recording f = ff_recording q) \<and>
     (ff_camera q \<noteq> [] \<longrightarrow> f_cam f = ff_camera q) \<and> (ff_track q \<noteq> [] \<longrightarrow> f_track f = ff_track q) \<and>
     (ff_exemplars q \<longrightarrow> f_exemplar f) \<and> (ff_unassigned q \<longrightarrow> f_person f = []) \<and> (\<not> ff_ignored q \<longrightarrow> \<not> f_ignored f) \<and>
     (case ff_from q of None \<Rightarrow> True | Some t \<Rightarrow> t \<le> f_ts f) \<and> (case ff_to q of None \<Rightarrow> True | Some t \<Rightarrow> f_ts f \<le> t)"

definition list_faces :: "face_filter \<Rightarrow> face list \<Rightarrow> face list" where
  "list_faces q rows = page (ff_limit q) (ff_offset q) (sort_key (\<lambda>f. - f_ts f) (filter (face_hit q) rows))"

definition count_faces_by_recording :: "string \<Rightarrow> face list \<Rightarrow> int" where
  "count_faces_by_recording r rows = int (length (filter (\<lambda>f. f_recording f = r) rows))"

definition assign_track_faces :: "string list \<Rightarrow> string \<Rightarrow> string \<Rightarrow> face list \<Rightarrow> face list" where
  "assign_track_faces ids t p rows =
     map (\<lambda>f. if f_id f \<in> set ids then f\<lparr>f_track := t, f_person := p\<rparr> else f) rows"

definition set_person_by_track :: "string \<Rightarrow> string \<Rightarrow> face list \<Rightarrow> face list" where
  "set_person_by_track t p rows = map (\<lambda>f. if f_track f = t then f\<lparr>f_person := p\<rparr> else f) rows"

definition set_exemplar :: "string \<Rightarrow> bool \<Rightarrow> face list \<Rightarrow> face list" where
  "set_exemplar i b rows = map (\<lambda>f. if f_id f = i then f\<lparr>f_exemplar := b\<rparr> else f) rows"

definition set_ignored :: "string \<Rightarrow> bool \<Rightarrow> face list \<Rightarrow> face list" where
  "set_ignored i b rows = map (\<lambda>f. if f_id f = i then f\<lparr>f_ignored := b\<rparr> else f) rows"

definition reassign_faces :: "string \<Rightarrow> string \<Rightarrow> face list \<Rightarrow> face list" where
  "reassign_faces p q rows = map (\<lambda>f. if f_person f = p then f\<lparr>f_person := q\<rparr> else f) rows"

text \<open>A negative limit is none in SQLite; ties of \<open>ORDER BY quality DESC\<close> keep the order of the table.\<close>

definition best_faces :: "int \<Rightarrow> face list \<Rightarrow> face list" where
  "best_faces keep fs = (let s = sort_key (\<lambda>f. - f_quality f) fs in if keep < 0 then s else take (nat keep) s)"

definition rebuild_exemplars :: "string \<Rightarrow> int \<Rightarrow> face list \<Rightarrow> face list" where
  "rebuild_exemplars p keep rows =
     (let cleared = map (\<lambda>f. if f_person f = p then f\<lparr>f_exemplar := False\<rparr> else f) rows;
          top = best_faces keep (filter (\<lambda>f. f_person f = p \<and> \<not> f_ignored f) cleared)
      in map (\<lambda>f. if f_id f \<in> f_id ` set top then f\<lparr>f_exemplar := True\<rparr> else f) cleared)"

definition prune_exemplars :: "string \<Rightarrow> int \<Rightarrow> face list \<Rightarrow> face list" where
  "prune_exemplars p keep rows =
     (let top = best_faces keep (filter (\<lambda>f. f_person f = p \<and> f_exemplar f) rows)
      in map (\<lambda>f. if f_person f = p \<and> f_exemplar f \<and> f_id f \<notin> f_id ` set top then f\<lparr>f_exemplar := False\<rparr> else f) rows)"

section \<open>Persons\<close>

definition create_person :: "int \<Rightarrow> person \<Rightarrow> person list \<Rightarrow> person list option" where
  "create_person now p rows =
     (let p1 = (if p_created p = 0 then p\<lparr>p_created := now\<rparr> else p);
          p2 = (if p_updated p1 = 0 then p1\<lparr>p_updated := now\<rparr> else p1)
      in if p_id p \<in> p_id ` set rows then None else Some (rows @ [p2]))"

definition get_person :: "string \<Rightarrow> person list \<Rightarrow> person option" where
  "get_person i rows = List.find (\<lambda>p. p_id p = i) rows"

definition list_persons :: "bool \<Rightarrow> int \<Rightarrow> int \<Rightarrow> person list \<Rightarrow> person list" where
  "list_persons named limit offset rows =
     page limit offset (sort_key (\<lambda>p. - p_last p) (filter (\<lambda>p. named \<longrightarrow> p_named p) rows))"

definition update_meta :: "int \<Rightarrow> string \<Rightarrow> string \<Rightarrow> string \<Rightarrow> string \<Rightarrow> person list \<Rightarrow> person list" where
  "update_meta now i nm notes cover rows =
     map (\<lambda>p. if p_id p = i then p\<lparr>p_name := nm, p_notes := notes, p_cover := cover,
                                      p_named := (if nm \<noteq> [] then True else p_named p), p_updated := now\<rparr> else p) rows"

definition delete_person :: "string \<Rightarrow> person list \<Rightarrow> person list" where
  "delete_person i rows = filter (\<lambda>p. p_id p \<noteq> i) rows"

text \<open>\<^verbatim>\<open>Recount\<close>: the aggregate of the person's faces and the update; no row gives the times 0.\<close>

definition live_faces :: "string \<Rightarrow> face list \<Rightarrow> face list" where
  "live_faces i fs = filter (\<lambda>f. f_person f = i \<and> \<not> f_ignored f) fs"

definition recount :: "int \<Rightarrow> string \<Rightarrow> face list \<Rightarrow> person list \<Rightarrow> int \<times> person list" where
  "recount now i fs rows =
     (let hits = live_faces i fs; n = int (length hits);
          lo = (if hits = [] then 0 else Min (set (map f_ts hits)));
          hi = (if hits = [] then 0 else Max (set (map f_ts hits)))
      in (n, map (\<lambda>p. if p_id p = i then p\<lparr>p_faces := n, p_first := lo, p_last := hi, p_updated := now\<rparr> else p) rows))"

definition blank_person :: "string \<Rightarrow> person" where
  "blank_person i = \<lparr>p_id = i, p_name = [], p_notes = [], p_cover = [], p_named = False, p_faces = 0,
     p_first = 0, p_last = 0, p_created = 0, p_updated = 0\<rparr>"

section \<open>Tracks and links\<close>

definition create_track :: "string set \<Rightarrow> int \<Rightarrow> face_track \<Rightarrow> face_track list \<Rightarrow> face_track list option" where
  "create_track recs now t rows =
     (if t_id t \<in> t_id ` set rows \<or> t_recording t \<notin> recs then None
      else Some (rows @ [if t_created t = 0 then t\<lparr>t_created := now\<rparr> else t]))"

definition get_track :: "string \<Rightarrow> face_track list \<Rightarrow> face_track option" where
  "get_track i rows = List.find (\<lambda>t. t_id t = i) rows"

record track_filter =
  tf_person :: string
  tf_recording :: string
  tf_camera :: string
  tf_unassigned :: bool
  tf_from :: "int option"
  tf_to :: "int option"
  tf_limit :: int
  tf_offset :: int

definition any_track :: track_filter where
  "any_track = \<lparr>tf_person = [], tf_recording = [], tf_camera = [], tf_unassigned = False, tf_from = None, tf_to = None,
     tf_limit = 0, tf_offset = 0\<rparr>"

definition track_hit :: "track_filter \<Rightarrow> face_track \<Rightarrow> bool" where
  "track_hit q t \<longleftrightarrow>
     (tf_person q \<noteq> [] \<longrightarrow> t_person t = tf_person q) \<and> (tf_recording q \<noteq> [] \<longrightarrow> t_recording t = tf_recording q) \<and>
     (tf_camera q \<noteq> [] \<longrightarrow> t_cam t = tf_camera q) \<and> (tf_unassigned q \<longrightarrow> t_person t = []) \<and>
     (case tf_from q of None \<Rightarrow> True | Some x \<Rightarrow> x \<le> t_start t) \<and> (case tf_to q of None \<Rightarrow> True | Some x \<Rightarrow> t_start t \<le> x)"

definition list_tracks :: "track_filter \<Rightarrow> face_track list \<Rightarrow> face_track list" where
  "list_tracks q rows = page (tf_limit q) (tf_offset q) (sort_key (\<lambda>t. - t_start t) (filter (track_hit q) rows))"

definition update_track_person :: "string \<Rightarrow> string \<Rightarrow> face_track list \<Rightarrow> face_track list" where
  "update_track_person i p rows = map (\<lambda>t. if t_id t = i then t\<lparr>t_person := p\<rparr> else t) rows"

definition reassign_tracks :: "string \<Rightarrow> string \<Rightarrow> face_track list \<Rightarrow> face_track list" where
  "reassign_tracks p q rows = map (\<lambda>t. if t_person t = p then t\<lparr>t_person := q\<rparr> else t) rows"

definition set_confirmed :: "string \<Rightarrow> bool \<Rightarrow> face_track list \<Rightarrow> face_track list" where
  "set_confirmed i b rows = map (\<lambda>t. if t_id t = i then t\<lparr>t_confirmed := b\<rparr> else t) rows"

definition count_tracks_by_recording :: "string \<Rightarrow> face_track list \<Rightarrow> int" where
  "count_tracks_by_recording r rows = int (length (filter (\<lambda>t. t_recording t = r) rows))"

definition delete_tracks_by_recording :: "string \<Rightarrow> face_track list \<Rightarrow> face_track list" where
  "delete_tracks_by_recording r rows = filter (\<lambda>t. t_recording t \<noteq> r) rows"

definition create_link :: "int \<Rightarrow> person_link \<Rightarrow> person_link list \<Rightarrow> person_link list option" where
  "create_link now l rows =
     (if l_id l \<in> l_id ` set rows then None
      else Some (rows @ [if l_created l = 0 then l\<lparr>l_created := now\<rparr> else l]))"

definition delete_link :: "string \<Rightarrow> person_link list \<Rightarrow> person_link list" where
  "delete_link i rows = filter (\<lambda>l. l_id l \<noteq> i) rows"

section \<open>Jobs\<close>

text \<open>One job per recording: a second one is ignored.  The identifier and the times are arguments.\<close>

definition enqueue_job :: "string set \<Rightarrow> int \<Rightarrow> string \<Rightarrow> string \<Rightarrow> face_job list \<Rightarrow> face_job list option" where
  "enqueue_job recs now i r rows =
     (if r \<in> j_recording ` set rows then Some rows
      else if i \<in> j_id ` set rows \<or> r \<notin> recs then None
      else Some (rows @ [\<lparr>j_id = i, j_recording = r, j_state = JobPending, j_attempts = 0, j_error = [], j_faces = 0,
                           j_created = now, j_updated = now\<rparr>]))"

definition runnable :: "int \<Rightarrow> face_job \<Rightarrow> bool" where
  "runnable m j \<longleftrightarrow> j_state j = JobPending \<or> (j_state j = JobFailed \<and> j_attempts j < m)"

text \<open>The two statements of \<^verbatim>\<open>ClaimNext\<close>: the oldest runnable job, and its claim, which misses when the state changed.\<close>

definition next_job :: "int \<Rightarrow> face_job list \<Rightarrow> face_job option" where
  "next_job m rows = (case sort_key j_created (filter (runnable m) rows) of [] \<Rightarrow> None | j # _ \<Rightarrow> Some j)"

definition claim_job :: "int \<Rightarrow> face_job \<Rightarrow> face_job list \<Rightarrow> face_job list" where
  "claim_job now j rows =
     map (\<lambda>x. if j_id x = j_id j \<and> j_state x = j_state j
              then x\<lparr>j_state := JobRunning, j_attempts := j_attempts x + 1, j_updated := now\<rparr> else x) rows"

definition complete_job :: "int \<Rightarrow> string \<Rightarrow> int \<Rightarrow> face_job list \<Rightarrow> face_job list" where
  "complete_job now i n rows =
     map (\<lambda>x. if j_id x = i then x\<lparr>j_state := JobDone, j_faces := n, j_error := [], j_updated := now\<rparr> else x) rows"

definition set_job_state :: "int \<Rightarrow> string \<Rightarrow> job_state \<Rightarrow> string \<Rightarrow> face_job list \<Rightarrow> face_job list" where
  "set_job_state now i st msg rows =
     map (\<lambda>x. if j_id x = i then x\<lparr>j_state := st, j_error := msg, j_updated := now\<rparr> else x) rows"

definition fail_job :: "int \<Rightarrow> string \<Rightarrow> string \<Rightarrow> face_job list \<Rightarrow> face_job list" where
  "fail_job now i msg rows = set_job_state now i JobFailed msg rows"

definition requeue_running :: "int \<Rightarrow> face_job list \<Rightarrow> int \<times> face_job list" where
  "requeue_running now rows =
     (int (length (filter (\<lambda>x. j_state x = JobRunning) rows)),
      map (\<lambda>x. if j_state x = JobRunning then x\<lparr>j_state := JobPending, j_updated := now\<rparr> else x) rows)"

definition count_jobs :: "face_job list \<Rightarrow> job_state \<Rightarrow> int" where
  "count_jobs rows st = int (length (filter (\<lambda>x. j_state x = st) rows))"

text \<open>Deleting a recording takes its faces, tracks and job along (\<open>ON DELETE CASCADE\<close>).\<close>

definition cascade :: "string \<Rightarrow> face_tables \<Rightarrow> face_tables" where
  "cascade r t = t\<lparr>faces := filter (\<lambda>f. f_recording f \<noteq> r) (faces t), tracks := delete_tracks_by_recording r (tracks t),
     jobs := filter (\<lambda>j. j_recording j \<noteq> r) (jobs t)\<rparr>"

end
