(* ===== verification/Face_Vec.thy ===== *)
theory Face_Vec
  imports Face_Tables
begin

text \<open>
  Embeddings and boxes (\<^verbatim>\<open>internal/face/vec.go\<close>).  The values of \<^verbatim>\<open>float32\<close> patterns, the rounding back
  to them and the square root are parameters; \<^verbatim>\<open>float64\<close> sums and products are exact.
\<close>

record float_ops =
  val32 :: "u32 \<Rightarrow> rat"
  round32 :: "rat \<Rightarrow> u32"
  sqrt64 :: "rat \<Rightarrow> rat"

definition dot :: "float_ops \<Rightarrow> embedding \<Rightarrow> embedding \<Rightarrow> rat" where
  "dot fl a b = fold (\<lambda>(x, y) s. s + val32 fl x * val32 fl y) (zip a b) 0"

definition normalize :: "float_ops \<Rightarrow> embedding \<Rightarrow> embedding" where
  "normalize fl v =
     (let s = fold (\<lambda>x s. s + val32 fl x * val32 fl x) v 0
      in if s = 0 then v
         else let inv = 1 / sqrt64 fl s in map (\<lambda>x. round32 fl (val32 fl x * inv)) v)"

text \<open>One weighted embedding added to the sums; the sums have the length of the first embedding.\<close>

definition add_weighted :: "float_ops \<Rightarrow> embedding \<times> rat \<Rightarrow> rat list \<Rightarrow> rat list" where
  "add_weighted fl ew acc =
     (let w = (if snd ew \<le> 0 then 1 / 1000 else snd ew)
      in map (\<lambda>j. acc ! j + (if j < length (fst ew) then w * val32 fl (fst ew ! j) else 0)) [0..<length acc])"

definition weighted_mean :: "float_ops \<Rightarrow> (embedding \<times> rat) list \<Rightarrow> embedding" where
  "weighted_mean fl ews =
     (case ews of
        [] \<Rightarrow> []
      | (e, w) # _ \<Rightarrow> normalize fl (map (round32 fl) (fold (add_weighted fl) ews (replicate (length e) 0))))"

definition iou :: "bbox \<Rightarrow> bbox \<Rightarrow> rat" where
  "iou a b =
     (let ax2 = box_x a + box_w a; ay2 = box_y a + box_h a; bx2 = box_x b + box_w b; by2 = box_y b + box_h b;
          ix1 = max (box_x a) (box_x b); iy1 = max (box_y a) (box_y b);
          ix2 = min ax2 bx2; iy2 = min ay2 by2; iw = ix2 - ix1; ih = iy2 - iy1
      in if iw \<le> 0 \<or> ih \<le> 0 then 0
         else let inter = iw * ih; union = box_w a * box_h a + box_w b * box_h b - inter
              in if union \<le> 0 then 0 else inter / union)"

lemma length_normalize [simp]: "length (normalize fl v) = length v"
  by (simp add: normalize_def Let_def)

lemma iou_sym: "iou a b = iou b a"
  by (simp add: iou_def Let_def max.commute min.commute add.commute mult.commute)

text \<open>The overlap of boxes with extent is a share.\<close>

lemma iou_range:
  assumes "0 \<le> box_w a" "0 \<le> box_h a" "0 \<le> box_w b" "0 \<le> box_h b"
  shows "0 \<le> iou a b \<and> iou a b \<le> 1"
proof -
  define iw where "iw = min (box_x a + box_w a) (box_x b + box_w b) - max (box_x a) (box_x b)"
  define ih where "ih = min (box_y a + box_h a) (box_y b + box_h b) - max (box_y a) (box_y b)"
  define u where "u = box_w a * box_h a + box_w b * box_h b - iw * ih"
  have eq: "iou a b = (if iw \<le> 0 \<or> ih \<le> 0 then 0 else if u \<le> 0 then 0 else iw * ih / u)"
    unfolding iou_def Let_def iw_def ih_def u_def by (rule refl)
  show ?thesis
  proof (cases "iw \<le> 0 \<or> ih \<le> 0")
    case False
    have "iw \<le> box_w a" "iw \<le> box_w b" "ih \<le> box_h a" "ih \<le> box_h b" by (auto simp: iw_def ih_def)
    then have "iw * ih \<le> box_w a * box_h a" "iw * ih \<le> box_w b * box_h b"
      using False assms by (auto intro!: mult_mono)
    then have "iw * ih \<le> u" unfolding u_def by linarith
    moreover have "0 < iw * ih" using False by (simp add: not_le)
    ultimately show ?thesis using False by (simp add: eq)
  qed (simp add: eq)
qed

end
