(* ===== verification/Face_Tracker.thy ===== *)
theory Face_Tracker
  imports Face_Vec GoStrings
begin

text \<open>
  The greedy tracker (\<^verbatim>\<open>internal/face/tracker.go\<close>).  \<open>new_id\<close> gives the fresh identifiers and
  \<open>arrange\<close> stands for \<^verbatim>\<open>sort.Slice\<close>, which may order candidates of equal score in any way.
\<close>

section \<open>Tracks\<close>

record track_params =
  max_gap :: int
  min_cos :: rat
  min_iou :: rat

definition default_track_params :: track_params where
  "default_track_params = \<lparr>max_gap = 4000, min_cos = 45 / 100, min_iou = 30 / 100\<rparr>"

record live_track =
  lt_id :: string
  lt_faces :: "face list"
  lt_last :: int
  lt_box :: bbox
  lt_sum :: embedding

definition match_rep :: "float_ops \<Rightarrow> live_track \<Rightarrow> embedding" where
  "match_rep fl lt = normalize fl (lt_sum lt)"

definition add_sum :: "float_ops \<Rightarrow> embedding \<Rightarrow> embedding \<Rightarrow> embedding" where
  "add_sum fl s e = map (\<lambda>i. if i < length e then round32 fl (val32 fl (s ! i) + val32 fl (e ! i)) else s ! i) [0..<length s]"

definition add_to :: "float_ops \<Rightarrow> face \<Rightarrow> live_track \<Rightarrow> live_track" where
  "add_to fl f lt = lt\<lparr>lt_faces := lt_faces lt @ [f], lt_last := f_offset_ms f, lt_box := f_bbox f,
     lt_sum := add_sum fl (lt_sum lt) (normalize fl (f_emb f))\<rparr>"

definition new_live :: "float_ops \<Rightarrow> string \<Rightarrow> face \<Rightarrow> live_track" where
  "new_live fl i f = add_to fl f \<lparr>lt_id = i, lt_faces = [], lt_last = 0, lt_box = f_bbox f,
     lt_sum = replicate (length (f_emb f)) 0\<rparr>"

section \<open>Frames\<close>

definition face_before :: "face \<Rightarrow> face \<Rightarrow> bool" where
  "face_before a b =
     (if f_offset_ms a \<noteq> f_offset_ms b then f_offset_ms a < f_offset_ms b else str_less (f_id a) (f_id b))"

function frames_of :: "face list \<Rightarrow> face list list" where
  "frames_of [] = []"
| "frames_of (f # fs) =
     (f # takeWhile (\<lambda>g. f_offset_ms g = f_offset_ms f) fs) # frames_of (dropWhile (\<lambda>g. f_offset_ms g = f_offset_ms f) fs)"
  by pat_completeness auto
termination by (relation "measure length") (auto simp: le_imp_less_Suc length_dropWhile_le)

text \<open>A candidate: the index of the detection, that of the track, and the score.\<close>

type_synonym cand = "nat \<times> nat \<times> rat"

definition candidate :: "float_ops \<Rightarrow> track_params \<Rightarrow> nat \<times> face \<Rightarrow> nat \<times> live_track \<Rightarrow> cand option" where
  "candidate fl p d t =
     (let cos = dot fl (normalize fl (f_emb (snd d))) (match_rep fl (snd t)); ov = iou (f_bbox (snd d)) (lt_box (snd t))
      in if cos < min_cos p \<and> ov < min_iou p then None else Some (fst d, fst t, 6 / 10 * cos + 4 / 10 * ov))"

definition candidates :: "float_ops \<Rightarrow> track_params \<Rightarrow> face list \<Rightarrow> live_track list \<Rightarrow> cand list" where
  "candidates fl p frame opened =
     concat (map (\<lambda>d. List.map_filter (candidate fl p d) (enumerate 0 opened)) (enumerate 0 frame))"

fun take_cands :: "float_ops \<Rightarrow> face list \<Rightarrow> cand list \<Rightarrow> nat set \<times> nat set \<times> live_track list \<Rightarrow> nat set \<times> nat set \<times> live_track list" where
  "take_cands fl frame [] st = st"
| "take_cands fl frame ((di, ti, sc) # cs) (used_d, used_t, opened) =
     (if di \<in> used_d \<or> ti \<in> used_t then take_cands fl frame cs (used_d, used_t, opened)
      else take_cands fl frame cs (insert di used_d, insert ti used_t, opened[ti := add_to fl (frame ! di) (opened ! ti)]))"

definition frame_step ::
  "float_ops \<Rightarrow> (cand list \<Rightarrow> cand list) \<Rightarrow> track_params \<Rightarrow> (nat \<Rightarrow> string) \<Rightarrow> face list \<Rightarrow>
   live_track list \<times> live_track list \<times> nat \<Rightarrow> live_track list \<times> live_track list \<times> nat" where
  "frame_step fl arrange p new_id frame st =
     (case st of (opened, finished, n) \<Rightarrow>
        let off = f_offset_ms (hd frame);
            idle = (\<lambda>lt. off - lt_last lt > max_gap p);
            kept = filter (\<lambda>lt. \<not> idle lt) opened;
            (used_d, _, open1) = take_cands fl frame (arrange (candidates fl p frame kept)) ({}, {}, kept);
            rest = map snd (filter (\<lambda>d. fst d \<notin> used_d) (enumerate 0 frame))
        in (open1 @ map (\<lambda>d. new_live fl (new_id (fst d)) (snd d)) (enumerate n rest),
            finished @ filter idle opened, n + length rest))"

definition build_tracks ::
  "float_ops \<Rightarrow> (cand list \<Rightarrow> cand list) \<Rightarrow> track_params \<Rightarrow> (nat \<Rightarrow> string) \<Rightarrow> face list \<Rightarrow> (string \<times> face list) list" where
  "build_tracks fl arrange p new_id fs =
     (case fold (frame_step fl arrange p new_id) (frames_of (stable_sort face_before fs)) ([], [], 0) of
        (opened, finished, n) \<Rightarrow> map (\<lambda>lt. (lt_id lt, lt_faces lt)) (finished @ opened))"

section \<open>What a track is\<close>

text \<open>
  \<open>linked\<close>: the next face of an appearance is later than the last one, within the gap, and similar
  enough to what the appearance has so far, or overlapping its last box enough.
\<close>

fun sum_of :: "float_ops \<Rightarrow> face list \<Rightarrow> embedding" where
  "sum_of fl [] = []"
| "sum_of fl (f # fs) =
     fold (\<lambda>g s. add_sum fl s (normalize fl (f_emb g))) (f # fs) (replicate (length (f_emb f)) 0)"

definition linked :: "float_ops \<Rightarrow> track_params \<Rightarrow> face list \<Rightarrow> face \<Rightarrow> bool" where
  "linked fl p prev f \<longleftrightarrow>
     f_offset_ms (last prev) < f_offset_ms f \<and> f_offset_ms f - f_offset_ms (last prev) \<le> max_gap p \<and>
     (min_cos p \<le> dot fl (normalize fl (f_emb f)) (normalize fl (sum_of fl prev)) \<or>
      min_iou p \<le> iou (f_bbox f) (f_bbox (last prev)))"

definition appearance :: "float_ops \<Rightarrow> track_params \<Rightarrow> face list \<Rightarrow> bool" where
  "appearance fl p fs \<longleftrightarrow> fs \<noteq> [] \<and> list_all (\<lambda>k. linked fl p (take k fs) (fs ! k)) [1..<length fs]"

section \<open>The invariant of a track under construction\<close>

definition live_ok :: "float_ops \<Rightarrow> track_params \<Rightarrow> live_track \<Rightarrow> bool" where
  "live_ok fl p lt \<longleftrightarrow>
     appearance fl p (lt_faces lt) \<and> lt_last lt = f_offset_ms (last (lt_faces lt)) \<and>
     lt_box lt = f_bbox (last (lt_faces lt)) \<and> lt_sum lt = sum_of fl (lt_faces lt)"

lemma sum_of_snoc: "fs \<noteq> [] \<Longrightarrow> sum_of fl (fs @ [f]) = add_sum fl (sum_of fl fs) (normalize fl (f_emb f))"
  by (cases fs) simp_all

lemma appearance_snoc:
  assumes "appearance fl p fs" "linked fl p fs f"
  shows "appearance fl p (fs @ [f])"
proof -
  have "[1..<length (fs @ [f])] = [1..<length fs] @ [length fs]"
    using assms(1) by (cases fs) (simp_all add: appearance_def)
  moreover have "linked fl p (take k (fs @ [f])) ((fs @ [f]) ! k) = linked fl p (take k fs) (fs ! k)" if "k < length fs" for k
    using that by (simp add: nth_append)
  ultimately show ?thesis using assms by (auto simp: appearance_def list_all_iff)
qed

lemma new_live_ok: "live_ok fl p (new_live fl i f)"
  by (simp add: live_ok_def new_live_def add_to_def appearance_def)

lemma new_live_simps [simp]: "lt_id (new_live fl i f) = i" "lt_faces (new_live fl i f) = [f]" "lt_last (new_live fl i f) = f_offset_ms f"
  by (simp_all add: new_live_def add_to_def)

lemma add_to_ok:
  assumes "live_ok fl p lt" "linked fl p (lt_faces lt) f"
  shows "live_ok fl p (add_to fl f lt)"
proof -
  have "lt_faces lt \<noteq> []" using assms(1) by (simp add: live_ok_def appearance_def)
  then show ?thesis using assms appearance_snoc [of fl p "lt_faces lt" f]
    by (simp add: live_ok_def add_to_def sum_of_snoc)
qed

section \<open>One frame\<close>

lemma concat_frames: "concat (frames_of fs) = fs"
  by (induction fs rule: frames_of.induct) simp_all

lemma frames_same:
  assumes "fr \<in> set (frames_of fs)"
  shows "fr \<noteq> []" "g \<in> set fr \<Longrightarrow> f_offset_ms g = f_offset_ms (hd fr)"
proof -
  have "fr \<noteq> [] \<and> (\<forall>g \<in> set fr. f_offset_ms (hd fr) = f_offset_ms g)" using assms
  proof (induction fs rule: frames_of.induct)
    case (2 f fs)
    show ?case
    proof (cases "fr \<in> set (frames_of (dropWhile (\<lambda>g. f_offset_ms g = f_offset_ms f) fs))")
      case False
      then have "fr = f # takeWhile (\<lambda>g. f_offset_ms g = f_offset_ms f) fs" using 2(2) by simp
      then show ?thesis by (auto dest: set_takeWhileD)
    qed (rule 2(1))
  qed simp
  then show "fr \<noteq> []" "g \<in> set fr \<Longrightarrow> f_offset_ms g = f_offset_ms (hd fr)" by auto
qed

lemma frames_increasing:
  assumes "sorted (map f_offset_ms fs)"
  shows "sorted_wrt (\<lambda>a b. f_offset_ms (hd a) < f_offset_ms (hd b)) (frames_of fs)"
  using assms
proof (induction fs rule: frames_of.induct)
  case (2 f fs)
  let ?rest = "dropWhile (\<lambda>g. f_offset_ms g = f_offset_ms f) fs"
  have sorted: "sorted (map f_offset_ms ?rest)"
    using 2(2) unfolding dropWhile_eq_drop by (simp add: drop_map [symmetric] sorted_wrt_drop)
  have later: "f_offset_ms f < f_offset_ms g" if g: "g \<in> set ?rest" for g
  proof -
    obtain h rs where r: "?rest = h # rs" using g by (cases ?rest) auto
    then have "f_offset_ms h \<noteq> f_offset_ms f" using hd_dropWhile [of "\<lambda>g. f_offset_ms g = f_offset_ms f" fs] by auto
    moreover have "f_offset_ms f \<le> f_offset_ms h" using 2(2) set_dropWhileD [of h "\<lambda>g. f_offset_ms g = f_offset_ms f" fs] r by simp
    moreover have "f_offset_ms h \<le> f_offset_ms g" using sorted g by (auto simp: r)
    ultimately show ?thesis by linarith
  qed
  have "f_offset_ms f < f_offset_ms (hd fr)" if "fr \<in> set (frames_of ?rest)" for fr
  proof -
    have "hd fr \<in> set (concat (frames_of ?rest))" using frames_same(1) [OF that] that by (auto intro: bexI [of _ fr])
    then have "hd fr \<in> set ?rest" by (simp only: concat_frames)
    then show ?thesis by (rule later)
  qed
  then show ?case using 2(1) sorted by simp
qed simp

lemma candidates_sound:
  assumes "(d, t, sc) \<in> set (candidates fl p frame ts)"
  shows "d < length frame" "t < length ts"
    and "min_cos p \<le> dot fl (normalize fl (f_emb (frame ! d))) (match_rep fl (ts ! t)) \<or>
         min_iou p \<le> iou (f_bbox (frame ! d)) (lt_box (ts ! t))"
  using assms
  by (auto simp: candidates_def List.map_filter_def candidate_def Let_def in_set_enumerate_eq not_less split: if_splits)

text \<open>Taking candidates one after the other: each track gets one face at most, each face one track.\<close>

definition taking ::
  "float_ops \<Rightarrow> track_params \<Rightarrow> face list \<Rightarrow> live_track list \<Rightarrow> nat set \<times> nat set \<times> live_track list \<Rightarrow> bool" where
  "taking fl p frame ts st \<longleftrightarrow>
     (case st of (used_d, used_t, cur) \<Rightarrow>
        length cur = length ts \<and> used_d \<subseteq> {..<length frame} \<and>
        (\<forall>t < length ts. (t \<notin> used_t \<longrightarrow> cur ! t = ts ! t) \<and> live_ok fl p (cur ! t) \<and> lt_id (cur ! t) = lt_id (ts ! t) \<and>
           lt_last (cur ! t) \<le> f_offset_ms (hd frame)) \<and>
        mset (concat (map lt_faces cur)) = mset (concat (map lt_faces ts)) + image_mset ((!) frame) (mset_set used_d))"

lemma faces_update:
  assumes "t < length ts"
  shows "mset (concat (map lt_faces (ts[t := add_to fl f (ts ! t)]))) = add_mset f (mset (concat (map lt_faces ts)))"
proof -
  have "ts = take t ts @ ts ! t # drop (Suc t) ts" using assms by (rule id_take_nth_drop)
  then have "mset (concat (map lt_faces ts)) =
      mset (concat (map lt_faces (take t ts))) + mset (lt_faces (ts ! t)) + mset (concat (map lt_faces (drop (Suc t) ts)))"
    by (metis (no_types, lifting) add.assoc concat.simps(2) concat_append list.simps(9) map_append mset_append)
  then show ?thesis using assms by (simp add: upd_conv_take_nth_drop add_to_def)
qed

lemma taking_step:
  assumes "taking fl p frame ts (used_d, used_t, cur)" "(d, t, sc) \<in> set (candidates fl p frame ts)"
    and "d \<notin> used_d" "t \<notin> used_t"
    and "\<And>g. g \<in> set frame \<Longrightarrow> f_offset_ms g = f_offset_ms (hd frame)"
    and "\<And>lt. lt \<in> set ts \<Longrightarrow> live_ok fl p lt \<and> lt_last lt < f_offset_ms (hd frame) \<and> f_offset_ms (hd frame) - lt_last lt \<le> max_gap p"
  shows "taking fl p frame ts (insert d used_d, insert t used_t, cur[t := add_to fl (frame ! d) (cur ! t)])"
proof -
  note c = candidates_sound [OF assms(2)]
  have l: "length cur = length ts" "used_d \<subseteq> {..<length frame}" using assms(1) by (simp_all add: taking_def)
  have cur: "cur ! t = ts ! t" using assms(1,4) c(2) by (simp add: taking_def)
  have off: "f_offset_ms (frame ! d) = f_offset_ms (hd frame)" using assms(5) c(1) by simp
  have t: "live_ok fl p (ts ! t)" "lt_last (ts ! t) < f_offset_ms (hd frame)"
    "f_offset_ms (hd frame) - lt_last (ts ! t) \<le> max_gap p" using assms(6) c(2) by simp_all
  have "linked fl p (lt_faces (ts ! t)) (frame ! d)"
    using c(3) t off by (simp add: linked_def live_ok_def match_rep_def)
  then have ok: "live_ok fl p (add_to fl (frame ! d) (ts ! t))" by (rule add_to_ok [OF t(1)])
  have "finite used_d" using l(2) by (rule finite_subset) simp
  then have "mset_set (insert d used_d) = add_mset d (mset_set used_d)" using assms(3) by simp
  moreover have "mset (concat (map lt_faces (cur[t := add_to fl (frame ! d) (cur ! t)]))) =
      add_mset (frame ! d) (mset (concat (map lt_faces cur)))"
    by (rule faces_update) (simp add: l c(2))
  ultimately show ?thesis using assms(1) c(1,2) ok off l cur
    by (auto simp: taking_def nth_list_update add_to_def)
qed

lemma take_cands_taking:
  assumes "set cs \<subseteq> set (candidates fl p frame ts)" "taking fl p frame ts st"
    and "\<And>g. g \<in> set frame \<Longrightarrow> f_offset_ms g = f_offset_ms (hd frame)"
    and "\<And>lt. lt \<in> set ts \<Longrightarrow> live_ok fl p lt \<and> lt_last lt < f_offset_ms (hd frame) \<and> f_offset_ms (hd frame) - lt_last lt \<le> max_gap p"
  shows "taking fl p frame ts (take_cands fl frame cs st)"
  using assms(1,2)
proof (induction cs arbitrary: st)
  case (Cons c cs)
  obtain d t sc where c: "c = (d, t, sc)" by (metis prod_cases3)
  obtain ud ut cur where st: "st = (ud, ut, cur)" by (metis prod_cases3)
  show ?case
  proof (cases "d \<in> ud \<or> t \<in> ut")
    case True
    then show ?thesis using Cons by (simp add: c st)
  next
    case False
    have "taking fl p frame ts (insert d ud, insert t ut, cur[t := add_to fl (frame ! d) (cur ! t)])"
      by (rule taking_step [OF _ _ _ _ assms(3,4)]) (use Cons.prems False in \<open>auto simp: c st\<close>)
    then show ?thesis using Cons False by (simp add: c st)
  qed
qed simp

lemma enumerate_nth: "enumerate 0 xs = map (\<lambda>i. (i, xs ! i)) [0..<length xs]"
  by (rule nth_equalityI) (simp_all add: nth_enumerate_eq)

lemma rest_of_frame:
  assumes "D \<subseteq> {..<length xs}"
  shows "mset (map snd (filter (\<lambda>d. fst d \<notin> D) (enumerate 0 xs))) + image_mset ((!) xs) (mset_set D) = mset xs"
proof -
  have "{x \<in> {0..<length xs}. x \<notin> D} = {..<length xs} - D" by auto
  then have "mset (filter (\<lambda>i. i \<notin> D) [0..<length xs]) = mset_set ({..<length xs} - D)"
    by (simp add: mset_filter filter_mset_mset_set)
  then have "mset (map snd (filter (\<lambda>d. fst d \<notin> D) (enumerate 0 xs))) = image_mset ((!) xs) (mset_set ({..<length xs} - D))"
    by (simp add: enumerate_nth filter_map comp_def)
  moreover have "mset_set ({..<length xs} - D) + mset_set D = mset_set {..<length xs}"
    using assms by (subst mset_set_Union [symmetric]) (auto intro: finite_subset simp: Un_absorb2)
  moreover have "image_mset ((!) xs) (mset_set {..<length xs}) = mset xs"
    by (metis lessThan_atLeast0 map_nth mset_map mset_upt)
  ultimately show ?thesis by (metis image_mset_union)
qed

section \<open>All frames\<close>

definition tracking ::
  "float_ops \<Rightarrow> track_params \<Rightarrow> (nat \<Rightarrow> string) \<Rightarrow> int \<Rightarrow> face list \<Rightarrow> live_track list \<times> live_track list \<times> nat \<Rightarrow> bool" where
  "tracking fl p new_id b seen st \<longleftrightarrow>
     (case st of (opened, finished, n) \<Rightarrow>
        (\<forall>lt \<in> set (finished @ opened). live_ok fl p lt) \<and> (\<forall>lt \<in> set opened. lt_last lt \<le> b) \<and>
        mset (concat (map lt_faces (finished @ opened))) = mset seen \<and>
        distinct (map lt_id (finished @ opened)) \<and> lt_id ` set (finished @ opened) \<subseteq> new_id ` {..<n} \<and>
        n = length (finished @ opened))"

lemma frame_step_tracking:
  assumes "tracking fl p new_id b seen st" "frame \<noteq> []" "b < f_offset_ms (hd frame)"
    and "\<And>g. g \<in> set frame \<Longrightarrow> f_offset_ms g = f_offset_ms (hd frame)"
    and "\<And>cs. mset (arrange cs) = mset cs" "inj new_id"
  shows "tracking fl p new_id (f_offset_ms (hd frame)) (seen @ frame) (frame_step fl arrange p new_id frame st)"
proof -
  obtain opened finished n where st: "st = (opened, finished, n)" by (metis prod_cases3)
  let ?off = "f_offset_ms (hd frame)"
  define idle :: "live_track \<Rightarrow> bool" where "idle = (\<lambda>lt. ?off - lt_last lt > max_gap p)"
  define kept where "kept = filter (\<lambda>lt. \<not> idle lt) opened"
  obtain ud ut cur where take: "take_cands fl frame (arrange (candidates fl p frame kept)) ({}, {}, kept) = (ud, ut, cur)"
    by (metis prod_cases3)
  define rest where "rest = map snd (filter (\<lambda>d. fst d \<notin> ud) (enumerate 0 frame))"
  let ?new = "map (\<lambda>d. new_live fl (new_id (fst d)) (snd d)) (enumerate n rest)"
  have step: "frame_step fl arrange p new_id frame st = (cur @ ?new, finished @ filter idle opened, n + length rest)"
    by (simp add: frame_step_def st Let_def take [unfolded kept_def idle_def] rest_def idle_def)
  note t = assms(1) [unfolded st tracking_def, simplified]
  have kept: "live_ok fl p lt \<and> lt_last lt < ?off \<and> ?off - lt_last lt \<le> max_gap p" if "lt \<in> set kept" for lt
    using t that assms(3) by (auto simp: kept_def idle_def not_less)
  have "set (arrange (candidates fl p frame kept)) \<subseteq> set (candidates fl p frame kept)"
    using assms(5) by (metis equalityD1 set_mset_mset)
  moreover have "taking fl p frame kept ({}, {}, kept)" using kept by (auto simp: taking_def less_imp_le)
  ultimately have tk: "taking fl p frame kept (ud, ut, cur)"
    using take_cands_taking [OF _ _ assms(4) kept] take by metis
  have len: "length cur = length kept" and ud: "ud \<subseteq> {..<length frame}" using tk by (simp_all add: taking_def)
  have cur: "live_ok fl p lt \<and> lt_last lt \<le> ?off" if "lt \<in> set cur" for lt
    using tk that len by (auto simp: taking_def in_set_conv_nth)
  have cur_ids: "map lt_id cur = map lt_id kept" using tk len by (auto simp: taking_def intro!: nth_equalityI)
  have cur_faces: "mset (concat (map lt_faces cur)) = mset (concat (map lt_faces kept)) + image_mset ((!) frame) (mset_set ud)"
    using tk by (simp add: taking_def)
  have rest: "mset rest + image_mset ((!) frame) (mset_set ud) = mset frame" unfolding rest_def by (rule rest_of_frame [OF ud])
  have new_ids: "map lt_id ?new = map new_id [n..<n + length rest]"
    by (rule nth_equalityI) (simp_all add: nth_enumerate_eq)
  have new_faces: "concat (map lt_faces ?new) = rest"
  proof -
    have "concat (map lt_faces ?new) = map snd (enumerate n rest)" by (induction rest arbitrary: n) simp_all
    then show ?thesis by simp
  qed
  have split: "mset (concat (map lt_faces (filter idle opened))) + mset (concat (map lt_faces kept)) = mset (concat (map lt_faces opened))"
    unfolding kept_def by (induction opened) simp_all
  have all: "mset (concat (map lt_faces (finished @ filter idle opened @ cur @ ?new))) = mset (seen @ frame)"
    using t cur_faces rest split new_faces by (simp add: ac_simps)
  have ids: "lt_id ` set kept \<subseteq> new_id ` {..<n}" "lt_id ` set (filter idle opened) \<subseteq> new_id ` {..<n}"
    using t by (auto simp: kept_def)
  have fresh: "new_id ` {n..<n + length rest} \<inter> new_id ` {..<n} = {}"
    using image_Int [OF assms(6), of "{n..<n + length rest}" "{..<n}"] by auto
  have "mset (finished @ filter idle opened @ kept) = mset (finished @ opened)"
    unfolding kept_def by (induction opened) simp_all
  then have "mset (map lt_id (finished @ filter idle opened @ kept)) = mset (map lt_id (finished @ opened))" by (metis mset_map)
  then have "distinct (map lt_id (finished @ filter idle opened @ kept)) = distinct (map lt_id (finished @ opened))"
    by (rule mset_eq_imp_distinct_iff)
  then have old: "distinct (map lt_id (finished @ filter idle opened @ kept))" "lt_id ` set finished \<subseteq> new_id ` {..<n}"
    using t by auto
  have old_ids: "set (map lt_id (finished @ filter idle opened @ kept)) \<subseteq> new_id ` {..<n}"
    using old(2) ids by (simp add: image_Un)
  have new_set: "set (map new_id [n..<n + length rest]) = new_id ` {n..<n + length rest}" by simp
  have new_distinct: "distinct (map new_id [n..<n + length rest])"
    using inj_on_subset [OF assms(6)] by (simp add: distinct_map)
  have "distinct (map lt_id (finished @ filter idle opened @ kept) @ map new_id [n..<n + length rest])"
    unfolding distinct_append new_set using old(1) new_distinct fresh old_ids by blast
  then have "distinct (map lt_id (finished @ filter idle opened @ cur @ ?new))"
    unfolding map_append cur_ids new_ids by simp
  moreover have "lt_id ` set (finished @ filter idle opened @ cur @ ?new) \<subseteq> new_id ` {..<n + length rest}"
  proof -
    have "lt_id ` set cur = lt_id ` set kept" "lt_id ` set ?new = new_id ` {n..<n + length rest}"
      using arg_cong [OF cur_ids, of set] arg_cong [OF new_ids, of set] by (simp_all add: image_image)
    moreover have up: "new_id ` {..<n} \<subseteq> new_id ` {..<n + length rest}" "new_id ` {n..<n + length rest} \<subseteq> new_id ` {..<n + length rest}"
      by auto
    ultimately have "lt_id ` set cur \<subseteq> new_id ` {..<n + length rest}" "lt_id ` set ?new \<subseteq> new_id ` {..<n + length rest}"
      using ids(1) by (metis order_trans, metis)
    then show ?thesis
      unfolding set_append image_Un Un_subset_iff using order_trans [OF old(2) up(1)] order_trans [OF ids(2) up(1)] by simp
  qed
  moreover have new: "live_ok fl p lt \<and> lt_last lt \<le> ?off" if new: "lt \<in> set ?new" for lt
  proof -
    obtain k g where g: "lt = new_live fl (new_id k) g" "g \<in> set rest" using new by (auto simp: in_set_enumerate_eq)
    then have "g \<in> set frame" by (auto simp: rest_def in_set_enumerate_eq)
    then show ?thesis using g(1) assms(4) by (simp add: new_live_ok)
  qed
  moreover have "live_ok fl p lt" if "lt \<in> set (finished @ filter idle opened @ cur @ ?new)" for lt
    using that t cur new by (fastforce simp del: set_map)
  moreover have "n + length rest = length (finished @ filter idle opened @ cur @ ?new)"
  proof -
    have "length (filter idle opened) + length kept = length opened" unfolding kept_def by (rule sum_length_filter_compl)
    then show ?thesis using t len by simp
  qed
  ultimately show ?thesis
    unfolding step tracking_def prod.case append.assoc using all cur new by (auto simp del: set_map map_append concat_append)
qed

lemma frames_tracking:
  assumes "sorted_wrt (\<lambda>a b. f_offset_ms (hd a) < f_offset_ms (hd b)) frames"
    and "\<And>fr. fr \<in> set frames \<Longrightarrow> fr \<noteq> [] \<and> b < f_offset_ms (hd fr) \<and> (\<forall>g \<in> set fr. f_offset_ms g = f_offset_ms (hd fr))"
    and "tracking fl p new_id b seen st" "\<And>cs. mset (arrange cs) = mset cs" "inj new_id"
  shows "\<exists>b'. tracking fl p new_id b' (seen @ concat frames) (fold (frame_step fl arrange p new_id) frames st)"
  using assms(1-3)
proof (induction frames arbitrary: b seen st)
  case (Cons fr frames)
  have "tracking fl p new_id (f_offset_ms (hd fr)) (seen @ fr) (frame_step fl arrange p new_id fr st)"
    by (rule frame_step_tracking [where b = b]) (use Cons.prems assms(4,5) in auto)
  then have "\<exists>b'. tracking fl p new_id b' ((seen @ fr) @ concat frames)
      (fold (frame_step fl arrange p new_id) frames (frame_step fl arrange p new_id fr st))"
    by (rule Cons.IH [rotated 2]) (use Cons.prems in auto)
  then show ?case by simp
qed auto

lemma build_tracks_partition:
  assumes "\<And>cs. mset (arrange cs) = mset cs" "inj new_id"
  shows "mset (concat (map snd (build_tracks fl arrange p new_id fs))) = mset fs"
    and "tr \<in> set (build_tracks fl arrange p new_id fs) \<Longrightarrow> appearance fl p (snd tr)"
    and "distinct (map fst (build_tracks fl arrange p new_id fs))"
    and "fst ` set (build_tracks fl arrange p new_id fs) \<subseteq> new_id ` {..<length (build_tracks fl arrange p new_id fs)}"
proof -
  let ?s = "stable_sort face_before fs"
  have "sorted (map f_offset_ms ?s)"
    by (rule sorted_stable_sort) (auto simp: face_before_def split: if_splits)
  then have order: "sorted_wrt (\<lambda>a b. f_offset_ms (hd a) < f_offset_ms (hd b)) (frames_of ?s)" by (rule frames_increasing)
  define b where "b = Min (insert 0 (f_offset_ms ` set fs)) - 1"
  have low: "b < f_offset_ms g" if "g \<in> set fs" for g
  proof -
    have "Min (insert 0 (f_offset_ms ` set fs)) \<le> f_offset_ms g" using that by (intro Min_le) auto
    then show ?thesis by (simp add: b_def)
  qed
  have frames: "fr \<noteq> [] \<and> b < f_offset_ms (hd fr) \<and> (\<forall>g \<in> set fr. f_offset_ms g = f_offset_ms (hd fr))"
    if "fr \<in> set (frames_of ?s)" for fr
  proof -
    have "hd fr \<in> set (concat (frames_of ?s))" using frames_same(1) [OF that] that by (auto intro: bexI [of _ fr])
    then have "hd fr \<in> set fs" by (simp only: concat_frames set_stable_sort)
    then show ?thesis using frames_same [OF that] low by blast
  qed
  have "tracking fl p new_id b [] ([], [], 0)" by (simp add: tracking_def)
  then obtain b' where t: "tracking fl p new_id b' (concat (frames_of ?s)) (fold (frame_step fl arrange p new_id) (frames_of ?s) ([], [], 0))"
    using frames_tracking [where seen = "[]" and st = "([], [], 0)", OF order frames _ assms] by auto
  obtain opened finished n where st: "fold (frame_step fl arrange p new_id) (frames_of ?s) ([], [], 0) = (opened, finished, n)"
    by (metis prod_cases3)
  show "mset (concat (map snd (build_tracks fl arrange p new_id fs))) = mset fs"
    "tr \<in> set (build_tracks fl arrange p new_id fs) \<Longrightarrow> appearance fl p (snd tr)"
    "distinct (map fst (build_tracks fl arrange p new_id fs))"
    "fst ` set (build_tracks fl arrange p new_id fs) \<subseteq> new_id ` {..<length (build_tracks fl arrange p new_id fs)}"
    using t by (auto simp: build_tracks_def st tracking_def concat_frames comp_def live_ok_def image_image)
qed

text \<open>
  C4: the tracker loses no face and puts none into two tracks; the faces of a track come in time
  order, one per sampled frame, each within the gap and above the similarity or overlap floor to what
  the track had before; and tracks have distinct identifiers.
\<close>

theorem tracks_partition:
  assumes "\<And>cs. mset (arrange cs) = mset cs" "inj new_id"
  shows "mset (concat (map snd (build_tracks fl arrange p new_id fs))) = mset fs \<and>
    list_all (\<lambda>(i, t). appearance fl p t) (build_tracks fl arrange p new_id fs) \<and>
    distinct (map fst (build_tracks fl arrange p new_id fs))"
  using build_tracks_partition [OF assms] by (auto simp: list_all_iff)

definition plain_floats :: float_ops where
  "plain_floats = \<lparr>val32 = (\<lambda>w. of_int (sint w)), round32 = (\<lambda>x. word_of_int \<lfloor>x\<rfloor>), sqrt64 = (\<lambda>x. x)\<rparr>"

definition sample_face :: "string \<Rightarrow> int \<Rightarrow> rat \<Rightarrow> face" where
  "sample_face i t x = \<lparr>f_id = i, f_recording = ''r'', f_cam = ''c'', f_person = [], f_track = [], f_ts = t, f_offset_ms = t,
     f_bbox = \<lparr>box_x = x, box_y = 0, box_w = 10, box_h = 10\<rparr>, f_score = 1, f_quality = 1, f_emb = [], f_dim = 0,
     f_model = [], f_thumb = [], f_exemplar = False, f_confirmed = False, f_ignored = False, f_created = 0\<rparr>"

definition sample_faces :: "face list" where
  "sample_faces = [sample_face ''b'' 500 1, sample_face ''a'' 0 0, sample_face ''c'' 500 90, sample_face ''d'' 6000 2]"

theorem tracks_partition_witness:
  "mset (concat (map snd (build_tracks plain_floats (\<lambda>cs. cs) default_track_params (\<lambda>n. replicate n (CHR ''t'')) sample_faces))) =
     mset sample_faces \<and>
   map (map f_id \<circ> snd) (build_tracks plain_floats (\<lambda>cs. cs) default_track_params (\<lambda>n. replicate n (CHR ''t'')) sample_faces) =
     [[''a'', ''b''], [''c''], [''d'']]"
proof
  show "mset (concat (map snd (build_tracks plain_floats (\<lambda>cs. cs) default_track_params (\<lambda>n. replicate n (CHR ''t'')) sample_faces))) =
     mset sample_faces"
    using tracks_partition [of "\<lambda>cs. cs" "\<lambda>n. replicate n (CHR ''t'')" plain_floats default_track_params sample_faces]
    by (auto simp: inj_def dest: arg_cong [of _ _ length])
qed code_simp

end
