(* ===== verification/Face_Gallery.thy ===== *)
theory Face_Gallery
  imports Face_Tracker Recording_Store Event_Store
begin

text \<open>
  The database of faces as a state whose statements may fail, the gallery of exemplars and the
  assignment of a recording's faces to identities (\<^verbatim>\<open>internal/face/gallery.go\<close>).
\<close>

section \<open>Statements that may fail\<close>

text \<open>
  \<open>alive\<close> is the fate of the statements in the order in which they are sent, \<open>now\<close> the clock and \<open>uuid\<close>
  the identifiers that are drawn; \<open>recs\<close> are the recordings, the foreign keys of faces, tracks and jobs.
\<close>

record fdb =
  tbl :: face_tables
  recs :: rec_table
  motion :: "event list"
  clk :: nat
  alive :: "nat \<Rightarrow> bool"
  now :: "nat \<Rightarrow> int"
  uuid :: "nat \<Rightarrow> string"
  drawn_ids :: nat

type_synonym 'a act = "fdb \<Rightarrow> 'a option \<times> fdb"

definition aret :: "'a \<Rightarrow> 'a act" where
  "aret x d = (Some x, d)"

definition abind :: "'a act \<Rightarrow> ('a \<Rightarrow> 'b act) \<Rightarrow> 'b act" where
  "abind m f d = (case m d of (None, d1) \<Rightarrow> (None, d1) | (Some x, d1) \<Rightarrow> f x d1)"

definition athen :: "'a act \<Rightarrow> 'b act \<Rightarrow> 'b act" where
  "athen m m' = abind m (\<lambda>_. m')"

text \<open>A statement whose error is looked at but not passed on, and one whose error is dropped.\<close>

definition atry :: "'a act \<Rightarrow> 'a option act" where
  "atry m d = (let (r, d1) = m d in (Some r, d1))"

definition adrop :: "'a act \<Rightarrow> unit act" where
  "adrop m d = (Some (), snd (m d))"

fun aeach :: "('b \<Rightarrow> unit act) \<Rightarrow> 'b list \<Rightarrow> unit act" where
  "aeach f [] = aret ()"
| "aeach f (x # xs) = athen (f x) (aeach f xs)"

definition tick_db :: "fdb \<Rightarrow> fdb" where
  "tick_db d = d\<lparr>clk := Suc (clk d)\<rparr>"

definition stmt :: "(fdb \<Rightarrow> ('a \<times> face_tables) option) \<Rightarrow> 'a act" where
  "stmt f d =
     (case (if alive d (clk d) then f d else None) of
        None \<Rightarrow> (None, tick_db d)
      | Some (x, t) \<Rightarrow> (Some x, tick_db (d\<lparr>tbl := t\<rparr>)))"

definition rec_ids :: "fdb \<Rightarrow> string set" where
  "rec_ids d = rec_id ` set (recs d)"

definition query_db :: "(fdb \<Rightarrow> 'a) \<Rightarrow> 'a act" where
  "query_db q = stmt (\<lambda>d. Some (q d, tbl d))"

definition query :: "(face_tables \<Rightarrow> 'a) \<Rightarrow> 'a act" where
  "query q = stmt (\<lambda>d. Some (q (tbl d), tbl d))"

definition on_faces :: "(face list \<Rightarrow> face list) \<Rightarrow> unit act" where
  "on_faces f = stmt (\<lambda>d. Some ((), (tbl d)\<lparr>faces := f (faces (tbl d))\<rparr>))"

definition on_tracks :: "(face_track list \<Rightarrow> face_track list) \<Rightarrow> unit act" where
  "on_tracks f = stmt (\<lambda>d. Some ((), (tbl d)\<lparr>tracks := f (tracks (tbl d))\<rparr>))"

definition on_persons :: "(int \<Rightarrow> person list \<Rightarrow> person list) \<Rightarrow> unit act" where
  "on_persons f = stmt (\<lambda>d. Some ((), (tbl d)\<lparr>persons := f (now d (clk d)) (persons (tbl d))\<rparr>))"

definition on_jobs :: "(int \<Rightarrow> face_job list \<Rightarrow> face_job list) \<Rightarrow> unit act" where
  "on_jobs f = stmt (\<lambda>d. Some ((), (tbl d)\<lparr>jobs := f (now d (clk d)) (jobs (tbl d))\<rparr>))"

definition draw_id :: "string act" where
  "draw_id d = (Some (uuid d (drawn_ids d)), d\<lparr>drawn_ids := Suc (drawn_ids d)\<rparr>)"

definition add_face :: "face \<Rightarrow> unit act" where
  "add_face f = stmt (\<lambda>d. map_option (\<lambda>fs. ((), (tbl d)\<lparr>faces := fs\<rparr>)) (create_face (rec_ids d) (now d (clk d)) f (faces (tbl d))))"

definition add_person :: "person \<Rightarrow> unit act" where
  "add_person p = stmt (\<lambda>d. map_option (\<lambda>ps. ((), (tbl d)\<lparr>persons := ps\<rparr>)) (create_person (now d (clk d)) p (persons (tbl d))))"

definition add_track :: "face_track \<Rightarrow> unit act" where
  "add_track t = stmt (\<lambda>d. map_option (\<lambda>ts. ((), (tbl d)\<lparr>tracks := ts\<rparr>)) (create_track (rec_ids d) (now d (clk d)) t (tracks (tbl d))))"

text \<open>\<^verbatim>\<open>Recount\<close> sends two statements, as does \<^verbatim>\<open>RebuildExemplars\<close>.\<close>

definition recount_person :: "string \<Rightarrow> int act" where
  "recount_person i =
     abind (query (\<lambda>t. live_faces i (faces t)))
       (\<lambda>hits. athen (stmt (\<lambda>d. Some ((), (tbl d)\<lparr>persons := snd (recount (now d (clk d)) i hits (persons (tbl d)))\<rparr>)))
          (aret (int (length hits))))"

definition rebuild_person_exemplars :: "string \<Rightarrow> int \<Rightarrow> unit act" where
  "rebuild_person_exemplars i keep =
     athen (on_faces (map (\<lambda>f. if f_person f = i then f\<lparr>f_exemplar := False\<rparr> else f)))
       (on_faces (\<lambda>rows. let top = best_faces keep (filter (\<lambda>f. f_person f = i \<and> \<not> f_ignored f) rows)
          in map (\<lambda>f. if f_id f \<in> f_id ` set top then f\<lparr>f_exemplar := True\<rparr> else f) rows))"

section \<open>The gallery\<close>

definition exemplars_per_person :: int where "exemplars_per_person = 8"

type_synonym gallery = "(string \<times> embedding list) list"

fun gal_add :: "string \<Rightarrow> embedding \<Rightarrow> gallery \<Rightarrow> gallery" where
  "gal_add i e [] = [(i, [e])]"
| "gal_add i e ((j, es) # g) = (if i = j then (j, es @ [e]) # g else (j, es) # gal_add i e g)"

definition gallery_of :: "float_ops \<Rightarrow> face list \<Rightarrow> gallery" where
  "gallery_of fl fs =
     fold (\<lambda>f g. if f_person f = [] \<or> f_emb f = [] then g else gal_add (f_person f) (normalize fl (f_emb f)) g) fs []"

text \<open>An error of the query leaves the gallery empty.\<close>

definition load_gallery :: "float_ops \<Rightarrow> gallery act" where
  "load_gallery fl =
     abind (atry (query (\<lambda>t. list_faces (any_face\<lparr>ff_exemplars := True, ff_limit := 1000000\<rparr>) (faces t))))
       (\<lambda>r. aret (case r of None \<Rightarrow> [] | Some fs \<Rightarrow> gallery_of fl fs))"

text \<open>\<open>walk\<close> is the order in which Go walks the map; it decides between equal similarities.\<close>

definition gal_best :: "float_ops \<Rightarrow> (gallery \<Rightarrow> gallery) \<Rightarrow> gallery \<Rightarrow> embedding \<Rightarrow> string \<times> rat" where
  "gal_best fl walk g rep =
     fold (\<lambda>(i, es) b. fold (\<lambda>e b. let s = dot fl rep e in if s > snd b then (i, s) else b) es b) (walk g) ([], -1)"

section \<open>Aggregates of a track\<close>

record track_agg =
  a_rep :: embedding
  a_dim :: int
  a_best :: face
  a_quality :: rat
  a_start :: int
  a_end :: int

definition better_face :: "face \<Rightarrow> face \<Rightarrow> bool" where
  "better_face f b \<longleftrightarrow> f_quality f > f_quality b \<or> (f_quality f = f_quality b \<and> f_score f > f_score b)"

text \<open>The earliest and the latest time, as the code's loop updates them.\<close>

definition span_step :: "face \<Rightarrow> int \<times> int \<Rightarrow> int \<times> int" where
  "span_step f se = (if f_ts f < fst se then (f_ts f, snd se) else if f_ts f > snd se then (fst se, f_ts f) else se)"

definition aggregate_track :: "float_ops \<Rightarrow> face list \<Rightarrow> track_agg" where
  "aggregate_track fl fs =
     (let f0 = hd fs; se = fold span_step fs (f_ts f0, f_ts f0)
      in \<lparr>a_rep = weighted_mean fl (map (\<lambda>f. (f_emb f, if f_quality f \<le> 0 then f_score f else f_quality f)) fs),
          a_dim = f_dim f0,
          a_best = fold (\<lambda>f b. if better_face f b then f else b) fs f0,
          a_quality = sum_list (map f_quality fs) / of_nat (length fs),
          a_start = fst se, a_end = snd se\<rparr>)"

section \<open>Assignment of a recording\<close>

definition assign_one ::
  "float_ops \<Rightarrow> (gallery \<Rightarrow> gallery) \<Rightarrow> rat \<Rightarrow> string \<Rightarrow> string \<times> face list \<Rightarrow> gallery \<Rightarrow> gallery act" where
  "assign_one fl walk threshold rec tr gal =
     (let agg = aggregate_track fl (snd tr);
          (cand, sim) = gal_best fl walk gal (a_rep agg);
          joined = (if sim \<ge> threshold then cand else [])
      in abind (if joined = []
                then abind draw_id (\<lambda>i. athen (add_person ((blank_person i)\<lparr>p_first := a_start agg, p_last := a_end agg\<rparr>)) (aret i))
                else aret joined)
           (\<lambda>p. athen (add_track \<lparr>t_id = fst tr, t_recording = rec, t_cam = f_cam (a_best agg), t_person = p,
                      t_start = a_start agg, t_end = a_end agg, t_faces = int (length (snd tr)), t_quality = a_quality agg,
                      t_emb = a_rep agg, t_dim = a_dim agg, t_best = f_id (a_best agg), t_best_offset = f_offset_ms (a_best agg),
                      t_cand = cand, t_cand_sim = sim, t_confirmed = False, t_created = 0\<rparr>)
              (athen (on_faces (assign_track_faces (map f_id (snd tr)) (fst tr) p))
              (athen (on_faces (set_exemplar (f_id (a_best agg)) True))
              (athen (on_faces (prune_exemplars p exemplars_per_person))
              (abind (recount_person p)
                 (\<lambda>_. aret (gal_add p (normalize fl (f_emb (a_best agg))) gal))))))))"

fun assign_all ::
  "float_ops \<Rightarrow> (gallery \<Rightarrow> gallery) \<Rightarrow> rat \<Rightarrow> string \<Rightarrow> (string \<times> face list) list \<Rightarrow> gallery \<Rightarrow> unit act" where
  "assign_all fl walk threshold rec [] gal = aret ()"
| "assign_all fl walk threshold rec (tr # trs) gal =
     abind (assign_one fl walk threshold rec tr gal) (assign_all fl walk threshold rec trs)"

text \<open>The tracker draws one identifier per track.\<close>

definition tracks_of ::
  "float_ops \<Rightarrow> (cand list \<Rightarrow> cand list) \<Rightarrow> face list \<Rightarrow> (string \<times> face list) list act" where
  "tracks_of fl arrange fs d =
     (let trs = build_tracks fl arrange default_track_params (\<lambda>k. uuid d (drawn_ids d + k)) fs
      in (Some trs, d\<lparr>drawn_ids := drawn_ids d + length trs\<rparr>))"

definition assign_recording ::
  "float_ops \<Rightarrow> (cand list \<Rightarrow> cand list) \<Rightarrow> (gallery \<Rightarrow> gallery) \<Rightarrow> rat \<Rightarrow> string \<Rightarrow> unit act" where
  "assign_recording fl arrange walk threshold rec =
     abind (query (\<lambda>t. count_tracks_by_recording rec (tracks t)))
       (\<lambda>n. if n > 0 then aret ()
            else abind (query (\<lambda>t. list_faces (any_face\<lparr>ff_recording := rec, ff_limit := 1000000\<rparr>) (faces t)))
              (\<lambda>fs. let emb = filter (\<lambda>f. f_emb f \<noteq> []) fs
                    in if emb = [] then aret ()
                       else abind (tracks_of fl arrange emb)
                         (\<lambda>trs. abind (load_gallery fl) (assign_all fl walk threshold rec trs))))"

end
