(* ===== verification/Face_Cluster.thy ===== *)
theory Face_Cluster
  imports Face_Gallery
begin

text \<open>
  Global re-clustering with Chinese Whispers (\<^verbatim>\<open>internal/face/cluster.go\<close>).  The seeded random orders
  and the orders in which Go walks its maps are parameters.
\<close>

section \<open>The graph\<close>

definition cluster_iterations :: nat where "cluster_iterations = 30"

record recluster_result =
  rr_tracks :: int
  rr_moved :: int
  rr_deleted :: int
  rr_after :: int

definition no_result :: recluster_result where
  "no_result = \<lparr>rr_tracks = 0, rr_moved = 0, rr_deleted = 0, rr_after = 0\<rparr>"

definition index_map :: "face_track list \<Rightarrow> string \<rightharpoonup> nat" where
  "index_map ts = fold (\<lambda>(i, t) m. m(t_id t \<mapsto> i)) (enumerate 0 ts) Map.empty"

text \<open>The pairs that must not and those that must be linked, lower index first.\<close>

definition add_constraint ::
  "(string \<rightharpoonup> nat) \<Rightarrow> person_link \<Rightarrow> (nat \<times> nat) list \<times> (nat \<times> nat) list \<Rightarrow> (nat \<times> nat) list \<times> (nat \<times> nat) list" where
  "add_constraint pos l cm =
     (case (pos (l_a l), pos (l_b l)) of
        (Some a, Some b) \<Rightarrow>
          (if a = b then cm
           else let pr = (if a > b then (b, a) else (a, b))
                in (case l_kind l of LinkCannot \<Rightarrow> (pr # fst cm, snd cm) | LinkMust \<Rightarrow> (fst cm, snd cm @ [pr])))
      | _ \<Rightarrow> cm)"

type_synonym graph = "nat \<Rightarrow> (nat \<times> rat) list"

definition add_edge :: "nat \<Rightarrow> nat \<Rightarrow> rat \<Rightarrow> graph \<Rightarrow> graph" where
  "add_edge a b w adj = (let adj1 = adj(a := adj a @ [(b, w)]) in adj1(b := adj1 b @ [(a, w)]))"

definition edge_threshold :: "rat \<Rightarrow> rat" where
  "edge_threshold x = (if x \<le> 0 then 45 / 100 else x)"

definition similarity_graph :: "float_ops \<Rightarrow> rat \<Rightarrow> (nat \<times> nat) list \<times> (nat \<times> nat) list \<Rightarrow> embedding list \<Rightarrow> graph" where
  "similarity_graph fl threshold cm reps =
     (let pairs = concat (map (\<lambda>i. map (\<lambda>j. (i, j)) [Suc i..<length reps]) [0..<length reps]);
          near = fold (\<lambda>(i, j) adj.
                   if (i, j) \<in> set (fst cm) then adj
                   else let c = dot fl (reps ! i) (reps ! j) in if c < threshold then adj else add_edge i j c adj)
                 pairs (\<lambda>_. [])
      in fold (\<lambda>(a, b). add_edge a b 1) (snd cm) near)"

section \<open>Chinese Whispers\<close>

text \<open>\<open>orders n\<close> is the shuffled order of the round with \<open>n\<close> more to come.\<close>

definition is_anchor :: "face_track \<Rightarrow> bool" where
  "is_anchor t \<longleftrightarrow> t_confirmed t \<and> t_person t \<noteq> []"

definition first_label :: "face_track \<Rightarrow> string" where
  "first_label t = (if is_anchor t then ''P:'' @ t_person t else ''T:'' @ t_id t)"

definition label_score :: "(nat \<times> rat) list \<Rightarrow> string list \<Rightarrow> string \<Rightarrow> rat" where
  "label_score es labels k = sum_list (map snd (filter (\<lambda>e. labels ! fst e = k) es))"

definition best_label :: "(nat \<times> rat) list \<Rightarrow> string list \<Rightarrow> string \<Rightarrow> string" where
  "best_label es labels own =
     fst (fold (\<lambda>k b. if label_score es labels k > snd b then (k, label_score es labels k) else b)
            (stable_sort str_less (remdups (map (\<lambda>e. labels ! fst e) es))) (own, label_score es labels own))"

definition whisper_node :: "graph \<Rightarrow> bool list \<Rightarrow> nat \<Rightarrow> string list \<times> bool \<Rightarrow> string list \<times> bool" where
  "whisper_node adj anchored i st =
     (if anchored ! i \<or> adj i = [] then st
      else let b = best_label (adj i) (fst st) (fst st ! i)
           in if b \<noteq> fst st ! i then ((fst st)[i := b], True) else st)"

fun whispers :: "graph \<Rightarrow> bool list \<Rightarrow> (nat \<Rightarrow> nat list) \<Rightarrow> nat \<Rightarrow> string list \<Rightarrow> string list" where
  "whispers adj anchored orders 0 labels = labels"
| "whispers adj anchored orders (Suc n) labels =
     (case fold (whisper_node adj anchored) (orders n) (labels, False) of
        (labels1, changed) \<Rightarrow> if changed then whispers adj anchored orders n labels1 else labels1)"

section \<open>Applying the groups\<close>

text \<open>The existing person with the most faces among the members, else a new one (an error of its creation is dropped).\<close>

definition person_weight :: "face_track list \<Rightarrow> string \<Rightarrow> int" where
  "person_weight ms p = sum_list (map (\<lambda>t. t_faces t + 1) (filter (\<lambda>t. t_person t = p) ms))"

definition heaviest :: "face_track list \<Rightarrow> string" where
  "heaviest ms =
     fst (fold (\<lambda>k b. if person_weight ms k > snd b then (k, person_weight ms k) else b)
            (stable_sort str_less (remdups (filter (\<lambda>p. p \<noteq> []) (map t_person ms)))) ([], -1))"

definition canonical_person :: "face_track list \<Rightarrow> string act" where
  "canonical_person ms =
     (if heaviest ms = [] then abind draw_id (\<lambda>i. athen (adrop (add_person (blank_person i))) (aret i))
      else aret (heaviest ms))"

fun move_members :: "string \<Rightarrow> face_track list \<Rightarrow> string list \<times> int \<Rightarrow> (string list \<times> int) act" where
  "move_members target [] acc = aret acc"
| "move_members target (t # ts) acc =
     (if t_person t = target then move_members target ts acc
      else athen (on_tracks (update_track_person (t_id t) target))
           (athen (on_faces (set_person_by_track (t_id t) target))
             (move_members target ts (List.insert target (List.insert (t_person t) (fst acc)), snd acc + 1))))"

definition group_target :: "string \<Rightarrow> face_track list \<Rightarrow> string act" where
  "group_target label ms = (if has_prefix label ''P:'' then aret (drop 2 label) else canonical_person ms)"

fun move_groups :: "(string \<times> face_track list) list \<Rightarrow> string list \<times> int \<Rightarrow> (string list \<times> int) act" where
  "move_groups [] acc = aret acc"
| "move_groups ((label, ms) # gs) acc =
     abind (group_target label ms) (\<lambda>target. abind (move_members target ms acc) (move_groups gs))"

fun settle_persons :: "string list \<Rightarrow> int \<Rightarrow> int act" where
  "settle_persons [] deleted = aret deleted"
| "settle_persons (p # ps) deleted =
     (if p = [] then settle_persons ps deleted
      else abind (recount_person p)
        (\<lambda>n. if n = 0
             then abind (atry (on_persons (\<lambda>_. delete_person p)))
                    (\<lambda>r. settle_persons ps (if r = None then deleted else deleted + 1))
             else athen (rebuild_person_exemplars p exemplars_per_person) (settle_persons ps deleted)))"

definition groups_of :: "face_track list \<Rightarrow> string list \<Rightarrow> (string \<times> face_track list) list" where
  "groups_of ts labels =
     (let free = filter (\<lambda>(t, l). \<not> is_anchor t) (zip ts labels)
      in map (\<lambda>l. (l, map fst (filter (\<lambda>tl. snd tl = l) free))) (remdups (map snd free)))"

record cluster_env =
  ce_floats :: float_ops
  ce_orders :: "nat \<Rightarrow> nat list"
  ce_groups :: "(string \<times> face_track list) list \<Rightarrow> (string \<times> face_track list) list"
  ce_persons :: "string list \<Rightarrow> string list"

definition final_labels :: "cluster_env \<Rightarrow> rat \<Rightarrow> person_link list \<Rightarrow> face_track list \<Rightarrow> string list" where
  "final_labels env threshold ls ts =
     whispers (similarity_graph (ce_floats env) (edge_threshold threshold) (fold (add_constraint (index_map ts)) ls ([], []))
                (map (\<lambda>t. normalize (ce_floats env) (t_emb t)) ts))
       (map is_anchor ts) (ce_orders env) cluster_iterations (map first_label ts)"

definition recluster :: "cluster_env \<Rightarrow> rat \<Rightarrow> recluster_result act" where
  "recluster env threshold =
     abind (query (\<lambda>t. list_tracks (any_track\<lparr>tf_limit := 1000000\<rparr>) (tracks t)))
       (\<lambda>all. let ts = filter (\<lambda>t. t_emb t \<noteq> []) all; n = int (length ts)
              in if length ts < 2 then aret (no_result\<lparr>rr_tracks := n\<rparr>)
                 else abind (atry (query links))
                   (\<lambda>ls. let labels = final_labels env threshold (case ls of None \<Rightarrow> [] | Some x \<Rightarrow> x) ts
                         in abind (move_groups (ce_groups env (groups_of ts labels)) ([], 0))
                           (\<lambda>acc. abind (settle_persons (ce_persons env (fst acc)) 0)
                              (\<lambda>deleted. abind (atry (query (\<lambda>t. list_persons False 1000000 0 (persons t))))
                                 (\<lambda>ps. aret \<lparr>rr_tracks = n, rr_moved = snd acc, rr_deleted = deleted,
                                               rr_after = (case ps of None \<Rightarrow> 0 | Some x \<Rightarrow> int (length x))\<rparr>)))))"

end
