(* ===== verification/Face_Corrections.thy ===== *)
theory Face_Corrections
  imports Face_Cluster
begin

text \<open>
  The operator's corrections of identities (\<^verbatim>\<open>internal/api/faces_corrections.go\<close>, \<^verbatim>\<open>faces.go\<close>): requests
  after their routing and decoding (\<open>None\<close> is a body that does not decode).  Most errors of the
  database are dropped by these handlers, as \<open>adrop\<close> shows.
\<close>

datatype reply = Json | NoContent | BadRequest | NotFound | ServerError

definition face_exemplars :: int where "face_exemplars = 8"

text \<open>A row that is looked up; an error counts as not found.\<close>

definition lookup :: "(face_tables \<Rightarrow> 'a option) \<Rightarrow> 'a option act" where
  "lookup q = abind (atry (query q)) (\<lambda>r. aret (Option.bind r (\<lambda>x. x)))"

definition refresh_person :: "string \<Rightarrow> unit act" where
  "refresh_person i =
     (if i = [] then aret ()
      else abind (atry (recount_person i))
        (\<lambda>r. case r of None \<Rightarrow> aret ()
             | Some n \<Rightarrow> if n = 0 then adrop (on_persons (\<lambda>_. delete_person i))
                         else adrop (rebuild_person_exemplars i face_exemplars)))"

section \<open>Persons\<close>

record patch_person_req =
  pp_name :: "string option"
  pp_notes :: "string option"
  pp_cover :: "string option"

definition or_else :: "'a option \<Rightarrow> 'a \<Rightarrow> 'a" where
  "or_else o' x = (case o' of None \<Rightarrow> x | Some y \<Rightarrow> y)"

definition handle_patch_person :: "string \<Rightarrow> patch_person_req option \<Rightarrow> reply act" where
  "handle_patch_person i body =
     abind (lookup (\<lambda>t. get_person i (persons t)))
       (\<lambda>p. case p of None \<Rightarrow> aret NotFound
            | Some p \<Rightarrow>
                (case body of None \<Rightarrow> aret BadRequest
                 | Some req \<Rightarrow>
                     abind (atry (on_persons (\<lambda>time. update_meta time i (or_else (pp_name req) (p_name p))
                                   (or_else (pp_notes req) (p_notes p)) (or_else (pp_cover req) (p_cover p)))))
                       (\<lambda>r. if r = None then aret ServerError
                            else athen (lookup (\<lambda>t. get_person i (persons t))) (aret Json))))"

definition handle_delete_person :: "string \<Rightarrow> reply act" where
  "handle_delete_person i =
     athen (adrop (on_tracks (reassign_tracks i [])))
       (athen (adrop (on_faces (reassign_faces i [])))
         (abind (atry (on_persons (\<lambda>_. delete_person i)))
           (\<lambda>r. aret (if r = None then ServerError else NoContent))))"

definition merge_source :: "string \<Rightarrow> string \<Rightarrow> unit act" where
  "merge_source target src =
     (if src = [] \<or> src = target then aret ()
      else abind (atry (query (\<lambda>t. list_tracks (any_track\<lparr>tf_person := src, tf_limit := 100000\<rparr>) (tracks t))))
        (\<lambda>ts. athen (adrop (on_tracks (reassign_tracks src target)))
          (athen (adrop (on_faces (reassign_faces src target)))
          (athen (aeach (\<lambda>t. adrop (on_tracks (set_confirmed (t_id t) True))) (case ts of None \<Rightarrow> [] | Some x \<Rightarrow> x))
            (adrop (on_persons (\<lambda>_. delete_person src)))))))"

definition handle_merge_persons :: "(string list \<times> string) option \<Rightarrow> reply act" where
  "handle_merge_persons body =
     (case body of None \<Rightarrow> aret BadRequest
      | Some (sources, target) \<Rightarrow>
          if target = [] \<or> sources = [] then aret BadRequest
          else abind (lookup (\<lambda>t. get_person target (persons t)))
            (\<lambda>p. if p = None then aret NotFound
                 else athen (aeach (merge_source target) sources)
                   (athen (refresh_person target)
                     (athen (lookup (\<lambda>t. get_person target (persons t))) (aret Json)))))"

definition split_track :: "string \<Rightarrow> string \<Rightarrow> string \<Rightarrow> unit act" where
  "split_track i j track =
     abind (lookup (\<lambda>t. get_track track (tracks t)))
       (\<lambda>r. case r of None \<Rightarrow> aret ()
            | Some t \<Rightarrow> if t_person t \<noteq> i then aret ()
                else athen (adrop (on_tracks (update_track_person track j)))
                  (athen (adrop (on_tracks (set_confirmed track True)))
                    (adrop (on_faces (set_person_by_track track j)))))"

definition handle_split_person :: "string \<Rightarrow> string list option \<Rightarrow> reply act" where
  "handle_split_person i body =
     abind (lookup (\<lambda>t. get_person i (persons t)))
       (\<lambda>p. if p = None then aret NotFound
            else case body of None \<Rightarrow> aret BadRequest
              | Some ids \<Rightarrow>
                  if ids = [] then aret BadRequest
                  else abind draw_id
                    (\<lambda>j. abind (atry (add_person (blank_person j)))
                      (\<lambda>r. if r = None then aret ServerError
                           else athen (aeach (split_track i j) ids)
                             (athen (refresh_person i) (athen (refresh_person j)
                               (athen (lookup (\<lambda>t. get_person j (persons t))) (aret Json)))))))"

section \<open>Tracks, faces and links\<close>

definition assign_target :: "string \<Rightarrow> bool \<Rightarrow> (reply + string) act" where
  "assign_target person new_person =
     (if new_person
      then abind draw_id (\<lambda>j. abind (atry (add_person (blank_person j)))
             (\<lambda>r. aret (if r = None then Inl ServerError else Inr j)))
      else if person = [] then aret (Inl BadRequest)
      else abind (lookup (\<lambda>t. get_person person (persons t)))
             (\<lambda>p. aret (if p = None then Inl NotFound else Inr person)))"

definition handle_assign_track :: "string \<Rightarrow> (string \<times> bool) option \<Rightarrow> reply act" where
  "handle_assign_track track body =
     abind (lookup (\<lambda>t. get_track track (tracks t)))
       (\<lambda>r. case r of None \<Rightarrow> aret NotFound
            | Some t \<Rightarrow>
               (case body of None \<Rightarrow> aret BadRequest
                | Some (person, new_person) \<Rightarrow>
                    abind (assign_target person new_person)
                      (\<lambda>res. case res of Inl e \<Rightarrow> aret e
                         | Inr target \<Rightarrow>
                             athen (adrop (on_tracks (update_track_person track target)))
                            (athen (adrop (on_tracks (set_confirmed track True)))
                            (athen (adrop (on_faces (set_person_by_track track target)))
                            (athen (if t_person t \<noteq> target then refresh_person (t_person t) else aret ())
                            (athen (refresh_person target)
                            (athen (lookup (\<lambda>t. get_person target (persons t))) (aret Json)))))))))"

definition handle_confirm_track :: "string \<Rightarrow> reply act" where
  "handle_confirm_track track =
     abind (atry (on_tracks (set_confirmed track True))) (\<lambda>r. aret (if r = None then ServerError else NoContent))"

definition handle_ignore_face :: "string \<Rightarrow> bool option \<Rightarrow> reply act" where
  "handle_ignore_face i body =
     abind (lookup (\<lambda>t. get_face i (faces t)))
       (\<lambda>r. case r of None \<Rightarrow> aret NotFound
            | Some f \<Rightarrow>
               (case body of None \<Rightarrow> aret BadRequest
                | Some b \<Rightarrow>
                    abind (atry (on_faces (set_ignored i b)))
                      (\<lambda>r. if r = None then aret ServerError
                           else athen (refresh_person (f_person f)) (aret NoContent))))"

definition add_link :: "person_link \<Rightarrow> unit act" where
  "add_link l = stmt (\<lambda>d. map_option (\<lambda>ls. ((), (tbl d)\<lparr>links := ls\<rparr>)) (create_link (now d (clk d)) l (links (tbl d))))"

definition handle_create_link :: "(link_kind option \<times> string \<times> string) option \<Rightarrow> reply act" where
  "handle_create_link body =
     (case body of None \<Rightarrow> aret BadRequest
      | Some (k, a, b) \<Rightarrow>
          (case k of None \<Rightarrow> aret BadRequest
           | Some k \<Rightarrow> if a = [] \<or> b = [] \<or> a = b then aret BadRequest
               else abind draw_id (\<lambda>i. abind (atry (add_link \<lparr>l_id = i, l_kind = k, l_a = a, l_b = b, l_created = 0\<rparr>))
                      (\<lambda>r. aret (if r = None then ServerError else Json)))))"

definition handle_delete_link :: "string \<Rightarrow> reply act" where
  "handle_delete_link i =
     abind (atry (stmt (\<lambda>d. Some ((), (tbl d)\<lparr>links := delete_link i (links (tbl d))\<rparr>))))
       (\<lambda>r. aret (if r = None then ServerError else NoContent))"

definition handle_recluster :: "cluster_env \<Rightarrow> rat \<Rightarrow> reply act" where
  "handle_recluster env threshold =
     abind (atry (recluster env threshold)) (\<lambda>r. aret (if r = None then ServerError else Json))"

end
