(* ===== verification/Face_Worker.thy ===== *)
theory Face_Worker
  imports Face_Gallery
begin

text \<open>
  The queue of analysis jobs and its worker (\<^verbatim>\<open>internal/face/worker.go\<close>, \<^verbatim>\<open>thumb.go\<close>,
  \<^verbatim>\<open>extract.go\<close>), the settings of face recognition (\<^verbatim>\<open>internal/database/face.go\<close>,
  \<^verbatim>\<open>internal/api/faces.go\<close>) and the lists behind its pages.  The file system, \<^verbatim>\<open>ffmpeg\<close>, the
  sidecar, the JPEG codec and the cipher are arguments.
\<close>

section \<open>Settings\<close>

record face_config =
  fc_enabled :: bool
  fc_sidecar :: string
  fc_fps :: rat
  fc_frames :: int
  fc_batch :: int
  fc_width :: int
  fc_min_face :: int
  fc_det :: rat
  fc_min_quality :: rat
  fc_gated :: bool
  fc_realtime :: bool
  fc_realtime_fps :: rat
  fc_match :: rat
  fc_review :: rat

definition default_face_config :: face_config where
  "default_face_config =
     \<lparr>fc_enabled = False, fc_sidecar = ''http://127.0.0.1:8077'', fc_fps = 2, fc_frames = 1800, fc_batch = 16,
      fc_width = 0, fc_min_face = 50, fc_det = 1 / 2, fc_min_quality = 0, fc_gated = True, fc_realtime = False,
      fc_realtime_fps = 1, fc_match = 45 / 100, fc_review = 30 / 100\<rparr>"

definition sanitize_face_config :: "face_config \<Rightarrow> face_config" where
  "sanitize_face_config c =
     (let d = default_face_config;
          m = (if fc_match c \<le> 0 \<or> fc_match c > 1 then fc_match d else fc_match c)
      in c\<lparr>fc_sidecar := (if fc_sidecar c = [] then fc_sidecar d else fc_sidecar c),
           fc_fps := (if fc_fps c \<le> 0 \<or> fc_fps c > 30 then fc_fps d else fc_fps c),
           fc_frames := (if fc_frames c \<le> 0 then fc_frames d else fc_frames c),
           fc_batch := (if fc_batch c \<le> 0 \<or> fc_batch c > 128 then fc_batch d else fc_batch c),
           fc_min_face := (if fc_min_face c < 0 then fc_min_face d else fc_min_face c),
           fc_det := (if fc_det c \<le> 0 \<or> fc_det c > 1 then fc_det d else fc_det c),
           fc_match := m,
           fc_review := (if fc_review c \<le> 0 \<or> fc_review c > m then fc_review d else fc_review c),
           fc_realtime_fps := (if fc_realtime_fps c \<le> 0 \<or> fc_realtime_fps c > 10 then fc_realtime_fps d else fc_realtime_fps c)\<rparr>)"

section \<open>The windows of a recording\<close>

text \<open>Start and duration in seconds.\<close>

type_synonym window = "rat \<times> rat"

fun merge_ranges :: "window list \<Rightarrow> window list" where
  "merge_ranges [] = []"
| "merge_ranges [r] = [r]"
| "merge_ranges (r # q # rs) =
     (let last_end = fst r + snd r; e = fst q + snd q
      in if fst q \<le> last_end
         then merge_ranges ((fst r, if e > last_end then e - fst r else snd r) # rs)
         else r # merge_ranges (q # rs))"

definition event_window :: "rat \<Rightarrow> int \<Rightarrow> event \<Rightarrow> window option" where
  "event_window len start e =
     (let stop = (if e_end e = 0 \<or> e_end e < e_start e then e_start e + 5000 else e_end e);
          s = max 0 (of_int (e_start e - start) / 1000 - 2);
          t0 = of_int (stop - start) / 1000 + 2;
          t = (if len > 0 then min len t0 else t0)
      in if t \<le> s then None else Some (s, t - s))"

definition whole_range :: "recording \<Rightarrow> window list" where
  "whole_range rec = [(0, of_int (duration_ms rec) / 1000)]"

definition motion_filter :: "recording \<Rightarrow> event_filter" where
  "motion_filter rec =
     \<lparr>ef_cameras = [camera_id rec], ef_types = [''motion''], ef_from = Some (start_time rec),
      ef_to = (if end_time rec = 0 then None else Some (end_time rec)), ef_limit = 2000\<rparr>"

text \<open>The windows of the motion events; without gating, without events or on an error the whole file.\<close>

definition windows :: "recording \<Rightarrow> event list \<Rightarrow> window list" where
  "windows rec es = merge_ranges (List.map_filter (event_window (of_int (duration_ms rec) / 1000) (start_time rec)) es)"

definition ranges :: "recording \<Rightarrow> face_config \<Rightarrow> window list act" where
  "ranges rec c =
     (if \<not> fc_gated c \<or> start_time rec = 0 then aret (whole_range rec)
      else abind (atry (query_db (\<lambda>d. list_events (motion_filter rec) (motion d))))
        (\<lambda>r. aret (case r of None \<Rightarrow> whole_range rec
                   | Some es \<Rightarrow> if es = [] then whole_range rec else windows rec es)))"

section \<open>Frames, detections and thumbnails\<close>

record frame =
  fr_offset :: int
  fr_jpeg :: "byte list"

record detection =
  d_box :: "rat \<times> rat \<times> rat \<times> rat"
  d_score :: rat
  d_emb :: embedding
  d_sharp :: rat
  d_pose :: "rat list"

type_synonym rect = "int \<times> int \<times> int \<times> int"

text \<open>
  \<open>we_frames path start dur fps max width\<close> are the JPEGs \<^verbatim>\<open>ffmpeg\<close> writes, \<open>we_sidecar\<close> the response of
  the sidecar: numbered frames with their faces, the model and the dimension.
\<close>

record worker_env =
  we_file :: "string \<Rightarrow> bool"
  we_frames :: "string \<Rightarrow> rat \<Rightarrow> rat \<Rightarrow> rat \<Rightarrow> int \<Rightarrow> int \<Rightarrow> byte list list option"
  we_sidecar :: "byte list list \<Rightarrow> int \<Rightarrow> ((int \<times> detection list) list \<times> string \<times> int) option"
  we_faces_dir :: string
  we_bounds :: "byte list \<Rightarrow> rect option"
  we_crop :: "byte list \<Rightarrow> rect \<Rightarrow> byte list option"
  we_seal :: "string \<Rightarrow> byte list \<Rightarrow> byte list option"
  we_write :: "string \<Rightarrow> byte list \<Rightarrow> bool"
  we_assigner :: "(float_ops \<times> (cand list \<Rightarrow> cand list) \<times> (gallery \<Rightarrow> gallery)) option"
  we_cancelled :: "nat \<Rightarrow> bool"

definition trunc :: "rat \<Rightarrow> int" where
  "trunc x = (if x < 0 then \<lceil>x\<rceil> else \<lfloor>x\<rfloor>)"

definition extract_range :: "worker_env \<Rightarrow> string \<Rightarrow> window \<Rightarrow> rat \<Rightarrow> int \<Rightarrow> int \<Rightarrow> frame list option" where
  "extract_range env file w fps0 cap width =
     (let fps = (if fps0 \<le> 0 then 2 else fps0)
      in map_option (\<lambda>js. map (\<lambda>(i, j). \<lparr>fr_offset = trunc ((fst w + of_nat i / fps) * 1000), fr_jpeg = j\<rparr>) (enumerate 0 js))
           (we_frames env file (fst w) (snd w) fps cap width))"

text \<open>The client's \<^verbatim>\<open>Analyze\<close>: faces by frame, a later entry of the response replacing an earlier one.\<close>

definition by_frame :: "nat \<Rightarrow> (int \<times> detection list) list \<Rightarrow> detection list list" where
  "by_frame n rs = fold (\<lambda>(i, ds) out. if 0 \<le> i \<and> i < int n then out[nat i := ds] else out) rs (replicate n [])"

definition analyze :: "worker_env \<Rightarrow> byte list list \<Rightarrow> int \<Rightarrow> (detection list list \<times> string \<times> int) option" where
  "analyze env js min_face =
     map_option (\<lambda>(rs, model, dm). (by_frame (length js) rs, model, dm)) (we_sidecar env js min_face)"

definition clamp01 :: "rat \<Rightarrow> rat" where
  "clamp01 v = (if v < 0 then 0 else if v > 1 then 1 else v)"

definition det_quality :: "detection \<Rightarrow> rat \<Rightarrow> rat \<Rightarrow> rat" where
  "det_quality d w h =
     (let size = clamp01 (min w h / 100); sharp = clamp01 (d_sharp d / 120);
          pose = (if length (d_pose d) \<ge> 2 then clamp01 (1 - (\<bar>d_pose d ! 0\<bar> + \<bar>d_pose d ! 1\<bar>) / 120) else 1)
      in clamp01 (d_score d) * (4 / 10 + 25 / 100 * size + 2 / 10 * sharp + 15 / 100 * pose))"

definition clamp_int :: "int \<Rightarrow> int \<Rightarrow> int \<Rightarrow> int" where
  "clamp_int v lo hi = (if v < lo then lo else if v > hi then hi else v)"

definition crop_rect :: "rect \<Rightarrow> bbox \<Rightarrow> rect option" where
  "crop_rect bounds b =
     (let (bx0, by0, bx1, by1) = bounds; mx = box_w b * 35 / 100; my = box_h b * 35 / 100;
          x0 = clamp_int (trunc (box_x b - mx)) bx0 bx1; y0 = clamp_int (trunc (box_y b - my)) by0 by1;
          x1 = clamp_int (trunc (box_x b + box_w b + mx)) bx0 bx1; y1 = clamp_int (trunc (box_y b + box_h b + my)) by0 by1
      in if x1 - x0 < 8 \<or> y1 - y0 < 8 then None else Some (x0, y0, x1, y1))"

definition thumb_rel_path :: "string \<Rightarrow> string" where
  "thumb_rel_path i = (if length i \<ge> 2 then take 2 i @ ''/'' @ i @ ''.jpg'' else i @ ''.jpg'')"

text \<open>The path of the thumbnail, or nothing when a step fails.\<close>

definition make_thumb :: "worker_env \<Rightarrow> byte list \<Rightarrow> bbox \<Rightarrow> string \<Rightarrow> string" where
  "make_thumb env jpeg b i =
     (if we_faces_dir env = [] then []
      else case Option.bind (we_bounds env jpeg) (\<lambda>bounds. Option.bind (crop_rect bounds b) (we_crop env jpeg)) of
        None \<Rightarrow> []
      | Some img \<Rightarrow>
          (case we_seal env i img of
             None \<Rightarrow> []
           | Some out \<Rightarrow> if we_write env (thumb_rel_path i) out then thumb_rel_path i else []))"

section \<open>Storing the faces of a batch\<close>

definition box_of :: "detection \<Rightarrow> bbox" where
  "box_of d = (let (x1, y1, x2, y2) = d_box d in \<lparr>box_x = x1, box_y = y1, box_w = x2 - x1, box_h = y2 - y1\<rparr>)"

definition kept :: "face_config \<Rightarrow> detection \<Rightarrow> bool" where
  "kept c d \<longleftrightarrow>
     (let w = box_w (box_of d); h = box_h (box_of d)
      in \<not> d_score d < fc_det c \<and> \<not> (fc_min_face c > 0 \<and> min w h < of_int (fc_min_face c)) \<and>
         \<not> (fc_min_quality c > 0 \<and> det_quality d w h < fc_min_quality c))"

definition store_one :: "worker_env \<Rightarrow> recording \<Rightarrow> frame \<Rightarrow> string \<Rightarrow> int \<Rightarrow> detection \<Rightarrow> unit act" where
  "store_one env rec fr model dm d =
     (let b = box_of d
      in abind draw_id (\<lambda>i. add_face
           \<lparr>f_id = i, f_recording = rec_id rec, f_cam = camera_id rec, f_person = [], f_track = [],
            f_ts = start_time rec + fr_offset fr, f_offset_ms = fr_offset fr, f_bbox = b, f_score = d_score d,
            f_quality = det_quality d (box_w b) (box_h b), f_emb = d_emb d, f_dim = dm, f_model = model,
            f_thumb = make_thumb env (fr_jpeg fr) b i, f_exemplar = False, f_confirmed = False, f_ignored = False,
            f_created = 0\<rparr>))"

definition store_batch ::
  "worker_env \<Rightarrow> face_config \<Rightarrow> recording \<Rightarrow> frame list \<Rightarrow> detection list list \<Rightarrow> string \<Rightarrow> int \<Rightarrow> int act" where
  "store_batch env c rec batch dets model dm =
     (let hits = concat (map (\<lambda>(fr, ds). map (Pair fr) (filter (kept c) ds)) (zip batch dets))
      in athen (aeach (\<lambda>(fr, d). store_one env rec fr model dm d) hits) (aret (int (length hits))))"

section \<open>Processing a job\<close>

definition of_option :: "'a option \<Rightarrow> 'a act" where
  "of_option x d = (x, d)"

function chunks :: "nat \<Rightarrow> 'a list \<Rightarrow> 'a list list" where
  "chunks n xs = (if n = 0 \<or> xs = [] then [] else take n xs # chunks n (drop n xs))"
  by pat_completeness auto
termination by (relation "measure (length \<circ> snd)") auto

fun do_batches :: "worker_env \<Rightarrow> face_config \<Rightarrow> recording \<Rightarrow> frame list list \<Rightarrow> int \<Rightarrow> int act" where
  "do_batches env c rec [] n = aret n"
| "do_batches env c rec (batch # bs) n =
     abind (of_option (analyze env (map fr_jpeg batch) (fc_min_face c)))
       (\<lambda>(dets, model, dm). abind (store_batch env c rec batch dets model dm)
          (\<lambda>k. do_batches env c rec bs (n + k)))"

definition batch_size :: "face_config \<Rightarrow> nat" where
  "batch_size c = (if fc_batch c \<le> 0 then 16 else nat (fc_batch c))"

fun do_ranges :: "worker_env \<Rightarrow> face_config \<Rightarrow> recording \<Rightarrow> window list \<Rightarrow> int \<Rightarrow> int \<Rightarrow> int act" where
  "do_ranges env c rec [] budget n = aret n"
| "do_ranges env c rec (w # ws) budget n =
     (if budget \<le> 0 then aret n
      else abind (of_option (extract_range env (path rec) w (fc_fps c) budget (fc_width c)))
        (\<lambda>frames. abind (do_batches env c rec (chunks (batch_size c) frames) n)
           (\<lambda>n1. do_ranges env c rec ws (budget - int (length frames)) n1)))"

text \<open>A failed assignment is logged and the job completes all the same.\<close>

definition assign_step :: "worker_env \<Rightarrow> face_config \<Rightarrow> recording \<Rightarrow> unit act" where
  "assign_step env c rec =
     (case we_assigner env of None \<Rightarrow> aret ()
      | Some (fl, arrange, walk) \<Rightarrow> adrop (assign_recording fl arrange walk (fc_match c) (rec_id rec)))"

definition skip_job :: "face_job \<Rightarrow> string \<Rightarrow> unit act" where
  "skip_job job msg = on_jobs (\<lambda>time. set_job_state time (j_id job) JobSkipped msg)"

definition process :: "worker_env \<Rightarrow> face_config \<Rightarrow> face_job \<Rightarrow> unit act" where
  "process env c job =
     abind (atry (query_db (\<lambda>d. get_rec (j_recording job) (recs d))))
       (\<lambda>r. case Option.bind r (\<lambda>x. x) of
          None \<Rightarrow> skip_job job ''recording not found''
        | Some rec \<Rightarrow>
            if local_removed rec then skip_job job ''local file removed (S3 source not yet supported)''
            else if \<not> we_file env (path rec) then skip_job job ''local file missing''
            else abind (ranges rec c)
              (\<lambda>ws. abind (do_ranges env c rec ws (if fc_frames c \<le> 0 then 1800 else fc_frames c) 0)
                (\<lambda>n. athen (assign_step env c rec)
                  (on_jobs (\<lambda>time. complete_job time (j_id job) n)))))"

section \<open>The worker\<close>

definition max_attempts :: int where "max_attempts = 3"

definition claim_next :: "int \<Rightarrow> face_job option act" where
  "claim_next m =
     abind (query (\<lambda>t. next_job m (jobs t)))
       (\<lambda>r. case r of None \<Rightarrow> aret None
            | Some j \<Rightarrow> abind (stmt (\<lambda>d. Some (filter (\<lambda>x. j_id x = j_id j \<and> j_state x = j_state j) (jobs (tbl d)),
                                            (tbl d)\<lparr>jobs := claim_job (now d (clk d)) j (jobs (tbl d))\<rparr>)))
                (\<lambda>hits. aret (if hits = [] then None
                              else Some (j\<lparr>j_state := JobRunning, j_attempts := j_attempts j + 1\<rparr>))))"

text \<open>The message of a failure is an argument.\<close>

definition process_one :: "worker_env \<Rightarrow> face_config \<Rightarrow> string \<Rightarrow> bool act" where
  "process_one env c msg =
     abind (claim_next max_attempts)
       (\<lambda>r. case r of None \<Rightarrow> aret False
            | Some job \<Rightarrow>
                abind (atry (process env c job))
                  (\<lambda>ok. if ok = None
                        then athen (adrop (on_jobs (\<lambda>time. fail_job time (j_id job) msg))) (aret True)
                        else aret True))"

partial_function (option) drain_jobs :: "worker_env \<Rightarrow> face_config \<Rightarrow> string \<Rightarrow> fdb \<Rightarrow> fdb option" where
  "drain_jobs env c msg d =
     (if we_cancelled env (clk d) then Some d
      else let r = process_one env c msg d
           in if fst r = Some True then drain_jobs env c msg (snd r) else Some (snd r))"

definition drain :: "worker_env \<Rightarrow> face_config \<Rightarrow> string \<Rightarrow> fdb \<Rightarrow> fdb option" where
  "drain env c msg d = (if \<not> fc_enabled c \<or> fc_sidecar c = [] then Some d else drain_jobs env c msg d)"

definition start_worker :: "unit act" where
  "start_worker = adrop (on_jobs (\<lambda>time rows. snd (requeue_running time rows)))"

section \<open>Enqueueing\<close>

definition enqueue :: "string \<Rightarrow> unit act" where
  "enqueue r = abind draw_id
     (\<lambda>i. stmt (\<lambda>d. map_option (\<lambda>js. ((), (tbl d)\<lparr>jobs := js\<rparr>)) (enqueue_job (rec_ids d) (now d (clk d)) i r (jobs (tbl d)))))"

text \<open>A scan counts the recordings whose statement succeeded; limits and times as the handler sets them.\<close>

record scan_request =
  sr_camera :: string
  sr_from :: int
  sr_to :: int
  sr_limit :: int

definition scan_filter :: "scan_request \<Rightarrow> rec_filter" where
  "scan_filter q =
     \<lparr>f_camera = sr_camera q, f_from = (if sr_from q > 0 then Some (sr_from q) else None),
      f_to = (if sr_to q > 0 then Some (sr_to q) else None),
      f_limit = (if sr_limit q \<le> 0 then 1000 else sr_limit q), f_offset = 0\<rparr>"

fun enqueue_all :: "recording list \<Rightarrow> int \<Rightarrow> int act" where
  "enqueue_all [] n = aret n"
| "enqueue_all (r # rs) n =
     (if \<not> complete r then enqueue_all rs n
      else abind (atry (enqueue (rec_id r))) (\<lambda>ok. enqueue_all rs (if ok = None then n else n + 1)))"

definition handle_face_scan :: "scan_request \<Rightarrow> (int \<times> int) act" where
  "handle_face_scan q =
     abind (query_db (\<lambda>d. list_recs (scan_filter q) (recs d)))
       (\<lambda>rs. abind (enqueue_all rs 0) (\<lambda>n. aret (n, int (length rs))))"

end
