(* ===== verification/Face_Acts.thy ===== *)
theory Face_Acts
  imports Face_Worker
begin

text \<open>
  Reasoning about statements in sequence: \<open>triple\<close> for actions that succeed, \<open>keeps\<close> for what
  survives whichever statements fail.
\<close>

named_theorems acts
named_theorems plain_acts

section \<open>Triples\<close>

text \<open>\<open>triple P m Q\<close>: from a state with \<open>P\<close> the action succeeds and its result satisfies \<open>Q\<close>.\<close>

definition triple :: "(fdb \<Rightarrow> bool) \<Rightarrow> 'a act \<Rightarrow> ('a \<Rightarrow> fdb \<Rightarrow> bool) \<Rightarrow> bool" where
  "triple P m Q \<longleftrightarrow> (\<forall>d. P d \<longrightarrow> (\<exists>x d'. m d = (Some x, d') \<and> Q x d'))"

lemma tripleI: "(\<And>d. P d \<Longrightarrow> \<exists>x d'. m d = (Some x, d') \<and> Q x d') \<Longrightarrow> triple P m Q"
  by (simp add: triple_def)

lemma tripleD: "triple P m Q \<Longrightarrow> P d \<Longrightarrow> \<exists>x d'. m d = (Some x, d') \<and> Q x d'"
  by (simp add: triple_def)

lemma triple_weaken: "triple P m Q \<Longrightarrow> (\<And>d. P' d \<Longrightarrow> P d) \<Longrightarrow> (\<And>x d. Q x d \<Longrightarrow> Q' x d) \<Longrightarrow> triple P' m Q'"
  unfolding triple_def by meson

lemma triple_ret: "(\<And>d. P d \<Longrightarrow> Q x d) \<Longrightarrow> triple P (aret x) Q"
  by (simp add: triple_def aret_def)

lemma triple_bind: "triple P m R \<Longrightarrow> (\<And>x. triple (R x) (f x) Q) \<Longrightarrow> triple P (abind m f) Q"
  unfolding triple_def abind_def by (metis (mono_tags, lifting) old.prod.case option.case(2))

lemma triple_then: "triple P m (\<lambda>_. R) \<Longrightarrow> triple R m' Q \<Longrightarrow> triple P (athen m m') Q"
  unfolding athen_def by (rule triple_bind)

lemma triple_drop: "triple P m (\<lambda>_. R) \<Longrightarrow> triple P (adrop m) (\<lambda>_. R)"
  unfolding triple_def adrop_def by fastforce

lemma triple_try: "triple P m Q \<Longrightarrow> triple P (atry m) (\<lambda>r d. \<exists>x. r = Some x \<and> Q x d)"
  unfolding triple_def atry_def by (fastforce simp: Let_def)

lemma triple_each: "(\<And>x. x \<in> set xs \<Longrightarrow> triple P (f x) (\<lambda>_. P)) \<Longrightarrow> triple P (aeach f xs) (\<lambda>_. P)"
  by (induction xs) (auto intro: triple_ret triple_then)

lemma triple_pre: "(\<And>d. P d \<Longrightarrow> b) \<Longrightarrow> (b \<Longrightarrow> triple P m Q) \<Longrightarrow> triple P m Q"
  unfolding triple_def by blast

section \<open>Whatever fails\<close>

definition keeps :: "(fdb \<Rightarrow> bool) \<Rightarrow> 'a act \<Rightarrow> bool" where
  "keeps P m \<longleftrightarrow> (\<forall>d. P d \<longrightarrow> P (snd (m d)))"

lemma keeps_elim: "keeps P m \<Longrightarrow> P d \<Longrightarrow> P (snd (m d))"
  by (simp add: keeps_def)

lemma keeps_triple: "triple P m (\<lambda>_. P) \<Longrightarrow> keeps P m"
  unfolding keeps_def triple_def by fastforce

lemma keeps_ret [acts]: "keeps P (aret x)"
  by (simp add: keeps_def aret_def)

lemma keeps_of_option [acts]: "keeps P (of_option x)"
  by (simp add: keeps_def of_option_def)

lemma keeps_bind [acts]: "keeps P m \<Longrightarrow> (\<And>x. keeps P (f x)) \<Longrightarrow> keeps P (abind m f)"
  unfolding keeps_def abind_def by (auto split: prod.splits option.splits)

lemma keeps_then [acts]: "keeps P m \<Longrightarrow> keeps P m' \<Longrightarrow> keeps P (athen m m')"
  unfolding athen_def by (rule keeps_bind)

lemma keeps_drop [acts]: "keeps P m \<Longrightarrow> keeps P (adrop m)"
  by (simp add: keeps_def adrop_def)

lemma keeps_try [acts]: "keeps P m \<Longrightarrow> keeps P (atry m)"
  by (simp add: keeps_def atry_def split_def Let_def)

lemma keeps_each [acts]: "(\<And>x. keeps P (f x)) \<Longrightarrow> keeps P (aeach f xs)"
  by (induction xs) (auto intro: acts)

text \<open>What holds of a state whatever the time and the number of drawn identifiers.\<close>

definition timeless :: "(fdb \<Rightarrow> bool) \<Rightarrow> bool" where
  "timeless P \<longleftrightarrow> (\<forall>d n. P d \<longrightarrow> P (d\<lparr>clk := n\<rparr>) \<and> P (d\<lparr>drawn_ids := n\<rparr>))"

lemma keeps_stmt:
  "timeless P \<Longrightarrow> (\<And>d x t. P d \<Longrightarrow> f d = Some (x, t) \<Longrightarrow> P (d\<lparr>tbl := t\<rparr>)) \<Longrightarrow> keeps P (stmt f)"
  by (auto simp: keeps_def stmt_def tick_db_def timeless_def split: option.splits)

lemma keeps_query [plain_acts]: "timeless P \<Longrightarrow> keeps P (query q)" "timeless P \<Longrightarrow> keeps P (query_db r)"
  by (auto simp: query_def query_db_def intro!: keeps_stmt)

lemma keeps_draw [plain_acts]: "timeless P \<Longrightarrow> keeps P draw_id" "timeless P \<Longrightarrow> keeps P (tracks_of fl arrange fs)"
  by (auto simp: draw_id_def tracks_of_def keeps_def timeless_def Let_def)

text \<open>Properties of the state that do not look at faces, persons or tracks.\<close>

definition off_faces :: "(fdb \<Rightarrow> bool) \<Rightarrow> bool" where
  "off_faces P \<longleftrightarrow> timeless P \<and>
     (\<forall>d fs ps ts. P d \<longrightarrow> P (d\<lparr>tbl := (tbl d)\<lparr>faces := fs\<rparr>\<rparr>) \<and> P (d\<lparr>tbl := (tbl d)\<lparr>persons := ps\<rparr>\<rparr>) \<and>
        P (d\<lparr>tbl := (tbl d)\<lparr>tracks := ts\<rparr>\<rparr>))"

lemma keeps_off_faces [plain_acts]:
  assumes "off_faces P"
  shows "keeps P (on_faces f)" "keeps P (on_tracks g)" "keeps P (on_persons h)" "keeps P (add_face x)" "keeps P (add_person y)"
    "keeps P (add_track z)" "keeps P (recount_person i)"
  using assms unfolding off_faces_def on_faces_def on_tracks_def on_persons_def add_face_def add_person_def add_track_def recount_person_def
  by (auto intro!: keeps_stmt acts plain_acts)

lemma off_faces_timeless: "off_faces P \<Longrightarrow> timeless P"
  by (simp add: off_faces_def)

text \<open>So the analysis of a recording leaves them alone, however it ends.\<close>

lemma keeps_assign_one: "off_faces P \<Longrightarrow> keeps P (assign_one fl walk threshold rec tr gal)"
  unfolding assign_one_def Let_def split_def by (auto intro!: acts plain_acts simp: off_faces_timeless)

lemma keeps_assign_all: "off_faces P \<Longrightarrow> keeps P (assign_all fl walk threshold rec trs gal)"
  by (induction trs arbitrary: gal) (auto intro!: acts plain_acts keeps_assign_one)

lemma keeps_assign_recording: "off_faces P \<Longrightarrow> keeps P (assign_recording fl arrange walk threshold rec)"
  unfolding assign_recording_def load_gallery_def Let_def
  by (auto intro!: acts plain_acts keeps_assign_all simp: off_faces_timeless)

text \<open>A face as the detector leaves it.\<close>

definition raw_face :: "face \<Rightarrow> bool" where
  "raw_face f \<longleftrightarrow> f_person f = [] \<and> f_track f = [] \<and> \<not> f_exemplar f \<and> \<not> f_ignored f"

lemma keeps_store_batch:
  "keeps P draw_id \<Longrightarrow> (\<And>f. raw_face f \<Longrightarrow> keeps P (add_face f)) \<Longrightarrow> keeps P (store_batch env c rec batch dets model x)"
  unfolding store_batch_def store_one_def Let_def split_def by (auto intro!: acts simp: raw_face_def)

lemma keeps_do_batches:
  "(\<And>b ds m x. keeps P (store_batch env c rec b ds m x)) \<Longrightarrow> keeps P (do_batches env c rec bs n)"
  by (induction bs arbitrary: n) (auto intro!: acts)

lemma keeps_do_ranges:
  "keeps P draw_id \<Longrightarrow> (\<And>f. raw_face f \<Longrightarrow> keeps P (add_face f)) \<Longrightarrow> keeps P (do_ranges env c rec ws budget n)"
  by (induction ws arbitrary: budget n) (auto intro!: acts keeps_do_batches keeps_store_batch)

lemma keeps_assign_step:
  "(\<And>fl arrange walk. we_assigner env = Some (fl, arrange, walk) \<Longrightarrow> keeps P (assign_recording fl arrange walk (fc_match c) (rec_id rec))) \<Longrightarrow>
   keeps P (assign_step env c rec)"
  unfolding assign_step_def by (auto split: option.split intro!: acts)

lemma keeps_ranges: "(\<And>q :: fdb \<Rightarrow> event list. keeps P (query_db q)) \<Longrightarrow> keeps P (ranges rec c)"
  unfolding ranges_def by (auto intro!: acts)

lemma keeps_analysis:
  assumes "off_faces P"
  shows "keeps P (do_ranges env c rec ws budget n)" "keeps P (assign_step env c rec)" "keeps P (ranges rec c)"
  using assms by (auto intro!: keeps_do_ranges keeps_assign_step keeps_ranges keeps_assign_recording acts plain_acts off_faces_timeless)

text \<open>A result that is known restricts what follows.\<close>

lemma keeps_bind_known:
  assumes "keeps P m" "\<And>d x. P d \<Longrightarrow> fst (m d) = Some x \<Longrightarrow> B x" "\<And>x. B x \<Longrightarrow> keeps P (f x)"
  shows "keeps P (abind m f)"
  unfolding keeps_def abind_def
proof (intro allI impI)
  fix d
  assume d: "P d"
  obtain r d1 where m: "m d = (r, d1)" by (cases "m d")
  have d1: "P d1" using keeps_elim [OF assms(1) d] m by simp
  show "P (snd (case m d of (None, d1) \<Rightarrow> (None, d1) | (Some x, d1) \<Rightarrow> f x d1))"
  proof (cases r)
    case (Some x)
    then show ?thesis using keeps_elim [OF assms(3) d1, of x] assms(2) [OF d, of x] m by simp
  qed (use d1 m in simp)
qed

section \<open>Results of statements in a triple\<close>

lemma triple_case_some:
  "(\<And>x. triple (Q x) (f x) S) \<Longrightarrow> triple (\<lambda>d. \<exists>x. r = Some x \<and> Q x d) (case r of None \<Rightarrow> g | Some x \<Rightarrow> f x) S"
  unfolding triple_def by auto

lemma triple_if_some:
  "triple Q m S \<Longrightarrow> triple (\<lambda>d. \<exists>x. r = Some x \<and> Q d) (if r = None then g else m) S"
  unfolding triple_def by auto

lemma athen_assoc: "athen (athen a b) c = athen a (athen b c)"
  by (rule ext) (simp add: athen_def abind_def split: prod.split option.split)

end
