(* ===== verification/Face_Jobs.thy ===== *)
theory Face_Jobs
  imports Face_Acts
begin

text \<open>
  The worker empties its queue: every run ends, with a bound on how often jobs are claimed.  Then the
  windows of a recording, and what the merge makes of events that come newest first.
\<close>

section \<open>The run of the worker\<close>

definition job_budget :: "face_job \<Rightarrow> int" where
  "job_budget j =
     (case j_state j of
        JobPending \<Rightarrow> max 1 (max_attempts - j_attempts j)
      | JobFailed \<Rightarrow> max 0 (max_attempts - j_attempts j)
      | _ \<Rightarrow> 0)"

definition work :: "face_job list \<Rightarrow> int" where
  "work js = sum_list (map job_budget js)"

definition claims :: "face_job list \<Rightarrow> int" where
  "claims js = sum_list (map j_attempts js)"

text \<open>What one job goes through between two looks at the queue.\<close>

definition handled :: "string \<Rightarrow> face_job \<Rightarrow> face_job \<Rightarrow> bool" where
  "handled i a b \<longleftrightarrow>
     j_id b = j_id a \<and> (if j_id a = i then j_attempts b = j_attempts a + 1 \<and> j_state b \<noteq> JobPending else b = a)"

lemma work_nonneg: "0 \<le> work js"
  unfolding work_def by (rule sum_list_nonneg) (auto simp: job_budget_def split: job_state.split)

lemma handled_budget:
  assumes "handled i a b" "j_id a = i \<longrightarrow> runnable max_attempts a"
  shows "job_budget b + j_attempts b \<le> job_budget a + j_attempts a" "j_id a = i \<Longrightarrow> job_budget b < job_budget a"
    "job_budget b \<le> job_budget a"
  using assms by (auto simp: handled_def job_budget_def runnable_def split: job_state.splits if_splits)

lemma handled_work:
  assumes "list_all2 (handled i) xs ys" "\<forall>a \<in> set xs. j_id a = i \<longrightarrow> runnable max_attempts a"
  shows "work ys + claims ys \<le> work xs + claims xs" "work ys \<le> work xs" "i \<in> j_id ` set xs \<Longrightarrow> work ys < work xs"
    "map j_id ys = map j_id xs"
  using assms
proof (induction rule: list_all2_induct)
  case (Cons a xs b ys)
  note b = handled_budget [OF Cons.hyps(1)]
  { case 1 then show ?case using Cons.IH(1) b(1) by (force simp: work_def claims_def) next
    case 2 then show ?case using Cons.IH(2) b(3) by (force simp: work_def) next
    case 3 then show ?case using Cons.IH(2,3) b(2,3) by (cases "j_id a = i") (force simp: work_def)+ next
    case 4 then show ?case using Cons.IH(4) Cons.hyps(1) by (auto simp: handled_def) }
qed (auto simp: work_def claims_def)

text \<open>A job in hand: the worker's updates keep it from being pending.\<close>

definition in_hand :: "string \<Rightarrow> face_job list \<Rightarrow> fdb \<Rightarrow> bool" where
  "in_hand i js d \<longleftrightarrow> list_all2 (handled i) js (jobs (tbl d))"

lemma off_faces_in_hand: "off_faces (in_hand i js)"
  by (simp add: off_faces_def timeless_def in_hand_def)

lemma keeps_job_update:
  assumes "timeless P" "\<And>d n. P d \<Longrightarrow> P (d\<lparr>tbl := (tbl d)\<lparr>jobs := f n (jobs (tbl d))\<rparr>\<rparr>)"
  shows "keeps P (on_jobs f)"
  unfolding on_jobs_def by (rule keeps_stmt [OF assms(1)]) (auto intro: assms(2))

lemma in_hand_update:
  assumes "in_hand i js d" "\<And>x. j_id (g x) = j_id x \<and> j_attempts (g x) = j_attempts x \<and> j_state (g x) \<noteq> JobPending"
  shows "in_hand i js (d\<lparr>tbl := (tbl d)\<lparr>jobs := map (\<lambda>x. if j_id x = i then g x else x) (jobs (tbl d))\<rparr>\<rparr>)"
  using assms unfolding in_hand_def by (auto simp: list.rel_map handled_def elim!: list_all2_mono)

lemma keeps_in_hand:
  "keeps (in_hand i js) (on_jobs (\<lambda>time. fail_job time i msg))"
  "keeps (in_hand i js) (on_jobs (\<lambda>time. complete_job time i n))"
  "j_id job = i \<Longrightarrow> keeps (in_hand i js) (skip_job job msg)"
  unfolding skip_job_def fail_job_def set_job_state_def complete_job_def
  by (auto intro!: keeps_job_update in_hand_update simp: off_faces_in_hand off_faces_timeless)

lemma keeps_process:
  assumes "j_id job = i"
  shows "keeps (in_hand i js) (process env c job)"
  unfolding process_def
  by (auto intro!: acts plain_acts keeps_in_hand keeps_analysis split: option.split simp: assms off_faces_in_hand off_faces_timeless)

text \<open>The fate of the statements is fixed.\<close>

lemma off_faces_alive: "off_faces (\<lambda>d. alive d = a)"
  by (simp add: off_faces_def timeless_def)

lemma keeps_alive_jobs: "keeps (\<lambda>d. alive d = a) (on_jobs f)"
  by (rule keeps_job_update) (simp_all add: timeless_def)

lemma keeps_alive_process_one: "keeps (\<lambda>d. alive d = a) (process_one env c msg)"
proof -
  have "keeps (\<lambda>d. alive d = a) (process env c job)" for job
    unfolding process_def skip_job_def
    by (auto intro!: acts plain_acts keeps_alive_jobs keeps_analysis split: option.split simp: off_faces_alive off_faces_timeless)
  then show ?thesis
    unfolding process_one_def claim_next_def
    by (auto intro!: acts plain_acts keeps_alive_jobs split: option.split simp: off_faces_alive off_faces_timeless)
      (auto intro!: keeps_stmt simp: timeless_def)
qed

section \<open>One round\<close>

lemma next_jobD: "next_job m js = Some j \<Longrightarrow> j \<in> set js \<and> runnable m j"
proof -
  assume "next_job m js = Some j"
  then obtain js' where "sort_key j_created (filter (runnable m) js) = j # js'" by (auto simp: next_job_def split: list.splits)
  then have "j \<in> set (sort_key j_created (filter (runnable m) js))" by (metis list.set_intros(1))
  then show ?thesis by simp
qed

lemma next_job_None: "next_job m js = None \<longleftrightarrow> filter (runnable m) js = []"
proof -
  have "next_job m js = None \<longleftrightarrow> sort_key j_created (filter (runnable m) js) = []" by (auto simp: next_job_def split: list.splits)
  also have "\<dots> \<longleftrightarrow> filter (runnable m) js = []" by (metis length_0_conv length_sort)
  finally show ?thesis .
qed

lemma claim_handled:
  assumes "distinct (map j_id js)" "j \<in> set js"
  shows "list_all2 (handled (j_id j)) js (claim_job n j js)"
  using assms by (auto simp: claim_job_def list.rel_map list_all2_same handled_def eq_key_imp_eq_value distinct_map inj_on_def)

lemma claim_next_cases:
  obtains "claim_next m d = (None, snd (claim_next m d))" "\<not> (\<forall>n. alive d n)" "jobs (tbl (snd (claim_next m d))) = jobs (tbl d)"
  | "claim_next m d = (Some None, snd (claim_next m d))" "next_job m (jobs (tbl d)) = None"
    "jobs (tbl (snd (claim_next m d))) = jobs (tbl d)"
  | j n where "next_job m (jobs (tbl d)) = Some j"
    "claim_next m d = (Some (Some (j\<lparr>j_state := JobRunning, j_attempts := j_attempts j + 1\<rparr>)), snd (claim_next m d))"
    "jobs (tbl (snd (claim_next m d))) = claim_job n j (jobs (tbl d))"
proof (cases "alive d (clk d)")
  case True
  show ?thesis
  proof (cases "next_job m (jobs (tbl d))")
    case None
    then show ?thesis using True by (intro that(2)) (simp_all add: claim_next_def abind_def query_def stmt_def aret_def tick_db_def)
  next
    case (Some j)
    have "filter (\<lambda>x. j_id x = j_id j \<and> j_state x = j_state j) (jobs (tbl d)) \<noteq> []"
      using next_jobD [OF Some] by (auto simp: filter_empty_conv)
    then show ?thesis using True Some that(1) that(3) [of j "now d (Suc (clk d))"]
      by (cases "alive d (Suc (clk d))")
        (auto simp: claim_next_def abind_def query_def stmt_def aret_def tick_db_def)
  qed
next
  case False
  then show ?thesis by (intro that(1)) (auto simp: claim_next_def abind_def query_def stmt_def tick_db_def)
qed

lemma process_one_round:
  assumes "distinct (map j_id (jobs (tbl d)))"
  shows "fst (process_one env c msg d) = Some True \<Longrightarrow>
      work (jobs (tbl (snd (process_one env c msg d)))) < work (jobs (tbl d))"
    and "claims (jobs (tbl (snd (process_one env c msg d)))) + work (jobs (tbl (snd (process_one env c msg d)))) \<le>
      claims (jobs (tbl d)) + work (jobs (tbl d))"
    and "map j_id (jobs (tbl (snd (process_one env c msg d)))) = map j_id (jobs (tbl d))"
    and "\<forall>n. alive d n \<Longrightarrow> fst (process_one env c msg d) \<noteq> Some True \<Longrightarrow>
      filter (runnable max_attempts) (jobs (tbl (snd (process_one env c msg d)))) = []"
proof -
  let ?d = "snd (process_one env c msg d)" and ?e = "snd (claim_next max_attempts d)"
  have "(fst (process_one env c msg d) = Some True \<longrightarrow> work (jobs (tbl ?d)) < work (jobs (tbl d))) \<and>
    claims (jobs (tbl ?d)) + work (jobs (tbl ?d)) \<le> claims (jobs (tbl d)) + work (jobs (tbl d)) \<and>
    map j_id (jobs (tbl ?d)) = map j_id (jobs (tbl d)) \<and>
    ((\<forall>n. alive d n) \<and> fst (process_one env c msg d) \<noteq> Some True \<longrightarrow> filter (runnable max_attempts) (jobs (tbl ?d)) = [])"
  proof (cases rule: claim_next_cases [of max_attempts d])
    case 1
    then have "process_one env c msg d = (None, ?e)" unfolding process_one_def abind_def by (metis (mono_tags, lifting) old.prod.case option.case(1))
    then show ?thesis using 1 by auto
  next
    case 2
    then have "process_one env c msg d = (Some False, ?e)"
      unfolding process_one_def abind_def by (metis (mono_tags, lifting) aret_def old.prod.case option.case(1,2))
    then show ?thesis using 2 by (simp add: next_job_None)
  next
    case (3 j n)
    let ?job = "j\<lparr>j_state := JobRunning, j_attempts := j_attempts j + 1\<rparr>"
    define rest where "rest = abind (atry (process env c ?job))
       (\<lambda>ok. if ok = None then athen (adrop (on_jobs (\<lambda>time. fail_job time (j_id ?job) msg))) (aret True) else aret True)"
    have r: "process_one env c msg d = rest ?e"
      unfolding process_one_def rest_def abind_def [of "claim_next max_attempts"] by (subst 3(2)) simp
    have j: "j \<in> set (jobs (tbl d))" "runnable max_attempts j" using next_jobD [OF 3(1)] by auto
    have "in_hand (j_id j) (jobs (tbl d)) ?e" using claim_handled [OF assms j(1)] 3(3) by (simp add: in_hand_def)
    moreover have "keeps (in_hand (j_id j) (jobs (tbl d))) rest"
      unfolding rest_def by (auto intro!: acts plain_acts keeps_process keeps_in_hand)
    ultimately have h: "list_all2 (handled (j_id j)) (jobs (tbl d)) (jobs (tbl ?d))"
      using keeps_elim unfolding r in_hand_def by blast
    have run: "\<forall>a \<in> set (jobs (tbl d)). j_id a = j_id j \<longrightarrow> runnable max_attempts a"
      using assms j by (metis distinct_map inj_onD)
    have "fst (rest ?e) = Some True"
      by (simp add: rest_def abind_def atry_def athen_def adrop_def aret_def split: prod.splits)
    then show ?thesis using handled_work [OF h run] j(1) r by auto
  qed
  then show "fst (process_one env c msg d) = Some True \<Longrightarrow> work (jobs (tbl ?d)) < work (jobs (tbl d))"
    "claims (jobs (tbl ?d)) + work (jobs (tbl ?d)) \<le> claims (jobs (tbl d)) + work (jobs (tbl d))"
    "map j_id (jobs (tbl ?d)) = map j_id (jobs (tbl d))"
    "\<forall>n. alive d n \<Longrightarrow> fst (process_one env c msg d) \<noteq> Some True \<Longrightarrow> filter (runnable max_attempts) (jobs (tbl ?d)) = []"
    by blast+
qed

section \<open>The whole run\<close>

lemma drain_jobs_returns:
  assumes "distinct (map j_id (jobs (tbl d)))"
  shows "\<exists>d'. drain_jobs env c msg d = Some d' \<and>
    claims (jobs (tbl d')) + work (jobs (tbl d')) \<le> claims (jobs (tbl d)) + work (jobs (tbl d)) \<and>
    ((\<forall>n. alive d n) \<and> (\<forall>n. \<not> we_cancelled env n) \<longrightarrow> filter (runnable max_attempts) (jobs (tbl d')) = [])"
  using assms
proof (induction "nat (work (jobs (tbl d)))" arbitrary: d rule: less_induct)
  case less
  let ?r = "process_one env c msg d"
  note round = process_one_round [OF less.prems, of env c msg]
  show ?case
  proof (cases "we_cancelled env (clk d)")
    case False
    show ?thesis
    proof (cases "fst ?r = Some True")
      case True
      have smaller: "nat (work (jobs (tbl (snd ?r)))) < nat (work (jobs (tbl d)))"
        using round(1) [OF True] work_nonneg [of "jobs (tbl (snd ?r))"] by linarith
      have "distinct (map j_id (jobs (tbl (snd ?r))))" using less.prems round(3) by simp
      from less.hyps [OF smaller this] obtain d' where d': "drain_jobs env c msg (snd ?r) = Some d'"
        "claims (jobs (tbl d')) + work (jobs (tbl d')) \<le> claims (jobs (tbl (snd ?r))) + work (jobs (tbl (snd ?r)))"
        "(\<forall>n. alive (snd ?r) n) \<and> (\<forall>n. \<not> we_cancelled env n) \<longrightarrow> filter (runnable max_attempts) (jobs (tbl d')) = []"
        by blast
      have "alive (snd ?r) = alive d" using keeps_elim [OF keeps_alive_process_one] by blast
      moreover have "drain_jobs env c msg d = Some d'" using False True d'(1) by (subst drain_jobs.simps) (simp add: Let_def)
      ultimately show ?thesis using d'(2,3) round(2) by (intro exI [of _ d']) auto
    next
      case stop: False
      have "drain_jobs env c msg d = Some (snd ?r)" using False stop by (subst drain_jobs.simps) (simp add: Let_def)
      then show ?thesis using round(2) round(4) [OF _ stop] by blast
    qed
  qed (subst drain_jobs.simps, auto)
qed

text \<open>
  C32: the worker's run ends, whichever statements fail and whatever \<^verbatim>\<open>ffmpeg\<close> and the sidecar answer;
  its claims are at most the budgets of the jobs it found (the attempts a failed job has left, at
  least one for a pending job); and when no statement fails and nothing cancels it, it leaves no
  runnable job.
\<close>

theorem drain_returns:
  assumes "distinct (map j_id (jobs (tbl d)))"
  shows "\<exists>d'. drain env c msg d = Some d' \<and>
    claims (jobs (tbl d')) - claims (jobs (tbl d)) \<le> work (jobs (tbl d)) \<and>
    ((\<forall>n. alive d n) \<and> (\<forall>n. \<not> we_cancelled env n) \<and> fc_enabled c \<and> fc_sidecar c \<noteq> [] \<longrightarrow>
       filter (runnable max_attempts) (jobs (tbl d')) = [])"
proof (cases "fc_enabled c \<and> fc_sidecar c \<noteq> []")
  case True
  obtain d' where d': "drain_jobs env c msg d = Some d'"
    "claims (jobs (tbl d')) + work (jobs (tbl d')) \<le> claims (jobs (tbl d)) + work (jobs (tbl d))"
    "(\<forall>n. alive d n) \<and> (\<forall>n. \<not> we_cancelled env n) \<longrightarrow> filter (runnable max_attempts) (jobs (tbl d')) = []"
    using drain_jobs_returns [OF assms] by blast
  then show ?thesis using True work_nonneg [of "jobs (tbl d')"] by (intro exI [of _ d']) (auto simp: drain_def)
qed (use work_nonneg in \<open>auto simp: drain_def\<close>)

definition sample_job :: "string \<Rightarrow> job_state \<Rightarrow> int \<Rightarrow> face_job" where
  "sample_job i st n = \<lparr>j_id = i, j_recording = i, j_state = st, j_attempts = n, j_error = [], j_faces = 0, j_created = 1, j_updated = 1\<rparr>"

definition sample_db :: "face_job list \<Rightarrow> fdb" where
  "sample_db js = \<lparr>tbl = \<lparr>faces = [], persons = [], tracks = [], links = [], jobs = js\<rparr>, recs = [], motion = [], clk = 0,
     alive = (\<lambda>_. True), now = int, uuid = (\<lambda>n. replicate (Suc n) (CHR ''u'')), drawn_ids = 0\<rparr>"

definition bare_env :: worker_env where
  "bare_env = \<lparr>we_file = (\<lambda>_. True), we_frames = (\<lambda>_ _ _ _ _ _. None), we_sidecar = (\<lambda>_ _. None), we_faces_dir = [],
     we_bounds = (\<lambda>_. None), we_crop = (\<lambda>_ _. None), we_seal = (\<lambda>_. Some), we_write = (\<lambda>_ _. True), we_assigner = None,
     we_cancelled = (\<lambda>_. False)\<rparr>"

theorem drain_returns_witness:
  "\<exists>d'. drain bare_env (default_face_config\<lparr>fc_enabled := True\<rparr>) ''x''
      (sample_db [sample_job ''a'' JobPending 0, sample_job ''b'' JobFailed 2, sample_job ''c'' JobDone 1]) = Some d' \<and>
    claims (jobs (tbl d')) \<le> 7 \<and> filter (runnable max_attempts) (jobs (tbl d')) = []"
  using drain_returns [of "sample_db [sample_job ''a'' JobPending 0, sample_job ''b'' JobFailed 2, sample_job ''c'' JobDone 1]"
      bare_env "default_face_config\<lparr>fc_enabled := True\<rparr>" "''x''"]
  by (auto simp: sample_db_def sample_job_def bare_env_def default_face_config_def claims_def work_def job_budget_def max_attempts_def)

section \<open>The queue\<close>

text \<open>A recording that has a job is not analysed again: a scan counts it and changes nothing.\<close>

lemma enqueue_known:
  "r \<in> j_recording ` set (jobs (tbl d)) \<Longrightarrow> alive d (clk d) \<Longrightarrow> fst (enqueue r d) = Some () \<and> tbl (snd (enqueue r d)) = tbl d"
  by (simp add: enqueue_def abind_def draw_id_def stmt_def enqueue_job_def tick_db_def)

text \<open>One job per recording, whatever is enqueued.\<close>

lemma enqueue_distinct:
  assumes "distinct (map j_recording rows)" "enqueue_job ids n i r rows = Some rows'"
  shows "distinct (map j_recording rows') \<and> (\<exists>j \<in> set rows'. j_recording j = r)"
  using assms by (auto simp: enqueue_job_def split: if_splits)

text \<open>A job requeued at the start of the worker runs again, however many attempts it has had.\<close>

lemma requeued_runnable:
  assumes "j \<in> set js" "j_state j = JobRunning"
  shows "\<exists>k \<in> set (snd (requeue_running n js)). j_id k = j_id j \<and> j_attempts k = j_attempts j \<and> runnable m k"
proof (rule bexI)
  let ?k = "j\<lparr>j_state := JobPending, j_updated := n\<rparr>"
  show "j_id ?k = j_id j \<and> j_attempts ?k = j_attempts j \<and> runnable m ?k" by (simp add: runnable_def)
  show "?k \<in> set (snd (requeue_running n js))"
    using assms unfolding requeue_running_def snd_conv set_map by (intro image_eqI [of _ _ j]) simp_all
qed

text \<open>After a first track of the recording was written, a later assignment does nothing.\<close>

lemma assigned_once:
  assumes "t \<in> set (tracks (tbl d))" "t_recording t = r" "alive d (clk d)"
  shows "fst (assign_recording fl arrange walk threshold r d) = Some () \<and> tbl (snd (assign_recording fl arrange walk threshold r d)) = tbl d"
proof -
  have "filter (\<lambda>t. t_recording t = r) (tracks (tbl d)) \<noteq> []" using assms(1,2) by (auto simp: filter_empty_conv)
  then have "count_tracks_by_recording r (tracks (tbl d)) > 0" by (simp add: count_tracks_by_recording_def)
  then show ?thesis using assms(3)
    by (simp add: assign_recording_def abind_def query_def stmt_def aret_def tick_db_def)
qed

section \<open>Windows\<close>

definition in_windows :: "rat \<Rightarrow> window list \<Rightarrow> bool" where
  "in_windows x ws \<longleftrightarrow> (\<exists>w \<in> set ws. fst w \<le> x \<and> x \<le> fst w + snd w)"

text \<open>Merging windows in ascending order keeps what they cover and leaves gaps between them.\<close>

lemma merge_ranges_cover:
  "sorted (map fst ws) \<Longrightarrow> \<forall>w \<in> set ws. 0 \<le> snd w \<Longrightarrow> in_windows x (merge_ranges ws) \<longleftrightarrow> in_windows x ws"
proof (induction ws rule: merge_ranges.induct)
  case (3 r q rs)
  show ?case
  proof (cases "fst q \<le> fst r + snd r")
    case True
    let ?m = "(fst r, if fst q + snd q > fst r + snd r then fst q + snd q - fst r else snd r)"
    have "in_windows x (merge_ranges (?m # rs)) \<longleftrightarrow> in_windows x (?m # rs)"
      by (rule 3(1)) (use True 3(3,4) in auto)
    also have "\<dots> \<longleftrightarrow> in_windows x (r # q # rs)" using True 3(3,4) by (auto simp: in_windows_def)
    finally show ?thesis using True by (simp add: Let_def)
  next
    case False
    then have "in_windows x (merge_ranges (q # rs)) \<longleftrightarrow> in_windows x (q # rs)" using 3(2) 3(3,4) by simp
    then show ?thesis using False by (simp add: Let_def in_windows_def)
  qed
qed auto

lemma merge_ranges_hd: "ws \<noteq> [] \<Longrightarrow> merge_ranges ws \<noteq> [] \<and> fst (hd (merge_ranges ws)) = fst (hd ws)"
  by (induction ws rule: merge_ranges.induct) (auto simp: Let_def)

text \<open>Newest first, as the events come, every window that ends no later than the first is dropped.\<close>

lemma merge_ranges_newest:
  "\<forall>q \<in> set rs. fst q \<le> fst r + snd r \<and> fst q + snd q \<le> fst r + snd r \<Longrightarrow> merge_ranges (r # rs) = [r]"
  by (induction rs) (auto simp: Let_def)

definition sample_rec :: recording where
  "sample_rec = \<lparr>rec_id = ''r'', camera_id = ''c'', path = ''p'', start_time = 1000, end_time = 601000, duration_ms = 600000,
     size_bytes = 1, complete = True, uploaded = False, s3_key = [], local_removed = False, encrypted = False, created_at = 1\<rparr>"

definition sample_motion :: "string \<Rightarrow> int \<Rightarrow> int \<Rightarrow> event" where
  "sample_motion i s t = \<lparr>e_id = i, e_camera = ''c'', e_type = ''motion'', e_start = s, e_end = t, e_score = 1, e_created = 1\<rparr>"

lemma motion_windows_lost:
  "windows sample_rec (list_events (motion_filter sample_rec) [sample_motion ''a'' 11000 21000, sample_motion ''b'' 301000 311000]) =
     [(298, 14)]"
  by code_simp

text \<open>An event that began before the recording is not among its motion, however long it lasts.\<close>

lemma earlier_motion_missed:
  "e \<in> set (list_events (motion_filter rec) es) \<Longrightarrow> start_time rec \<le> e_start e"
proof -
  assume "e \<in> set (list_events (motion_filter rec) es)"
  then have "e \<in> set (sort_key (\<lambda>e. - e_start e) (filter (\<lambda>e. start_time rec \<le> e_start e) es))"
    by (auto simp: list_events_def motion_filter_def Let_def dest: in_set_takeD)
  then show ?thesis by simp
qed

section \<open>Settings\<close>

text \<open>What the handler stores is in range, except that the default review threshold may exceed the match threshold.\<close>

lemma sanitized_ranges:
  "fc_sidecar (sanitize_face_config c) \<noteq> [] \<and> 0 < fc_fps (sanitize_face_config c) \<and> fc_fps (sanitize_face_config c) \<le> 30 \<and>
   0 < fc_frames (sanitize_face_config c) \<and> 0 < fc_batch (sanitize_face_config c) \<and> fc_batch (sanitize_face_config c) \<le> 128 \<and>
   0 \<le> fc_min_face (sanitize_face_config c) \<and> 0 < fc_det (sanitize_face_config c) \<and> fc_det (sanitize_face_config c) \<le> 1 \<and>
   0 < fc_match (sanitize_face_config c) \<and> fc_match (sanitize_face_config c) \<le> 1 \<and> 0 < fc_review (sanitize_face_config c)"
  by (simp add: sanitize_face_config_def default_face_config_def Let_def)

lemma review_above_match:
  "fc_review (sanitize_face_config (default_face_config\<lparr>fc_match := 1 / 5\<rparr>)) > fc_match (sanitize_face_config (default_face_config\<lparr>fc_match := 1 / 5\<rparr>))"
  by (simp add: sanitize_face_config_def default_face_config_def Let_def)

lemma det_quality_range: "0 \<le> det_quality d w h \<and> det_quality d w h \<le> 1"
proof -
  have c: "0 \<le> clamp01 v \<and> clamp01 v \<le> 1" for v by (simp add: clamp01_def)
  have b: "0 \<le> p * (4 / 10 + 25 / 100 * x + 2 / 10 * y + 15 / 100 * z) \<and> p * (4 / 10 + 25 / 100 * x + 2 / 10 * y + 15 / 100 * z) \<le> 1"
    if "0 \<le> p" "p \<le> 1" "0 \<le> x" "x \<le> 1" "0 \<le> y" "y \<le> 1" "0 \<le> z" "z \<le> 1" for p x y z :: rat
    using that by (auto intro!: mult_nonneg_nonneg mult_le_one)
  show ?thesis unfolding det_quality_def Let_def by (rule b) (use c in auto)
qed

text \<open>A crop that is made lies within the picture.\<close>

lemma crop_rect_inside:
  "crop_rect (bx0, by0, bx1, by1) b = Some (x0, y0, x1, y1) \<Longrightarrow> bx0 \<le> bx1 \<Longrightarrow> by0 \<le> by1 \<Longrightarrow>
   bx0 \<le> x0 \<and> x0 + 8 \<le> x1 \<and> x1 \<le> bx1 \<and> by0 \<le> y0 \<and> y0 + 8 \<le> y1 \<and> y1 \<le> by1"
  by (auto simp: crop_rect_def clamp_int_def Let_def split: if_splits)

end
