(* ===== verification/Face_Invariant.thy ===== *)
theory Face_Invariant
  imports Face_Corrections Face_Jobs
begin

text \<open>
  Identities stay consistent: an invariant of the four tables over assignments, re-clustering and the
  operator's corrections.  Between the statements of an operation the counts of some persons are out
  of date; the invariant carries the set of these.
\<close>

section \<open>The invariant\<close>

definition person_ids :: "face_tables \<Rightarrow> string set" where
  "person_ids t = p_id ` set (persons t)"

definition keys_ok :: "face_tables \<Rightarrow> bool" where
  "keys_ok t \<longleftrightarrow> distinct (map f_id (faces t)) \<and> distinct (map t_id (tracks t)) \<and> distinct (map p_id (persons t))"

text \<open>What faces and tracks share: the track, its recording and its person.\<close>

definition heads :: "face_track list \<Rightarrow> (string \<times> string \<times> string) set" where
  "heads ts = (\<lambda>u. (t_id u, t_recording u, t_person u)) ` set ts"

definition of_track :: "face_track list \<Rightarrow> face \<Rightarrow> bool" where
  "of_track ts f \<longleftrightarrow> (if f_track f = [] then f_person f = [] else (f_track f, f_recording f, f_person f) \<in> heads ts)"

definition settled :: "face list \<Rightarrow> person \<Rightarrow> bool" where
  "settled fs p \<longleftrightarrow>
     p_faces p = int (length (live_faces (p_id p) fs)) \<and> live_faces (p_id p) fs \<noteq> [] \<and>
     length (filter (\<lambda>f. f_person f = p_id p \<and> f_exemplar f) fs) \<le> 8"

definition good :: "string set \<Rightarrow> string set \<Rightarrow> string set \<Rightarrow> face_tables \<Rightarrow> bool" where
  "good A R U t \<longleftrightarrow>
     keys_ok t \<and> [] \<notin> R \<and> [] \<notin> U \<and> t_id ` set (tracks t) \<subseteq> U \<and> person_ids t \<subseteq> U \<and>
     (\<forall>f \<in> set (faces t). \<not> f_ignored f \<and> f_recording f \<in> R \<and> of_track (tracks t) f \<and> (f_person f = [] \<or> f_person f \<in> person_ids t)) \<and>
     (\<forall>u \<in> set (tracks t). \<exists>f \<in> set (faces t). f_track f = t_id u) \<and>
     (\<forall>p \<in> set (persons t). p_id p \<notin> A \<longrightarrow> settled (faces t) p)"

text \<open>A state whose statements all succeed and whose recordings, drawn identifiers and tables satisfy \<open>I\<close>.\<close>

type_synonym tables_pred = "string set \<Rightarrow> string set \<Rightarrow> face_tables \<Rightarrow> bool"

definition dbok :: "tables_pred \<Rightarrow> fdb \<Rightarrow> bool" where
  "dbok I d \<longleftrightarrow>
     (\<forall>n. alive d n) \<and> inj (uuid d) \<and> (\<forall>n. uuid d n \<noteq> []) \<and> I (rec_ids d) (uuid d ` {..<drawn_ids d}) (tbl d)"

lemma goodD:
  assumes "good A R U t"
  shows "keys_ok t" "[] \<notin> U" "u \<in> set (tracks t) \<Longrightarrow> t_id u \<in> U" "p \<in> set (persons t) \<Longrightarrow> p_id p \<in> U"
    and "f \<in> set (faces t) \<Longrightarrow> \<not> f_ignored f" "f \<in> set (faces t) \<Longrightarrow> f_recording f \<in> R"
    and "f \<in> set (faces t) \<Longrightarrow> of_track (tracks t) f" "f \<in> set (faces t) \<Longrightarrow> f_person f = [] \<or> f_person f \<in> person_ids t"
    and "u \<in> set (tracks t) \<Longrightarrow> \<exists>f \<in> set (faces t). f_track f = t_id u"
    and "p \<in> set (persons t) \<Longrightarrow> p_id p \<notin> A \<Longrightarrow> settled (faces t) p"
  using assms unfolding good_def person_ids_def by blast+

section \<open>Statements\<close>

lemma triple_stmt:
  assumes "\<And>d. I (rec_ids d) (uuid d ` {..<drawn_ids d}) (tbl d) \<Longrightarrow>
    \<exists>x t. f d = Some (x, t) \<and> J x (rec_ids d) (uuid d ` {..<drawn_ids d}) t"
  shows "triple (dbok I) (stmt f) (\<lambda>x. dbok (J x))"
  by (rule tripleI) (use assms in \<open>fastforce simp: dbok_def stmt_def tick_db_def rec_ids_def\<close>)

lemma triple_query: "triple (dbok I) (query q) (\<lambda>x. dbok (\<lambda>R U t. I R U t \<and> x = q t))"
  unfolding query_def by (rule triple_stmt) simp

lemma triple_faces:
  "(\<And>R U t. I R U t \<Longrightarrow> J R U (t\<lparr>faces := f (faces t)\<rparr>)) \<Longrightarrow> triple (dbok I) (on_faces f) (\<lambda>_. dbok J)"
  unfolding on_faces_def by (rule triple_stmt) simp

lemma triple_tracks:
  "(\<And>R U t. I R U t \<Longrightarrow> J R U (t\<lparr>tracks := f (tracks t)\<rparr>)) \<Longrightarrow> triple (dbok I) (on_tracks f) (\<lambda>_. dbok J)"
  unfolding on_tracks_def by (rule triple_stmt) simp

lemma triple_persons:
  "(\<And>R U t x. I R U t \<Longrightarrow> J R U (t\<lparr>persons := f x (persons t)\<rparr>)) \<Longrightarrow> triple (dbok I) (on_persons f) (\<lambda>_. dbok J)"
  unfolding on_persons_def by (rule triple_stmt) simp

lemma dbok_mono: "dbok I d \<Longrightarrow> (\<And>R U t. I R U t \<Longrightarrow> J R U t) \<Longrightarrow> dbok J d"
  by (simp add: dbok_def)

lemma triple_mono:
  "triple (dbok I) m (\<lambda>x. dbok (J x)) \<Longrightarrow> (\<And>R U t. I' R U t \<Longrightarrow> I R U t) \<Longrightarrow> (\<And>x R U t. J x R U t \<Longrightarrow> J' x R U t) \<Longrightarrow>
   triple (dbok I') m (\<lambda>x. dbok (J' x))"
  by (erule triple_weaken) (auto elim: dbok_mono)

text \<open>A fresh identifier is new to the tables.\<close>

lemma triple_draw:
  assumes "\<And>R U t i. I R U t \<Longrightarrow> i \<notin> U \<Longrightarrow> i \<noteq> [] \<Longrightarrow> J i R (insert i U) t"
  shows "triple (dbok I) draw_id (\<lambda>i. dbok (J i))"
proof (rule tripleI)
  fix d
  assume d: "dbok I d"
  let ?i = "uuid d (drawn_ids d)"
  have "?i \<notin> uuid d ` {..<drawn_ids d}" "?i \<noteq> []" using d by (auto simp: dbok_def inj_def)
  then have "J ?i (rec_ids d) (insert ?i (uuid d ` {..<drawn_ids d})) (tbl d)" using assms d by (simp add: dbok_def)
  then have "dbok (J ?i) (d\<lparr>drawn_ids := Suc (drawn_ids d)\<rparr>)" using d by (simp add: dbok_def lessThan_Suc rec_ids_def)
  then show "\<exists>x d'. draw_id d = (Some x, d') \<and> dbok (J x) d'" by (simp add: draw_id_def)
qed

lemma triple_fact:
  assumes "\<And>R U t. I R U t \<Longrightarrow> b" "b \<Longrightarrow> triple (dbok I) m Q"
  shows "triple (dbok I) m Q"
  by (rule triple_pre [OF _ assms(2)]) (auto simp: dbok_def intro: assms(1))

section \<open>Steps of the tables\<close>

lemma heads_tracks:
  "heads (set_confirmed i b ts) = heads ts"
  "heads (update_track_person i q ts) = (\<lambda>(a, r, p). (a, r, if a = i then q else p)) ` heads ts"
  "heads (reassign_tracks p' q ts) = (\<lambda>(a, r, p). (a, r, if p = p' then q else p)) ` heads ts"
  "t_id ` set ts = fst ` heads ts"
  by (induction ts) (auto simp: heads_def set_confirmed_def update_track_person_def reassign_tracks_def)

lemma headsI:
  "(a, r, p) \<in> heads ts \<Longrightarrow> (a, r, if a = i then q else p) \<in> heads (update_track_person i q ts)"
  "(a, r, p) \<in> heads ts \<Longrightarrow> (a, r, if p = p' then q else p) \<in> heads (reassign_tracks p' q ts)"
  unfolding heads_tracks by (auto intro!: image_eqI)

lemma of_track_moves:
  "of_track ts f \<Longrightarrow> i \<noteq> [] \<Longrightarrow> of_track (update_track_person i q ts) (if f_track f = i then f\<lparr>f_person := q\<rparr> else f)"
  "of_track ts f \<Longrightarrow> q = [] \<or> p \<noteq> [] \<Longrightarrow> of_track (reassign_tracks p q ts) (if f_person f = p then f\<lparr>f_person := q\<rparr> else f)"
  using headsI(1) [of "f_track f" "f_recording f" "f_person f" ts i q] headsI(2) [of "f_track f" "f_recording f" "f_person f" ts p q]
  by (auto simp: of_track_def split: if_splits)

lemma track_ids [simp]:
  "map t_id (set_confirmed i b ts) = map t_id ts" "map t_id (update_track_person i q ts) = map t_id ts"
  "map t_id (reassign_tracks p q ts) = map t_id ts"
  by (simp_all add: set_confirmed_def update_track_person_def reassign_tracks_def)

lemma good_more: "good A R U t \<Longrightarrow> A \<subseteq> B \<Longrightarrow> good B R U t"
  unfolding good_def by blast

lemma good_insert: "good A R U t \<Longrightarrow> i \<noteq> [] \<Longrightarrow> good A R (insert i U) t"
  unfolding good_def by auto

lemma good_wider: "good A R U t \<Longrightarrow> U \<subseteq> V \<Longrightarrow> [] \<notin> V \<Longrightarrow> good A R V t"
  unfolding good_def by blast

lemma of_track_id: "of_track ts f \<Longrightarrow> f_track f \<noteq> [] \<Longrightarrow> f_track f \<in> t_id ` set ts"
  by (auto simp: of_track_def heads_def)

lemma good_unused:
  assumes "good A R U t" "i \<notin> U" "i \<noteq> []"
  shows "i \<notin> person_ids t" "i \<notin> t_id ` set (tracks t)" "f \<in> set (faces t) \<Longrightarrow> f_person f \<noteq> i"
    "f \<in> set (faces t) \<Longrightarrow> f_track f \<noteq> i"
proof -
  show i: "i \<notin> person_ids t" "i \<notin> t_id ` set (tracks t)" using assms by (auto simp: good_def)
  show "f_person f \<noteq> i" if "f \<in> set (faces t)" using goodD(8) [OF assms(1) that] i assms(3) by auto
  show "f_track f \<noteq> i" if "f \<in> set (faces t)" using of_track_id [OF goodD(7) [OF assms(1) that]] i(2) assms(3) by auto
qed

lemma length_filter_map_cong:
  "(\<And>f. f \<in> set fs \<Longrightarrow> P (g f) \<longleftrightarrow> P f) \<Longrightarrow> length (filter P (map g fs)) = length (filter P fs)"
  by (induction fs) auto

lemma live_map:
  assumes "\<And>f. f \<in> set fs \<Longrightarrow> (f_person (g f) = p \<longleftrightarrow> f_person f = p) \<and> f_ignored (g f) = f_ignored f"
  shows "length (live_faces p (map g fs)) = length (live_faces p fs)"
  unfolding live_faces_def by (rule length_filter_map_cong) (use assms in auto)

lemma settled_map:
  assumes "\<And>f. f \<in> set fs \<Longrightarrow> (f_person (g f) = p_id x \<longleftrightarrow> f_person f = p_id x) \<and> f_ignored (g f) = f_ignored f \<and>
    (f_person f = p_id x \<longrightarrow> f_exemplar (g f) = f_exemplar f)"
  shows "settled (map g fs) x \<longleftrightarrow> settled fs x"
proof -
  have "length (live_faces (p_id x) (map g fs)) = length (live_faces (p_id x) fs)" by (rule live_map) (use assms in auto)
  moreover have "length (filter (\<lambda>f. f_person f = p_id x \<and> f_exemplar f) (map g fs)) =
      length (filter (\<lambda>f. f_person f = p_id x \<and> f_exemplar f) fs)"
    by (rule length_filter_map_cong) (use assms in blast)
  ultimately show ?thesis by (auto simp: settled_def)
qed

text \<open>
  A change of tracks together with a map over the faces that leaves identifiers, recordings and the
  ignored flag alone; \<open>B\<close> has the persons whose faces or exemplars may change.
\<close>

definition plain_map :: "(face \<Rightarrow> face) \<Rightarrow> bool" where
  "plain_map g \<longleftrightarrow> (\<forall>f. f_id (g f) = f_id f \<and> f_recording (g f) = f_recording f \<and> f_ignored (g f) = f_ignored f)"

lemma good_faces:
  assumes "good A R U t" "plain_map g"
    and "\<And>f. f \<in> set (faces t) \<Longrightarrow> of_track ts (g f) \<and> (f_person (g f) = [] \<or> f_person (g f) \<in> person_ids t)"
    and "t_id ` set ts \<subseteq> U" "\<And>u. u \<in> set ts \<Longrightarrow> \<exists>f \<in> set (faces t). f_track (g f) = t_id u" "distinct (map t_id ts)"
    and "\<And>f x. f \<in> set (faces t) \<Longrightarrow> x \<in> set (persons t) \<Longrightarrow> p_id x \<notin> B \<Longrightarrow>
       (f_person (g f) = p_id x \<longleftrightarrow> f_person f = p_id x) \<and> (f_person f = p_id x \<longrightarrow> f_exemplar (g f) = f_exemplar f)"
    and "A \<subseteq> B"
  shows "good B R U (t\<lparr>tracks := ts, faces := map g (faces t)\<rparr>)"
proof -
  have g: "f_id (g f) = f_id f" "f_recording (g f) = f_recording f" "f_ignored (g f) = f_ignored f" for f
    using assms(2) by (simp_all add: plain_map_def)
  have "settled (map g (faces t)) x" if x: "x \<in> set (persons t)" "p_id x \<notin> B" for x
  proof -
    have "settled (faces t) x" using goodD(10) [OF assms(1) x(1)] x(2) assms(8) by blast
    moreover have "settled (map g (faces t)) x \<longleftrightarrow> settled (faces t) x"
      by (rule settled_map) (use assms(7) [OF _ x] g(3) in blast)
    ultimately show ?thesis by simp
  qed
  moreover have "f_id \<circ> g = f_id" by (simp add: fun_eq_iff g)
  moreover have "person_ids (t\<lparr>tracks := ts, faces := map g (faces t)\<rparr>) = person_ids t" by (simp add: person_ids_def)
  ultimately show ?thesis using assms(1,3-6)
    unfolding good_def keys_ok_def by (auto simp: g)
qed

lemma good_faces_only:
  assumes "good A R U t" "plain_map g" "A \<subseteq> B"
    and "\<And>f. f \<in> set (faces t) \<Longrightarrow> f_track (g f) = f_track f \<and> f_person (g f) = f_person f"
    and "\<And>f. f \<in> set (faces t) \<Longrightarrow> f_person f \<in> person_ids t - B \<Longrightarrow> f_exemplar (g f) = f_exemplar f"
  shows "good B R U (t\<lparr>faces := map g (faces t)\<rparr>)"
proof -
  have "good B R U (t\<lparr>tracks := tracks t, faces := map g (faces t)\<rparr>)"
  proof (rule good_faces [OF assms(1,2) _ _ _ _ _ assms(3)])
    show "of_track (tracks t) (g f) \<and> (f_person (g f) = [] \<or> f_person (g f) \<in> person_ids t)" if "f \<in> set (faces t)" for f
      using goodD(7,8) [OF assms(1) that] assms(4) [OF that] assms(2) by (simp add: of_track_def plain_map_def)
    show "\<exists>f \<in> set (faces t). f_track (g f) = t_id u" if "u \<in> set (tracks t)" for u
      using goodD(9) [OF assms(1) that] assms(4) by metis
    show "t_id ` set (tracks t) \<subseteq> U" using assms(1) by (simp add: good_def)
  qed (use assms goodD(1) [OF assms(1)] in \<open>auto simp: keys_ok_def person_ids_def\<close>)
  then show ?thesis by simp
qed

lemma good_tracks:
  assumes "good A R U t" "heads ts = heads (tracks t)" "map t_id ts = map t_id (tracks t)"
  shows "good A R U (t\<lparr>tracks := ts\<rparr>)"
proof -
  have all: "(\<forall>u \<in> set ts. P (t_id u)) \<longleftrightarrow> (\<forall>u \<in> set (tracks t). P (t_id u))" for P
    using arg_cong [OF assms(3), of set] by (metis (no_types, lifting) image_iff list.set_map)
  have "t_id ` set ts = t_id ` set (tracks t)" using arg_cong [OF assms(3), of set] by simp
  then show ?thesis using assms all [of "\<lambda>i. \<exists>f \<in> set (faces t). f_track f = i"]
    by (simp add: good_def keys_ok_def person_ids_def of_track_def)
qed

lemma good_confirm: "good A R U t \<Longrightarrow> good A R U (t\<lparr>tracks := set_confirmed i b (tracks t)\<rparr>)"
  by (rule good_tracks) (simp_all add: heads_tracks)

text \<open>A track and its faces move to another person.\<close>

definition moved :: "string \<Rightarrow> string \<Rightarrow> face_tables \<Rightarrow> face_tables" where
  "moved i q t = t\<lparr>tracks := update_track_person i q (tracks t), faces := set_person_by_track i q (faces t)\<rparr>"

definition owners :: "string \<Rightarrow> face_tables \<Rightarrow> string set" where
  "owners i t = t_person ` {u \<in> set (tracks t). t_id u = i}"

lemma good_moved:
  assumes "good A R U t" "i \<noteq> []" "q = [] \<or> q \<in> person_ids t"
  shows "good (A \<union> owners i t \<union> {q}) R U (moved i q t)"
  unfolding moved_def set_person_by_track_def
proof (rule good_faces [OF assms(1)])
  let ?g = "\<lambda>f. if f_track f = i then f\<lparr>f_person := q\<rparr> else f"
  show "plain_map ?g" by (simp add: plain_map_def)
  show "distinct (map t_id (update_track_person i q (tracks t)))" using goodD(1) [OF assms(1)] by (simp add: keys_ok_def)
  have ids: "t_id ` set (update_track_person i q (tracks t)) = t_id ` set (tracks t)" by (metis list.set_map track_ids(2))
  then show "t_id ` set (update_track_person i q (tracks t)) \<subseteq> U" using assms(1) by (simp add: good_def)
  show "\<exists>f \<in> set (faces t). f_track (?g f) = t_id u" if u: "u \<in> set (update_track_person i q (tracks t))" for u
  proof -
    have "t_id u \<in> t_id ` set (tracks t)" using imageI [OF u, of t_id] ids by simp
    then obtain v where "v \<in> set (tracks t)" "t_id v = t_id u" by auto
    then show ?thesis using goodD(9) [OF assms(1), of v] by auto
  qed
  fix f
  assume f: "f \<in> set (faces t)"
  show "of_track (update_track_person i q (tracks t)) (?g f) \<and> (f_person (?g f) = [] \<or> f_person (?g f) \<in> person_ids t)"
    using of_track_moves(1) [OF goodD(7) [OF assms(1) f] assms(2)] goodD(8) [OF assms(1) f] assms(3) by auto
  fix x
  assume x: "p_id x \<notin> A \<union> owners i t \<union> {q}"
  have "f_person f \<in> owners i t" if "f_track f = i"
    using goodD(7) [OF assms(1) f] that assms(2) by (auto simp: of_track_def owners_def heads_def)
  then show "(f_person (?g f) = p_id x \<longleftrightarrow> f_person f = p_id x) \<and> (f_person f = p_id x \<longrightarrow> f_exemplar (?g f) = f_exemplar f)"
    using x by auto
qed auto

text \<open>All tracks and faces of a person move to another.\<close>

lemma good_reassigned:
  assumes "good A R U t" "q = [] \<or> (p \<noteq> [] \<and> q \<in> person_ids t)"
  shows "good (A \<union> {p, q}) R U (t\<lparr>tracks := reassign_tracks p q (tracks t), faces := reassign_faces p q (faces t)\<rparr>)"
  unfolding reassign_faces_def
proof (rule good_faces [OF assms(1)])
  let ?g = "\<lambda>f. if f_person f = p then f\<lparr>f_person := q\<rparr> else f"
  show "plain_map ?g" by (simp add: plain_map_def)
  show "distinct (map t_id (reassign_tracks p q (tracks t)))" using goodD(1) [OF assms(1)] by (simp add: keys_ok_def)
  have ids: "t_id ` set (reassign_tracks p q (tracks t)) = t_id ` set (tracks t)" by (metis list.set_map track_ids(3))
  then show "t_id ` set (reassign_tracks p q (tracks t)) \<subseteq> U" using assms(1) by (simp add: good_def)
  show "\<exists>f \<in> set (faces t). f_track (?g f) = t_id u" if u: "u \<in> set (reassign_tracks p q (tracks t))" for u
  proof -
    have "t_id u \<in> t_id ` set (tracks t)" using imageI [OF u, of t_id] ids by simp
    then obtain v where "v \<in> set (tracks t)" "t_id v = t_id u" by auto
    then show ?thesis using goodD(9) [OF assms(1), of v] by auto
  qed
  fix f
  assume f: "f \<in> set (faces t)"
  show "of_track (reassign_tracks p q (tracks t)) (?g f) \<and> (f_person (?g f) = [] \<or> f_person (?g f) \<in> person_ids t)"
    using of_track_moves(2) [OF goodD(7) [OF assms(1) f], of q p] goodD(8) [OF assms(1) f] assms(2) by auto
qed auto

section \<open>Persons\<close>

lemma good_persons:
  assumes "good A R U t" "\<And>x. p_id (h x) = p_id x" "\<And>x. x \<in> set (persons t) \<Longrightarrow> p_id x \<notin> A \<Longrightarrow> p_faces (h x) = p_faces x"
  shows "good A R U (t\<lparr>persons := map h (persons t)\<rparr>)"
proof -
  have h: "p_id \<circ> h = p_id" by (simp add: fun_eq_iff assms(2))
  then have "person_ids (t\<lparr>persons := map h (persons t)\<rparr>) = person_ids t" "map p_id (map h (persons t)) = map p_id (persons t)"
    by (simp_all add: person_ids_def assms(2) image_image)
  moreover have "settled fs (h x) \<longleftrightarrow> settled fs x" if "p_faces (h x) = p_faces x" for fs x
    using that assms(2) by (simp add: settled_def)
  ultimately show ?thesis using assms(1,3) by (simp add: good_def keys_ok_def assms(2) h)
qed

lemma good_create:
  assumes "good A R U t" "p_id x = i" "i \<in> U" "i \<notin> person_ids t"
  shows "good (insert i A) R U (t\<lparr>persons := persons t @ [x]\<rparr>)"
  using assms by (auto simp: good_def keys_ok_def person_ids_def)

lemma good_live: "good A R U t \<Longrightarrow> live_faces p (faces t) = filter (\<lambda>f. f_person f = p) (faces t)"
  unfolding live_faces_def by (rule filter_cong) (auto simp: good_def)

lemma good_delete:
  assumes "good A R U t" "live_faces p (faces t) = []"
  shows "good (A - {p}) R U (t\<lparr>persons := delete_person p (persons t)\<rparr>)"
proof -
  have "f_person f \<noteq> p" if "f \<in> set (faces t)" for f
    using assms(2) that by (auto simp: good_live [OF assms(1)] filter_empty_conv)
  moreover have "person_ids (t\<lparr>persons := delete_person p (persons t)\<rparr>) = person_ids t - {p}"
    by (auto simp: person_ids_def delete_person_def)
  moreover have "distinct (map p_id (delete_person p (persons t)))"
    using goodD(1) [OF assms(1)] by (simp add: keys_ok_def delete_person_def distinct_map_filter)
  moreover have "set (delete_person p (persons t)) = {x \<in> set (persons t). p_id x \<noteq> p}" by (auto simp: delete_person_def)
  ultimately show ?thesis using assms(1) by (auto simp: good_def keys_ok_def)
qed

definition exemplars :: "string \<Rightarrow> face list \<Rightarrow> nat" where
  "exemplars p fs = length (filter (\<lambda>f. f_person f = p \<and> f_exemplar f) fs)"

definition counted :: "string \<Rightarrow> int \<Rightarrow> face_tables \<Rightarrow> bool" where
  "counted p n t \<longleftrightarrow> n = int (length (live_faces p (faces t))) \<and> (\<forall>x \<in> set (persons t). p_id x = p \<longrightarrow> p_faces x = n)"

lemma good_settled:
  "good A R U t \<Longrightarrow> counted p n t \<Longrightarrow> n \<noteq> 0 \<Longrightarrow> exemplars p (faces t) \<le> 8 \<Longrightarrow> good (A - {p}) R U t"
  by (auto simp: good_def counted_def exemplars_def settled_def)

lemma counted_map:
  "(\<And>x. p_id (h x) = p_id x) \<Longrightarrow> (\<And>x. p_id x = p \<Longrightarrow> p_faces (h x) = n) \<Longrightarrow> n = int (length (live_faces p (faces t))) \<Longrightarrow>
   counted p n (t\<lparr>persons := map h (persons t)\<rparr>)"
  by (simp add: counted_def)

lemma good_recount:
  assumes "good A R U t"
  shows "good (insert p A) R U (t\<lparr>persons := snd (recount n p (live_faces p (faces t)) (persons t))\<rparr>) \<and>
    counted p (int (length (live_faces p (faces t)))) (t\<lparr>persons := snd (recount n p (live_faces p (faces t)) (persons t))\<rparr>)"
proof
  have twice: "live_faces p (live_faces p (faces t)) = live_faces p (faces t)" by (simp add: live_faces_def)
  show "good (insert p A) R U (t\<lparr>persons := snd (recount n p (live_faces p (faces t)) (persons t))\<rparr>)"
    unfolding recount_def Let_def snd_conv by (rule good_persons [OF good_more [OF assms]]) auto
  show "counted p (int (length (live_faces p (faces t)))) (t\<lparr>persons := snd (recount n p (live_faces p (faces t)) (persons t))\<rparr>)"
    unfolding recount_def Let_def snd_conv twice by (rule counted_map) auto
qed

section \<open>Exemplars\<close>

lemma best_faces_some: "set (best_faces keep fs) \<subseteq> set fs" "0 \<le> keep \<Longrightarrow> length (best_faces keep fs) \<le> nat keep"
  by (auto simp: best_faces_def Let_def dest: in_set_takeD)

lemma few_with_ids:
  assumes "distinct (map f_id fs)" "\<And>f. f \<in> set fs \<Longrightarrow> P f \<Longrightarrow> f_id f \<in> f_id ` set hs"
  shows "length (filter P fs) \<le> length hs"
proof -
  have "length (filter P fs) = card (f_id ` set (filter P fs))"
    using assms(1) by (metis distinct_card distinct_map_filter length_map list.set_map)
  also have "\<dots> \<le> card (f_id ` set hs)" by (rule card_mono) (use assms(2) in auto)
  also have "\<dots> \<le> length hs" by (metis card_length length_map list.set_map)
  finally show ?thesis .
qed

lemma counted_faces:
  "(\<And>f. f \<in> set (faces t) \<Longrightarrow> f_person (g f) = f_person f \<and> f_ignored (g f) = f_ignored f) \<Longrightarrow>
   counted p n t \<Longrightarrow> counted p n (t\<lparr>faces := map g (faces t)\<rparr>)"
  using live_map [of "faces t" g p] by (simp add: counted_def)

lemma same_face: "keys_ok t \<Longrightarrow> f \<in> set (faces t) \<Longrightarrow> g \<in> set (faces t) \<Longrightarrow> f_id f = f_id g \<Longrightarrow> f = g"
  unfolding keys_ok_def by (meson distinct_map inj_onD)

definition mark :: "string set \<Rightarrow> bool \<Rightarrow> face \<Rightarrow> face" where
  "mark S b f = (if f_id f \<in> S then f\<lparr>f_exemplar := b\<rparr> else f)"

lemma mark_simps [simp]:
  "f_id (mark S b f) = f_id f" "f_person (mark S b f) = f_person f" "f_track (mark S b f) = f_track f"
  "f_ignored (mark S b f) = f_ignored f" "plain_map (mark S b)"
  "f_exemplar (mark S b f) = (if f_id f \<in> S then b else f_exemplar f)"
  by (auto simp: mark_def plain_map_def)

text \<open>Setting flags of a person's faces.\<close>

lemma good_mark:
  assumes "good A R U t" "\<And>f. f \<in> set (faces t) \<Longrightarrow> f_id f \<in> S \<Longrightarrow> f_person f \<in> insert [] B" "A \<subseteq> B"
  shows "good B R U (t\<lparr>faces := map (mark S b) (faces t)\<rparr>)"
proof (rule good_faces_only [OF assms(1) _ assms(3)])
  show "f_exemplar (mark S b f) = f_exemplar f" if "f \<in> set (faces t)" "f_person f \<in> person_ids t - B" for f
    using assms(2) [OF that(1)] that(2) assms(1) by (auto simp: good_def)
qed simp_all

lemma rebuild_marks:
  assumes "keys_ok t"
  shows "map (\<lambda>f. if f_person f = p then f\<lparr>f_exemplar := False\<rparr> else f) (faces t) =
    map (mark (f_id ` {f \<in> set (faces t). f_person f = p}) False) (faces t)"
proof (rule map_cong [OF refl])
  fix f
  assume f: "f \<in> set (faces t)"
  have "f_id f \<in> f_id ` {f \<in> set (faces t). f_person f = p} \<longleftrightarrow> f_person f = p" using same_face [OF assms _ f] f by (auto simp: image_iff)
  then show "(if f_person f = p then f\<lparr>f_exemplar := False\<rparr> else f) = mark (f_id ` {f \<in> set (faces t). f_person f = p}) False f"
    by (simp add: mark_def)
qed

lemma good_clear:
  assumes "good A R U t"
  shows "good (insert p A) R U (t\<lparr>faces := map (\<lambda>f. if f_person f = p then f\<lparr>f_exemplar := False\<rparr> else f) (faces t)\<rparr>)"
  unfolding rebuild_marks [OF goodD(1) [OF assms]]
  by (rule good_mark [OF assms]) (use same_face [OF goodD(1) [OF assms]] in auto)

lemma good_raise:
  assumes "good A R U t" "set hs \<subseteq> {f \<in> set (faces t). f_person f = p}"
  shows "good (insert p A) R U (t\<lparr>faces := map (mark (f_id ` set hs) b) (faces t)\<rparr>)"
  by (rule good_mark [OF assms(1)]) (use assms(2) same_face [OF goodD(1) [OF assms(1)]] in blast)+

lemma triple_recount_keeping:
  assumes "\<And>R U t h. K R U t \<Longrightarrow> (\<And>x. p_id (h x) = p_id x) \<Longrightarrow> K R U (t\<lparr>persons := map h (persons t)\<rparr>)"
  shows "triple (dbok (\<lambda>R U t. good A R U t \<and> K R U t)) (recount_person p)
    (\<lambda>n. dbok (\<lambda>R U t. good (insert p A) R U t \<and> counted p n t \<and> K R U t))"
  unfolding recount_person_def
proof (rule triple_bind [OF triple_query])
  fix hits
  let ?set = "stmt (\<lambda>d. Some ((), (tbl d)\<lparr>persons := snd (recount (now d (clk d)) p hits (persons (tbl d)))\<rparr>))"
  have keep: "K R U (t\<lparr>persons := snd (recount n p fs (persons t))\<rparr>)" if "K R U t" for R U t n fs
    unfolding recount_def Let_def snd_conv by (rule assms [OF that]) simp
  have "triple (dbok (\<lambda>R U t. (good A R U t \<and> K R U t) \<and> hits = live_faces p (faces t))) ?set
      (\<lambda>_. dbok (\<lambda>R U t. good (insert p A) R U t \<and> counted p (int (length hits)) t \<and> K R U t))"
    by (rule triple_stmt) (auto dest: good_recount intro: keep)
  then show "triple (dbok (\<lambda>R U t. (good A R U t \<and> K R U t) \<and> hits = live_faces p (faces t)))
     (athen ?set (aret (int (length hits)))) (\<lambda>n. dbok (\<lambda>R U t. good (insert p A) R U t \<and> counted p n t \<and> K R U t))"
    by (rule triple_then) (rule triple_ret, simp)
qed

lemma triple_recount:
  "triple (dbok (good A)) (recount_person p) (\<lambda>n. dbok (\<lambda>R U t. good (insert p A) R U t \<and> counted p n t))"
  using triple_recount_keeping [of "\<lambda>_ _ _. True" A p] by simp

lemma triple_rebuild:
  "triple (dbok (\<lambda>R U t. good A R U t \<and> counted p n t \<and> n \<noteq> 0)) (rebuild_person_exemplars p 8) (\<lambda>_. dbok (good (A - {p})))"
  unfolding rebuild_person_exemplars_def
proof (rule triple_then)
  let ?J = "\<lambda>R U t. good (insert p A) R U t \<and> counted p n t \<and> n \<noteq> 0 \<and> (\<forall>f \<in> set (faces t). f_person f = p \<longrightarrow> \<not> f_exemplar f)"
  let ?top = "\<lambda>rows. best_faces 8 (filter (\<lambda>f. f_person f = p \<and> \<not> f_ignored f) rows)"
  show "triple (dbok (\<lambda>R U t. good A R U t \<and> counted p n t \<and> n \<noteq> 0))
    (on_faces (map (\<lambda>f. if f_person f = p then f\<lparr>f_exemplar := False\<rparr> else f))) (\<lambda>_. dbok ?J)"
  proof (rule triple_faces, intro conjI)
    fix R U t
    assume j: "good A R U t \<and> counted p n t \<and> n \<noteq> 0"
    let ?c = "\<lambda>f. if f_person f = p then f\<lparr>f_exemplar := False\<rparr> else f"
    show "good (insert p A) R U (t\<lparr>faces := map ?c (faces t)\<rparr>)" using j by (blast intro: good_clear)
    show "counted p n (t\<lparr>faces := map ?c (faces t)\<rparr>)" by (rule counted_faces) (use j in auto)
    show "n \<noteq> 0" using j by blast
    show "\<forall>f \<in> set (faces (t\<lparr>faces := map ?c (faces t)\<rparr>)). f_person f = p \<longrightarrow> \<not> f_exemplar f"
    proof
      fix g
      assume "g \<in> set (faces (t\<lparr>faces := map ?c (faces t)\<rparr>))"
      then have "g \<in> ?c ` set (faces t)" by simp
      then show "f_person g = p \<longrightarrow> \<not> f_exemplar g" by (elim imageE) simp
    qed
  qed
  show "triple (dbok ?J) (on_faces (\<lambda>rows. let top = ?top rows in
       map (\<lambda>f. if f_id f \<in> f_id ` set top then f\<lparr>f_exemplar := True\<rparr> else f) rows)) (\<lambda>_. dbok (good (A - {p})))"
    unfolding Let_def mark_def [symmetric]
  proof (rule triple_faces)
    fix R U t
    assume j: "?J R U t"
    let ?t = "t\<lparr>faces := map (mark (f_id ` set (?top (faces t))) True) (faces t)\<rparr>"
    have top: "set (?top (faces t)) \<subseteq> {f \<in> set (faces t). f_person f = p}" using best_faces_some(1) by fastforce
    have "good (insert p (insert p A)) R U ?t" by (rule good_raise) (use j top in auto)
    moreover have "counted p n ?t" by (rule counted_faces) (use j in auto)
    moreover have "exemplars p (faces ?t) \<le> length (?top (faces t))"
      unfolding exemplars_def by (rule few_with_ids)
        (use j goodD(1) [of "insert p A" R U t] in \<open>auto simp: keys_ok_def comp_def split: if_splits\<close>)
    moreover have "length (?top (faces t)) \<le> 8" using best_faces_some(2) [of 8] by simp
    ultimately have "good (insert p (insert p A) - {p}) R U ?t" using good_settled j by (metis (no_types, lifting) le_trans)
    then show "good (A - {p}) R U ?t" by simp
  qed
qed

end
