(* ===== verification/Face_Identity.thy ===== *)
theory Face_Identity
  imports Face_Invariant
begin

text \<open>
  Operations keep the identities consistent: assignments of recordings, re-clustering and the
  operator's corrections, over the invariant of \<open>Face_Invariant\<close>.
\<close>

section \<open>Looking up, refreshing, creating\<close>

lemma triple_lookup: "triple (dbok I) (lookup q) (\<lambda>x. dbok (\<lambda>R U t. I R U t \<and> x = q t))"
  unfolding lookup_def
proof (rule triple_bind [OF triple_try [OF triple_query]])
  fix r
  show "triple (\<lambda>d. \<exists>x. r = Some x \<and> dbok (\<lambda>R U t. I R U t \<and> x = q t) d) (aret (Option.bind r (\<lambda>x. x)))
     (\<lambda>x. dbok (\<lambda>R U t. I R U t \<and> x = q t))"
    by (rule triple_ret) auto
qed

lemma get_person_ids: "get_person i (persons t) = Some p \<Longrightarrow> i \<in> person_ids t"
  by (auto simp: get_person_def person_ids_def find_Some_iff)

lemma get_track_Some: "get_track i ts = Some u \<Longrightarrow> u \<in> set ts \<and> t_id u = i"
  by (auto simp: get_track_def find_Some_iff)

lemma good_ids: "good A R U t \<Longrightarrow> [] \<notin> person_ids t" "good A R U t \<Longrightarrow> u \<in> set (tracks t) \<Longrightarrow> t_id u \<noteq> []"
  by (auto simp: good_def)

lemma good_drop_absent: "good A R U t \<Longrightarrow> p \<notin> person_ids t \<Longrightarrow> good (A - {p}) R U t"
  by (auto simp: good_def person_ids_def)

lemma triple_delete:
  "triple (dbok (\<lambda>R U t. good A R U t \<and> counted p 0 t)) (on_persons (\<lambda>_. delete_person p)) (\<lambda>_. dbok (good (A - {p})))"
  by (rule triple_persons) (auto simp: counted_def intro: good_delete)

lemma triple_refresh: "triple (dbok (good A)) (refresh_person p) (\<lambda>_. dbok (good (A - {p})))"
proof (cases "p = []")
  case True
  then show ?thesis
    by (auto simp: refresh_person_def intro!: triple_ret elim!: dbok_mono intro: good_drop_absent dest: good_ids(1))
next
  case False
  have "triple (dbok (\<lambda>R U t. good (insert p A) R U t \<and> counted p n t))
     (if n = 0 then adrop (on_persons (\<lambda>_. delete_person p)) else adrop (rebuild_person_exemplars p face_exemplars))
     (\<lambda>_. dbok (good (A - {p})))" for n
  proof (cases "n = 0")
    case True
    then show ?thesis
      using triple_drop [OF triple_delete [of "insert p A" p]] by simp
  next
    case n: False
    have "triple (dbok (\<lambda>R U t. good (insert p A) R U t \<and> counted p n t))
       (adrop (rebuild_person_exemplars p 8)) (\<lambda>_. dbok (good (insert p A - {p})))"
      by (rule triple_weaken [OF triple_drop [OF triple_rebuild [of "insert p A" p n]]]) (use n in \<open>auto elim: dbok_mono\<close>)
    then show ?thesis using n by (simp add: face_exemplars_def)
  qed
  then show ?thesis
    unfolding refresh_person_def using False
    by (auto intro!: triple_bind [OF triple_try [OF triple_recount]] triple_case_some)
qed

text \<open>A person with a fresh identifier; \<open>K\<close> is what else is known.\<close>

definition grows :: "tables_pred \<Rightarrow> bool" where
  "grows K \<longleftrightarrow> (\<forall>R U t. K R U t \<longrightarrow> (\<forall>i. i \<notin> U \<longrightarrow> K R (insert i U) t) \<and> (\<forall>x. K R U (t\<lparr>persons := persons t @ [x]\<rparr>)))"

lemma triple_fresh:
  "grows K \<Longrightarrow> triple (dbok (\<lambda>R U t. good A R U t \<and> K R U t)) draw_id
     (\<lambda>i. dbok (\<lambda>R U t. good A R U t \<and> K R U t \<and> i \<in> U \<and> i \<notin> person_ids t))"
  by (rule triple_draw) (auto simp: grows_def intro: good_insert dest: good_unused(1))

lemma triple_add_person:
  assumes "\<And>R U t x. K R U t \<Longrightarrow> K R U (t\<lparr>persons := persons t @ [x]\<rparr>)" "p_id x = i"
  shows "triple (dbok (\<lambda>R U t. good A R U t \<and> K R U t \<and> i \<in> U \<and> i \<notin> person_ids t)) (add_person x)
     (\<lambda>_. dbok (\<lambda>R U t. good (insert i A) R U t \<and> K R U t \<and> i \<in> person_ids t))"
  unfolding add_person_def
proof (rule triple_stmt)
  fix d
  let ?R = "rec_ids d" and ?U = "uuid d ` {..<drawn_ids d}" and ?t = "tbl d"
  assume a: "good A ?R ?U ?t \<and> K ?R ?U ?t \<and> i \<in> ?U \<and> i \<notin> person_ids ?t"
  obtain y where y: "create_person (now d (clk d)) x (persons ?t) = Some (persons ?t @ [y])" "p_id y = i"
    using a assms(2) by (auto simp: create_person_def Let_def person_ids_def)
  have "good (insert i A) ?R ?U (?t\<lparr>persons := persons ?t @ [y]\<rparr>)" by (rule good_create) (use a y in auto)
  moreover have "K ?R ?U (?t\<lparr>persons := persons ?t @ [y]\<rparr>)" using assms(1) a by blast
  moreover have "i \<in> person_ids (?t\<lparr>persons := persons ?t @ [y]\<rparr>)" using y(2) by (simp add: person_ids_def)
  ultimately show "\<exists>z t. map_option (\<lambda>ps. ((), ?t\<lparr>persons := ps\<rparr>)) (create_person (now d (clk d)) x (persons ?t)) = Some (z, t) \<and>
      good (insert i A) ?R ?U t \<and> K ?R ?U t \<and> i \<in> person_ids t"
    using y(1) by simp
qed

section \<open>Corrections\<close>

lemma faces_tracks: "t\<lparr>faces := fs, tracks := ts\<rparr> = t\<lparr>tracks := ts, faces := fs\<rparr>" for t :: face_tables
  by (cases t) simp

lemma triple_moving:
  "triple (dbok (\<lambda>R U t. good A R U t \<and> q \<in> person_ids t \<and> q \<in> A \<and> i \<noteq> [] \<and> owners i t \<subseteq> A \<and> K t))
     (on_tracks (update_track_person i q))
     (\<lambda>_. dbok (\<lambda>R U t. good A R U (t\<lparr>faces := set_person_by_track i q (faces t)\<rparr>) \<and> q \<in> person_ids t \<and>
        K (t\<lparr>faces := set_person_by_track i q (faces t)\<rparr>)))"
  if "\<And>t. K t \<Longrightarrow> K (moved i q t)" for K :: "face_tables \<Rightarrow> bool"
proof (rule triple_tracks)
  fix R U t
  assume a: "good A R U t \<and> q \<in> person_ids t \<and> q \<in> A \<and> i \<noteq> [] \<and> owners i t \<subseteq> A \<and> K t"
  then have "good (A \<union> owners i t \<union> {q}) R U (moved i q t)" by (blast intro: good_moved)
  moreover have "A \<union> owners i t \<union> {q} = A" using a by blast
  moreover have "K (moved i q t)" using a that by blast
  ultimately show "good A R U (t\<lparr>tracks := update_track_person i q (tracks t)\<rparr>
      \<lparr>faces := set_person_by_track i q (faces (t\<lparr>tracks := update_track_person i q (tracks t)\<rparr>))\<rparr>) \<and>
      q \<in> person_ids (t\<lparr>tracks := update_track_person i q (tracks t)\<rparr>) \<and>
      K (t\<lparr>tracks := update_track_person i q (tracks t)\<rparr>
      \<lparr>faces := set_person_by_track i q (faces (t\<lparr>tracks := update_track_person i q (tracks t)\<rparr>))\<rparr>)"
    using a by (simp add: moved_def person_ids_def)
qed

lemma triple_moving_faces:
  "triple (dbok (\<lambda>R U t. good A R U (t\<lparr>faces := set_person_by_track i q (faces t)\<rparr>) \<and> q \<in> person_ids t \<and>
        K (t\<lparr>faces := set_person_by_track i q (faces t)\<rparr>)))
     (on_faces (set_person_by_track i q)) (\<lambda>_. dbok (\<lambda>R U t. good A R U t \<and> q \<in> person_ids t \<and> K t))"
  by (rule triple_faces) (auto simp: person_ids_def)

text \<open>The three statements of a correction: move the track, confirm it, move its faces.\<close>

lemma triple_correct:
  assumes "triple (dbok (\<lambda>R U t. good A R U t \<and> q \<in> person_ids t)) m Q"
  shows "triple (dbok (\<lambda>R U t. good A R U t \<and> q \<in> person_ids t \<and> q \<in> A \<and> i \<noteq> [] \<and> owners i t \<subseteq> A))
    (athen (adrop (on_tracks (update_track_person i q))) (athen (adrop (on_tracks (set_confirmed i True)))
       (athen (adrop (on_faces (set_person_by_track i q))) m))) Q"
proof (rule triple_then)
  let ?J = "\<lambda>R U t. good A R U (t\<lparr>faces := set_person_by_track i q (faces t)\<rparr>) \<and> q \<in> person_ids t \<and> True"
  show "triple (dbok (\<lambda>R U t. good A R U t \<and> q \<in> person_ids t \<and> q \<in> A \<and> i \<noteq> [] \<and> owners i t \<subseteq> A))
     (adrop (on_tracks (update_track_person i q))) (\<lambda>_. dbok ?J)"
    using triple_drop [OF triple_moving [of "\<lambda>_. True" i q A]] by simp
  show "triple (dbok ?J) (athen (adrop (on_tracks (set_confirmed i True))) (athen (adrop (on_faces (set_person_by_track i q))) m)) Q"
  proof (rule triple_then [OF triple_drop])
    show "triple (dbok ?J) (on_tracks (set_confirmed i True)) (\<lambda>_. dbok ?J)"
    proof (rule triple_tracks)
      fix R U t
      assume j: "?J R U t"
      let ?t = "t\<lparr>faces := set_person_by_track i q (faces t)\<rparr>"
      have "good A R U (?t\<lparr>tracks := set_confirmed i True (tracks ?t)\<rparr>)" by (rule good_confirm) (use j in simp)
      then show "?J R U (t\<lparr>tracks := set_confirmed i True (tracks t)\<rparr>)" using j by (simp add: person_ids_def faces_tracks)
    qed
    show "triple (dbok ?J) (athen (adrop (on_faces (set_person_by_track i q))) m) Q"
      by (rule triple_then [OF triple_drop [OF triple_moving_faces] triple_weaken [OF assms]]) (auto elim: dbok_mono)
  qed
qed

lemma owners_unique:
  assumes "keys_ok t" "u \<in> set (tracks t)"
  shows "owners (t_id u) t = {t_person u}"
proof -
  have "{v \<in> set (tracks t). t_id v = t_id u} = {u}"
    using assms by (auto simp: keys_ok_def distinct_map dest: inj_onD)
  then show ?thesis by (simp add: owners_def)
qed

text \<open>The last lookup of a handler.\<close>

lemma triple_answer: "triple (dbok (good A)) (athen (lookup q) (aret x)) (\<lambda>_. dbok (good A))"
proof (rule triple_then)
  show "triple (dbok (good A)) (lookup q) (\<lambda>_. dbok (good A))"
    by (rule triple_weaken [OF triple_lookup [of "good A"]]) (auto elim: dbok_mono)
qed (rule triple_ret)

lemma triple_patch: "triple (dbok (good {})) (handle_patch_person i body) (\<lambda>_. dbok (good {}))"
proof -
  have meta: "triple (dbok (good {})) (on_persons (\<lambda>n. update_meta n i a b c)) (\<lambda>_. dbok (good {}))" for a b c
    unfolding update_meta_def by (rule triple_persons, rule good_persons) auto
  have answer: "triple (dbok (good {})) (abind (atry (on_persons (\<lambda>n. update_meta n i a b c)))
      (\<lambda>r. if r = None then aret ServerError else athen (lookup (\<lambda>t. get_person i (persons t))) (aret Json))) (\<lambda>_. dbok (good {}))" for a b c
    by (rule triple_bind [OF triple_try [OF meta] triple_if_some [OF triple_answer]])
  have reply: "triple (dbok (\<lambda>R U t. good {} R U t \<and> p = get_person i (persons t))) m (\<lambda>_. dbok (good {}))"
    if "triple (dbok (good {})) m (\<lambda>_. dbok (good {}))" for p and m :: "reply act"
    by (rule triple_weaken [OF that]) (auto elim: dbok_mono)
  show ?thesis
    unfolding handle_patch_person_def
    by (rule triple_bind [OF triple_lookup], rule reply) (auto split: option.split intro: triple_ret answer)
qed

text \<open>Reassigning all tracks and faces of a person.\<close>

lemma live_reassigned: "p \<noteq> q \<Longrightarrow> live_faces p (reassign_faces p q fs) = []"
  by (auto simp: live_faces_def reassign_faces_def filter_empty_conv split: if_splits)

lemma person_ids_faces [simp]:
  "person_ids (t\<lparr>faces := fs\<rparr>) = person_ids t" "person_ids (t\<lparr>tracks := ts\<rparr>) = person_ids t"
  by (simp_all add: person_ids_def)

definition reassigned :: "string \<Rightarrow> string \<Rightarrow> string set \<Rightarrow> tables_pred" where
  "reassigned p q A R U t \<longleftrightarrow> good A R U t \<and> (q = [] \<or> q \<in> person_ids t) \<and> (p \<noteq> q \<longrightarrow> live_faces p (faces t) = [])"

lemma triple_reassign:
  assumes "q \<noteq> [] \<Longrightarrow> p \<noteq> []"
  shows "triple (dbok (\<lambda>R U t. good A R U t \<and> (q = [] \<or> q \<in> person_ids t))) (adrop (on_tracks (reassign_tracks p q)))
      (\<lambda>_. dbok (\<lambda>R U t. reassigned p q (A \<union> {p, q}) R U (t\<lparr>faces := reassign_faces p q (faces t)\<rparr>)))"
    and "triple (dbok (\<lambda>R U t. reassigned p q B R U (t\<lparr>faces := reassign_faces p q (faces t)\<rparr>))) (adrop (on_faces (reassign_faces p q)))
      (\<lambda>_. dbok (reassigned p q B))"
proof -
  show "triple (dbok (\<lambda>R U t. good A R U t \<and> (q = [] \<or> q \<in> person_ids t))) (adrop (on_tracks (reassign_tracks p q)))
      (\<lambda>_. dbok (\<lambda>R U t. reassigned p q (A \<union> {p, q}) R U (t\<lparr>faces := reassign_faces p q (faces t)\<rparr>)))"
  proof (rule triple_drop, rule triple_tracks)
    fix R U t
    assume "good A R U t \<and> (q = [] \<or> q \<in> person_ids t)"
    then show "reassigned p q (A \<union> {p, q}) R U (t\<lparr>tracks := reassign_tracks p q (tracks t)\<rparr>
        \<lparr>faces := reassign_faces p q (faces (t\<lparr>tracks := reassign_tracks p q (tracks t)\<rparr>))\<rparr>)"
      using good_reassigned [of A R U t q p] assms by (auto simp: reassigned_def live_reassigned)
  qed
qed (rule triple_drop, rule triple_faces, simp)

lemma triple_delete_person: "triple (dbok (good {})) (handle_delete_person i) (\<lambda>_. dbok (good {}))"
  unfolding handle_delete_person_def
proof (rule triple_then)
  show "triple (dbok (good {})) (adrop (on_tracks (reassign_tracks i [])))
      (\<lambda>_. dbok (\<lambda>R U t. reassigned i [] {i, []} R U (t\<lparr>faces := reassign_faces i [] (faces t)\<rparr>)))"
    using triple_reassign(1) [of "[]" i "{}"] by simp
  have "triple (dbok (reassigned i [] {i, []})) (on_persons (\<lambda>_. delete_person i)) (\<lambda>_. dbok (good {}))"
  proof (rule triple_persons)
    fix R U t
    assume r: "reassigned i [] {i, []} R U t"
    let ?t = "t\<lparr>persons := delete_person i (persons t)\<rparr>"
    have "good ({i, []} - {i}) R U ?t"
    proof (cases "i = []")
      case True
      have "delete_person i (persons t) = persons t"
        unfolding delete_person_def by (rule filter_True)
          (use r good_ids(1) [of "{i, []}" R U t] True in \<open>auto simp: reassigned_def person_ids_def image_iff\<close>)
      then have "?t = t" by simp
      then show ?thesis using r good_drop_absent [of "{i, []}" R U t i] good_ids(1) [of "{i, []}" R U t] True by (auto simp: reassigned_def)
    next
      case False
      then show ?thesis using r good_delete [of "{i, []}" R U t i] by (auto simp: reassigned_def)
    qed
    then have "good ({i, []} - {i} - {[]}) R U ?t" using good_drop_absent good_ids(1) by blast
    moreover have "{i, []} - {i} - {[]} = {}" by blast
    ultimately show "good {} R U ?t" by (simp only:)
  qed
  then show "triple (dbok (\<lambda>R U t. reassigned i [] {i, []} R U (t\<lparr>faces := reassign_faces i [] (faces t)\<rparr>)))
     (athen (adrop (on_faces (reassign_faces i [])))
       (abind (atry (on_persons (\<lambda>_. delete_person i))) (\<lambda>r. aret (if r = None then ServerError else NoContent)))) (\<lambda>_. dbok (good {}))"
    by (auto intro!: triple_then [OF triple_reassign(2)] triple_bind [OF triple_try] triple_ret)
qed

lemma triple_merge_source:
  "triple (dbok (\<lambda>R U t. good {target} R U t \<and> target \<in> person_ids t)) (merge_source target src)
     (\<lambda>_. dbok (\<lambda>R U t. good {target} R U t \<and> target \<in> person_ids t))" (is "triple (dbok ?P) _ _")
proof (cases "src = [] \<or> src = target")
  case False
  let ?J = "\<lambda>R U t. reassigned src target {target, src} R U t \<and> target \<in> person_ids t"
  have "triple (dbok ?J) (adrop (on_tracks (set_confirmed i True))) (\<lambda>_. dbok ?J)" for i
    by (rule triple_drop, rule triple_tracks) (auto simp: reassigned_def intro: good_confirm)
  then have confirm: "triple (dbok ?J) (aeach (\<lambda>t. adrop (on_tracks (set_confirmed (t_id t) True))) ts) (\<lambda>_. dbok ?J)" for ts
    by (intro triple_each)
  have delete: "triple (dbok ?J) (adrop (on_persons (\<lambda>_. delete_person src))) (\<lambda>_. dbok ?P)"
  proof (rule triple_drop, rule triple_persons)
    fix R U t
    assume j: "?J R U t"
    then have "good ({target, src} - {src}) R U (t\<lparr>persons := delete_person src (persons t)\<rparr>)"
      using False by (auto simp: reassigned_def intro: good_delete)
    moreover have "{target, src} - {src} = {target}" using False by blast
    ultimately show "?P R U (t\<lparr>persons := delete_person src (persons t)\<rparr>)"
      using j False by (auto simp: person_ids_def delete_person_def)
  qed
  have tracks: "triple (dbok ?P) (adrop (on_tracks (reassign_tracks src target)))
      (\<lambda>_. dbok (\<lambda>R U t. reassigned src target {target, src} R U (t\<lparr>faces := reassign_faces src target (faces t)\<rparr>) \<and> target \<in> person_ids t))"
    by (rule triple_drop, rule triple_tracks)
      (use False in \<open>auto simp: reassigned_def live_reassigned insert_commute dest: good_reassigned [of "{target}" _ _ _ target src]\<close>)
  have faces: "triple (dbok (\<lambda>R U t. reassigned src target {target, src} R U (t\<lparr>faces := reassign_faces src target (faces t)\<rparr>) \<and> target \<in> person_ids t))
      (adrop (on_faces (reassign_faces src target))) (\<lambda>_. dbok ?J)"
    by (rule triple_drop, rule triple_faces) simp
  have listed: "triple (dbok ?P) (atry (query (\<lambda>t. list_tracks q (tracks t)))) (\<lambda>_. dbok ?P)" for q
    by (rule triple_weaken [OF triple_try [OF triple_query]]) (auto elim: dbok_mono)
  show ?thesis
    unfolding merge_source_def using False
    by (simp only: if_False) (rule triple_bind [OF listed triple_then [OF tracks triple_then [OF faces triple_then [OF confirm delete]]]])
qed (auto simp: merge_source_def intro: triple_ret)

lemma dbok_conj: "dbok (\<lambda>R U t. I R U t \<and> b) d \<longleftrightarrow> dbok I d \<and> b"
  by (auto simp: dbok_def)

lemma triple_refreshed:
  "triple (dbok (good (A - {p}))) m Q \<Longrightarrow> triple (dbok (good A)) (athen (refresh_person p) m) Q"
  by (rule triple_then [OF triple_refresh])

lemma triple_merge: "triple (dbok (good {})) (handle_merge_persons body) (\<lambda>_. dbok (good {}))"
proof (cases body)
  case (Some b)
  obtain sources target where b: "b = (sources, target)" by (cases b)
  let ?P = "\<lambda>R U t. good {target} R U t \<and> target \<in> person_ids t"
  have rest: "triple (dbok ?P) (athen (aeach (merge_source target) sources) (athen (refresh_person target)
       (athen (lookup (\<lambda>t. get_person target (persons t))) (aret Json)))) (\<lambda>_. dbok (good {}))"
    by (rule triple_then [OF triple_each [OF triple_merge_source]])
      (rule triple_weaken [OF triple_refreshed [of "{target}" target]], use triple_answer [of "{}"] in auto, auto elim: dbok_mono)
  show ?thesis
    unfolding handle_merge_persons_def Some option.case b prod.case
    by (auto intro!: triple_ret triple_bind [OF triple_lookup] elim!: dbok_mono)
      (rule triple_weaken [OF rest], auto elim!: dbok_mono dest: get_person_ids sym intro: good_more)
qed (auto simp: handle_merge_persons_def intro: triple_ret)

text \<open>A person of the operator's own, which the state after its creation has.\<close>

lemma triple_new_person:
  assumes "grows K"
    and "\<And>j. triple (dbok (\<lambda>R U t. good (insert j A) R U t \<and> K R U t \<and> j \<in> person_ids t)) (f j (Some ())) Q"
  shows "triple (dbok (\<lambda>R U t. good A R U t \<and> K R U t)) (abind draw_id (\<lambda>j. abind (atry (add_person (blank_person j))) (f j))) Q"
proof (rule triple_bind [OF triple_fresh [OF assms(1)]], rule triple_bind [OF triple_try])
  fix j r
  show "triple (dbok (\<lambda>R U t. good A R U t \<and> K R U t \<and> j \<in> U \<and> j \<notin> person_ids t)) (add_person (blank_person j))
      (\<lambda>_. dbok (\<lambda>R U t. good (insert j A) R U t \<and> K R U t \<and> j \<in> person_ids t))"
    by (rule triple_add_person) (use assms(1) in \<open>auto simp: grows_def blank_person_def\<close>)
  show "triple (\<lambda>d. \<exists>x. r = Some x \<and> dbok (\<lambda>R U t. good (insert j A) R U t \<and> K R U t \<and> j \<in> person_ids t) d) (f j r) Q"
    using assms(2) [of j] unfolding triple_def by auto
qed

lemma drop_ret: "athen (adrop m) (aret ()) = adrop m"
  by (rule ext) (simp add: athen_def abind_def adrop_def aret_def)

lemma triple_split_track:
  "triple (dbok (\<lambda>R U t. good {i, j} R U t \<and> j \<in> person_ids t)) (split_track i j track)
     (\<lambda>_. dbok (\<lambda>R U t. good {i, j} R U t \<and> j \<in> person_ids t))" (is "triple (dbok ?P) _ _")
  unfolding split_track_def
proof (rule triple_bind [OF triple_lookup])
  fix r
  show "triple (dbok (\<lambda>R U t. ?P R U t \<and> r = get_track track (tracks t)))
     (case r of None \<Rightarrow> aret () | Some u \<Rightarrow> if t_person u \<noteq> i then aret ()
        else athen (adrop (on_tracks (update_track_person track j)))
          (athen (adrop (on_tracks (set_confirmed track True))) (adrop (on_faces (set_person_by_track track j))))) (\<lambda>_. dbok ?P)"
  proof (cases "r = None \<or> t_person (the r) \<noteq> i")
    case True
    then show ?thesis by (auto split: option.split intro!: triple_ret elim: dbok_mono)
  next
    case False
    then obtain u where u: "r = Some u" "t_person u = i" by auto
    have "triple (dbok (\<lambda>R U t. ?P R U t \<and> j \<in> {i, j} \<and> track \<noteq> [] \<and> owners track t \<subseteq> {i, j}))
        (athen (adrop (on_tracks (update_track_person track j))) (athen (adrop (on_tracks (set_confirmed track True)))
          (athen (adrop (on_faces (set_person_by_track track j))) (aret ())))) (\<lambda>_. dbok ?P)"
      using triple_correct [of "{i, j}" j "aret ()" "\<lambda>_. dbok ?P" track] by (simp add: conj_ac triple_ret)
    then have move: "triple (dbok (\<lambda>R U t. ?P R U t \<and> j \<in> {i, j} \<and> track \<noteq> [] \<and> owners track t \<subseteq> {i, j}))
        (athen (adrop (on_tracks (update_track_person track j))) (athen (adrop (on_tracks (set_confirmed track True)))
          (adrop (on_faces (set_person_by_track track j))))) (\<lambda>_. dbok ?P)"
      unfolding drop_ret .
    have facts: "track \<noteq> [] \<and> owners track t \<subseteq> {i, j}" if "?P R U t" "r = get_track track (tracks t)" for R U t
      using that u get_track_Some [of track "tracks t" u] good_ids(2) [of "{i, j}" R U t u] owners_unique [of t u] goodD(1) [of "{i, j}" R U t]
      by auto
    have "triple (dbok (\<lambda>R U t. ?P R U t \<and> r = get_track track (tracks t)))
        (athen (adrop (on_tracks (update_track_person track j))) (athen (adrop (on_tracks (set_confirmed track True)))
          (adrop (on_faces (set_person_by_track track j))))) (\<lambda>_. dbok ?P)"
      by (rule triple_weaken [OF move], erule dbok_mono) (use facts in blast)+
    then show ?thesis using u by simp
  qed
qed

lemma triple_split: "triple (dbok (good {})) (handle_split_person i body) (\<lambda>_. dbok (good {}))"
proof -
  have known: "triple (dbok (\<lambda>R U t. good {} R U t \<and> p = get_person i (persons t))) (aret x) (\<lambda>_. dbok (good {}))" for p and x :: reply
    by (rule triple_ret) (auto elim: dbok_mono)
  have rest: "triple (dbok (\<lambda>R U t. good {j} R U t \<and> True \<and> j \<in> person_ids t))
      (athen (aeach (split_track i j) ids) (athen (refresh_person i) (athen (refresh_person j)
         (athen (lookup (\<lambda>t. get_person j (persons t))) (aret Json))))) (\<lambda>_. dbok (good {}))" for j ids
  proof (rule triple_weaken [OF triple_then [OF triple_each [OF triple_split_track]]])
    have "triple (dbok (good {i, j})) (athen (refresh_person i) (athen (refresh_person j)
         (athen (lookup (\<lambda>t. get_person j (persons t))) (aret Json)))) (\<lambda>_. dbok (good {}))"
      by (intro triple_refreshed triple_weaken [OF triple_answer]) (auto elim!: dbok_mono intro: good_more)
    then show "triple (dbok (\<lambda>R U t. good {i, j} R U t \<and> j \<in> person_ids t)) (athen (refresh_person i) (athen (refresh_person j)
         (athen (lookup (\<lambda>t. get_person j (persons t))) (aret Json)))) (\<lambda>_. dbok (good {}))"
      by (rule triple_weaken) (auto elim: dbok_mono)
  qed (auto elim!: dbok_mono intro: good_more)
  have create: "triple (dbok (\<lambda>R U t. good {} R U t \<and> p = get_person i (persons t)))
      (abind draw_id (\<lambda>j. abind (atry (add_person (blank_person j))) (\<lambda>r. if r = None then aret ServerError
         else athen (aeach (split_track i j) ids) (athen (refresh_person i) (athen (refresh_person j)
           (athen (lookup (\<lambda>t. get_person j (persons t))) (aret Json))))))) (\<lambda>_. dbok (good {}))" for p ids
    by (rule triple_weaken [OF triple_new_person [where K = "\<lambda>_ _ _. True" and A = "{}"]])
      (use rest in \<open>auto simp: grows_def elim: dbok_mono\<close>)
  show ?thesis
    unfolding handle_split_person_def
    by (rule triple_bind [OF triple_lookup]) (use known create in \<open>auto split: option.split\<close>)
qed

lemma triple_assign_track: "triple (dbok (good {})) (handle_assign_track track body) (\<lambda>_. dbok (good {}))"
proof -
  let ?K = "\<lambda>u R U t. get_track track (tracks t) = Some u"
  have known: "triple (dbok (\<lambda>R U t. good {} R U t \<and> r = get_track track (tracks t))) (aret x) (\<lambda>_. dbok (good {}))" for r and x :: reply
    by (rule triple_ret) (auto elim: dbok_mono)
  have target: "triple (dbok (\<lambda>R U t. good {} R U t \<and> Some u = get_track track (tracks t))) (assign_target person new_person)
      (\<lambda>res. dbok (\<lambda>R U t. case res of Inl _ \<Rightarrow> good {} R U t
         | Inr q \<Rightarrow> good {q} R U t \<and> q \<in> person_ids t \<and> ?K u R U t))" for u person new_person
  proof (cases new_person)
    case True
    show ?thesis
      unfolding assign_target_def using True
      by (simp, intro triple_weaken [OF triple_new_person [where K = "?K u" and A = "{}"]])
        (auto simp: grows_def intro!: triple_ret elim!: dbok_mono)
  next
    case False
    then show ?thesis
      unfolding assign_target_def
      by (auto intro!: triple_ret triple_bind [OF triple_lookup] split: if_splits elim!: dbok_mono dest: sym intro: good_more get_person_ids)
  qed
  have rest: "triple (dbok (\<lambda>R U t. good {q} R U t \<and> q \<in> person_ids t \<and> ?K u R U t))
      (athen (adrop (on_tracks (update_track_person track q))) (athen (adrop (on_tracks (set_confirmed track True)))
        (athen (adrop (on_faces (set_person_by_track track q))) (athen (if t_person u \<noteq> q then refresh_person (t_person u) else aret ())
          (athen (refresh_person q) (athen (lookup (\<lambda>t. get_person q (persons t))) (aret Json))))))) (\<lambda>_. dbok (good {}))" for u q
  proof -
    have last: "triple (dbok (good {q})) (athen (refresh_person q) (athen (lookup (\<lambda>t. get_person q (persons t))) (aret Json)))
        (\<lambda>_. dbok (good {}))"
      by (intro triple_refreshed triple_weaken [OF triple_answer]) (auto elim!: dbok_mono intro: good_more)
    have "triple (dbok (good {q, t_person u})) (athen (if t_person u \<noteq> q then refresh_person (t_person u) else aret ())
          (athen (refresh_person q) (athen (lookup (\<lambda>t. get_person q (persons t))) (aret Json)))) (\<lambda>_. dbok (good {}))"
    proof (cases "t_person u = q")
      case True
      then show ?thesis using triple_then [OF triple_ret last] by simp
    next
      case False
      have "{q, t_person u} - {t_person u} = {q}" using False by blast
      then show ?thesis using False triple_refreshed [of "{q, t_person u}" "t_person u"] last by simp
    qed
    then have "triple (dbok (\<lambda>R U t. good {q, t_person u} R U t \<and> q \<in> person_ids t))
         (athen (if t_person u \<noteq> q then refresh_person (t_person u) else aret ())
          (athen (refresh_person q) (athen (lookup (\<lambda>t. get_person q (persons t))) (aret Json)))) (\<lambda>_. dbok (good {}))"
      by (rule triple_weaken) (auto elim: dbok_mono)
    from triple_correct [OF this, of track] show ?thesis
    proof (rule triple_weaken)
      fix d
      assume "dbok (\<lambda>R U t. good {q} R U t \<and> q \<in> person_ids t \<and> ?K u R U t) d"
      then show "dbok (\<lambda>R U t. good {q, t_person u} R U t \<and> q \<in> person_ids t \<and> q \<in> {q, t_person u} \<and> track \<noteq> [] \<and>
          owners track t \<subseteq> {q, t_person u}) d"
      proof (rule dbok_mono)
        fix R U t
        assume a: "good {q} R U t \<and> q \<in> person_ids t \<and> ?K u R U t"
        then have "u \<in> set (tracks t)" "t_id u = track" using get_track_Some by blast+
        then show "good {q, t_person u} R U t \<and> q \<in> person_ids t \<and> q \<in> {q, t_person u} \<and> track \<noteq> [] \<and>
            owners track t \<subseteq> {q, t_person u}"
          using a owners_unique [OF goodD(1), of "{q}" R U t u] good_ids(2) [of "{q}" R U t u] by (auto intro: good_more)
      qed
    qed
  qed
  have both: "triple (dbok (\<lambda>R U t. case res of Inl _ \<Rightarrow> good {} R U t | Inr q \<Rightarrow> good {q} R U t \<and> q \<in> person_ids t \<and> ?K u R U t))
     (case res of Inl e \<Rightarrow> aret e | Inr q \<Rightarrow>
        athen (adrop (on_tracks (update_track_person track q))) (athen (adrop (on_tracks (set_confirmed track True)))
        (athen (adrop (on_faces (set_person_by_track track q))) (athen (if t_person u \<noteq> q then refresh_person (t_person u) else aret ())
          (athen (refresh_person q) (athen (lookup (\<lambda>t. get_person q (persons t))) (aret Json))))))) (\<lambda>_. dbok (good {}))" for res u
    by (cases res) (simp_all add: rest triple_ret)
  show ?thesis
    unfolding handle_assign_track_def
    by (rule triple_bind [OF triple_lookup])
      (use known triple_bind [OF target both] in \<open>auto split: option.split prod.split\<close>)
qed

lemma triple_confirm: "triple (dbok (good {})) (handle_confirm_track track) (\<lambda>_. dbok (good {}))"
  unfolding handle_confirm_track_def
  by (rule triple_bind [OF triple_try [OF triple_tracks [of "good {}" "good {}" "set_confirmed track True"]]]) (auto intro: triple_ret good_confirm)

lemma good_links [simp]: "good A R U (t\<lparr>links := ls\<rparr>) = good A R U t" "good A R U (t\<lparr>jobs := js\<rparr>) = good A R U t"
  by (simp_all add: good_def keys_ok_def person_ids_def)

end
