(* ===== verification/Face_Assigning.thy ===== *)
theory Face_Assigning
  imports Face_Identity
begin

text \<open>
  The assignment of a recording's faces to identities and the re-clustering keep the identities
  consistent.
\<close>

section \<open>What the tracker and the gallery promise\<close>

lemma fold_inv: "Q b \<Longrightarrow> (\<And>x b. x \<in> set xs \<Longrightarrow> Q b \<Longrightarrow> Q (f x b)) \<Longrightarrow> Q (fold f xs b)"
  by (induction xs arbitrary: b) auto

lemma list_faces_hits: "set (list_faces q rows) \<subseteq> {f \<in> set rows. face_hit q f}"
proof -
  have "set (page l k xs) \<subseteq> set xs" for l k and xs :: "face list"
    by (auto simp: page_def dest!: in_set_takeD dest: in_set_dropD)
  then show ?thesis by (fastforce simp: list_faces_def)
qed

lemma list_faces_distinct:
  assumes "distinct (map f_id rows)"
  shows "distinct (map f_id (list_faces q rows))"
proof -
  have "distinct (map f_id (sort_key k (filter P rows)))" for k :: "face \<Rightarrow> int" and P
    using assms by (simp add: distinct_map inj_on_def)
  then show ?thesis by (simp add: list_faces_def page_def take_map [symmetric] drop_map [symmetric])
qed

lemma gal_best_key:
  assumes "mset (walk g) = mset g"
  shows "fst (gal_best fl walk g rep) = [] \<or> fst (gal_best fl walk g rep) \<in> fst ` set g"
proof -
  have "fst (fold (\<lambda>(i, es) b. fold (\<lambda>e b. let s = dot fl rep e in if s > snd b then (i, s) else b) es b) gs b) \<in> insert [] (fst ` set gs)"
    if "fst b \<in> insert [] (fst ` set gs)" for gs and b :: "string \<times> rat"
    using that
  proof (rule fold_inv)
    fix g and b :: "string \<times> rat"
    assume g: "g \<in> set gs" and b: "fst b \<in> insert [] (fst ` set gs)"
    obtain i es where gi: "g = (i, es)" by (cases g)
    have "fst (fold (\<lambda>e b. let s = dot fl rep e in if s > snd b then (i, s) else b) es b) \<in> insert [] (fst ` set gs)"
      by (rule fold_inv [where Q = "\<lambda>b. fst b \<in> insert [] (fst ` set gs)", OF b])
        (use g gi in \<open>auto simp: Let_def intro: image_eqI [of _ fst "(i, es)"]\<close>)
    then show "fst ((case g of (i, es) \<Rightarrow> fold (\<lambda>e b. let s = dot fl rep e in if s > snd b then (i, s) else b) es) b) \<in> insert [] (fst ` set gs)"
      by (simp add: gi)
  qed
  from this [of "([], -1)" "walk g"]
  show ?thesis using assms by (auto simp: gal_best_def dest: mset_eq_setD)
qed

lemma gal_add_keys: "fst ` set (gal_add i e g) = insert i (fst ` set g)"
  by (induction i e g rule: gal_add.induct) auto

lemma gallery_of_keys: "fst ` set (gallery_of fl fs) \<subseteq> f_person ` set fs - {[]}"
  unfolding gallery_of_def
  by (rule fold_inv [where Q = "\<lambda>g. fst ` set g \<subseteq> f_person ` set fs - {[]}"]) (auto simp: gal_add_keys)

lemma best_of_track: "fs \<noteq> [] \<Longrightarrow> a_best (aggregate_track fl fs) \<in> set fs"
proof -
  have "fold (\<lambda>f b. if better_face f b then f else b) gs b \<in> insert b (set gs)" for gs b
    by (induction gs arbitrary: b) auto
  from this [of fs "hd fs"] show "fs \<noteq> [] \<Longrightarrow> ?thesis" by (auto simp: aggregate_track_def Let_def)
qed

section \<open>Tracks to come\<close>

definition pend :: "string \<Rightarrow> (string \<times> face list) list \<Rightarrow> tables_pred" where
  "pend rec trs R U t \<longleftrightarrow>
     rec \<in> R \<and> distinct (map fst trs) \<and> fst ` set trs \<subseteq> U \<and> fst ` set trs \<inter> t_id ` set (tracks t) = {} \<and>
     (\<forall>tr \<in> set trs. snd tr \<noteq> []) \<and> distinct (map f_id (concat (map snd trs))) \<and>
     (\<forall>f \<in> set (concat (map snd trs)). \<exists>g \<in> set (faces t). f_id g = f_id f \<and> f_track g = [] \<and> f_recording g = rec)"

lemma pend_tables:
  "pend rec trs R U t \<Longrightarrow> pend rec trs R (insert i U) t"
  "pend rec trs R U (t\<lparr>persons := ps\<rparr>) \<longleftrightarrow> pend rec trs R U t"
  by (auto simp: pend_def)

lemma pend_faces:
  assumes "pend rec trs R U t" "\<And>f. f \<in> set (faces t) \<Longrightarrow> f_id f \<in> f_id ` set (concat (map snd trs)) \<Longrightarrow>
    f_id (g f) = f_id f \<and> f_track (g f) = f_track f \<and> f_recording (g f) = f_recording f"
  shows "pend rec trs R U (t\<lparr>faces := map g (faces t)\<rparr>)"
proof -
  have "\<exists>h \<in> set (map g (faces t)). f_id h = f_id f \<and> f_track h = [] \<and> f_recording h = rec" if f: "f \<in> set (concat (map snd trs))" for f
  proof -
    obtain h where h: "h \<in> set (faces t)" "f_id h = f_id f" "f_track h = []" "f_recording h = rec"
      using assms(1) f unfolding pend_def by blast
    then have "f_id (g h) = f_id h \<and> f_track (g h) = f_track h \<and> f_recording (g h) = f_recording h"
      using assms(2) [OF h(1)] f by auto
    then show ?thesis using h by (intro bexI [of _ "g h"]) auto
  qed
  then show ?thesis using assms(1) by (simp add: pend_def)
qed

text \<open>The new track and its faces enter together.\<close>

definition taken_face :: "string \<Rightarrow> face list \<Rightarrow> string \<Rightarrow> face \<Rightarrow> face" where
  "taken_face i fs p f = (if f_id f \<in> f_id ` set fs then f\<lparr>f_track := i, f_person := p\<rparr> else f)"

lemma assign_taken_face: "assign_track_faces (map f_id fs) i p = map (taken_face i fs p)"
  by (simp add: fun_eq_iff assign_track_faces_def taken_face_def)

lemma pend_row:
  "pend rec trs R U t \<Longrightarrow> (i, fs) \<in> set trs \<Longrightarrow> h \<in> set fs \<Longrightarrow>
   \<exists>g \<in> set (faces t). f_id g = f_id h \<and> f_track g = [] \<and> f_recording g = rec"
  unfolding pend_def by force

lemma pend_face:
  assumes "good A R U t" "pend rec ((i, fs) # trs) R U t" "f \<in> set (faces t)" "f_id f \<in> f_id ` set fs"
  shows "f_track f = []" "f_recording f = rec" "f_person f = []"
proof -
  obtain h where h: "h \<in> set fs" "f_id f = f_id h" using assms(4) by auto
  obtain g where g: "g \<in> set (faces t)" "f_id g = f_id h" "f_track g = []" "f_recording g = rec"
    using pend_row [OF assms(2) _ h(1)] by auto
  have "g = f" using same_face [OF goodD(1) [OF assms(1)]] g(1,2) assms(3) h(2) by simp
  then show t: "f_track f = []" "f_recording f = rec" using g by simp_all
  then show "f_person f = []" using goodD(7) [OF assms(1,3)] by (simp add: of_track_def)
qed

lemma good_taken:
  assumes "good A R U t" "pend rec ((i, fs) # trs) R U t" "p \<in> person_ids t" "t_id u = i" "t_recording u = rec" "t_person u = p"
  shows "good (insert p A) R U (t\<lparr>tracks := tracks t @ [u], faces := map (taken_face i fs p) (faces t)\<rparr>)"
proof (rule good_faces [OF assms(1)])
  note pf = pend_face [OF assms(1,2)]
  have i: "i \<in> U" "i \<noteq> []" "i \<notin> t_id ` set (tracks t)" "fs \<noteq> []"
    using assms(1,2) by (auto simp: pend_def good_def)
  have p: "p \<noteq> []" using good_ids(1) [OF assms(1)] assms(3) by auto
  have heads: "heads (tracks t @ [u]) = insert (i, rec, p) (heads (tracks t))" using assms(4-6) by (auto simp: heads_def)
  show "plain_map (taken_face i fs p)" by (simp add: plain_map_def taken_face_def)
  show "t_id ` set (tracks t @ [u]) \<subseteq> U" using assms(1,4) i(1) by (auto simp: good_def)
  show "distinct (map t_id (tracks t @ [u]))" using goodD(1) [OF assms(1)] assms(4) i(3) by (auto simp: keys_ok_def)
  show "\<exists>f \<in> set (faces t). f_track (taken_face i fs p f) = t_id v" if v: "v \<in> set (tracks t @ [u])" for v
  proof (cases "v = u")
    case True
    obtain h where h: "h \<in> set fs" using i(4) by (cases fs) auto
    then obtain g where "g \<in> set (faces t)" "f_id g = f_id h" using pend_row [OF assms(2) _ h] by auto
    then show ?thesis using h True assms(4) by (intro bexI [of _ g]) (auto simp: taken_face_def)
  next
    case False
    then have v: "v \<in> set (tracks t)" using v by simp
    then obtain f where f: "f \<in> set (faces t)" "f_track f = t_id v" using goodD(9) [OF assms(1)] by blast
    have "t_id v \<noteq> []" by (rule good_ids(2) [OF assms(1) v])
    then have "f_id f \<notin> f_id ` set fs" using pf(1) [OF f(1)] f(2) by auto
    then show ?thesis using f by (intro bexI [of _ f]) (auto simp: taken_face_def)
  qed
  fix f
  assume f: "f \<in> set (faces t)"
  show "of_track (tracks t @ [u]) (taken_face i fs p f) \<and> (f_person (taken_face i fs p f) = [] \<or> f_person (taken_face i fs p f) \<in> person_ids t)"
    using goodD(7,8) [OF assms(1) f] pf(2) [OF f] i(2) assms(3) by (auto simp: of_track_def heads taken_face_def)
  fix x
  assume x: "x \<in> set (persons t)" "p_id x \<notin> insert p A"
  have "p_id x \<noteq> []" using x(1) good_ids(1) [OF assms(1)] by (metis imageI person_ids_def)
  then show "(f_person (taken_face i fs p f) = p_id x \<longleftrightarrow> f_person f = p_id x) \<and> (f_person f = p_id x \<longrightarrow> f_exemplar (taken_face i fs p f) = f_exemplar f)"
    using pf(3) [OF f] x(2) by (auto simp: taken_face_def)
qed auto

lemma pend_taken:
  assumes "pend rec ((i, fs) # trs) R U t" "t_id u = i"
  shows "pend rec trs R U (t\<lparr>tracks := tracks t @ [u], faces := map (taken_face i fs p) (faces t)\<rparr>)"
proof -
  have "pend rec trs R U (t\<lparr>tracks := tracks t @ [u]\<rparr>)" using assms by (auto simp: pend_def)
  moreover have "f_id f \<notin> f_id ` set fs" if "f_id f \<in> f_id ` set (concat (map snd trs))" for f
  proof -
    have "f_id ` set fs \<inter> f_id ` set (concat (map snd trs)) = {}" using assms(1) by (simp add: pend_def)
    then show ?thesis using that by blast
  qed
  ultimately have "pend rec trs R U (t\<lparr>tracks := tracks t @ [u]\<rparr>\<lparr>faces := map (taken_face i fs p) (faces (t\<lparr>tracks := tracks t @ [u]\<rparr>))\<rparr>)"
    by (intro pend_faces) (auto simp: taken_face_def)
  then show ?thesis by simp
qed

section \<open>Assigning one track\<close>

definition assigned :: "string \<Rightarrow> (string \<times> face list) list \<Rightarrow> gallery \<Rightarrow> string \<Rightarrow> string \<Rightarrow> tables_pred" where
  "assigned rec trs gal p b R U t \<longleftrightarrow>
     pend rec trs R U t \<and> fst ` set gal \<subseteq> person_ids t \<and> p \<in> person_ids t \<and> (\<exists>f \<in> set (faces t). f_id f = b \<and> f_person f = p)"

lemma assigned_faces:
  assumes "assigned rec trs gal p b R U t"
    "\<And>f. f_id (g f) = f_id f \<and> f_track (g f) = f_track f \<and> f_recording (g f) = f_recording f \<and> f_person (g f) = f_person f"
  shows "assigned rec trs gal p b R U (t\<lparr>faces := map g (faces t)\<rparr>)"
  using assms pend_faces [of rec trs R U t g] by (auto simp: assigned_def)

lemma assigned_persons:
  "assigned rec trs gal p b R U t \<Longrightarrow> (\<And>x. p_id (h x) = p_id x) \<Longrightarrow> assigned rec trs gal p b R U (t\<lparr>persons := map h (persons t)\<rparr>)"
  by (simp add: assigned_def pend_tables person_ids_def image_image)

lemma set_exemplar_mark: "set_exemplar i b = map (mark {i} b)"
  by (simp add: fun_eq_iff set_exemplar_def mark_def)

lemma triple_set_exemplar:
  "triple (dbok (\<lambda>R U t. good {p} R U t \<and> assigned rec trs gal p b R U t)) (on_faces (set_exemplar b True))
     (\<lambda>_. dbok (\<lambda>R U t. good {p} R U t \<and> assigned rec trs gal p b R U t))"
  unfolding set_exemplar_mark
proof (rule triple_faces, intro conjI)
  fix R U t
  assume a: "good {p} R U t \<and> assigned rec trs gal p b R U t"
  show "good {p} R U (t\<lparr>faces := map (mark {b} True) (faces t)\<rparr>)"
  proof (rule good_mark [where A = "{p}"])
    show "f_person f \<in> insert [] {p}" if "f \<in> set (faces t)" "f_id f \<in> {b}" for f
      using a that same_face [of t f] goodD(1) unfolding assigned_def by (metis insertCI singletonD)
  qed (use a in auto)
  show "assigned rec trs gal p b R U (t\<lparr>faces := map (mark {b} True) (faces t)\<rparr>)"
    by (rule assigned_faces) (use a in \<open>auto simp: mark_def\<close>)
qed

lemma triple_prune:
  "triple (dbok (\<lambda>R U t. good {p} R U t \<and> assigned rec trs gal p b R U t)) (on_faces (prune_exemplars p 8))
     (\<lambda>_. dbok (\<lambda>R U t. good {p} R U t \<and> assigned rec trs gal p b R U t \<and> exemplars p (faces t) \<le> 8))"
proof (rule triple_faces, intro conjI)
  fix R U t
  assume a: "good {p} R U t \<and> assigned rec trs gal p b R U t"
  define best where "best = best_faces 8 (filter (\<lambda>f. f_person f = p \<and> f_exemplar f) (faces t))"
  let ?g = "\<lambda>f :: face. if f_person f = p \<and> f_exemplar f \<and> f_id f \<notin> f_id ` set best then f\<lparr>f_exemplar := False\<rparr> else f"
  have prune: "prune_exemplars p 8 (faces t) = map ?g (faces t)" by (simp add: prune_exemplars_def Let_def best_def)
  show "good {p} R U (t\<lparr>faces := prune_exemplars p 8 (faces t)\<rparr>)"
    unfolding prune by (rule good_faces_only [where A = "{p}"]) (use a in \<open>auto simp: plain_map_def\<close>)
  show "assigned rec trs gal p b R U (t\<lparr>faces := prune_exemplars p 8 (faces t)\<rparr>)"
    unfolding prune by (rule assigned_faces) (use a in auto)
  have "exemplars p (map ?g (faces t)) \<le> length best"
    unfolding exemplars_def
  proof (rule few_with_ids)
    have "f_id \<circ> ?g = f_id" by (simp add: fun_eq_iff)
    then have "map f_id (map ?g (faces t)) = map f_id (faces t)" by (simp only: map_map)
    then show "distinct (map f_id (map ?g (faces t)))" using goodD(1) [of "{p}" R U t] a by (simp only: keys_ok_def)
    fix h
    assume h: "h \<in> set (map ?g (faces t))" "f_person h = p \<and> f_exemplar h"
    from h(1) have "h \<in> ?g ` set (faces t)" by (simp only: list.set_map)
    then obtain f where f: "h = ?g f" by (rule imageE)
    show "f_id h \<in> f_id ` set best"
      using h(2) unfolding f by (cases "f_person f = p \<and> f_exemplar f \<and> f_id f \<notin> f_id ` set best") simp_all
  qed
  also have "\<dots> \<le> 8" using best_faces_some(2) [of 8] by (simp add: best_def)
  finally show "exemplars p (faces (t\<lparr>faces := prune_exemplars p 8 (faces t)\<rparr>)) \<le> 8" by (simp add: prune)
qed

lemma triple_take:
  assumes "t_id u = i" "t_recording u = rec" "t_person u = p" "b \<in> f_id ` set fs"
  shows "triple (dbok (\<lambda>R U t. good {p} R U t \<and> pend rec ((i, fs) # trs) R U t \<and> fst ` set gal \<subseteq> person_ids t \<and> p \<in> person_ids t))
    (add_track u)
    (\<lambda>_. dbok (\<lambda>R U t. good {p} R U (t\<lparr>faces := map (taken_face i fs p) (faces t)\<rparr>) \<and>
       assigned rec trs gal p b R U (t\<lparr>faces := map (taken_face i fs p) (faces t)\<rparr>)))"
  unfolding add_track_def
proof (rule triple_stmt)
  fix d
  let ?R = "rec_ids d" and ?U = "uuid d ` {..<drawn_ids d}" and ?t = "tbl d"
  assume a: "good {p} ?R ?U ?t \<and> pend rec ((i, fs) # trs) ?R ?U ?t \<and> fst ` set gal \<subseteq> person_ids ?t \<and> p \<in> person_ids ?t"
  obtain v where v: "create_track (rec_ids d) (now d (clk d)) u (tracks ?t) = Some (tracks ?t @ [v])"
    "t_id v = i" "t_recording v = rec" "t_person v = p"
    using a assms(1-3) by (auto simp: create_track_def pend_def)
  let ?t' = "?t\<lparr>tracks := tracks ?t @ [v], faces := map (taken_face i fs p) (faces ?t)\<rparr>"
  have "good (insert p {p}) ?R ?U ?t'" by (rule good_taken) (use a v in auto)
  moreover have "pend rec trs ?R ?U ?t'" by (rule pend_taken) (use a v in auto)
  moreover have "\<exists>f \<in> set (faces ?t'). f_id f = b \<and> f_person f = p"
  proof -
    obtain h where h: "h \<in> set fs" "b = f_id h" using assms(4) by auto
    from a have "pend rec ((i, fs) # trs) ?R ?U ?t" by blast
    from pend_row [OF this _ h(1)] h(2) obtain g where "g \<in> set (faces ?t)" "f_id g = b" by auto
    then show ?thesis using assms(4) by (intro bexI [of _ "taken_face i fs p g"]) (auto simp: taken_face_def)
  qed
  ultimately show "\<exists>x t. map_option (\<lambda>ts. ((), ?t\<lparr>tracks := ts\<rparr>)) (create_track (rec_ids d) (now d (clk d)) u (tracks ?t)) = Some (x, t) \<and>
      good {p} ?R ?U (t\<lparr>faces := map (taken_face i fs p) (faces t)\<rparr>) \<and> assigned rec trs gal p b ?R ?U (t\<lparr>faces := map (taken_face i fs p) (faces t)\<rparr>)"
    using v(1) a by (simp add: assigned_def)
qed

definition awaiting :: "string \<Rightarrow> (string \<times> face list) list \<Rightarrow> gallery \<Rightarrow> tables_pred" where
  "awaiting rec trs gal R U t \<longleftrightarrow> pend rec trs R U t \<and> fst ` set gal \<subseteq> person_ids t"

lemma grows_awaiting: "grows (awaiting rec trs gal)"
  by (auto simp: grows_def awaiting_def pend_tables person_ids_def)

text \<open>From the tables with the new track and its faces to the recount.\<close>

lemma triple_settle_assigned:
  "triple (dbok (\<lambda>R U t. good {p} R U t \<and> assigned rec trs gal p b R U t))
     (athen (on_faces (set_exemplar b True)) (athen (on_faces (prune_exemplars p exemplars_per_person))
        (abind (recount_person p) (\<lambda>_. aret (gal_add p e gal)))))
     (\<lambda>g. dbok (\<lambda>R U t. good {} R U t \<and> awaiting rec trs g R U t))"
  unfolding exemplars_per_person_def
proof (rule triple_then [OF triple_set_exemplar triple_then [OF triple_prune]])
  let ?K = "\<lambda>R U t. assigned rec trs gal p b R U t \<and> exemplars p (faces t) \<le> 8"
  have recounted: "triple (dbok (\<lambda>R U t. good {p} R U t \<and> ?K R U t)) (recount_person p)
      (\<lambda>n. dbok (\<lambda>R U t. good (insert p {p}) R U t \<and> counted p n t \<and> ?K R U t))"
    by (rule triple_recount_keeping) (auto intro: assigned_persons)
  have settled_now: "dbok (\<lambda>R U t. good {} R U t \<and> awaiting rec trs (gal_add p e gal) R U t) d"
    if "dbok (\<lambda>R U t. good (insert p {p}) R U t \<and> counted p n t \<and> ?K R U t) d" for n d
    using that
  proof (rule dbok_mono)
    fix R U t
    assume a: "good (insert p {p}) R U t \<and> counted p n t \<and> ?K R U t"
    then obtain f where f: "f \<in> set (faces t)" "f_person f = p" by (auto simp: assigned_def)
    have g: "good {p} R U t" using a by simp
    have "f \<in> set (live_faces p (faces t))" using f goodD(5) [OF g f(1)] by (simp add: live_faces_def)
    then have "n \<noteq> 0" using a by (auto simp: counted_def)
    then have "good ({p} - {p}) R U t" using a g good_settled by blast
    then show "good {} R U t \<and> awaiting rec trs (gal_add p e gal) R U t"
      using a by (simp add: awaiting_def assigned_def gal_add_keys)
  qed
  show "triple (dbok (\<lambda>R U t. good {p} R U t \<and> assigned rec trs gal p b R U t \<and> exemplars p (faces t) \<le> 8))
     (abind (recount_person p) (\<lambda>_. aret (gal_add p e gal))) (\<lambda>g. dbok (\<lambda>R U t. good {} R U t \<and> awaiting rec trs g R U t))"
    by (rule triple_bind [OF recounted triple_ret]) (rule settled_now)
qed

text \<open>The person of a track: the best match of the gallery or a new one.\<close>

lemma triple_choose:
  assumes "joined = [] \<or> joined \<in> fst ` set gal"
  shows "triple (dbok (\<lambda>R U t. good {} R U t \<and> awaiting rec trs gal R U t))
    (if joined = [] then abind draw_id (\<lambda>i. athen (add_person ((blank_person i)\<lparr>p_first := x, p_last := y\<rparr>)) (aret i)) else aret joined)
    (\<lambda>p. dbok (\<lambda>R U t. good {p} R U t \<and> awaiting rec trs gal R U t \<and> p \<in> person_ids t))"
proof (cases "joined = []")
  case True
  have "triple (dbok (\<lambda>R U t. good {} R U t \<and> awaiting rec trs gal R U t \<and> i \<in> U \<and> i \<notin> person_ids t))
      (add_person ((blank_person i)\<lparr>p_first := x, p_last := y\<rparr>))
      (\<lambda>_. dbok (\<lambda>R U t. good (insert i {}) R U t \<and> awaiting rec trs gal R U t \<and> i \<in> person_ids t))" for i
    by (rule triple_add_person) (use grows_awaiting in \<open>auto simp: grows_def blank_person_def\<close>)
  then show ?thesis using True
    by (simp, intro triple_bind [OF triple_fresh [OF grows_awaiting]] triple_then) (auto intro: triple_ret)
next
  case False
  then show ?thesis using assms by (auto intro!: triple_ret elim!: dbok_mono simp: awaiting_def intro: good_more)
qed

lemma triple_assign_one:
  assumes "mset (walk gal) = mset gal" "snd tr \<noteq> []"
  shows "triple (dbok (\<lambda>R U t. good {} R U t \<and> awaiting rec (tr # trs) gal R U t)) (assign_one fl walk threshold rec tr gal)
    (\<lambda>g. dbok (\<lambda>R U t. good {} R U t \<and> awaiting rec trs g R U t))"
proof -
  obtain i fs where tr: "tr = (i, fs)" by (cases tr)
  let ?agg = "aggregate_track fl fs"
  obtain cand sim where best: "gal_best fl walk gal (a_rep ?agg) = (cand, sim)" by (metis prod.exhaust)
  let ?joined = "if sim \<ge> threshold then cand else []"
  have joined: "?joined = [] \<or> ?joined \<in> fst ` set gal" using gal_best_key [of walk gal fl "a_rep ?agg"] assms(1) best by auto
  have b: "f_id (a_best ?agg) \<in> f_id ` set fs" using best_of_track [of fs fl] assms(2) tr by simp
  have take: "triple (dbok (\<lambda>R U t. good {p} R U t \<and> awaiting rec ((i, fs) # trs) gal R U t \<and> p \<in> person_ids t)) (add_track u)
      (\<lambda>_. dbok (\<lambda>R U t. good {p} R U (t\<lparr>faces := map (taken_face i fs p) (faces t)\<rparr>) \<and>
         assigned rec trs gal p (f_id (a_best ?agg)) R U (t\<lparr>faces := map (taken_face i fs p) (faces t)\<rparr>)))"
    if "t_id u = i" "t_recording u = rec" "t_person u = p" for u p
    by (rule triple_weaken [OF triple_take [OF that b]]) (auto simp: awaiting_def elim: dbok_mono)
  have faces: "triple (dbok (\<lambda>R U t. good {p} R U (t\<lparr>faces := map (taken_face i fs p) (faces t)\<rparr>) \<and>
         assigned rec trs gal p (f_id (a_best ?agg)) R U (t\<lparr>faces := map (taken_face i fs p) (faces t)\<rparr>)))
      (on_faces (assign_track_faces (map f_id fs) i p))
      (\<lambda>_. dbok (\<lambda>R U t. good {p} R U t \<and> assigned rec trs gal p (f_id (a_best ?agg)) R U t))" for p
    unfolding assign_taken_face by (rule triple_faces) simp
  show ?thesis
    unfolding assign_one_def tr Let_def fst_conv snd_conv best prod.case
    by (rule triple_bind [OF triple_choose [OF joined]], rule triple_then [OF take], simp_all,
        rule triple_then [OF faces triple_settle_assigned])
qed

section \<open>Assigning a recording\<close>

lemma triple_assign_all:
  assumes "\<And>g. mset (walk g) = mset g" "\<forall>tr \<in> set trs. snd tr \<noteq> []"
  shows "triple (dbok (\<lambda>R U t. good {} R U t \<and> awaiting rec trs gal R U t)) (assign_all fl walk threshold rec trs gal) (\<lambda>_. dbok (good {}))"
  using assms(2)
proof (induction trs arbitrary: gal)
  case Nil
  show ?case by (auto intro!: triple_ret elim: dbok_mono)
next
  case (Cons tr trs)
  show ?case unfolding assign_all.simps
    by (rule triple_bind [OF triple_assign_one [OF assms(1)] Cons.IH]) (use Cons.prems in auto)
qed

lemma triple_load_gallery:
  "triple (dbok (\<lambda>R U t. good {} R U t \<and> pend rec trs R U t)) (load_gallery fl)
     (\<lambda>g. dbok (\<lambda>R U t. good {} R U t \<and> awaiting rec trs g R U t))"
proof -
  let ?q = "\<lambda>t. list_faces (any_face\<lparr>ff_exemplars := True, ff_limit := 1000000\<rparr>) (faces t)"
  have keys: "fst ` set (gallery_of fl (?q t)) \<subseteq> person_ids t" if "good {} R U t" for R U t
  proof -
    have "set (?q t) \<subseteq> set (faces t)" using list_faces_hits by fastforce
    then have "f_person ` set (?q t) - {[]} \<subseteq> person_ids t" using goodD(8) [OF that] by blast
    then show ?thesis using gallery_of_keys by blast
  qed
  have "triple (\<lambda>d. \<exists>x. r = Some x \<and> dbok (\<lambda>R U t. (good {} R U t \<and> pend rec trs R U t) \<and> x = ?q t) d)
      (aret (case r of None \<Rightarrow> [] | Some fs \<Rightarrow> gallery_of fl fs)) (\<lambda>g. dbok (\<lambda>R U t. good {} R U t \<and> awaiting rec trs g R U t))" for r
    by (intro triple_ret, elim exE conjE, erule dbok_mono) (simp add: awaiting_def, use keys in blast)
  then show ?thesis unfolding load_gallery_def by (rule triple_bind [OF triple_try [OF triple_query]])
qed

definition of_recording :: "string \<Rightarrow> tables_pred" where
  "of_recording rec R U t \<longleftrightarrow> good {} R U t \<and> (\<forall>f \<in> set (faces t). f_recording f = rec \<longrightarrow> f_track f = [])"

lemma triple_tracks_of:
  assumes "\<And>cs. mset (arrange cs) = mset cs" "rec \<noteq> []" "fs \<noteq> []"
  shows "triple (dbok (\<lambda>R U t. of_recording rec R U t \<and>
      fs = filter (\<lambda>f. f_emb f \<noteq> []) (list_faces (any_face\<lparr>ff_recording := rec, ff_limit := 1000000\<rparr>) (faces t))))
    (tracks_of fl arrange fs)
    (\<lambda>trs. dbok (\<lambda>R U t. (good {} R U t \<and> pend rec trs R U t) \<and> (\<forall>tr \<in> set trs. snd tr \<noteq> [])))"
proof (rule tripleI)
  fix d
  let ?R = "rec_ids d" and ?U = "uuid d ` {..<drawn_ids d}" and ?t = "tbl d"
  assume a: "dbok (\<lambda>R U t. of_recording rec R U t \<and>
      fs = filter (\<lambda>f. f_emb f \<noteq> []) (list_faces (any_face\<lparr>ff_recording := rec, ff_limit := 1000000\<rparr>) (faces t))) d"
  then have up: "\<And>n. alive d n" and inj: "inj (uuid d)" and ne: "\<And>n. uuid d n \<noteq> []" and ok: "of_recording rec ?R ?U ?t" and good: "good {} ?R ?U ?t"
    and fs: "fs = filter (\<lambda>f. f_emb f \<noteq> []) (list_faces (any_face\<lparr>ff_recording := rec, ff_limit := 1000000\<rparr>) (faces ?t))"
    by (auto simp: dbok_def of_recording_def)
  let ?new = "\<lambda>k. uuid d (drawn_ids d + k)"
  define trs where "trs = build_tracks fl arrange default_track_params ?new fs"
  have inj': "inj ?new" by (rule injI, drule injD [OF inj]) simp
  note part = build_tracks_partition [OF assms(1) inj', where fl = fl and p = default_track_params and fs = fs, folded trs_def]
  let ?d = "d\<lparr>drawn_ids := drawn_ids d + length trs\<rparr>"
  let ?V = "uuid d ` {..<drawn_ids d + length trs}"
  have ids: "fst ` set trs \<subseteq> ?new ` {..<length trs}" by (rule part(4))
  have "?new ` {..<m} \<inter> ?U = {}" for m
  proof -
    have "uuid d (drawn_ids d + k) \<noteq> uuid d j" if "j < drawn_ids d" for j k using injD [OF inj, of "drawn_ids d + k" j] that by linarith
    then show ?thesis by blast
  qed
  then have fresh: "fst ` set trs \<inter> ?U = {}" using ids by blast
  have mem: "set fs \<subseteq> {f \<in> set (faces ?t). f_recording f = rec}"
    using list_faces_hits assms(2) unfolding fs by (fastforce simp: face_hit_def)
  have dist: "distinct (map f_id fs)"
    unfolding fs using goodD(1) [OF good] by (intro distinct_map_filter list_faces_distinct) (simp add: keys_ok_def)
  have old: "t_id ` set (tracks ?t) \<subseteq> ?U" using good by (simp add: good_def)
  have "mset (map f_id (concat (map snd trs))) = mset (map f_id fs)" using part(1) by (simp only: mset_map)
  then have "distinct (map f_id (concat (map snd trs)))" using dist mset_eq_imp_distinct_iff by blast
  moreover have "set (concat (map snd trs)) = set fs" using part(1) by (metis mset_eq_setD)
  moreover have "fst ` set trs \<subseteq> ?V" using ids by auto
  moreover have "fst ` set trs \<inter> t_id ` set (tracks ?t) = {}" using fresh old by blast
  moreover have "rec \<in> ?R" using mem assms(3) goodD(6) [OF good] by (cases fs) auto
  moreover have "good {} ?R ?V ?t"
  proof (rule good_wider [OF good])
    show "[] \<notin> ?V" using ne by (metis imageE)
  qed auto
  moreover have some: "\<forall>tr \<in> set trs. snd tr \<noteq> []" using part(2) unfolding appearance_def by blast
  moreover have "\<forall>f \<in> set fs. \<exists>g \<in> set (faces ?t). f_id g = f_id f \<and> f_track g = [] \<and> f_recording g = rec"
    using mem ok unfolding of_recording_def by blast
  ultimately have "good {} ?R ?V ?t \<and> pend rec trs ?R ?V ?t" using part(3) unfolding pend_def by simp
  moreover have "tracks_of fl arrange fs d = (Some trs, ?d)" by (simp add: tracks_of_def trs_def Let_def)
  moreover have "All (alive d)" using up by blast
  ultimately show "\<exists>x d'. tracks_of fl arrange fs d = (Some x, d') \<and>
      dbok (\<lambda>R U t. (good {} R U t \<and> pend rec x R U t) \<and> (\<forall>tr \<in> set x. snd tr \<noteq> [])) d'"
    using up inj ne some by (simp add: dbok_def rec_ids_def)
qed

lemma triple_assign_recording:
  assumes "\<And>cs. mset (arrange cs) = mset cs" "\<And>g. mset (walk g) = mset g" "rec \<noteq> []"
  shows "triple (dbok (good {})) (assign_recording fl arrange walk threshold rec) (\<lambda>_. dbok (good {}))"
  unfolding assign_recording_def
proof (rule triple_bind [OF triple_query])
  fix n
  let ?q = "\<lambda>t. list_faces (any_face\<lparr>ff_recording := rec, ff_limit := 1000000\<rparr>) (faces t)"
  have none: "of_recording rec R U t" if "good {} R U t" "\<not> count_tracks_by_recording rec (tracks t) > 0" for R U t
  proof -
    have "t_recording u \<noteq> rec" if "u \<in> set (tracks t)" for u
      using \<open>\<not> _ > 0\<close> that by (auto simp: count_tracks_by_recording_def filter_empty_conv)
    moreover have "f_track f = [] \<or> (\<exists>u \<in> set (tracks t). t_recording u = f_recording f)" if "f \<in> set (faces t)" for f
      using goodD(7) [OF \<open>good {} R U t\<close> that] by (auto simp: of_track_def heads_def split: if_splits)
    ultimately show ?thesis using that(1) unfolding of_recording_def by blast
  qed
  have rest: "triple (dbok (of_recording rec)) (abind (query ?q) (\<lambda>fs. let emb = filter (\<lambda>f. f_emb f \<noteq> []) fs
      in if emb = [] then aret () else abind (tracks_of fl arrange emb)
        (\<lambda>trs. abind (load_gallery fl) (assign_all fl walk threshold rec trs)))) (\<lambda>_. dbok (good {}))"
  proof (rule triple_bind [OF triple_query], unfold Let_def)
    fix fs :: "face list"
    let ?emb = "filter (\<lambda>f. f_emb f \<noteq> []) fs"
    have all: "triple (dbok (\<lambda>R U t. (good {} R U t \<and> pend rec trs R U t) \<and> (\<forall>tr \<in> set trs. snd tr \<noteq> [])))
        (abind (load_gallery fl) (assign_all fl walk threshold rec trs)) (\<lambda>_. dbok (good {}))" for trs
    proof (rule triple_fact [where b = "\<forall>tr \<in> set trs. snd tr \<noteq> []"])
      assume "\<forall>tr \<in> set trs. snd tr \<noteq> []"
      from triple_bind [OF triple_load_gallery triple_assign_all [OF assms(2) this]]
      show "triple (dbok (\<lambda>R U t. (good {} R U t \<and> pend rec trs R U t) \<and> (\<forall>tr \<in> set trs. snd tr \<noteq> [])))
        (abind (load_gallery fl) (assign_all fl walk threshold rec trs)) (\<lambda>_. dbok (good {}))"
        by (rule triple_weaken) (auto elim: dbok_mono)
    qed blast
    show "triple (dbok (\<lambda>R U t. of_recording rec R U t \<and> fs = ?q t)) (if ?emb = [] then aret ()
        else abind (tracks_of fl arrange ?emb) (\<lambda>trs. abind (load_gallery fl) (assign_all fl walk threshold rec trs))) (\<lambda>_. dbok (good {}))"
    proof (cases "?emb = []")
      case True
      then show ?thesis by (auto intro!: triple_ret elim!: dbok_mono simp: of_recording_def)
    next
      case False
      have "triple (dbok (\<lambda>R U t. of_recording rec R U t \<and> fs = ?q t)) (tracks_of fl arrange ?emb)
        (\<lambda>trs. dbok (\<lambda>R U t. (good {} R U t \<and> pend rec trs R U t) \<and> (\<forall>tr \<in> set trs. snd tr \<noteq> [])))"
        by (rule triple_weaken [OF triple_tracks_of [OF assms(1,3) False]]) (auto elim: dbok_mono)
      from triple_bind [OF this all] False show ?thesis by simp
    qed
  qed
  show "triple (dbok (\<lambda>R U t. good {} R U t \<and> n = count_tracks_by_recording rec (tracks t)))
     (if n > 0 then aret () else abind (query ?q) (\<lambda>fs. let emb = filter (\<lambda>f. f_emb f \<noteq> []) fs
      in if emb = [] then aret () else abind (tracks_of fl arrange emb)
        (\<lambda>trs. abind (load_gallery fl) (assign_all fl walk threshold rec trs)))) (\<lambda>_. dbok (good {}))"
  proof (cases "n > 0")
    case False
    then show ?thesis by (simp, intro triple_weaken [OF rest]) (auto elim!: dbok_mono intro: none)
  qed (auto intro!: triple_ret elim: dbok_mono)
qed

end
