(* ===== verification/Face_Consistency.thy ===== *)
theory Face_Consistency
  imports Face_Assigning
begin

text \<open>
  Re-clustering keeps the identities consistent and, with it, any sequence of operations.
\<close>

section \<open>Labels\<close>

definition edges_in :: "nat \<Rightarrow> graph \<Rightarrow> bool" where
  "edges_in n adj \<longleftrightarrow> (\<forall>i. \<forall>e \<in> set (adj i). fst e < n)"

lemma edges_in_add: "edges_in n adj \<Longrightarrow> a < n \<Longrightarrow> b < n \<Longrightarrow> edges_in n (add_edge a b w adj)"
  by (auto simp: edges_in_def add_edge_def Let_def)

lemma index_map_bound: "index_map ts i = Some k \<Longrightarrow> k < length ts"
proof -
  have "\<forall>k. (fold (\<lambda>(i, t) m. m(t_id t \<mapsto> i)) (enumerate 0 ts) Map.empty) i = Some k \<longrightarrow> k < length ts"
    by (rule fold_inv [where Q = "\<lambda>m. \<forall>k. m i = Some k \<longrightarrow> k < length ts"]) (auto simp: in_set_enumerate_eq split: if_splits)
  then show "index_map ts i = Some k \<Longrightarrow> ?thesis" by (simp add: index_map_def)
qed

definition pairs_in :: "nat \<Rightarrow> (nat \<times> nat) list \<times> (nat \<times> nat) list \<Rightarrow> bool" where
  "pairs_in n cm \<longleftrightarrow> (\<forall>p \<in> set (snd cm). fst p < n \<and> snd p < n)"

lemma constraints_in: "pairs_in (length ts) (fold (add_constraint (index_map ts)) ls ([], []))"
  by (rule fold_inv) (auto simp: pairs_in_def add_constraint_def Let_def dest!: index_map_bound split: option.splits link_kind.splits)

lemma similarity_graph_in:
  assumes "pairs_in (length reps) cm"
  shows "edges_in (length reps) (similarity_graph fl threshold cm reps)"
proof -
  let ?n = "length reps"
  let ?pairs = "concat (map (\<lambda>i. map (Pair i) [Suc i..<?n]) [0..<?n])"
  define near where "near = fold (\<lambda>(i, j) adj. if (i, j) \<in> set (fst cm) then adj
      else let c = dot fl (reps ! i) (reps ! j) in if c < threshold then adj else add_edge i j c adj) ?pairs (\<lambda>_. [])"
  have "edges_in ?n near"
    unfolding near_def by (rule fold_inv [where Q = "edges_in ?n"]) (auto simp: Let_def intro!: edges_in_add, simp add: edges_in_def)
  then have "edges_in ?n (fold (\<lambda>(a, b). add_edge a b 1) (snd cm) near)"
    by (rule fold_inv [where Q = "edges_in ?n"]) (use assms in \<open>auto simp: pairs_in_def intro!: edges_in_add\<close>)
  then show ?thesis by (simp add: similarity_graph_def near_def)
qed

lemma best_label_some: "best_label es labels own \<in> insert own ((\<lambda>e. labels ! fst e) ` set es)"
proof -
  have "fst (fold (\<lambda>k b. if label_score es labels k > snd b then (k, label_score es labels k) else b)
      (stable_sort str_less (remdups (map (\<lambda>e. labels ! fst e) es))) (own, label_score es labels own))
      \<in> insert own ((\<lambda>e. labels ! fst e) ` set es)"
    by (rule fold_inv) (auto simp: image_iff)
  then show ?thesis by (simp add: best_label_def)
qed

lemma whisper_node_labels:
  assumes "edges_in n adj" "length (fst st) = n" "set (fst st) \<subseteq> L"
  shows "length (fst (whisper_node adj anchored i st)) = n \<and> set (fst (whisper_node adj anchored i st)) \<subseteq> L"
proof (cases "anchored ! i \<or> adj i = [] \<or> best_label (adj i) (fst st) (fst st ! i) = fst st ! i")
  case False
  then obtain e where "e \<in> set (adj i)" "best_label (adj i) (fst st) (fst st ! i) = fst st ! fst e"
    using best_label_some [of "adj i" "fst st" "fst st ! i"] by auto
  then have "best_label (adj i) (fst st) (fst st ! i) \<in> L" using assms by (auto simp: edges_in_def)
  then show ?thesis using False assms set_update_subset_insert [of "fst st" i] by (auto simp: whisper_node_def Let_def)
qed (use assms in \<open>auto simp: whisper_node_def Let_def\<close>)

lemma whispers_labels:
  assumes "edges_in n adj" "length labels = n" "set labels \<subseteq> L"
  shows "length (whispers adj anchored orders k labels) = n \<and> set (whispers adj anchored orders k labels) \<subseteq> L"
  using assms(2,3)
proof (induction k arbitrary: labels)
  case (Suc k)
  obtain l1 changed where f: "fold (whisper_node adj anchored) (orders k) (labels, False) = (l1, changed)" by (metis prod.exhaust)
  have "length (fst (fold (whisper_node adj anchored) (orders k) (labels, False))) = n \<and>
      set (fst (fold (whisper_node adj anchored) (orders k) (labels, False))) \<subseteq> L"
    by (rule fold_inv) (use Suc.prems whisper_node_labels [OF assms(1)] in auto)
  then show ?case using Suc.IH f by simp
qed simp

lemma final_labels_some:
  "length (final_labels env threshold ls ts) = length ts \<and> set (final_labels env threshold ls ts) \<subseteq> first_label ` set ts"
proof -
  have "pairs_in (length (map (\<lambda>t. normalize (ce_floats env) (t_emb t)) ts)) (fold (add_constraint (index_map ts)) ls ([], []))"
    using constraints_in by simp
  from similarity_graph_in [OF this] show ?thesis
    unfolding final_labels_def by (intro whispers_labels) auto
qed

section \<open>Groups\<close>

text \<open>What the groups promise: their members are tracks of the snapshot, each once.\<close>

lemma groups_members:
  assumes "length labels = length ts" "(l, ms) \<in> set (groups_of ts labels)"
  shows "l \<in> set labels" "ms \<noteq> []" "set ms \<subseteq> set ts"
proof -
  define free where "free = filter (\<lambda>(t, l). \<not> is_anchor t) (zip ts labels)"
  have g: "l \<in> snd ` set free" "ms = map fst (filter (\<lambda>tl. snd tl = l) free)"
    using assms(2) by (auto simp: groups_of_def Let_def free_def)
  have free: "set free \<subseteq> set ts \<times> set labels" by (auto simp: free_def dest: set_zip_leftD set_zip_rightD)
  then show "l \<in> set labels" using g(1) by auto
  show "ms \<noteq> []" using g by (auto simp: filter_empty_conv)
  show "set ms \<subseteq> set ts" using g(2) free by auto
qed

lemma groups_distinct:
  assumes "distinct (map t_id ts)" "length labels = length ts"
  shows "distinct (map t_id (concat (map snd (groups_of ts labels))))"
proof -
  define free where "free = filter (\<lambda>(t, l). \<not> is_anchor t) (zip ts labels)"
  have d: "distinct (map (t_id \<circ> fst) free)"
    unfolding free_def using assms by (intro distinct_map_filter) (simp add: map_map [symmetric] del: map_map)
  have split: "distinct (map h (concat (map (\<lambda>l. map fst (filter (\<lambda>tl. snd tl = l) xs)) (remdups ls))))"
    if "distinct (map (h \<circ> fst) xs)" for h :: "face_track \<Rightarrow> string" and xs :: "(face_track \<times> string) list" and ls
  proof -
    have part: "distinct (map h (concat (map (\<lambda>l. map fst (filter (\<lambda>tl. snd tl = l) xs)) ls)))" if "distinct ls" for ls
      using that
    proof (induction ls)
      case (Cons l ls)
      have "distinct (map (h \<circ> fst) (filter (\<lambda>tl. snd tl = l) xs))" by (rule distinct_map_filter) (rule \<open>distinct (map (h \<circ> fst) xs)\<close>)
      moreover have "h (fst x) \<noteq> h (fst y)" if "x \<in> set xs" "y \<in> set xs" "snd x \<noteq> snd y" for x y
        using that inj_onD [of "h \<circ> fst" "set xs" x y] \<open>distinct (map (h \<circ> fst) xs)\<close> by (auto simp: distinct_map)
      ultimately show ?case using Cons by (fastforce simp: comp_def)
    qed simp
    show ?thesis by (rule part) simp
  qed
  show ?thesis
    using split [OF d, of "map snd free"] by (simp add: groups_of_def Let_def free_def [symmetric] comp_def)
qed

section \<open>Moving the groups\<close>

definition known :: "face_track \<Rightarrow> face_tables \<Rightarrow> bool" where
  "known m t \<longleftrightarrow> t_id m \<noteq> [] \<and> owners (t_id m) t = {t_person m} \<and> (t_person m = [] \<or> t_person m \<in> person_ids t)"

lemma owners_moved: "i \<noteq> j \<Longrightarrow> owners j (moved i q t) = owners j t"
  by (auto simp: owners_def moved_def update_track_person_def image_iff split: if_splits)

lemma known_moved: "known m t \<Longrightarrow> t_id m \<noteq> i \<Longrightarrow> known m (moved i q t)"
  using owners_moved [of i "t_id m" q t] by (simp add: known_def) (simp add: moved_def person_ids_def)

lemma owners_faces [simp]: "owners i (t\<lparr>faces := fs\<rparr>) = owners i t" "owners i (t\<lparr>persons := ps\<rparr>) = owners i t"
  by (simp_all add: owners_def)

lemma known_faces [simp]: "known m (t\<lparr>faces := fs\<rparr>) = known m t"
  by (simp add: known_def)

definition moving :: "string set \<Rightarrow> face_track list \<Rightarrow> string set \<Rightarrow> string list \<times> int \<Rightarrow> tables_pred" where
  "moving B ms T acc R U t \<longleftrightarrow>
     good (B \<union> set (fst acc)) R U t \<and> distinct (map t_id ms) \<and> (\<forall>m \<in> set ms. known m t) \<and> T \<subseteq> person_ids t"

lemma triple_move_members:
  assumes "B \<subseteq> {target}" "target \<in> T"
  shows "triple (dbok (moving B (ms @ rest) T acc)) (move_members target ms acc)
    (\<lambda>acc'. dbok (\<lambda>R U t. moving B rest T acc' R U t \<and> ((\<exists>m \<in> set ms. t_person m \<noteq> target) \<or> target \<in> set (fst acc) \<longrightarrow> target \<in> set (fst acc'))))"
proof (induction ms arbitrary: acc)
  case Nil
  show ?case by (auto intro!: triple_ret elim: dbok_mono)
next
  case (Cons m ms)
  show ?case
  proof (cases "t_person m = target")
    case True
    have "triple (dbok (moving B ((m # ms) @ rest) T acc)) (move_members target ms acc)
      (\<lambda>acc'. dbok (\<lambda>R U t. moving B rest T acc' R U t \<and> ((\<exists>m \<in> set ms. t_person m \<noteq> target) \<or> target \<in> set (fst acc) \<longrightarrow> target \<in> set (fst acc'))))"
      by (rule triple_weaken [OF Cons.IH], erule dbok_mono) (auto simp: moving_def)
    then show ?thesis using True by simp
  next
    case False
    let ?acc = "(List.insert target (List.insert (t_person m) (fst acc)), snd acc + 1)"
    let ?K = "\<lambda>t. (\<forall>m \<in> set (ms @ rest). known m t) \<and> T \<subseteq> person_ids t \<and> distinct (map t_id (ms @ rest)) \<and> (\<forall>x \<in> set (ms @ rest). t_id x \<noteq> t_id m)"
    let ?A = "B \<union> set (fst ?acc)"
    have K: "?K (moved (t_id m) target t)" if "?K t" for t
      using that by (auto intro!: known_moved) (auto simp: moved_def person_ids_def)
    have pre: "dbok (\<lambda>R U t. good ?A R U t \<and> target \<in> person_ids t \<and> target \<in> ?A \<and> t_id m \<noteq> [] \<and> owners (t_id m) t \<subseteq> ?A \<and> ?K t) d"
      if "dbok (moving B ((m # ms) @ rest) T acc) d" for d
    proof (rule dbok_mono [OF that])
      fix R U t
      assume a: "moving B ((m # ms) @ rest) T acc R U t"
      have "\<forall>x \<in> set (ms @ rest). t_id x \<noteq> t_id m" using a unfolding moving_def by (auto simp: image_iff)
      moreover have "good ?A R U t" using a unfolding moving_def by (auto intro: good_more)
      moreover have "t_id m \<noteq> []" "owners (t_id m) t \<subseteq> ?A" "target \<in> person_ids t"
        using a assms(2) by (auto simp: moving_def known_def)
      moreover have "(\<forall>m \<in> set (ms @ rest). known m t) \<and> T \<subseteq> person_ids t \<and> distinct (map t_id (ms @ rest))"
        using a by (simp add: moving_def)
      ultimately show "good ?A R U t \<and> target \<in> person_ids t \<and> target \<in> ?A \<and> t_id m \<noteq> [] \<and> owners (t_id m) t \<subseteq> ?A \<and> ?K t"
        by simp
    qed
    have mid: "triple (dbok (\<lambda>R U t. good ?A R U t \<and> target \<in> person_ids t \<and> ?K t)) (move_members target ms ?acc)
      (\<lambda>acc'. dbok (\<lambda>R U t. moving B rest T acc' R U t \<and> ((\<exists>m \<in> set (m # ms). t_person m \<noteq> target) \<or> target \<in> set (fst acc) \<longrightarrow> target \<in> set (fst acc'))))"
      by (rule triple_weaken [OF Cons.IH [of ?acc]]) (auto simp: moving_def elim!: dbok_mono)
    have tracks: "triple (dbok (moving B ((m # ms) @ rest) T acc)) (on_tracks (update_track_person (t_id m) target))
      (\<lambda>_. dbok (\<lambda>R U t. good ?A R U (t\<lparr>faces := set_person_by_track (t_id m) target (faces t)\<rparr>) \<and> target \<in> person_ids t \<and>
         ?K (t\<lparr>faces := set_person_by_track (t_id m) target (faces t)\<rparr>)))"
      by (rule triple_weaken [OF triple_moving [of ?K "t_id m" target ?A, OF K] pre])
    have step: "move_members target (m # ms) acc =
      athen (on_tracks (update_track_person (t_id m) target)) (athen (on_faces (set_person_by_track (t_id m) target)) (move_members target ms ?acc))"
      using False by simp
    show ?thesis unfolding step by (rule triple_then [OF tracks triple_then [OF triple_moving_faces mid]])
  qed
qed

lemma triple_ex:
  assumes "\<And>b. triple (dbok (P b)) m Q"
  shows "triple (dbok (\<lambda>R U t. \<exists>b. P b R U t)) m Q"
proof (rule tripleI)
  fix d
  assume "dbok (\<lambda>R U t. \<exists>b. P b R U t) d"
  then obtain b where "dbok (P b) d" by (auto simp: dbok_def)
  then show "\<exists>x d'. m d = (Some x, d') \<and> Q x d'" by (rule tripleD [OF assms])
qed

lemma heaviest_some: "heaviest ms = [] \<or> (\<exists>m \<in> set ms. t_person m = heaviest ms \<and> heaviest ms \<noteq> [])"
proof -
  have "fst (fold (\<lambda>k b. if person_weight ms k > snd b then (k, person_weight ms k) else b)
      (stable_sort str_less (remdups (filter (\<lambda>p. p \<noteq> []) (map t_person ms)))) ([], -1)) \<in> insert [] (t_person ` set ms - {[]})"
    by (rule fold_inv [where Q = "\<lambda>b. fst b \<in> insert [] (t_person ` set ms - {[]})"]) auto
  then show ?thesis by (auto simp: heaviest_def)
qed

text \<open>The target of a group: an existing person, or a new one that no member has.\<close>

definition aimed :: "face_track list \<Rightarrow> face_track list \<Rightarrow> string set \<Rightarrow> string list \<times> int \<Rightarrow> string \<Rightarrow> string set \<Rightarrow> tables_pred" where
  "aimed ms rest T acc target B R U t \<longleftrightarrow>
     B \<subseteq> {target} \<and> moving B (ms @ rest) (insert target T) acc R U t \<and> (B \<noteq> {} \<longrightarrow> (\<exists>m \<in> set ms. t_person m \<noteq> target))"

lemma aimed_known:
  "moving {} (ms @ rest) T acc R U t \<Longrightarrow> target \<in> person_ids t \<Longrightarrow> aimed ms rest T acc target {} R U t"
  by (auto simp: aimed_def moving_def)

lemma triple_new_target:
  assumes "ms \<noteq> []"
  shows "triple (dbok (moving {} (ms @ rest) T acc)) (abind draw_id (\<lambda>i. athen (adrop (add_person (blank_person i))) (aret i)))
    (\<lambda>target. dbok (\<lambda>R U t. \<exists>B. aimed ms rest T acc target B R U t))"
proof -
  let ?K = "\<lambda>R U t. distinct (map t_id (ms @ rest)) \<and> (\<forall>m \<in> set (ms @ rest). known m t) \<and> T \<subseteq> person_ids t"
  let ?L = "\<lambda>i R U t. ?K R U t \<and> (\<forall>m \<in> set ms. t_person m \<noteq> i)"
  let ?A = "set (fst acc)"
  have ids: "person_ids t \<subseteq> person_ids (t\<lparr>persons := persons t @ [x]\<rparr>)" for t x by (auto simp: person_ids_def)
  then have more: "?K R U t \<Longrightarrow> ?K R U (t\<lparr>persons := persons t @ [x]\<rparr>)" for R U t x
    by (fastforce simp: known_def)
  have drawn: "triple (dbok (moving {} (ms @ rest) T acc)) draw_id
      (\<lambda>i. dbok (\<lambda>R U t. good ?A R U t \<and> ?L i R U t \<and> i \<in> U \<and> i \<notin> person_ids t))"
  proof (rule triple_weaken [OF triple_fresh [of ?K ?A]])
    show "grows ?K" unfolding grows_def using more by blast
    show "dbok (\<lambda>R U t. good ?A R U t \<and> ?K R U t) d" if "dbok (moving {} (ms @ rest) T acc) d" for d
      by (rule dbok_mono [OF that]) (simp add: moving_def)
    show "dbok (\<lambda>R U t. good ?A R U t \<and> ?L i R U t \<and> i \<in> U \<and> i \<notin> person_ids t) d"
      if "dbok (\<lambda>R U t. good ?A R U t \<and> ?K R U t \<and> i \<in> U \<and> i \<notin> person_ids t) d" for i d
    proof (rule dbok_mono [OF that])
      fix R U t
      assume a: "good ?A R U t \<and> ?K R U t \<and> i \<in> U \<and> i \<notin> person_ids t"
      then have "i \<noteq> []" by (auto simp: good_def)
      moreover have "\<forall>m \<in> set ms. known m t" using a by simp
      ultimately have "\<forall>m \<in> set ms. t_person m \<noteq> i" using a unfolding known_def by blast
      then show "good ?A R U t \<and> ?L i R U t \<and> i \<in> U \<and> i \<notin> person_ids t" using a by blast
    qed
  qed
  have made: "triple (dbok (\<lambda>R U t. good ?A R U t \<and> ?L i R U t \<and> i \<in> U \<and> i \<notin> person_ids t)) (add_person (blank_person i))
      (\<lambda>_. dbok (\<lambda>R U t. good (insert i ?A) R U t \<and> ?L i R U t \<and> i \<in> person_ids t))" for i
  proof (rule triple_add_person)
    show "?L i R U (t\<lparr>persons := persons t @ [x]\<rparr>)" if "?L i R U t" for R U t x using that more by blast
  qed (simp add: blank_person_def)
  have "aimed ms rest T acc i {i} R U t" if "good (insert i ?A) R U t \<and> ?L i R U t \<and> i \<in> person_ids t" for i R U t
    using that assms by (cases ms) (auto simp: aimed_def moving_def)
  then have last: "triple (dbok (\<lambda>R U t. good (insert i ?A) R U t \<and> ?L i R U t \<and> i \<in> person_ids t)) (aret i)
      (\<lambda>target. dbok (\<lambda>R U t. \<exists>B. aimed ms rest T acc target B R U t))" for i
    by (intro triple_ret, elim dbok_mono) (intro exI [of _ "{i}"], simp)
  show ?thesis by (rule triple_bind [OF drawn triple_then [OF triple_drop [OF made] last]])
qed

lemma triple_target:
  assumes "ms \<noteq> []" "has_prefix l ''P:'' \<Longrightarrow> drop 2 l \<in> T"
  shows "triple (dbok (moving {} (ms @ rest) T acc)) (group_target l ms)
    (\<lambda>target. dbok (\<lambda>R U t. \<exists>B. aimed ms rest T acc target B R U t))"
proof -
  have exists: "triple (dbok (moving {} (ms @ rest) T acc)) (aret target) (\<lambda>target. dbok (\<lambda>R U t. \<exists>B. aimed ms rest T acc target B R U t))"
    if "\<And>R U t. moving {} (ms @ rest) T acc R U t \<Longrightarrow> target \<in> person_ids t" for target
    by (rule triple_ret) (use that aimed_known in \<open>blast intro: dbok_mono\<close>)
  show ?thesis
  proof (cases "has_prefix l ''P:''")
    case True
    have "drop 2 l \<in> person_ids t" if "moving {} (ms @ rest) T acc R U t" for R U t
      using that assms(2) [OF True] by (auto simp: moving_def)
    then show ?thesis using True exists by (simp add: group_target_def)
  next
    case False
    have "heaviest ms \<in> person_ids t" if h: "heaviest ms \<noteq> []" and t: "moving {} (ms @ rest) T acc R U t" for R U t
    proof -
      obtain m where m: "m \<in> set ms" "t_person m = heaviest ms" using heaviest_some [of ms] h by blast
      then have "known m t" using t by (simp add: moving_def)
      then show ?thesis using m(2) h by (simp add: known_def)
    qed
    then show ?thesis using False exists triple_new_target [OF assms(1)] by (simp add: group_target_def canonical_person_def)
  qed
qed

lemma triple_move_groups:
  assumes "\<forall>(l, ms) \<in> set gs. ms \<noteq> [] \<and> (has_prefix l ''P:'' \<longrightarrow> drop 2 l \<in> T)"
  shows "triple (dbok (moving {} (concat (map snd gs)) T acc)) (move_groups gs acc) (\<lambda>acc'. dbok (good (set (fst acc'))))"
  using assms
proof (induction gs arbitrary: acc)
  case Nil
  show ?case by (auto intro!: triple_ret elim!: dbok_mono simp: moving_def)
next
  case (Cons g gs)
  obtain l ms where g: "g = (l, ms)" by (cases g)
  let ?rest = "concat (map snd gs)"
  have target: "triple (dbok (moving {} (ms @ ?rest) T acc)) (group_target l ms)
      (\<lambda>target. dbok (\<lambda>R U t. \<exists>B. aimed ms ?rest T acc target B R U t))"
    by (rule triple_target) (use Cons.prems g in auto)
  have move: "triple (dbok (\<lambda>R U t. \<exists>B. aimed ms ?rest T acc target B R U t)) (move_members target ms acc)
      (\<lambda>acc'. dbok (moving {} ?rest T acc'))" for target
  proof (rule triple_ex)
    fix B
    show "triple (dbok (aimed ms ?rest T acc target B)) (move_members target ms acc) (\<lambda>acc'. dbok (moving {} ?rest T acc'))"
    proof (cases "B \<subseteq> {target} \<and> (B \<noteq> {} \<longrightarrow> (\<exists>m \<in> set ms. t_person m \<noteq> target))")
      case True
      have "triple (dbok (moving B (ms @ ?rest) (insert target T) acc)) (move_members target ms acc)
        (\<lambda>acc'. dbok (\<lambda>R U t. moving B ?rest (insert target T) acc' R U t \<and>
           ((\<exists>m \<in> set ms. t_person m \<noteq> target) \<or> target \<in> set (fst acc) \<longrightarrow> target \<in> set (fst acc'))))"
        by (rule triple_move_members) (use True in auto)
      then show ?thesis
      proof (rule triple_weaken)
        show "dbok (moving B (ms @ ?rest) (insert target T) acc) d" if "dbok (aimed ms ?rest T acc target B) d" for d
          by (rule dbok_mono [OF that]) (simp add: aimed_def)
        fix acc' d
        assume "dbok (\<lambda>R U t. moving B ?rest (insert target T) acc' R U t \<and>
           ((\<exists>m \<in> set ms. t_person m \<noteq> target) \<or> target \<in> set (fst acc) \<longrightarrow> target \<in> set (fst acc'))) d"
        then show "dbok (moving {} ?rest T acc') d"
        proof (rule dbok_mono)
          fix R U t
          assume m: "moving B ?rest (insert target T) acc' R U t \<and>
           ((\<exists>m \<in> set ms. t_person m \<noteq> target) \<or> target \<in> set (fst acc) \<longrightarrow> target \<in> set (fst acc'))"
          then have "B \<union> set (fst acc') = {} \<union> set (fst acc')" using True by blast
          then show "moving {} ?rest T acc' R U t" using m by (simp add: moving_def)
        qed
      qed
    next
      case False
      show ?thesis
      proof (rule triple_fact [where b = False])
        show False if "aimed ms ?rest T acc target B R U t" for R U t using that False unfolding aimed_def by blast
      qed simp
    qed
  qed
  have rest: "triple (dbok (moving {} ?rest T acc')) (move_groups gs acc') (\<lambda>acc'. dbok (good (set (fst acc'))))" for acc'
    by (rule Cons.IH) (use Cons.prems in auto)
  show ?case
    using triple_bind [OF target triple_bind [OF move rest]] by (simp add: g)
qed

lemma triple_settle_persons: "triple (dbok (good A)) (settle_persons ps n) (\<lambda>_. dbok (good (A - set ps)))"
proof (induction ps arbitrary: A n)
  case (Cons p ps)
  have rest: "triple (dbok (good (A - {p}))) (settle_persons ps k) (\<lambda>_. dbok (good (A - set (p # ps))))" for k
  proof -
    have "A - {p} - set ps = A - set (p # ps)" by auto
    then show ?thesis using Cons.IH [of "A - {p}" k] by (simp only:)
  qed
  show ?case
  proof (cases "p = []")
    case True
    have "triple (dbok (good A)) (settle_persons ps n) (\<lambda>_. dbok (good (A - set (p # ps))))"
      by (rule triple_weaken [OF rest], erule dbok_mono) (use True good_ids(1) good_drop_absent in blast)+
    then show ?thesis using True by simp
  next
    case False
    have step: "triple (dbok (\<lambda>R U t. good (insert p A) R U t \<and> counted p k t))
       (if k = 0 then abind (atry (on_persons (\<lambda>_. delete_person p))) (\<lambda>r. settle_persons ps (if r = None then n else n + 1))
        else athen (rebuild_person_exemplars p 8) (settle_persons ps n)) (\<lambda>_. dbok (good (A - set (p # ps))))" for k
    proof (cases "k = 0")
      case True
      have "triple (dbok (\<lambda>R U t. good (insert p A) R U t \<and> counted p 0 t)) (on_persons (\<lambda>_. delete_person p)) (\<lambda>_. dbok (good (A - {p})))"
        using triple_delete [of "insert p A" p] by simp
      then have "triple (dbok (\<lambda>R U t. good (insert p A) R U t \<and> counted p 0 t)) (atry (on_persons (\<lambda>_. delete_person p))) (\<lambda>_. dbok (good (A - {p})))"
        by (rule triple_weaken [OF triple_try]) auto
      then show ?thesis using True triple_bind [OF _ rest] by simp
    next
      case k: False
      have "triple (dbok (\<lambda>R U t. good (insert p A) R U t \<and> counted p k t)) (rebuild_person_exemplars p 8) (\<lambda>_. dbok (good (A - {p})))"
        by (rule triple_weaken [OF triple_rebuild [of "insert p A" p k]]) (use k in \<open>auto elim: dbok_mono\<close>)
      then show ?thesis using k triple_then [OF _ rest] by simp
    qed
    show ?thesis using False triple_bind [OF triple_recount step] by (simp add: exemplars_per_person_def cong: if_cong)
  qed
qed (auto intro: triple_ret)

section \<open>Re-clustering\<close>

definition fair_cluster :: "cluster_env \<Rightarrow> bool" where
  "fair_cluster env \<longleftrightarrow> (\<forall>gs. mset (ce_groups env gs) = mset gs) \<and> (\<forall>ps. mset (ce_persons env ps) = mset ps)"

lemma list_tracks_some: "set (list_tracks q rows) \<subseteq> set rows" "distinct (map t_id rows) \<Longrightarrow> distinct (map t_id (list_tracks q rows))"
proof -
  have "set (page l k xs) \<subseteq> set xs" for l k and xs :: "face_track list"
    by (auto simp: page_def dest!: in_set_takeD dest: in_set_dropD)
  then show "set (list_tracks q rows) \<subseteq> set rows" by (fastforce simp: list_tracks_def)
  have "distinct (map t_id (sort_key k (filter P rows)))" if "distinct (map t_id rows)" for k :: "face_track \<Rightarrow> int" and P
    using that by (simp add: distinct_map inj_on_def)
  then show "distinct (map t_id rows) \<Longrightarrow> distinct (map t_id (list_tracks q rows))"
    by (simp add: list_tracks_def page_def take_map [symmetric] drop_map [symmetric])
qed

lemma anchor_label: "has_prefix (first_label u) ''P:'' \<Longrightarrow> is_anchor u \<and> drop 2 (first_label u) = t_person u"
  by (auto simp: first_label_def has_prefix_def split: if_splits)

lemma track_person:
  assumes "good A R U t" "u \<in> set (tracks t)"
  shows "known u t"
proof -
  obtain f where f: "f \<in> set (faces t)" "f_track f = t_id u" using goodD(9) [OF assms] by blast
  have id: "t_id u \<noteq> []" by (rule good_ids(2) [OF assms])
  then have "(t_id u, f_recording f, f_person f) \<in> heads (tracks t)" using goodD(7) [OF assms(1) f(1)] f(2) by (simp add: of_track_def)
  then have "f_person f \<in> owners (t_id u) t" by (auto simp: heads_def owners_def)
  then have "f_person f = t_person u" using owners_unique [OF goodD(1) [OF assms(1)] assms(2)] by simp
  then show ?thesis using goodD(8) [OF assms(1) f(1)] owners_unique [OF goodD(1) [OF assms(1)] assms(2)] id by (simp add: known_def)
qed

lemma mset_concat_snd:
  assumes "mset gs' = mset gs"
  shows "mset (concat (map snd gs')) = mset (concat (map snd gs))"
proof -
  have "mset (concat (map snd gs)) = sum_mset (image_mset (\<lambda>g. mset (snd g)) (mset gs))" for gs :: "('a \<times> 'b list) list"
    by (induction gs) simp_all
  then show ?thesis using assms by simp
qed

lemma groups_ready:
  assumes "fair_cluster env" "good {} R U t" "ts = filter P (list_tracks q (tracks t))"
    and "T = t_person ` {u \<in> set ts. is_anchor u}"
    and "gs = ce_groups env (groups_of ts (final_labels env threshold ls ts))"
  shows "moving {} (concat (map snd gs)) T ([], 0) R U t"
    and "\<forall>(l, ms) \<in> set gs. ms \<noteq> [] \<and> (has_prefix l ''P:'' \<longrightarrow> drop 2 l \<in> T)"
proof -
  let ?labels = "final_labels env threshold ls ts"
  have labels: "length ?labels = length ts" "set ?labels \<subseteq> first_label ` set ts" using final_labels_some by blast+
  have ts: "set ts \<subseteq> set (tracks t)" using list_tracks_some(1) assms(3) by fastforce
  have "distinct (map t_id (list_tracks q (tracks t)))" using goodD(1) [OF assms(2)] by (intro list_tracks_some(2)) (simp add: keys_ok_def)
  then have d: "distinct (map t_id ts)" unfolding assms(3) by (rule distinct_map_filter)
  have perm: "mset gs = mset (groups_of ts ?labels)" using assms(1,5) by (simp add: fair_cluster_def)
  have set: "set gs = set (groups_of ts ?labels)" by (rule mset_eq_setD [OF perm])
  have "mset (map t_id (concat (map snd gs))) = mset (map t_id (concat (map snd (groups_of ts ?labels))))"
    using mset_concat_snd [OF perm] by (simp only: mset_map)
  then have "distinct (map t_id (concat (map snd gs)))" using groups_distinct [OF d labels(1)] mset_eq_imp_distinct_iff by blast
  moreover have "known m t" if m: "m \<in> set (concat (map snd gs))" for m
  proof -
    obtain l ms where "(l, ms) \<in> set gs" "m \<in> set ms" using m by auto
    then have "m \<in> set ts" using groups_members(3) [OF labels(1)] set by blast
    then show ?thesis using track_person [OF assms(2)] ts by blast
  qed
  moreover have "T \<subseteq> person_ids t"
  proof
    fix p
    assume "p \<in> T"
    then obtain u where u: "u \<in> set ts" "is_anchor u" "p = t_person u" using assms(4) by auto
    then have "known u t" using track_person [OF assms(2)] ts by blast
    then show "p \<in> person_ids t" using u by (simp add: known_def is_anchor_def)
  qed
  ultimately show "moving {} (concat (map snd gs)) T ([], 0) R U t" using assms(2) by (simp add: moving_def)
  show "\<forall>(l, ms) \<in> set gs. ms \<noteq> [] \<and> (has_prefix l ''P:'' \<longrightarrow> drop 2 l \<in> T)"
  proof (rule ballI, unfold split_def, intro conjI impI)
    fix g
    assume g: "g \<in> set gs"
    then have "(fst g, snd g) \<in> set (groups_of ts ?labels)" using set by simp
    note members = groups_members [OF labels(1) this]
    show "snd g \<noteq> []" by (rule members(2))
    assume p: "has_prefix (fst g) ''P:''"
    obtain u where "u \<in> set ts" "fst g = first_label u" using members(1) labels(2) by blast
    then show "drop 2 (fst g) \<in> T" using anchor_label [of u] p assms(4) by auto
  qed
qed

lemma triple_recluster:
  assumes "fair_cluster env"
  shows "triple (dbok (good {})) (recluster env threshold) (\<lambda>_. dbok (good {}))"
  unfolding recluster_def
proof (rule triple_bind [OF triple_query], unfold Let_def)
  fix all :: "face_track list"
  let ?q = "any_track\<lparr>tf_limit := 1000000\<rparr>"
  let ?ts = "filter (\<lambda>t. t_emb t \<noteq> []) all" let ?n = "int (length ?ts)"
  let ?gs = "\<lambda>ls. ce_groups env (groups_of ?ts (final_labels env threshold (case ls of None \<Rightarrow> [] | Some x \<Rightarrow> x) ?ts))"
  let ?T = "t_person ` {u \<in> set ?ts. is_anchor u}"
  let ?P = "dbok (\<lambda>R U t. good {} R U t \<and> all = list_tracks ?q (tracks t))"
  have moves: "triple ?P (move_groups (?gs ls) ([], 0)) (\<lambda>acc. dbok (good (set (fst acc))))" for ls
  proof (cases "\<forall>(l, ms) \<in> set (?gs ls). ms \<noteq> [] \<and> (has_prefix l ''P:'' \<longrightarrow> drop 2 l \<in> ?T)")
    case True
    show ?thesis
      by (rule triple_weaken [OF triple_move_groups [OF True]], erule dbok_mono)
        (use groups_ready(1) [OF assms _ _ refl refl] in blast)+
  next
    case False
    show ?thesis
    proof (rule triple_fact [where b = False])
      show False if "good {} R U t \<and> all = list_tracks ?q (tracks t)" for R U t
        using groups_ready(2) [OF assms _ _ refl refl, of R U t ?ts "\<lambda>t. t_emb t \<noteq> []" ?q] that False by blast
    qed simp
  qed
  have count: "triple (dbok (good {})) (abind (atry (query (\<lambda>t. list_persons False 1000000 0 (persons t)))) (\<lambda>ps. aret (h ps))) (\<lambda>_. dbok (good {}))"
    for h :: "person list option \<Rightarrow> recluster_result"
    by (rule triple_bind [OF triple_try [OF triple_query]], rule triple_ret) (auto elim: dbok_mono)
  have settle: "triple (dbok (good (set (fst acc)))) (settle_persons (ce_persons env (fst acc)) 0) (\<lambda>_. dbok (good {}))" for acc :: "string list \<times> int"
  proof -
    have "set (ce_persons env (fst acc)) = set (fst acc)" using assms by (intro mset_eq_setD) (simp add: fair_cluster_def)
    then show ?thesis using triple_settle_persons [of "set (fst acc)" "ce_persons env (fst acc)" 0] by simp
  qed
  have links: "triple ?P (atry (query links)) (\<lambda>_. ?P)"
    by (rule triple_weaken [OF triple_try [OF triple_query]]) (auto elim: dbok_mono)
  note rest = triple_bind [OF links triple_bind [OF moves triple_bind [OF settle count]]]
  show "triple ?P (if length ?ts < 2 then aret (no_result\<lparr>rr_tracks := ?n\<rparr>)
     else abind (atry (query links)) (\<lambda>ls. abind (move_groups (?gs ls) ([], 0))
       (\<lambda>acc. abind (settle_persons (ce_persons env (fst acc)) 0)
          (\<lambda>deleted. abind (atry (query (\<lambda>t. list_persons False 1000000 0 (persons t))))
             (\<lambda>ps. aret \<lparr>rr_tracks = ?n, rr_moved = snd acc, rr_deleted = deleted,
                           rr_after = (case ps of None \<Rightarrow> 0 | Some x \<Rightarrow> int (length x))\<rparr>))))) (\<lambda>_. dbok (good {}))"
  proof (cases "length ?ts < 2")
    case True
    then show ?thesis by (auto intro!: triple_ret elim: dbok_mono)
  next
    case False
    then show ?thesis using rest by simp
  qed
qed

end
