(* ===== verification/Face_Operations.thy ===== *)
theory Face_Operations
  imports Face_Consistency
begin

text \<open>
  The operations on faces together: the worker's jobs, re-clustering and the operator's corrections,
  in any order, and the consistency of identities they keep.
\<close>

section \<open>Jobs of the worker\<close>

lemma keeps_dbok_stmt:
  assumes "\<And>d x t. I (rec_ids d) (uuid d ` {..<drawn_ids d}) (tbl d) \<Longrightarrow> f d = Some (x, t) \<Longrightarrow>
    I (rec_ids d) (uuid d ` {..<drawn_ids d}) t"
  shows "keeps (dbok I) (stmt f)"
  unfolding keeps_def stmt_def
  using assms by (fastforce simp: dbok_def tick_db_def rec_ids_def split: option.split)

lemma keeps_dbok_query: "keeps (dbok I) (query_db q)"
  unfolding query_db_def by (rule keeps_dbok_stmt) simp

lemma keeps_good_jobs: "keeps (dbok (good A)) (on_jobs f)"
  unfolding on_jobs_def by (rule keeps_dbok_stmt) auto

lemma keeps_good_draw: "keeps (dbok (good A)) draw_id"
  by (rule keeps_triple [OF triple_weaken [OF triple_draw [of "good A" "\<lambda>_. good A"]]]) (auto intro: good_insert)

lemma good_new_face:
  assumes "good A R U t" "raw_face f" "f_id f \<notin> f_id ` set (faces t)" "f_recording f \<in> R"
  shows "good A R U (t\<lparr>faces := faces t @ [f]\<rparr>)"
proof -
  have "settled (faces t @ [f]) p \<longleftrightarrow> settled (faces t) p" if "p \<in> set (persons t)" for p
  proof -
    have "p_id p \<noteq> []" using good_ids(1) [OF assms(1)] that by (metis imageI person_ids_def)
    then show ?thesis using assms(2) by (auto simp: settled_def live_faces_def raw_face_def)
  qed
  moreover have "of_track ts f" for ts using assms(2) by (simp add: of_track_def raw_face_def)
  ultimately show ?thesis
    using assms by (auto simp: good_def keys_ok_def raw_face_def)
qed

lemma keeps_good_face: "raw_face f \<Longrightarrow> keeps (dbok (good A)) (add_face f)"
proof -
  assume f: "raw_face f"
  show ?thesis
    unfolding add_face_def
  proof (rule keeps_dbok_stmt)
    fix d x t
    let ?R = "rec_ids d" and ?U = "uuid d ` {..<drawn_ids d}"
    assume g: "good A ?R ?U (tbl d)"
      and s: "map_option (\<lambda>fs. ((), (tbl d)\<lparr>faces := fs\<rparr>)) (create_face ?R (now d (clk d)) f (faces (tbl d))) = Some (x, t)"
    let ?f = "if f_created f = 0 then f\<lparr>f_created := now d (clk d)\<rparr> else f"
    have t: "t = (tbl d)\<lparr>faces := faces (tbl d) @ [?f]\<rparr>" and new: "f_id f \<notin> f_id ` set (faces (tbl d))" "f_recording f \<in> ?R"
      using s by (auto simp: create_face_def split: if_splits)
    have "f_id ?f = f_id f" "f_recording ?f = f_recording f" "raw_face ?f" using f by (auto simp: raw_face_def)
    then show "good A ?R ?U t" unfolding t by (intro good_new_face [OF g]) (use new in auto)
  qed
qed

definition fair_worker :: "worker_env \<Rightarrow> bool" where
  "fair_worker env \<longleftrightarrow>
     (case we_assigner env of None \<Rightarrow> True
      | Some (fl, arrange, walk) \<Rightarrow> (\<forall>cs. mset (arrange cs) = mset cs) \<and> (\<forall>g. mset (walk g) = mset g))"

lemma keeps_good_process:
  assumes "fair_worker env"
  shows "keeps (dbok (good {})) (process env c job)"
  unfolding process_def
proof (rule keeps_bind_known)
  show "keeps (dbok (good {})) (atry (query_db (\<lambda>d. get_rec (j_recording job) (recs d))))"
    by (intro acts keeps_dbok_query)
  show "\<forall>rec. Option.bind r (\<lambda>x. x) = Some rec \<longrightarrow> rec_id rec \<noteq> []"
    if d: "dbok (good {}) d" and r: "fst (atry (query_db (\<lambda>d. get_rec (j_recording job) (recs d))) d) = Some r" for d r
  proof (intro allI impI)
    fix rec
    assume b: "Option.bind r (\<lambda>x. x) = Some rec"
    have alive: "alive d (clk d)" and R: "[] \<notin> rec_ids d" using d by (auto simp: dbok_def good_def)
    have "r = Some (get_rec (j_recording job) (recs d))" using r alive by (simp add: atry_def query_db_def stmt_def)
    then have "get_rec (j_recording job) (recs d) = Some rec" using b by simp
    then have "rec \<in> set (recs d)" by (auto simp: get_rec_def find_Some_iff)
    then show "rec_id rec \<noteq> []" using R by (force simp: rec_ids_def)
  qed
  fix r :: "recording option option"
  assume known: "\<forall>rec. Option.bind r (\<lambda>x. x) = Some rec \<longrightarrow> rec_id rec \<noteq> []"
  have assign: "keeps (dbok (good {})) (assign_step env c rec)" if "rec_id rec \<noteq> []" for rec
    by (rule keeps_assign_step, rule keeps_triple, rule triple_assign_recording) (use assms that in \<open>auto simp: fair_worker_def\<close>)
  show "keeps (dbok (good {})) (case Option.bind r (\<lambda>x. x) of
          None \<Rightarrow> skip_job job ''recording not found''
        | Some rec \<Rightarrow>
            if local_removed rec then skip_job job ''local file removed (S3 source not yet supported)''
            else if \<not> we_file env (path rec) then skip_job job ''local file missing''
            else abind (ranges rec c)
              (\<lambda>ws. abind (do_ranges env c rec ws (if fc_frames c \<le> 0 then 1800 else fc_frames c) 0)
                (\<lambda>n. athen (assign_step env c rec)
                  (on_jobs (\<lambda>time. complete_job time (j_id job) n)))))"
    using known unfolding skip_job_def
    by (auto split: option.split intro!: acts keeps_good_jobs keeps_ranges keeps_dbok_query keeps_do_ranges keeps_good_draw keeps_good_face assign)
qed

lemma keeps_good_process_one: "fair_worker env \<Longrightarrow> keeps (dbok (good {})) (process_one env c msg)"
  unfolding process_one_def claim_next_def query_def
  by (auto split: option.split intro!: acts keeps_good_process keeps_good_jobs keeps_dbok_stmt)

section \<open>Links and scans\<close>

lemma keeps_link:
  "keeps (dbok (good {})) (handle_create_link body)" "keeps (dbok (good {})) (handle_delete_link i)"
  unfolding handle_create_link_def handle_delete_link_def add_link_def
  by (auto split: option.split intro!: acts keeps_good_draw keeps_dbok_stmt)

lemma keeps_enqueue: "keeps (dbok (good {})) (enqueue r)"
  unfolding enqueue_def by (auto intro!: acts keeps_good_draw keeps_dbok_stmt)

lemma keeps_enqueue_all: "keeps (dbok (good {})) (enqueue_all rs n)"
  by (induction rs n rule: enqueue_all.induct) (auto intro!: acts keeps_enqueue)

lemma keeps_scan: "keeps (dbok (good {})) (handle_face_scan q)"
  unfolding handle_face_scan_def by (intro acts keeps_dbok_query keeps_enqueue_all)

section \<open>Any sequence of operations\<close>

datatype face_op =
    OpJob worker_env face_config string
  | OpScan scan_request
  | OpRecluster cluster_env rat
  | OpPatch string "patch_person_req option"
  | OpDeletePerson string
  | OpMerge "(string list \<times> string) option"
  | OpSplit string "string list option"
  | OpAssign string "(string \<times> bool) option"
  | OpConfirm string
  | OpLink "(link_kind option \<times> string \<times> string) option"
  | OpUnlink string

fun do_op :: "face_op \<Rightarrow> fdb \<Rightarrow> fdb" where
  "do_op (OpJob env c msg) d = snd (process_one env c msg d)"
| "do_op (OpScan q) d = snd (handle_face_scan q d)"
| "do_op (OpRecluster env x) d = snd (handle_recluster env x d)"
| "do_op (OpPatch i b) d = snd (handle_patch_person i b d)"
| "do_op (OpDeletePerson i) d = snd (handle_delete_person i d)"
| "do_op (OpMerge b) d = snd (handle_merge_persons b d)"
| "do_op (OpSplit i b) d = snd (handle_split_person i b d)"
| "do_op (OpAssign i b) d = snd (handle_assign_track i b d)"
| "do_op (OpConfirm i) d = snd (handle_confirm_track i d)"
| "do_op (OpLink b) d = snd (handle_create_link b d)"
| "do_op (OpUnlink i) d = snd (handle_delete_link i d)"

fun fair_op :: "face_op \<Rightarrow> bool" where
  "fair_op (OpJob env c msg) = fair_worker env"
| "fair_op (OpRecluster env x) = fair_cluster env"
| "fair_op _ = True"

text \<open>
  Consistent identities: a face of a track has the track's recording and person, a face without a
  track has no person, a person that is named exists, and a person's count is the number of its faces,
  is not zero and comes with at most eight exemplars.
\<close>

definition consistent :: "face_tables \<Rightarrow> bool" where
  "consistent t \<longleftrightarrow>
     (\<forall>f \<in> set (faces t). f_track f \<noteq> [] \<longrightarrow>
        (\<exists>u \<in> set (tracks t). t_id u = f_track f \<and> t_recording u = f_recording f \<and> t_person u = f_person f)) \<and>
     (\<forall>f \<in> set (faces t). f_track f = [] \<longrightarrow> f_person f = []) \<and>
     (\<forall>f \<in> set (faces t). f_person f \<noteq> [] \<longrightarrow> (\<exists>p \<in> set (persons t). p_id p = f_person f)) \<and>
     (\<forall>u \<in> set (tracks t). \<exists>f \<in> set (faces t). f_track f = t_id u) \<and>
     (\<forall>p \<in> set (persons t). p_faces p = int (length (filter (\<lambda>f. f_person f = p_id p) (faces t))) \<and> p_faces p > 0 \<and>
        length (filter (\<lambda>f. f_person f = p_id p \<and> f_exemplar f) (faces t)) \<le> 8)"

lemma good_consistent:
  assumes "good {} R U t"
  shows "consistent t"
  unfolding consistent_def
proof (intro conjI ballI impI)
  note g = goodD [OF assms]
  fix f
  assume f: "f \<in> set (faces t)"
  show "\<exists>u \<in> set (tracks t). t_id u = f_track f \<and> t_recording u = f_recording f \<and> t_person u = f_person f" if "f_track f \<noteq> []"
    using g(7) [OF f] that by (auto simp: of_track_def heads_def)
  show "f_person f = []" if "f_track f = []" using g(7) [OF f] that by (simp add: of_track_def)
  show "\<exists>p \<in> set (persons t). p_id p = f_person f" if "f_person f \<noteq> []" using g(8) [OF f] that by (auto simp: person_ids_def)
next
  fix u
  assume "u \<in> set (tracks t)"
  then show "\<exists>f \<in> set (faces t). f_track f = t_id u" by (rule goodD(9) [OF assms])
next
  fix p
  assume "p \<in> set (persons t)"
  then have s: "settled (faces t) p" using goodD(10) [OF assms] by simp
  then show "p_faces p = int (length (filter (\<lambda>f. f_person f = p_id p) (faces t)))" "p_faces p > 0"
    by (auto simp: settled_def good_live [OF assms])
  show "length (filter (\<lambda>f. f_person f = p_id p \<and> f_exemplar f) (faces t)) \<le> 8" using s by (simp add: settled_def)
qed

lemma do_op_good:
  assumes "fair_op op" "dbok (good {}) d"
  shows "dbok (good {}) (do_op op d)"
proof -
  note triples = triple_patch triple_delete_person triple_merge triple_split triple_assign_track triple_confirm
  have recluster: "keeps (dbok (good {})) (handle_recluster env x)" if "fair_cluster env" for env x
    unfolding handle_recluster_def by (intro acts keeps_triple triple_recluster that)
  have job: "dbok (good {}) (snd (m d))" if "keeps (dbok (good {})) m" for m :: "bool act" using keeps_elim [OF that assms(2)] .
  have pair: "dbok (good {}) (snd (m d))" if "keeps (dbok (good {})) m" for m :: "(int \<times> int) act" using keeps_elim [OF that assms(2)] .
  have reply: "dbok (good {}) (snd (m d))" if "keeps (dbok (good {})) m" for m :: "reply act" using keeps_elim [OF that assms(2)] .
  show ?thesis
    using assms(1) job [OF keeps_good_process_one] pair [OF keeps_scan] reply [OF recluster] reply [OF keeps_link(1)] reply [OF keeps_link(2)]
      triples [THEN keeps_triple, THEN reply]
    by (cases op) auto
qed

text \<open>
  C13: whatever the worker, the re-clustering and the operator do and in whatever order (the worker's
  tools may fail at any point, statements do not; faces are not ignored and recordings not deleted),
  identities stay consistent: every track agrees with its faces on recording and person, every person
  of a face exists, and no person is left without faces, with a wrong count or with more than eight
  exemplars.
\<close>

theorem identities_consistent:
  assumes "list_all fair_op ops" "\<And>n. alive d n" "inj (uuid d)" "\<And>n. uuid d n \<noteq> []"
    and "tbl d = \<lparr>faces = [], persons = [], tracks = [], links = [], jobs = js\<rparr>" "\<And>r. r \<in> set (recs d) \<Longrightarrow> rec_id r \<noteq> []"
  shows "consistent (tbl (fold do_op ops d))"
proof -
  have "dbok (good {}) d"
    unfolding dbok_def using assms(2-6) by (auto simp: good_def keys_ok_def person_ids_def rec_ids_def) (metis)+
  then have "dbok (good {}) (fold do_op ops d)"
    using assms(1) by (induction ops arbitrary: d) (auto intro: do_op_good)
  then show ?thesis by (auto simp: dbok_def intro: good_consistent)
qed

definition demo_detection :: detection where
  "demo_detection = \<lparr>d_box = (0, 0, 100, 100), d_score = 1, d_emb = [1], d_sharp = 120, d_pose = []\<rparr>"

definition demo_worker :: worker_env where
  "demo_worker = bare_env\<lparr>we_frames := (\<lambda>_ _ _ _ _ _. Some [[1], [2]]), we_sidecar := (\<lambda>js _. Some ([(0, [demo_detection]), (1, [demo_detection])], ''m'', 1)),
     we_assigner := Some (plain_floats, (\<lambda>cs. cs), (\<lambda>g. g))\<rparr>"

definition demo_cluster :: cluster_env where
  "demo_cluster = \<lparr>ce_floats = plain_floats, ce_orders = (\<lambda>_. [0, 1]), ce_groups = (\<lambda>gs. gs), ce_persons = (\<lambda>ps. ps)\<rparr>"

definition demo_db :: fdb where
  "demo_db = (sample_db [sample_job ''r'' JobPending 0])\<lparr>recs := [sample_rec]\<rparr>"

definition demo_ops :: "face_op list" where
  "demo_ops = [OpJob demo_worker (default_face_config\<lparr>fc_gated := False\<rparr>) [], OpRecluster demo_cluster (1 / 2), OpAssign ''uuu'' (Some ([], True)), OpConfirm ''x'']"

theorem identities_consistent_witness:
  "consistent (tbl (fold do_op demo_ops demo_db)) \<and>
   map (\<lambda>p. (p_id p, p_faces p)) (persons (tbl (fold do_op demo_ops demo_db))) = [(''uuuuu'', 2)]"
proof
  have "inj (\<lambda>n. replicate (Suc n) (CHR ''u''))" by (rule injI) (metis length_replicate nat.inject)
  then show "consistent (tbl (fold do_op demo_ops demo_db))"
    using identities_consistent [of demo_ops demo_db "[sample_job ''r'' JobPending 0]"]
    by (simp add: demo_ops_def demo_db_def sample_db_def demo_worker_def demo_cluster_def fair_worker_def fair_cluster_def bare_env_def sample_rec_def)
  show "map (\<lambda>p. (p_id p, p_faces p)) (persons (tbl (fold do_op demo_ops demo_db))) = [(''uuuuu'', 2)]"
    by code_simp
qed

section \<open>Confirmed tracks\<close>

text \<open>A track's row survives updates of others.\<close>

lemma keeps_row_stmt:
  "(\<And>d x t. u \<in> set (tracks (tbl d)) \<Longrightarrow> f d = Some (x, t) \<Longrightarrow> u \<in> set (tracks t)) \<Longrightarrow> keeps (\<lambda>d. u \<in> set (tracks (tbl d))) (stmt f)"
  by (rule keeps_stmt) (auto simp: timeless_def)

lemma keeps_row [plain_acts]:
  "keeps (\<lambda>d. u \<in> set (tracks (tbl d))) (on_faces f)" "keeps (\<lambda>d. u \<in> set (tracks (tbl d))) (on_persons g)"
  "keeps (\<lambda>d. u \<in> set (tracks (tbl d))) (add_person p)" "keeps (\<lambda>d. u \<in> set (tracks (tbl d))) (recount_person i)"
  "keeps (\<lambda>d. u \<in> set (tracks (tbl d))) draw_id" "keeps (\<lambda>d. u \<in> set (tracks (tbl d))) (query q)"
  "t_id u \<noteq> i \<Longrightarrow> keeps (\<lambda>d. u \<in> set (tracks (tbl d))) (on_tracks (update_track_person i x))"
  unfolding on_faces_def on_persons_def add_person_def recount_person_def on_tracks_def
  by (auto simp: timeless_def update_track_person_def image_iff intro!: acts keeps_row_stmt keeps_draw keeps_query)

lemma keeps_row_members:
  "(\<And>m. m \<in> set ms \<Longrightarrow> t_id m \<noteq> t_id u) \<Longrightarrow> keeps (\<lambda>d. u \<in> set (tracks (tbl d))) (move_members target ms acc)"
proof (induction target ms acc rule: move_members.induct)
  case (2 target m ms acc)
  have "t_id u \<noteq> t_id m" using 2(3) [of m] by auto
  then show ?case using 2 by (auto intro!: acts plain_acts)
qed (auto intro: acts)

lemma keeps_row_groups:
  "(\<And>l ms m. (l, ms) \<in> set gs \<Longrightarrow> m \<in> set ms \<Longrightarrow> t_id m \<noteq> t_id u) \<Longrightarrow> keeps (\<lambda>d. u \<in> set (tracks (tbl d))) (move_groups gs acc)"
proof (induction gs acc rule: move_groups.induct)
  case (2 l ms gs acc)
  have members: "keeps (\<lambda>d. u \<in> set (tracks (tbl d))) (move_members target ms acc)" for target
    by (rule keeps_row_members) (use 2(2) in auto)
  have rest: "keeps (\<lambda>d. u \<in> set (tracks (tbl d))) (move_groups gs acc')" for acc'
    by (rule 2(1)) (use 2(2) in auto)
  show ?case
    unfolding move_groups.simps group_target_def canonical_person_def by (auto intro!: acts plain_acts members rest)
qed (auto intro: acts)

lemma keeps_row_settle: "keeps (\<lambda>d. u \<in> set (tracks (tbl d))) (settle_persons ps n)"
  by (induction ps n rule: settle_persons.induct) (auto intro!: acts plain_acts simp: rebuild_person_exemplars_def)

lemma abind_query: "alive d (clk d) \<Longrightarrow> abind (query q) f d = f (q (tbl d)) (tick_db d)"
  by (simp add: abind_def query_def stmt_def tick_db_def)

text \<open>Re-clustering never moves a confirmed track, whichever statements fail.\<close>

lemma recluster_keeps_confirmed:
  assumes "u \<in> set (tracks (tbl d))" "is_anchor u" "distinct (map t_id (tracks (tbl d)))" "\<And>gs. set (ce_groups env gs) = set gs"
  shows "u \<in> set (tracks (tbl (snd (recluster env threshold d))))"
proof (cases "alive d (clk d)")
  case False
  then show ?thesis using assms(1) by (simp add: recluster_def abind_def query_def stmt_def tick_db_def)
next
  case True
  let ?q = "any_track\<lparr>tf_limit := 1000000\<rparr>"
  define ts where "ts = filter (\<lambda>t. t_emb t \<noteq> []) (list_tracks ?q (tracks (tbl d)))"
  have ts: "set ts \<subseteq> set (tracks (tbl d))" using list_tracks_some(1) by (fastforce simp: ts_def)
  have other: "t_id m \<noteq> t_id u" if "length labels = length ts" "(l, ms) \<in> set (groups_of ts labels)" "m \<in> set ms" for labels l ms m
  proof -
    have "m \<in> fst ` set (filter (\<lambda>(t, l). \<not> is_anchor t) (zip ts labels))" using that(2,3) by (auto simp: groups_of_def Let_def)
    then have "m \<in> set ts" "\<not> is_anchor m" by (auto dest: set_zip_leftD)
    then show ?thesis using assms(1-3) ts by (metis distinct_map inj_onD subsetD)
  qed
  let ?labels = "\<lambda>ls. final_labels env threshold (case ls of None \<Rightarrow> [] | Some x \<Rightarrow> x) ts"
  define rest where "rest = (if length ts < 2 then aret (no_result\<lparr>rr_tracks := int (length ts)\<rparr>)
      else abind (atry (query links)) (\<lambda>ls. abind (move_groups (ce_groups env (groups_of ts (?labels ls))) ([], 0))
        (\<lambda>acc. abind (settle_persons (ce_persons env (fst acc)) 0) (\<lambda>deleted. abind (atry (query (\<lambda>t. list_persons False 1000000 0 (persons t))))
          (\<lambda>ps. aret \<lparr>rr_tracks = int (length ts), rr_moved = snd acc, rr_deleted = deleted,
                        rr_after = (case ps of None \<Rightarrow> 0 | Some x \<Rightarrow> int (length x))\<rparr>)))))"
  have moves: "keeps (\<lambda>d. u \<in> set (tracks (tbl d))) (move_groups (ce_groups env (groups_of ts (?labels ls))) ([], 0))" for ls
    by (rule keeps_row_groups, rule other) (use assms(4) final_labels_some in auto)
  have "keeps (\<lambda>d. u \<in> set (tracks (tbl d))) rest"
    unfolding rest_def by (auto intro!: acts plain_acts moves keeps_row_settle)
  moreover have "recluster env threshold d = rest (tick_db d)"
    unfolding recluster_def rest_def ts_def Let_def by (rule abind_query [OF True])
  moreover have "u \<in> set (tracks (tbl (tick_db d)))" using assms(1) by (simp add: tick_db_def)
  ultimately show ?thesis using keeps_elim by metis
qed

section \<open>Where consistency ends\<close>

definition lone_face :: face where
  "lone_face = (sample_face ''f'' 1 0)\<lparr>f_person := ''p'', f_track := ''t'', f_exemplar := True\<rparr>"

definition lone_track :: "string \<Rightarrow> string \<Rightarrow> face_track" where
  "lone_track i p = \<lparr>t_id = i, t_recording = ''r'', t_cam = ''c'', t_person = p, t_start = 1, t_end = 1, t_faces = 1, t_quality = 1,
     t_emb = [1], t_dim = 1, t_best = ''f'', t_best_offset = 1, t_cand = [], t_cand_sim = -1, t_confirmed = False, t_created = 1\<rparr>"

definition lone_tables :: face_tables where
  "lone_tables = \<lparr>faces = [lone_face], persons = [(blank_person ''p'')\<lparr>p_name := ''Ada'', p_named := True, p_faces := 1\<rparr>],
     tracks = [lone_track ''t'' ''p''], links = [], jobs = []\<rparr>"

definition lone_db :: fdb where
  "lone_db = (sample_db [])\<lparr>tbl := lone_tables\<rparr>"

lemma lone_consistent: "consistent lone_tables"
  by code_simp

text \<open>
  Ignoring the only face of a person deletes the person, its name included; clearing the flag does not
  bring it back, and face and track go on naming it.
\<close>

lemma ignored_person_gone:
  "persons (tbl (snd (athen (handle_ignore_face ''f'' (Some True)) (handle_ignore_face ''f'' (Some False)) lone_db))) = [] \<and>
   faces (tbl (snd (athen (handle_ignore_face ''f'' (Some True)) (handle_ignore_face ''f'' (Some False)) lone_db))) = faces lone_tables"
  by code_simp

text \<open>Deleting a recording takes its faces away and leaves the count of their person as it was.\<close>

lemma deleted_recording_stale: "\<not> consistent (cascade ''r'' lone_tables) \<and> map p_faces (persons (cascade ''r'' lone_tables)) = [1]"
  by code_simp

text \<open>Two tracks that must not be linked come together over a third that is similar to both.\<close>

definition one_float :: float_ops where
  "one_float = \<lparr>val32 = (\<lambda>_. 1), round32 = (\<lambda>_. 1), sqrt64 = (\<lambda>x. x)\<rparr>"

lemma cannot_link_bypassed:
  "final_labels \<lparr>ce_floats = one_float, ce_orders = (\<lambda>_. [0, 1, 2]), ce_groups = (\<lambda>gs. gs), ce_persons = (\<lambda>ps. ps)\<rparr> (1 / 2)
     [\<lparr>l_id = ''l'', l_kind = LinkCannot, l_a = ''a'', l_b = ''b'', l_created = 1\<rparr>]
     [lone_track ''a'' [], lone_track ''b'' [], lone_track ''c'' []] = [''T:c'', ''T:c'', ''T:c'']"
  by code_simp

end
