(* ===== verification/Storage_Upload.thy ===== *)
theory Storage_Upload
  imports Rec_Retention Rec_Naming Storage_Crypto
begin

text \<open>
  The archive: settings and keys of the S3 uploader (\<^verbatim>\<open>internal/storage/s3.go\<close>), the upload worker
  (\<^verbatim>\<open>internal/storage/upload.go\<close>), and the requests that play and delete recordings
  (\<^verbatim>\<open>internal/api/recordings.go\<close>), over the table of recordings, the files below the recordings
  directory and the objects of the bucket.  Calls that leave the program draw from a schedule: call
  number \<open>n\<close> of a kind succeeds as the environment says.  A failing \<^verbatim>\<open>PutObject\<close> may have stored the
  whole object or nothing.
\<close>

section \<open>Settings and uploader\<close>

text \<open>Fields that are handed through to the client library are left out.\<close>

record s3_config =
  s3_enabled :: bool
  endpoint :: string
  bucket_name :: string
  key_prefix :: string
  proxy_url :: string
  delete_local :: bool
  enc_enabled :: bool
  enc_key :: "byte list"
  enc_salt :: string

text \<open>
  The surroundings: the database, \<^verbatim>\<open>Stat\<close>, \<^verbatim>\<open>Open\<close> and \<^verbatim>\<open>Remove\<close> on files that exist, the network in both
  directions, the random source, and the libraries for addresses, base64, hashing and ciphers.
\<close>

record archive_env =
  ae_db :: "nat \<Rightarrow> bool"
  ae_stat :: "nat \<Rightarrow> bool"
  ae_open :: "nat \<Rightarrow> bool"
  ae_remove :: "nat \<Rightarrow> bool"
  ae_stores :: "nat \<Rightarrow> bool"
  ae_answers :: "nat \<Rightarrow> bool"
  ae_gets :: "nat \<Rightarrow> bool"
  ae_iv :: "nat \<Rightarrow> byte list option"
  ae_url :: "string \<Rightarrow> bool"
  ae_client :: "string \<Rightarrow> bool"
  ae_b64 :: "string \<Rightarrow> byte list option"
  ae_sha :: "byte list \<Rightarrow> byte list"
  ae_kdf :: "byte list \<Rightarrow> byte list \<Rightarrow> byte list"
  ae_aes :: "byte list \<Rightarrow> byte list \<Rightarrow> byte list"
  ae_disk :: "nat \<Rightarrow> int option"

record uploader =
  up_prefix :: string
  up_cipher :: "(byte list \<Rightarrow> byte list) option"

definition new_uploader :: "archive_env \<Rightarrow> s3_config \<Rightarrow> key_cache \<Rightarrow> uploader option \<times> key_cache" where
  "new_uploader env cfg cache =
     (if endpoint cfg = [] \<or> bucket_name cfg = [] \<or> (proxy_url cfg \<noteq> [] \<and> \<not> ae_url env (proxy_url cfg)) \<or>
         \<not> ae_client env (endpoint cfg) then (None, cache)
      else let prefix = trim_by (\<lambda>c. c = CHR ''/'') (key_prefix cfg)
           in if \<not> enc_enabled cfg then (Some \<lparr>up_prefix = prefix, up_cipher = None\<rparr>, cache)
              else case derive_key (ae_b64 env) (ae_sha env) (ae_kdf env) (enc_key cfg) (enc_salt cfg) cache of
                     (Inl e, cache1) \<Rightarrow> (None, cache1)
                   | (Inr k, cache1) \<Rightarrow>
                       (case new_cipher (ae_aes env) k of
                          Inl e \<Rightarrow> (None, cache1)
                        | Inr E \<Rightarrow> (Some \<lparr>up_prefix = prefix, up_cipher = Some E\<rparr>, cache1)))"

text \<open>The character 92 is the backslash.\<close>

definition object_key :: "uploader \<Rightarrow> string \<Rightarrow> string" where
  "object_key up rel =
     (let p = trim_prefix (clean_rooted (CHR ''/'' # map (\<lambda>c. if c = char_of (92 :: nat) then CHR ''/'' else c) rel)) ''/''
      in if up_prefix up = [] then p else up_prefix up @ ''/'' @ p)"

section \<open>The archive\<close>

text \<open>\<open>batch\<close> and \<open>using\<close> are the local variables of a pass of the upload worker that is under way.\<close>

record archive =
  av_rows :: rec_table
  av_files :: "string \<rightharpoonup> byte list"
  av_bucket :: "string \<rightharpoonup> byte list"
  av_cache :: key_cache
  av_batch :: "recording list"
  av_using :: "uploader \<times> bool"
  av_clock :: nat

definition tick_av :: "archive \<Rightarrow> archive" where
  "tick_av a = a\<lparr>av_clock := av_clock a + 1\<rparr>"

definition av_query :: "archive_env \<Rightarrow> (rec_table \<Rightarrow> 'a) \<Rightarrow> archive \<Rightarrow> 'a option \<times> archive" where
  "av_query env q a = (if ae_db env (av_clock a) then Some (q (av_rows a)) else None, tick_av a)"

definition av_exec :: "archive_env \<Rightarrow> (rec_table \<Rightarrow> rec_table) \<Rightarrow> archive \<Rightarrow> bool \<times> archive" where
  "av_exec env f a =
     (if ae_db env (av_clock a) then (True, tick_av (a\<lparr>av_rows := f (av_rows a)\<rparr>)) else (False, tick_av a))"

definition av_remove :: "archive_env \<Rightarrow> string \<Rightarrow> archive \<Rightarrow> bool \<times> archive" where
  "av_remove env p a =
     (if p \<in> dom (av_files a) \<and> \<not> ae_remove env (av_clock a) then (False, tick_av a)
      else (True, tick_av (a\<lparr>av_files := (av_files a)(p := None)\<rparr>)))"

definition put_object :: "archive_env \<Rightarrow> string \<Rightarrow> byte list \<Rightarrow> archive \<Rightarrow> bool \<times> archive" where
  "put_object env key obj a =
     (let n = av_clock a
      in (ae_stores env n \<and> ae_answers env n,
          tick_av (if ae_stores env n then a\<lparr>av_bucket := (av_bucket a)(key \<mapsto> obj)\<rparr> else a)))"

text \<open>\<^verbatim>\<open>Upload\<close>: whether the stored object is encrypted, \<open>None\<close> for an error.\<close>

definition upload :: "archive_env \<Rightarrow> uploader \<Rightarrow> string \<Rightarrow> string \<Rightarrow> archive \<Rightarrow> bool option \<times> archive" where
  "upload env up local_path key a =
     (case (if ae_open env (av_clock a) then av_files a local_path else None) of
        None \<Rightarrow> (None, tick_av a)
      | Some plain \<Rightarrow>
          (case up_cipher up of
             None \<Rightarrow> (case put_object env key plain a of (ok, a1) \<Rightarrow> (if ok then Some False else None, a1))
           | Some E \<Rightarrow>
               (case encrypt_all E (ae_iv env (av_clock a)) plain of
                  Inl e \<Rightarrow> (None, tick_av a)
                | Inr obj \<Rightarrow> (case put_object env key obj a of (ok, a1) \<Rightarrow> (if ok then Some True else None, a1)))))"

definition upload_one :: "archive_env \<Rightarrow> uploader \<Rightarrow> bool \<Rightarrow> recording \<Rightarrow> archive \<Rightarrow> archive" where
  "upload_one env up del r a =
     (if path r \<notin> dom (av_files a) \<or> \<not> ae_stat env (av_clock a)
      then snd (av_exec env (mark_uploaded (rec_id r) [] False) (tick_av a))
      else let key = object_key up (path r)
           in case upload env up (path r) key (tick_av a) of
                (None, a1) \<Rightarrow> a1
              | (Some enc, a1) \<Rightarrow>
                  let a2 = snd (av_exec env (mark_uploaded (rec_id r) key enc) a1)
                  in if del
                     then (case av_remove env (path r) a2 of
                             (True, a3) \<Rightarrow> snd (av_exec env (mark_local_removed (rec_id r)) a3)
                           | (False, a3) \<Rightarrow> a3)
                     else a2)"

text \<open>
  A pass: \<open>begin_pass\<close> is \<^verbatim>\<open>runOnce\<close> up to its loop, \<open>next_upload\<close> one round of the loop, and
  \<open>abandon\<close> the cancelled context.
\<close>

definition begin_pass :: "archive_env \<Rightarrow> int \<Rightarrow> s3_config \<Rightarrow> archive \<Rightarrow> archive" where
  "begin_pass env batch_size cfg a =
     (if \<not> s3_enabled cfg then a
      else case new_uploader env cfg (av_cache a) of
             (None, cache) \<Rightarrow> a\<lparr>av_cache := cache\<rparr>
           | (Some up, cache) \<Rightarrow>
               (case av_query env (pending_uploads batch_size) (a\<lparr>av_cache := cache\<rparr>) of
                  (None, a1) \<Rightarrow> a1
                | (Some rs, a1) \<Rightarrow> a1\<lparr>av_batch := rs, av_using := (up, delete_local cfg)\<rparr>))"

definition next_upload :: "archive_env \<Rightarrow> archive \<Rightarrow> archive" where
  "next_upload env a =
     (case av_batch a of
        [] \<Rightarrow> a
      | r # rs \<Rightarrow> upload_one env (fst (av_using a)) (snd (av_using a)) r (a\<lparr>av_batch := rs\<rparr>))"

definition abandon :: "archive \<Rightarrow> archive" where
  "abandon a = a\<lparr>av_batch := []\<rparr>"

definition run_once :: "archive_env \<Rightarrow> int \<Rightarrow> s3_config \<Rightarrow> archive \<Rightarrow> archive" where
  "run_once env batch_size cfg a =
     (let a1 = begin_pass env batch_size cfg a in (next_upload env ^^ length (av_batch a1)) a1)"

definition default_batch :: "int \<Rightarrow> int" where
  "default_batch n = (if n \<le> 0 then 8 else n)"

section \<open>Requests\<close>

text \<open>What playback sends: a file, a plain object, an object decrypted on the way, or an error.\<close>

datatype playback = PlayFile "byte list" | PlayObject "byte list"
  | PlayDecrypted "byte list \<Rightarrow> byte list" decryptor | Missing | Broken

definition open_object :: "archive_env \<Rightarrow> uploader \<Rightarrow> string \<Rightarrow> bool \<Rightarrow> archive \<Rightarrow> playback option" where
  "open_object env up key enc a =
     (case (if ae_gets env (av_clock a) then av_bucket a key else None) of
        None \<Rightarrow> None
      | Some obj \<Rightarrow>
          if \<not> enc then Some (PlayObject obj)
          else (case up_cipher up of
                  None \<Rightarrow> None
                | Some E \<Rightarrow>
                    (case decrypting_read_seeker (\<not> ae_gets env (av_clock a + 1)) \<lparr>bytes = obj, off = 0\<rparr> (int (length obj)) of
                       Inl e \<Rightarrow> None
                     | Inr d \<Rightarrow> Some (PlayDecrypted E d))))"

text \<open>\<open>settings\<close> is what the settings store returns, \<open>None\<close> its error.\<close>

definition serve_from_s3 :: "archive_env \<Rightarrow> s3_config option \<Rightarrow> recording \<Rightarrow> archive \<Rightarrow> playback option" where
  "serve_from_s3 env settings r a =
     (if \<not> uploaded r \<or> s3_key r = [] then None
      else case settings of
             None \<Rightarrow> None
           | Some cfg \<Rightarrow>
               if \<not> s3_enabled cfg then None
               else (case fst (new_uploader env cfg (av_cache a)) of
                       None \<Rightarrow> None
                     | Some up \<Rightarrow> open_object env up (s3_key r) (encrypted r) a))"

definition handle_recording_file :: "archive_env \<Rightarrow> s3_config option \<Rightarrow> string \<Rightarrow> archive \<Rightarrow> playback" where
  "handle_recording_file env settings i a =
     (case av_query env (get_rec i) a of
        (None, _) \<Rightarrow> Broken
      | (Some None, _) \<Rightarrow> Missing
      | (Some (Some r), a1) \<Rightarrow>
          (case av_files a1 (path r) of
             Some content \<Rightarrow> if ae_open env (av_clock a1) then PlayFile content else Broken
           | None \<Rightarrow> (case serve_from_s3 env settings r a1 of None \<Rightarrow> Missing | Some p \<Rightarrow> p)))"

definition handle_delete_recording :: "archive_env \<Rightarrow> string \<Rightarrow> archive \<Rightarrow> nat \<times> archive" where
  "handle_delete_recording env i a =
     (case av_query env (get_rec i) a of
        (None, a1) \<Rightarrow> (500, a1)
      | (Some None, a1) \<Rightarrow> (404, a1)
      | (Some (Some r), a1) \<Rightarrow>
          (case av_remove env (path r) a1 of
             (False, a2) \<Rightarrow> (500, a2)
           | (True, a2) \<Rightarrow>
               (case av_exec env (delete_rec i) a2 of (ok, a3) \<Rightarrow> (if ok then 204 else 500, a3))))"

section \<open>The archive as the store of the retention worker\<close>

definition archive_ops :: "archive_env \<Rightarrow> archive store_ops" where
  "archive_ops env = \<lparr>op_oldest = (\<lambda>n u. av_query env (oldest_complete n u)), op_total = av_query env total_size,
     op_delete = (\<lambda>i. av_exec env (delete_rec i)), op_mark = (\<lambda>i. av_exec env (mark_local_removed i)),
     op_remove = av_remove env, op_free = (\<lambda>a. (ae_disk env (av_clock a), tick_av a))\<rparr>"

interpretation av: retention_store "archive_ops env" av_rows for env
  by unfold_locales
    (auto simp: archive_ops_def av_query_def av_exec_def av_remove_def tick_av_def split: if_splits)

end
