(* ===== verification/Storage_Archive.thy ===== *)
theory Storage_Archive
  imports Storage_Upload
begin

text \<open>
  Recorder, upload worker, retention and requests on one archive: as long as no statement of the
  database fails, every finished recording that is listed can be played, from its file or from the
  bucket.  Then what a failing statement, or a file that cannot be examined, does to a recording.
\<close>

section \<open>Operations\<close>

datatype archive_op =
    OpStart recording
  | OpFinish string int int "byte list"
  | OpBegin int s3_config
  | OpNext
  | OpAbandon
  | OpRetain policy bool int
  | OpDelete string

text \<open>
  The recorder creates a row and a file, and completes both; a file removed in between stays
  removed.  The other operations are those of \<open>Storage_Upload\<close> and \<open>Rec_Retention\<close>.
\<close>

definition start_recording :: "recording \<Rightarrow> archive \<Rightarrow> archive" where
  "start_recording r a =
     (case create_rec 0 r (av_rows a) of
        None \<Rightarrow> a
      | Some table \<Rightarrow> a\<lparr>av_rows := table, av_files := (av_files a)(path r \<mapsto> [])\<rparr>)"

definition finish_recording :: "string \<Rightarrow> int \<Rightarrow> int \<Rightarrow> byte list \<Rightarrow> archive \<Rightarrow> archive" where
  "finish_recording i t d content a =
     (case get_rec i (av_rows a) of
        None \<Rightarrow> a
      | Some r \<Rightarrow> a\<lparr>av_rows := finalize_rec i t d (int (length content)) (av_rows a),
                  av_files := (if path r \<in> dom (av_files a) then (av_files a)(path r \<mapsto> content) else av_files a)\<rparr>)"

fun do_archive :: "archive_env \<Rightarrow> archive_op \<Rightarrow> archive \<Rightarrow> archive" where
  "do_archive env (OpStart r) a = start_recording r a"
| "do_archive env (OpFinish i t d content) a = finish_recording i t d content a"
| "do_archive env (OpBegin n cfg) a = (if av_batch a = [] then begin_pass env n cfg a else a)"
| "do_archive env OpNext a = next_upload env a"
| "do_archive env OpAbandon a = abandon a"
| "do_archive env (OpRetain p s3 cutoff) a =
     (case enforce (archive_ops env) p s3 cutoff a of None \<Rightarrow> a | Some (r, a1) \<Rightarrow> a1)"
| "do_archive env (OpDelete i) a = snd (handle_delete_recording env i a)"

section \<open>Keys\<close>

text \<open>What \<open>render_path\<close> makes, when the template has no backslash.\<close>

definition good_path :: "string \<Rightarrow> bool" where
  "good_path p \<longleftrightarrow> list_all proper (split_on (CHR ''/'') p) \<and> char_of (92 :: nat) \<notin> set p"

lemma clean_parts_proper_id:
  "\<forall>p \<in> set ps. proper p \<Longrightarrow> clean_parts ps acc = rev acc @ ps"
  by (induction ps arbitrary: acc) (auto simp: proper_def)

lemma object_key_good:
  assumes "good_path p"
  shows "object_key up p = (if up_prefix up = [] then p else up_prefix up @ ''/'' @ p)"
proof -
  have "map (\<lambda>c. if c = char_of (92 :: nat) then CHR ''/'' else c) p = p"
    using assms by (intro map_idI) (auto simp: good_path_def)
  moreover have "clean_rooted (CHR ''/'' # p) = CHR ''/'' # p"
    using assms join_split_on [of "CHR ''/''" p] by (auto simp: clean_rooted_def good_path_def list_all_iff clean_parts_proper_id)
  ultimately show ?thesis by (simp add: object_key_def trim_prefix_def has_prefix_def)
qed

section \<open>What a retention pass keeps\<close>

text \<open>
  A property of the store that survives single deletions survives a whole pass.  \<open>C\<close> says that a
  row read earlier is still up to date.
\<close>

context retention_store
begin

definition deletion_keeps :: "('s \<Rightarrow> bool) \<Rightarrow> (recording list \<Rightarrow> recording \<Rightarrow> bool) \<Rightarrow> bool \<Rightarrow> bool" where
  "deletion_keeps I C s3 \<longleftrightarrow>
     (\<forall>s. I s \<longrightarrow> distinct_ids (rows_of s) \<and> (\<forall>n u. I (snd (op_oldest ops n u s))) \<and>
        I (snd (op_total ops s)) \<and> I (snd (op_free ops s)) \<and> (\<forall>r \<in> set (rows_of s). C (rows_of s) r) \<and>
        (\<forall>r. C (rows_of s) r \<longrightarrow> I (snd (delete_one ops s3 r s)) \<and>
           (\<forall>q. C (rows_of s) q \<and> rec_id q \<noteq> rec_id r \<longrightarrow> C (rows_of (snd (delete_one ops s3 r s))) q)))"

lemma deletion_keepsD:
  assumes "deletion_keeps I C s3" "I s"
  shows "distinct_ids (rows_of s)" "I (snd (op_oldest ops n u s))" "I (snd (op_total ops s))" "I (snd (op_free ops s))"
    "r \<in> set (rows_of s) \<Longrightarrow> C (rows_of s) r" "C (rows_of s) r \<Longrightarrow> I (snd (delete_one ops s3 r s))"
    "C (rows_of s) r \<Longrightarrow> C (rows_of s) q \<Longrightarrow> rec_id q \<noteq> rec_id r \<Longrightarrow> C (rows_of (snd (delete_one ops s3 r s))) q"
  using assms unfolding deletion_keeps_def by blast+

lemma delete_aged_keeps:
  assumes "deletion_keeps I C s3" "I s" "\<forall>r \<in> set rs. C (rows_of s) r" "distinct (map rec_id rs)"
  shows "I (snd (delete_aged ops s3 cutoff rs n s))"
  using assms(2-)
proof (induction rs arbitrary: n s)
  case (Cons r rs)
  obtain ok s1 where d: "delete_one ops s3 r s = (ok, s1)" by fastforce
  have c: "C (rows_of s) r" using Cons.prems(2) by simp
  have "I s1" using deletion_keepsD(6) [OF assms(1) Cons.prems(1) c] d by simp
  moreover have "\<forall>q \<in> set rs. C (rows_of s1) q"
    using deletion_keepsD(7) [OF assms(1) Cons.prems(1) c] d Cons.prems(2,3) by (metis image_eqI list.set_intros(2) list.set_map distinct.simps(2) list.simps(9) snd_conv)
  ultimately show ?case using Cons d by (auto split: bool.splits)
qed simp

lemma delete_until_keeps:
  assumes k: "deletion_keeps I C s3" and need: "\<And>s. I s \<Longrightarrow> I (snd (need s))" "quiet need"
    and run: "delete_until ops u s3 need n s = Some (res, s')" "I s"
  shows "I s'"
  using run
proof (induction "length (filter (deletable u) (rows_of s))" arbitrary: n s rule: less_induct)
  case less
  obtain b s1 where nd: "need s = (b, s1)" by fastforce
  have s1: "I s1" "rows_of s1 = rows_of s" using need less.prems(2) nd unfolding quiet_def by (metis snd_conv)+
  obtain hits s2 where od: "op_oldest ops 1 u s1 = (hits, s2)" by fastforce
  have s2: "I s2" "rows_of s2 = rows_of s" using deletion_keepsD(2) [OF k s1(1), of 1 u] oldest_rows [OF od] od s1(2) by simp_all
  note unf = less.prems(1) [unfolded delete_until.simps [of ops u s3 need n s] nd od]
  show ?case
  proof (cases "b = Some True \<and> (\<exists>r rs. hits = Some (r # rs))")
    case False
    then show ?thesis using unf s1(1) s2(1) by (auto simp: od split: option.splits bool.splits list.splits if_splits)
  next
    case True
    then obtain r rs where b: "b = Some True" "hits = Some (r # rs)" by blast
    have "r \<in> set (oldest_complete 1 u (rows_of s1))" using oldest_hits od b by (metis list.set_intros(1))
    then have r: "r \<in> set (rows_of s2)" "deletable u r" using oldest_complete_sub [of 1 u "rows_of s1"] s1 s2 by auto
    obtain ok s4 where d: "delete_one ops s3 r s2 = (ok, s4)" by fastforce
    have s4: "I s4" using deletion_keepsD(6) [OF k s2(1) deletion_keepsD(5) [OF k s2(1) r(1)]] d by simp
    show ?thesis
    proof (cases ok)
      case False
      then show ?thesis using unf od b d s4 by simp
    next
      case True
      have "length (filter (deletable u) (rows_of s4)) < length (filter (deletable u) (rows_of s))"
        using delete_one_shrinks [of s3 r s2 s4 u] d True r s2(2) by simp
      moreover have "delete_until ops u s3 need (n + 1) s4 = Some (res, s')" using unf od b d True by simp
      ultimately show ?thesis using less.hyps s4 by blast
    qed
  qed
qed

lemma enforce_rest_keeps:
  assumes "deletion_keeps I C s3" "\<And>s. I s \<Longrightarrow> I (snd (need s))" "quiet need"
    and "enforce_rest ops active u s3 need x = Some y" "I (snd x)"
  shows "I (snd y)"
  using assms(4,5) delete_until_keeps [OF assms(1-3)]
  by (auto simp: enforce_rest_def split: if_splits option.splits)

lemma enforce_keeps:
  assumes k: "deletion_keeps I C s3" and run: "enforce ops p s3 cutoff s = Some (res, s')" "I s"
  shows "I s'"
proof -
  have need: "I (snd (over_total ops l s))" "I (snd (under_floor ops m s))" if "I s" for l m s
    using deletion_keepsD(3,4) [OF k that] by (auto simp: over_total_def under_floor_def Let_def split: prod.splits)
  have age: "I (snd (enforce_age ops p s3 cutoff s))"
  proof (cases "max_age_days p > 0")
    case True
    obtain hits s1 where od: "op_oldest ops 10000 (delete_after_upload p \<and> s3) s = (hits, s1)" by fastforce
    have s1: "I s1" "rows_of s1 = rows_of s" using deletion_keepsD(2) [OF k run(2), of 10000 "delete_after_upload p \<and> s3"]
      oldest_rows [OF od] od by simp_all
    show ?thesis
    proof (cases hits)
      case None
      then show ?thesis using True od s1 by (simp add: enforce_age_def)
    next
      case (Some rs)
      have rs: "rs = oldest_complete 10000 (delete_after_upload p \<and> s3) (rows_of s)" using oldest_hits od Some by blast
      have "\<forall>r \<in> set rs. C (rows_of s1) r"
        using oldest_complete_sub rs deletion_keepsD(5) [OF k s1(1)] s1(2) by fastforce
      moreover have "distinct (map rec_id rs)"
        using deletion_keepsD(1) [OF k run(2)] unfolding rs distinct_ids_def oldest_complete_def sql_limit_def
        by (auto simp: distinct_map inj_on_def dest!: in_set_takeD)
      ultimately show ?thesis using delete_aged_keeps [OF k s1(1)] True od Some by (simp add: enforce_age_def)
    qed
  qed (simp add: enforce_age_def run(2))
  obtain x where x: "enforce_rest ops (max_total_gb p > 0) (delete_after_upload p \<and> s3) s3
      (over_total ops (gib_bytes (max_total_gb p))) (enforce_age ops p s3 cutoff s) = Some x"
    "enforce_rest ops (min_free_gb p > 0) (delete_after_upload p \<and> s3) s3
      (under_floor ops (gib_bytes (min_free_gb p))) x = Some (res, s')"
    using run(1) unfolding enforce_def Let_def bind_eq_Some_conv by blast
  have "I (snd x)" using enforce_rest_keeps [OF k need(1) quiet_over x(1) age] .
  then show ?thesis using enforce_rest_keeps [OF k need(2) quiet_under x(2)] by simp
qed

end

section \<open>The archive's invariant\<close>

text \<open>
  \<open>footage\<close> is what the recorder wrote into each recording.  The archive is consistent when every
  finished recording is in its file or uploaded, every uploaded one is an object under its key, and
  the tab a running pass has read are up to date.
\<close>

definition bucket_key :: "string \<Rightarrow> string \<Rightarrow> string" where
  "bucket_key prefix p = object_key \<lparr>up_prefix = prefix, up_cipher = None\<rparr> p"

definition stored :: "(byte list \<Rightarrow> byte list) \<Rightarrow> byte list \<Rightarrow> bool \<Rightarrow> byte list option \<Rightarrow> bool" where
  "stored E content enc obj \<longleftrightarrow>
     (if enc then \<exists>iv. length iv = 16 \<and> obj = Some (sealed E iv content) else obj = Some content)"

definition row_ok :: "string \<Rightarrow> (byte list \<Rightarrow> byte list) \<Rightarrow> (string \<Rightarrow> byte list) \<Rightarrow>
    (string \<rightharpoonup> byte list) \<Rightarrow> (string \<rightharpoonup> byte list) \<Rightarrow> recording \<Rightarrow> bool" where
  "row_ok prefix E footage fs os r \<longleftrightarrow>
     good_path (path r) \<and> (uploaded r \<longrightarrow> complete r) \<and>
     (case fs (path r) of None \<Rightarrow> uploaded r | Some c \<Rightarrow> complete r \<longrightarrow> c = footage (rec_id r)) \<and>
     (uploaded r \<longrightarrow> s3_key r \<noteq> [] \<and> s3_key r = bucket_key prefix (path r) \<and>
        stored E (footage (rec_id r)) (encrypted r) (os (s3_key r)))"

definition current :: "rec_table \<Rightarrow> recording \<Rightarrow> bool" where
  "current tab b \<longleftrightarrow> (\<forall>q \<in> set tab. rec_id q = rec_id b \<or> path q = path b \<longrightarrow> q = b)"

definition pending_ok :: "rec_table \<Rightarrow> recording list \<Rightarrow> bool" where
  "pending_ok tab bs \<longleftrightarrow> distinct (map rec_id bs) \<and>
     (\<forall>b \<in> set bs. complete b \<and> \<not> uploaded b \<and> good_path (path b) \<and> current tab b)"

definition table_ok :: "string \<Rightarrow> (byte list \<Rightarrow> byte list) \<Rightarrow> (string \<Rightarrow> byte list) \<Rightarrow> archive \<Rightarrow> bool" where
  "table_ok prefix E footage a \<longleftrightarrow> distinct_ids (av_rows a) \<and> (\<forall>r \<in> set (av_rows a). current (av_rows a) r) \<and>
     (\<forall>r \<in> set (av_rows a). row_ok prefix E footage (av_files a) (av_bucket a) r)"

definition uploader_ok :: "string \<Rightarrow> (byte list \<Rightarrow> byte list) \<Rightarrow> uploader \<Rightarrow> bool" where
  "uploader_ok prefix E up \<longleftrightarrow> up_prefix up = prefix \<and> up_cipher up \<in> {None, Some E}"

definition archived :: "string \<Rightarrow> (byte list \<Rightarrow> byte list) \<Rightarrow> (string \<Rightarrow> byte list) \<Rightarrow> archive \<Rightarrow> bool" where
  "archived prefix E footage a \<longleftrightarrow> table_ok prefix E footage a \<and> pending_ok (av_rows a) (av_batch a) \<and>
     (av_batch a \<noteq> [] \<longrightarrow> uploader_ok prefix E (fst (av_using a)))"

lemma bucket_key_good:
  assumes "good_path p" "good_path q"
  shows "bucket_key prefix p = bucket_key prefix q \<longleftrightarrow> p = q" "bucket_key prefix p \<noteq> []"
  using object_key_good [OF assms(1)] object_key_good [OF assms(2)] assms(1)
  by (auto simp: bucket_key_def good_path_def proper_def)

lemma object_key_prefix: "object_key up p = bucket_key (up_prefix up) p"
  by (simp add: object_key_def bucket_key_def cong: if_cong)

lemma current_sub: "current tab b \<Longrightarrow> set tab' \<subseteq> set tab \<Longrightarrow> current tab' b"
  by (auto simp: current_def)

lemma pending_sub: "pending_ok tab bs \<Longrightarrow> set tab' \<subseteq> set tab \<Longrightarrow> pending_ok tab' bs"
  by (auto simp: pending_ok_def current_sub)

lemma distinct_ids_iff: "distinct_ids tab \<longleftrightarrow> distinct (map rec_id tab)"
  by (simp add: distinct_ids_def)

text \<open>Removing a file and the row it belongs to.\<close>

lemma table_delete:
  assumes "table_ok prefix E footage a" "\<forall>q \<in> set (av_rows a). path q = p \<longrightarrow> rec_id q = i"
  shows "table_ok prefix E footage (a\<lparr>av_rows := delete_rec i (av_rows a), av_files := (av_files a)(p := None)\<rparr>)"
  using assms unfolding table_ok_def
  by (auto simp: delete_rec_def row_ok_def distinct_ids_iff distinct_map inj_on_def intro: current_sub)

text \<open>Removing the file of an uploaded recording.\<close>

lemma table_remove:
  assumes "table_ok prefix E footage a" "\<forall>q \<in> set (av_rows a). path q = p \<longrightarrow> uploaded q"
  shows "table_ok prefix E footage (a\<lparr>av_files := (av_files a)(p := None)\<rparr>)"
  using assms unfolding table_ok_def by (auto simp: row_ok_def)

lemma table_tick [simp]: "table_ok prefix E footage (tick_av a) = table_ok prefix E footage a"
  by (simp add: table_ok_def tick_av_def)

text \<open>A change of one row that keeps its identifier and path.\<close>

lemma update_row_current:
  assumes "current tab b" "rec_id b \<noteq> i \<or> i \<notin> rec_id ` set tab" "\<And>r. rec_id (f r) = rec_id r \<and> path (f r) = path r"
  shows "current (update_row i f tab) b"
  using assms by (auto simp: current_def update_row_def image_iff)

lemma table_update:
  assumes t: "table_ok prefix E footage a" and f: "\<And>r. rec_id (f r) = rec_id r \<and> path (f r) = path r"
    and new: "\<And>r. r \<in> set (av_rows a) \<Longrightarrow> rec_id r = i \<Longrightarrow> row_ok prefix E footage (av_files a) (av_bucket a) (f r)"
  shows "table_ok prefix E footage (a\<lparr>av_rows := update_row i f (av_rows a)\<rparr>)"
proof -
  have "distinct_ids (update_row i f (av_rows a))"
    using t f unfolding table_ok_def distinct_ids_iff by (simp add: deletable_update_id)
  moreover have "current (update_row i f (av_rows a)) r'" if "r' \<in> set (update_row i f (av_rows a))" for r'
    using that t f unfolding table_ok_def current_def update_row_def by auto
  ultimately show ?thesis using t new unfolding table_ok_def by (auto simp: update_row_def)
qed

section \<open>Operations keep the invariant\<close>

text \<open>The database and \<^verbatim>\<open>Stat\<close> work; anything else may fail.\<close>

definition fair_env :: "archive_env \<Rightarrow> bool" where
  "fair_env env \<longleftrightarrow> (\<forall>n. ae_db env n \<and> ae_stat env n \<and> pred_option (\<lambda>iv. length iv = 16) (ae_iv env n))"

lemma query_fair: "fair_env env \<Longrightarrow> av_query env q a = (Some (q (av_rows a)), tick_av a)"
  by (simp add: av_query_def fair_env_def)

lemma exec_fair: "fair_env env \<Longrightarrow> av_exec env f a = (True, tick_av (a\<lparr>av_rows := f (av_rows a)\<rparr>))"
  by (simp add: av_exec_def fair_env_def)

lemma tick_simps [simp]:
  "av_rows (tick_av a) = av_rows a" "av_files (tick_av a) = av_files a" "av_bucket (tick_av a) = av_bucket a"
  "av_batch (tick_av a) = av_batch a" "av_using (tick_av a) = av_using a" "av_cache (tick_av a) = av_cache a"
  by (simp_all add: tick_av_def)

lemma archive_ops_simps:
  "op_oldest (archive_ops env) n u = av_query env (oldest_complete n u)" "op_total (archive_ops env) = av_query env total_size"
  "op_delete (archive_ops env) i = av_exec env (delete_rec i)" "op_mark (archive_ops env) i = av_exec env (mark_local_removed i)"
  "op_free (archive_ops env) a = (ae_disk env (av_clock a), tick_av a)"
  by (simp_all add: archive_ops_def)

lemma pending_update:
  assumes "pending_ok tab bs" "\<And>r. rec_id (f r) = rec_id r \<and> path (f r) = path r"
    and "\<And>b. b \<in> set bs \<Longrightarrow> rec_id b = i \<Longrightarrow> i \<notin> rec_id ` set tab"
  shows "pending_ok (update_row i f tab) bs"
  using assms by (auto simp: pending_ok_def intro!: update_row_current)

lemma table_mark_local:
  assumes "table_ok prefix E footage a"
  shows "table_ok prefix E footage (a\<lparr>av_rows := mark_local_removed i (av_rows a)\<rparr>)"
  unfolding mark_local_removed_def
  by (rule table_update [OF assms]) (use assms in \<open>auto simp: table_ok_def row_ok_def split: option.splits\<close>)

lemma archived_delete_one:
  assumes env: "fair_env env" and a: "table_ok prefix E footage a" "pending_ok (av_rows a) bs" and r: "current (av_rows a) r"
    and d: "delete_one (archive_ops env) s3 r a = (ok, a')"
  shows "table_ok prefix E footage a' \<and> pending_ok (av_rows a') bs \<and> av_batch a' = av_batch a \<and> av_using a' = av_using a \<and> av_cache a' = av_cache a"
proof (cases "path r \<in> dom (av_files a) \<and> \<not> ae_remove env (av_clock a)")
  case True
  then show ?thesis using d a by (auto simp: delete_one_def archive_ops_def av_remove_def)
next
  case False
  define a1 where "a1 = a\<lparr>av_files := (av_files a)(path r := None)\<rparr>"
  have rm: "op_remove (archive_ops env) (path r) a = (True, tick_av a1)"
    using False by (auto simp: archive_ops_def av_remove_def a1_def)
  show ?thesis
  proof (cases "s3 \<and> uploaded r \<and> s3_key r \<noteq> []")
    case True
    have "\<forall>q \<in> set (av_rows a). path q = path r \<longrightarrow> uploaded q" using r True by (auto simp: current_def)
    from table_mark_local [OF table_remove [OF a(1) this], of "rec_id r"]
    have t: "table_ok prefix E footage (a1\<lparr>av_rows := mark_local_removed (rec_id r) (av_rows a1)\<rparr>)" by (simp add: a1_def)
    have "b = r" if "b \<in> set bs" "rec_id b = rec_id r" "q \<in> set (av_rows a)" "rec_id q = rec_id r" for b q
      using r a(2) that unfolding current_def pending_ok_def by metis
    then have "pending_ok (mark_local_removed (rec_id r) (av_rows a)) bs"
      unfolding mark_local_removed_def using a(2) True by (intro pending_update) (auto simp: pending_ok_def)
    with t d True show ?thesis
      by (auto simp: delete_one_def rm archive_ops_simps exec_fair [OF env] table_ok_def a1_def)
  next
    case False
    have "\<forall>q \<in> set (av_rows a). path q = path r \<longrightarrow> rec_id q = rec_id r" using r by (auto simp: current_def)
    from table_delete [OF a(1) this] pending_sub [OF a(2), of "delete_rec (rec_id r) (av_rows a)"]
    show ?thesis using d False
      by (auto simp: delete_one_def rm archive_ops_simps exec_fair [OF env] table_ok_def a1_def delete_rec_def)
  qed
qed

lemma upload_spec:
  assumes "fair_env env" "uploader_ok prefix E up" "upload env up p key a = (res, a')"
  shows "\<exists>os. a' = tick_av (a\<lparr>av_bucket := os\<rparr>) \<and> (\<forall>k. k \<noteq> key \<longrightarrow> os k = av_bucket a k) \<and>
    (\<forall>enc. res = Some enc \<longrightarrow> (\<exists>plain. av_files a p = Some plain \<and> stored E plain enc (os key)))"
proof -
  have iv: "length iv = 16" if "ae_iv env n = Some iv" for n iv
    using assms(1) that unfolding fair_env_def by (metis option.pred_inject(2))
  have same: "\<exists>os. tick_av a = tick_av (a\<lparr>av_bucket := os\<rparr>) \<and> (\<forall>k. k \<noteq> key \<longrightarrow> os k = av_bucket a k)"
    by (intro exI [of _ "av_bucket a"]) (simp add: tick_av_def)
  have put: "\<exists>os. snd (put_object env key obj a) = tick_av (a\<lparr>av_bucket := os\<rparr>) \<and> (\<forall>k. k \<noteq> key \<longrightarrow> os k = av_bucket a k) \<and>
      (fst (put_object env key obj a) \<longrightarrow> os key = Some obj)" for obj
    by (intro exI [of _ "if ae_stores env (av_clock a) then (av_bucket a)(key \<mapsto> obj) else av_bucket a"])
      (auto simp: put_object_def Let_def)
  consider "(if ae_open env (av_clock a) then av_files a p else None) = None"
    | plain where "av_files a p = Some plain" "ae_open env (av_clock a)"
    by (cases "av_files a p"; cases "ae_open env (av_clock a)"; auto)
  then show ?thesis
  proof cases
    case 1
    then show ?thesis using assms(3) same by (auto simp: upload_def)
  next
    case 2
    consider "up_cipher up = None" | "up_cipher up = Some E" using assms(2) by (auto simp: uploader_ok_def)
    then show ?thesis
    proof cases
      case 1
      then show ?thesis using assms(3) put [of plain] 2 by (auto simp: upload_def stored_def split: prod.splits if_splits)
    next
      case c: 2
      show ?thesis
      proof (cases "ae_iv env (av_clock a)")
        case None
        then show ?thesis using assms(3) same 2 c by (auto simp: upload_def encrypt_all_def)
      next
        case (Some iv')
        have "encrypt_all E (Some iv') plain = Inr (sealed E iv' plain)" by (simp add: encrypt_all_def sealed_def)
        then show ?thesis using assms(3) put [of "sealed E iv' plain"] 2 c Some iv [OF Some]
          by (auto simp: upload_def stored_def split: prod.splits if_splits)
      qed
    qed
  qed
qed

lemma archived_upload_one:
  assumes env: "fair_env env" and up: "uploader_ok prefix E up"
    and a: "table_ok prefix E footage a" "pending_ok (av_rows a) (b # bs)"
    and a'_def: "a' = upload_one env up del b a"
  shows "table_ok prefix E footage a' \<and> pending_ok (av_rows a') bs \<and> av_batch a' = av_batch a \<and> av_using a' = av_using a \<and> av_cache a' = av_cache a"
proof -
  have b: "complete b" "\<not> uploaded b" "good_path (path b)" "current (av_rows a) b"
    and bs: "pending_ok (av_rows a) bs"
    using a(2) by (auto simp: pending_ok_def)
  have bs_id: "rec_id x \<noteq> rec_id b" if "x \<in> set bs" for x
    using a(2) that by (auto simp: pending_ok_def image_iff dest: sym)
  have own: "q = b" if "q \<in> set (av_rows a)" "rec_id q = rec_id b \<or> path q = path b" for q
    using b(4) that by (auto simp: current_def)
  have bs_upd: "pending_ok (update_row (rec_id b) f (av_rows a)) bs" if "\<And>r. rec_id (f r) = rec_id r \<and> path (f r) = path r" for f
    using pending_update [OF bs that] bs_id by blast
  show ?thesis
  proof (cases "path b \<in> dom (av_files a)")
    case False
    have "rec_id b \<notin> rec_id ` set (av_rows a)"
    proof
      assume "rec_id b \<in> rec_id ` set (av_rows a)"
      then have "b \<in> set (av_rows a)" using own by fastforce
      then have "row_ok prefix E footage (av_files a) (av_bucket a) b" using a(1) by (auto simp: table_ok_def)
      then show False using b(1,2) False by (auto simp: row_ok_def domIff)
    qed
    then have "mark_uploaded (rec_id b) [] False (av_rows a) = av_rows a"
      unfolding mark_uploaded_def update_row_def by (intro map_idI) (metis imageI)
    then show ?thesis using False a(1) bs by (simp add: a'_def upload_one_def exec_fair [OF env] table_ok_def)
  next
    case True
    obtain res a1 where u: "upload env up (path b) (object_key up (path b)) (tick_av a) = (res, a1)" by fastforce
    have st: "ae_stat env (av_clock a)" using env by (simp add: fair_env_def)
    define key where "key = bucket_key prefix (path b)"
    have key: "object_key up (path b) = key" using up by (simp add: key_def uploader_ok_def object_key_prefix)
    obtain os where os: "a1 = tick_av ((tick_av a)\<lparr>av_bucket := os\<rparr>)" "\<And>k. k \<noteq> key \<Longrightarrow> os k = av_bucket a k"
      "\<And>enc. res = Some enc \<Longrightarrow> \<exists>plain. av_files a (path b) = Some plain \<and> stored E plain enc (os key)"
      using upload_spec [OF env up u] by (auto simp: key)
    have others: "row_ok prefix E footage (av_files a) os q" if q: "q \<in> set (av_rows a)" for q
    proof -
      have ok: "row_ok prefix E footage (av_files a) (av_bucket a) q" using a(1) q by (auto simp: table_ok_def)
      have "s3_key q \<noteq> key" if "uploaded q"
        using ok that own [OF q] b(2,3) bucket_key_good(1) unfolding key_def row_ok_def by metis
      then show ?thesis using ok os(2) by (auto simp: row_ok_def)
    qed
    then have t1: "table_ok prefix E footage a1" using a(1) by (auto simp: table_ok_def os(1))
    show ?thesis
    proof (cases res)
      case None
      then show ?thesis using True st u t1 bs by (simp add: a'_def upload_one_def key os(1))
    next
      case (Some enc)
      obtain plain where plain: "av_files a (path b) = Some plain" "stored E plain enc (os key)" using os(3) Some by blast
      define a2 where "a2 = a1\<lparr>av_rows := mark_uploaded (rec_id b) key enc (av_rows a1)\<rparr>"
      have t2: "table_ok prefix E footage a2"
        unfolding a2_def mark_uploaded_def
      proof (rule table_update [OF t1])
        fix r assume r: "r \<in> set (av_rows a1)" "rec_id r = rec_id b"
        then have rb: "r = b" using own by (simp add: os(1))
        then have "b \<in> set (av_rows a)" using r by (simp add: os(1))
        then have "row_ok prefix E footage (av_files a) os b" using others by blast
        then show "row_ok prefix E footage (av_files a1) (av_bucket a1) (r\<lparr>uploaded := True, s3_key := key, encrypted := enc\<rparr>)"
          using plain b(1) bucket_key_good(2) [OF b(3) b(3)] by (auto simp: rb row_ok_def os(1) key_def)
      qed simp
      have rows2: "av_rows a2 = update_row (rec_id b) (\<lambda>r. r\<lparr>uploaded := True, s3_key := key, encrypted := enc\<rparr>) (av_rows a)"
        by (simp add: a2_def os(1) mark_uploaded_def)
      have p2: "pending_ok (av_rows a2) bs" unfolding rows2 by (rule bs_upd) simp
      have b2: "av_batch a2 = av_batch a" "av_using a2 = av_using a" "av_cache a2 = av_cache a" by (simp_all add: a2_def os(1))
      have up2: "\<forall>q \<in> set (av_rows (tick_av a2)). path q = path b \<longrightarrow> uploaded q"
        using own by (auto simp: rows2 update_row_def)
      define a3 where "a3 = (tick_av a2)\<lparr>av_files := (av_files a2)(path b := None)\<rparr>"
      have t3: "table_ok prefix E footage a3" using table_remove [OF _ up2] t2 by (simp add: a3_def)
      have p3: "pending_ok (mark_local_removed (rec_id b) (av_rows a2)) bs"
        unfolding mark_local_removed_def by (rule pending_update [OF p2]) (use bs_id in auto)
      show ?thesis
        using True st u t2 table_mark_local [OF t3, of "rec_id b"] p2 p3 b2
        by (auto simp: a'_def upload_one_def key Some exec_fair [OF env] Let_def a2_def [symmetric] av_remove_def table_ok_def a3_def)
    qed
  qed
qed

lemma archived_next:
  assumes "fair_env env" "archived prefix E footage a"
  shows "archived prefix E footage (next_upload env a)"
proof (cases "av_batch a")
  case (Cons b bs)
  have "table_ok prefix E footage (a\<lparr>av_batch := bs\<rparr>)" "pending_ok (av_rows (a\<lparr>av_batch := bs\<rparr>)) (b # bs)"
    "uploader_ok prefix E (fst (av_using a))"
    using assms(2) Cons by (auto simp: archived_def table_ok_def)
  from archived_upload_one [OF assms(1) this(3,1,2) refl, of "snd (av_using a)"] this(3)
  show ?thesis by (simp add: next_upload_def Cons archived_def)
qed (use assms(2) in \<open>simp add: next_upload_def\<close>)

lemma archived_delete_request:
  assumes env: "fair_env env" and a: "archived prefix E footage a"
  shows "archived prefix E footage (snd (handle_delete_recording env i a))"
proof (cases "get_rec i (av_rows a)")
  case None
  then show ?thesis using a by (simp add: handle_delete_recording_def query_fair [OF env] archived_def)
next
  case (Some r)
  then have r: "r \<in> set (av_rows a)" "rec_id r = i" by (auto simp: get_rec_def find_Some_iff)
  have "\<forall>q \<in> set (av_rows a). path q = path r \<longrightarrow> rec_id q = i"
    using a r by (auto simp: archived_def table_ok_def current_def)
  from table_delete [OF _ this] a pending_sub [of "av_rows a" "av_batch a" "delete_rec i (av_rows a)"] show ?thesis
    by (auto simp: handle_delete_recording_def query_fair [OF env] exec_fair [OF env] av_remove_def Some archived_def table_ok_def
        delete_rec_def split: if_splits)
qed

section \<open>Every listed recording can be played\<close>

text \<open>
  The settings may change, but prefix, passphrase and salt stay.  The cache of derived keys then
  holds nothing else for this passphrase and salt.
\<close>

record vault =
  v_prefix :: string
  v_pass :: "byte list"
  v_salt :: "byte list"

definition vault_cipher :: "archive_env \<Rightarrow> vault \<Rightarrow> byte list \<Rightarrow> byte list" where
  "vault_cipher env v = ae_aes env (ae_kdf env (v_pass v) (v_salt v))"

definition fair_config :: "archive_env \<Rightarrow> vault \<Rightarrow> s3_config \<Rightarrow> bool" where
  "fair_config env v cfg \<longleftrightarrow> trim_by (\<lambda>c. c = CHR ''/'') (key_prefix cfg) = v_prefix v \<and>
     (enc_enabled cfg \<longrightarrow> enc_key cfg = v_pass v \<and> ae_b64 env (enc_salt cfg) = Some (v_salt v))"

definition cache_fair :: "archive_env \<Rightarrow> vault \<Rightarrow> key_cache \<Rightarrow> bool" where
  "cache_fair env v cache \<longleftrightarrow>
     cache (ae_sha env (v_pass v @ [0] @ v_salt v)) \<in> {None, Some (ae_kdf env (v_pass v) (v_salt v))}"

definition archive_ok :: "archive_env \<Rightarrow> vault \<Rightarrow> (string \<Rightarrow> byte list) \<Rightarrow> archive \<Rightarrow> bool" where
  "archive_ok env v footage a \<longleftrightarrow> archived (v_prefix v) (vault_cipher env v) footage a \<and> cache_fair env v (av_cache a)"

lemma new_uploader_fair:
  assumes "fair_config env v cfg" "cache_fair env v cache" "new_uploader env cfg cache = (res, cache')"
  shows "cache_fair env v cache' \<and> pred_option (uploader_ok (v_prefix v) (vault_cipher env v)) res"
proof -
  have k: "k = ae_kdf env (v_pass v) (v_salt v) \<and> cache_fair env v c'"
    if "derive_key (ae_b64 env) (ae_sha env) (ae_kdf env) (v_pass v) s cache = (Inr k, c')" "ae_b64 env s = Some (v_salt v)" for s k c'
    using that assms(2) by (auto simp: derive_key_def cache_fair_def Let_def split: if_splits option.splits)
  have err: "cache_fair env v c'"
    if "derive_key (ae_b64 env) (ae_sha env) (ae_kdf env) (v_pass v) s cache = (Inl e, c')" for s e c'
    using that assms(2) by (auto simp: derive_key_def Let_def split: if_splits option.splits)
  show ?thesis
    using assms k err
    by (auto simp: new_uploader_def fair_config_def uploader_ok_def vault_cipher_def new_cipher_def Let_def
        split: if_splits prod.splits sum.splits)
qed

lemma archived_begin:
  assumes env: "fair_env env" and a: "archive_ok env v footage a" and cfg: "fair_config env v cfg" and idle: "av_batch a = []"
  shows "archive_ok env v footage (begin_pass env n cfg a)"
proof (cases "s3_enabled cfg")
  case True
  obtain res cache where u: "new_uploader env cfg (av_cache a) = (res, cache)" by fastforce
  have ok: "cache_fair env v cache" "pred_option (uploader_ok (v_prefix v) (vault_cipher env v)) res"
    using new_uploader_fair [OF cfg _ u] a by (auto simp: archive_ok_def)
  show ?thesis
  proof (cases res)
    case None
    then show ?thesis using a ok(1) True u idle by (auto simp: begin_pass_def archive_ok_def archived_def table_ok_def)
  next
    case (Some up)
    have t: "table_ok (v_prefix v) (vault_cipher env v) footage a" using a by (simp add: archive_ok_def archived_def)
    have sub: "b \<in> set (av_rows a) \<and> complete b \<and> \<not> uploaded b" if "b \<in> set (pending_uploads n (av_rows a))" for b
      using that by (auto simp: pending_uploads_def sql_limit_def split: if_splits dest!: in_set_takeD)
    have "distinct (map rec_id (av_rows a))" using t by (simp add: table_ok_def distinct_ids_def)
    then have "distinct (map rec_id (sort_key start_time (filter (\<lambda>r. complete r \<and> \<not> uploaded r) (av_rows a))))"
      by (auto simp: distinct_map inj_on_def)
    then have "distinct (map rec_id (pending_uploads n (av_rows a)))"
      by (auto simp: pending_uploads_def sql_limit_def take_map [symmetric] simp del: distinct_map)
    then have "pending_ok (av_rows a) (pending_uploads n (av_rows a))"
      using sub t by (auto simp: pending_ok_def table_ok_def row_ok_def)
    then show ?thesis
      using ok t True u Some by (auto simp: begin_pass_def query_fair [OF env] archive_ok_def archived_def table_ok_def)
  qed
qed (use a in \<open>simp add: begin_pass_def\<close>)

lemma archived_start:
  assumes a: "archived prefix E footage a" and r: "\<not> complete r" "\<not> uploaded r" "good_path (path r)"
    and new: "\<forall>q \<in> set (av_rows a) \<union> set (av_batch a). rec_id q \<noteq> rec_id r \<and> path q \<noteq> path r"
  shows "archived prefix E footage (start_recording r a)"
proof -
  have "(if created_at r = 0 then r\<lparr>created_at := 0\<rparr> else r) = r" by (cases r) auto
  then have c: "create_rec 0 r (av_rows a) = Some (av_rows a @ [r])" using new by (auto simp: create_rec_def)
  show ?thesis
    using a r new
    by (auto simp: start_recording_def c archived_def table_ok_def pending_ok_def distinct_ids_def current_def row_ok_def split: option.splits)
qed

lemma archived_finish:
  assumes a: "archived prefix E footage a" and i: "\<forall>r \<in> set (av_rows a). rec_id r = i \<longrightarrow> \<not> complete r"
  shows "archived prefix E footage (finish_recording i t d (footage i) a)"
proof (cases "get_rec i (av_rows a)")
  case (Some r)
  then have r: "r \<in> set (av_rows a)" "rec_id r = i" by (auto simp: get_rec_def find_Some_iff)
  then have row: "row_ok prefix E footage (av_files a) (av_bucket a) r" "\<not> uploaded r" "path r \<in> dom (av_files a)"
    using a i by (auto simp: archived_def table_ok_def row_ok_def split: option.splits)
  have own: "q = r" if "q \<in> set (av_rows a)" "path q = path r \<or> rec_id q = i" for q
    using a r that by (auto simp: archived_def table_ok_def current_def)
  define a1 where "a1 = a\<lparr>av_files := (av_files a)(path r \<mapsto> footage i)\<rparr>"
  have "row_ok prefix E footage (av_files a1) (av_bucket a1) q" if q: "q \<in> set (av_rows a)" for q
    using a q own [OF q] r(2) by (auto simp: archived_def table_ok_def row_ok_def a1_def split: option.splits)
  then have t1: "table_ok prefix E footage a1" using a by (simp add: archived_def table_ok_def a1_def)
  have "table_ok prefix E footage (a1\<lparr>av_rows := finalize_rec i t d (int (length (footage i))) (av_rows a1)\<rparr>)"
    unfolding finalize_rec_def
    by (rule table_update [OF t1]) (use own row r in \<open>auto simp: row_ok_def a1_def\<close>)
  moreover have "pending_ok (finalize_rec i t d (int (length (footage i))) (av_rows a)) (av_batch a)"
    unfolding finalize_rec_def
  proof (rule pending_update)
    fix b assume "b \<in> set (av_batch a)" "rec_id b = i"
    then show "i \<notin> rec_id ` set (av_rows a)"
      using a i r by (auto simp: archived_def pending_ok_def current_def)
  qed (use a in \<open>simp_all add: archived_def\<close>)
  ultimately show ?thesis
    using a row(3) by (simp add: finish_recording_def Some archived_def table_ok_def a1_def)
qed (use a in \<open>simp add: finish_recording_def\<close>)

text \<open>
  What operations respect: identifiers and paths in use (also by a running pass) are not taken for a
  new recording, a recording is finished once, and the settings keep the vault.
\<close>

fun fair_op :: "archive_env \<Rightarrow> vault \<Rightarrow> (string \<Rightarrow> byte list) \<Rightarrow> archive_op \<Rightarrow> archive \<Rightarrow> bool" where
  "fair_op env v footage (OpStart r) a \<longleftrightarrow> \<not> complete r \<and> \<not> uploaded r \<and> good_path (path r) \<and>
     list_all (\<lambda>q. rec_id q \<noteq> rec_id r \<and> path q \<noteq> path r) (av_rows a @ av_batch a)"
| "fair_op env v footage (OpFinish i t d content) a \<longleftrightarrow>
     content = footage i \<and> list_all (\<lambda>r. rec_id r = i \<longrightarrow> \<not> complete r) (av_rows a)"
| "fair_op env v footage (OpBegin n cfg) a \<longleftrightarrow> fair_config env v cfg"
| "fair_op env v footage op a \<longleftrightarrow> True"

fun fair_run :: "archive_env \<Rightarrow> vault \<Rightarrow> (string \<Rightarrow> byte list) \<Rightarrow> archive_op list \<Rightarrow> archive \<Rightarrow> bool" where
  "fair_run env v footage [] a \<longleftrightarrow> True"
| "fair_run env v footage (op # ops) a \<longleftrightarrow> fair_op env v footage op a \<and> fair_run env v footage ops (do_archive env op a)"

definition empty_archive :: archive where
  "empty_archive = \<lparr>av_rows = [], av_files = Map.empty, av_bucket = Map.empty, av_cache = Map.empty, av_batch = [],
     av_using = (\<lparr>up_prefix = [], up_cipher = None\<rparr>, False), av_clock = 0\<rparr>"

lemma archived_retain:
  assumes env: "fair_env env" and a: "archive_ok env v footage a" and run: "enforce (archive_ops env) p s3 cutoff a = Some (res, a')"
  shows "archive_ok env v footage a'"
proof -
  define I where "I = (\<lambda>x. archive_ok env v footage x)"
  have tick: "I (tick_av x) = I x" for x by (simp add: I_def archive_ok_def archived_def)
  have del: "I (snd (delete_one (archive_ops env) s3 r x))" if "I x" "current (av_rows x) r" for x r
    using archived_delete_one [OF env, of "v_prefix v" "vault_cipher env v" footage x "av_batch x" r s3] that
    by (cases "delete_one (archive_ops env) s3 r x") (auto simp: I_def archive_ok_def archived_def)
  have keep: "current (av_rows (snd (delete_one (archive_ops env) s3 r x))) q"
    if "current (av_rows x) q" "rec_id q \<noteq> rec_id r" for x r q
  proof -
    obtain ok x' where d: "delete_one (archive_ops env) s3 r x = (ok, x')" by fastforce
    have "current (mark_local_removed (rec_id r) (av_rows x)) q"
      unfolding mark_local_removed_def by (rule update_row_current [OF that(1)]) (use that(2) in auto)
    then show ?thesis
      using av.delete_one_rows [OF d] that(1) current_sub [OF that(1), of "delete_rec (rec_id r) (av_rows x)"]
      by (auto simp: d delete_rec_def)
  qed
  have "av.deletion_keeps env I current s3"
    unfolding av.deletion_keeps_def
    using del keep tick
    by (auto simp: archive_ops_simps query_fair [OF env]) (auto simp: I_def archive_ok_def archived_def table_ok_def)
  from av.enforce_keeps [OF this run] a show ?thesis by (simp add: I_def)
qed

lemma archive_ok_step:
  assumes "fair_env env" "archive_ok env v footage a" "fair_op env v footage op a"
  shows "archive_ok env v footage (do_archive env op a)"
proof (cases op)
  case (OpStart r)
  have "av_cache (start_recording r a) = av_cache a" by (simp add: start_recording_def split: option.splits)
  then show ?thesis using assms OpStart archived_start [of _ _ footage a r] by (auto simp: archive_ok_def list_all_iff)
next
  case (OpFinish i t d content)
  have "av_cache (finish_recording i t d content a) = av_cache a" by (simp add: finish_recording_def split: option.splits)
  then show ?thesis using assms OpFinish archived_finish [of _ _ footage a i] by (auto simp: archive_ok_def list_all_iff)
next
  case OpNext
  have "av_cache (next_upload env a) = av_cache a"
  proof (cases "av_batch a")
    case (Cons b bs)
    have "table_ok (v_prefix v) (vault_cipher env v) footage (a\<lparr>av_batch := bs\<rparr>)"
      "pending_ok (av_rows (a\<lparr>av_batch := bs\<rparr>)) (b # bs)" "uploader_ok (v_prefix v) (vault_cipher env v) (fst (av_using a))"
      using assms(2) Cons by (auto simp: archive_ok_def archived_def table_ok_def)
    from archived_upload_one [OF assms(1) this(3,1,2) refl, of "snd (av_using a)"] show ?thesis by (simp add: next_upload_def Cons)
  qed (simp add: next_upload_def)
  then show ?thesis using assms OpNext archived_next by (auto simp: archive_ok_def)
next
  case (OpDelete i)
  have "av_cache (snd (handle_delete_recording env i a)) = av_cache a"
    by (auto simp: handle_delete_recording_def query_fair [OF assms(1)] exec_fair [OF assms(1)] av_remove_def split: option.splits)
  then show ?thesis using assms OpDelete archived_delete_request by (auto simp: archive_ok_def)
next
  case (OpRetain p s3 cutoff)
  then show ?thesis using assms archived_retain [OF assms(1,2)] by (auto split: option.splits)
next
  case (OpBegin n cfg)
  then show ?thesis using assms archived_begin by auto
next
  case OpAbandon
  then show ?thesis using assms by (auto simp: abandon_def archive_ok_def archived_def table_ok_def pending_ok_def)
qed

lemma archive_ok_run:
  assumes "fair_env env" "fair_run env v footage ops a" "archive_ok env v footage a"
  shows "archive_ok env v footage (fold (do_archive env) ops a)"
  using assms(2,3) by (induction ops arbitrary: a) (auto intro: archive_ok_step [OF assms(1)])

lemma archive_ok_empty: "archive_ok env v footage empty_archive"
  by (simp add: archive_ok_def archived_def table_ok_def pending_ok_def cache_fair_def empty_archive_def distinct_ids_def)

text \<open>What a player gets: the recording whole, or every read of it at its position.\<close>

definition plays :: "byte list \<Rightarrow> playback \<Rightarrow> bool" where
  "plays content p \<longleftrightarrow>
     (case p of PlayFile c \<Rightarrow> c = content | PlayObject c \<Rightarrow> c = content
      | PlayDecrypted E d \<Rightarrow> d_size d = int (length content) \<and> (\<forall>ops. list_all (read_ok content) (dec_run E ops d))
      | Missing \<Rightarrow> False | Broken \<Rightarrow> False)"

definition archive_reachable :: "archive_env \<Rightarrow> s3_config option \<Rightarrow> archive \<Rightarrow> bool" where
  "archive_reachable env settings a \<longleftrightarrow>
     ae_open env (av_clock a + 1) \<and> ae_gets env (av_clock a + 1) \<and> ae_gets env (av_clock a + 2) \<and>
     (case settings of None \<Rightarrow> False
      | Some cfg \<Rightarrow> s3_enabled cfg \<and> enc_enabled cfg \<and> fst (new_uploader env cfg (av_cache a)) \<noteq> None)"

lemma get_rec_mem: "distinct_ids tab \<Longrightarrow> r \<in> set tab \<Longrightarrow> get_rec (rec_id r) tab = Some r"
  by (induction tab) (auto simp: get_rec_def distinct_ids_def)

lemma served_plays:
  assumes env: "fair_env env" and a: "archive_ok env v footage a" and r: "r \<in> set (av_rows a)" "complete r"
    and cfg: "pred_option (fair_config env v) settings" and E: "blocks (vault_cipher env v)" "int (length (footage (rec_id r))) < 2 ^ 63"
  defines "p \<equiv> handle_recording_file env settings (rec_id r) a"
  shows "plays (footage (rec_id r)) p \<or> p \<in> {Missing, Broken} \<and> \<not> archive_reachable env settings a"
proof -
  let ?c = "footage (rec_id r)"
  have t: "table_ok (v_prefix v) (vault_cipher env v) footage a" "cache_fair env v (av_cache a)"
    using a by (auto simp: archive_ok_def archived_def)
  have row: "row_ok (v_prefix v) (vault_cipher env v) footage (av_files a) (av_bucket a) r" using t(1) r(1) by (simp add: table_ok_def)
  have q: "av_query env (get_rec (rec_id r)) a = (Some (Some r), tick_av a)"
    using t(1) r(1) by (simp add: query_fair [OF env] table_ok_def get_rec_mem)
  show ?thesis
  proof (cases "av_files a (path r)")
    case (Some c)
    then have "c = ?c" using row r(2) by (simp add: row_ok_def)
    then show ?thesis using Some by (auto simp: p_def handle_recording_file_def q plays_def archive_reachable_def tick_av_def)
  next
    case None
    then have up: "uploaded r" "s3_key r \<noteq> []" "stored (vault_cipher env v) ?c (encrypted r) (av_bucket a (s3_key r))"
      using row by (auto simp: row_ok_def)
    have p: "p = (case serve_from_s3 env settings r (tick_av a) of None \<Rightarrow> Missing | Some x \<Rightarrow> x)"
      using None by (simp add: p_def handle_recording_file_def q)
    show ?thesis
    proof (cases "\<exists>cfg u. settings = Some cfg \<and> s3_enabled cfg \<and> fst (new_uploader env cfg (av_cache a)) = Some u")
      case False
      then show ?thesis by (auto simp: p serve_from_s3_def archive_reachable_def split: option.splits)
    next
      case True
      then obtain cfg u where c: "settings = Some cfg" "s3_enabled cfg" "fst (new_uploader env cfg (av_cache a)) = Some u" by blast
      obtain cache' where nu: "new_uploader env cfg (av_cache a) = (Some u, cache')" using c(3) by (metis prod.collapse)
      have u: "uploader_ok (v_prefix v) (vault_cipher env v) u" using new_uploader_fair [OF _ t(2) nu] cfg c(1) by simp
      have uc: "up_cipher u = (if enc_enabled cfg then Some (vault_cipher env v) else None)"
        using nu u by (auto simp: new_uploader_def uploader_ok_def Let_def split: if_splits prod.splits sum.splits)
      have p': "p = (case open_object env u (s3_key r) (encrypted r) (tick_av a) of None \<Rightarrow> Missing | Some x \<Rightarrow> x)"
        using up c by (simp add: p serve_from_s3_def)
      show ?thesis
      proof (cases "encrypted r")
        case False
        then show ?thesis using up(3) c nu
          by (auto simp: p' open_object_def stored_def plays_def archive_reachable_def tick_av_def split: if_splits)
      next
        case enc: True
        obtain iv where iv: "length iv = 16" "av_bucket a (s3_key r) = Some (sealed (vault_cipher env v) iv ?c)"
          using up(3) enc by (auto simp: stored_def)
        obtain d where d: "decrypting_read_seeker False \<lparr>bytes = sealed (vault_cipher env v) iv ?c, off = 0\<rparr> (20 + int (length ?c)) = Inr d"
          "dec_ok (vault_cipher env v) iv ?c d" "d_size d = int (length ?c)"
          using open_sealed [OF iv(1), of "vault_cipher env v" ?c] by blast
        have fail: "\<exists>e. decrypting_read_seeker True \<lparr>bytes = sealed (vault_cipher env v) iv ?c, off = 0\<rparr> (20 + int (length ?c)) = Inl e"
          by (simp add: decrypting_read_seeker_def)
        have reads: "list_all (read_ok ?c) (dec_run (vault_cipher env v) ops d)" for ops
          by (rule dec_run_ok [OF E(1) iv(1) E(2) d(2)])
        show ?thesis
        proof (cases "enc_enabled cfg \<and> ae_gets env (av_clock a + 1) \<and> ae_gets env (av_clock a + 2)")
          case True
          then have "open_object env u (s3_key r) True (tick_av a) = Some (PlayDecrypted (vault_cipher env v) d)"
            using iv d(1) uc by (simp add: open_object_def tick_av_def)
          then show ?thesis using enc reads d(3) by (simp add: p' plays_def)
        next
          case False
          then have "open_object env u (s3_key r) True (tick_av a) = None"
            using iv fail uc by (auto simp: open_object_def tick_av_def)
          then show ?thesis using enc c False by (auto simp: p' archive_reachable_def)
        qed
      qed
    qed
  qed
qed


definition demo_env :: archive_env where
  "demo_env = \<lparr>ae_db = (\<lambda>_. True), ae_stat = (\<lambda>_. True), ae_open = (\<lambda>_. True), ae_remove = (\<lambda>_. True), ae_stores = (\<lambda>_. True),
     ae_answers = (\<lambda>n. n \<noteq> 2), ae_gets = (\<lambda>_. True), ae_iv = (\<lambda>_. Some (replicate 16 7)), ae_url = (\<lambda>_. True), ae_client = (\<lambda>_. True),
     ae_b64 = (\<lambda>_. Some (replicate 16 1)), ae_sha = (\<lambda>x. x), ae_kdf = (\<lambda>_ _. replicate 32 9), ae_aes = (\<lambda>_ b. b), ae_disk = (\<lambda>_. None)\<rparr>"

definition demo_config :: s3_config where
  "demo_config = \<lparr>s3_enabled = True, endpoint = ''s3'', bucket_name = ''b'', key_prefix = ''nvr/'', proxy_url = [], delete_local = True,
     enc_enabled = True, enc_key = [5], enc_salt = ''salt''\<rparr>"

definition demo_vault :: vault where
  "demo_vault = \<lparr>v_prefix = ''nvr'', v_pass = [5], v_salt = replicate 16 1\<rparr>"

definition demo_row :: recording where
  "demo_row = \<lparr>rec_id = ''r'', camera_id = ''c'', path = ''c/a.mp4'', start_time = 1, end_time = 0, duration_ms = 0, size_bytes = 0,
     complete = False, uploaded = False, s3_key = [], local_removed = False, encrypted = False, created_at = 1\<rparr>"

text \<open>The first upload is not confirmed, the second one is; then the local file goes.\<close>

definition demo_run :: "archive_op list" where
  "demo_run = [OpStart demo_row, OpFinish ''r'' 2 1 [1, 2, 3], OpBegin 8 demo_config, OpNext, OpBegin 8 demo_config, OpNext]"

lemma demo_fair: "fair_run demo_env demo_vault (\<lambda>_. [1, 2, 3]) demo_run empty_archive"
  by code_simp

lemma demo_rows:
  "map (\<lambda>r. (rec_id r, complete r, uploaded r, s3_key r, local_removed r, encrypted r)) (av_rows (fold (do_archive demo_env) demo_run empty_archive)) =
     [(''r'', True, True, ''nvr/c/a.mp4'', True, True)]"
  "archive_reachable demo_env (Some demo_config) (fold (do_archive demo_env) demo_run empty_archive)"
  "av_files (fold (do_archive demo_env) demo_run empty_archive) ''c/a.mp4'' = None"
  by code_simp+


section \<open>What a failure does\<close>

text \<open>
  When the statement after a confirmed upload fails, the local file is removed all the same; the
  next pass finds no file and marks the recording as uploaded without a key: the object is in the
  bucket, but the recording can no longer be played.
\<close>

lemma mark_failure_loses:
  "let env = demo_env\<lparr>ae_answers := (\<lambda>_. True), ae_db := (\<lambda>n. n \<noteq> 3)\<rparr>;
       a = fold (do_archive env) [OpStart demo_row, OpFinish ''r'' 2 1 [1, 2, 3], OpBegin 8 demo_config, OpNext, OpBegin 8 demo_config, OpNext] empty_archive
   in map (\<lambda>r. (uploaded r, s3_key r)) (av_rows a) = [(True, [])] \<and> av_bucket a ''nvr/c/a.mp4'' \<noteq> None \<and>
      (case handle_recording_file env (Some demo_config) ''r'' a of Missing \<Rightarrow> True | _ \<Rightarrow> False)"
  by code_simp

text \<open>Any failure of \<^verbatim>\<open>Stat\<close> counts as a missing file: the recording is never uploaded.\<close>

lemma unexamined_file_skipped:
  assumes "\<not> ae_stat env (av_clock a)" "ae_db env (av_clock a + 1)"
  shows "av_rows (upload_one env up del r a) = mark_uploaded (rec_id r) [] False (av_rows a) \<and>
    av_files (upload_one env up del r a) = av_files a \<and> av_bucket (upload_one env up del r a) = av_bucket a"
  using assms by (simp add: upload_one_def av_exec_def tick_av_def)

text \<open>
  A failed upload leaves the recording first in the queue, and a pass takes only the first
  few: recordings that always fail keep later ones from being tried.
\<close>

lemma failed_upload_keeps_queue:
  assumes "path r \<in> dom (av_files a)" "ae_stat env (av_clock a)" "\<not> ae_open env (av_clock a + 1)"
  shows "pending_uploads n (av_rows (upload_one env up del r a)) = pending_uploads n (av_rows a)"
  using assms by (simp add: upload_one_def upload_def tick_av_def)

text \<open>
  Retention works on rows it has read before: a recording archived in between is deleted with its
  row, and its object stays in the bucket for ever.
\<close>

lemma stale_retention_drops_archived:
  assumes "\<not> uploaded r" "ae_remove env (av_clock a)" "ae_db env (av_clock a + 1)"
  shows "\<forall>q \<in> set (av_rows (snd (delete_one (archive_ops env) True r a))). rec_id q \<noteq> rec_id r"
    "av_bucket (snd (delete_one (archive_ops env) True r a)) = av_bucket a"
  using assms by (auto simp: delete_one_def archive_ops_def av_remove_def av_exec_def tick_av_def delete_rec_def)

end
