(* ===== verification/Rtmp_Ingest.thy ===== *)
theory Rtmp_Ingest
  imports Flv
begin

text \<open>
  One publishing RTMP connection (\<^verbatim>\<open>internal/rtmp/server.go\<close>): the handler of its messages and the
  calls it makes (offers of a stream to the manager, units written, the end).  The codec library is
  a parameter: \<open>read_avcc\<close> takes an access unit apart, \<open>read_asc\<close> checks an AAC configuration and
  \<open>rate\<close> is its sample rate.  \<open>accept n\<close> is the manager's answer to the \<open>n\<close>-th offer.  A payload that
  cannot be read is \<open>None\<close>.
\<close>

section \<open>The handler\<close>

record ingest_lib =
  read_avcc :: "byte list \<Rightarrow> byte list list option"
  read_asc :: "byte list \<Rightarrow> byte list option"
  rate :: "byte list \<Rightarrow> int"

record conn =
  stream_key :: string
  c_sps :: "byte list option"
  c_pps :: "byte list option"
  c_audio :: "byte list option"
  c_stream :: "track list option"
  video_track_id :: int
  audio_track_id :: int
  published :: bool
  offers :: nat

datatype call = Offered string "track list" bool | Written media_unit | Closed "track list" | Stopped string

definition new_conn :: conn where
  "new_conn = \<lparr>stream_key = [], c_sps = None, c_pps = None, c_audio = None, c_stream = None, video_track_id = 0,
     audio_track_id = 0, published = False, offers = 0\<rparr>"

definition video_clock_rate :: int where "video_clock_rate = 90000"

definition bytes_of :: "byte list option \<Rightarrow> byte list" where
  "bytes_of b = (case b of None \<Rightarrow> [] | Some x \<Rightarrow> x)"

definition publish :: "ingest_lib \<Rightarrow> (nat \<Rightarrow> bool) \<Rightarrow> conn \<Rightarrow> call list \<times> conn" where
  "publish lib accept h =
     (let h1 = h\<lparr>video_track_id := 1\<rparr>;
          video = \<lparr>track_id = 1, kind = MediaVideo, track_codec = CodecH264, clock_rate = video_clock_rate,
                   sps = bytes_of (c_sps h), pps = bytes_of (c_pps h), vps = [], audio_config = None\<rparr>;
          (h2, ts) = (case c_audio h of
             None \<Rightarrow> (h1, [video])
           | Some cfg \<Rightarrow> (h1\<lparr>audio_track_id := 2\<rparr>,
               [video, \<lparr>track_id = 2, kind = MediaAudio, track_codec = CodecAAC, clock_rate = rate lib cfg,
                        sps = [], pps = [], vps = [], audio_config = Some cfg\<rparr>]));
          ok = accept (offers h); h3 = h2\<lparr>offers := offers h + 1\<rparr>
      in if ok then ([Offered (stream_key h) ts True], h3\<lparr>c_stream := Some ts, published := True\<rparr>)
         else ([Offered (stream_key h) ts False, Closed ts], h3))"

definition on_video :: "ingest_lib \<Rightarrow> (nat \<Rightarrow> bool) \<Rightarrow> int \<Rightarrow> u32 \<Rightarrow> byte list option \<Rightarrow> conn \<Rightarrow> call list \<times> conn" where
  "on_video lib accept now ts payload h =
     (case payload of
        None \<Rightarrow> ([], h)
      | Some data \<Rightarrow>
          if length data < 5 \<or> data ! 0 AND 0x0F \<noteq> 7 then ([], h)
          else let frame_type = drop_bit 4 (data ! 0); packet = data ! 1;
                   cts = int24 (take 3 (drop 2 data)); body = drop 5 data
               in if packet = 0
                  then (case parse_avc_decoder_config body of
                          (s, p, None) \<Rightarrow> ([], h\<lparr>c_sps := s, c_pps := p\<rparr>)
                        | (s, p, Some e) \<Rightarrow> ([], h))
                  else if packet = 1
                  then (case read_avcc lib body of
                          None \<Rightarrow> ([], h)
                        | Some au \<Rightarrow>
                            if \<not> published h \<and> c_sps h = None then ([], h)
                            else let (calls, h1) = (if published h then ([], h) else publish lib accept h);
                                     keyframe = (frame_type = 1)
                                 in if c_stream h1 = None then (calls, h1)
                                    else (calls @ [Written \<lparr>unit_track = video_track_id h1,
                                            pts = (int (unat ts) + cts) * (video_clock_rate div 1000), ntp = now,
                                            random_access = keyframe,
                                            aus = (if keyframe then [bytes_of (c_sps h1), bytes_of (c_pps h1)] @ au else au)\<rparr>], h1))
                  else ([], h))"

definition on_audio :: "ingest_lib \<Rightarrow> int \<Rightarrow> u32 \<Rightarrow> byte list option \<Rightarrow> conn \<Rightarrow> call list \<times> conn" where
  "on_audio lib now ts payload h =
     (case payload of
        None \<Rightarrow> ([], h)
      | Some data \<Rightarrow>
          if length data < 2 \<or> drop_bit 4 (data ! 0) \<noteq> 10 then ([], h)
          else let packet = data ! 1; body = drop 2 data
               in if packet = 0
                  then (case read_asc lib body of None \<Rightarrow> ([], h) | Some cfg \<Rightarrow> ([], h\<lparr>c_audio := Some cfg\<rparr>))
                  else if packet = 1
                  then (if \<not> published h \<or> c_stream h = None \<or> audio_track_id h = 0 then ([], h)
                        else case c_audio h of
                               None \<Rightarrow> ([], h)
                             | Some cfg \<Rightarrow>
                                 ([Written \<lparr>unit_track = audio_track_id h, pts = go_div (int (unat ts) * rate lib cfg) 1000,
                                     ntp = now, random_access = True, aus = [body]\<rparr>], h))
                  else ([], h))"

definition on_close :: "conn \<Rightarrow> call list" where
  "on_close h =
     (if published h then Stopped (stream_key h) # (case c_stream h of None \<Rightarrow> [] | Some ts \<Rightarrow> [Closed ts]) else [])"

datatype rtmp_msg = MsgPublish string | MsgVideo int u32 "byte list option" | MsgAudio int u32 "byte list option"

fun on_message :: "ingest_lib \<Rightarrow> (nat \<Rightarrow> bool) \<Rightarrow> rtmp_msg \<Rightarrow> conn \<Rightarrow> call list \<times> conn" where
  "on_message lib accept (MsgPublish key) h = ([], h\<lparr>stream_key := key\<rparr>)"
| "on_message lib accept (MsgVideo now ts payload) h = on_video lib accept now ts payload h"
| "on_message lib accept (MsgAudio now ts payload) h = on_audio lib now ts payload h"

text \<open>The calls of a connection from its first message to its end.\<close>

fun ingest :: "ingest_lib \<Rightarrow> (nat \<Rightarrow> bool) \<Rightarrow> rtmp_msg list \<Rightarrow> conn \<Rightarrow> call list" where
  "ingest lib accept [] h = on_close h"
| "ingest lib accept (m # ms) h = (let (calls, h1) = on_message lib accept m h in calls @ ingest lib accept ms h1)"

section \<open>The type of a session\<close>

text \<open>
  A type checker for what the rest of the program receives.  A stream's type is its list of tracks;
  a session without a stream has type \<open>None\<close>.
\<close>

definition tracks_typed :: "track list \<Rightarrow> bool" where
  "tracks_typed ts \<longleftrightarrow>
     (case ts of
        [] \<Rightarrow> False
      | v # rest \<Rightarrow> kind v = MediaVideo \<and> track_codec v = CodecH264 \<and> clock_rate v = 90000 \<and> sps v \<noteq> [] \<and> pps v \<noteq> [] \<and>
          distinct (map track_id ts) \<and> length rest \<le> 1 \<and>
          list_all (\<lambda>a. kind a = MediaAudio \<and> track_codec a = CodecAAC \<and> audio_config a \<noteq> None) rest)"

definition unit_fits :: "media_unit \<Rightarrow> track \<Rightarrow> bool" where
  "unit_fits u t \<longleftrightarrow> track_id t = unit_track u \<and>
     (if kind t = MediaVideo then pts u mod 90 = 0 \<and> (random_access u \<longrightarrow> length (aus u) \<ge> 2 \<and> hd (aus u) \<noteq> [] \<and> aus u ! 1 \<noteq> [])
      else random_access u \<and> length (aus u) = 1)"

fun check_call :: "call \<Rightarrow> track list option \<Rightarrow> track list option option" where
  "check_call (Offered key ts ok) None = (if tracks_typed ts then Some (if ok then Some ts else None) else None)"
| "check_call (Offered key ts ok) (Some _) = None"
| "check_call (Written u) None = None"
| "check_call (Written u) (Some ts) = (if list_ex (unit_fits u) ts then Some (Some ts) else None)"
| "check_call (Closed ts) None = Some None"
| "check_call (Closed ts) (Some ts') = (if ts = ts' then Some None else None)"
| "check_call (Stopped key) None = None"
| "check_call (Stopped key) (Some ts) = Some (Some ts)"

fun check_calls :: "call list \<Rightarrow> track list option \<Rightarrow> track list option option" where
  "check_calls [] ty = Some ty"
| "check_calls (c # cs) ty = Option.bind (check_call c ty) (check_calls cs)"

lemma check_append: "check_calls (xs @ ys) ty = Option.bind (check_calls xs ty) (check_calls ys)"
  by (induction xs arbitrary: ty) (auto split: Option.bind_splits)

definition conn_ok :: "conn \<Rightarrow> bool" where
  "conn_ok h \<longleftrightarrow> (published h \<longleftrightarrow> c_stream h \<noteq> None) \<and> (c_sps h = None \<longleftrightarrow> c_pps h = None) \<and>
     c_sps h \<noteq> Some [] \<and> c_pps h \<noteq> Some [] \<and> audio_track_id h \<in> {0, 2} \<and> (audio_track_id h = 2 \<longrightarrow> c_audio h \<noteq> None) \<and>
     (case c_stream h of
        None \<Rightarrow> True
      | Some ts \<Rightarrow> c_sps h \<noteq> None \<and> tracks_typed ts \<and> track_id (hd ts) = video_track_id h \<and>
          (audio_track_id h = 2 \<longrightarrow> (\<exists>a \<in> set ts. track_id a = 2 \<and> kind a = MediaAudio)))"

lemma read_sets_nonempty:
  "read_sets b e1 e2 k first p acc = Inr (q, x) \<Longrightarrow> acc \<noteq> Some [] \<Longrightarrow> x \<noteq> Some []"
  by (induction b e1 e2 k first p acc rule: read_sets.induct) (auto simp: Let_def clone_nil_def split: if_splits)

lemma parsed_sets:
  assumes "parse_avc_decoder_config b = (s, p, None)"
  shows "s \<noteq> None \<and> p \<noteq> None \<and> s \<noteq> Some [] \<and> p \<noteq> Some []"
  using assms
  by (auto simp: parse_avc_decoder_config_def split: if_splits sum.splits prod.splits dest!: read_sets_nonempty)

lemma publish_typed:
  assumes "conn_ok h" "\<not> published h" "c_sps h \<noteq> None" "publish lib accept h = (cs, h')"
  shows "conn_ok h' \<and> check_calls cs None = Some (c_stream h') \<and> (published h' \<longleftrightarrow> c_stream h' \<noteq> None)"
  using assms
  by (auto simp: publish_def conn_ok_def tracks_typed_def video_clock_rate_def bytes_of_def Let_def split: option.splits if_splits)

lemma on_video_typed:
  assumes "conn_ok h" "on_video lib accept now ts payload h = (cs, h')"
  shows "conn_ok h' \<and> check_calls cs (c_stream h) = Some (c_stream h')"
proof (cases "\<exists>data au. payload = Some data \<and> \<not> (length data < 5 \<or> data ! 0 AND 0x0F \<noteq> 7) \<and> data ! 1 = 1 \<and>
    read_avcc lib (drop 5 data) = Some au \<and> \<not> (\<not> published h \<and> c_sps h = None)")
  case False
  then have "cs = [] \<and> (h' = h \<or> (\<exists>s p b. parse_avc_decoder_config b = (s, p, None) \<and> h' = h\<lparr>c_sps := s, c_pps := p\<rparr>))"
    using assms(2) by (auto simp: on_video_def Let_def split: option.splits if_splits prod.splits)
  then show ?thesis using assms(1) by (auto simp: conn_ok_def split: option.splits dest!: parsed_sets)
next
  case True
  then obtain data au where d: "payload = Some data" "\<not> (length data < 5 \<or> data ! 0 AND 0x0F \<noteq> 7)" "data ! 1 = 1"
    "read_avcc lib (drop 5 data) = Some au" "\<not> (\<not> published h \<and> c_sps h = None)" by blast
  obtain calls h1 where p: "(if published h then ([], h) else publish lib accept h) = (calls, h1)" by fastforce
  have h1: "conn_ok h1" "check_calls calls (c_stream h) = Some (c_stream h1)"
    using publish_typed [OF assms(1) _ _ , of lib accept calls h1] p d(5) assms(1) by (auto simp: conn_ok_def split: if_splits)
  show ?thesis
  proof (cases "c_stream h1")
    case None
    then show ?thesis using assms(2) d p h1 by (auto simp: on_video_def Let_def)
  next
    case (Some tracks)
    define u where "u = \<lparr>unit_track = video_track_id h1, pts = (int (unat ts) + int24 (take 3 (drop 2 data))) * (video_clock_rate div 1000),
      ntp = now, random_access = (drop_bit 4 (data ! 0) = 1),
      aus = (if drop_bit 4 (data ! 0) = 1 then [bytes_of (c_sps h1), bytes_of (c_pps h1)] @ au else au)\<rparr>"
    have r: "cs = calls @ [Written u]" "h' = h1"
      using assms(2) d p Some by (auto simp: on_video_def Let_def u_def)
    obtain v rest where v: "tracks = v # rest" "kind v = MediaVideo" "track_id v = video_track_id h1"
      using h1(1) Some by (auto simp: conn_ok_def tracks_typed_def split: list.splits)
    have "unit_fits u v"
      using h1(1) Some v by (auto simp: unit_fits_def u_def video_clock_rate_def conn_ok_def bytes_of_def split: option.splits)
    then show ?thesis using h1 Some by (simp add: r check_append v(1))
  qed
qed

lemma on_audio_typed:
  assumes "conn_ok h" "on_audio lib now ts payload h = (cs, h')"
  shows "conn_ok h' \<and> check_calls cs (c_stream h) = Some (c_stream h')"
proof (cases "cs = []")
  case True
  then show ?thesis using assms by (auto simp: on_audio_def Let_def conn_ok_def split: option.splits if_splits)
next
  case False
  then obtain u tracks where u: "cs = [Written u]" "h' = h" "c_stream h = Some tracks" "audio_track_id h = 2"
    "unit_track u = 2" "random_access u" "length (aus u) = 1"
    using assms by (auto simp: on_audio_def Let_def conn_ok_def split: option.splits if_splits)
  obtain a where "a \<in> set tracks" "track_id a = 2" "kind a = MediaAudio" using assms(1) u by (auto simp: conn_ok_def)
  then have "list_ex (unit_fits u) tracks" using u by (auto simp: list_ex_iff unit_fits_def intro!: bexI [of _ a])
  then show ?thesis using assms(1) u by simp
qed

lemma on_message_typed:
  assumes "conn_ok h" "on_message lib accept m h = (cs, h')"
  shows "conn_ok h' \<and> check_calls cs (c_stream h) = Some (c_stream h')"
proof (cases m)
  case (MsgVideo now ts payload)
  then show ?thesis using on_video_typed [OF assms(1)] assms(2) by simp
next
  case (MsgAudio now ts payload)
  then show ?thesis using on_audio_typed [OF assms(1)] assms(2) by simp
qed (use assms in \<open>auto simp: conn_ok_def\<close>)


section \<open>From a restream back into the ingest\<close>

text \<open>
  What the muxer of a restream sends, this handler reads back: the parameter sets from the sequence
  header, and from every video tag the access unit, the key mark and the times in milliseconds on
  the 90 kHz clock.
\<close>

lemma sequence_header_ingested:
  assumes "0 < length s" "length s < 65536" "0 < length p" "length p < 65536"
  shows "on_video lib accept now ts (Some ([0x17, 0, 0, 0, 0] @ avc_decoder_config s p)) h = ([], h\<lparr>c_sps := Some s, c_pps := Some p\<rparr>)"
  using avc_config_roundtrip_aux [OF assms] by (simp add: on_video_def)

lemma unat_u32_int: "0 \<le> k \<Longrightarrow> k < 2 ^ 32 \<Longrightarrow> unat (word_of_int k :: u32) = nat k"
  by (simp add: unat_eq_nat_uint uint_word_of_int)

lemma video_tag_ingested:
  assumes "published h" "c_stream h \<noteq> None" "read_avcc lib payload = Some au" "- (2 ^ 23) \<le> cts" "cts < 2 ^ 23"
  shows "on_video lib accept now ts (Some (video_body key cts payload)) h =
    ([Written \<lparr>unit_track = video_track_id h, pts = (int (unat ts) + cts) * 90, ntp = now, random_access = key,
        aus = (if key then [bytes_of (c_sps h), bytes_of (c_pps h)] @ au else au)\<rparr>], h)"
proof -
  have len: "length (cts_bytes cts) = 3" by (simp add: cts_bytes_def Let_def)
  have "take 3 (drop 2 (video_body key cts payload)) = cts_bytes cts" "drop 5 (video_body key cts payload) = payload"
    "video_body key cts payload ! 1 = 1" "video_body key cts payload ! 0 AND 0x0F = 7"
    "drop_bit 4 (video_body key cts payload ! 0) = (if key then 1 else 2)" "5 \<le> length (video_body key cts payload)"
    using len by (auto simp: video_body_def)
  then show ?thesis
    using assms cts_readback [OF assms(4,5)] by (auto simp: on_video_def Let_def video_clock_rate_def)
qed


definition demo_muxer :: "unit flv_muxer" where
  "demo_muxer = \<lparr>mux_video = \<lparr>track_id = 0, kind = MediaVideo, track_codec = CodecH264, clock_rate = 90000,
     sps = [1], pps = [2], vps = [], audio_config = None\<rparr>, mux_audio = None, mux_ext = (), base_video_ms = 10, base_audio_ms = 0,
     has_base_v = True, has_base_a = False, wrote_vseq = True, wrote_aseq = False\<rparr>"

definition demo_unit :: media_unit where
  "demo_unit = \<lparr>unit_track = 0, pts = 9000, ntp = 0, random_access = True, aus = [[7, 8, 9]]\<rparr>"

definition demo_lib :: ingest_lib where
  "demo_lib = \<lparr>read_avcc = (\<lambda>b. Some [b]), read_asc = Some, rate = (\<lambda>c. 1000 * int (length c))\<rparr>"

definition demo_conn :: conn where
  "demo_conn = snd (publish demo_lib (\<lambda>_. True) (new_conn\<lparr>c_sps := Some [1], c_pps := Some [2]\<rparr>))"


section \<open>What the handler does not keep\<close>

text \<open>
  An AAC configuration that arrives after the first picture is never used: the stream has no audio
  track, and all audio is dropped.
\<close>

lemma late_audio_dropped:
  assumes "published h" "audio_track_id h = 0"
  shows "fst (on_audio lib now ts payload h) = [] \<and> audio_track_id (snd (on_audio lib now ts payload h)) = 0 \<and>
    published (snd (on_audio lib now ts payload h))"
  using assms by (auto simp: on_audio_def Let_def split: option.splits)

text \<open>
  A configuration with another sample rate that arrives later changes the clock of the times, but
  not the clock rate the track was published with.
\<close>

lemma audio_clock_changes:
  "let h = snd (publish demo_lib (\<lambda>_. True) (new_conn\<lparr>c_sps := Some [1], c_pps := Some [2], c_audio := Some (replicate 44 0)\<rparr>));
       h1 = snd (on_audio demo_lib 0 0 (Some ([0xAF, 0] @ replicate 48 0)) h)
   in map clock_rate (the (c_stream h1)) = [90000, 44000] \<and>
      (case fst (on_audio demo_lib 0 1000 (Some [0xAF, 1, 5]) h1) of [Written u] \<Rightarrow> pts u = 48000 | _ \<Rightarrow> False)"
  by code_simp

text \<open>
  RTMP timestamps wrap after 49.7 days; they are used as they are, so the presentation time falls
  back by 2^32 milliseconds.
\<close>

lemma pts_falls_back:
  assumes "published h" "c_stream h \<noteq> None" "read_avcc lib [9] = Some au"
  shows "\<exists>u v. fst (on_video lib accept now 0xFFFFFFFF (Some (video_body False 0 [9])) h) = [Written u] \<and>
    fst (on_video lib accept now 0 (Some (video_body False 0 [9])) h) = [Written v] \<and> pts v = pts u - 90 * (2 ^ 32 - 1)"
  using video_tag_ingested [OF assms, of 0 accept now _ False] by simp

text \<open>A rejected publisher is offered again with every access unit it sends.\<close>

lemma rejected_offered_again:
  assumes "\<not> published h" "c_sps h \<noteq> None" "c_stream h = None" "\<not> accept (offers h)" "read_avcc lib [9] = Some au"
  shows "\<exists>tracks. fst (on_video lib accept now ts (Some (video_body key 0 [9])) h) = [Offered (stream_key h) tracks False, Closed tracks] \<and>
    \<not> published (snd (on_video lib accept now ts (Some (video_body key 0 [9])) h))"
proof -
  have len: "length (cts_bytes 0) = 3" by (simp add: cts_bytes_def Let_def)
  have "drop 5 (video_body key 0 [9]) = [9]" "video_body key 0 [9] ! 1 = 1" "video_body key 0 [9] ! 0 AND 0x0F = 7"
    "5 \<le> length (video_body key 0 [9])"
    using len by (auto simp: video_body_def)
  then show ?thesis using assms by (auto simp: on_video_def publish_def Let_def split: option.splits)
qed

end
