(* ===== verification/Mgr_Services.thy ===== *)
theory Mgr_Services
  imports Hwaccel Rec_Naming
begin

text \<open>
  The supervised servers of the manager (\<^verbatim>\<open>internal/manager/services.go\<close>) and the settings that drive
  them (\<^verbatim>\<open>SystemConfig\<close> of \<^verbatim>\<open>internal/database/models.go\<close>).  A server is its settings; the ones whose
  goroutine is alive are listed with their numbers, and a server may end on its own at any time.
  \<open>probe\<close> is \<^verbatim>\<open>hwaccel.Detect\<close> on the machine at hand.
\<close>

section \<open>Settings\<close>

record rtmp_settings =
  rtmp_enabled :: bool
  rtmp_addr :: string

record rtsp_settings =
  rtsp_enabled :: bool
  rtsp_addr :: string

record gb_settings =
  gb_enabled :: bool
  sip_addr :: string
  server_id :: string
  gb_domain :: string
  gb_password :: string
  media_ip :: string
  media_port_min :: int
  media_port_max :: int

record transcode_settings =
  hwaccel :: string
  live_bitrate :: int
  live_gop :: int

record system_config =
  sys_rtmp :: rtmp_settings
  rtsp_transport :: string
  sys_rtsp :: rtsp_settings
  webrtc_enabled :: bool
  stun_servers :: "string list"
  sys_gb :: gb_settings
  sys_transcode :: transcode_settings

definition default_system_config :: system_config where
  "default_system_config = \<lparr>sys_rtmp = \<lparr>rtmp_enabled = True, rtmp_addr = '':1935''\<rparr>, rtsp_transport = ''automatic'',
     sys_rtsp = \<lparr>rtsp_enabled = True, rtsp_addr = '':8554''\<rparr>, webrtc_enabled = True, stun_servers = [],
     sys_gb = \<lparr>gb_enabled = False, sip_addr = '':5060'', server_id = ''34020000002000000001'', gb_domain = ''3402000000'',
       gb_password = [], media_ip = [], media_port_min = 30000, media_port_max = 30500\<rparr>,
     sys_transcode = \<lparr>hwaccel = ''auto'', live_bitrate = 2500, live_gop = 50\<rparr>\<rparr>"

text \<open>\<^verbatim>\<open>SystemConfig\<close>: what is stored (\<open>None\<close> when it is missing), with the transcode defaults filled in.\<close>

definition effective_config :: "system_config option \<Rightarrow> system_config" where
  "effective_config row =
     (case row of
        None \<Rightarrow> default_system_config
      | Some sys \<Rightarrow>
          let t = sys_transcode sys;
              t1 = (if hwaccel t = [] then t\<lparr>hwaccel := ''auto''\<rparr> else t);
              t2 = (if live_bitrate t1 \<le> 0 then t1\<lparr>live_bitrate := 2500\<rparr> else t1);
              t3 = (if live_gop t2 \<le> 0 then t2\<lparr>live_gop := 50\<rparr> else t2)
          in sys\<lparr>sys_transcode := t3\<rparr>)"

section \<open>Services\<close>

datatype server = RtmpServer string | RtspServer string | GbServer gb_settings

datatype service_event = Started nat server | Cancelled nat | Probed string | RestartedGbCameras

record service =
  svc_id :: nat
  svc_sig :: string

record services =
  rtmp_svc :: "service option"
  rtsp_svc :: "service option"
  gb_svc :: "service option"
  gb_platform :: "gb_settings option"
  live_encoder :: "encoder option"
  enc_sig :: string
  enc_probed :: bool
  alive_servers :: "(nat \<times> server) list"
  next_service :: nat
  service_log :: "service_event list"

definition no_services :: services where
  "no_services = \<lparr>rtmp_svc = None, rtsp_svc = None, gb_svc = None, gb_platform = None, live_encoder = None, enc_sig = [],
     enc_probed = False, alive_servers = [], next_service = 0, service_log = []\<rparr>"

definition log_event :: "service_event \<Rightarrow> services \<Rightarrow> services" where
  "log_event e m = m\<lparr>service_log := service_log m @ [e]\<rparr>"

text \<open>\<^verbatim>\<open>stop\<close> cancels and waits for the goroutine, so the server is gone afterwards.\<close>

definition stop_service :: "service \<Rightarrow> services \<Rightarrow> services" where
  "stop_service s m = log_event (Cancelled (svc_id s)) (m\<lparr>alive_servers := filter (\<lambda>x. fst x \<noteq> svc_id s) (alive_servers m)\<rparr>)"

definition run_service :: "string \<Rightarrow> server \<Rightarrow> services \<Rightarrow> service \<times> services" where
  "run_service sg srv m =
     (let i = next_service m
      in (\<lparr>svc_id = i, svc_sig = sg\<rparr>,
          log_event (Started i srv) (m\<lparr>alive_servers := alive_servers m @ [(i, srv)], next_service := i + 1\<rparr>)))"

definition bool_str :: "bool \<Rightarrow> string" where
  "bool_str b = (if b then ''true'' else ''false'')"

definition addr_signature :: "bool \<Rightarrow> string \<Rightarrow> string" where
  "addr_signature on addr = bool_str on @ ''|'' @ addr"

definition gb_signature :: "gb_settings \<Rightarrow> string" where
  "gb_signature s = join_with ''|'' [bool_str (gb_enabled s), sip_addr s, server_id s, gb_domain s, gb_password s, media_ip s,
     itoa (media_port_min s), itoa (media_port_max s)]"

definition apply_transcode :: "(string \<Rightarrow> encoder option) \<Rightarrow> transcode_settings \<Rightarrow> services \<Rightarrow> services" where
  "apply_transcode probe s m =
     (if enc_probed m \<and> enc_sig m = hwaccel s then m
      else log_event (Probed (hwaccel s)) (m\<lparr>live_encoder := probe (hwaccel s), enc_sig := hwaccel s, enc_probed := True\<rparr>))"

definition apply_rtmp :: "rtmp_settings \<Rightarrow> services \<Rightarrow> services" where
  "apply_rtmp s m =
     (let sg = addr_signature (rtmp_enabled s) (rtmp_addr s)
      in if map_option svc_sig (rtmp_svc m) = Some sg then m
         else let m1 = (case rtmp_svc m of None \<Rightarrow> m | Some h \<Rightarrow> (stop_service h m)\<lparr>rtmp_svc := None\<rparr>)
              in if \<not> rtmp_enabled s then m1
                 else (case run_service sg (RtmpServer (rtmp_addr s)) m1 of (h, m2) \<Rightarrow> m2\<lparr>rtmp_svc := Some h\<rparr>))"

definition apply_rtsp_server :: "rtsp_settings \<Rightarrow> services \<Rightarrow> services" where
  "apply_rtsp_server s m =
     (let sg = addr_signature (rtsp_enabled s) (rtsp_addr s)
      in if map_option svc_sig (rtsp_svc m) = Some sg then m
         else let m1 = (case rtsp_svc m of None \<Rightarrow> m | Some h \<Rightarrow> (stop_service h m)\<lparr>rtsp_svc := None\<rparr>)
              in if \<not> rtsp_enabled s then m1
                 else (case run_service sg (RtspServer (rtsp_addr s)) m1 of (h, m2) \<Rightarrow> m2\<lparr>rtsp_svc := Some h\<rparr>))"

definition apply_gb28181 :: "gb_settings \<Rightarrow> services \<Rightarrow> services" where
  "apply_gb28181 s m =
     (let sg = gb_signature s
      in if map_option svc_sig (gb_svc m) = Some sg then m
         else let m1 = (case gb_svc m of None \<Rightarrow> m | Some h \<Rightarrow> (stop_service h m)\<lparr>gb_svc := None, gb_platform := None\<rparr>);
                  m2 = (if \<not> gb_enabled s then m1
                        else (case run_service sg (GbServer s) (m1\<lparr>gb_platform := Some s\<rparr>) of (h, x) \<Rightarrow> x\<lparr>gb_svc := Some h\<rparr>))
              in log_event RestartedGbCameras m2)"

definition apply_system_config :: "(string \<Rightarrow> encoder option) \<Rightarrow> system_config \<Rightarrow> services \<Rightarrow> services" where
  "apply_system_config probe sys m =
     apply_gb28181 (sys_gb sys) (apply_rtsp_server (sys_rtsp sys) (apply_rtmp (sys_rtmp sys) (apply_transcode probe (sys_transcode sys) m)))"

text \<open>A server that ends by itself (its address is taken, say) leaves its handle behind.\<close>

definition server_ends :: "nat \<Rightarrow> services \<Rightarrow> services" where
  "server_ends i m = m\<lparr>alive_servers := filter (\<lambda>x. fst x \<noteq> i) (alive_servers m)\<rparr>"

datatype service_op = Apply system_config | Ends nat

fun service_step :: "(string \<Rightarrow> encoder option) \<Rightarrow> service_op \<Rightarrow> services \<Rightarrow> services" where
  "service_step probe (Apply sys) m = apply_system_config probe sys m"
| "service_step probe (Ends i) m = server_ends i m"

section \<open>Signatures\<close>

lemma addr_signature_inj: "addr_signature a x = addr_signature b y \<longleftrightarrow> a = b \<and> x = y"
  by (auto simp: addr_signature_def bool_str_def)

text \<open>The signature of the SIP platform separates its fields only when they have no bar.\<close>

definition bar_free :: "gb_settings \<Rightarrow> bool" where
  "bar_free s \<longleftrightarrow> list_all (\<lambda>x. CHR ''|'' \<notin> set x) [sip_addr s, server_id s, gb_domain s, gb_password s, media_ip s] \<and>
     list_all (\<lambda>i. - (2 ^ 63) \<le> i \<and> i < 2 ^ 63) [media_port_min s, media_port_max s]"

lemma of_char_bar: "of_char (CHR ''|'') > (57 :: nat)"
  by simp

lemma itoa_bar_free: "CHR ''|'' \<notin> set (itoa i)"
proof
  assume "CHR ''|'' \<in> set (itoa i)"
  then have "CHR ''|'' \<in> set (utoa (nat (- i))) \<or> CHR ''|'' \<in> set (utoa (nat i))" by (auto simp: itoa_def split: if_splits)
  then obtain d where "d < 10" "CHR ''|'' = digit_char d" using utoa_digits by blast
  then show False using digit_char_neq [of d "CHR ''|''"] by (metis of_char_bar)
qed

lemma gb_signature_inj:
  assumes "bar_free s" "bar_free t" "gb_signature s = gb_signature t"
  shows "s = t"
proof -
  have parts: "split_on (CHR ''|'') (gb_signature x) = [bool_str (gb_enabled x), sip_addr x, server_id x, gb_domain x, gb_password x,
      media_ip x, itoa (media_port_min x), itoa (media_port_max x)]" if "bar_free x" for x
    unfolding gb_signature_def
    by (rule split_join) (use that itoa_bar_free in \<open>simp_all add: bar_free_def bool_str_def\<close>)
  have i: "i = j" if "itoa i = itoa j" "- (2 ^ 63) \<le> i" "i < 2 ^ 63" "- (2 ^ 63) \<le> j" "j < 2 ^ 63" for i j
  proof -
    have "(i, True) = (j, True)" using atoi_itoa [OF that(2,3)] atoi_itoa [OF that(4,5)] unfolding that(1) by (rule trans [OF sym])
    then show ?thesis by simp
  qed
  have "[bool_str (gb_enabled s), sip_addr s, server_id s, gb_domain s, gb_password s, media_ip s, itoa (media_port_min s), itoa (media_port_max s)] =
      [bool_str (gb_enabled t), sip_addr t, server_id t, gb_domain t, gb_password t, media_ip t, itoa (media_port_min t), itoa (media_port_max t)]"
    using parts [OF assms(1)] parts [OF assms(2)] unfolding assms(3) by (rule trans [OF sym])
  then have e: "bool_str (gb_enabled s) = bool_str (gb_enabled t)" "sip_addr s = sip_addr t" "server_id s = server_id t"
    "gb_domain s = gb_domain t" "gb_password s = gb_password t" "media_ip s = media_ip t"
    "itoa (media_port_min s) = itoa (media_port_min t)" "itoa (media_port_max s) = itoa (media_port_max t)"
    unfolding list.inject by blast+
  have "media_port_min s = media_port_min t" "media_port_max s = media_port_max t"
    by (rule i [OF e(7)], use assms(1,2) in \<open>simp_all add: bar_free_def\<close>) (rule i [OF e(8)], use assms(1,2) in \<open>simp_all add: bar_free_def\<close>)
  moreover have "gb_enabled s = gb_enabled t" using e(1) by (simp add: bool_str_def split: if_splits)
  ultimately show ?thesis using e(2-6) by (intro gb_settings.equality) simp_all
qed

section \<open>Convergence\<close>

definition serves :: "server \<Rightarrow> services \<Rightarrow> service option" where
  "serves srv m = (case srv of RtmpServer a \<Rightarrow> rtmp_svc m | RtspServer a \<Rightarrow> rtsp_svc m | GbServer s \<Rightarrow> gb_svc m)"

definition server_sig :: "server \<Rightarrow> string" where
  "server_sig srv = (case srv of RtmpServer a \<Rightarrow> addr_signature True a | RtspServer a \<Rightarrow> addr_signature True a | GbServer s \<Rightarrow> gb_signature s)"

text \<open>Every live server is the one its handle stands for; handles are current and distinct.\<close>

definition stands_for :: "services \<Rightarrow> nat \<times> server \<Rightarrow> bool" where
  "stands_for m x \<longleftrightarrow> serves (snd x) m = Some \<lparr>svc_id = fst x, svc_sig = server_sig (snd x)\<rparr> \<and>
     (case snd x of GbServer s \<Rightarrow> gb_platform m = Some s | _ \<Rightarrow> True)"

definition handle_ids :: "services \<Rightarrow> nat list" where
  "handle_ids m = map svc_id (List.map_filter (\<lambda>h. h) [rtmp_svc m, rtsp_svc m, gb_svc m])"

definition addr_handle :: "service option \<Rightarrow> bool" where
  "addr_handle h \<longleftrightarrow> pred_option (\<lambda>x. \<exists>a. svc_sig x = addr_signature True a) h"

definition gb_handle :: "service option \<Rightarrow> gb_settings option \<Rightarrow> bool" where
  "gb_handle h p \<longleftrightarrow> (case h of None \<Rightarrow> p = None
     | Some x \<Rightarrow> (\<exists>s. p = Some s \<and> gb_enabled s \<and> bar_free s \<and> svc_sig x = gb_signature s))"

definition services_ok :: "services \<Rightarrow> bool" where
  "services_ok m \<longleftrightarrow> distinct (map fst (alive_servers m)) \<and> (\<forall>x \<in> set (alive_servers m). stands_for m x) \<and>
     distinct (handle_ids m) \<and> (\<forall>i \<in> set (handle_ids m). i < next_service m) \<and>
     addr_handle (rtmp_svc m) \<and> addr_handle (rtsp_svc m) \<and> gb_handle (gb_svc m) (gb_platform m)"

definition handles_alive :: "services \<Rightarrow> bool" where
  "handles_alive m \<longleftrightarrow> set (handle_ids m) \<subseteq> fst ` set (alive_servers m)"

lemmas service_defs = stop_service_def run_service_def log_event_def Let_def

lemma encoder_frame [simp]:
  "services_ok (m\<lparr>live_encoder := e, enc_sig := x, enc_probed := b\<rparr>) = services_ok m"
  "services_ok (m\<lparr>service_log := l\<rparr>) = services_ok m"
  "handles_alive (m\<lparr>live_encoder := e, enc_sig := x, enc_probed := b\<rparr>) = handles_alive m"
  "handles_alive (m\<lparr>service_log := l\<rparr>) = handles_alive m"
  by (simp_all add: services_ok_def stands_for_def serves_def handle_ids_def handles_alive_def cong: server.case_cong)

text \<open>A server's handle is in the list, so a live server's number is a handle's.\<close>

lemma stands_for_handle: "stands_for m x \<Longrightarrow> fst x \<in> set (handle_ids m)"
  by (auto simp: stands_for_def serves_def handle_ids_def map_filter_simps split: server.splits option.splits)

definition without :: "nat \<Rightarrow> (nat \<times> server) list \<Rightarrow> (nat \<times> server) list" where
  "without i xs = filter (\<lambda>x. fst x \<noteq> i) xs"

lemma without_simps:
  "x \<in> set (without i xs) \<longleftrightarrow> x \<in> set xs \<and> fst x \<noteq> i" "distinct (map fst xs) \<Longrightarrow> distinct (map fst (without i xs))"
  "fst ` set (without i xs) = fst ` set xs - {i}"
  by (auto simp: without_def distinct_map_filter)

lemmas ok_defs = services_ok_def handles_alive_def handle_ids_def map_filter_simps stands_for_def serves_def addr_handle_def gb_handle_def

text \<open>Taking a server down, and starting one where there is none.\<close>

lemma ok_drop:
  assumes "services_ok m"
  shows "rtmp_svc m = Some h \<Longrightarrow> services_ok (m\<lparr>alive_servers := without (svc_id h) (alive_servers m), rtmp_svc := None\<rparr>)"
    "rtsp_svc m = Some h \<Longrightarrow> services_ok (m\<lparr>alive_servers := without (svc_id h) (alive_servers m), rtsp_svc := None\<rparr>)"
    "gb_svc m = Some h \<Longrightarrow> services_ok (m\<lparr>alive_servers := without (svc_id h) (alive_servers m), gb_svc := None, gb_platform := None\<rparr>)"
proof -
  have a: "distinct (map fst (alive_servers m))" "\<forall>x \<in> set (alive_servers m). stands_for m x" "distinct (handle_ids m)"
    "\<forall>i \<in> set (handle_ids m). i < next_service m" "addr_handle (rtmp_svc m)" "addr_handle (rtsp_svc m)" "gb_handle (gb_svc m) (gb_platform m)"
    using assms by (simp_all add: services_ok_def)
  show "rtmp_svc m = Some h \<Longrightarrow> services_ok (m\<lparr>alive_servers := without (svc_id h) (alive_servers m), rtmp_svc := None\<rparr>)"
    using a by (fastforce simp: services_ok_def without_simps stands_for_def serves_def addr_handle_def handle_ids_def map_filter_simps
        split: server.splits option.splits)
  show "rtsp_svc m = Some h \<Longrightarrow> services_ok (m\<lparr>alive_servers := without (svc_id h) (alive_servers m), rtsp_svc := None\<rparr>)"
    using a by (fastforce simp: services_ok_def without_simps stands_for_def serves_def addr_handle_def handle_ids_def map_filter_simps
        split: server.splits option.splits)
  show "gb_svc m = Some h \<Longrightarrow> services_ok (m\<lparr>alive_servers := without (svc_id h) (alive_servers m), gb_svc := None, gb_platform := None\<rparr>)"
    using a by (fastforce simp: services_ok_def without_simps stands_for_def serves_def gb_handle_def handle_ids_def map_filter_simps
        split: server.splits option.splits)
qed

lemma alive_drop:
  assumes "services_ok m" "handles_alive m"
  shows "rtmp_svc m = Some h \<Longrightarrow> handles_alive (m\<lparr>alive_servers := without (svc_id h) (alive_servers m), rtmp_svc := None\<rparr>)"
    "rtsp_svc m = Some h \<Longrightarrow> handles_alive (m\<lparr>alive_servers := without (svc_id h) (alive_servers m), rtsp_svc := None\<rparr>)"
    "gb_svc m = Some h \<Longrightarrow> handles_alive (m\<lparr>alive_servers := without (svc_id h) (alive_servers m), gb_svc := None, gb_platform := None\<rparr>)"
  using assms by (auto simp: ok_defs without_simps split: option.splits)

lemma ok_start:
  assumes "services_ok m"
  defines "i \<equiv> next_service m"
  shows "rtmp_svc m = None \<Longrightarrow> services_ok (m\<lparr>alive_servers := alive_servers m @ [(i, RtmpServer a)], next_service := i + 1,
      rtmp_svc := Some \<lparr>svc_id = i, svc_sig = addr_signature True a\<rparr>\<rparr>)"
    "rtsp_svc m = None \<Longrightarrow> services_ok (m\<lparr>alive_servers := alive_servers m @ [(i, RtspServer a)], next_service := i + 1,
      rtsp_svc := Some \<lparr>svc_id = i, svc_sig = addr_signature True a\<rparr>\<rparr>)"
    "gb_svc m = None \<Longrightarrow> gb_enabled s \<Longrightarrow> bar_free s \<Longrightarrow> services_ok (m\<lparr>gb_platform := Some s,
      alive_servers := alive_servers m @ [(i, GbServer s)], next_service := i + 1, gb_svc := Some \<lparr>svc_id = i, svc_sig = gb_signature s\<rparr>\<rparr>)"
proof -
  have new: "i \<notin> fst ` set (alive_servers m)"
    using assms(1) stands_for_handle unfolding services_ok_def i_def by force
  have ids: "\<And>h. rtmp_svc m = Some h \<or> rtsp_svc m = Some h \<or> gb_svc m = Some h \<Longrightarrow> svc_id h < i"
    using assms(1) by (auto simp: ok_defs i_def split: option.splits)
  show "rtmp_svc m = None \<Longrightarrow> services_ok (m\<lparr>alive_servers := alive_servers m @ [(i, RtmpServer a)], next_service := i + 1,
      rtmp_svc := Some \<lparr>svc_id = i, svc_sig = addr_signature True a\<rparr>\<rparr>)"
    using assms(1) new ids by (force simp: ok_defs server_sig_def split: server.splits option.splits)
  show "rtsp_svc m = None \<Longrightarrow> services_ok (m\<lparr>alive_servers := alive_servers m @ [(i, RtspServer a)], next_service := i + 1,
      rtsp_svc := Some \<lparr>svc_id = i, svc_sig = addr_signature True a\<rparr>\<rparr>)"
    using assms(1) new ids by (force simp: ok_defs server_sig_def split: server.splits option.splits)
  show "gb_svc m = None \<Longrightarrow> gb_enabled s \<Longrightarrow> bar_free s \<Longrightarrow> services_ok (m\<lparr>gb_platform := Some s,
      alive_servers := alive_servers m @ [(i, GbServer s)], next_service := i + 1, gb_svc := Some \<lparr>svc_id = i, svc_sig = gb_signature s\<rparr>\<rparr>)"
    using assms(1) new ids by (force simp: ok_defs server_sig_def split: server.splits option.splits)
qed

lemma alive_start:
  assumes "handles_alive m"
  shows "handles_alive (m\<lparr>alive_servers := alive_servers m @ [(i, srv)], next_service := n, rtmp_svc := Some \<lparr>svc_id = i, svc_sig = x\<rparr>\<rparr>)"
    "handles_alive (m\<lparr>alive_servers := alive_servers m @ [(i, srv)], next_service := n, rtsp_svc := Some \<lparr>svc_id = i, svc_sig = x\<rparr>\<rparr>)"
    "handles_alive (m\<lparr>gb_platform := p, alive_servers := alive_servers m @ [(i, srv)], next_service := n, gb_svc := Some \<lparr>svc_id = i, svc_sig = x\<rparr>\<rparr>)"
  using assms by (auto simp: handles_alive_def handle_ids_def map_filter_simps split: option.splits)

text \<open>What each part of the settings does: the handle matches, and everything stays in order.\<close>

definition keeps_services :: "services \<Rightarrow> services \<Rightarrow> bool" where
  "keeps_services m m' \<longleftrightarrow> services_ok m' \<and> (handles_alive m \<longrightarrow> handles_alive m')"

lemma keeps_unlogged: "keeps_services m (m'\<lparr>service_log := l\<rparr>) = keeps_services m m'"
  by (simp add: keeps_services_def)

lemma stop_service_eq:
  "stop_service h m = m\<lparr>alive_servers := without (svc_id h) (alive_servers m), service_log := service_log m @ [Cancelled (svc_id h)]\<rparr>"
  by (simp add: stop_service_def log_event_def without_def)

definition stop_log :: "service option \<Rightarrow> services \<Rightarrow> service_event list" where
  "stop_log h m = service_log m @ (case h of None \<Rightarrow> [] | Some x \<Rightarrow> [Cancelled (svc_id x)])"

lemma ok_rtmp:
  assumes "services_ok m"
  shows "keeps_services m (apply_rtmp s m) \<and> rtsp_svc (apply_rtmp s m) = rtsp_svc m \<and> gb_svc (apply_rtmp s m) = gb_svc m \<and>
    gb_platform (apply_rtmp s m) = gb_platform m \<and> live_encoder (apply_rtmp s m) = live_encoder m \<and>
    map_option svc_sig (rtmp_svc (apply_rtmp s m)) = (if rtmp_enabled s then Some (addr_signature True (rtmp_addr s)) else None)"
proof (cases "map_option svc_sig (rtmp_svc m) = Some (addr_signature (rtmp_enabled s) (rtmp_addr s))")
  case True
  then have "rtmp_enabled s" using assms by (auto simp: services_ok_def addr_handle_def addr_signature_inj)
  then show ?thesis using True assms by (simp add: apply_rtmp_def keeps_services_def)
next
  case False
  define m1 where "m1 = (case rtmp_svc m of None \<Rightarrow> m | Some h \<Rightarrow> m\<lparr>alive_servers := without (svc_id h) (alive_servers m), rtmp_svc := None\<rparr>)"
  have m1: "services_ok m1" "handles_alive m \<Longrightarrow> handles_alive m1" "rtmp_svc m1 = None" "rtsp_svc m1 = rtsp_svc m" "gb_svc m1 = gb_svc m"
    "gb_platform m1 = gb_platform m" "live_encoder m1 = live_encoder m"
    using ok_drop(1) [OF assms] alive_drop(1) [OF assms] assms by (auto simp: m1_def split: option.splits)
  define l where "l = stop_log (rtmp_svc m) m"
  have l: "(case rtmp_svc m of None \<Rightarrow> m | Some h \<Rightarrow> (stop_service h m)\<lparr>rtmp_svc := None\<rparr>) = m1\<lparr>service_log := l\<rparr>"
    by (simp add: m1_def stop_service_eq l_def stop_log_def split: option.splits)
  have eq: "apply_rtmp s m = (if rtmp_enabled s then
      (m1\<lparr>alive_servers := alive_servers m1 @ [(next_service m1, RtmpServer (rtmp_addr s))], next_service := next_service m1 + 1,
        rtmp_svc := Some \<lparr>svc_id = next_service m1, svc_sig = addr_signature True (rtmp_addr s)\<rparr>\<rparr>)\<lparr>service_log := l @ [Started (next_service m1) (RtmpServer (rtmp_addr s))]\<rparr>
      else m1\<lparr>service_log := l\<rparr>)"
    using False by (cases "rtmp_enabled s") (auto simp: apply_rtmp_def l run_service_def log_event_def Let_def)
  show ?thesis
    using m1 ok_start(1) [OF m1(1,3)] alive_start(1) [OF m1(2)] by (simp add: eq keeps_services_def)
qed

lemma ok_rtsp:
  assumes "services_ok m"
  shows "keeps_services m (apply_rtsp_server s m) \<and> rtmp_svc (apply_rtsp_server s m) = rtmp_svc m \<and> gb_svc (apply_rtsp_server s m) = gb_svc m \<and>
    gb_platform (apply_rtsp_server s m) = gb_platform m \<and> live_encoder (apply_rtsp_server s m) = live_encoder m \<and>
    map_option svc_sig (rtsp_svc (apply_rtsp_server s m)) = (if rtsp_enabled s then Some (addr_signature True (rtsp_addr s)) else None)"
proof (cases "map_option svc_sig (rtsp_svc m) = Some (addr_signature (rtsp_enabled s) (rtsp_addr s))")
  case True
  then have "rtsp_enabled s" using assms by (auto simp: services_ok_def addr_handle_def addr_signature_inj)
  then show ?thesis using True assms by (simp add: apply_rtsp_server_def keeps_services_def)
next
  case False
  define m1 where "m1 = (case rtsp_svc m of None \<Rightarrow> m | Some h \<Rightarrow> m\<lparr>alive_servers := without (svc_id h) (alive_servers m), rtsp_svc := None\<rparr>)"
  have m1: "services_ok m1" "handles_alive m \<Longrightarrow> handles_alive m1" "rtsp_svc m1 = None" "rtmp_svc m1 = rtmp_svc m" "gb_svc m1 = gb_svc m"
    "gb_platform m1 = gb_platform m" "live_encoder m1 = live_encoder m"
    using ok_drop(2) [OF assms] alive_drop(2) [OF assms] assms by (auto simp: m1_def split: option.splits)
  define l where "l = stop_log (rtsp_svc m) m"
  have l: "(case rtsp_svc m of None \<Rightarrow> m | Some h \<Rightarrow> (stop_service h m)\<lparr>rtsp_svc := None\<rparr>) = m1\<lparr>service_log := l\<rparr>"
    by (simp add: m1_def stop_service_eq l_def stop_log_def split: option.splits)
  have eq: "apply_rtsp_server s m = (if rtsp_enabled s then
      (m1\<lparr>alive_servers := alive_servers m1 @ [(next_service m1, RtspServer (rtsp_addr s))], next_service := next_service m1 + 1,
        rtsp_svc := Some \<lparr>svc_id = next_service m1, svc_sig = addr_signature True (rtsp_addr s)\<rparr>\<rparr>)\<lparr>service_log := l @ [Started (next_service m1) (RtspServer (rtsp_addr s))]\<rparr>
      else m1\<lparr>service_log := l\<rparr>)"
    using False by (cases "rtsp_enabled s") (auto simp: apply_rtsp_server_def l run_service_def log_event_def Let_def)
  show ?thesis
    using m1 ok_start(2) [OF m1(1,3)] alive_start(2) [OF m1(2)] by (simp add: eq keeps_services_def)
qed

lemma ok_gb:
  assumes "services_ok m" "bar_free s"
  shows "keeps_services m (apply_gb28181 s m) \<and> rtmp_svc (apply_gb28181 s m) = rtmp_svc m \<and> rtsp_svc (apply_gb28181 s m) = rtsp_svc m \<and>
    live_encoder (apply_gb28181 s m) = live_encoder m \<and> gb_platform (apply_gb28181 s m) = (if gb_enabled s then Some s else None)"
proof (cases "map_option svc_sig (gb_svc m) = Some (gb_signature s)")
  case True
  then obtain h where h: "gb_svc m = Some h" "svc_sig h = gb_signature s" by blast
  then obtain t where t: "gb_platform m = Some t" "gb_enabled t" "bar_free t" "svc_sig h = gb_signature t"
  proof -
    have "gb_handle (gb_svc m) (gb_platform m)" using assms(1) by (simp only: services_ok_def)
    then show ?thesis using that by (auto simp: gb_handle_def h(1))
  qed
  have "t = s" by (rule gb_signature_inj [OF t(3) assms(2)]) (rule trans [OF t(4) [symmetric] h(2)])
  then have "gb_platform m = Some s \<and> gb_enabled s" using t(1,2) by simp
  then show ?thesis using True assms by (simp add: apply_gb28181_def keeps_services_def)
next
  case False
  define m1 where "m1 = (case gb_svc m of None \<Rightarrow> m | Some h \<Rightarrow> m\<lparr>alive_servers := without (svc_id h) (alive_servers m), gb_svc := None, gb_platform := None\<rparr>)"
  have m1: "services_ok m1" "handles_alive m \<Longrightarrow> handles_alive m1" "gb_svc m1 = None" "rtsp_svc m1 = rtsp_svc m" "rtmp_svc m1 = rtmp_svc m"
    "live_encoder m1 = live_encoder m"
    using ok_drop(3) [OF assms(1)] alive_drop(3) [OF assms(1)] assms(1) by (auto simp: m1_def split: option.splits)
  have none: "gb_platform m1 = None" using m1(1,3) by (simp add: services_ok_def gb_handle_def)
  define l where "l = stop_log (gb_svc m) m"
  have l: "(case gb_svc m of None \<Rightarrow> m | Some h \<Rightarrow> (stop_service h m)\<lparr>gb_svc := None, gb_platform := None\<rparr>) = m1\<lparr>service_log := l\<rparr>"
    by (simp add: m1_def stop_service_eq l_def stop_log_def split: option.splits)
  have eq: "apply_gb28181 s m = (if gb_enabled s then
      (m1\<lparr>gb_platform := Some s, alive_servers := alive_servers m1 @ [(next_service m1, GbServer s)], next_service := next_service m1 + 1,
        gb_svc := Some \<lparr>svc_id = next_service m1, svc_sig = gb_signature s\<rparr>\<rparr>)\<lparr>service_log := l @ [Started (next_service m1) (GbServer s), RestartedGbCameras]\<rparr>
      else m1\<lparr>service_log := l @ [RestartedGbCameras]\<rparr>)"
    using False by (cases "gb_enabled s") (auto simp: apply_gb28181_def l run_service_def log_event_def Let_def)
  show ?thesis
    using m1 none ok_start(3) [OF m1(1,3) _ assms(2)] alive_start(3) [OF m1(2)] by (simp add: eq keeps_services_def)
qed

definition encoder_ok :: "(string \<Rightarrow> encoder option) \<Rightarrow> services \<Rightarrow> bool" where
  "encoder_ok probe m \<longleftrightarrow> (enc_probed m \<longrightarrow> live_encoder m = probe (enc_sig m))"

lemma encoder_same:
  "enc_probed (apply_rtmp r m) = enc_probed m \<and> enc_sig (apply_rtmp r m) = enc_sig m"
  "enc_probed (apply_rtsp_server q m) = enc_probed m \<and> enc_sig (apply_rtsp_server q m) = enc_sig m"
  "enc_probed (apply_gb28181 g m) = enc_probed m \<and> enc_sig (apply_gb28181 g m) = enc_sig m"
  by (auto simp: apply_rtmp_def apply_rtsp_server_def apply_gb28181_def service_defs split: option.splits)

text \<open>What the settings ask for.\<close>

definition wanted :: "system_config \<Rightarrow> server set" where
  "wanted sys = (if rtmp_enabled (sys_rtmp sys) then {RtmpServer (rtmp_addr (sys_rtmp sys))} else {}) \<union>
     (if rtsp_enabled (sys_rtsp sys) then {RtspServer (rtsp_addr (sys_rtsp sys))} else {}) \<union>
     (if gb_enabled (sys_gb sys) then {GbServer (sys_gb sys)} else {})"

definition converged :: "(string \<Rightarrow> encoder option) \<Rightarrow> system_config \<Rightarrow> services \<Rightarrow> bool" where
  "converged probe sys m \<longleftrightarrow> services_ok m \<and> encoder_ok probe m \<and> live_encoder m = probe (hwaccel (sys_transcode sys)) \<and>
     gb_platform m = (if gb_enabled (sys_gb sys) then Some (sys_gb sys) else None) \<and>
     map_option svc_sig (rtmp_svc m) = (if rtmp_enabled (sys_rtmp sys) then Some (addr_signature True (rtmp_addr (sys_rtmp sys))) else None) \<and>
     map_option svc_sig (rtsp_svc m) = (if rtsp_enabled (sys_rtsp sys) then Some (addr_signature True (rtsp_addr (sys_rtsp sys))) else None)"

lemma apply_converged:
  assumes "services_ok m" "encoder_ok probe m" "bar_free (sys_gb sys)"
  shows "converged probe sys (apply_system_config probe sys m) \<and> (handles_alive m \<longrightarrow> handles_alive (apply_system_config probe sys m))"
proof -
  define m1 where "m1 = apply_transcode probe (sys_transcode sys) m"
  define m2 where "m2 = apply_rtmp (sys_rtmp sys) m1"
  define m3 where "m3 = apply_rtsp_server (sys_rtsp sys) m2"
  have m1: "services_ok m1" "handles_alive m1 = handles_alive m" "live_encoder m1 = probe (hwaccel (sys_transcode sys))" "encoder_ok probe m1"
    using assms(1,2) by (auto simp: m1_def apply_transcode_def log_event_def encoder_ok_def)
  note m2 = ok_rtmp [OF m1(1), of "sys_rtmp sys", folded m2_def]
  have "services_ok m2" using m2 by (simp add: keeps_services_def)
  note m3 = ok_rtsp [OF this, of "sys_rtsp sys", folded m3_def]
  have "services_ok m3" using m3 by (simp add: keeps_services_def)
  note m4 = ok_gb [OF this assms(3)]
  have "apply_system_config probe sys m = apply_gb28181 (sys_gb sys) m3" by (simp add: apply_system_config_def m1_def m2_def m3_def)
  then show ?thesis
    using m1(2-4) m2 m3 m4 encoder_same(1) [of "sys_rtmp sys" m1, folded m2_def] encoder_same(2) [of "sys_rtsp sys" m2, folded m3_def]
      encoder_same(3) [of "sys_gb sys" m3]
    by (simp add: converged_def keeps_services_def encoder_ok_def)
qed

lemma ok_ends: "services_ok m \<Longrightarrow> services_ok (server_ends i m) \<and> encoder_ok probe (server_ends i m) = encoder_ok probe m"
  by (auto simp: server_ends_def services_ok_def stands_for_def serves_def handle_ids_def encoder_ok_def distinct_map_filter split: server.splits)

fun fair_service_op :: "service_op \<Rightarrow> bool" where
  "fair_service_op (Apply sys) = bar_free (sys_gb sys)"
| "fair_service_op (Ends i) = True"

lemma services_run:
  assumes "list_all fair_service_op ops" "services_ok m" "encoder_ok probe m"
  shows "services_ok (fold (service_step probe) ops m) \<and> encoder_ok probe (fold (service_step probe) ops m) \<and>
    (list_all (\<lambda>op. case op of Apply sys \<Rightarrow> True | Ends i \<Rightarrow> False) ops \<longrightarrow> handles_alive m \<longrightarrow> handles_alive (fold (service_step probe) ops m))"
  using assms
proof (induction ops arbitrary: m)
  case (Cons op ops)
  show ?case
  proof (cases op)
    case (Apply sys)
    have "converged probe sys (apply_system_config probe sys m) \<and> (handles_alive m \<longrightarrow> handles_alive (apply_system_config probe sys m))"
      by (rule apply_converged) (use Cons.prems Apply in auto)
    then show ?thesis using Cons.IH [of "apply_system_config probe sys m"] Cons.prems Apply by (auto simp: converged_def)
  next
    case (Ends i)
    then show ?thesis using Cons.IH [of "server_ends i m"] Cons.prems ok_ends by auto
  qed
qed simp

lemma handle_id_inj: "services_ok m \<Longrightarrow> (i, s) \<in> set (alive_servers m) \<Longrightarrow> (i, t) \<in> set (alive_servers m) \<Longrightarrow> s = t"
  unfolding services_ok_def by (metis eq_key_imp_eq_value)

lemma converged_servers:
  assumes "converged probe sys m"
  shows "snd ` set (alive_servers m) \<subseteq> wanted sys" "inj_on snd (set (alive_servers m))"
    "handles_alive m \<Longrightarrow> snd ` set (alive_servers m) = wanted sys"
proof -
  have ok: "services_ok m" using assms by (simp add: converged_def)
  have st: "stands_for m x" if "x \<in> set (alive_servers m)" for x using ok that by (simp add: services_ok_def)
  have sub: "snd x \<in> wanted sys" if "x \<in> set (alive_servers m)" for x
    using st [OF that] assms
    by (cases "snd x") (auto simp: stands_for_def serves_def converged_def wanted_def server_sig_def addr_signature_inj split: if_splits)
  then show "snd ` set (alive_servers m) \<subseteq> wanted sys" by auto
  show "inj_on snd (set (alive_servers m))"
  proof (rule inj_onI)
    fix x y assume xy: "x \<in> set (alive_servers m)" "y \<in> set (alive_servers m)" "snd x = snd y"
    then have "fst x = fst y" using st [OF xy(1)] st [OF xy(2)] by (simp add: stands_for_def)
    then show "x = y" using xy(3) by (rule prod_eqI)
  qed
  assume live: "handles_alive m"
  have "srv \<in> snd ` set (alive_servers m)" if "srv \<in> wanted sys" for srv
  proof -
    have conv: "map_option svc_sig (rtmp_svc m) = (if rtmp_enabled (sys_rtmp sys) then Some (addr_signature True (rtmp_addr (sys_rtmp sys))) else None)"
      "map_option svc_sig (rtsp_svc m) = (if rtsp_enabled (sys_rtsp sys) then Some (addr_signature True (rtsp_addr (sys_rtsp sys))) else None)"
      "gb_platform m = (if gb_enabled (sys_gb sys) then Some (sys_gb sys) else None)"
      using assms by (simp_all add: converged_def)
    have gb: "gb_handle (gb_svc m) (gb_platform m)" using ok by (simp only: services_ok_def)
    have "serves srv m \<noteq> None"
      using that conv gb by (auto simp: wanted_def serves_def gb_handle_def split: if_splits option.splits)
    then obtain h where h: "serves srv m = Some h" by blast
    then have "svc_id h \<in> set (handle_ids m)"
      by (cases srv) (auto simp: serves_def handle_ids_def map_filter_simps split: option.splits)
    then obtain x where x: "x \<in> set (alive_servers m)" "fst x = svc_id h" using live unfolding handles_alive_def by (metis imageE subsetD)
    have hx: "serves (snd x) m = Some \<lparr>svc_id = svc_id h, svc_sig = server_sig (snd x)\<rparr>" using st [OF x(1)] x(2) by (simp add: stands_for_def)
    have "distinct (handle_ids m)" using ok by (simp only: services_ok_def)
    then have same: "(case (srv, snd x) of (RtmpServer a, RtmpServer b) \<Rightarrow> True | (RtspServer a, RtspServer b) \<Rightarrow> True
        | (GbServer a, GbServer b) \<Rightarrow> True | _ \<Rightarrow> False)"
      using h hx by (cases srv; cases "snd x") (auto simp: serves_def handle_ids_def map_filter_simps split: option.splits)
    have "snd x = srv"
      using same that sub [OF x(1)] by (auto simp: wanted_def split: if_splits server.splits)
    then show ?thesis using x(1) by blast
  qed
  then show "snd ` set (alive_servers m) = wanted sys" using sub by auto
qed


definition demo_system :: system_config where
  "demo_system = default_system_config\<lparr>sys_gb := (sys_gb default_system_config)\<lparr>gb_enabled := True\<rparr>\<rparr>"


section \<open>Where they do not\<close>

text \<open>A server that ended on its own is not started again by applying the same settings.\<close>

lemma ended_server_stays:
  assumes "rtmp_svc m = Some h" "svc_sig h = addr_signature True (rtmp_addr s)" "rtmp_enabled s"
  shows "apply_rtmp s (server_ends (svc_id h) m) = server_ends (svc_id h) m" "svc_id h \<notin> fst ` set (alive_servers (server_ends (svc_id h) m))"
  using assms by (auto simp: apply_rtmp_def server_ends_def)

text \<open>
  Settings whose fields contain the separator can have the signature of others, and are then taken
  for unchanged.
\<close>

lemma same_signature_ignored:
  "map_option svc_sig (gb_svc m) = Some (gb_signature t) \<Longrightarrow> apply_gb28181 t m = m"
  by (simp add: apply_gb28181_def)

lemma signature_collision:
  "gb_signature (s\<lparr>gb_password := ''a|b'', media_ip := ''c''\<rparr>) = gb_signature (s\<lparr>gb_password := ''a'', media_ip := ''b|c''\<rparr>)"
  by (simp add: gb_signature_def)

text \<open>While the platform is off, every application of settings reconnects its cameras, changed or not.\<close>

lemma disabled_platform_reconnects:
  "gb_svc m = None \<Longrightarrow> \<not> gb_enabled s \<Longrightarrow> service_log (apply_gb28181 s m) = service_log m @ [RestartedGbCameras]"
  by (simp add: apply_gb28181_def log_event_def)

end
