(* ===== verification/Mse_Fragmenter.thy ===== *)
theory Mse_Fragmenter
  imports Rec_Recorder "HOL-Library.Sublist"
begin

text \<open>
  Live media for a browser's Media Source Extensions (\<^verbatim>\<open>internal/mse/streamer.go\<close>) and the
  WebSocket handler that serves it (\<^verbatim>\<open>internal/api/mse.go\<close>): an init segment, then one fragment
  per group of pictures.  The DTS extractors, the AVCC marshaller, the writer of the fMP4 boxes and
  the codec strings belong to the media libraries: they are the parameters \<open>extractor\<close>, \<open>avcc\<close>,
  \<open>marshal\<close>, \<open>marshal_init\<close> and \<open>codec_string\<close>.  A fragment is what the code hands to the writer, a
  sequence number and one part per track.  Samples, parts and the choice of the MP4 codec have the
  form the recorder's have, and its definitions are shared.
\<close>

section \<open>State\<close>

record 'x mse_track =
  ms_track :: track
  ms_video :: bool
  ms_ext :: "'x option"
  ms_pending :: "rec_sample list"
  first_dts :: int
  has_first :: bool

record 'x fragmenter =
  fr_tracks :: "track list"
  fr_states :: "int \<rightharpoonup> 'x mse_track"
  has_vid :: bool
  fr_seq :: u32

definition new_mse_track :: "(codec \<Rightarrow> 'x) \<Rightarrow> track \<Rightarrow> 'x mse_track" where
  "new_mse_track x0 t =
     \<lparr>ms_track = t, ms_video = is_video t,
      ms_ext = (if track_codec t = CodecH264 \<or> track_codec t = CodecH265 then Some (x0 (track_codec t))
                else None),
      ms_pending = [], first_dts = 0, has_first = False\<rparr>"

definition new_fragmenter :: "(codec \<Rightarrow> 'x) \<Rightarrow> track list \<Rightarrow> 'x fragmenter" where
  "new_fragmenter x0 ts =
     \<lparr>fr_tracks = ts, fr_states = map_of (rev (map (\<lambda>t. (track_id t, new_mse_track x0 t)) ts)),
      has_vid = list_ex is_video ts, fr_seq = 0\<rparr>"

section \<open>The init segment\<close>

text \<open>A track of the init segment: its id, its time scale and its codec.\<close>

fun init_tracks_of :: "track list \<Rightarrow> (int \<times> u32 \<times> mp4_codec) list option" where
  "init_tracks_of [] = Some []"
| "init_tracks_of (t # ts) =
     (case mp4_codec_for t of
        None \<Rightarrow> None
      | Some c \<Rightarrow> map_option ((#) (track_id t, word_of_int (clock_rate t), c)) (init_tracks_of ts))"

definition init_segment ::
  "((int \<times> u32 \<times> mp4_codec) list \<Rightarrow> byte list option) \<Rightarrow> 'x fragmenter \<Rightarrow> byte list option" where
  "init_segment marshal_init f =
     (case init_tracks_of (fr_tracks f) of None \<Rightarrow> None | Some its \<Rightarrow> marshal_init its)"

definition gh_codec_for :: "track \<Rightarrow> mp4_codec option" where
  "gh_codec_for t =
     (case track_codec t of
        CodecH264 \<Rightarrow> Some (MP4_H264 (sps t) (pps t))
      | CodecH265 \<Rightarrow> Some (MP4_H265 (vps t) (sps t) (pps t))
      | CodecAAC \<Rightarrow> map_option MP4_Audio (audio_config t))"

fun join_comma :: "string list \<Rightarrow> string" where
  "join_comma [] = []"
| "join_comma [p] = p"
| "join_comma (p # ps) = p @ '', '' @ join_comma ps"

definition mime_codec :: "(mp4_codec \<Rightarrow> string) \<Rightarrow> 'x fragmenter \<Rightarrow> string" where
  "mime_codec codec_string f =
     (let parts = filter (\<lambda>s. s \<noteq> []) (map codec_string (List.map_filter gh_codec_for (fr_tracks f)))
      in ''video/mp4; codecs='' @ [CHR 0x22] @ join_comma parts @ [CHR 0x22])"

section \<open>Fragments\<close>

text \<open>\<open>None\<close> is the nil slice; \<open>Crashed\<close> the panic of an index out of range.\<close>

datatype push_result = Emit "byte list option" | Failed | Crashed

definition extract_dts ::
  "('x \<Rightarrow> codec \<Rightarrow> byte list list \<Rightarrow> int \<Rightarrow> int option \<times> 'x) \<Rightarrow> 'x mse_track \<Rightarrow> media_unit \<Rightarrow>
   int option \<times> 'x mse_track" where
  "extract_dts extractor s u =
     (case ms_ext s of
        Some x \<Rightarrow> (let (d, x') = extractor x (track_codec (ms_track s)) (aus u) (pts u)
                   in (d, s\<lparr>ms_ext := Some x'\<rparr>))
      | None \<Rightarrow> (Some (pts u), s))"

definition mse_anchor :: "'x mse_track \<Rightarrow> 'x mse_track" where
  "mse_anchor s = (if has_first s then s
                   else s\<lparr>first_dts := dts (hd (ms_pending s)), has_first := True\<rparr>)"

definition mse_part :: "int \<Rightarrow> bool \<Rightarrow> int \<Rightarrow> int \<Rightarrow> rec_sample list \<Rightarrow> part_track" where
  "mse_part i vid first boundary ss =
     \<lparr>part_id = i, base_time = word_of_int (dts (hd ss) - first),
      part_samples = frag_samples vid boundary ss\<rparr>"

text \<open>The loop of \<^verbatim>\<open>flush\<close> over the tracks; a track without samples has no part.\<close>

fun flush_tracks ::
  "int \<Rightarrow> track list \<Rightarrow> (int \<rightharpoonup> 'x mse_track) \<Rightarrow> part_track list \<times> (int \<rightharpoonup> 'x mse_track)" where
  "flush_tracks b [] st = ([], st)"
| "flush_tracks b (t # ts) st =
     (case st (track_id t) of
        None \<Rightarrow> flush_tracks b ts st
      | Some s \<Rightarrow>
          if ms_pending s = [] then flush_tracks b ts st
          else (let s1 = mse_anchor s;
                    p = mse_part (track_id t) (ms_video s) (first_dts s1) b (ms_pending s1);
                    (ps, st') = flush_tracks b ts (st(track_id t \<mapsto> s1\<lparr>ms_pending := []\<rparr>))
                in (p # ps, st')))"

definition mse_flush ::
  "(u32 \<Rightarrow> part_track list \<Rightarrow> byte list option) \<Rightarrow> int \<Rightarrow> 'x fragmenter \<Rightarrow> push_result \<times> 'x fragmenter" where
  "mse_flush marshal b f =
     (let (ps, st) = flush_tracks b (fr_tracks f) (fr_states f); f1 = f\<lparr>fr_states := st\<rparr>
      in if ps = [] then (Emit None, f1)
         else (let f2 = f1\<lparr>fr_seq := fr_seq f1 + 1\<rparr>
               in case marshal (fr_seq f2) ps of
                    None \<Rightarrow> (Failed, f2)
                  | Some out \<Rightarrow> (Emit (Some out), f2)))"

definition put_ms :: "int \<Rightarrow> 'x mse_track \<Rightarrow> 'x fragmenter \<Rightarrow> 'x fragmenter" where
  "put_ms i s f = f\<lparr>fr_states := (fr_states f)(i \<mapsto> s)\<rparr>"

definition append_pending :: "int \<Rightarrow> rec_sample list \<Rightarrow> 'x fragmenter \<Rightarrow> 'x fragmenter" where
  "append_pending i ss f =
     f\<lparr>fr_states := (\<lambda>j. if j = i then map_option (\<lambda>s. s\<lparr>ms_pending := ms_pending s @ ss\<rparr>) (fr_states f i)
                         else fr_states f j)\<rparr>"

definition push_video ::
  "('x \<Rightarrow> codec \<Rightarrow> byte list list \<Rightarrow> int \<Rightarrow> int option \<times> 'x) \<Rightarrow> (byte list list \<Rightarrow> byte list option) \<Rightarrow>
   (u32 \<Rightarrow> part_track list \<Rightarrow> byte list option) \<Rightarrow> 'x mse_track \<Rightarrow> media_unit \<Rightarrow> 'x fragmenter \<Rightarrow>
   push_result \<times> 'x fragmenter" where
  "push_video extractor avcc marshal s u f =
     (let (od, s1) = extract_dts extractor s u; f1 = put_ms (unit_track u) s1 f
      in case od of
           None \<Rightarrow> (Emit None, f1)
         | Some d \<Rightarrow>
             (let (r, f2) = (if random_access u \<and> ms_pending s1 \<noteq> [] then mse_flush marshal d f1
                             else (Emit None, f1))
              in case r of
                   Emit frag \<Rightarrow>
                     (case avcc (aus u) of
                        None \<Rightarrow> (Failed, f2)
                      | Some p \<Rightarrow>
                          (Emit frag,
                           append_pending (unit_track u)
                             [\<lparr>dts = d, pts_offset = word_of_int (pts u - d), is_sync = random_access u,
                               payload = p\<rparr>] f2))
                 | _ \<Rightarrow> (r, f2)))"

text \<open>Without video a fragment is due about once a second; the last sample gives its end.\<close>

definition push_audio ::
  "(u32 \<Rightarrow> part_track list \<Rightarrow> byte list option) \<Rightarrow> 'x mse_track \<Rightarrow> media_unit \<Rightarrow> 'x fragmenter \<Rightarrow>
   push_result \<times> 'x fragmenter" where
  "push_audio marshal s u f =
     (let pending = ms_pending s @ audio_samples (pts u) 0 (aus u);
          f1 = put_ms (unit_track u) (s\<lparr>ms_pending := pending\<rparr>) f
      in if \<not> has_vid f1 \<and> int (length pending) \<ge> go_div (clock_rate (ms_track s)) 1024
         then (if pending = [] then (Crashed, f1)
               else mse_flush marshal (dts (last pending) + 1024) f1)
         else (Emit None, f1))"

definition mse_push ::
  "('x \<Rightarrow> codec \<Rightarrow> byte list list \<Rightarrow> int \<Rightarrow> int option \<times> 'x) \<Rightarrow> (byte list list \<Rightarrow> byte list option) \<Rightarrow>
   (u32 \<Rightarrow> part_track list \<Rightarrow> byte list option) \<Rightarrow> media_unit \<Rightarrow> 'x fragmenter \<Rightarrow>
   push_result \<times> 'x fragmenter" where
  "mse_push extractor avcc marshal u f =
     (case fr_states f (unit_track u) of
        None \<Rightarrow> (Emit None, f)
      | Some s \<Rightarrow> if ms_video s then push_video extractor avcc marshal s u f
                  else push_audio marshal s u f)"

section \<open>The connection of a viewer\<close>

text \<open>What the select of the handler finds: the client or the request is gone, the stream ended,
  or a unit of the reader.\<close>

datatype mse_event = Gone | StreamEnded | Arrives media_unit

datatype ws_message = MimeHeader string | Binary "byte list"

datatype mse_reply = NotLive | InitFailed | NotUpgraded | Upgraded "ws_message list"

fun mse_loop ::
  "(media_unit \<Rightarrow> 'x fragmenter \<Rightarrow> push_result \<times> 'x fragmenter) \<Rightarrow> (nat \<Rightarrow> bool) \<Rightarrow> nat \<Rightarrow>
   'x fragmenter \<Rightarrow> mse_event list \<Rightarrow> ws_message list" where
  "mse_loop step wr n f [] = []"
| "mse_loop step wr n f (Gone # es) = []"
| "mse_loop step wr n f (StreamEnded # es) = []"
| "mse_loop step wr n f (Arrives u # es) =
     (case step u f of
        (Emit None, f1) \<Rightarrow> mse_loop step wr n f1 es
      | (Emit (Some b), f1) \<Rightarrow> if wr n then Binary b # mse_loop step wr (Suc n) f1 es else []
      | (_, f1) \<Rightarrow> [])"

text \<open>
  \<open>live\<close> is the answer of \<^verbatim>\<open>LiveStreamFor\<close>, \<open>upgrade\<close> whether the request became a WebSocket; write
  number \<open>n\<close> of the connection succeeds when \<open>wr n\<close>.
\<close>

definition handle_mse ::
  "('x \<Rightarrow> codec \<Rightarrow> byte list list \<Rightarrow> int \<Rightarrow> int option \<times> 'x) \<Rightarrow> (byte list list \<Rightarrow> byte list option) \<Rightarrow>
   (u32 \<Rightarrow> part_track list \<Rightarrow> byte list option) \<Rightarrow>
   ((int \<times> u32 \<times> mp4_codec) list \<Rightarrow> byte list option) \<Rightarrow> (mp4_codec \<Rightarrow> string) \<Rightarrow> (codec \<Rightarrow> 'x) \<Rightarrow>
   track list option \<Rightarrow> bool \<Rightarrow> (nat \<Rightarrow> bool) \<Rightarrow> mse_event list \<Rightarrow> mse_reply" where
  "handle_mse extractor avcc marshal marshal_init codec_string x0 live upgrade wr es =
     (case live of
        None \<Rightarrow> NotLive
      | Some ts \<Rightarrow>
          (let f = new_fragmenter x0 ts
           in case init_segment marshal_init f of
                None \<Rightarrow> InitFailed
              | Some seg \<Rightarrow>
                  if \<not> upgrade then NotUpgraded
                  else if \<not> wr 0 then Upgraded []
                  else if \<not> wr 1 then Upgraded [MimeHeader (mime_codec codec_string f)]
                  else Upgraded (MimeHeader (mime_codec codec_string f) # Binary seg #
                         mse_loop (mse_push extractor avcc marshal) wr 2 f es)))"

section \<open>Reference: the samples of a track and its groups of pictures\<close>

definition read_dts ::
  "('x \<Rightarrow> codec \<Rightarrow> byte list list \<Rightarrow> int \<Rightarrow> int option \<times> 'x) \<Rightarrow> codec \<Rightarrow> 'x option \<Rightarrow> media_unit \<Rightarrow>
   int option \<times> 'x option" where
  "read_dts extractor c xt u =
     (case xt of
        Some x \<Rightarrow> (let (d, x') = extractor x c (aus u) (pts u) in (d, Some x'))
      | None \<Rightarrow> (Some (pts u), None))"

text \<open>What one unit adds to track \<open>i\<close>, whatever the fragments are.\<close>

definition unit_samples ::
  "('x \<Rightarrow> codec \<Rightarrow> byte list list \<Rightarrow> int \<Rightarrow> int option \<times> 'x) \<Rightarrow> (byte list list \<Rightarrow> byte list option) \<Rightarrow>
   track \<Rightarrow> 'x option \<Rightarrow> media_unit \<Rightarrow> rec_sample list \<times> 'x option" where
  "unit_samples extractor avcc t xt u =
     (if unit_track u \<noteq> track_id t then ([], xt)
      else if is_video t then
        (case read_dts extractor (track_codec t) xt u of
           (None, e) \<Rightarrow> ([], e)
         | (Some d, e) \<Rightarrow> ([\<lparr>dts = d, pts_offset = word_of_int (pts u - d), is_sync = random_access u,
                             payload = the (avcc (aus u))\<rparr>], e))
      else (audio_samples (pts u) 0 (aus u), xt))"

fun track_samples ::
  "('x \<Rightarrow> codec \<Rightarrow> byte list list \<Rightarrow> int \<Rightarrow> int option \<times> 'x) \<Rightarrow> (byte list list \<Rightarrow> byte list option) \<Rightarrow>
   track \<Rightarrow> 'x option \<Rightarrow> media_unit list \<Rightarrow> rec_sample list" where
  "track_samples extractor avcc t xt [] = []"
| "track_samples extractor avcc t xt (u # us) =
     (let (xs, e) = unit_samples extractor avcc t xt u in xs @ track_samples extractor avcc t e us)"

text \<open>A group of pictures ends where the next one's key picture begins.\<close>

fun gops :: "rec_sample list \<Rightarrow> rec_sample list list" where
  "gops [] = []"
| "gops (s # ss) =
     (case gops ss of
        [] \<Rightarrow> [[s]]
      | g # gs \<Rightarrow> if is_sync (hd g) then [s] # g # gs else (s # g) # gs)"

text \<open>Every group but the last as a part: its last picture lasts until the next group begins.\<close>

fun gop_parts :: "int \<Rightarrow> int \<Rightarrow> rec_sample list list \<Rightarrow> part_track list" where
  "gop_parts i first (g # h # gs) = mse_part i True first (dts (hd h)) g # gop_parts i first (h # gs)"
| "gop_parts i first _ = []"

fun mse_run ::
  "(media_unit \<Rightarrow> 'x fragmenter \<Rightarrow> push_result \<times> 'x fragmenter) \<Rightarrow> 'x fragmenter \<Rightarrow> media_unit list \<Rightarrow>
   byte list list \<times> 'x fragmenter" where
  "mse_run step f [] = ([], f)"
| "mse_run step f (u # us) =
     (case step u f of
        (Emit None, f1) \<Rightarrow> mse_run step f1 us
      | (Emit (Some b), f1) \<Rightarrow> (let (bs, f2) = mse_run step f1 us in (b # bs, f2))
      | (_, f1) \<Rightarrow> ([], f1))"

section \<open>Groups\<close>

lemma gops_Nil_iff [simp]: "gops ss = [] \<longleftrightarrow> ss = []"
  by (cases ss) (auto split: list.splits if_splits)

lemma concat_gops [simp]: "concat (gops ss) = ss"
  by (induction ss) (auto split: list.splits if_splits)

lemma gops_nonempty: "g \<in> set (gops ss) \<Longrightarrow> g \<noteq> []"
  by (induction ss arbitrary: g) (auto split: list.splits if_splits)

lemma hd_hd_gops: "ss \<noteq> [] \<Longrightarrow> hd (hd (gops ss)) = hd ss"
  by (cases ss) (auto split: list.splits if_splits)

lemma gops_one: "ss \<noteq> [] \<Longrightarrow> \<forall>s \<in> set (tl ss). \<not> is_sync s \<Longrightarrow> gops ss = [ss]"
proof (induction ss)
  case (Cons a ss)
  then show ?case
    by (cases ss) (auto split: list.splits)
qed simp

lemma gops_close:
  assumes "ps \<noteq> []" and "\<forall>s \<in> set (tl ps). \<not> is_sync s" and "is_sync s"
  shows "gops (ps @ s # ss) = ps # gops (s # ss)"
  using assms
proof (induction ps)
  case (Cons a ps)
  have key: "is_sync (hd (hd (gops (s # ss))))"
    using Cons.prems(3) hd_hd_gops [of "s # ss"] by simp
  obtain g gs where gs: "gops (s # ss) = g # gs"
    by (metis gops_Nil_iff list.distinct(1) neq_Nil_conv)
  show ?case
  proof (cases ps)
    case Nil
    then show ?thesis using gs key by simp
  next
    case (Cons b ps')
    then have "gops (ps @ s # ss) = ps # gops (s # ss)"
      using Cons.IH Cons.prems by simp
    then show ?thesis using Cons.prems Cons gs by (simp split: list.splits)
  qed
qed simp

section \<open>The operations, track by track\<close>

definition drained :: "'x mse_track \<Rightarrow> 'x mse_track" where
  "drained s = (if ms_pending s = [] then s else (mse_anchor s)\<lparr>ms_pending := []\<rparr>)"

text \<open>The part of track \<open>i\<close> in a fragment.\<close>

definition own_parts :: "int \<Rightarrow> int \<Rightarrow> 'x mse_track \<Rightarrow> part_track list" where
  "own_parts b i s =
     (if ms_pending s = [] then []
      else [mse_part i (ms_video s) (first_dts (mse_anchor s)) b (ms_pending s)])"

lemma mse_anchor_simps [simp]:
  "ms_pending (mse_anchor s) = ms_pending s" "ms_track (mse_anchor s) = ms_track s"
  "ms_video (mse_anchor s) = ms_video s" "ms_ext (mse_anchor s) = ms_ext s" "has_first (mse_anchor s)"
  by (simp_all add: mse_anchor_def)

lemma drained_simps [simp]:
  "ms_pending (drained s) = []" "ms_track (drained s) = ms_track s"
  "ms_video (drained s) = ms_video s" "ms_ext (drained s) = ms_ext s"
  by (simp_all add: drained_def)

lemma part_id_mse_part [simp]: "part_id (mse_part i v f b ss) = i"
  by (simp add: mse_part_def)

lemma flush_tracks_spec:
  assumes "distinct (map track_id ts)"
  shows "snd (flush_tracks b ts st) =
           (\<lambda>i. if i \<in> track_id ` set ts then map_option drained (st i) else st i) \<and>
         filter (\<lambda>p. part_id p = i) (fst (flush_tracks b ts st)) =
           (case st i of Some s \<Rightarrow> if i \<in> track_id ` set ts then own_parts b i s else [] | None \<Rightarrow> [])"
  using assms
proof (induction ts arbitrary: st)
  case (Cons t ts)
  then have d: "distinct (map track_id ts)" and new: "track_id t \<notin> track_id ` set ts"
    by auto
  note IH = Cons.IH [OF d, THEN conjunct1] Cons.IH [OF d, THEN conjunct2]
  show ?case
  proof (cases "st (track_id t)")
    case None
    with new show ?thesis by (auto simp: IH fun_eq_iff split: option.splits)
  next
    case (Some s)
    show ?thesis
    proof (cases "ms_pending s = []")
      case True
      with Some new show ?thesis
        by (auto simp: IH fun_eq_iff own_parts_def drained_def split: option.splits)
    next
      case False
      with Some new show ?thesis
        by (auto simp: IH fun_eq_iff own_parts_def drained_def Let_def split_beta split: option.splits)
    qed
  qed
qed (auto split: option.splits)

lemma flush_tracks_empty:
  assumes "distinct (map track_id ts)" and "t \<in> set ts" and "st (track_id t) = Some s"
    and "ms_pending s \<noteq> []"
  shows "fst (flush_tracks b ts st) \<noteq> []"
proof
  assume "fst (flush_tracks b ts st) = []"
  with flush_tracks_spec [OF assms(1), of b st "track_id t"] assms(2-)
  show False by (auto simp: own_parts_def)
qed

definition fr_wf :: "track list \<Rightarrow> 'x fragmenter \<Rightarrow> bool" where
  "fr_wf ts f \<longleftrightarrow> fr_tracks f = ts \<and> has_vid f = list_ex is_video ts \<and>
     dom (fr_states f) = track_id ` set ts \<and>
     (\<forall>t \<in> set ts. \<forall>s. fr_states f (track_id t) = Some s \<longrightarrow> ms_track s = t \<and> ms_video s = is_video t)"

lemma extract_dts_read:
  "extract_dts extractor s u =
     (fst (read_dts extractor (track_codec (ms_track s)) (ms_ext s) u),
      s\<lparr>ms_ext := snd (read_dts extractor (track_codec (ms_track s)) (ms_ext s) u)\<rparr>)"
  by (cases s) (simp add: extract_dts_def read_dts_def split_beta split: option.splits)

text \<open>
  What a unit does to a track: if it closes the fragment the track is drained first; then the
  unit's own samples are appended.
\<close>

definition track_after ::
  "('x \<Rightarrow> codec \<Rightarrow> byte list list \<Rightarrow> int \<Rightarrow> int option \<times> 'x) \<Rightarrow> (byte list list \<Rightarrow> byte list option) \<Rightarrow>
   bool \<Rightarrow> media_unit \<Rightarrow> 'x mse_track \<Rightarrow> 'x mse_track" where
  "track_after extractor avcc closing u s =
     (let (xs, e) = unit_samples extractor avcc (ms_track s) (ms_ext s) u;
          s0 = (if closing then drained s else s)
      in s0\<lparr>ms_pending := ms_pending s0 @ xs, ms_ext := e\<rparr>)"

definition closes ::
  "('x \<Rightarrow> codec \<Rightarrow> byte list list \<Rightarrow> int \<Rightarrow> int option \<times> 'x) \<Rightarrow> (byte list list \<Rightarrow> byte list option) \<Rightarrow>
   'x mse_track \<Rightarrow> media_unit \<Rightarrow> bool" where
  "closes extractor avcc s u \<longleftrightarrow>
     ms_pending s \<noteq> [] \<and> random_access u \<and> fst (unit_samples extractor avcc (ms_track s) (ms_ext s) u) \<noteq> []"

definition boundary_of ::
  "('x \<Rightarrow> codec \<Rightarrow> byte list list \<Rightarrow> int \<Rightarrow> int option \<times> 'x) \<Rightarrow> (byte list list \<Rightarrow> byte list option) \<Rightarrow>
   'x mse_track \<Rightarrow> media_unit \<Rightarrow> int" where
  "boundary_of extractor avcc s u = dts (hd (fst (unit_samples extractor avcc (ms_track s) (ms_ext s) u)))"


lemma own_parts_ext [simp]: "own_parts b i (s\<lparr>ms_ext := e\<rparr>) = own_parts b i s"
  by (simp add: own_parts_def mse_anchor_def)

lemma drained_ext: "drained (s\<lparr>ms_ext := e\<rparr>) = (drained s)\<lparr>ms_ext := e\<rparr>"
  by (simp add: drained_def mse_anchor_def)

lemma other_track:
  assumes "fr_wf ts f" and "unit_track u \<noteq> i" and "fr_states f i = Some s" and "i = track_id (ms_track s)"
  shows "track_after extractor avcc c u s = (if c then drained s else s)"
  using assms by (simp add: track_after_def unit_samples_def)

lemma wf_track:
  assumes "fr_wf ts f" and "fr_states f i = Some s"
  shows "i = track_id (ms_track s) \<and> ms_track s \<in> set ts \<and> ms_video s = is_video (ms_track s)"
proof -
  from assms have "i \<in> track_id ` set ts"
    by (auto simp: fr_wf_def)
  with assms show ?thesis
    by (auto simp: fr_wf_def)
qed

lemma mse_flush_video:
  assumes d: "distinct (map track_id ts)" and wf: "fr_wf ts f" and s: "fr_states f i = Some s"
    and p: "ms_pending s \<noteq> []" and m: "\<forall>q ps. marshal q ps \<noteq> None"
  shows "\<exists>ps. mse_flush marshal b (put_ms i (s\<lparr>ms_ext := e\<rparr>) f) =
              (Emit (marshal (fr_seq f + 1) ps),
               f\<lparr>fr_states := (\<lambda>j. map_option drained (((fr_states f)(i \<mapsto> s\<lparr>ms_ext := e\<rparr>)) j)),
                 fr_seq := fr_seq f + 1\<rparr>) \<and>
             (\<forall>j s'. fr_states f j = Some s' \<longrightarrow> filter (\<lambda>p. part_id p = j) ps = own_parts b j s')"
proof -
  define st where "st = (fr_states f)(i \<mapsto> s\<lparr>ms_ext := e\<rparr>)"
  have tr: "fr_tracks f = ts" using wf by (simp add: fr_wf_def)
  have im: "track_id (ms_track s) = i" "ms_track s \<in> set ts" using wf_track [OF wf s] by auto
  have dm: "j \<notin> track_id ` set ts \<Longrightarrow> st j = None" for j
    using wf im by (auto simp: st_def fr_wf_def)
  have st': "snd (flush_tracks b ts st) = (\<lambda>j. map_option drained (st j))"
    using flush_tracks_spec [OF d, of b st] dm by (auto simp: fun_eq_iff)
  have ne: "fst (flush_tracks b ts st) \<noteq> []"
    by (rule flush_tracks_empty [OF d im(2), of st "s\<lparr>ms_ext := e\<rparr>"]) (use p in \<open>simp_all add: st_def im\<close>)
  have own: "fr_states f j = Some s' \<Longrightarrow>
      filter (\<lambda>p. part_id p = j) (fst (flush_tracks b ts st)) = own_parts b j s'" for j s'
    using flush_tracks_spec [OF d, of b st j] wf_track [OF wf, of j s'] s by (auto simp: st_def)
  obtain out where "marshal (fr_seq f + 1) (fst (flush_tracks b ts st)) = Some out"
    using m by blast
  then have "mse_flush marshal b (put_ms i (s\<lparr>ms_ext := e\<rparr>) f) =
              (Emit (marshal (fr_seq f + 1) (fst (flush_tracks b ts st))),
               f\<lparr>fr_states := (\<lambda>j. map_option drained (st j)), fr_seq := fr_seq f + 1\<rparr>)"
    using ne st' by (simp add: mse_flush_def put_ms_def split_beta Let_def tr st_def)
  with own show ?thesis by (auto simp: st_def)
qed

lemma after_eq:
  assumes "fr_wf ts f"
  shows "(\<lambda>i. map_option (track_after extractor avcc c u) (fr_states f i)) =
         (\<lambda>i. if i = unit_track u then map_option (track_after extractor avcc c u) (fr_states f i)
              else map_option (if c then drained else (\<lambda>s. s)) (fr_states f i))"
proof
  fix i
  show "map_option (track_after extractor avcc c u) (fr_states f i) =
     (if i = unit_track u then map_option (track_after extractor avcc c u) (fr_states f i)
      else map_option (if c then drained else (\<lambda>s. s)) (fr_states f i))"
  proof (cases "fr_states f i")
    case (Some s)
    show ?thesis
      using other_track [OF assms _ Some] wf_track [OF assms Some] Some by auto
  qed auto
qed

definition after_unit where
  "after_unit extractor avcc c u f =
     f\<lparr>fr_states := (\<lambda>i. map_option (track_after extractor avcc c u) (fr_states f i)),
       fr_seq := (if c then fr_seq f + 1 else fr_seq f)\<rparr>"

lemma after_unit_open:
  assumes "fr_wf ts f"
  shows "after_unit extractor avcc False u f =
     (case fr_states f (unit_track u) of
        None \<Rightarrow> f
      | Some s \<Rightarrow> put_ms (unit_track u) (track_after extractor avcc False u s) f)"
proof -
  have "(\<lambda>i. map_option (track_after extractor avcc False u) (fr_states f i)) =
     (case fr_states f (unit_track u) of None \<Rightarrow> fr_states f
      | Some s \<Rightarrow> (fr_states f)(unit_track u \<mapsto> track_after extractor avcc False u s))"
    unfolding after_eq [OF assms, of extractor avcc False u]
    by (auto simp: fun_eq_iff option.map_ident split: option.splits)
  then show ?thesis
    by (simp add: after_unit_def put_ms_def split: option.splits)
qed

lemma push_audio_unit:
  assumes "fr_wf ts f" and "fr_states f (unit_track u) = Some s" and "\<not> ms_video s" and "has_vid f"
  shows "mse_push extractor avcc marshal u f = (Emit None, after_unit extractor avcc False u f)"
proof -
  have "track_after extractor avcc False u s =
      s\<lparr>ms_pending := ms_pending s @ audio_samples (pts u) 0 (aus u)\<rparr>"
    using wf_track [OF assms(1,2)] assms(3) by (cases s) (simp add: track_after_def unit_samples_def)
  then show ?thesis
    using assms by (simp add: mse_push_def push_audio_def after_unit_open [OF assms(1)] put_ms_def)
qed

lemma put_append [simp]:
  "append_pending i xs (put_ms i s f) = put_ms i (s\<lparr>ms_pending := ms_pending s @ xs\<rparr>) f"
  by (auto simp: append_pending_def put_ms_def fun_eq_iff)

lemma push_video_unit:
  assumes d: "distinct (map track_id ts)" and wf: "fr_wf ts f" and s: "fr_states f (unit_track u) = Some s"
    and vid: "ms_video s"
    and a: "\<forall>x. avcc x \<noteq> None" and m: "\<forall>q ps. marshal q ps \<noteq> None"
    and c: "c = closes extractor avcc s u"
  shows "\<exists>ps. mse_push extractor avcc marshal u f =
            (Emit (if c then marshal (fr_seq f + 1) ps else None), after_unit extractor avcc c u f) \<and>
           (c \<longrightarrow> (\<forall>i s'. fr_states f i = Some s' \<longrightarrow>
              filter (\<lambda>p. part_id p = i) ps = own_parts (boundary_of extractor avcc s u) i s'))"
proof -
  obtain od e where rd: "read_dts extractor (track_codec (ms_track s)) (ms_ext s) u = (od, e)"
    by (cases "read_dts extractor (track_codec (ms_track s)) (ms_ext s) u")
  have ed: "extract_dts extractor s u = (od, s\<lparr>ms_ext := e\<rparr>)"
    using extract_dts_read [of extractor s u] rd by simp
  have sv: "is_video (ms_track s)" "unit_track u = track_id (ms_track s)"
    using wf_track [OF wf s] vid by auto
  show ?thesis
  proof (cases od)
    case None
    then have us: "unit_samples extractor avcc (ms_track s) (ms_ext s) u = ([], e)"
      using rd sv by (simp add: unit_samples_def)
    then have nc: "\<not> c" by (simp add: c closes_def)
    have "track_after extractor avcc False u s = s\<lparr>ms_ext := e\<rparr>"
      by (simp add: track_after_def us)
    with nc show ?thesis
      by (simp add: mse_push_def push_video_def s vid ed None after_unit_open [OF wf])
  next
    case (Some dt)
    obtain p where p: "avcc (aus u) = Some p" using a by blast
    define x where "x = \<lparr>dts = dt, pts_offset = word_of_int (pts u - dt) :: u32,
      is_sync = random_access u, payload = p\<rparr>"
    have us: "unit_samples extractor avcc (ms_track s) (ms_ext s) u = ([x], e)"
      using rd Some sv p by (simp add: unit_samples_def x_def)
    have b: "boundary_of extractor avcc s u = dt" by (simp add: boundary_of_def us x_def)
    have ce: "c \<longleftrightarrow> ms_pending s \<noteq> [] \<and> random_access u" by (simp add: c closes_def us)
    show ?thesis
    proof (cases c)
      case False
      then have "track_after extractor avcc False u s =
          s\<lparr>ms_ext := e, ms_pending := ms_pending s @ [x]\<rparr>"
        by (simp add: track_after_def us)
      with False ce show ?thesis
        by (auto simp: mse_push_def push_video_def s vid ed Some p x_def after_unit_open [OF wf])
    next
      case True
      then obtain ps where ps: "mse_flush marshal dt (put_ms (unit_track u) (s\<lparr>ms_ext := e\<rparr>) f) =
          (Emit (marshal (fr_seq f + 1) ps),
           f\<lparr>fr_states := (\<lambda>j. map_option drained (((fr_states f)(unit_track u \<mapsto> s\<lparr>ms_ext := e\<rparr>)) j)),
             fr_seq := fr_seq f + 1\<rparr>)"
        "\<forall>j s'. fr_states f j = Some s' \<longrightarrow> filter (\<lambda>p. part_id p = j) ps = own_parts dt j s'"
        using mse_flush_video [OF d wf s _ m, of dt e] ce by blast
      have ta: "track_after extractor avcc True u s = (drained s)\<lparr>ms_ext := e, ms_pending := [x]\<rparr>"
        by (simp add: track_after_def us)
      have "append_pending (unit_track u) [x]
              (f\<lparr>fr_states := (\<lambda>j. map_option drained (((fr_states f)(unit_track u \<mapsto> s\<lparr>ms_ext := e\<rparr>)) j)),
                 fr_seq := fr_seq f + 1\<rparr>) = after_unit extractor avcc True u f"
        unfolding after_unit_def after_eq [OF wf, of extractor avcc True u]
        by (auto simp: append_pending_def fun_eq_iff s ta drained_ext)
      then have "mse_push extractor avcc marshal u f =
          (Emit (marshal (fr_seq f + 1) ps), after_unit extractor avcc True u f)"
        using True ce by (simp add: mse_push_def push_video_def s vid ed Some p ps(1) x_def)
      with ps(2) True b show ?thesis by auto
    qed
  qed
qed

lemma fr_wfI:
  assumes "fr_tracks f = ts" and "has_vid f = list_ex is_video ts" and "dom (fr_states f) = track_id ` set ts"
    and "\<And>t s. t \<in> set ts \<Longrightarrow> fr_states f (track_id t) = Some s \<Longrightarrow>
           ms_track s = t \<and> ms_video s = is_video t"
  shows "fr_wf ts f"
  unfolding fr_wf_def using assms by blast

lemma fr_wf_parts:
  assumes "fr_wf ts f"
  shows "fr_tracks f = ts" and "has_vid f = list_ex is_video ts" and "dom (fr_states f) = track_id ` set ts"
  using assms unfolding fr_wf_def by blast+

lemma wf_own:
  assumes "fr_wf ts f" and "t \<in> set ts" and "fr_states f (track_id t) = Some s"
  shows "ms_track s = t \<and> ms_video s = is_video t"
  using assms by (simp add: fr_wf_def)

lemma track_after_simps [simp]:
  "ms_track (track_after extractor avcc c u s) = ms_track s"
  "ms_video (track_after extractor avcc c u s) = ms_video s"
  by (simp_all add: track_after_def split_beta Let_def)

lemma after_unit_wf:
  assumes "fr_wf ts f"
  shows "fr_wf ts (after_unit extractor avcc c u f)"
proof (rule fr_wfI)
  show "ms_track s' = t \<and> ms_video s' = is_video t"
    if t: "t \<in> set ts" and s': "fr_states (after_unit extractor avcc c u f) (track_id t) = Some s'" for t s'
  proof -
    obtain s where "fr_states f (track_id t) = Some s" "s' = track_after extractor avcc c u s"
      using s' by (auto simp: after_unit_def)
    with wf_own [OF assms t] show ?thesis by simp
  qed
  show "dom (fr_states (after_unit extractor avcc c u f)) = track_id ` set ts"
    using fr_wf_parts(3) [OF assms] by (simp add: after_unit_def dom_def)
qed (simp_all add: after_unit_def fr_wf_parts [OF assms])

text \<open>Any unit, in a stream whose only video track is \<open>v\<close>.\<close>

lemma push_unit:
  assumes d: "distinct (map track_id ts)" and wf: "fr_wf ts f"
    and v: "v \<in> set ts" "is_video v" "\<forall>t \<in> set ts. is_video t \<longrightarrow> t = v"
    and s: "fr_states f (track_id v) = Some s"
    and a: "\<forall>x. avcc x \<noteq> None" and m: "\<forall>q ps. marshal q ps \<noteq> None"
    and c: "c = closes extractor avcc s u"
  shows "\<exists>ps. mse_push extractor avcc marshal u f =
            (Emit (if c then marshal (fr_seq f + 1) ps else None), after_unit extractor avcc c u f) \<and>
           (c \<longrightarrow> (\<forall>i s'. fr_states f i = Some s' \<longrightarrow>
              filter (\<lambda>p. part_id p = i) ps = own_parts (boundary_of extractor avcc s u) i s'))"
proof -
  have sv: "ms_track s = v" using wf_own [OF wf v(1) s] by simp
  show ?thesis
  proof (cases "fr_states f (unit_track u)")
    case None
    with s sv have "\<not> c" by (auto simp: c closes_def unit_samples_def)
    with None show ?thesis by (simp add: mse_push_def after_unit_open [OF wf])
  next
    case (Some s1)
    show ?thesis
    proof (cases "ms_video s1")
      case True
      then have "ms_track s1 = v" using wf_track [OF wf Some] v(3) by blast
      then have "s1 = s" using wf_track [OF wf Some] s Some by simp
      with push_video_unit [OF d wf _ _ a m c] Some True show ?thesis by simp
    next
      case False
      have hv: "has_vid f" using fr_wf_parts(2) [OF wf] v(1,2) by (auto simp: list_ex_iff)
      have "unit_track u \<noteq> track_id v" using wf_own [OF wf v(1), of s1] False v(2) Some by metis
      then have "\<not> c" by (simp add: c closes_def unit_samples_def sv)
      with push_audio_unit [OF wf Some False hv] show ?thesis by simp
    qed
  qed
qed

section \<open>Whole runs\<close>

lemma frag_samples_audio: "frag_samples False b ss = frag_samples False b' ss"
  by (induction ss) auto

lemma mse_part_audio: "mse_part i False first b ss = mse_part i False first b' ss"
  by (simp add: mse_part_def frag_samples_audio [of b ss b'])

text \<open>Where the timeline of a track starts, given what is still to come.\<close>

definition start_dts :: "'x mse_track \<Rightarrow> rec_sample list \<Rightarrow> int" where
  "start_dts s ss = (if has_first s then first_dts s else dts (hd (ms_pending s @ ss)))"

lemma start_dts_flushed: "ms_pending s \<noteq> [] \<Longrightarrow> start_dts s ss = first_dts (mse_anchor s)"
  by (simp add: start_dts_def mse_anchor_def)

lemma start_dts_after:
  assumes "unit_samples extractor avcc (ms_track s) (ms_ext s) u = (xs, e)"
  shows "start_dts (track_after extractor avcc c u s) ss = start_dts s (xs @ ss)"
  by (auto simp: track_after_def assms start_dts_def drained_def mse_anchor_def)

definition track_rest ::
  "('x \<Rightarrow> codec \<Rightarrow> byte list list \<Rightarrow> int \<Rightarrow> int option \<times> 'x) \<Rightarrow> (byte list list \<Rightarrow> byte list option) \<Rightarrow>
   'x mse_track \<Rightarrow> media_unit list \<Rightarrow> rec_sample list" where
  "track_rest extractor avcc s us = track_samples extractor avcc (ms_track s) (ms_ext s) us"

lemma track_rest_Cons:
  "track_rest extractor avcc s (u # us) =
     fst (unit_samples extractor avcc (ms_track s) (ms_ext s) u) @
     track_rest extractor avcc (track_after extractor avcc c u s) us"
  by (simp add: track_rest_def track_after_def split_beta Let_def)

text \<open>The parts of one track in a sequence of fragments.\<close>

definition parts_of :: "int \<Rightarrow> (u32 \<times> part_track list) list \<Rightarrow> part_track list list" where
  "parts_of i frs = map (\<lambda>(q, ps). filter (\<lambda>p. part_id p = i) ps) frs"

definition open_group :: "rec_sample list \<Rightarrow> bool" where
  "open_group ss \<longleftrightarrow> (\<forall>s \<in> set (tl ss). \<not> is_sync s)"

definition video_goal ::
  "('x \<Rightarrow> codec \<Rightarrow> byte list list \<Rightarrow> int \<Rightarrow> int option \<times> 'x) \<Rightarrow> (byte list list \<Rightarrow> byte list option) \<Rightarrow>
   int \<Rightarrow> 'x mse_track \<Rightarrow> media_unit list \<Rightarrow> (u32 \<times> part_track list) list \<Rightarrow> 'x mse_track \<Rightarrow> bool" where
  "video_goal extractor avcc i s us frs s' \<longleftrightarrow>
     (let ss = ms_pending s @ track_rest extractor avcc s us
      in parts_of i frs =
           map (\<lambda>p. [p]) (gop_parts i (start_dts s (track_rest extractor avcc s us)) (gops ss)) \<and>
         ms_pending s' = (if ss = [] then [] else last (gops ss)))"

definition audio_goal ::
  "('x \<Rightarrow> codec \<Rightarrow> byte list list \<Rightarrow> int \<Rightarrow> int option \<times> 'x) \<Rightarrow> (byte list list \<Rightarrow> byte list option) \<Rightarrow>
   int \<Rightarrow> 'x mse_track \<Rightarrow> media_unit list \<Rightarrow> (u32 \<times> part_track list) list \<Rightarrow> 'x mse_track \<Rightarrow> bool" where
  "audio_goal extractor avcc i s us frs s' \<longleftrightarrow>
     (\<exists>gs. concat gs @ ms_pending s' = ms_pending s @ track_rest extractor avcc s us \<and>
           parts_of i frs =
             map (\<lambda>g. if g = [] then []
                       else [mse_part i False (start_dts s (track_rest extractor avcc s us)) 0 g]) gs)"

lemma video_samples_one:
  assumes "is_video t"
  obtains "fst (unit_samples extractor avcc t x u) = []"
  | y where "fst (unit_samples extractor avcc t x u) = [y]" and "is_sync y = random_access u"
  using assms by (cases "read_dts extractor (track_codec t) x u")
    (force simp: unit_samples_def split: option.splits if_splits)

lemma gop_parts_Cons:
  "gs \<noteq> [] \<Longrightarrow> gop_parts i first (g # gs) = mse_part i True first (dts (hd (hd gs))) g # gop_parts i first gs"
  by (cases gs) auto

lemma pending_after:
  "ms_pending (track_after extractor avcc c u s) =
     (if c then [] else ms_pending s) @ fst (unit_samples extractor avcc (ms_track s) (ms_ext s) u)"
  by (simp add: track_after_def split_beta Let_def)

lemma start_after:
  "start_dts (track_after extractor avcc c u s) (track_rest extractor avcc (track_after extractor avcc c u s) us) =
   start_dts s (track_rest extractor avcc s (u # us))"
  unfolding track_rest_Cons [of extractor avcc s u us c]
  by (rule start_dts_after) (simp add: prod_eq_iff)

lemma video_goal_open:
  assumes "video_goal extractor avcc i (track_after extractor avcc False u s) us frs s'"
  shows "video_goal extractor avcc i s (u # us) frs s'"
  using assms
  by (simp add: video_goal_def start_after pending_after track_rest_Cons [of extractor avcc s u us False])

lemma video_goal_close:
  assumes step: "video_goal extractor avcc i (track_after extractor avcc True u s) us frs s'"
    and c: "closes extractor avcc s u" and og: "open_group (ms_pending s)"
    and vid: "ms_video s" "is_video (ms_track s)"
    and own: "filter (\<lambda>p. part_id p = i) ps = own_parts (boundary_of extractor avcc s u) i s"
  shows "video_goal extractor avcc i s (u # us) ((q, ps) # frs) s'"
proof -
  from c obtain y where y: "fst (unit_samples extractor avcc (ms_track s) (ms_ext s) u) = [y]" "is_sync y"
    and ne: "ms_pending s \<noteq> []"
    by (cases rule: video_samples_one [OF vid(2), of extractor avcc "ms_ext s" u]) (auto simp: closes_def)
  define R where "R = track_rest extractor avcc (track_after extractor avcc True u s) us"
  have rest: "track_rest extractor avcc s (u # us) = y # R"
    by (simp add: track_rest_Cons [of extractor avcc s u us True] y R_def)
  have g: "gops (ms_pending s @ y # R) = ms_pending s # gops (y # R)"
    using gops_close [OF ne _ y(2)] og by (simp add: open_group_def)
  have hd_y: "hd (hd (gops (y # R))) = y" using hd_hd_gops [of "y # R"] by simp
  have own': "filter (\<lambda>p. part_id p = i) ps = [mse_part i True (start_dts s (y # R)) (dts y) (ms_pending s)]"
    using ne own vid by (simp add: own_parts_def start_dts_flushed boundary_of_def y)
  have "start_dts (track_after extractor avcc True u s) R = start_dts s (y # R)"
    using start_after [of extractor avcc True u s us] by (simp add: rest R_def)
  then have "parts_of i frs = map (\<lambda>p. [p]) (gop_parts i (start_dts s (y # R)) (gops (y # R)))"
    and "ms_pending s' = last (gops (y # R))"
    using step by (simp_all add: video_goal_def pending_after y R_def [symmetric] Let_def del: gops.simps)
  then show ?thesis
    by (simp add: video_goal_def rest g gop_parts_Cons parts_of_def own' hd_y Let_def del: gops.simps)
qed

lemma audio_goal_open:
  assumes "audio_goal extractor avcc i (track_after extractor avcc False u s) us frs s'"
  shows "audio_goal extractor avcc i s (u # us) frs s'"
  using assms
  by (simp add: audio_goal_def start_after pending_after track_rest_Cons [of extractor avcc s u us False]
      cong: if_cong)

lemma audio_goal_close:
  assumes step: "audio_goal extractor avcc i (track_after extractor avcc True u s) us frs s'"
    and vid: "\<not> ms_video s" and own: "filter (\<lambda>p. part_id p = i) ps = own_parts b i s"
  shows "audio_goal extractor avcc i s (u # us) ((q, ps) # frs) s'"
proof -
  define R where "R = track_rest extractor avcc s (u # us)"
  have "start_dts (track_after extractor avcc True u s)
      (track_rest extractor avcc (track_after extractor avcc True u s) us) = start_dts s R"
    using start_after [of extractor avcc True u s us] by (simp add: R_def)
  with step obtain gs where gs: "concat gs @ ms_pending s' = R"
    "parts_of i frs = map (\<lambda>g. if g = [] then [] else [mse_part i False (start_dts s R) 0 g]) gs"
    by (auto simp: audio_goal_def pending_after R_def track_rest_Cons [of extractor avcc s u us True])
  have "filter (\<lambda>p. part_id p = i) ps =
      (if ms_pending s = [] then [] else [mse_part i False (start_dts s R) 0 (ms_pending s)])"
    using own vid mse_part_audio [of i _ b _ 0] by (simp add: own_parts_def start_dts_flushed)
  then show ?thesis
    using gs unfolding audio_goal_def R_def [symmetric]
    by (intro exI [of _ "ms_pending s # gs"]) (simp add: parts_of_def cong: if_cong)
qed

text \<open>What a run of units from state \<open>f\<close> to \<open>f'\<close> has emitted, for every track.\<close>

definition run_goal where
  "run_goal extractor avcc marshal v f us bs f' frs \<longleftrightarrow>
     bs = map (\<lambda>(q, ps). the (marshal q ps)) frs \<and>
     map fst frs = map (\<lambda>k. fr_seq f + of_nat (Suc k)) [0..<length frs] \<and>
     (\<forall>i s. fr_states f i = Some s \<longrightarrow> (\<exists>s'. fr_states f' i = Some s' \<and>
        (if i = track_id v then video_goal extractor avcc i s us frs s'
         else audio_goal extractor avcc i s us frs s')))"

lemma run_goal_track:
  assumes "run_goal extractor avcc marshal v f us bs f' frs" and "fr_states f i = Some s"
  shows "if i = track_id v then video_goal extractor avcc i s us frs (the (fr_states f' i))
         else audio_goal extractor avcc i s us frs (the (fr_states f' i))"
proof -
  obtain s' where "fr_states f' i = Some s'"
    "if i = track_id v then video_goal extractor avcc i s us frs s' else audio_goal extractor avcc i s us frs s'"
    using assms unfolding run_goal_def by blast
  then show ?thesis by (cases "i = track_id v") simp_all
qed

lemma open_group_after:
  assumes "open_group (ms_pending s)" and "c = closes extractor avcc s u" and "is_video (ms_track s)"
  shows "open_group (ms_pending (track_after extractor avcc c u s))"
  using assms
  by (cases rule: video_samples_one [OF assms(3), of extractor avcc "ms_ext s" u])
     (auto simp: open_group_def closes_def pending_after tl_append split: list.splits)

lemma seq_Cons:
  "map (\<lambda>k. q + of_nat (Suc k)) [0..<Suc n] =
     (q + 1) # map (\<lambda>k. q + 1 + of_nat (Suc k)) [0..<n]" for q :: u32
proof -
  have "[0..<Suc n] = 0 # map Suc [0..<n]" by (simp add: upt_conv_Cons map_Suc_upt del: upt_Suc)
  then show ?thesis by (simp add: add.assoc del: upt_Suc)
qed

lemma run_goal_open:
  assumes "run_goal extractor avcc marshal v (after_unit extractor avcc False u f) us bs f' frs"
  shows "run_goal extractor avcc marshal v f (u # us) bs f' frs"
  using assms
  by (fastforce simp: run_goal_def after_unit_def intro: video_goal_open audio_goal_open)

lemma run_goal_close:
  assumes goal: "run_goal extractor avcc marshal v (after_unit extractor avcc True u f) us bs f' frs"
    and b: "marshal (fr_seq f + 1) ps = Some b"
    and c: "closes extractor avcc s u" and og: "open_group (ms_pending s)"
    and s: "fr_states f (track_id v) = Some s" "ms_track s = v" "ms_video s" "is_video v"
    and others: "\<And>i s1. fr_states f i = Some s1 \<Longrightarrow> i \<noteq> track_id v \<Longrightarrow> \<not> ms_video s1"
    and own: "\<And>i s1. fr_states f i = Some s1 \<Longrightarrow>
       filter (\<lambda>p. part_id p = i) ps = own_parts (boundary_of extractor avcc s u) i s1"
  shows "run_goal extractor avcc marshal v f (u # us) (b # bs) f' ((fr_seq f + 1, ps) # frs)"
proof -
  have seqs: "map fst ((fr_seq f + 1, ps) # frs) =
      map (\<lambda>k. fr_seq f + of_nat (Suc k)) [0..<length ((fr_seq f + 1, ps) # frs)]"
    using goal seq_Cons [of "fr_seq f" "length frs"]
    by (simp add: run_goal_def after_unit_def del: upt_Suc)
  have "\<exists>s2. fr_states f' i = Some s2 \<and>
        (if i = track_id v then video_goal extractor avcc i s1 (u # us) ((fr_seq f + 1, ps) # frs) s2
         else audio_goal extractor avcc i s1 (u # us) ((fr_seq f + 1, ps) # frs) s2)"
    if s1: "fr_states f i = Some s1" for i s1
  proof -
    obtain s2 where s2: "fr_states f' i = Some s2"
      "if i = track_id v then video_goal extractor avcc i (track_after extractor avcc True u s1) us frs s2
       else audio_goal extractor avcc i (track_after extractor avcc True u s1) us frs s2"
      using goal s1 by (auto simp: run_goal_def after_unit_def)
    show ?thesis
    proof (cases "i = track_id v")
      case True
      then have "s1 = s" using s s1 by simp
      with True s2 s video_goal_close [OF _ c og _ _ own [OF s(1)], where us = us and frs = frs and s' = s2]
      show ?thesis by auto
    next
      case False
      with s2 audio_goal_close [OF _ others [OF s1 False] own [OF s1], where us = us and frs = frs and s' = s2]
      show ?thesis by auto
    qed
  qed
  with goal b seqs show ?thesis by (simp add: run_goal_def)
qed

lemma run_units:
  assumes d: "distinct (map track_id ts)"
    and v: "v \<in> set ts" "is_video v" "\<forall>t \<in> set ts. is_video t \<longrightarrow> t = v"
    and a: "\<forall>x. avcc x \<noteq> None" and m: "\<forall>q ps. marshal q ps \<noteq> None"
    and "fr_wf ts f" and "fr_states f (track_id v) = Some s" and "open_group (ms_pending s)"
  shows "\<exists>bs f' frs. mse_run (mse_push extractor avcc marshal) f us = (bs, f') \<and>
           run_goal extractor avcc marshal v f us bs f' frs"
  using assms(7-)
proof (induction us arbitrary: f s)
  case Nil
  have "video_goal extractor avcc i s [] [] s" if "open_group (ms_pending s)" for i and s :: "'a mse_track"
    using that gops_one [of "ms_pending s"]
    by (cases "ms_pending s = []") (simp_all add: video_goal_def track_rest_def parts_of_def open_group_def)
  moreover have "audio_goal extractor avcc i s [] [] s" for i and s :: "'a mse_track"
    by (auto simp: audio_goal_def track_rest_def parts_of_def)
  ultimately show ?case
    using Nil by (auto simp: run_goal_def intro!: exI [of _ "[]"])
next
  case (Cons u us)
  note wf = Cons.prems(1) and s = Cons.prems(2) and og = Cons.prems(3)
  define c where "c = closes extractor avcc s u"
  obtain ps where ps: "mse_push extractor avcc marshal u f =
        (Emit (if c then marshal (fr_seq f + 1) ps else None), after_unit extractor avcc c u f)"
    "c \<Longrightarrow> fr_states f i = Some s' \<Longrightarrow>
       filter (\<lambda>p. part_id p = i) ps = own_parts (boundary_of extractor avcc s u) i s'" for i s'
    using push_unit [OF d wf v s a m c_def] by blast
  have tv: "ms_track s = v" "ms_video s" using wf_own [OF wf v(1) s] v(2) by simp_all
  let ?f = "after_unit extractor avcc c u f"
  have "fr_states ?f (track_id v) = Some (track_after extractor avcc c u s)"
    by (simp add: after_unit_def s)
  moreover have "open_group (ms_pending (track_after extractor avcc c u s))"
    using open_group_after [OF og c_def] tv v(2) by simp
  ultimately obtain bs f' frs where run: "mse_run (mse_push extractor avcc marshal) ?f us = (bs, f')"
    and goal: "run_goal extractor avcc marshal v ?f us bs f' frs"
    using Cons.IH [OF after_unit_wf [OF wf]] by blast
  show ?case
  proof (cases c)
    case False
    with run_goal_open [of extractor avcc marshal v u f us bs f' frs] goal ps(1) run
    show ?thesis by auto
  next
    case True
    have goal': "run_goal extractor avcc marshal v (after_unit extractor avcc True u f) us bs f' frs"
      using goal True by simp
    obtain b where b: "marshal (fr_seq f + 1) ps = Some b" using m by blast
    have others: "\<not> ms_video s1" if "fr_states f i = Some s1" "i \<noteq> track_id v" for i s1
      using wf_track [OF wf that(1)] v(3) that(2) by metis
    have "run_goal extractor avcc marshal v f (u # us) (b # bs) f' ((fr_seq f + 1, ps) # frs)"
      by (rule run_goal_close [OF goal' b _ og s tv v(2) others ps(2)])
        (use True c_def in simp_all)
    with ps(1) run True b show ?thesis by auto
  qed
qed

section \<open>The viewer\<close>

text \<open>The units read before the connection or the stream ends.\<close>

fun arrived :: "mse_event list \<Rightarrow> media_unit list" where
  "arrived (Arrives u # es) = u # arrived es"
| "arrived _ = []"

text \<open>The messages up to the first write that fails.\<close>

fun deliver :: "(nat \<Rightarrow> bool) \<Rightarrow> nat \<Rightarrow> ws_message list \<Rightarrow> ws_message list" where
  "deliver wr n [] = []"
| "deliver wr n (x # xs) = (if wr n then x # deliver wr (Suc n) xs else [])"

lemma mse_loop_run:
  "mse_loop step wr n f es = deliver wr n (map Binary (fst (mse_run step f (arrived es))))"
  by (induction step wr n f es rule: mse_loop.induct)
     (auto split: push_result.splits option.splits prod.splits)

lemma new_fragmenter_track:
  assumes "distinct (map track_id ts)" and "t \<in> set ts"
  shows "fr_states (new_fragmenter x0 ts) (track_id t) = Some (new_mse_track x0 t)"
  using assms by (simp add: new_fragmenter_def) (rule map_of_is_SomeI; simp add: comp_def flip: rev_map)

lemma new_fragmenter_wf:
  assumes "distinct (map track_id ts)"
  shows "fr_wf ts (new_fragmenter x0 ts)"
proof (rule fr_wfI)
  show "ms_track s = t \<and> ms_video s = is_video t"
    if "t \<in> set ts" and "fr_states (new_fragmenter x0 ts) (track_id t) = Some s" for t s
    using that new_fragmenter_track [OF assms that(1), of x0] by (auto simp: new_mse_track_def)
  show "dom (fr_states (new_fragmenter x0 ts)) = track_id ` set ts"
    by (auto simp: new_fragmenter_def dom_map_of_conv_image_fst image_image)
qed (simp_all add: new_fragmenter_def)

text \<open>The samples of a track of a new connection.\<close>

definition viewer_samples ::
  "('x \<Rightarrow> codec \<Rightarrow> byte list list \<Rightarrow> int \<Rightarrow> int option \<times> 'x) \<Rightarrow> (byte list list \<Rightarrow> byte list option) \<Rightarrow>
   (codec \<Rightarrow> 'x) \<Rightarrow> mse_event list \<Rightarrow> track \<Rightarrow> rec_sample list" where
  "viewer_samples extractor avcc x0 es t =
     track_samples extractor avcc t (ms_ext (new_mse_track x0 t)) (arrived es)"


section \<open>A connection\<close>

definition cam_tracks :: "track list" where
  "cam_tracks =
     [\<lparr>track_id = 1, kind = MediaVideo, track_codec = CodecH264, clock_rate = 90000, sps = [1], pps = [2],
       vps = [], audio_config = None\<rparr>,
      \<lparr>track_id = 2, kind = MediaAudio, track_codec = CodecAAC, clock_rate = 48000, sps = [], pps = [],
       vps = [], audio_config = Some [7]\<rparr>]"

text \<open>Audio arrives before the first key picture; the extractor answers from that picture on.\<close>

definition cam_events :: "mse_event list" where
  "cam_events =
     [Arrives \<lparr>unit_track = 2, pts = 500, ntp = 0, random_access = True, aus = [[9]]\<rparr>,
      Arrives \<lparr>unit_track = 1, pts = 50, ntp = 0, random_access = False, aus = [[3]]\<rparr>,
      Arrives \<lparr>unit_track = 1, pts = 100, ntp = 0, random_access = True, aus = [[4]]\<rparr>,
      Arrives \<lparr>unit_track = 1, pts = 130, ntp = 0, random_access = False, aus = [[5]]\<rparr>,
      Arrives \<lparr>unit_track = 1, pts = 170, ntp = 0, random_access = True, aus = [[6]]\<rparr>,
      Gone]"

definition cam_extractor :: "bool \<Rightarrow> codec \<Rightarrow> byte list list \<Rightarrow> int \<Rightarrow> int option \<times> bool" where
  "cam_extractor seen c as p = (let seen' = (seen \<or> p \<ge> 100) in (if seen' then Some p else None, seen'))"


text \<open>
  The offset between audio and video is not kept: the audio that arrived before the first key picture
  and that picture both start at time 0 of the first fragment.
\<close>

lemma both_start_at_zero:
  "(let f = snd (mse_run (mse_push cam_extractor (\<lambda>as. Some (concat as)) (\<lambda>q ps. Some []))
                   (new_fragmenter (\<lambda>c. False) cam_tracks) (butlast (arrived cam_events)))
    in map base_time (fst (flush_tracks 170 (fr_tracks f) (fr_states f)))) = [0, 0]"
  by (simp add: new_fragmenter_def cam_events_def cam_tracks_def new_mse_track_def mse_push_def
      push_audio_def push_video_def extract_dts_def cam_extractor_def is_video_def put_ms_def
      append_pending_def mse_anchor_def mse_part_def Let_def)

text \<open>
  A key picture that cannot be packed takes the finished fragment with it: the group is flushed out
  of the state, numbered, and then not returned.
\<close>

lemma unpacked_key_drops_fragment:
  assumes "distinct (map track_id ts)" and "fr_wf ts f" and s: "fr_states f (unit_track u) = Some s"
    and "ms_video s" and "ms_pending s \<noteq> []" and "random_access u"
    and d: "fst (extract_dts extractor s u) = Some d" and "avcc (aus u) = None"
    and "\<forall>q ps. marshal q ps \<noteq> None"
  shows "\<exists>f'. mse_push extractor avcc marshal u f = (Failed, f') \<and> fr_seq f' = fr_seq f + 1 \<and>
     map_option ms_pending (fr_states f' (unit_track u)) = Some []"
proof -
  obtain e where e: "extract_dts extractor s u = (Some d, s\<lparr>ms_ext := e\<rparr>)"
    using extract_dts_read [of extractor s u] d by auto
  show ?thesis
    using mse_flush_video [OF assms(1,2) s assms(5,9), of d e] assms
    by (auto simp: mse_push_def push_video_def e)
qed

end
