(* ===== verification/Ts_Feed.thy ===== *)
theory Ts_Feed
  imports Transcode_Live
begin

text \<open>
  A stream as MPEG-TS (\<^verbatim>\<open>internal/tsfeed/tsfeed.go\<close>): the feed of motion detection and of players
  over HTTP.  The transcoding recorder repeats the same functions.  The muxer is the parameter \<open>mux\<close>,
  a function that takes a packet to a new state of the writer or fails; the DTS extractors are the
  parameter \<open>extractor\<close>, one state per track.  The clock of the transport stream and the exact
  conversion of times are those of the live transcoder.
\<close>

record 'x ts_track =
  ts_core :: track
  ts_mts :: mts_codec
  ts_ext :: "'x option"

definition new_ts_track :: "(codec \<Rightarrow> 'x) \<Rightarrow> track \<Rightarrow> mts_codec \<Rightarrow> 'x ts_track" where
  "new_ts_track x0 t c =
     \<lparr>ts_core = t, ts_mts = c,
      ts_ext = (if track_codec t = CodecAAC then None else Some (x0 (track_codec t)))\<rparr>"

fun build_ts_tracks :: "(codec \<Rightarrow> 'x) \<Rightarrow> track list \<Rightarrow> (int \<rightharpoonup> 'x ts_track) \<Rightarrow> (int \<rightharpoonup> 'x ts_track) \<times> mts_codec list" where
  "build_ts_tracks x0 [] m = (m, [])"
| "build_ts_tracks x0 (t # ts) m =
     (case mts_codec_of t of
        None \<Rightarrow> build_ts_tracks x0 ts m
      | Some c \<Rightarrow> (let (m', cs) = build_ts_tracks x0 ts (m(track_id t \<mapsto> new_ts_track x0 t c))
                  in (m', c # cs)))"

text \<open>
  The packet of a unit, if there is one, and the track afterwards: while the decode order is not
  known the unit is dropped.
\<close>

definition ts_packet ::
  "('x \<Rightarrow> codec \<Rightarrow> byte list list \<Rightarrow> int \<Rightarrow> int option \<times> 'x) \<Rightarrow> 'x ts_track \<Rightarrow> media_unit \<Rightarrow>
   mts_packet option \<times> 'x ts_track" where
  "ts_packet extractor tt u =
     (let p = rescale (pts u) (clock_rate (ts_core tt)) 90000
      in case ts_ext tt of
           Some x \<Rightarrow>
             (let (od, x') = extractor x (track_codec (ts_core tt)) (aus u) (pts u); tt' = tt\<lparr>ts_ext := Some x'\<rparr>
              in case od of
                   None \<Rightarrow> (None, tt')
                 | Some d \<Rightarrow>
                     (let d' = rescale d (clock_rate (ts_core tt)) 90000
                      in (Some (if track_codec (ts_core tt) = CodecH264 then PacketH264 p d' (aus u)
                                else PacketH265 p d' (aus u)), tt')))
         | None \<Rightarrow> (Some (PacketAAC p (aus u)), tt))"

text \<open>\<^verbatim>\<open>writeUnit\<close>: a unit of an unknown track is skipped; the flag tells whether the write went well.\<close>

definition write_ts_unit ::
  "('x \<Rightarrow> codec \<Rightarrow> byte list list \<Rightarrow> int \<Rightarrow> int option \<times> 'x) \<Rightarrow> ('w \<Rightarrow> int \<times> mts_packet \<Rightarrow> 'w option) \<Rightarrow>
   media_unit \<Rightarrow> (int \<rightharpoonup> 'x ts_track) \<Rightarrow> 'w \<Rightarrow> bool \<times> (int \<rightharpoonup> 'x ts_track) \<times> 'w" where
  "write_ts_unit extractor mux u m w =
     (case m (unit_track u) of
        None \<Rightarrow> (True, m, w)
      | Some tt \<Rightarrow>
          (let (op, tt') = ts_packet extractor tt u; m' = m(unit_track u \<mapsto> tt')
           in case op of
                None \<Rightarrow> (True, m', w)
              | Some p \<Rightarrow> (case mux w (unit_track u, p) of
                             None \<Rightarrow> (False, m', w)
                           | Some w' \<Rightarrow> (True, m', w'))))"

text \<open>What the loop finds: the context ended, the stream ended, or a unit.\<close>

datatype feed_event = FeedCancelled | FeedEnd | FeedUnit media_unit

datatype feed_result = FeedCtx | FeedEOF | FeedWriteError | FeedWaiting

fun feed_loop ::
  "('x \<Rightarrow> codec \<Rightarrow> byte list list \<Rightarrow> int \<Rightarrow> int option \<times> 'x) \<Rightarrow> ('w \<Rightarrow> int \<times> mts_packet \<Rightarrow> 'w option) \<Rightarrow>
   feed_event list \<Rightarrow> (int \<rightharpoonup> 'x ts_track) \<Rightarrow> 'w \<Rightarrow> feed_result \<times> 'w" where
  "feed_loop extractor mux [] m w = (FeedWaiting, w)"
| "feed_loop extractor mux (FeedCancelled # es) m w = (FeedCtx, w)"
| "feed_loop extractor mux (FeedEnd # es) m w = (FeedEOF, w)"
| "feed_loop extractor mux (FeedUnit u # es) m w =
     (let (ok, m', w') = write_ts_unit extractor mux u m w
      in if ok then feed_loop extractor mux es m' w' else (FeedWriteError, w'))"

definition feed ::
  "('x \<Rightarrow> codec \<Rightarrow> byte list list \<Rightarrow> int \<Rightarrow> int option \<times> 'x) \<Rightarrow> ('w \<Rightarrow> int \<times> mts_packet \<Rightarrow> 'w option) \<Rightarrow>
   (codec \<Rightarrow> 'x) \<Rightarrow> (mts_codec list \<Rightarrow> 'w) \<Rightarrow> track list \<Rightarrow> feed_event list \<Rightarrow> feed_result \<times> 'w option" where
  "feed extractor mux x0 new_writer ts es =
     (let (m, cs) = build_ts_tracks x0 ts Map.empty
      in if cs = [] then (FeedEOF, None)
         else (let (r, w) = feed_loop extractor mux es m (new_writer cs) in (r, Some w)))"

section \<open>What is written\<close>

fun fed_units :: "feed_event list \<Rightarrow> media_unit list" where
  "fed_units (FeedUnit u # es) = u # fed_units es"
| "fed_units _ = []"

text \<open>The packets of one track, from its own units alone.\<close>

fun track_packets ::
  "('x \<Rightarrow> codec \<Rightarrow> byte list list \<Rightarrow> int \<Rightarrow> int option \<times> 'x) \<Rightarrow> 'x ts_track \<Rightarrow> media_unit list \<Rightarrow> mts_packet list" where
  "track_packets extractor tt [] = []"
| "track_packets extractor tt (u # us) =
     (let (op, tt') = ts_packet extractor tt u
      in (case op of None \<Rightarrow> [] | Some p \<Rightarrow> [p]) @ track_packets extractor tt' us)"

lemma build_ts_tracks_map:
  "fst (build_ts_tracks x0 ts m) i =
     (case List.find (\<lambda>t. track_id t = i \<and> mts_codec_of t \<noteq> None) (rev ts) of
        None \<Rightarrow> m i
      | Some t \<Rightarrow> Some (new_ts_track x0 t (the (mts_codec_of t))))"
proof (induction ts arbitrary: m)
  case Nil
  then show ?case by simp
next
  case (Cons t ts)
  have f: "List.find P (xs @ [y]) = (case List.find P xs of None \<Rightarrow> if P y then Some y else None | Some z \<Rightarrow> Some z)"
    for P :: "track \<Rightarrow> bool" and xs y
    by (induction xs) auto
  show ?case
    using Cons by (auto simp: f split_beta Let_def split: option.splits)
qed

text \<open>
  With a writer that takes everything, what is written for a track is what its own units give: the
  other tracks, and units of unknown tracks, do not interfere.
\<close>

lemma feed_loop_tracks:
  assumes "m i = Some tt"
  shows "\<exists>ps. snd (feed_loop extractor (\<lambda>w q. Some (w @ [q])) es m w) = w @ ps \<and>
     map snd (filter (\<lambda>q. fst q = i) ps) =
       track_packets extractor tt (filter (\<lambda>u. unit_track u = i) (fed_units es))"
  using assms
proof (induction es arbitrary: m w tt)
  case (Cons e es)
  show ?case
  proof (cases e)
    case (FeedUnit u)
    show ?thesis
    proof (cases "m (unit_track u)")
      case None
      with Cons FeedUnit show ?thesis by (auto simp: write_ts_unit_def)
    next
      case (Some t1)
      obtain op t1' where p: "ts_packet extractor t1 u = (op, t1')" by fastforce
      let ?w = "w @ (case op of None \<Rightarrow> [] | Some q \<Rightarrow> [(unit_track u, q)])"
      let ?m = "m(unit_track u \<mapsto> t1')"
      have step: "feed_loop extractor (\<lambda>w q. Some (w @ [q])) (FeedUnit u # es) m w =
          feed_loop extractor (\<lambda>w q. Some (w @ [q])) es ?m ?w"
        using Some p by (simp add: write_ts_unit_def split: option.splits)
      let ?q = "case op of None \<Rightarrow> [] | Some q \<Rightarrow> [(unit_track u, q)]"
      obtain tt' where tt': "?m i = Some tt'"
        and packets: "track_packets extractor tt (filter (\<lambda>v. unit_track v = i) (u # fed_units es)) =
          map snd (filter (\<lambda>q. fst q = i) ?q) @ track_packets extractor tt' (filter (\<lambda>v. unit_track v = i) (fed_units es))"
        using Some Cons.prems p by (cases "unit_track u = i") (auto split: option.splits)
      obtain ps where ps: "snd (feed_loop extractor (\<lambda>w q. Some (w @ [q])) es ?m ?w) = ?w @ ps"
        "map snd (filter (\<lambda>q. fst q = i) ps) =
           track_packets extractor tt' (filter (\<lambda>v. unit_track v = i) (fed_units es))"
        using Cons.IH [of ?m tt' ?w] tt' by blast
      show ?thesis
        unfolding FeedUnit step fed_units.simps packets
        by (intro exI [of _ "?q @ ps"]) (simp add: ps)
    qed
  qed auto
qed auto

text \<open>A failing write ends the feed with that error and nothing is written after it.\<close>

lemma feed_loop_fails:
  "fst (feed_loop extractor mux es m w) = FeedWriteError \<Longrightarrow>
     \<exists>us u vs m' w'. map FeedUnit (us @ [u]) @ vs = es \<and>
       snd (feed_loop extractor mux es m w) = w' \<and>
       feed_loop extractor mux (map FeedUnit us) m w = (FeedWaiting, w') \<and>
       fst (write_ts_unit extractor mux u m' w') = False"
proof (induction es arbitrary: m w)
  case (Cons e es)
  show ?case
  proof (cases e)
    case (FeedUnit u)
    obtain ok m1 w1 where w: "write_ts_unit extractor mux u m w = (ok, m1, w1)"
      by (metis prod.exhaust)
    show ?thesis
    proof (cases ok)
      case True
      then obtain us v vs m' w' where IH: "map FeedUnit (us @ [v]) @ vs = es"
        "snd (feed_loop extractor mux es m1 w1) = w'"
        "feed_loop extractor mux (map FeedUnit us) m1 w1 = (FeedWaiting, w')"
        "fst (write_ts_unit extractor mux v m' w') = False"
        using Cons.IH [of m1 w1] Cons.prems w FeedUnit by auto
      then show ?thesis
        using True w FeedUnit by (intro exI [of _ "u # us"] exI [of _ v] exI [of _ vs] exI [of _ m'] exI [of _ w']) auto
    next
      case False
      then have "w1 = w" using w
        by (auto simp: write_ts_unit_def split_beta Let_def split: option.splits)
      with False w FeedUnit show ?thesis
        by (intro exI [of _ "[]"] exI [of _ u] exI [of _ es] exI [of _ m] exI [of _ w]) auto
    qed
  qed (use Cons.prems in auto)
qed simp

end
