(* ===== verification/Rec_Transcode.thy ===== *)
theory Rec_Transcode
  imports Ts_Feed Rec_Naming Recording_Store Face_Tables
begin

text \<open>
  The transcoding recorder (\<^verbatim>\<open>internal/recording/transcode.go\<close>): FFmpeg cuts the piped stream into
  files of a work directory and lists each finished one; the recorder moves it to its place and
  reports it to the manager (\<^verbatim>\<open>SegmentStarted\<close>, \<^verbatim>\<open>SegmentFinalized\<close> of
  \<^verbatim>\<open>internal/manager/manager.go\<close>), which keeps the table of recordings and queues the analysis of
  faces.  Files are a map from paths to contents.  The time zone (\<open>to_unix\<close>, \<open>local_of\<close>), the parser
  of decimal fractions and the size of a content are parameters; an environment says which calls
  succeed.  Times are nanoseconds, those of the table milliseconds; root and work directory are clean
  paths.
\<close>

section \<open>The names of segments\<close>

text \<open>
  Two digits, or, where the layout allows it, one; \<^verbatim>\<open>time.Parse\<close> accepts a fraction after the
  seconds although the layout has none.
\<close>

definition digits2 :: "string \<Rightarrow> (nat \<times> string) option" where
  "digits2 s =
     (case s of
        a # b # r \<Rightarrow> (case (digit_val a, digit_val b) of (Some x, Some y) \<Rightarrow> Some (10 * x + y, r) | _ \<Rightarrow> None)
      | _ \<Rightarrow> None)"

definition digits12 :: "string \<Rightarrow> (nat \<times> string) option" where
  "digits12 s =
     (case s of
        [] \<Rightarrow> None
      | a # r \<Rightarrow> (case digit_val a of
                   None \<Rightarrow> None
                 | Some x \<Rightarrow> if r = [] \<or> digit_val (hd r) = None then Some (x, r) else digits2 s))"

definition digits4 :: "string \<Rightarrow> (nat \<times> string) option" where
  "digits4 s = do { (a, r) \<leftarrow> digits2 s; (b, r') \<leftarrow> digits2 r; Some (100 * a + b, r') }"

definition leap :: "nat \<Rightarrow> bool" where
  "leap y \<longleftrightarrow> 4 dvd y \<and> (\<not> 100 dvd y \<or> 400 dvd y)"

definition days_in :: "nat \<Rightarrow> nat \<Rightarrow> nat" where
  "days_in m y = (if m = 2 then (if leap y then 29 else 28) else if m \<in> {4, 6, 9, 11} then 30 else 31)"

text \<open>The nanoseconds of a fraction: nine digits count.\<close>

definition fraction_ns :: "string \<Rightarrow> int" where
  "fraction_ns ds =
     (let d = take 9 ds in foldl (\<lambda>n c. 10 * n + int (the (digit_val c))) 0 d * 10 ^ (9 - length d))"

definition fraction_of :: "string \<Rightarrow> int option" where
  "fraction_of s =
     (case s of
        [] \<Rightarrow> Some 0
      | c # ds \<Rightarrow> if (c = CHR ''.'' \<or> c = CHR '','') \<and> ds \<noteq> [] \<and> list_all (\<lambda>d. digit_val d \<noteq> None) ds
                  then Some (fraction_ns ds) else None)"

record civil =
  cv_year :: nat
  cv_month :: nat
  cv_day :: nat
  cv_hour :: nat
  cv_minute :: nat
  cv_second :: nat

definition trim_suffix :: "string \<Rightarrow> string \<Rightarrow> string" where
  "trim_suffix s p = (if has_suffix s p then take (length s - length p) s else s)"

definition parse_segment_time :: "string \<Rightarrow> (civil \<times> int) option" where
  "parse_segment_time name =
     (let body = trim_suffix (trim_prefix name ''seg-'') ''.mp4''
      in do {
        (y, r1) \<leftarrow> digits4 body;
        (mo, r2) \<leftarrow> digits2 r1;
        (d, r3) \<leftarrow> digits2 r2;
        r4 \<leftarrow> (if has_prefix r3 ''-'' then Some (drop 1 r3) else None);
        (h, r5) \<leftarrow> digits12 r4;
        (mi, r6) \<leftarrow> digits2 r5;
        (s, r7) \<leftarrow> digits2 r6;
        ns \<leftarrow> fraction_of r7;
        (if 1 \<le> mo \<and> mo \<le> 12 \<and> 1 \<le> d \<and> d \<le> days_in mo y \<and> h < 24 \<and> mi < 60 \<and> s < 60
         then Some (\<lparr>cv_year = y, cv_month = mo, cv_day = d, cv_hour = h, cv_minute = mi, cv_second = s\<rparr>, ns)
         else None) })"

section \<open>The process\<close>

record tc_config =
  tr_camera_id :: string
  tr_camera_name :: string
  tr_root :: string
  tr_seg_dur :: int
  tr_template :: string
  tr_codec :: string
  tr_crf :: int
  tr_preset :: string

definition work_dir :: "tc_config \<Rightarrow> string" where
  "work_dir c = tr_root c @ ''/.transcode/'' @ tr_camera_id c"

definition tc_args :: "tc_config \<Rightarrow> string list" where
  "tc_args c =
     (let vcodec = (if equal_fold (tr_codec c) ''hevc'' \<or> equal_fold (tr_codec c) ''h265'' then ''libx265''
                    else ''libx264'');
          preset = (if tr_preset c = [] then ''fast'' else tr_preset c);
          crf = (if tr_crf c \<le> 0 then 23 else tr_crf c);
          sec0 = go_div (tr_seg_dur c) 1000000000; sec = (if sec0 \<le> 0 then 600 else sec0)
      in [''-hide_banner'', ''-loglevel'', ''warning'', ''-fflags'', ''+genpts'', ''-f'', ''mpegts'', ''-i'', ''pipe:0'',
          ''-c:v'', vcodec, ''-preset'', preset, ''-crf'', itoa crf] @
         (if vcodec = ''libx265'' then [''-tag:v'', ''hvc1''] else []) @
         [''-c:a'', ''aac'', ''-b:a'', ''128k'', ''-f'', ''segment'', ''-segment_time'', itoa sec,
          ''-segment_atclocktime'', ''1'', ''-strftime'', ''1'', ''-reset_timestamps'', ''1'',
          ''-segment_format'', ''mp4'', ''-movflags'', ''+faststart'',
          ''-force_key_frames'', ''expr:gte(t,n_forced*'' @ itoa sec @ '')'',
          ''-segment_list'', ''pipe:1'', ''-segment_list_type'', ''csv'',
          work_dir c @ ''/seg-%Y%m%d-%H%M%S.mp4''])"

section \<open>A finished segment\<close>

record tc_env =
  tc_now :: int
  mkdir_ok :: bool
  rename_ok :: bool
  stat_ok :: bool
  create_ok :: bool
  new_id :: string
  finalize_ok :: bool
  faces_on :: bool
  job_ok :: bool
  job_id :: string

record 'f tc_state =
  tc_files :: "string \<rightharpoonup> 'f"
  tc_rows :: rec_table
  tc_jobs :: "face_job list"

definition to_ms :: "int \<Rightarrow> int" where
  "to_ms t = t div 1000000"

definition segment_started :: "tc_env \<Rightarrow> string \<Rightarrow> string \<Rightarrow> int \<Rightarrow> rec_table \<Rightarrow> rec_table option" where
  "segment_started e cam rel start rs =
     (if \<not> create_ok e then None
      else create_rec (to_ms (tc_now e))
             \<lparr>rec_id = new_id e, camera_id = cam, path = rel, start_time = to_ms start, end_time = 0,
              duration_ms = 0, size_bytes = 0, complete = False, uploaded = False, s3_key = [],
              local_removed = False, encrypted = False, created_at = to_ms (tc_now e)\<rparr> rs)"

text \<open>A failure of the queue never fails the recording.\<close>

definition segment_finalized :: "tc_env \<Rightarrow> string \<Rightarrow> int \<Rightarrow> int \<Rightarrow> int \<Rightarrow> 'f tc_state \<Rightarrow> bool \<times> 'f tc_state" where
  "segment_finalized e i end_ns dur sz s =
     (if \<not> finalize_ok e then (False, s)
      else (let s1 = s\<lparr>tc_rows := finalize_rec i (to_ms end_ns) dur sz (tc_rows s)\<rparr>
            in (True,
                if faces_on e \<and> job_ok e then
                  (case enqueue_job (rec_id ` set (tc_rows s1)) (to_ms (tc_now e)) (job_id e) i (tc_jobs s1) of
                     None \<Rightarrow> s1
                   | Some js \<Rightarrow> s1\<lparr>tc_jobs := js\<rparr>)
                else s1)))"

definition path_base :: "string \<Rightarrow> string" where
  "path_base p =
     (if p = [] then ''.''
      else (let q = trim_right (\<lambda>c. c = CHR ''/'') p
            in if q = [] then ''/'' else last (split_on (CHR ''/'') q)))"

definition line_source :: "tc_config \<Rightarrow> string list \<Rightarrow> string" where
  "line_source c fs =
     (if has_prefix (hd fs) ''/'' then hd fs else work_dir c @ ''/'' @ path_base (hd fs))"

definition line_duration :: "(string \<Rightarrow> rat) \<Rightarrow> string list \<Rightarrow> int" where
  "line_duration pf fs =
     (if length fs \<ge> 3 \<and> pf (fs ! 1) < pf (fs ! 2) then \<lfloor>(pf (fs ! 2) - pf (fs ! 1)) * 1000\<rfloor> else 0)"

definition segment_start_of :: "(civil \<Rightarrow> int) \<Rightarrow> int \<Rightarrow> string \<Rightarrow> int" where
  "segment_start_of to_unix now src =
     (case parse_segment_time (path_base src) of
        None \<Rightarrow> now
      | Some (c, ns) \<Rightarrow> to_unix c * 1000000000 + ns)"

definition segment_rel :: "(int \<Rightarrow> local_time) \<Rightarrow> tc_config \<Rightarrow> int \<Rightarrow> string" where
  "segment_rel local_of c start = render_path (tr_template c) (tr_camera_id c) (tr_camera_name c) (local_of start)"

definition handle_segment ::
  "(civil \<Rightarrow> int) \<Rightarrow> (int \<Rightarrow> local_time) \<Rightarrow> (string \<Rightarrow> rat) \<Rightarrow> ('f \<Rightarrow> int) \<Rightarrow> tc_config \<Rightarrow> tc_env \<Rightarrow> string \<Rightarrow>
   'f tc_state \<Rightarrow> 'f tc_state" where
  "handle_segment to_unix local_of pf size_of c e line0 s =
     (let line = trim_space line0
      in if line = [] then s
         else (let fs = split_on (CHR '','') line; from_path = line_source c fs; dur = line_duration pf fs;
                   start = segment_start_of to_unix (tc_now e) from_path;
                   rel = segment_rel local_of c start; dst = tr_root c @ ''/'' @ rel
               in if \<not> mkdir_ok e then s
                  else if \<not> rename_ok e then s
                  else (case tc_files s from_path of
                     None \<Rightarrow> s
                   | Some f \<Rightarrow>
                       (let s1 = s\<lparr>tc_files := (tc_files s)(from_path := None, dst := Some f)\<rparr>;
                            sz = (if stat_ok e then size_of f else 0)
                        in case segment_started e (tr_camera_id c) rel start (tc_rows s1) of
                             None \<Rightarrow> s1
                           | Some rs \<Rightarrow>
                               snd (segment_finalized e (new_id e) (start + dur * 1000000) dur sz
                                      (s1\<lparr>tc_rows := rs\<rparr>))))))"

section \<open>A run\<close>

text \<open>What happens outside, in order: FFmpeg finishes a file, or a line of its list is read.\<close>

datatype 'f seg_event = Produced string 'f | Listed tc_env string

fun seg_step ::
  "(civil \<Rightarrow> int) \<Rightarrow> (int \<Rightarrow> local_time) \<Rightarrow> (string \<Rightarrow> rat) \<Rightarrow> ('f \<Rightarrow> int) \<Rightarrow> tc_config \<Rightarrow>
   'f seg_event \<Rightarrow> 'f tc_state \<Rightarrow> 'f tc_state" where
  "seg_step to_unix local_of pf size_of c (Produced n f) s =
     s\<lparr>tc_files := (tc_files s)(work_dir c @ ''/'' @ n \<mapsto> f)\<rparr>"
| "seg_step to_unix local_of pf size_of c (Listed e line) s = handle_segment to_unix local_of pf size_of c e line s"

text \<open>
  What is piped into the process: the goroutine that pumps the stream repeats the feed of
  \<^verbatim>\<open>tsfeed\<close>, and closes the pipe when it ends for any reason.
\<close>

definition transcode_input ::
  "('x \<Rightarrow> codec \<Rightarrow> byte list list \<Rightarrow> int \<Rightarrow> int option \<times> 'x) \<Rightarrow> ('w \<Rightarrow> int \<times> mts_packet \<Rightarrow> 'w option) \<Rightarrow>
   (codec \<Rightarrow> 'x) \<Rightarrow> (mts_codec list \<Rightarrow> 'w) \<Rightarrow> track list \<Rightarrow> feed_event list \<Rightarrow> 'w" where
  "transcode_input extractor mux x0 new_writer ts es =
     (let (m, cs) = build_ts_tracks x0 ts Map.empty in snd (feed_loop extractor mux es m (new_writer cs)))"

datatype tc_result = NoTracks | NoWorkDir | NotStarted | ExitError | Finished

record tc_process =
  p_workdir_ok :: bool
  p_started :: bool
  p_cancelled :: bool
  p_exit_ok :: bool

text \<open>
  \<^verbatim>\<open>Run\<close>: the scanner reads until the process closes its output; an exit after cancellation is normal.
\<close>

definition transcode_run ::
  "(civil \<Rightarrow> int) \<Rightarrow> (int \<Rightarrow> local_time) \<Rightarrow> (string \<Rightarrow> rat) \<Rightarrow> ('f \<Rightarrow> int) \<Rightarrow> tc_config \<Rightarrow> tc_process \<Rightarrow> track list \<Rightarrow>
   'f seg_event list \<Rightarrow> 'f tc_state \<Rightarrow> tc_result \<times> string list \<times> 'f tc_state" where
  "transcode_run to_unix local_of pf size_of c0 p ts es s =
     (let c = (if tr_seg_dur c0 \<le> 0 then c0\<lparr>tr_seg_dur := 600000000000\<rparr> else c0)
      in if snd (build_ts_tracks (\<lambda>_. ()) ts Map.empty) = [] then (NoTracks, [], s)
         else if \<not> p_workdir_ok p then (NoWorkDir, [], s)
         else if \<not> p_started p then (NotStarted, tc_args c, s)
         else (if p_cancelled p \<or> p_exit_ok p then Finished else ExitError, tc_args c,
               fold (seg_step to_unix local_of pf size_of c) es s))"

section \<open>Where segments end up\<close>

definition seg_path :: "tc_config \<Rightarrow> string \<Rightarrow> string" where
  "seg_path c n = work_dir c @ ''/'' @ n"

definition seg_rel :: "(civil \<Rightarrow> int) \<Rightarrow> (int \<Rightarrow> local_time) \<Rightarrow> tc_config \<Rightarrow> string \<Rightarrow> string" where
  "seg_rel to_unix local_of c n = segment_rel local_of c (segment_start_of to_unix 0 (seg_path c n))"

definition seg_dest :: "(civil \<Rightarrow> int) \<Rightarrow> (int \<Rightarrow> local_time) \<Rightarrow> tc_config \<Rightarrow> string \<Rightarrow> string" where
  "seg_dest to_unix local_of c n = tr_root c @ ''/'' @ seg_rel to_unix local_of c n"

fun produced :: "'f seg_event list \<Rightarrow> (string \<times> 'f) list" where
  "produced [] = []"
| "produced (Produced n f # es) = (n, f) # produced es"
| "produced (Listed e line # es) = produced es"

fun lines :: "'f seg_event list \<Rightarrow> (tc_env \<times> string) list" where
  "lines [] = []"
| "lines (Produced n f # es) = lines es"
| "lines (Listed e line # es) = (e, line) # lines es"

text \<open>A line that names the file \<open>n\<close> of the work directory.\<close>

definition line_names :: "tc_config \<Rightarrow> string \<Rightarrow> string \<Rightarrow> bool" where
  "line_names c line n \<longleftrightarrow> trim_space line \<noteq> [] \<and>
     line_source c (split_on (CHR '','') (trim_space line)) = seg_path c n"

text \<open>
  What is asked of FFmpeg and of the template: the files have new names that carry their time, the
  lines name such files, and the template gives them different places outside the work directory.
\<close>

definition names_ok :: "(civil \<Rightarrow> int) \<Rightarrow> (int \<Rightarrow> local_time) \<Rightarrow> tc_config \<Rightarrow> string set \<Rightarrow> bool" where
  "names_ok to_unix local_of c N \<longleftrightarrow>
     (\<forall>n \<in> N. parse_segment_time (path_base (seg_path c n)) \<noteq> None) \<and>
     inj_on (seg_dest to_unix local_of c) N \<and>
     (\<forall>n \<in> N. \<forall>m \<in> N. seg_path c n \<noteq> seg_dest to_unix local_of c m)"

text \<open>The files of a state: a produced one is in the work directory or at its place, not at both.\<close>

definition placed ::
  "(civil \<Rightarrow> int) \<Rightarrow> (int \<Rightarrow> local_time) \<Rightarrow> tc_config \<Rightarrow> string set \<Rightarrow> (string \<rightharpoonup> 'f) \<Rightarrow> (string \<rightharpoonup> 'f) \<Rightarrow> bool" where
  "placed to_unix local_of c N made fs \<longleftrightarrow>
     (\<forall>n \<in> N. case made n of
        None \<Rightarrow> fs (seg_path c n) = None \<and> fs (seg_dest to_unix local_of c n) = None
      | Some f \<Rightarrow> (fs (seg_path c n) = Some f \<and> fs (seg_dest to_unix local_of c n) = None) \<or>
                  (fs (seg_path c n) = None \<and> fs (seg_dest to_unix local_of c n) = Some f))"

text \<open>A row the recorder wrote for a produced file that is at its place.\<close>

definition row_of ::
  "(civil \<Rightarrow> int) \<Rightarrow> (int \<Rightarrow> local_time) \<Rightarrow> ('f \<Rightarrow> int) \<Rightarrow> tc_config \<Rightarrow> string set \<Rightarrow> (string \<rightharpoonup> 'f) \<Rightarrow>
   (string \<rightharpoonup> 'f) \<Rightarrow> recording \<Rightarrow> bool" where
  "row_of to_unix local_of size_of c N made fs r \<longleftrightarrow>
     (\<exists>n \<in> N. \<exists>f. made n = Some f \<and> fs (seg_dest to_unix local_of c n) = Some f \<and>
        path r = seg_rel to_unix local_of c n \<and> camera_id r = tr_camera_id c \<and>
        start_time r = to_ms (segment_start_of to_unix 0 (seg_path c n)) \<and>
        (recording.complete r \<longrightarrow> size_bytes r = size_of f \<or> size_bytes r = 0))"

lemma seg_path_inj [simp]: "seg_path c n = seg_path c m \<longleftrightarrow> n = m"
  by (simp add: seg_path_def)

lemma start_of_named:
  "parse_segment_time (path_base src) \<noteq> None \<Longrightarrow> segment_start_of to_unix now src = segment_start_of to_unix 0 src"
  by (auto simp: segment_start_of_def split: option.splits)

text \<open>A line for the file \<open>n\<close>, in one equation.\<close>

lemma handle_named:
  assumes "line_names c line n" and "parse_segment_time (path_base (seg_path c n)) \<noteq> None"
  shows "handle_segment to_unix local_of pf size_of c e line s =
    (if \<not> (mkdir_ok e \<and> rename_ok e) then s
     else case tc_files s (seg_path c n) of
       None \<Rightarrow> s
     | Some f \<Rightarrow>
         (let start = segment_start_of to_unix 0 (seg_path c n);
              s1 = s\<lparr>tc_files := (tc_files s)(seg_path c n := None, seg_dest to_unix local_of c n := Some f)\<rparr>
          in case segment_started e (tr_camera_id c) (seg_rel to_unix local_of c n) start (tc_rows s) of
               None \<Rightarrow> s1
             | Some rs \<Rightarrow> snd (segment_finalized e (new_id e)
                 (start + line_duration pf (split_on (CHR '','') (trim_space line)) * 1000000)
                 (line_duration pf (split_on (CHR '','') (trim_space line)))
                 (if stat_ok e then size_of f else 0) (s1\<lparr>tc_rows := rs\<rparr>))))"
  using assms start_of_named [OF assms(2), of to_unix "tc_now e"]
  by (simp add: handle_segment_def line_names_def seg_dest_def seg_rel_def Let_def split: option.splits)

lemma finalized_files [simp]: "tc_files (snd (segment_finalized e i t d z s)) = tc_files s"
  by (simp add: segment_finalized_def Let_def split: option.splits)

lemma finalized_rows:
  "tc_rows (snd (segment_finalized e i t d z s)) =
     (if finalize_ok e then finalize_rec i (to_ms t) d z (tc_rows s) else tc_rows s)"
  by (simp add: segment_finalized_def Let_def split: option.splits)

lemma handle_named_files:
  assumes "line_names c line n" and "parse_segment_time (path_base (seg_path c n)) \<noteq> None"
  shows "tc_files (handle_segment to_unix local_of pf size_of c e line s) =
    (if mkdir_ok e \<and> rename_ok e \<and> tc_files s (seg_path c n) \<noteq> None
     then (tc_files s)(seg_path c n := None, seg_dest to_unix local_of c n := tc_files s (seg_path c n))
     else tc_files s)"
  by (simp add: handle_named [OF assms] Let_def split: option.splits)

lemma seg_path_not_dest:
  assumes "names_ok to_unix local_of c N" and "n \<in> N" and "m \<in> N"
  shows "seg_path c n \<noteq> seg_dest to_unix local_of c m" and "seg_dest to_unix local_of c m \<noteq> seg_path c n"
    and "seg_dest to_unix local_of c n = seg_dest to_unix local_of c m \<longleftrightarrow> n = m"
  using assms unfolding names_ok_def by (blast, metis, metis inj_onD)

lemma placed_produced:
  assumes "placed to_unix local_of c N made fs" and "names_ok to_unix local_of c N" and "n \<in> N" and "made n = None"
  shows "placed to_unix local_of c N (made(n \<mapsto> f)) (fs(seg_path c n \<mapsto> f))"
  using assms(1,4) seg_path_not_dest [OF assms(2)] assms(3)
  by (auto simp: placed_def split: option.splits)

lemma placed_moved:
  assumes "placed to_unix local_of c N made fs" and "names_ok to_unix local_of c N" and "n \<in> N"
    and "fs (seg_path c n) = Some f"
  shows "placed to_unix local_of c N made (fs(seg_path c n := None, seg_dest to_unix local_of c n \<mapsto> f))"
    and "made n = Some f"
proof -
  show m: "made n = Some f"
    using assms(1,3,4) by (auto simp: placed_def split: option.splits)
  show "placed to_unix local_of c N made (fs(seg_path c n := None, seg_dest to_unix local_of c n \<mapsto> f))"
    unfolding placed_def
  proof
    fix m
    assume mN: "m \<in> N"
    show "case made m of
        None \<Rightarrow> (fs(seg_path c n := None, seg_dest to_unix local_of c n \<mapsto> f)) (seg_path c m) = None \<and>
          (fs(seg_path c n := None, seg_dest to_unix local_of c n \<mapsto> f)) (seg_dest to_unix local_of c m) = None
      | Some g \<Rightarrow>
          (fs(seg_path c n := None, seg_dest to_unix local_of c n \<mapsto> f)) (seg_path c m) = Some g \<and>
          (fs(seg_path c n := None, seg_dest to_unix local_of c n \<mapsto> f)) (seg_dest to_unix local_of c m) = None \<or>
          (fs(seg_path c n := None, seg_dest to_unix local_of c n \<mapsto> f)) (seg_path c m) = None \<and>
          (fs(seg_path c n := None, seg_dest to_unix local_of c n \<mapsto> f)) (seg_dest to_unix local_of c m) = Some g"
      using assms(1) m mN seg_path_not_dest [OF assms(2) mN assms(3)] seg_path_not_dest [OF assms(2) assms(3) mN]
        seg_path_not_dest [OF assms(2) mN mN]
      by (cases "m = n") (auto simp: placed_def split: option.splits)
  qed
qed

lemma row_of_produced:
  assumes "row_of to_unix local_of size_of c N made fs r" and "names_ok to_unix local_of c N" and "n \<in> N" and "made n = None"
  shows "row_of to_unix local_of size_of c N (made(n \<mapsto> f)) (fs(seg_path c n \<mapsto> f)) r"
  using assms(1,4) seg_path_not_dest [OF assms(2)] assms(3) unfolding row_of_def
  by (metis fun_upd_other option.distinct(1))

lemma row_of_moved:
  assumes "row_of to_unix local_of size_of c N made fs r" and "names_ok to_unix local_of c N" and "n \<in> N"
    and "made n = Some f"
  shows "row_of to_unix local_of size_of c N made
     (fs(seg_path c n := None, seg_dest to_unix local_of c n \<mapsto> f)) r"
proof -
  obtain m g where m: "m \<in> N" "made m = Some g" "fs (seg_dest to_unix local_of c m) = Some g"
    and r: "path r = seg_rel to_unix local_of c m \<and> camera_id r = tr_camera_id c \<and>
        start_time r = to_ms (segment_start_of to_unix 0 (seg_path c m)) \<and>
        (recording.complete r \<longrightarrow> size_bytes r = size_of g \<or> size_bytes r = 0)"
    using assms(1) unfolding row_of_def by blast
  have "(fs(seg_path c n := None, seg_dest to_unix local_of c n \<mapsto> f)) (seg_dest to_unix local_of c m) = Some g"
    using m seg_path_not_dest [OF assms(2,3) m(1)] assms(4) by auto
  with m(1,2) r show ?thesis unfolding row_of_def by blast
qed

lemma create_rec_rows:
  "create_rec t r rs = Some rs' \<Longrightarrow> rec_id r \<notin> rec_id ` set rs \<and>
     rs' = rs @ [if created_at r = 0 then r\<lparr>created_at := t\<rparr> else r]"
  by (auto simp: create_rec_def split: if_splits)

lemma finalize_last:
  assumes "rec_id r = i" and "i \<notin> rec_id ` set rs"
  shows "finalize_rec i t d z (rs @ [r]) =
     rs @ [r\<lparr>end_time := t, duration_ms := d, size_bytes := z, complete := True\<rparr>]"
  using assms by (auto simp: finalize_rec_def update_row_def image_iff intro!: map_idI)

text \<open>The rows after a line for \<open>n\<close>: the old ones and at most one new one, which is the file's.\<close>

lemma handle_named_rows:
  assumes "line_names c line n" and "parse_segment_time (path_base (seg_path c n)) \<noteq> None"
  shows "\<exists>new. tc_rows (handle_segment to_unix local_of pf size_of c e line s) = tc_rows s @ new \<and>
     (new = [] \<or> (\<exists>f r. tc_files s (seg_path c n) = Some f \<and> mkdir_ok e \<and> rename_ok e \<and> new = [r] \<and>
        rec_id r = new_id e \<and> new_id e \<notin> rec_id ` set (tc_rows s) \<and>
        path r = seg_rel to_unix local_of c n \<and> camera_id r = tr_camera_id c \<and>
        start_time r = to_ms (segment_start_of to_unix 0 (seg_path c n)) \<and>
        (recording.complete r \<longrightarrow> size_bytes r = (if stat_ok e then size_of f else 0)))) \<and>
     (mkdir_ok e \<and> rename_ok e \<and> create_ok e \<and> finalize_ok e \<and> tc_files s (seg_path c n) \<noteq> None \<and>
      new_id e \<notin> rec_id ` set (tc_rows s) \<longrightarrow> (\<exists>r. new = [r] \<and> recording.complete r))"
proof (cases "mkdir_ok e \<and> rename_ok e \<and> tc_files s (seg_path c n) \<noteq> None")
  case False
  then show ?thesis
    by (intro exI [of _ "[]"]) (auto simp: handle_named [OF assms])
next
  case True
  then obtain f where f: "tc_files s (seg_path c n) = Some f" by blast
  define start where "start = segment_start_of to_unix 0 (seg_path c n)"
  define dur where "dur = line_duration pf (split_on (CHR '','') (trim_space line))"
  define sz where "sz = (if stat_ok e then size_of f else 0)"
  define new where "new = segment_started e (tr_camera_id c) (seg_rel to_unix local_of c n) start (tc_rows s)"
  have rows: "tc_rows (handle_segment to_unix local_of pf size_of c e line s) =
      (case new of None \<Rightarrow> tc_rows s
       | Some rs \<Rightarrow> if finalize_ok e then finalize_rec (new_id e) (to_ms (start + dur * 1000000)) dur sz rs else rs)"
    using True f by (simp add: handle_named [OF assms] finalized_rows Let_def new_def start_def dur_def sz_def
        split: option.splits)
  show ?thesis
  proof (cases new)
    case None
    then show ?thesis
      using True by (intro exI [of _ "[]"])
        (auto simp: rows new_def segment_started_def create_rec_def split: if_splits dest: sym intro: rev_image_eqI)
  next
    case (Some rs)
    define r0 where "r0 = last rs"
    have fresh: "new_id e \<notin> rec_id ` set (tc_rows s)" and rs: "rs = tc_rows s @ [r0]"
      and r0: "rec_id r0 = new_id e" "path r0 = seg_rel to_unix local_of c n" "camera_id r0 = tr_camera_id c"
        "start_time r0 = to_ms start" "\<not> recording.complete r0"
      using Some create_rec_rows
      by (auto simp: new_def segment_started_def r0_def dest!: create_rec_rows split: if_splits)
    show ?thesis
    proof (cases "finalize_ok e")
      case True
      then show ?thesis
        using \<open>mkdir_ok e \<and> rename_ok e \<and> tc_files s (seg_path c n) \<noteq> None\<close> f fresh r0
        by (intro exI [of _ "[r0\<lparr>end_time := to_ms (start + dur * 1000000), duration_ms := dur, size_bytes := sz,
              complete := True\<rparr>]"])
          (simp add: rows Some rs finalize_last start_def sz_def)
    next
      case False
      then show ?thesis
        using True f fresh r0 by (intro exI [of _ "[r0]"]) (simp add: rows Some rs start_def)
    qed
  qed
qed

text \<open>The invariant of a run: the files, and the rows since the start.\<close>

definition seg_inv ::
  "(civil \<Rightarrow> int) \<Rightarrow> (int \<Rightarrow> local_time) \<Rightarrow> ('f \<Rightarrow> int) \<Rightarrow> tc_config \<Rightarrow> string set \<Rightarrow> rec_table \<Rightarrow> bool \<Rightarrow>
   string set \<Rightarrow> (string \<rightharpoonup> 'f) \<Rightarrow> 'f tc_state \<Rightarrow> bool" where
  "seg_inv to_unix local_of size_of c N rows0 ok used made s \<longleftrightarrow>
     placed to_unix local_of c N made (tc_files s) \<and>
     (\<exists>new. tc_rows s = rows0 @ new \<and> rec_id ` set (rows0 @ new) \<subseteq> used \<and>
        (\<forall>r \<in> set new. row_of to_unix local_of size_of c N made (tc_files s) r) \<and>
        (ok \<longrightarrow> (\<forall>n \<in> N. tc_files s (seg_dest to_unix local_of c n) \<noteq> None \<longrightarrow>
           (\<exists>r \<in> set new. recording.complete r \<and> path r = seg_rel to_unix local_of c n))))"

text \<open>A line whose calls all succeed, under an identifier that is not used yet.\<close>

definition line_ok :: "tc_env \<Rightarrow> bool" where
  "line_ok e \<longleftrightarrow> mkdir_ok e \<and> rename_ok e \<and> create_ok e \<and> finalize_ok e"

lemma produced_inv:
  assumes "seg_inv to_unix local_of size_of c N rows0 ok used made s" and "names_ok to_unix local_of c N"
    and "n \<in> N" and "made n = None"
  shows "seg_inv to_unix local_of size_of c N rows0 ok used (made(n \<mapsto> f))
           (seg_step to_unix local_of pf size_of c (Produced n f) s)"
proof -
  have fs: "tc_files (seg_step to_unix local_of pf size_of c (Produced n f) s) = (tc_files s)(seg_path c n \<mapsto> f)"
    "tc_rows (seg_step to_unix local_of pf size_of c (Produced n f) s) = tc_rows s"
    by (simp_all add: seg_path_def)
  have dest: "((tc_files s)(seg_path c n \<mapsto> f)) (seg_dest to_unix local_of c m) =
      tc_files s (seg_dest to_unix local_of c m)" if "m \<in> N" for m
    using seg_path_not_dest(2) [OF assms(2,3) that] by simp
  show ?thesis
    using assms(1) placed_produced [where made = made and n = n and fs = "tc_files s", OF _ assms(2-4)]
      row_of_produced [where made = made and n = n and fs = "tc_files s", OF _ assms(2-4)]
    unfolding seg_inv_def fs using dest by fastforce
qed

lemma listed_inv:
  assumes "seg_inv to_unix local_of size_of c N rows0 ok used made s" and names: "names_ok to_unix local_of c N"
    and nN: "n \<in> N" and line: "line_names c line n"
    and ok: "ok \<Longrightarrow> line_ok e \<and> new_id e \<notin> used"
  shows "seg_inv to_unix local_of size_of c N rows0 ok (insert (new_id e) used) made
           (handle_segment to_unix local_of pf size_of c e line s)"
proof -
  have parse: "parse_segment_time (path_base (seg_path c n)) \<noteq> None"
    using names nN by (auto simp: names_ok_def)
  let ?s = "handle_segment to_unix local_of pf size_of c e line s"
  obtain new where new: "tc_rows s = rows0 @ new" "rec_id ` set (rows0 @ new) \<subseteq> used"
      "\<forall>r \<in> set new. row_of to_unix local_of size_of c N made (tc_files s) r"
    and full: "ok \<Longrightarrow> \<forall>m \<in> N. tc_files s (seg_dest to_unix local_of c m) \<noteq> None \<longrightarrow>
           (\<exists>r \<in> set new. recording.complete r \<and> path r = seg_rel to_unix local_of c m)"
    and pl: "placed to_unix local_of c N made (tc_files s)"
    using assms(1) by (auto simp: seg_inv_def)
  obtain more where more: "tc_rows ?s = tc_rows s @ more"
    "more = [] \<or> (\<exists>f r. tc_files s (seg_path c n) = Some f \<and> mkdir_ok e \<and> rename_ok e \<and> more = [r] \<and>
        rec_id r = new_id e \<and>
        path r = seg_rel to_unix local_of c n \<and> camera_id r = tr_camera_id c \<and>
        start_time r = to_ms (segment_start_of to_unix 0 (seg_path c n)) \<and>
        (recording.complete r \<longrightarrow> size_bytes r = (if stat_ok e then size_of f else 0)))"
    "mkdir_ok e \<and> rename_ok e \<and> create_ok e \<and> finalize_ok e \<and> tc_files s (seg_path c n) \<noteq> None \<and>
      new_id e \<notin> rec_id ` set (tc_rows s) \<longrightarrow> (\<exists>r. more = [r] \<and> recording.complete r)"
    using handle_named_rows [OF line parse, of to_unix local_of pf size_of e s] by blast
  have ids: "rec_id ` set (rows0 @ (new @ more)) \<subseteq> insert (new_id e) used"
    using new(2) more(2) by auto
  show ?thesis
  proof (cases "mkdir_ok e \<and> rename_ok e \<and> tc_files s (seg_path c n) \<noteq> None")
    case False
    then have "tc_files ?s = tc_files s" "more = []"
      using more(2) handle_named_files [OF line parse, of to_unix local_of pf size_of e s] by auto
    then show ?thesis using new pl more(1) ids full by (auto simp: seg_inv_def)
  next
    case True
    then obtain f where f: "tc_files s (seg_path c n) = Some f" by blast
    have fs: "tc_files ?s = (tc_files s)(seg_path c n := None, seg_dest to_unix local_of c n \<mapsto> f)"
      using True f handle_named_files [OF line parse, of to_unix local_of pf size_of e s] by simp
    note mv = placed_moved [OF pl names nN f]
    have old: "row_of to_unix local_of size_of c N made (tc_files ?s) r" if "r \<in> set new" for r
      unfolding fs using new(3) that
      by (intro row_of_moved [where made = made and n = n, OF _ names nN mv(2)]) blast
    have mine: "row_of to_unix local_of size_of c N made (tc_files ?s) r" if "r \<in> set more" for r
      unfolding row_of_def
      by (rule bexI [OF _ nN], rule exI [of _ f]) (use more(2) that f fs mv(2) in auto)
    have "\<exists>r \<in> set (new @ more). recording.complete r \<and> path r = seg_rel to_unix local_of c m"
      if o: "ok" and mN: "m \<in> N" and "tc_files ?s (seg_dest to_unix local_of c m) \<noteq> None" for m
    proof (cases "m = n")
      case True
      have "new_id e \<notin> rec_id ` set (tc_rows s)"
        using ok [OF o] new(1,2) by auto
      then obtain r where "more = [r]" "recording.complete r"
        using more(3) ok [OF o] f by (auto simp: line_ok_def)
      with more(2) True show ?thesis by auto
    next
      case False
      then have "tc_files s (seg_dest to_unix local_of c m) \<noteq> None"
        using that(3) seg_path_not_dest [OF names mN nN] seg_path_not_dest(2) [OF names nN mN]
        by (simp add: fs split: if_splits)
      with full [OF o] mN show ?thesis by auto
    qed
    with old mine mv(1) fs new(1) more(1) ids show ?thesis
      unfolding seg_inv_def by (intro conjI exI [of _ "new @ more"]) auto
  qed
qed

definition line_ids :: "'f seg_event list \<Rightarrow> string list" where
  "line_ids es = map (\<lambda>(e, line). new_id e) (lines es)"

definition lines_named :: "tc_config \<Rightarrow> string set \<Rightarrow> 'f seg_event list \<Rightarrow> bool" where
  "lines_named c N es \<longleftrightarrow> (\<forall>(e, line) \<in> set (lines es). \<exists>n \<in> N. line_names c line n)"

definition all_ok :: "string set \<Rightarrow> 'f seg_event list \<Rightarrow> bool" where
  "all_ok used es \<longleftrightarrow> (\<forall>(e, line) \<in> set (lines es). line_ok e) \<and> distinct (line_ids es) \<and>
     set (line_ids es) \<inter> used = {}"

lemma run_inv:
  assumes "names_ok to_unix local_of c N" and "seg_inv to_unix local_of size_of c N rows0 ok used made s"
    and "distinct (map fst (produced es))" and "\<forall>n \<in> fst ` set (produced es). n \<in> N \<and> made n = None"
    and "lines_named c N es" and "ok \<longrightarrow> all_ok used es"
  shows "seg_inv to_unix local_of size_of c N rows0 ok (used \<union> set (line_ids es)) (made ++ map_of (produced es))
           (fold (seg_step to_unix local_of pf size_of c) es s)"
  using assms(2-)
proof (induction es arbitrary: s made used)
  case Nil
  then show ?case by (simp add: line_ids_def)
next
  case (Cons x es)
  show ?case
  proof (cases x)
    case (Produced n f)
    have n: "n \<in> N" "made n = None" "n \<notin> fst ` set (produced es)"
      using Cons.prems(2,3) Produced by auto
    have m: "made(n \<mapsto> f) ++ map_of (produced es) = made ++ map_of (produced (x # es))"
    proof -
      have "map_of (produced es) n = None" using n(3) by (simp add: map_of_eq_None_iff)
      then show ?thesis by (auto simp: Produced fun_eq_iff map_add_def split: option.splits)
    qed
    have "seg_inv to_unix local_of size_of c N rows0 ok (used \<union> set (line_ids es))
        (made(n \<mapsto> f) ++ map_of (produced es))
        (fold (seg_step to_unix local_of pf size_of c) es (seg_step to_unix local_of pf size_of c x s))"
      unfolding Produced
      by (rule Cons.IH [OF produced_inv [OF Cons.prems(1) assms(1) n(1,2)]])
        (use Cons.prems n Produced in \<open>auto simp: lines_named_def all_ok_def line_ids_def\<close>)
    moreover have "produced (x # es) = (n, f) # produced es" "lines (x # es) = lines es"
      by (simp_all add: Produced)
    ultimately show ?thesis
      unfolding m by (simp only: line_ids_def fold_simps)
  next
    case (Listed e line)
    obtain n where n: "n \<in> N" "line_names c line n"
      using Cons.prems(4) Listed by (auto simp: lines_named_def)
    have "seg_inv to_unix local_of size_of c N rows0 ok (insert (new_id e) used \<union> set (line_ids es))
        (made ++ map_of (produced es))
        (fold (seg_step to_unix local_of pf size_of c) es (seg_step to_unix local_of pf size_of c x s))"
      unfolding Listed seg_step.simps
      by (rule Cons.IH [OF listed_inv [OF Cons.prems(1) assms(1) n]])
        (use Cons.prems Listed in \<open>auto simp: lines_named_def all_ok_def line_ids_def\<close>)
    then show ?thesis
      using Listed by (simp add: line_ids_def)
  qed
qed

lemma dest_stays:
  assumes "names_ok to_unix local_of c N" and "n \<in> N" and "fst ` set (produced es) \<subseteq> N" and "lines_named c N es"
    and "tc_files s (seg_dest to_unix local_of c n) \<noteq> None"
  shows "tc_files (fold (seg_step to_unix local_of pf size_of c) es s) (seg_dest to_unix local_of c n) \<noteq> None"
  using assms(3-)
proof (induction es arbitrary: s)
  case (Cons x es)
  have "tc_files (seg_step to_unix local_of pf size_of c x s) (seg_dest to_unix local_of c n) \<noteq> None"
  proof (cases x)
    case (Produced m f)
    with Cons.prems show ?thesis by auto
  next
    case (Listed e line)
    then obtain m where m: "m \<in> N" "line_names c line m"
      using Cons.prems(2) by (auto simp: lines_named_def)
    then have "parse_segment_time (path_base (seg_path c m)) \<noteq> None"
      using assms(1) by (auto simp: names_ok_def)
    from handle_named_files [OF m(2) this, of to_unix local_of pf size_of e s] Cons.prems(3) Listed
      seg_path_not_dest(1) [OF assms(1) m(1) assms(2)]
    show ?thesis by auto
  qed
  then show ?case
    using Cons.IH Cons.prems by (cases x) (auto simp: lines_named_def)
qed simp

lemma listed_moves:
  assumes "names_ok to_unix local_of c N" and "n \<in> N" and "line_names c line n" and "line_ok e"
    and "placed to_unix local_of c N made (tc_files s)" and "made n \<noteq> None"
  shows "tc_files (handle_segment to_unix local_of pf size_of c e line s) (seg_dest to_unix local_of c n) \<noteq> None"
proof -
  have "parse_segment_time (path_base (seg_path c n)) \<noteq> None"
    using assms(1,2) by (auto simp: names_ok_def)
  from handle_named_files [OF assms(3) this, of to_unix local_of pf size_of e s] assms(2,4-)
  show ?thesis by (auto simp: placed_def line_ok_def)
qed

lemma produced_append [simp]: "produced (xs @ ys) = produced xs @ produced ys"
  by (induction xs rule: produced.induct) auto

lemma lines_append [simp]: "lines (xs @ ys) = lines xs @ lines ys"
  by (induction xs rule: lines.induct) auto

text \<open>A line that succeeds leaves the file it names at its place for good.\<close>

lemma listed_stays:
  assumes names: "names_ok to_unix local_of c N" and "seg_inv to_unix local_of size_of c N rows0 False used Map.empty s"
    and "distinct (map fst (produced (pre @ Listed e line # post)))"
    and N: "fst ` set (produced (pre @ Listed e line # post)) \<subseteq> N"
    and L: "lines_named c N (pre @ Listed e line # post)"
    and line: "line_names c line n" "n \<in> fst ` set (produced pre)" "line_ok e"
  shows "tc_files (fold (seg_step to_unix local_of pf size_of c) (pre @ Listed e line # post) s)
           (seg_dest to_unix local_of c n) \<noteq> None"
proof -
  have nN: "n \<in> N" using line(2) N by auto
  have "seg_inv to_unix local_of size_of c N rows0 False (used \<union> set (line_ids pre))
      (Map.empty ++ map_of (produced pre)) (fold (seg_step to_unix local_of pf size_of c) pre s)"
    by (rule run_inv [OF names assms(2)]) (use assms(3) N L in \<open>auto simp: lines_named_def\<close>)
  then have "placed to_unix local_of c N (map_of (produced pre))
      (tc_files (fold (seg_step to_unix local_of pf size_of c) pre s))"
    by (simp add: seg_inv_def)
  moreover have "map_of (produced pre) n \<noteq> None"
    using line(2) by (simp add: map_of_eq_None_iff)
  ultimately have "tc_files (handle_segment to_unix local_of pf size_of c e line
      (fold (seg_step to_unix local_of pf size_of c) pre s)) (seg_dest to_unix local_of c n) \<noteq> None"
    by (rule listed_moves [OF names nN line(1,3)])
  then have "tc_files (fold (seg_step to_unix local_of pf size_of c) post (handle_segment to_unix local_of pf size_of c e line
      (fold (seg_step to_unix local_of pf size_of c) pre s))) (seg_dest to_unix local_of c n) \<noteq> None"
    by (rule dest_stays [OF names nN, rotated 2]) (use N L in \<open>auto simp: lines_named_def\<close>)
  then show ?thesis by simp
qed

text \<open>A new recording of a run: its path, its file and its data.\<close>

definition stored ::
  "(civil \<Rightarrow> int) \<Rightarrow> (int \<Rightarrow> local_time) \<Rightarrow> ('f \<Rightarrow> int) \<Rightarrow> tc_config \<Rightarrow> 'f seg_event list \<Rightarrow> (string \<rightharpoonup> 'f) \<Rightarrow>
   recording \<Rightarrow> bool" where
  "stored to_unix local_of size_of c es fs r \<longleftrightarrow>
     (\<exists>(n, f) \<in> set (produced es).
        path r = seg_rel to_unix local_of c n \<and> fs (tr_root c @ ''/'' @ path r) = Some f \<and>
        camera_id r = tr_camera_id c \<and> start_time r = to_ms (segment_start_of to_unix 0 (seg_path c n)) \<and>
        (recording.complete r \<longrightarrow> size_bytes r = size_of f \<or> size_bytes r = 0))"

lemma row_of_stored:
  assumes "row_of to_unix local_of size_of c N (map_of (produced es)) fs r"
  shows "stored to_unix local_of size_of c es fs r"
  using assms unfolding row_of_def stored_def
  by (auto simp: seg_dest_def dest!: map_of_SomeD intro!: bexI)


section \<open>A run with two segments\<close>

definition ex_config :: tc_config where
  "ex_config = \<lparr>tr_camera_id = ''k'', tr_camera_name = ''K'', tr_root = ''/r'', tr_seg_dur = 60000000000,
     tr_template = ''{minute}'', tr_codec = [], tr_crf = 0, tr_preset = []\<rparr>"

definition ex_env :: "string \<Rightarrow> tc_env" where
  "ex_env i = \<lparr>tc_now = 0, mkdir_ok = True, rename_ok = True, stat_ok = True, create_ok = True, new_id = i,
     finalize_ok = True, faces_on = False, job_ok = True, job_id = []\<rparr>"

definition ex_unix :: "civil \<Rightarrow> int" where
  "ex_unix v = int (cv_minute v)"

definition ex_local :: "int \<Rightarrow> local_time" where
  "ex_local t = \<lparr>year = 2024, month = 5, day = 1, hour = 10, minute = (if t = 1000000000 then 1 else 2),
     second = 0, unix = 0\<rparr>"

definition ex_events :: "int seg_event list" where
  "ex_events =
     [Produced ''seg-20240501-100100.mp4'' 5, Listed (ex_env ''a'') ''seg-20240501-100100.mp4,0,60'',
      Produced ''seg-20240501-100200.mp4'' 7]"

definition ex_state :: "int tc_state" where
  "ex_state = \<lparr>tc_files = Map.empty, tc_rows = [], tc_jobs = []\<rparr>"

lemma ex_parse:
  "parse_segment_time (path_base (seg_path ex_config ''seg-20240501-100100.mp4'')) \<noteq> None"
  "parse_segment_time (path_base (seg_path ex_config ''seg-20240501-100200.mp4'')) \<noteq> None"
  by code_simp+

lemma ex_dest:
  "seg_rel ex_unix ex_local ex_config ''seg-20240501-100100.mp4'' = ''01.mp4''"
  "seg_rel ex_unix ex_local ex_config ''seg-20240501-100200.mp4'' = ''02.mp4''"
  by code_simp+

lemma ex_line: "line_names ex_config ''seg-20240501-100100.mp4,0,60'' ''seg-20240501-100100.mp4''"
  by code_simp


text \<open>
  A segment that is moved but not registered stays on the disk without a row: neither the list of
  recordings nor retention, which both go by the rows, will ever see it.
\<close>

lemma unregistered_stays:
  assumes "line_names c line n" and "parse_segment_time (path_base (seg_path c n)) \<noteq> None"
    and "mkdir_ok e" and "rename_ok e" and "tc_files s (seg_path c n) = Some f" and "\<not> create_ok e"
  shows "tc_rows (handle_segment to_unix local_of pf size_of c e line s) = tc_rows s"
    and "tc_files (handle_segment to_unix local_of pf size_of c e line s) (seg_dest to_unix local_of c n) = Some f"
  using assms by (simp_all add: handle_named Let_def segment_started_def)

text \<open>
  Two segments with the same place, as under a template without the time or in the hour that is
  repeated when summer time ends: the second replaces the first, whose row stays.
\<close>

lemma same_place_replaces:
  assumes "line_names c line n" and "parse_segment_time (path_base (seg_path c n)) \<noteq> None"
    and "mkdir_ok e" and "rename_ok e" and "tc_files s (seg_path c n) = Some f"
  shows "tc_files (handle_segment to_unix local_of pf size_of c e line s) (seg_dest to_unix local_of c n) = Some f"
    and "\<exists>new. tc_rows (handle_segment to_unix local_of pf size_of c e line s) = tc_rows s @ new"
  using handle_named_files [OF assms(1,2), of to_unix local_of pf size_of e s] assms(3-)
    handle_named_rows [OF assms(1,2), of to_unix local_of pf size_of e s]
  by auto

end
