(* ===== verification/Rtsp_Publish.thy ===== *)
theory Rtsp_Publish
  imports Core_Stream GoStrings
begin

text \<open>
  The RTSP server that republishes live cameras (\<^verbatim>\<open>internal/rtspserver/server.go\<close>).  A publication is
  created by the first \<^verbatim>\<open>DESCRIBE\<close> of a camera; a goroutine pumps the camera's hub into it until the
  hub's channel ends, then takes it out of the table and closes it.  Concurrent requests, the
  goroutines of the publications and the users of the hubs interleave: the step relation has one
  rule per critical section.  The RTP encoders and the choice of the first timestamp belong to the
  library: \<open>enc_ok\<close> and \<open>encode\<close> are parameters, and a publication starts with any timestamp.
\<close>

section \<open>Publications\<close>

datatype pub_phase = PubBuilding | PubRegistered | PubRunning nat | PubEnding | PubRemoved | PubClosed

record publication =
  pb_path :: string
  pb_source :: nat
  pb_encs :: "int \<rightharpoonup> track"
  pb_start :: u32
  pb_phase :: pub_phase
  pb_closes :: nat

definition camera_path :: "string \<Rightarrow> string" where
  "camera_path p = trim_by (\<lambda>c. c = CHR ''/'') p"

text \<open>The tracks of a publication; an encoder that cannot be made fails the whole of it.\<close>

fun build_encs :: "(track \<Rightarrow> bool) \<Rightarrow> track list \<Rightarrow> (int \<rightharpoonup> track) \<Rightarrow> (int \<rightharpoonup> track) option" where
  "build_encs enc_ok [] m = Some m"
| "build_encs enc_ok (t # ts) m =
     (if track_codec t = CodecAAC \<and> audio_config t = None then build_encs enc_ok ts m
      else if enc_ok t then build_encs enc_ok ts (m(track_id t \<mapsto> t))
      else None)"

definition new_publication ::
  "(track \<Rightarrow> bool) \<Rightarrow> bool \<Rightarrow> u32 \<Rightarrow> string \<Rightarrow> nat \<Rightarrow> hub \<Rightarrow> publication option" where
  "new_publication enc_ok init_ok start path i h =
     (case build_encs enc_ok (tracks h) Map.empty of
        None \<Rightarrow> None
      | Some m \<Rightarrow>
          if \<not> init_ok then None
          else Some \<lparr>pb_path = path, pb_source = i, pb_encs = m, pb_start = start,
                     pb_phase = PubBuilding, pb_closes = 0\<rparr>)"

text \<open>The packets of a unit: all of one timestamp, on the publication's own 32-bit time line.\<close>

definition unit_packets ::
  "(track \<Rightarrow> byte list list \<Rightarrow> 'p list option) \<Rightarrow> publication \<Rightarrow> media_unit \<Rightarrow> (int \<times> u32 \<times> 'p) list" where
  "unit_packets encode p u =
     (case pb_encs p (unit_track u) of
        None \<Rightarrow> []
      | Some t \<Rightarrow> (case encode t (aus u) of
                    None \<Rightarrow> []
                  | Some ps \<Rightarrow> map (\<lambda>q. (unit_track u, pb_start p + word_of_int (pts u), q)) ps))"

section \<open>The server\<close>

text \<open>Where a \<^verbatim>\<open>DESCRIBE\<close> stands between its critical sections.\<close>

datatype rtsp_req = Missed string | Fetched string nat | Built string nat

text \<open>
  \<open>rs_hubs\<close> are the streams of the manager and \<open>rs_live\<close> its answer to \<^verbatim>\<open>StreamFor\<close>; an answer is the
  path, the publication and whether it was still open.
\<close>

record 'p rtsp_srv =
  rs_pubs :: "string \<rightharpoonup> nat"
  rs_table :: "nat \<rightharpoonup> publication"
  rs_next :: nat
  rs_hubs :: "nat \<rightharpoonup> hub"
  rs_live :: "string \<rightharpoonup> nat"
  rs_reqs :: "nat \<rightharpoonup> rtsp_req"
  rs_answers :: "(string \<times> nat option \<times> bool) list"
  rs_sent :: "(nat \<times> int \<times> u32 \<times> 'p) list"

definition rtsp_start :: "'p rtsp_srv" where
  "rtsp_start = \<lparr>rs_pubs = Map.empty, rs_table = Map.empty, rs_next = 0, rs_hubs = Map.empty,
     rs_live = Map.empty, rs_reqs = Map.empty, rs_answers = [], rs_sent = []\<rparr>"

definition pub_open :: "'p rtsp_srv \<Rightarrow> nat \<Rightarrow> bool" where
  "pub_open s k = (case rs_table s k of None \<Rightarrow> False | Some p \<Rightarrow> pb_phase p \<noteq> PubClosed)"

definition answer :: "string \<Rightarrow> nat option \<Rightarrow> 'p rtsp_srv \<Rightarrow> 'p rtsp_srv" where
  "answer path k s = s\<lparr>rs_answers := rs_answers s @
     [(path, k, case k of None \<Rightarrow> True | Some i \<Rightarrow> pub_open s i)]\<rparr>"

definition set_pub :: "nat \<Rightarrow> (publication \<Rightarrow> publication) \<Rightarrow> 'p rtsp_srv \<Rightarrow> 'p rtsp_srv" where
  "set_pub k f s = s\<lparr>rs_table := (rs_table s)(k := map_option f (rs_table s k))\<rparr>"

definition close_pub :: "nat \<Rightarrow> 'p rtsp_srv \<Rightarrow> 'p rtsp_srv" where
  "close_pub k s = set_pub k (\<lambda>p. p\<lparr>pb_phase := PubClosed, pb_closes := pb_closes p + 1\<rparr>) s"

text \<open>\<^verbatim>\<open>OnSetup\<close> (and \<^verbatim>\<open>getPub\<close>): one look into the table.\<close>

definition on_setup :: "string \<Rightarrow> 'p rtsp_srv \<Rightarrow> 'p rtsp_srv" where
  "on_setup path s = answer (camera_path path) (rs_pubs s (camera_path path)) s"

text \<open>\<^verbatim>\<open>OnDescribe\<close> and \<^verbatim>\<open>ensurePub\<close>, section by section.\<close>

definition describe_begin :: "nat \<Rightarrow> string \<Rightarrow> 'p rtsp_srv \<Rightarrow> 'p rtsp_srv" where
  "describe_begin r path s =
     (case rs_pubs s (camera_path path) of
        Some k \<Rightarrow> answer (camera_path path) (Some k) s
      | None \<Rightarrow> s\<lparr>rs_reqs := (rs_reqs s)(r \<mapsto> Missed (camera_path path))\<rparr>)"

definition describe_source :: "nat \<Rightarrow> string \<Rightarrow> 'p rtsp_srv \<Rightarrow> 'p rtsp_srv" where
  "describe_source r path s =
     (case rs_live s path of
        None \<Rightarrow> answer path None (s\<lparr>rs_reqs := (rs_reqs s)(r := None)\<rparr>)
      | Some i \<Rightarrow> s\<lparr>rs_reqs := (rs_reqs s)(r \<mapsto> Fetched path i)\<rparr>)"

definition describe_build ::
  "(track \<Rightarrow> bool) \<Rightarrow> bool \<Rightarrow> u32 \<Rightarrow> nat \<Rightarrow> string \<Rightarrow> nat \<Rightarrow> 'p rtsp_srv \<Rightarrow> 'p rtsp_srv" where
  "describe_build enc_ok init_ok start r path i s =
     (case rs_hubs s i of
        None \<Rightarrow> s
      | Some h \<Rightarrow>
          (case new_publication enc_ok init_ok start path i h of
             None \<Rightarrow> answer path None (s\<lparr>rs_reqs := (rs_reqs s)(r := None)\<rparr>)
           | Some p \<Rightarrow> s\<lparr>rs_table := (rs_table s)(rs_next s \<mapsto> p), rs_next := rs_next s + 1,
                         rs_reqs := (rs_reqs s)(r \<mapsto> Built path (rs_next s))\<rparr>))"

definition describe_insert :: "nat \<Rightarrow> string \<Rightarrow> nat \<Rightarrow> 'p rtsp_srv \<Rightarrow> 'p rtsp_srv" where
  "describe_insert r path k s =
     (let s1 = s\<lparr>rs_reqs := (rs_reqs s)(r := None)\<rparr>
      in case rs_pubs s path of
           Some k' \<Rightarrow> answer path (Some k') (close_pub k s1)
         | None \<Rightarrow> answer path (Some k)
                     (set_pub k (\<lambda>p. p\<lparr>pb_phase := PubRegistered\<rparr>) (s1\<lparr>rs_pubs := (rs_pubs s)(path \<mapsto> k)\<rparr>)))"

text \<open>The goroutine: attach a reader, pump, and at the end of the channel detach, delete, close.\<close>

definition run_start :: "nat \<Rightarrow> publication \<Rightarrow> hub \<Rightarrow> 'p rtsp_srv \<Rightarrow> 'p rtsp_srv" where
  "run_start k p h s =
     (let (r, h') = add_reader h 1024
      in set_pub k (\<lambda>p. p\<lparr>pb_phase := PubRunning r\<rparr>) (s\<lparr>rs_hubs := (rs_hubs s)(pb_source p \<mapsto> h')\<rparr>))"

text \<open>\<open>None\<close> is the panic of closing a closed channel.\<close>

definition run_pump ::
  "(track \<Rightarrow> byte list list \<Rightarrow> 'p list option) \<Rightarrow> nat \<Rightarrow> publication \<Rightarrow> nat \<Rightarrow> hub \<Rightarrow> 'p rtsp_srv \<Rightarrow>
   'p rtsp_srv option" where
  "run_pump encode k p r h s =
     (case recv h r of
        (Received u, h') \<Rightarrow>
          Some (s\<lparr>rs_hubs := (rs_hubs s)(pb_source p \<mapsto> h'),
                  rs_sent := rs_sent s @ map (\<lambda>q. (k, q)) (unit_packets encode p u)\<rparr>)
      | (NotOk, h') \<Rightarrow>
          (case remove_reader h r of
             None \<Rightarrow> None
           | Some h'' \<Rightarrow> Some (set_pub k (\<lambda>p. p\<lparr>pb_phase := PubEnding\<rparr>)
                                (s\<lparr>rs_hubs := (rs_hubs s)(pb_source p \<mapsto> h'')\<rparr>)))
      | (Blocks, h') \<Rightarrow> Some s)"

definition run_delete :: "nat \<Rightarrow> publication \<Rightarrow> 'p rtsp_srv \<Rightarrow> 'p rtsp_srv" where
  "run_delete k p s =
     set_pub k (\<lambda>p. p\<lparr>pb_phase := PubRemoved\<rparr>)
       (if rs_pubs s (pb_path p) = Some k then s\<lparr>rs_pubs := (rs_pubs s)(pb_path p := None)\<rparr> else s)"

section \<open>Steps\<close>

text \<open>A reader that a publication holds is used by its goroutine only.\<close>

definition held :: "'p rtsp_srv \<Rightarrow> nat \<Rightarrow> nat \<Rightarrow> bool" where
  "held s i r \<longleftrightarrow> (\<exists>k p. rs_table s k = Some p \<and> pb_source p = i \<and> pb_phase p = PubRunning r)"

fun foreign :: "'p rtsp_srv \<Rightarrow> nat \<Rightarrow> hub_event \<Rightarrow> bool" where
  "foreign s i (Remove r) \<longleftrightarrow> \<not> held s i r"
| "foreign s i (Recv r) \<longleftrightarrow> \<not> held s i r"
| "foreign s i _ \<longleftrightarrow> True"

inductive rtsp_step ::
  "(track \<Rightarrow> bool) \<Rightarrow> (track \<Rightarrow> byte list list \<Rightarrow> 'p list option) \<Rightarrow> 'p rtsp_srv \<Rightarrow> 'p rtsp_srv \<Rightarrow> bool"
  for enc_ok encode where
  Setup: "rtsp_step enc_ok encode s (on_setup path s)"
| Begin: "rs_reqs s r = None \<Longrightarrow> rtsp_step enc_ok encode s (describe_begin r path s)"
| Source: "rs_reqs s r = Some (Missed path) \<Longrightarrow> rtsp_step enc_ok encode s (describe_source r path s)"
| Build: "rs_reqs s r = Some (Fetched path i) \<Longrightarrow>
     rtsp_step enc_ok encode s (describe_build enc_ok init_ok start r path i s)"
| Insert: "rs_reqs s r = Some (Built path k) \<Longrightarrow> rtsp_step enc_ok encode s (describe_insert r path k s)"
| Attach: "rs_table s k = Some p \<Longrightarrow> pb_phase p = PubRegistered \<Longrightarrow> rs_hubs s (pb_source p) = Some h \<Longrightarrow>
     rtsp_step enc_ok encode s (run_start k p h s)"
| Pump: "rs_table s k = Some p \<Longrightarrow> pb_phase p = PubRunning r \<Longrightarrow> rs_hubs s (pb_source p) = Some h \<Longrightarrow>
     run_pump encode k p r h s = Some s' \<Longrightarrow> rtsp_step enc_ok encode s s'"
| Delete: "rs_table s k = Some p \<Longrightarrow> pb_phase p = PubEnding \<Longrightarrow> rtsp_step enc_ok encode s (run_delete k p s)"
| Finish: "rs_table s k = Some p \<Longrightarrow> pb_phase p = PubRemoved \<Longrightarrow> rtsp_step enc_ok encode s (close_pub k s)"
| Hub: "rs_hubs s i = Some h \<Longrightarrow> foreign s i e \<Longrightarrow> hub_step h e = Some h' \<Longrightarrow>
     rtsp_step enc_ok encode s (s\<lparr>rs_hubs := (rs_hubs s)(i \<mapsto> h')\<rparr>)"
| NewHub: "rs_hubs s i = None \<Longrightarrow> rtsp_step enc_ok encode s (s\<lparr>rs_hubs := (rs_hubs s)(i \<mapsto> new_stream ts)\<rparr>)"
| Live: "ran live \<subseteq> dom (rs_hubs s) \<Longrightarrow> rtsp_step enc_ok encode s (s\<lparr>rs_live := live\<rparr>)"

section \<open>The invariant\<close>

text \<open>The phases in which a publication stands in the table.\<close>

fun listed :: "pub_phase \<Rightarrow> bool" where
  "listed PubRegistered \<longleftrightarrow> True"
| "listed (PubRunning r) \<longleftrightarrow> True"
| "listed PubEnding \<longleftrightarrow> True"
| "listed _ \<longleftrightarrow> False"

definition hubs_ok :: "'p rtsp_srv \<Rightarrow> bool" where
  "hubs_ok s \<longleftrightarrow> (\<forall>i h. rs_hubs s i = Some h \<longrightarrow> hub_inv h) \<and> ran (rs_live s) \<subseteq> dom (rs_hubs s) \<and>
     (\<forall>r path i. rs_reqs s r = Some (Fetched path i) \<longrightarrow> rs_hubs s i \<noteq> None)"

definition reader_ok :: "'p rtsp_srv \<Rightarrow> publication \<Rightarrow> bool" where
  "reader_ok s p \<longleftrightarrow> (\<exists>h. rs_hubs s (pb_source p) = Some h \<and>
     (\<forall>r. pb_phase p = PubRunning r \<longrightarrow> r < next_reader h))"

definition readers_ok :: "'p rtsp_srv \<Rightarrow> bool" where
  "readers_ok s \<longleftrightarrow> (\<forall>k p. rs_table s k = Some p \<longrightarrow> reader_ok s p) \<and>
     (\<forall>k k' p p' r. rs_table s k = Some p \<and> rs_table s k' = Some p' \<and> pb_source p = pb_source p' \<and>
        pb_phase p = PubRunning r \<and> pb_phase p' = PubRunning r \<longrightarrow> k = k')"

definition table_ok :: "'p rtsp_srv \<Rightarrow> bool" where
  "table_ok s \<longleftrightarrow>
     (\<forall>k p. rs_table s k = Some p \<longrightarrow> k < rs_next s \<and>
        pb_closes p = (if pb_phase p = PubClosed then 1 else 0) \<and>
        (listed (pb_phase p) \<longleftrightarrow> rs_pubs s (pb_path p) = Some k)) \<and>
     (\<forall>path k. rs_pubs s path = Some k \<longrightarrow> (\<exists>p. rs_table s k = Some p \<and> pb_path p = path))"

definition reqs_ok :: "'p rtsp_srv \<Rightarrow> bool" where
  "reqs_ok s \<longleftrightarrow>
     (\<forall>r path k. rs_reqs s r = Some (Built path k) \<longrightarrow>
        (\<exists>p. rs_table s k = Some p \<and> pb_path p = path \<and> pb_phase p = PubBuilding)) \<and>
     (\<forall>r r' path path' k. rs_reqs s r = Some (Built path k) \<and> rs_reqs s r' = Some (Built path' k) \<longrightarrow> r = r')"

definition answers_ok :: "'p rtsp_srv \<Rightarrow> bool" where
  "answers_ok s \<longleftrightarrow> (\<forall>(path, k, fresh) \<in> set (rs_answers s). fresh)"

definition rtsp_inv :: "'p rtsp_srv \<Rightarrow> bool" where
  "rtsp_inv s \<longleftrightarrow> hubs_ok s \<and> readers_ok s \<and> table_ok s \<and> reqs_ok s \<and> answers_ok s"

lemmas rtsp_ok_defs = hubs_ok_def readers_ok_def reader_ok_def table_ok_def reqs_ok_def

lemma rtsp_inv_start: "rtsp_inv rtsp_start"
  by (simp add: rtsp_inv_def rtsp_ok_defs answers_ok_def rtsp_start_def)

lemma answer_simps [simp]:
  "rs_pubs (answer path k s) = rs_pubs s" "rs_table (answer path k s) = rs_table s"
  "rs_next (answer path k s) = rs_next s" "rs_hubs (answer path k s) = rs_hubs s"
  "rs_live (answer path k s) = rs_live s" "rs_reqs (answer path k s) = rs_reqs s"
  "rs_sent (answer path k s) = rs_sent s"
  by (simp_all add: answer_def)

lemma set_pub_simps [simp]:
  "rs_pubs (set_pub k f s) = rs_pubs s" "rs_next (set_pub k f s) = rs_next s"
  "rs_hubs (set_pub k f s) = rs_hubs s" "rs_live (set_pub k f s) = rs_live s"
  "rs_reqs (set_pub k f s) = rs_reqs s" "rs_sent (set_pub k f s) = rs_sent s"
  "rs_answers (set_pub k f s) = rs_answers s"
  "rs_table (set_pub k f s) = (rs_table s)(k := map_option f (rs_table s k))"
  by (simp_all add: set_pub_def)

lemma answer_inv:
  assumes "rtsp_inv s" and "\<And>i. k = Some i \<Longrightarrow> pub_open s i"
  shows "rtsp_inv (answer path k s)"
  using assms
  by (simp add: rtsp_inv_def rtsp_ok_defs) (auto simp: answers_ok_def answer_def split: option.splits)

lemma listed_open: "rtsp_inv s \<Longrightarrow> rs_pubs s path = Some k \<Longrightarrow> pub_open s k"
  by (force simp: rtsp_inv_def table_ok_def pub_open_def)

lemma on_setup_inv: "rtsp_inv s \<Longrightarrow> rtsp_inv (on_setup path s)"
  unfolding on_setup_def by (rule answer_inv) (auto intro: listed_open)

text \<open>Fields a part of the invariant does not read.\<close>

lemma ok_frame [simp]:
  "readers_ok (s\<lparr>rs_reqs := q\<rparr>) = readers_ok s" "table_ok (s\<lparr>rs_reqs := q\<rparr>) = table_ok s"
  "answers_ok (s\<lparr>rs_reqs := q\<rparr>) = answers_ok s"
  "table_ok (s\<lparr>rs_hubs := hs\<rparr>) = table_ok s" "reqs_ok (s\<lparr>rs_hubs := hs\<rparr>) = reqs_ok s"
  "answers_ok (s\<lparr>rs_hubs := hs\<rparr>) = answers_ok s"
  "hubs_ok (s\<lparr>rs_pubs := m\<rparr>) = hubs_ok s" "readers_ok (s\<lparr>rs_pubs := m\<rparr>) = readers_ok s"
  "reqs_ok (s\<lparr>rs_pubs := m\<rparr>) = reqs_ok s" "answers_ok (s\<lparr>rs_pubs := m\<rparr>) = answers_ok s"
  "hubs_ok (s\<lparr>rs_sent := l\<rparr>) = hubs_ok s" "readers_ok (s\<lparr>rs_sent := l\<rparr>) = readers_ok s"
  "table_ok (s\<lparr>rs_sent := l\<rparr>) = table_ok s" "reqs_ok (s\<lparr>rs_sent := l\<rparr>) = reqs_ok s"
  "answers_ok (s\<lparr>rs_sent := l\<rparr>) = answers_ok s"
  "hubs_ok (set_pub k f s) = hubs_ok s" "answers_ok (set_pub k f s) = answers_ok s"
  by (simp_all add: hubs_ok_def readers_ok_def reader_ok_def table_ok_def reqs_ok_def answers_ok_def)

text \<open>A request moves on without touching anything else.\<close>

lemma set_req_inv:
  assumes "rtsp_inv s"
    and "\<And>path i. q = Some (Fetched path i) \<Longrightarrow> rs_hubs s i \<noteq> None"
    and "\<And>path k. q \<noteq> Some (Built path k)"
  shows "rtsp_inv (s\<lparr>rs_reqs := (rs_reqs s)(r := q)\<rparr>)"
proof -
  have "hubs_ok (s\<lparr>rs_reqs := (rs_reqs s)(r := q)\<rparr>)"
    using assms(1,2) by (auto simp: rtsp_inv_def hubs_ok_def)
  moreover have "reqs_ok (s\<lparr>rs_reqs := (rs_reqs s)(r := q)\<rparr>)"
    using assms(1,3) unfolding rtsp_inv_def reqs_ok_def
    by (auto split: if_splits)
  ultimately show ?thesis using assms(1) by (simp add: rtsp_inv_def)
qed

lemma describe_begin_inv: "rtsp_inv s \<Longrightarrow> rtsp_inv (describe_begin r path s)"
  by (auto simp: describe_begin_def split: option.splits intro!: answer_inv set_req_inv intro: listed_open)

lemma live_hub: "rtsp_inv s \<Longrightarrow> rs_live s path = Some i \<Longrightarrow> \<exists>h. rs_hubs s i = Some h"
  by (auto simp: rtsp_inv_def hubs_ok_def intro: ranI)

lemma describe_source_inv: "rtsp_inv s \<Longrightarrow> rtsp_inv (describe_source r path s)"
  using live_hub [of s path]
  by (auto simp: describe_source_def split: option.splits intro!: answer_inv set_req_inv)

lemma build_inv:
  assumes inv: "rtsp_inv s" and h: "rs_hubs s i = Some h" and p: "pb_path p = path" "pb_source p = i"
    "pb_phase p = PubBuilding" "pb_closes p = 0"
  shows "rtsp_inv (s\<lparr>rs_table := (rs_table s)(rs_next s \<mapsto> p), rs_next := rs_next s + 1,
                     rs_reqs := (rs_reqs s)(r \<mapsto> Built path (rs_next s))\<rparr>)"
proof -
  have t: "table_ok s" and q: "reqs_ok s" and hb: "hubs_ok s" and rd: "readers_ok s" and an: "answers_ok s"
    using inv by (simp_all add: rtsp_inv_def)
  have f1: "rs_table s (rs_next s) = None"
    using t unfolding table_ok_def by (metis less_irrefl not_Some_eq)
  have f2: "rs_pubs s path' \<noteq> Some (rs_next s)" for path'
    using t f1 unfolding table_ok_def by (metis option.distinct(1))
  have f3: "rs_reqs s r' \<noteq> Some (Built path' (rs_next s))" for path' r'
    using q f1 unfolding reqs_ok_def by (metis option.distinct(1))
  let ?s = "s\<lparr>rs_table := (rs_table s)(rs_next s \<mapsto> p), rs_next := rs_next s + 1,
              rs_reqs := (rs_reqs s)(r \<mapsto> Built path (rs_next s))\<rparr>"
  have "hubs_ok ?s" using hb by (auto simp: hubs_ok_def)
  moreover have "readers_ok ?s" using rd h p by (auto simp: readers_ok_def reader_ok_def)
  moreover have "table_ok ?s"
    unfolding table_ok_def
  proof (intro conjI allI impI)
    fix k q
    assume k: "rs_table ?s k = Some q"
    show "k < rs_next ?s" "pb_closes q = (if pb_phase q = PubClosed then 1 else 0)"
      "listed (pb_phase q) \<longleftrightarrow> rs_pubs ?s (pb_path q) = Some k"
      using k t p f2 by (cases "k = rs_next s"; force simp: table_ok_def)+
  next
    fix path' k
    assume "rs_pubs ?s path' = Some k"
    then show "\<exists>q. rs_table ?s k = Some q \<and> pb_path q = path'"
      using t f2 [of path'] by (auto simp: table_ok_def)
  qed
  moreover have "reqs_ok ?s"
    using q f3 p f1 unfolding reqs_ok_def by (simp split: if_splits)
  moreover have "answers_ok ?s" using an by (simp add: answers_ok_def)
  ultimately show ?thesis by (simp add: rtsp_inv_def)
qed

text \<open>Hubs only grow: readers are never numbered again.\<close>

definition hubs_grow :: "(nat \<rightharpoonup> hub) \<Rightarrow> (nat \<rightharpoonup> hub) \<Rightarrow> bool" where
  "hubs_grow hs hs' \<longleftrightarrow> (\<forall>i h. hs' i = Some h \<longrightarrow> hub_inv h) \<and>
     (\<forall>i h. hs i = Some h \<longrightarrow> (\<exists>h'. hs' i = Some h' \<and> next_reader h \<le> next_reader h'))"

lemma hubs_grow_refl: "hubs_ok s \<Longrightarrow> hubs_grow (rs_hubs s) (rs_hubs s)"
  by (auto simp: hubs_grow_def hubs_ok_def)

lemma hubs_grow_one:
  assumes "hubs_ok s" and "rs_hubs s i = Some h" and "hub_inv h'" and "next_reader h \<le> next_reader h'"
  shows "hubs_grow (rs_hubs s) ((rs_hubs s)(i \<mapsto> h'))"
  using assms by (auto simp: hubs_grow_def hubs_ok_def)

lemma hubs_grow_ok:
  assumes "rtsp_inv s" and "hubs_grow (rs_hubs s) hs"
  shows "rtsp_inv (s\<lparr>rs_hubs := hs\<rparr>)"
proof -
  have dom: "rs_hubs s i \<noteq> None \<Longrightarrow> hs i \<noteq> None" for i
    using assms(2) unfolding hubs_grow_def by (metis not_None_eq)
  have "hubs_ok (s\<lparr>rs_hubs := hs\<rparr>)"
    unfolding hubs_ok_def
  proof (intro conjI allI impI)
    show "ran (rs_live (s\<lparr>rs_hubs := hs\<rparr>)) \<subseteq> dom (rs_hubs (s\<lparr>rs_hubs := hs\<rparr>))"
      using assms(1) dom by (auto simp: rtsp_inv_def hubs_ok_def domIff subset_iff)
    show "rs_hubs (s\<lparr>rs_hubs := hs\<rparr>) i \<noteq> None"
      if "rs_reqs (s\<lparr>rs_hubs := hs\<rparr>) r = Some (Fetched path i)" for r path i
      using assms(1) dom [of i] that by (simp add: rtsp_inv_def hubs_ok_def)
  qed (use assms(2) in \<open>auto simp: hubs_grow_def\<close>)
  moreover have "readers_ok (s\<lparr>rs_hubs := hs\<rparr>)"
    using assms unfolding rtsp_inv_def readers_ok_def reader_ok_def hubs_grow_def
    by simp (meson le_trans less_le_trans)
  ultimately show ?thesis using assms(1) by (simp add: rtsp_inv_def)
qed

text \<open>
  Publication \<open>k\<close> goes from one phase to another, with what the table and the requests must show of it.
\<close>

lemma pub_move_inv:
  assumes inv: "rtsp_inv s" and k: "rs_table s k = Some p"
    and c: "c = (if b = PubClosed then 1 else 0)"
    and m: "(m = rs_pubs s \<and> (listed b \<longleftrightarrow> listed (pb_phase p))) \<or>
            (listed b \<and> rs_pubs s (pb_path p) = None \<and> m = (rs_pubs s)(pb_path p \<mapsto> k)) \<or>
            (\<not> listed b \<and> rs_pubs s (pb_path p) = Some k \<and> m = (rs_pubs s)(pb_path p := None))"
    and q: "\<And>r path. rs_reqs s r \<noteq> Some (Built path k)"
    and b: "\<And>r. b = PubRunning r \<Longrightarrow> \<exists>h. rs_hubs s (pb_source p) = Some h \<and> r < next_reader h \<and>
              (\<forall>k' p'. rs_table s k' = Some p' \<and> pb_source p' = pb_source p \<longrightarrow> pb_phase p' \<noteq> PubRunning r)"
  shows "rtsp_inv (s\<lparr>rs_table := (rs_table s)(k \<mapsto> p\<lparr>pb_phase := b, pb_closes := c\<rparr>), rs_pubs := m\<rparr>)"
proof -
  have t: "table_ok s" and rq: "reqs_ok s" and hb: "hubs_ok s" and rd: "readers_ok s" and an: "answers_ok s"
    using inv by (simp_all add: rtsp_inv_def)
  let ?s = "s\<lparr>rs_table := (rs_table s)(k \<mapsto> p\<lparr>pb_phase := b, pb_closes := c\<rparr>), rs_pubs := m\<rparr>"
  have "hubs_ok ?s" using hb by (simp add: hubs_ok_def)
  moreover have "readers_ok ?s"
    unfolding readers_ok_def
  proof (intro conjI allI impI)
    fix j x
    assume "rs_table ?s j = Some x"
    then show "reader_ok ?s x"
    proof (cases "j = k")
      case True
      obtain h where h: "rs_hubs s (pb_source p) = Some h"
        using rd k unfolding readers_ok_def reader_ok_def by blast
      then have "b = PubRunning r \<Longrightarrow> r < next_reader h" for r
        using b [of r] by auto
      with True h \<open>rs_table ?s j = Some x\<close> show ?thesis by (auto simp: reader_ok_def)
    qed (use rd in \<open>auto simp: readers_ok_def reader_ok_def\<close>)
  next
    fix j j' x x' r
    assume x: "rs_table ?s j = Some x \<and> rs_table ?s j' = Some x' \<and> pb_source x = pb_source x' \<and>
      pb_phase x = PubRunning r \<and> pb_phase x' = PubRunning r"
    show "j = j'"
    proof (cases "j = k")
      case True
      with x b [of r] show ?thesis by (cases "j' = k") auto
    next
      case False
      show ?thesis
      proof (cases "j' = k")
        case True
        with x False b [of r] show ?thesis by auto
      next
        case j': False
        with x False have "rs_table s j = Some x \<and> rs_table s j' = Some x' \<and> pb_source x = pb_source x' \<and>
            pb_phase x = PubRunning r \<and> pb_phase x' = PubRunning r"
          by simp
        with rd show ?thesis unfolding readers_ok_def by blast
      qed
    qed
  qed
  moreover have "table_ok ?s"
    unfolding table_ok_def
  proof (intro conjI allI impI)
    fix j x
    assume x: "rs_table ?s j = Some x"
    show "j < rs_next ?s" "pb_closes x = (if pb_phase x = PubClosed then 1 else 0)"
      using x t k c by (cases "j = k"; force simp: table_ok_def)+
    show "listed (pb_phase x) \<longleftrightarrow> rs_pubs ?s (pb_path x) = Some j"
      using x t k m by (cases "j = k") (auto simp: table_ok_def split: if_splits)
  next
    fix path j
    assume "rs_pubs ?s path = Some j"
    then have "rs_pubs s path = Some j \<or> (path = pb_path p \<and> j = k)"
      using m by (auto split: if_splits)
    moreover have "\<exists>x. rs_table s j = Some x \<and> pb_path x = path" if "rs_pubs s path = Some j"
      using t that unfolding table_ok_def by blast
    ultimately show "\<exists>x. rs_table ?s j = Some x \<and> pb_path x = path"
      using k by (cases "j = k") auto
  qed
  moreover have "reqs_ok ?s"
    using rq q by (auto simp: reqs_ok_def)
  moreover have "answers_ok ?s" using an by (simp add: answers_ok_def)
  ultimately show ?thesis by (simp add: rtsp_inv_def)
qed

lemma pub_eq [simp]: "pb_closes p = 0 \<Longrightarrow> p\<lparr>pb_phase := b, pb_closes := 0\<rparr> = p\<lparr>pb_phase := b\<rparr>"
  by (cases p) simp

lemma pubs_table_swap [simp]: "s\<lparr>rs_pubs := m, rs_table := t\<rparr> = s\<lparr>rs_table := t, rs_pubs := m\<rparr>"
  by (cases s) simp

lemma no_request:
  assumes "rtsp_inv s" and "rs_table s k = Some p" and "pb_phase p \<noteq> PubBuilding"
  shows "rs_reqs s r \<noteq> Some (Built path k)"
  using assms unfolding rtsp_inv_def reqs_ok_def by fastforce

lemma open_count: "rtsp_inv s \<Longrightarrow> rs_table s k = Some p \<Longrightarrow> pb_phase p \<noteq> PubClosed \<Longrightarrow> pb_closes p = 0"
  unfolding rtsp_inv_def table_ok_def by auto

lemma listed_iff: "rtsp_inv s \<Longrightarrow> rs_table s k = Some p \<Longrightarrow> listed (pb_phase p) \<longleftrightarrow> rs_pubs s (pb_path p) = Some k"
  unfolding rtsp_inv_def table_ok_def by blast

lemma close_inv:
  assumes "rtsp_inv s" and "rs_table s k = Some p" and "pb_phase p = PubBuilding \<or> pb_phase p = PubRemoved"
    and "\<And>r path. rs_reqs s r \<noteq> Some (Built path k)"
  shows "rtsp_inv (close_pub k s)"
proof -
  have "pb_closes p = 0" using open_count [OF assms(1,2)] assms(3) by auto
  with pub_move_inv [OF assms(1,2), of 1 PubClosed "rs_pubs s"] assms(3,4)
  show ?thesis by (auto simp: close_pub_def set_pub_def assms(2))
qed

lemma describe_insert_inv:
  assumes inv: "rtsp_inv s" and r: "rs_reqs s r = Some (Built path k)"
  shows "rtsp_inv (describe_insert r path k s)"
proof -
  obtain p where p: "rs_table s k = Some p" "pb_path p = path" "pb_phase p = PubBuilding"
    using inv r unfolding rtsp_inv_def reqs_ok_def by blast
  have alone: "r' \<noteq> r \<Longrightarrow> rs_reqs s r' \<noteq> Some (Built path' k)" for r' path'
    using inv r unfolding rtsp_inv_def reqs_ok_def by blast
  let ?s = "s\<lparr>rs_reqs := (rs_reqs s)(r := None)\<rparr>"
  have s1: "rtsp_inv ?s" by (rule set_req_inv [OF inv]) auto
  have none: "rs_reqs ?s r' \<noteq> Some (Built path' k)" for r' path'
    using alone by simp
  show ?thesis
  proof (cases "rs_pubs s path")
    case (Some k')
    have "k' \<noteq> k" using Some listed_iff [OF inv p(1)] p by auto
    moreover have "rtsp_inv (close_pub k ?s)"
      by (rule close_inv [OF s1 _ _ none]) (use p in auto)
    moreover have "pub_open s k'" by (rule listed_open [OF inv Some])
    ultimately show ?thesis
      using Some by (auto simp: describe_insert_def pub_open_def close_pub_def intro!: answer_inv)
  next
    case None
    have "rtsp_inv (?s\<lparr>rs_table := (rs_table ?s)(k \<mapsto> p\<lparr>pb_phase := PubRegistered, pb_closes := 0\<rparr>),
        rs_pubs := (rs_pubs s)(path \<mapsto> k)\<rparr>)"
      by (rule pub_move_inv [OF s1 _ _ _ none]) (use p None in auto)
    moreover have "pb_closes p = 0" using open_count [OF inv p(1)] p(3) by simp
    ultimately show ?thesis
      using None p
      by (auto simp: describe_insert_def set_pub_def pub_open_def intro!: answer_inv)
  qed
qed

lemma run_start_inv:
  assumes inv: "rtsp_inv s" and p: "rs_table s k = Some p" "pb_phase p = PubRegistered"
    and h: "rs_hubs s (pb_source p) = Some h"
  shows "rtsp_inv (run_start k p h s)"
proof -
  have hi: "hub_inv h" using inv h by (auto simp: rtsp_inv_def hubs_ok_def)
  obtain r h' where a: "add_reader h 1024 = (r, h')" by fastforce
  have r: "r = next_reader h" "next_reader h' = Suc r"
    using a by (auto simp: add_reader_def Let_def)
  let ?s = "s\<lparr>rs_hubs := (rs_hubs s)(pb_source p \<mapsto> h')\<rparr>"
  have s1: "rtsp_inv ?s"
    by (rule hubs_grow_ok [OF inv hubs_grow_one [OF _ h]])
      (use inv add_reader_inv [OF hi, of 1024] a r in \<open>auto simp: rtsp_inv_def\<close>)
  have new: "pb_phase p' \<noteq> PubRunning r" if "rs_table s k' = Some p'" "pb_source p' = pb_source p" for k' p'
  proof
    assume run: "pb_phase p' = PubRunning r"
    have "reader_ok s p'" using inv that(1) by (auto simp: rtsp_inv_def readers_ok_def)
    with run that(2) h r(1) show False by (auto simp: reader_ok_def)
  qed
  have "rtsp_inv (?s\<lparr>rs_table := (rs_table ?s)(k \<mapsto> p\<lparr>pb_phase := PubRunning r, pb_closes := 0\<rparr>),
      rs_pubs := rs_pubs ?s\<rparr>)"
    by (rule pub_move_inv [OF s1]) (use p no_request [OF inv p(1)] r new in auto)
  moreover have "pb_closes p = 0" using open_count [OF inv p(1)] p(2) by simp
  ultimately show ?thesis
    using p(1) by (auto simp: run_start_def a set_pub_def)
qed

lemma recv_next [simp]: "next_reader (snd (recv h r)) = next_reader h"
  by (simp add: recv_def split: option.splits list.splits)

lemma run_pump_inv:
  assumes inv: "rtsp_inv s" and p: "rs_table s k = Some p" "pb_phase p = PubRunning r"
    and h: "rs_hubs s (pb_source p) = Some h"
  shows "\<exists>s'. run_pump encode k p r h s = Some s' \<and> rtsp_inv s'"
proof -
  have hi: "hub_inv h" and hb: "hubs_ok s" using inv h by (auto simp: rtsp_inv_def hubs_ok_def)
  obtain res h1 where a: "recv h r = (res, h1)" by fastforce
  show ?thesis
  proof (cases res)
    case (Received u)
    have "rtsp_inv (s\<lparr>rs_hubs := (rs_hubs s)(pb_source p \<mapsto> h1)\<rparr>)"
      by (rule hubs_grow_ok [OF inv hubs_grow_one [OF hb h]])
        (use recv_inv [OF hi, of r] recv_next [of h r] a in auto)
    then have "rtsp_inv (s\<lparr>rs_hubs := (rs_hubs s)(pb_source p \<mapsto> h1),
        rs_sent := rs_sent s @ map (\<lambda>q. (k, q)) (unit_packets encode p u)\<rparr>)"
      by (simp add: rtsp_inv_def hubs_ok_def readers_ok_def reader_ok_def table_ok_def reqs_ok_def answers_ok_def)
    with a Received show ?thesis by (simp add: run_pump_def)
  next
    case NotOk
    obtain h2 where h2: "remove_reader h r = Some h2" "hub_inv h2"
      using remove_reader_inv [OF hi] by blast
    have "next_reader h2 = next_reader h"
      using h2(1) by (auto simp: remove_reader_eq [OF hi] split: if_splits)
    then have s1: "rtsp_inv (s\<lparr>rs_hubs := (rs_hubs s)(pb_source p \<mapsto> h2)\<rparr>)" (is "rtsp_inv ?s")
      by (intro hubs_grow_ok [OF inv hubs_grow_one [OF hb h h2(2)]]) simp
    have "rtsp_inv (?s\<lparr>rs_table := (rs_table ?s)(k \<mapsto> p\<lparr>pb_phase := PubEnding, pb_closes := 0\<rparr>),
        rs_pubs := rs_pubs ?s\<rparr>)"
      by (rule pub_move_inv [OF s1]) (use p no_request [OF inv p(1)] in auto)
    moreover have "pb_closes p = 0" using open_count [OF inv p(1)] p(2) by simp
    ultimately show ?thesis
      using a NotOk h2(1) p(1) by (auto simp: run_pump_def set_pub_def)
  next
    case Blocks
    with a inv show ?thesis by (simp add: run_pump_def)
  qed
qed

lemma run_delete_inv:
  assumes inv: "rtsp_inv s" and p: "rs_table s k = Some p" "pb_phase p = PubEnding"
  shows "rtsp_inv (run_delete k p s)"
proof -
  have at: "rs_pubs s (pb_path p) = Some k" using listed_iff [OF inv p(1)] p(2) by simp
  have "rtsp_inv (s\<lparr>rs_table := (rs_table s)(k \<mapsto> p\<lparr>pb_phase := PubRemoved, pb_closes := 0\<rparr>),
      rs_pubs := (rs_pubs s)(pb_path p := None)\<rparr>)"
    by (rule pub_move_inv [OF inv p(1)]) (use p at no_request [OF inv p(1)] in auto)
  moreover have "pb_closes p = 0" using open_count [OF inv p(1)] p(2) by simp
  ultimately show ?thesis
    using at p(1) by (auto simp: run_delete_def set_pub_def)
qed

lemma hub_step_next: "hub_inv h \<Longrightarrow> hub_step h e = Some h' \<Longrightarrow> next_reader h \<le> next_reader h'"
  by (cases e)
    (auto simp: write_unit_eq close_stream_eq remove_reader_eq add_reader_def Let_def split: if_splits)

lemma rtsp_step_inv:
  assumes "rtsp_step enc_ok encode s s'" and "rtsp_inv s"
  shows "rtsp_inv s'"
  using assms
proof (induction rule: rtsp_step.induct)
  case (Setup s path)
  then show ?case by (rule on_setup_inv)
next
  case (Begin s r path)
  then show ?case by (simp add: describe_begin_inv)
next
  case (Source s r path)
  then show ?case by (simp add: describe_source_inv)
next
  case (Build s r path i init_ok start)
  obtain h where h: "rs_hubs s i = Some h"
    using Build unfolding rtsp_inv_def hubs_ok_def by blast
  show ?case
  proof (cases "new_publication enc_ok init_ok start path i h")
    case None
    with h Build(2) show ?thesis
      by (auto simp: describe_build_def intro!: answer_inv set_req_inv)
  next
    case (Some p)
    then have "pb_path p = path" "pb_source p = i" "pb_phase p = PubBuilding" "pb_closes p = 0"
      by (auto simp: new_publication_def split: option.splits if_splits)
    from build_inv [OF Build(2) h this] h Some show ?thesis by (simp add: describe_build_def)
  qed
next
  case (Insert s r path k)
  then show ?case by (simp add: describe_insert_inv)
next
  case (Attach s k p h)
  then show ?case by (simp add: run_start_inv)
next
  case (Pump s k p r h s')
  with run_pump_inv [OF Pump(5) Pump(1,2,3), of encode] show ?case by auto
next
  case (Delete s k p)
  then show ?case by (simp add: run_delete_inv)
next
  case (Finish s k p)
  then show ?case using no_request [OF Finish(3,1)] by (intro close_inv) auto
next
  case (Hub s i h e h')
  then have hi: "hub_inv h" and hb: "hubs_ok s" by (auto simp: rtsp_inv_def hubs_ok_def)
  obtain h1 where "hub_step h e = Some h1" "hub_inv h1" using hub_step_inv [OF hi] by blast
  with Hub(3) have "hub_inv h'" by simp
  then show ?case
    by (rule hubs_grow_ok [OF Hub(4) hubs_grow_one [OF hb Hub(1)]]) (rule hub_step_next [OF hi Hub(3)])
next
  case (NewHub s i ts)
  then have "hubs_grow (rs_hubs s) ((rs_hubs s)(i \<mapsto> new_stream ts))"
    using hub_inv_new by (auto simp: hubs_grow_def rtsp_inv_def hubs_ok_def)
  then show ?case by (rule hubs_grow_ok [OF NewHub(2)])
next
  case (Live live s)
  then show ?case
    by (simp add: rtsp_inv_def answers_ok_def) (simp add: rtsp_ok_defs)
qed

lemma rtsp_reach_inv: "(rtsp_step enc_ok encode)\<^sup>*\<^sup>* rtsp_start s \<Longrightarrow> rtsp_inv s"
  by (induction rule: rtranclp_induct) (auto intro: rtsp_inv_start rtsp_step_inv)


text \<open>Two clients ask for a camera at once; the second finds the first one's publication.\<close>

definition race_track :: track where
  "race_track = \<lparr>track_id = 1, kind = MediaVideo, track_codec = CodecH264, clock_rate = 90000, sps = [1], pps = [2],
     vps = [], audio_config = None\<rparr>"

definition race_live :: "byte list rtsp_srv" where
  "race_live = rtsp_start\<lparr>rs_hubs := [0 \<mapsto> new_stream [race_track]], rs_live := [''cam'' \<mapsto> 0]\<rparr>"

definition race_built :: "byte list rtsp_srv" where
  "race_built = describe_build (\<lambda>t. True) True 9 2 ''cam'' 0 (describe_build (\<lambda>t. True) True 7 1 ''cam'' 0
     (describe_source 2 ''cam'' (describe_source 1 ''cam''
       (describe_begin 2 ''cam/'' (describe_begin 1 ''/cam'' race_live)))))"

definition race_end :: "byte list rtsp_srv" where
  "race_end = describe_insert 2 ''cam'' 1 (describe_insert 1 ''cam'' 0 race_built)"

lemmas race_defs = race_live_def race_built_def race_end_def rtsp_start_def describe_begin_def describe_source_def
  describe_build_def describe_insert_def answer_def close_pub_def set_pub_def new_publication_def pub_open_def
  camera_path_def trim_by_def trim_left_def trim_right_def new_stream_def race_track_def

lemma race_reach: "(rtsp_step (\<lambda>t. True) (\<lambda>t au. Some au))\<^sup>*\<^sup>* rtsp_start race_end"
proof -
  let ?r = "rtsp_step (\<lambda>t. True) (\<lambda>t au. Some au)"
  let ?h = "rtsp_start\<lparr>rs_hubs := [0 \<mapsto> new_stream [race_track]]\<rparr>"
  let ?s1 = "describe_begin 1 ''/cam'' race_live"
  let ?s2 = "describe_begin 2 ''cam/'' ?s1"
  let ?s3 = "describe_source 1 ''cam'' ?s2"
  let ?s4 = "describe_source 2 ''cam'' ?s3"
  let ?s5 = "describe_build (\<lambda>t. True) True 7 1 ''cam'' 0 ?s4"
  have "?r\<^sup>*\<^sup>* rtsp_start ?h"
    using NewHub [of rtsp_start 0 "\<lambda>t. True" "\<lambda>t au. Some au" "[race_track]"] by (simp add: rtsp_start_def)
  also have "?r ?h race_live"
    using Live [of "[''cam'' \<mapsto> 0]" ?h] by (simp add: race_live_def)
  also have "?r race_live ?s1" by (rule Begin) (simp add: race_defs)
  also have "?r ?s1 ?s2" by (rule Begin) (simp add: race_defs)
  also have "?r ?s2 ?s3" by (rule Source) (simp add: race_defs)
  also have "?r ?s3 ?s4" by (rule Source) (simp add: race_defs)
  also have "?r ?s4 ?s5" by (rule Build) (simp add: race_defs)
  also have "?r ?s5 race_built" unfolding race_built_def by (rule Build) (simp add: race_defs)
  also have "?r race_built (describe_insert 1 ''cam'' 0 race_built)" by (rule Insert) (simp add: race_defs)
  also have "?r (describe_insert 1 ''cam'' 0 race_built) race_end"
    unfolding race_end_def by (rule Insert) (simp add: race_defs)
  finally show ?thesis .
qed


section \<open>A publication that never ends\<close>

text \<open>
  \<^verbatim>\<open>run\<close> attaches its reader only after the publication is in the table.  When the camera's stream
  is closed in between, the reader's channel is never closed: the goroutine waits for ever.
\<close>

definition stale :: "nat \<Rightarrow> nat \<Rightarrow> string \<Rightarrow> 'p rtsp_srv \<Rightarrow> bool" where
  "stale k r path s \<longleftrightarrow> rtsp_inv s \<and> rs_pubs s path = Some k \<and>
     (\<exists>p h. rs_table s k = Some p \<and> pb_path p = path \<and> pb_phase p = PubRunning r \<and>
        rs_hubs s (pb_source p) = Some h \<and> stuck_reader r h)"

lemma late_publication_stale:
  assumes "rtsp_inv s" and "rs_table s k = Some p" and "pb_phase p = PubRegistered"
    and "rs_hubs s (pb_source p) = Some h" and "closed h"
  shows "stale k (next_reader h) (pb_path p) (run_start k p h s)"
proof -
  obtain r h' where a: "add_reader h 1024 = (r, h')" by fastforce
  have hi: "hub_inv h" using assms(1,4) by (auto simp: rtsp_inv_def hubs_ok_def)
  have r: "r = next_reader h" using a by (auto simp: add_reader_def Let_def)
  have "stuck_reader r h'"
    using add_reader_inv [OF hi, of 1024] a assms(5) by (auto simp: stuck_reader_def add_reader_def Let_def)
  moreover have "rs_pubs s (pb_path p) = Some k"
    using listed_iff [OF assms(1,2)] assms(3) by simp
  ultimately show ?thesis
    using run_start_inv [OF assms(1-4)] assms(2) by (auto simp: stale_def run_start_def a r)
qed

text \<open>Nothing ever clears it: its camera stays unreachable, and it sends nothing.\<close>

lemma stale_step:
  assumes "stale k r path s" and step: "rtsp_step enc_ok encode s s'"
  shows "stale k r path s' \<and> filter (\<lambda>x. fst x = k) (rs_sent s') = filter (\<lambda>x. fst x = k) (rs_sent s)"
proof -
  obtain p h where inv: "rtsp_inv s" and at: "rs_pubs s path = Some k" and p: "rs_table s k = Some p"
    "pb_path p = path" "pb_phase p = PubRunning r" "rs_hubs s (pb_source p) = Some h" "stuck_reader r h"
    using assms(1) by (auto simp: stale_def)
  have inv': "rtsp_inv s'" by (rule rtsp_step_inv [OF step inv])
  have "rs_pubs s' path = Some k \<and> (\<exists>h'. rs_table s' k = Some p \<and> rs_hubs s' (pb_source p) = Some h' \<and> stuck_reader r h') \<and>
      filter (\<lambda>x. fst x = k) (rs_sent s') = filter (\<lambda>x. fst x = k) (rs_sent s)"
    using step
  proof cases
    case (Build q pth i init_ok start)
    have "k \<noteq> rs_next s" using inv p(1) by (auto simp: rtsp_inv_def table_ok_def)
    with Build at p show ?thesis by (auto simp: describe_build_def split: option.splits)
  next
    case (Insert q pth j)
    then obtain x where "rs_table s j = Some x" "pb_phase x = PubBuilding"
      using inv unfolding rtsp_inv_def reqs_ok_def by blast
    with p have "j \<noteq> k" by auto
    with Insert at p show ?thesis by (auto simp: describe_insert_def close_pub_def Let_def split: option.splits)
  next
    case (Attach j x g)
    with p have "j \<noteq> k" by auto
    moreover have "stuck_reader r (snd (add_reader h 1024))"
      by (rule stuck_reader_step [OF p(5), of "Add 1024"]) auto
    ultimately show ?thesis using Attach at p by (auto simp: run_start_def split_beta Let_def)
  next
    case (Pump j x q g)
    show ?thesis
    proof (cases "j = k")
      case True
      with Pump p have [simp]: "x = p" "q = r" "g = h" by auto
      have "recv h r = (Blocks, h)"
        using p(5) by (auto simp: stuck_reader_def recv_def)
      with Pump at p show ?thesis by (auto simp: run_pump_def)
    next
      case False
      show ?thesis
      proof (cases "pb_source x = pb_source p")
        case True
        with Pump p have [simp]: "g = h" by simp
        have "q \<noteq> r"
          using inv False True Pump(1,2) p(1,3) unfolding rtsp_inv_def readers_ok_def by metis
        then have "stuck_reader r (snd (recv h q))"
          and "\<And>h'. remove_reader h q = Some h' \<Longrightarrow> stuck_reader r h'"
          using stuck_reader_step [OF p(5), of "Recv q"] stuck_reader_step [OF p(5), of "Remove q"] by auto
        with True False Pump at p show ?thesis
          by (auto simp: run_pump_def split: prod.splits recv_result.splits option.splits)
      next
        case False': False
        with False Pump at p show ?thesis
          by (auto simp: run_pump_def split: prod.splits recv_result.splits option.splits)
      qed
    qed
  next
    case (Delete j x)
    with p have "j \<noteq> k" by auto
    with Delete at p show ?thesis by (auto simp: run_delete_def)
  next
    case (Finish j x)
    with p have "j \<noteq> k" by auto
    with Finish at p show ?thesis by (auto simp: close_pub_def)
  next
    case (Hub i g e g')
    show ?thesis
    proof (cases "i = pb_source p")
      case True
      have "held s i r" using p True by (auto simp: held_def)
      with Hub have "e \<noteq> Remove r" by auto
      with True Hub p stuck_reader_step [OF p(5), of e g'] at show ?thesis by auto
    next
      case False
      with Hub at p show ?thesis by auto
    qed
  qed (use at p in \<open>auto simp: on_setup_def describe_begin_def describe_source_def split: option.splits\<close>)
  with inv' p show ?thesis by (auto simp: stale_def)
qed

end
