(* ===== verification/Spec2Isabelle.thy ===== *)
theory Spec2Isabelle
  imports Core_Stream Gb_Rtp Gb_Ps Gb_Media Flv Gb_Play Rec_Retention Rec_Timeline
    Storage_Crypto Transcode_Live Rec_Hls Motion_Detect Api_Users
    Notify_Throttle Event_Store Mgr_Motion Mgr_Traffic Mgr_Runtime Mgr_Races
    Face_Operations Storage_Archive Rtmp_Ingest Mgr_Services Mse_Fragmenter Rec_Transcode
    Rtsp_Publish
begin

text \<open>
  A verification development of kenko-nvr, a network video recorder in Go.

  The program.  Cameras are pulled over RTSP or ONVIF, publish over RTMP, or register over SIP and
  send RTP (GB28181).  Each camera has a runtime in the manager (\<^verbatim>\<open>internal/manager\<close>) that owns one
  stream hub (\<^verbatim>\<open>internal/core\<close>) per connection; the hub hands every media unit to its readers: the
  recorder (\<^verbatim>\<open>internal/recording\<close>), the HLS muxer, restreams, browsers, the live transcoder
  (\<^verbatim>\<open>internal/transcode\<close>).  The recorder writes segments and their rows (\<^verbatim>\<open>internal/database\<close>);
  retention deletes, the uploader archives to S3 (\<^verbatim>\<open>internal/storage\<close>), playback reads from either
  (\<^verbatim>\<open>internal/rechls\<close>, \<^verbatim>\<open>internal/api\<close>); motion detection (\<^verbatim>\<open>internal/motion\<close>) writes events, gates
  recording and notifies (\<^verbatim>\<open>internal/notify\<close>); the face worker (\<^verbatim>\<open>internal/face\<close>) analyses recordings
  and groups faces into persons, which the operator corrects through the API.

  Conventions.  Definitions follow the Go functions one by one and keep their names in snake case;
  a struct is a record with the same fields, an enumeration a datatype.  Fixed-width integers that
  can wrap are words, others \<open>int\<close> or \<open>nat\<close>; floating point values are rationals, so rounding is
  not modelled.  Go maps are partial functions or, where the walk order matters, lists whose order is
  that of the walk (arbitrary in the theorems).  A run-time panic is \<open>None\<close>, an error a value of a sum, option or
  a flag.  Calls that leave the program (the database engine, files, processes, network, clock,
  random source) draw from schedules or functions that the theorems quantify over, so that every
  pattern of failures is covered unless a theorem says otherwise.  Concurrency is a list of atomic
  steps, one per critical section or statement, in the order they happened; loops that may not end
  are \<open>partial_function (option)\<close>, and that they do end is proved.  The sections below name
  theories and the sources under \<^verbatim>\<open>src/internal\<close>.

  Shared.  \<open>Prelude\<close>: widths, slices, big-endian numbers, stable sorting.  \<open>GoStrings\<close>: the functions
  of \<^verbatim>\<open>strings\<close> and \<^verbatim>\<open>strconv\<close> in use, on bytes.

  Streams.  \<open>Core_Stream\<close> (\<^verbatim>\<open>core\<close>): the hub and its bounded reader channels; no interleaving panics,
  a reader gets a subsequence in order with the rest counted as dropped.
  \<open>Flv\<close> (\<^verbatim>\<open>restream/flv.go\<close>, \<^verbatim>\<open>rtmp/flv.go\<close>): the muxer's output parses into tags, and the ingest reads
  back the configurations and units it writes.
  \<open>Rtmp_Ingest\<close> (\<^verbatim>\<open>rtmp/server.go\<close>): a connection's handler; its calls are well typed, a restream
  is read back.
  \<open>Mse_Fragmenter\<close> (\<^verbatim>\<open>mse/streamer.go\<close>, \<^verbatim>\<open>api/mse.go\<close>): a viewer's WebSocket; it gets exactly the
  complete groups of pictures.  \<open>Ts_Feed\<close> (\<^verbatim>\<open>tsfeed\<close>): a stream as transport stream packets.
  \<open>Rtsp_Publish\<close> (\<^verbatim>\<open>rtspserver/server.go\<close>): publications on demand, their goroutines and the handlers
  as steps; the table, its readers and the closings stay consistent.
  \<open>Transcode_Live\<close>, \<open>Hwaccel\<close> (\<^verbatim>\<open>transcode\<close>, \<^verbatim>\<open>hwaccel\<close>): the shared FFmpeg process under reference
  counting as a step machine, its safety invariant, exact timestamp conversion, encoder choice.

  GB28181 (\<^verbatim>\<open>gb28181\<close>).  \<open>Gb_Sip\<close> parses and encodes messages (inverse up to what the encoder fills in),
  \<open>Gb_Auth\<close> decides digests, \<open>Gb_Server\<close> is the whole handler of a datagram over the registry (each
  request answered once, who may enter the device table), \<open>Gb_Play\<close> ports, invitations and sessions
  as steps beside the handlers, \<open>Gb_Rtp\<close> and \<open>Gb_Ps\<close> reassembly and demultiplexing (total on every
  input, exact on well-formed input), \<open>Gb_Media\<close> NAL units, readiness and the unwrapped clock.

  Recording.  \<open>Rec_Naming\<close> (\<^verbatim>\<open>naming.go\<close>): paths stay below their root.  \<open>Rec_Recorder\<close>, \<open>Rec_Timeline\<close>
  (\<^verbatim>\<open>recorder.go\<close>, \<^verbatim>\<open>segmenter.go\<close>): the loop of the recorder with pre-roll, gate, rotation and
  failing files; the files' timelines have no gap, a continuous run loses no picture.
  \<open>Recording_Store\<close> (\<^verbatim>\<open>database/recording_store.go\<close>): the table.  \<open>Rec_Retention\<close> (\<^verbatim>\<open>retention.go\<close>): the pass
  over an interface given as a locale and interpreted on the table with its disk; it ends, spares
  what it must and takes the oldest first.  \<open>Rec_Hls\<close> (\<^verbatim>\<open>rechls\<close>): the session table of playback.
  \<open>Storage_Crypto\<close> (\<^verbatim>\<open>storage/crypto.go\<close>): random access into encrypted objects is exact.
  \<open>Rec_Transcode\<close> (\<^verbatim>\<open>transcode.go\<close>, the sink of \<^verbatim>\<open>manager/manager.go\<close>): FFmpeg's segments are moved
  and registered; none is lost and each row has its file.
  \<open>Storage_Upload\<close>, \<open>Storage_Archive\<close> (\<^verbatim>\<open>storage/s3.go\<close>, \<^verbatim>\<open>storage/upload.go\<close>, \<^verbatim>\<open>api/recordings.go\<close>):
  uploader, upload worker, playback and deletion over files, bucket and table with failing calls,
  composed with retention through its locale; every finished recording that is listed can be played.

  Events.  \<open>Event_Store\<close> (\<^verbatim>\<open>database/event_store.go\<close>), \<open>Motion_Detect\<close> (\<^verbatim>\<open>motion\<close>): the detector equals
  a declarative definition of motion intervals.  \<open>Mgr_Motion\<close> (\<^verbatim>\<open>manager/runtime.go\<close>): its callbacks
  write one row per interval through the event interface, a locale interpreted on the table.
  \<open>Notify_Throttle\<close> (\<^verbatim>\<open>notify/notify.go\<close>): throttling equals a reference with the full history.

  Manager (\<^verbatim>\<open>manager\<close>).  \<open>Mgr_Runtime\<close>: registry, reconnect loop, publishers, consumers and the
  manager's lock as steps of one state, with its consistency invariant; \<open>Mgr_Races\<close>: runs of it that
  end badly; \<open>Mgr_Traffic\<close>: byte accounting on wrapping counters.
  \<open>Mgr_Services\<close> (\<^verbatim>\<open>manager/services.go\<close>, settings of \<^verbatim>\<open>database/models.go\<close>): the supervised servers
  converge to the settings.

  Accounts.  \<open>Api_Users\<close> (\<^verbatim>\<open>api/auth.go\<close>, \<^verbatim>\<open>api/users.go\<close>, \<^verbatim>\<open>api/server.go\<close>, \<^verbatim>\<open>database/user_store.go\<close>): tokens,
  middleware and the handlers; only administrators change accounts, and one always remains.

  Faces.  \<open>Face_Tables\<close> (\<^verbatim>\<open>database/face*.go\<close>), \<open>Face_Vec\<close>, \<open>Face_Tracker\<close>, \<open>Face_Gallery\<close>, \<open>Face_Worker\<close>,
  \<open>Face_Cluster\<close> (\<^verbatim>\<open>face\<close>), \<open>Face_Corrections\<close> (\<^verbatim>\<open>api/faces_corrections.go\<close>): statements as actions of a state
  that may fail (\<open>Face_Acts\<close> has their calculus of triples), the worker and its queue (\<open>Face_Jobs\<close>:
  draining ends within the jobs' budgets), tracking as a partition, and the consistency of
  identities through every operation (\<open>Face_Invariant\<close>, \<open>Face_Identity\<close>, \<open>Face_Assigning\<close>,
  \<open>Face_Consistency\<close>, \<open>Face_Operations\<close>).

  Bounds and fuel.  No definition carries fuel of its own; the retries, capacities and limits (8192
  packets, seven INVITE datagrams, eight playback sessions, three attempts of a job, thirty
  re-clustering rounds) are constants of the code.

  Not modelled.  The codecs, containers and protocols of dependencies (fMP4 and MPEG-TS writing, RTSP,
  RTMP chunks, WebRTC, MQTT, SMTP, S3, XML) and the processes of FFmpeg, which are parameters where
  the code depends on their answers; the text of SQL statements, of log lines and of notifications;
  floating point rounding; the sockets' read loops, tickers and start-up wiring; the ONVIF client, the RTSP source and
  the other browser transports, whose code is calls of such libraries.
\<close>

end
